(* ===== verification/Prelude.thy ===== *)
theory Prelude
  imports Main "HOL-Library.Word" "HOL-Library.List_Lexorder" "HOL-Library.Char_ord"
    "HOL-Library.AList" "HOL-Library.Multiset"
begin

text \<open>
  What the components share: the JavaScript values the kernel works on, and the generic
  lemmas about them.
  \<^item> A \<open>Uint8Array\<close> is a list of 8-bit words, a JavaScript string the list of its UTF-16
    code units (\<open>jstr\<close>); \<open><\<close> on strings is the lexicographic order on code units that the
    language uses for strings.
  \<^item> A JavaScript number that the code uses as a counter, sequence number or offset is an
    \<open>int\<close>. The integers of the model are exact, so a statement about a number outside the
    safe range is not a statement about the code; \<open>is_safe_integer\<close> is the code's guard.
  \<^item> A \<open>Map\<close> is an association list in insertion order (the library's \<open>AList.update\<close>
    replaces in place and appends a new key at the end, as \<open>Map.set\<close> does), a \<open>Set\<close> a
    list without repetition in insertion order.
  \<^item> \<open>Array.prototype.sort\<close> is a stable sort by a comparator that returns a number.
  \<^item> An exception is the \<open>Inl\<close> side of a sum.
\<close>

named_theorems wf_intros \<open>preservation of a component's invariant, one rule per operation\<close>
named_theorems outcome_simps \<open>the outcome of an operation on each branch\<close>

type_synonym byte = "8 word"
type_synonym bytes = "byte list"
type_synonym jstr = "16 word list"

subsection \<open>Strings and numbers\<close>

definition jlit :: "string \<Rightarrow> jstr" where
  "jlit s = map (\<lambda>c. of_nat (of_char c)) s"

lemma of_char_word16_inj: "(of_nat (of_char c) :: 16 word) = of_nat (of_char d) \<longleftrightarrow> c = d"
proof
  assume eq: "(of_nat (of_char c) :: 16 word) = of_nat (of_char d)"
  have "(of_char x :: nat) < 2 ^ LENGTH(16)" for x :: char
  proof -
    have "(of_char x :: nat) < 256" by (rule nat_of_char_less_256)
    then show ?thesis by (rule order_less_trans) simp
  qed
  then have "unat (of_nat (of_char x) :: 16 word) = (of_char x :: nat)" for x :: char
    by (simp add: unat_of_nat take_bit_nat_eq_self)
  with eq have "(of_char c :: nat) = of_char d" by metis
  then show "c = d" by simp
qed simp

lemma jlit_eq_iff [simp]: "jlit s = jlit t \<longleftrightarrow> s = t"
  by (simp add: jlit_def inj_map_eq_map inj_def of_char_word16_inj)

lemma jlit_Nil [simp]: "jlit [] = []" and jlit_eq_Nil_iff [simp]: "jlit s = [] \<longleftrightarrow> s = []"
  by (simp_all add: jlit_def)

definition max_safe_integer :: int where
  "max_safe_integer = 9007199254740991"

definition is_safe_integer :: "int \<Rightarrow> bool" where
  "is_safe_integer n \<longleftrightarrow> \<bar>n\<bar> \<le> max_safe_integer"

text \<open>\<open>String(n)\<close> for an integer \<open>n\<close> in the safe range.\<close>

definition digit :: "nat \<Rightarrow> 16 word" where
  "digit d = of_nat (48 + d)"

fun dec_nat :: "nat \<Rightarrow> jstr" where
  "dec_nat n = (if n < 10 then [digit n] else dec_nat (n div 10) @ [digit (n mod 10)])"

declare dec_nat.simps [simp del]

definition dec_int :: "int \<Rightarrow> jstr" where
  "dec_int n = (if n < 0 then 45 # dec_nat (nat (- n)) else dec_nat (nat n))"

lemma unat_digit: "d < 10 \<Longrightarrow> unat (digit d) = 48 + d"
  unfolding digit_def by (subst unat_of_nat) (simp del: of_nat_add)

lemma digit_inj: "c < 10 \<Longrightarrow> d < 10 \<Longrightarrow> digit c = digit d \<longleftrightarrow> c = d"
  by (metis add_left_cancel unat_digit)

lemma dec_nat_neq_Nil [simp]: "dec_nat n \<noteq> []"
  by (subst dec_nat.simps) simp

lemma dec_nat_digits: "c \<in> set (dec_nat n) \<Longrightarrow> 48 \<le> unat c \<and> unat c \<le> 57"
proof (induction n rule: dec_nat.induct)
  case (1 n)
  have d: "k < 10 \<Longrightarrow> 48 \<le> unat (digit k) \<and> unat (digit k) \<le> 57" for k
    by (simp add: unat_digit)
  show ?case
  proof (cases "n < 10")
    case True
    with "1.prems" d show ?thesis by (simp add: dec_nat.simps [of n])
  next
    case False
    with "1.prems" have "c \<in> set (dec_nat (n div 10)) \<or> c = digit (n mod 10)"
      by (auto simp: dec_nat.simps [of n])
    with "1.IH" [OF False] d [of "n mod 10"] show ?thesis by auto
  qed
qed

lemma dec_nat_inj: "dec_nat m = dec_nat n \<Longrightarrow> m = n"
proof (induction m arbitrary: n rule: dec_nat.induct)
  case (1 m)
  show ?case
  proof (cases "m < 10")
    case True
    then have "[digit m] = dec_nat n" using "1.prems" by (simp add: dec_nat.simps [of m])
    moreover have "[d] \<noteq> dec_nat (n div 10) @ [e]" for d e
      by (metis append_Nil append1_eq_conv dec_nat_neq_Nil)
    ultimately have "n < 10" "digit m = digit n"
      by (simp_all add: dec_nat.simps [of n] split: if_splits)
    with True show ?thesis by (simp add: digit_inj)
  next
    case False
    then have "dec_nat (m div 10) @ [digit (m mod 10)] = dec_nat n"
      using "1.prems" by (simp add: dec_nat.simps [of m])
    then have n: "\<not> n < 10" "dec_nat (m div 10) = dec_nat (n div 10)" "digit (m mod 10) = digit (n mod 10)"
      by (auto simp: dec_nat.simps [of n] split: if_splits)
    then have "m div 10 = n div 10" "m mod 10 = n mod 10"
      using "1.IH" [OF False] by (simp_all add: digit_inj)
    then show ?thesis by (metis div_mult_mod_eq)
  qed
qed

lemma dec_int_units: "c \<in> set (dec_int n) \<Longrightarrow> 45 \<le> unat c \<and> unat c \<le> 57"
  by (auto simp: dec_int_def dest: dec_nat_digits split: if_splits)

lemma dec_int_no_nul [simp]: "0 \<notin> set (dec_int n)"
  using dec_int_units [of 0 n] by auto

lemma minus_not_digit: "45 \<notin> set (dec_nat n)"
  using dec_nat_digits [of 45 n] by auto

lemma dec_int_inj [simp]: "dec_int m = dec_int n \<longleftrightarrow> m = n"
proof
  assume eq: "dec_int m = dec_int n"
  have *: "45 # xs \<noteq> dec_nat k" for xs k
    using minus_not_digit [of k] by (metis list.set_intros(1))
  show "m = n"
  proof (cases "m < 0"; cases "n < 0")
    assume "\<not> m < 0" "n < 0"
    with eq * [of "dec_nat (nat (- n))" "nat m"] show ?thesis by (simp add: dec_int_def)
  next
    assume "m < 0" "\<not> n < 0"
    with eq * [of "dec_nat (nat (- m))" "nat n"] show ?thesis by (simp add: dec_int_def)
  qed (use eq in \<open>auto simp: dec_int_def dest: dec_nat_inj\<close>)
qed simp

text \<open>The keys \<open>`${a}\x00${b}`\<close>: a separator that the last part does not contain.\<close>

lemma sep_last_inj:
  "x \<notin> set b \<Longrightarrow> x \<notin> set d \<Longrightarrow> a @ x # b = c @ x # d \<longleftrightarrow> a = c \<and> b = d"
  using append_Cons_eq_iff [of x a c b d] by (auto simp: append_eq_append_conv2 Cons_eq_append_conv append_eq_Cons_conv)

lemma sep_first_inj:
  "x \<notin> set a \<Longrightarrow> x \<notin> set c \<Longrightarrow> a @ x # b = c @ x # d \<longleftrightarrow> a = c \<and> b = d"
  by (auto simp: append_eq_append_conv2 Cons_eq_append_conv append_eq_Cons_conv)

subsection \<open>Map and Set in insertion order\<close>

abbreviation jm_get :: "('k \<times> 'v) list \<Rightarrow> 'k \<Rightarrow> 'v option" where
  "jm_get \<equiv> map_of"

abbreviation jm_set :: "'k \<Rightarrow> 'v \<Rightarrow> ('k \<times> 'v) list \<Rightarrow> ('k \<times> 'v) list" where
  "jm_set \<equiv> AList.update"

abbreviation jm_delete :: "'k \<Rightarrow> ('k \<times> 'v) list \<Rightarrow> ('k \<times> 'v) list" where
  "jm_delete \<equiv> AList.delete"

abbreviation jm_keys :: "('k \<times> 'v) list \<Rightarrow> 'k list" where
  "jm_keys \<equiv> map fst"

definition js_add :: "'a \<Rightarrow> 'a list \<Rightarrow> 'a list" where
  "js_add x xs = (if x \<in> set xs then xs else xs @ [x])"

definition js_remove :: "'a \<Rightarrow> 'a list \<Rightarrow> 'a list" where
  "js_remove x xs = filter (\<lambda>y. y \<noteq> x) xs"

lemma set_js_add [simp]: "set (js_add x xs) = insert x (set xs)"
  by (auto simp: js_add_def)

lemma distinct_js_add [simp]: "distinct (js_add x xs) \<longleftrightarrow> distinct xs"
  by (auto simp: js_add_def)

lemma length_js_add: "length (js_add x xs) = (if x \<in> set xs then length xs else Suc (length xs))"
  by (simp add: js_add_def)

lemma set_js_remove [simp]: "set (js_remove x xs) = set xs - {x}"
  by (auto simp: js_remove_def)

lemma distinct_js_remove [simp]: "distinct xs \<Longrightarrow> distinct (js_remove x xs)"
  by (simp add: js_remove_def)

lemma jm_get_set: "jm_get (jm_set k v m) = (jm_get m)(k \<mapsto> v)"
  by (simp add: update_conv')

lemma jm_get_delete: "jm_get (jm_delete k m) = (jm_get m)(k := None)"
  by (simp add: delete_conv')

lemma jm_set_fresh: "jm_get m k = None \<Longrightarrow> jm_set k v m = m @ [(k, v)]"
  by (induction m) auto

lemma jm_set_present: "jm_get m k \<noteq> None \<Longrightarrow> jm_keys (jm_set k v m) = jm_keys m"
  by (induction m) auto

lemma jm_mem_get: "distinct (jm_keys m) \<Longrightarrow> (k, v) \<in> set m \<longleftrightarrow> jm_get m k = Some v"
  by simp

lemma set_jm_delete: "set (jm_delete k m) = {p \<in> set m. fst p \<noteq> k}"
  by (auto simp: AList.delete_eq)

lemma set_jm_set: "p \<in> set (jm_set k v m) \<Longrightarrow> p = (k, v) \<or> p \<in> set m"
  by (induction m) (auto split: if_splits)

lemma jm_get_in: "jm_get m k = Some v \<Longrightarrow> (k, v) \<in> set m"
  by (rule map_of_SomeD)

subsection \<open>Stable sorting by a comparator\<close>

fun js_insert :: "('a \<Rightarrow> 'a \<Rightarrow> int) \<Rightarrow> 'a \<Rightarrow> 'a list \<Rightarrow> 'a list" where
  "js_insert cmp x [] = [x]"
| "js_insert cmp x (y # ys) = (if cmp x y \<le> 0 then x # y # ys else y # js_insert cmp x ys)"

definition js_sort :: "('a \<Rightarrow> 'a \<Rightarrow> int) \<Rightarrow> 'a list \<Rightarrow> 'a list" where
  "js_sort cmp xs = foldr (js_insert cmp) xs []"

lemma js_sort_simps [simp]:
  "js_sort cmp [] = []" "js_sort cmp (x # xs) = js_insert cmp x (js_sort cmp xs)"
  by (simp_all add: js_sort_def)

lemma mset_js_insert: "mset (js_insert cmp x xs) = add_mset x (mset xs)"
  by (induction xs) auto

lemma mset_js_sort [simp]: "mset (js_sort cmp xs) = mset xs"
  by (induction xs) (auto simp: mset_js_insert)

lemma set_js_sort [simp]: "set (js_sort cmp xs) = set xs"
  by (metis mset_js_sort set_mset_mset)

lemma length_js_sort [simp]: "length (js_sort cmp xs) = length xs"
  by (metis mset_js_sort size_mset)

lemma distinct_js_sort [simp]: "distinct (js_sort cmp xs) = distinct xs"
  by (metis mset_eq_imp_distinct_iff mset_js_sort)

text \<open>
  A comparator whose sign is the order of a key. Sorting by it is the library's stable
  \<open>sort_key\<close>; when the key tells the elements apart, the result depends on the set of
  elements only, not on the order in which they arrived.
\<close>

locale comparator =
  fixes cmp :: "'a \<Rightarrow> 'a \<Rightarrow> int" and key :: "'a \<Rightarrow> 'k::linorder"
  assumes cmp_key: "cmp x y \<le> 0 \<longleftrightarrow> key x \<le> key y"
begin

lemma insert_is_insort: "js_insert cmp x xs = insort_key key x xs"
  by (induction xs) (auto simp: cmp_key)

lemma sort_is_sort_key: "js_sort cmp xs = sort_key key xs"
  by (induction xs) (auto simp: insert_is_insort)

lemma sort_sorted: "sorted (map key (js_sort cmp xs))"
  by (simp add: sort_is_sort_key)

lemma sort_stable: "filter (\<lambda>y. key y = k) (js_sort cmp xs) = filter (\<lambda>y. key y = k) xs"
  by (simp add: sort_is_sort_key sort_key_stable)

lemma sort_id: "sorted (map key xs) \<Longrightarrow> js_sort cmp xs = xs"
  by (simp add: sort_is_sort_key sort_key_id_if_sorted)

lemma sort_unique:
  assumes "set xs = set ys" "distinct xs" "distinct ys" "inj_on key (set xs)"
  shows "js_sort cmp xs = js_sort cmp ys"
proof (rule map_inj_on)
  show "inj_on key (set (js_sort cmp xs) \<union> set (js_sort cmp ys))"
    using assms by simp
  have "mset xs = mset ys"
    using assms set_eq_iff_mset_eq_distinct by blast
  then have "mset (map key (js_sort cmp xs)) = mset (map key (js_sort cmp ys))"
    by simp
  then show "map key (js_sort cmp xs) = map key (js_sort cmp ys)"
    using sort_sorted properties_for_sort by metis
qed

end

subsection \<open>Results\<close>

fun rbind :: "'e + 'a \<Rightarrow> ('a \<Rightarrow> 'e + 'b) \<Rightarrow> 'e + 'b" where
  "rbind (Inl e) f = Inl e"
| "rbind (Inr x) f = f x"

lemma rbind_Inr_iff: "rbind r f = Inr y \<longleftrightarrow> (\<exists>x. r = Inr x \<and> f x = Inr y)"
  by (cases r) auto

lemma rbind_Inl_iff: "rbind r f = Inl e \<longleftrightarrow> r = Inl e \<or> (\<exists>x. r = Inr x \<and> f x = Inl e)"
  by (cases r) auto

subsection \<open>Lists\<close>

lemma filter_not_set: "(\<And>x. x \<in> set xs \<Longrightarrow> \<not> P x) \<Longrightarrow> filter P xs = []"
  by (simp add: filter_empty_conv)

lemma take_middle_drop:
  assumes "a + k \<le> length xs"
  shows "take a xs @ take (length xs - k - a) (drop a xs) @ drop (length xs - k) xs = xs"
proof -
  have "drop (length xs - k) xs = drop (length xs - k - a) (drop a xs)" using assms by simp
  then show ?thesis by (simp only: append_take_drop_id)
qed

lemma filter_splitE:
  assumes "filter P xs = ys @ z # zs"
  obtains A B where "xs = A @ z # B" "filter P A = ys" "P z"
  using assms
proof (induction xs arbitrary: ys thesis)
  case (Cons x xs)
  show ?case
  proof (cases "P x \<and> ys = []")
    case True
    with Cons.prems show ?thesis by (intro Cons.prems(1) [of "[]" xs]) auto
  next
    case False
    with Cons.prems(2) have "filter P xs = (if P x then tl ys else ys) @ z # zs"
      by (cases ys) (auto split: if_splits)
    then obtain A B where "xs = A @ z # B" "filter P A = (if P x then tl ys else ys)" "P z"
      using Cons.IH by blast
    with False Cons.prems show ?thesis by (intro Cons.prems(1) [of "x # A" B]) (cases ys, auto split: if_splits)+
  qed
qed simp

lemma nth_update_sel: "f y = f (xs ! a) \<Longrightarrow> f (xs[a := y] ! b) = f (xs ! b)"
  by (cases "a < length xs") (auto simp: nth_list_update list_update_beyond)

lemma find_skip: "\<forall>x \<in> set xs. \<not> P x \<Longrightarrow> find P (xs @ ys) = find P ys"
  by (induction xs) auto

lemma set_eq_map_distinct_mset:
  assumes "distinct (map f xs)" "distinct (map f ys)" "set xs = set ys"
  shows "mset xs = mset ys"
  using assms by (metis distinct_map set_eq_iff_mset_eq_distinct)

end
