(* ===== verification/Store.thy ===== *)
theory Store
  imports Prelude
begin

text \<open>
  The store seam of \<open>src/store.ts\<close>: the operation record \<open>StoredOp\<close> that every component
  exchanges, the interfaces \<open>InstanceStore\<close> and \<open>StoreEngine\<close> as records of operations with
  their contracts as locales, and the in-memory engine that is their default provider.

  A store is an object that the engine's map, the binding instance and (for IndexedDB) the
  engine's cache share by reference. An engine state is therefore a heap of stores indexed by
  address together with the map from instance keys to addresses; an instance holds an address.
\<close>

subsection \<open>Operations\<close>

text \<open>
  \<open>StoredHead.hash\<close> is optional and nullable; \<open>StoredOp.refs\<close> is optional. An operation minted
  by a session also carries its wire address, the fields \<open>share\<close>, \<open>glade_id\<close> and \<open>key\<close>
  of \<open>WireOp\<close>, which the stores keep although \<open>StoredOp\<close> does not declare them.
\<close>

datatype head_hash = HashAbsent | HashNull | HashBytes bytes

record stored_head =
  head_origin :: jstr
  head_seq :: int
  head_hash :: head_hash

record stored_op =
  op_origin :: jstr
  op_seq :: int
  op_lamport :: int
  op_prev :: "bytes option"
  op_refs :: "stored_head list option"
  op_payload :: bytes
  op_share :: "jstr option"
  op_glade_id :: "jstr option"
  op_key :: "bytes option"

definition op_id :: "stored_op \<Rightarrow> jstr \<times> int" where
  "op_id op = (op_origin op, op_seq op)"

text \<open>
  The key strings \<open>`${origin}\x00${seq}`\<close> under which folds and instances file an operation:
  equal exactly for operations with the same identity, whatever the origin contains, because
  the decimal sequence number never contains the separator.
\<close>

definition op_slot :: "stored_op \<Rightarrow> jstr" where
  "op_slot op = op_origin op @ 0 # dec_int (op_seq op)"

lemma op_slot_eq_iff: "op_slot a = op_slot b \<longleftrightarrow> op_id a = op_id b"
  by (simp add: op_slot_def op_id_def sep_last_inj)

lemma op_slot_image_iff: "op_slot a \<in> op_slot ` A \<longleftrightarrow> op_id a \<in> op_id ` A"
  by (simp add: image_iff op_slot_eq_iff)

lemma distinct_op_slot: "distinct (map op_slot xs) \<longleftrightarrow> distinct (map op_id xs)"
  by (induction xs) (auto simp: op_slot_image_iff)

text \<open>
  The convergent total order on operations, \<open>(lamport, origin, seq)\<close>, as a linearly ordered
  type, so that sorting and maxima of the library apply to it.
\<close>

datatype op_rank = Rank (rk_lamport: int) (rk_origin: jstr) (rk_seq: int)

instantiation op_rank :: linorder
begin

definition less_eq_op_rank :: "op_rank \<Rightarrow> op_rank \<Rightarrow> bool" where
  "a \<le> b \<longleftrightarrow> rk_lamport a < rk_lamport b \<or> (rk_lamport a = rk_lamport b \<and>
     (rk_origin a < rk_origin b \<or> (rk_origin a = rk_origin b \<and> rk_seq a \<le> rk_seq b)))"

definition less_op_rank :: "op_rank \<Rightarrow> op_rank \<Rightarrow> bool" where
  "a < b \<longleftrightarrow> rk_lamport a < rk_lamport b \<or> (rk_lamport a = rk_lamport b \<and>
     (rk_origin a < rk_origin b \<or> (rk_origin a = rk_origin b \<and> rk_seq a < rk_seq b)))"

instance
  by standard (auto simp: less_eq_op_rank_def less_op_rank_def op_rank.expand)

end

definition rank_of :: "stored_op \<Rightarrow> op_rank" where
  "rank_of op = Rank (op_lamport op) (op_origin op) (op_seq op)"

lemma rank_of_id: "rank_of a = rank_of b \<Longrightarrow> op_id a = op_id b"
  by (simp add: rank_of_def op_id_def)

lemma inj_on_rank: "inj_on op_id A \<Longrightarrow> inj_on rank_of A"
  by (auto simp: inj_on_def dest: rank_of_id)

datatype append_outcome = Appended | AppendDuplicate

subsection \<open>InstanceStore\<close>

text \<open>
  \<open>loadCheckpoint\<close> and \<open>saveCheckpoint\<close> are optional methods: \<open>None\<close> where the provider
  has none.
\<close>

record ('s, 'c) store_if =
  si_append :: "stored_op \<Rightarrow> 's \<Rightarrow> 's \<times> append_outcome"
  si_all :: "'s \<Rightarrow> stored_op list"
  si_load_checkpoint :: "('s \<Rightarrow> 'c option) option"
  si_save_checkpoint :: "('c \<Rightarrow> 's \<Rightarrow> 's) option"

text \<open>
  The contract of one instance's store: an append lands exactly when the store holds no
  operation with the same \<open>(origin, seq)\<close>, it lands at the end, and a duplicate changes
  nothing that \<open>all\<close> shows.
\<close>

locale instance_store =
  fixes I :: "('s, 'c) store_if" and inv :: "'s \<Rightarrow> bool"
  assumes append_fresh: "inv s \<Longrightarrow> op_id op \<notin> op_id ` set (si_all I s) \<Longrightarrow>
      \<exists>s'. si_append I op s = (s', Appended) \<and> si_all I s' = si_all I s @ [op] \<and> inv s'"
    and append_held: "inv s \<Longrightarrow> op_id op \<in> op_id ` set (si_all I s) \<Longrightarrow>
      \<exists>s'. si_append I op s = (s', AppendDuplicate) \<and> si_all I s' = si_all I s \<and> inv s'"
    and ids_distinct: "inv s \<Longrightarrow> distinct (map op_id (si_all I s))"
begin

lemma append_outcome_iff:
  assumes "inv s"
  shows "snd (si_append I op s) = Appended \<longleftrightarrow> op_id op \<notin> op_id ` set (si_all I s)"
  using append_fresh [OF assms] append_held [OF assms] by fastforce

lemma append_inv: "inv s \<Longrightarrow> inv (fst (si_append I op s))"
  using append_fresh append_held by (metis fst_conv)

lemma append_all: "inv s \<Longrightarrow> si_all I (fst (si_append I op s)) =
    (if op_id op \<in> op_id ` set (si_all I s) then si_all I s else si_all I s @ [op])"
  using append_fresh append_held by (metis fst_conv)

lemma append_twice:
  assumes "inv s"
  shows "snd (si_append I op (fst (si_append I op s))) = AppendDuplicate"
proof -
  have "op_id op \<in> op_id ` set (si_all I (fst (si_append I op s)))"
    using append_all [OF assms, of op] by auto
  then show ?thesis
    using append_held [OF append_inv [OF assms]] by (metis snd_conv)
qed

lemma all_distinct: "inv s \<Longrightarrow> distinct (si_all I s)"
  using ids_distinct by (auto simp: distinct_map)

lemma op_id_inj: "inv s \<Longrightarrow> inj_on op_id (set (si_all I s))"
  using ids_distinct by (simp add: distinct_map)

end

subsection \<open>Deliveries\<close>

text \<open>
  \<open>landed held ops\<close> are the operations of a delivery that land in a store that already holds
  \<open>held\<close>: the first of each identity that is not held. \<open>consistent_ids\<close> says that no
  identity is used for two different operations (no origin forks its chain).
\<close>

fun landed :: "stored_op list \<Rightarrow> stored_op list \<Rightarrow> stored_op list" where
  "landed held [] = []"
| "landed held (op # ops) =
     (if op_id op \<in> op_id ` set held then landed held ops else op # landed (held @ [op]) ops)"

definition consistent_ids :: "stored_op set \<Rightarrow> bool" where
  "consistent_ids A \<longleftrightarrow> inj_on op_id A"

lemma landed_ids: "op_id ` set (held @ landed held ops) = op_id ` set held \<union> op_id ` set ops"
  by (induction held ops rule: landed.induct) auto

lemma landed_distinct: "distinct (map op_id held) \<Longrightarrow> distinct (map op_id (held @ landed held ops))"
  by (induction held ops rule: landed.induct) auto

lemma landed_subset: "set (landed held ops) \<subseteq> set ops"
  by (induction held ops rule: landed.induct) auto

lemma landed_not_held: "op \<in> set (landed held ops) \<Longrightarrow> op_id op \<notin> op_id ` set held"
  by (induction held ops rule: landed.induct) (auto split: if_splits)

lemma landed_none: "op_id ` set ops \<subseteq> op_id ` set held \<Longrightarrow> landed held ops = []"
  by (induction held ops rule: landed.induct) auto

lemma landed_all:
  "distinct (map op_id ops) \<Longrightarrow> op_id ` set ops \<inter> op_id ` set held = {} \<Longrightarrow> landed held ops = ops"
  by (induction held ops rule: landed.induct) auto

lemma landed_append: "landed held (xs @ ys) = landed held xs @ landed (held @ landed held xs) ys"
  by (induction held xs rule: landed.induct) auto

lemma landed_set:
  assumes "consistent_ids (set held \<union> set ops)"
  shows "set (held @ landed held ops) = set held \<union> set ops"
proof
  show "set (held @ landed held ops) \<subseteq> set held \<union> set ops"
    using landed_subset [of held ops] by auto
  show "set held \<union> set ops \<subseteq> set (held @ landed held ops)"
  proof
    fix x assume x: "x \<in> set held \<union> set ops"
    then have "op_id x \<in> op_id ` set (held @ landed held ops)"
      by (auto simp: landed_ids [simplified])
    then obtain y where "y \<in> set (held @ landed held ops)" "op_id y = op_id x"
      unfolding image_iff by metis
    with assms x landed_subset [of held ops] show "x \<in> set (held @ landed held ops)"
      by (auto simp: consistent_ids_def dest!: inj_onD [of op_id _ y x])
  qed
qed

text \<open>What lands is, for each identity, the operation that came first.\<close>

lemma find_id_iff: "distinct (map op_id ops) \<Longrightarrow> find (\<lambda>op. op_id op = i) ops = Some op \<longleftrightarrow> op \<in> set ops \<and> op_id op = i"
  by (induction ops) (auto simp: image_iff)

lemma find_append_skip: "P x \<Longrightarrow> y \<in> set xs \<Longrightarrow> P y \<Longrightarrow> find P (xs @ x # zs) = find P (xs @ zs)"
  by (induction xs) auto

lemma find_append_other: "\<not> P x \<Longrightarrow> find P (xs @ x # zs) = find P (xs @ zs)"
  by (induction xs) auto

lemma landed_first: "find (\<lambda>op. op_id op = i) (held @ landed held ops) = find (\<lambda>op. op_id op = i) (held @ ops)"
proof (induction held ops rule: landed.induct)
  case (2 held op ops)
  show ?case
  proof (cases "op_id op \<in> op_id ` set held")
    case True
    then obtain o' where "o' \<in> set held" "op_id o' = op_id op" by auto
    then have "find (\<lambda>op. op_id op = i) (held @ op # ops) = find (\<lambda>op. op_id op = i) (held @ ops)"
      by (cases "op_id op = i") (simp_all add: find_append_skip find_append_other)
    with 2(1) [OF True] True show ?thesis by simp
  qed (use 2(2) in simp)
qed simp

lemma first_of_consistent:
  assumes "set xs = set ys" "consistent_ids (set xs)"
  shows "find (\<lambda>op. op_id op = i) xs = find (\<lambda>op. op_id op = i) ys"
proof -
  have only: "find (\<lambda>op. op_id op = i) zs = Some op \<longleftrightarrow> op \<in> set zs \<and> op_id op = i" if "set zs = set xs" for zs op
  proof -
    have "inj_on op_id (set zs)" using assms(2) that by (simp add: consistent_ids_def)
    then show ?thesis by (induction zs) (auto simp: inj_on_def)
  qed
  then have "find (\<lambda>op. op_id op = i) xs = Some op \<longleftrightarrow> find (\<lambda>op. op_id op = i) ys = Some op" for op
    using only [of xs] only [of ys] assms(1) by simp
  then show ?thesis by (metis not_None_eq)
qed

text \<open>
  An assembly that depends on the set of operations only. Two replicas that received the same
  operations, in whatever order and however often, then show the same value.
\<close>

locale convergent_assembly =
  fixes assemble :: "stored_op list \<Rightarrow> 'v"
  assumes assemble_set: "distinct (map op_id xs) \<Longrightarrow> distinct (map op_id ys) \<Longrightarrow> set xs = set ys \<Longrightarrow>
      assemble xs = assemble ys"
begin

lemma deliveries_converge:
  assumes "set xs = set ys" "consistent_ids (set xs)"
  shows "assemble (landed [] xs) = assemble (landed [] ys)"
  using assms landed_set [of "[]" xs] landed_set [of "[]" ys]
    landed_distinct [of "[]" xs] landed_distinct [of "[]" ys]
  by (intro assemble_set) auto

lemma same_first_converge:
  assumes "distinct (map op_id held)" "distinct (map op_id held')"
    and "\<forall>i. find (\<lambda>op. op_id op = i) (held @ xs) = find (\<lambda>op. op_id op = i) (held' @ ys)"
  shows "assemble (held @ landed held xs) = assemble (held' @ landed held' ys)"
proof (rule assemble_set)
  show d: "distinct (map op_id (held @ landed held xs))" "distinct (map op_id (held' @ landed held' ys))"
    by (rule landed_distinct [OF assms(1)]) (rule landed_distinct [OF assms(2)])
  have "op \<in> set (held @ landed held xs) \<longleftrightarrow> op \<in> set (held' @ landed held' ys)" for op
    using find_id_iff [OF d(1), of "op_id op" op] find_id_iff [OF d(2), of "op_id op" op] assms(3) by (simp only: landed_first) simp
  then show "set (held @ landed held xs) = set (held' @ landed held' ys)" by blast
qed

lemma redelivery_absorbed:
  assumes "consistent_ids (set xs)" "set ys \<subseteq> set xs"
  shows "assemble (landed [] (xs @ ys)) = assemble (landed [] xs)"
  using assms by (intro deliveries_converge) (auto simp: Un_absorb2)

end

subsection \<open>StoreEngine\<close>

text \<open>
  \<open>ei_store E a\<close> are the methods of the store object at address \<open>a\<close>; \<open>live\<close> are the
  addresses handed out so far. Opening never touches another store, opening the key of an open
  store returns the same object, and a dropped key may or may not keep its data.
\<close>

record ('e, 'c) engine_if =
  ei_open :: "jstr \<Rightarrow> 'e \<Rightarrow> 'e \<times> nat"
  ei_drop :: "jstr \<Rightarrow> 'e \<Rightarrow> 'e"
  ei_store :: "nat \<Rightarrow> ('e, 'c) store_if"

locale store_engine =
  fixes E :: "('e, 'c) engine_if" and einv :: "'e \<Rightarrow> bool" and live :: "'e \<Rightarrow> nat set"
  assumes stores: "instance_store (ei_store E a) (\<lambda>e. einv e \<and> a \<in> live e)"
    and open_spec: "einv e \<Longrightarrow> ei_open E k e = (e', a) \<Longrightarrow>
      einv e' \<and> live e' = insert a (live e)
        \<and> (\<forall>b \<in> live e. si_all (ei_store E b) e' = si_all (ei_store E b) e)"
    and open_again: "einv e \<Longrightarrow> ei_open E k e = (e', a) \<Longrightarrow> ei_open E k e' = (e', a)"
    and drop_spec: "einv e \<Longrightarrow> einv (ei_drop E k e) \<and> live (ei_drop E k e) = live e
        \<and> (\<forall>b \<in> live e. si_all (ei_store E b) (ei_drop E k e) = si_all (ei_store E b) e)"
    and append_frame: "einv e \<Longrightarrow> a \<in> live e \<Longrightarrow> b \<in> live e \<Longrightarrow> a \<noteq> b \<Longrightarrow>
      si_all (ei_store E b) (fst (si_append (ei_store E a) op e)) = si_all (ei_store E b) e"
    and append_live: "einv e \<Longrightarrow> a \<in> live e \<Longrightarrow>
      live (fst (si_append (ei_store E a) op e)) = live e"
begin

lemma append_at_all: "einv e \<Longrightarrow> a \<in> live e \<Longrightarrow> si_all (ei_store E a) (fst (si_append (ei_store E a) op e)) =
    (if op_id op \<in> op_id ` set (si_all (ei_store E a) e) then si_all (ei_store E a) e
     else si_all (ei_store E a) e @ [op])"
  using instance_store.append_all [OF stores] by metis

lemma append_at_inv: "einv e \<Longrightarrow> a \<in> live e \<Longrightarrow> einv (fst (si_append (ei_store E a) op e))"
  using instance_store.append_inv [OF stores] by metis

lemma open_then_append_visible:
  assumes "einv e" "ei_open E k e = (e1, a)"
    and "op_id op \<notin> op_id ` set (si_all (ei_store E a) e1)"
  shows "si_all (ei_store E a) (fst (si_append (ei_store E a) op e1)) = si_all (ei_store E a) e1 @ [op]"
proof -
  from assms open_spec have "einv e1" "a \<in> live e1" by blast+
  with assms(3) show ?thesis by (simp add: append_at_all)
qed

end

subsection \<open>The memory engine\<close>

record mem_store =
  ms_ops :: "stored_op list"

record mem_engine =
  me_heap :: "mem_store list"
  me_stores :: "(jstr \<times> nat) list"

definition mem_append :: "stored_op \<Rightarrow> mem_store \<Rightarrow> mem_store \<times> append_outcome" where
  "mem_append op s =
     (if \<exists>o' \<in> set (ms_ops s). op_origin o' = op_origin op \<and> op_seq o' = op_seq op
      then (s, AppendDuplicate)
      else (s\<lparr>ms_ops := ms_ops s @ [op]\<rparr>, Appended))"

definition mem_all :: "mem_store \<Rightarrow> stored_op list" where
  "mem_all s = ms_ops s"

definition mem_engine_new :: mem_engine where
  "mem_engine_new = \<lparr>me_heap = [], me_stores = []\<rparr>"

definition mem_open :: "jstr \<Rightarrow> mem_engine \<Rightarrow> mem_engine \<times> nat" where
  "mem_open key e =
     (case jm_get (me_stores e) key of
        Some a \<Rightarrow> (e, a)
      | None \<Rightarrow>
          let a = length (me_heap e)
          in (e\<lparr>me_heap := me_heap e @ [\<lparr>ms_ops = []\<rparr>], me_stores := jm_set key a (me_stores e)\<rparr>, a))"

definition mem_drop :: "jstr \<Rightarrow> mem_engine \<Rightarrow> mem_engine" where
  "mem_drop key e = e\<lparr>me_stores := jm_delete key (me_stores e)\<rparr>"

text \<open>The method calls through a reference to the store at an address.\<close>

definition mem_append_at :: "nat \<Rightarrow> stored_op \<Rightarrow> mem_engine \<Rightarrow> mem_engine \<times> append_outcome" where
  "mem_append_at a op e =
     (let (s, out) = mem_append op (me_heap e ! a) in (e\<lparr>me_heap := (me_heap e)[a := s]\<rparr>, out))"

definition mem_if :: "(mem_engine, 'c) engine_if" where
  "mem_if = \<lparr>ei_open = mem_open, ei_drop = mem_drop,
     ei_store = (\<lambda>a. \<lparr>si_append = mem_append_at a, si_all = (\<lambda>e. mem_all (me_heap e ! a)),
                      si_load_checkpoint = None, si_save_checkpoint = None\<rparr>)\<rparr>"

definition mem_live :: "mem_engine \<Rightarrow> nat set" where
  "mem_live e = {a. a < length (me_heap e)}"

definition mem_inv :: "mem_engine \<Rightarrow> bool" where
  "mem_inv e \<longleftrightarrow> (\<forall>s \<in> set (me_heap e). distinct (map op_id (ms_ops s)))
     \<and> (\<forall>(k, a) \<in> set (me_stores e). a < length (me_heap e))"

lemma mem_held_iff:
  "(\<exists>o' \<in> set xs. op_origin o' = op_origin op \<and> op_seq o' = op_seq op) \<longleftrightarrow> op_id op \<in> op_id ` set xs"
  by (auto simp: op_id_def image_iff) metis

lemma mem_if_simps [simp]:
  "ei_open mem_if = mem_open" "ei_drop mem_if = mem_drop"
  "si_append (ei_store mem_if a) = mem_append_at a"
  "si_all (ei_store mem_if a) e = ms_ops (me_heap e ! a)"
  by (simp_all add: mem_if_def mem_all_def)

lemma mem_store_update [simp]: "(s :: mem_store)\<lparr>ms_ops := xs\<rparr> = \<lparr>ms_ops = xs\<rparr>"
  by (cases s) simp

lemma mem_append_at_eq: "mem_append_at a op e =
    (if op_id op \<in> op_id ` set (ms_ops (me_heap e ! a)) then (e, AppendDuplicate)
     else (e\<lparr>me_heap := (me_heap e)[a := \<lparr>ms_ops = ms_ops (me_heap e ! a) @ [op]\<rparr>]\<rparr>, Appended))"
  by (simp add: mem_append_at_def mem_append_def mem_held_iff)

lemma mem_append_at_inv [wf_intros]:
  assumes "mem_inv e" "a < length (me_heap e)"
  shows "mem_inv (fst (mem_append_at a op e))"
proof -
  have "distinct (map op_id (ms_ops (me_heap e ! a)))"
    using assms by (simp add: mem_inv_def)
  with assms(1) show ?thesis
    by (auto simp: mem_inv_def mem_append_at_eq dest!: set_update_subset_insert [THEN subsetD])
qed

lemma mem_open_inv [wf_intros]: "mem_inv e \<Longrightarrow> mem_inv (fst (mem_open k e))"
  by (fastforce simp: mem_inv_def mem_open_def Let_def split: option.split dest!: set_jm_set)

lemma mem_drop_inv [wf_intros]: "mem_inv e \<Longrightarrow> mem_inv (mem_drop k e)"
  by (auto simp: mem_inv_def mem_drop_def set_jm_delete)

lemma mem_live_simps [simp]:
  "mem_live (fst (mem_append_at a op e)) = mem_live e" "mem_live (mem_drop k e) = mem_live e"
  by (simp_all add: mem_live_def mem_append_at_eq mem_drop_def)

lemma mem_append_at_all:
  assumes "a \<in> mem_live e" "b \<in> mem_live e"
  shows "ms_ops (me_heap (fst (mem_append_at a op e)) ! b) =
    (if a = b \<and> snd (mem_append_at a op e) = Appended then ms_ops (me_heap e ! b) @ [op]
     else ms_ops (me_heap e ! b))"
  using assms by (auto simp: mem_append_at_eq mem_live_def nth_list_update)

lemma mem_drop_heap [simp]: "me_heap (mem_drop k e) = me_heap e"
  by (simp add: mem_drop_def)

interpretation mem_st: instance_store "ei_store mem_if a" "\<lambda>e. mem_inv e \<and> a \<in> mem_live e"
  for a
proof (unfold_locales, goal_cases)
  case (1 e op)
  then show ?case
    using mem_append_at_inv [of e a op] by (simp add: mem_live_def mem_append_at_eq)
next
  case (2 e op)
  then show ?case by (simp add: mem_append_at_eq)
next
  case (3 e)
  then show ?case by (simp add: mem_inv_def mem_live_def)
qed

interpretation mem_eng: store_engine mem_if mem_inv mem_live
proof (unfold_locales, goal_cases)
  case (1 e k e' a)
  then show ?case
    using mem_open_inv [of e k]
    by (auto simp: mem_open_def mem_live_def Let_def nth_append mem_inv_def
        dest!: jm_get_in split: option.splits)
next
  case (2 e k e' a)
  then show ?case by (auto simp: mem_open_def Let_def jm_get_set split: option.splits)
next
  case (3 e k)
  then show ?case by (simp add: mem_drop_inv)
next
  case (4 e a b op)
  then show ?case by (simp add: mem_append_at_all)
next
  case (5 e a op)
  then show ?case by simp
qed

end
