(* ===== verification/Js_Text.thy ===== *)
theory Js_Text
  imports Prelude
begin

text \<open>
  The text functions of the JavaScript runtime that the code calls: the iteration of a string
  by code points (\<open>Array.from\<close>), \<open>TextEncoder.encode\<close> and the UTF-8 decoder behind
  \<open>TextDecoder.decode\<close> in its fatal and replacing modes, as the Encoding standard defines it.
  Code points are natural numbers, code units 16-bit words. \<open>src/bytes.ts\<close> wraps the encoder
  and the replacing decoder; \<open>src/text_crdt.ts\<close> uses the fatal one.
\<close>

subsection \<open>UTF-16\<close>

definition is_high :: "16 word \<Rightarrow> bool" where
  "is_high c \<longleftrightarrow> 0xD800 \<le> unat c \<and> unat c \<le> 0xDBFF"

definition is_low :: "16 word \<Rightarrow> bool" where
  "is_low c \<longleftrightarrow> 0xDC00 \<le> unat c \<and> unat c \<le> 0xDFFF"

lemma not_high_low: "is_high c \<Longrightarrow> \<not> is_low c"
  by (simp add: is_high_def is_low_def)

text \<open>\<open>Array.from(s)\<close>: one string per code point, a lone surrogate on its own.\<close>

fun array_from :: "jstr \<Rightarrow> jstr list" where
  "array_from [] = []"
| "array_from [c] = [[c]]"
| "array_from (c # d # s) =
     (if is_high c \<and> is_low d then [c, d] # array_from s else [c] # array_from (d # s))"

text \<open>A string without lone surrogates.\<close>

fun wf_utf16 :: "jstr \<Rightarrow> bool" where
  "wf_utf16 [] = True"
| "wf_utf16 [c] = (\<not> is_high c \<and> \<not> is_low c)"
| "wf_utf16 (c # d # s) =
     (if is_high c then is_low d \<and> wf_utf16 s else \<not> is_low c \<and> wf_utf16 (d # s))"

lemma concat_array_from [simp]: "concat (array_from s) = s"
  by (induction s rule: array_from.induct) auto

lemma array_from_inj: "array_from s = array_from t \<longleftrightarrow> s = t"
  by (metis concat_array_from)

lemma array_from_Nil_iff [simp]: "array_from s = [] \<longleftrightarrow> s = []"
  by (metis array_from.simps(1) concat_array_from)

lemma array_from_append: "wf_utf16 s \<Longrightarrow> array_from (s @ t) = array_from s @ array_from t"
proof (induction s rule: wf_utf16.induct)
  case (2 c)
  then show ?case by (cases t) auto
qed auto

lemma wf_utf16_append: "wf_utf16 s \<Longrightarrow> wf_utf16 (s @ t) \<longleftrightarrow> wf_utf16 t"
proof (induction s rule: wf_utf16.induct)
  case (2 c)
  then show ?case by (cases t) auto
qed auto

lemma array_from_concat: "\<forall>s \<in> set ss. wf_utf16 s \<Longrightarrow> array_from (concat ss) = concat (map array_from ss)"
  by (induction ss) (auto simp: array_from_append)

lemma wf_utf16_concat: "\<forall>s \<in> set ss. wf_utf16 s \<Longrightarrow> wf_utf16 (concat ss)"
  by (induction ss) (auto simp: wf_utf16_append)

lemma array_from_units: "p \<in> set (array_from s) \<Longrightarrow> p \<noteq> []"
  by (induction s rule: array_from.induct) (auto split: if_splits)

lemma array_from_wf_parts: "wf_utf16 s \<Longrightarrow> p \<in> set (array_from s) \<Longrightarrow> wf_utf16 p \<and> array_from p = [p]"
  by (induction s rule: wf_utf16.induct) (auto split: if_splits simp: not_high_low)

definition pair_value :: "16 word \<Rightarrow> 16 word \<Rightarrow> nat" where
  "pair_value c d = 0x10000 + (unat c - 0xD800) * 1024 + (unat d - 0xDC00)"

text \<open>Code points of a string, with U+FFFD for a lone surrogate (as \<open>TextEncoder\<close> reads it).\<close>

fun scalar_values :: "jstr \<Rightarrow> nat list" where
  "scalar_values [] = []"
| "scalar_values [c] = [if is_high c \<or> is_low c then 0xFFFD else unat c]"
| "scalar_values (c # d # s) =
     (if is_high c \<and> is_low d
      then pair_value c d # scalar_values s
      else (if is_high c \<or> is_low c then 0xFFFD else unat c) # scalar_values (d # s))"

definition units_of :: "nat \<Rightarrow> jstr" where
  "units_of c = (if c < 0x10000 then [of_nat c]
     else [of_nat (0xD800 + (c - 0x10000) div 1024), of_nat (0xDC00 + (c - 0x10000) mod 1024)])"

definition is_scalar :: "nat \<Rightarrow> bool" where
  "is_scalar c \<longleftrightarrow> c < 0xD800 \<or> (0xE000 \<le> c \<and> c < 0x110000)"

lemma unat_less_16 [simp]: "unat (c :: 16 word) < 65536"
  by (rule order_less_le_trans [OF unsigned_less]) simp

lemma pair_units:
  assumes "is_high c" "is_low d"
  shows "units_of (pair_value c d) = [c, d]"
proof -
  let ?n = "(unat c - 0xD800) * 1024 + (unat d - 0xDC00)"
  have d: "unat d - 0xDC00 < 1024" using assms by (auto simp: is_low_def)
  then have "?n div 1024 = unat c - 0xD800" "?n mod 1024 = unat d - 0xDC00"
    by simp_all
  with assms show ?thesis
    by (simp add: units_of_def pair_value_def is_high_def is_low_def add.assoc del: of_nat_add)
qed

lemma units_of_unat [simp]: "units_of (unat (c :: 16 word)) = [c]"
  by (simp add: units_of_def)

lemma scalar_values_units: "wf_utf16 s \<Longrightarrow> concat (map units_of (scalar_values s)) = s"
  by (induction s rule: wf_utf16.induct) (auto simp: pair_units)

lemma scalar_values_scalar: "c \<in> set (scalar_values s) \<Longrightarrow> is_scalar c"
proof (induction s rule: scalar_values.induct)
  case (2 x)
  have "unat x < 65536" by simp
  with 2 show ?case by (auto simp: is_scalar_def is_high_def is_low_def simp del: unat_less_16)
next
  case (3 x y s)
  have "is_high x \<Longrightarrow> is_low y \<Longrightarrow> is_scalar (pair_value x y)"
    by (auto simp: pair_value_def is_scalar_def is_high_def is_low_def)
  moreover have "unat x < 65536" by simp
  then have "is_scalar (if is_high x \<or> is_low x then 0xFFFD else unat x)"
    by (auto simp: is_scalar_def is_high_def is_low_def simp del: unat_less_16)
  ultimately show ?case using 3 by (auto split: if_splits)
qed simp

subsection \<open>UTF-8\<close>

definition utf8_bytes :: "nat \<Rightarrow> bytes" where
  "utf8_bytes c =
     (if c < 0x80 then [of_nat c]
      else if c < 0x800 then [of_nat (0xC0 + c div 64), of_nat (0x80 + c mod 64)]
      else if c < 0x10000
      then [of_nat (0xE0 + c div 4096), of_nat (0x80 + c div 64 mod 64), of_nat (0x80 + c mod 64)]
      else [of_nat (0xF0 + c div 262144), of_nat (0x80 + c div 4096 mod 64),
            of_nat (0x80 + c div 64 mod 64), of_nat (0x80 + c mod 64)])"

text \<open>\<open>new TextEncoder().encode(s)\<close>.\<close>

definition text_encode :: "jstr \<Rightarrow> bytes" where
  "text_encode s = concat (map utf8_bytes (scalar_values s))"

text \<open>
  The UTF-8 decoder: \<open>needed\<close> continuation bytes are outstanding for the code point \<open>cp\<close>, the
  next one must lie between \<open>lo\<close> and \<open>hi\<close>. A byte out of range ends the sequence in an error
  (\<open>None\<close>) and is read again as the start of the next.
\<close>

function utf8_decode :: "nat \<Rightarrow> nat \<Rightarrow> nat \<Rightarrow> nat \<Rightarrow> bytes \<Rightarrow> nat option list" where
  "utf8_decode 0 cp lo hi [] = []"
| "utf8_decode 0 cp lo hi (b # bs) =
     (let x = unat b in
      if x \<le> 0x7F then Some x # utf8_decode 0 0 0 0 bs
      else if 0xC2 \<le> x \<and> x \<le> 0xDF then utf8_decode 1 (x - 0xC0) 0x80 0xBF bs
      else if 0xE0 \<le> x \<and> x \<le> 0xEF
      then utf8_decode 2 (x - 0xE0) (if x = 0xE0 then 0xA0 else 0x80) (if x = 0xED then 0x9F else 0xBF) bs
      else if 0xF0 \<le> x \<and> x \<le> 0xF4
      then utf8_decode 3 (x - 0xF0) (if x = 0xF0 then 0x90 else 0x80) (if x = 0xF4 then 0x8F else 0xBF) bs
      else None # utf8_decode 0 0 0 0 bs)"
| "utf8_decode (Suc n) cp lo hi [] = [None]"
| "utf8_decode (Suc n) cp lo hi (b # bs) =
     (let x = unat b in
      if \<not> (lo \<le> x \<and> x \<le> hi) then None # utf8_decode 0 0 0 0 (b # bs)
      else if n = 0 then Some (cp * 64 + (x - 0x80)) # utf8_decode 0 0 0 0 bs
      else utf8_decode n (cp * 64 + (x - 0x80)) 0x80 0xBF bs)"
  by pat_completeness auto
termination
  by (relation "measure (\<lambda>(n, cp, lo, hi, bs). 2 * length bs + (if n = 0 then 0 else 1))") auto

text \<open>A leading byte order mark is dropped.\<close>

fun strip_bom :: "nat option list \<Rightarrow> nat option list" where
  "strip_bom (Some c # cs) = (if c = 0xFEFF then cs else Some c # cs)"
| "strip_bom cs = cs"

definition text_decode :: "bytes \<Rightarrow> jstr" where
  "text_decode b = concat (map (\<lambda>x. units_of (case x of None \<Rightarrow> 0xFFFD | Some c \<Rightarrow> c))
     (strip_bom (utf8_decode 0 0 0 0 b)))"

definition text_decode_fatal :: "bytes \<Rightarrow> jstr option" where
  "text_decode_fatal b =
     (let cs = utf8_decode 0 0 0 0 b in
      if None \<in> set cs then None else Some (concat (map (units_of \<circ> the) (strip_bom cs))))"

lemma unat_of_nat_16: "n < 65536 \<Longrightarrow> unat (of_nat n :: 16 word) = n"
  by (simp add: unat_of_nat take_bit_nat_eq_self)

lemma unat_of_nat_byte: "n < 256 \<Longrightarrow> unat (of_nat n :: 8 word) = n"
  by (simp add: unat_of_nat take_bit_nat_eq_self)

lemma utf8_decode_cont_Suc:
  assumes "lo \<le> x" "x \<le> hi" "x < 256"
  shows "utf8_decode (Suc 0) cp lo hi (of_nat x # bs) = Some (cp * 64 + (x - 0x80)) # utf8_decode 0 0 0 0 bs"
    and "utf8_decode (Suc (Suc n)) cp lo hi (of_nat x # bs) = utf8_decode (Suc n) (cp * 64 + (x - 0x80)) 0x80 0xBF bs"
  using assms by (simp_all add: unat_of_nat_byte Let_def)

lemmas utf8_decode_cont = utf8_decode_cont_Suc(1) [folded One_nat_def]
  utf8_decode_cont_Suc(2) [where n = 0, folded numeral_2_eq_2 One_nat_def]
  utf8_decode_cont_Suc(2) [where n = "Suc 0", folded numeral_3_eq_3 numeral_2_eq_2]

declare utf8_decode.simps [simp del]

lemma utf8_decode_first: "x < 256 \<Longrightarrow> utf8_decode 0 cp lo hi (of_nat x # bs) =
     (if x \<le> 0x7F then Some x # utf8_decode 0 0 0 0 bs
      else if 0xC2 \<le> x \<and> x \<le> 0xDF then utf8_decode 1 (x - 0xC0) 0x80 0xBF bs
      else if 0xE0 \<le> x \<and> x \<le> 0xEF
      then utf8_decode 2 (x - 0xE0) (if x = 0xE0 then 0xA0 else 0x80) (if x = 0xED then 0x9F else 0xBF) bs
      else if 0xF0 \<le> x \<and> x \<le> 0xF4
      then utf8_decode 3 (x - 0xF0) (if x = 0xF0 then 0x90 else 0x80) (if x = 0xF4 then 0x8F else 0xBF) bs
      else None # utf8_decode 0 0 0 0 bs)"
  by (simp only: utf8_decode.simps(2) Let_def unat_of_nat_byte)

lemma utf8_decode_lead1:
  "x \<le> 0x7F \<Longrightarrow> utf8_decode 0 cp lo hi (of_nat x # bs) = Some x # utf8_decode 0 0 0 0 bs"
  by (subst utf8_decode_first) simp_all

lemma utf8_decode_lead2:
  "0xC2 \<le> x \<Longrightarrow> x \<le> 0xDF \<Longrightarrow>
     utf8_decode 0 cp lo hi (of_nat x # bs) = utf8_decode 1 (x - 0xC0) 0x80 0xBF bs"
  by (subst utf8_decode_first) simp_all

lemma utf8_decode_lead3:
  "0xE0 \<le> x \<Longrightarrow> x \<le> 0xEF \<Longrightarrow> utf8_decode 0 cp lo hi (of_nat x # bs) = utf8_decode 2 (x - 0xE0)
     (if x = 0xE0 then 0xA0 else 0x80) (if x = 0xED then 0x9F else 0xBF) bs"
  by (subst utf8_decode_first) simp_all

lemma utf8_decode_lead4:
  "0xF0 \<le> x \<Longrightarrow> x \<le> 0xF4 \<Longrightarrow> utf8_decode 0 cp lo hi (of_nat x # bs) = utf8_decode 3 (x - 0xF0)
     (if x = 0xF0 then 0x90 else 0x80) (if x = 0xF4 then 0x8F else 0xBF) bs"
  by (subst utf8_decode_first) simp_all

lemma sextets: "(c div 64) * 64 + c mod 64 = (c :: nat)"
  "(c div 4096) * 64 + c div 64 mod 64 = c div 64"
  "(c div 262144) * 64 + c div 4096 mod 64 = c div 4096"
  using div_mult_mod_eq [of c 64] div_mult_mod_eq [of "c div 64" 64] div_mult_mod_eq [of "c div 4096" 64]
  by (simp_all add: div_mult2_eq [symmetric])

lemma utf8_decode_bytes:
  assumes "is_scalar c"
  shows "utf8_decode 0 cp lo hi (utf8_bytes c @ bs) = Some c # utf8_decode 0 0 0 0 bs"
proof -
  have m: "0x80 + k mod 64 \<le> 0xBF" for k :: nat
    using mod_less_divisor [of 64 k] by linarith
  then have m2: "0x80 + k mod 64 < (256 :: nat)" for k :: nat
    by (rule le_less_trans) simp
  consider "c < 0x80" | "0x80 \<le> c" "c < 0x800" | "0x800 \<le> c" "c < 0x10000" | "0x10000 \<le> c" "c < 0x110000"
    using assms by (force simp: is_scalar_def)
  then show ?thesis
  proof cases
    case 1
    then show ?thesis by (simp add: utf8_bytes_def utf8_decode_lead1)
  next
    case 2
    have "utf8_decode 0 cp lo hi (of_nat (0xC0 + c div 64) # of_nat (0x80 + c mod 64) # bs)
        = utf8_decode 1 (0xC0 + c div 64 - 0xC0) 0x80 0xBF (of_nat (0x80 + c mod 64) # bs)"
      using 2 by (intro utf8_decode_lead2) auto
    also have "\<dots> = Some c # utf8_decode 0 0 0 0 bs"
      using m [of c] m2 [of c] sextets(1) [of c] by (subst utf8_decode_cont(1)) simp_all
    finally show ?thesis using 2 by (simp add: utf8_bytes_def del: of_nat_add)
  next
    case 3
    let ?a = "c div 4096" and ?b = "0x80 + c div 64 mod 64" and ?d = "0x80 + c mod 64"
    have r: "(if 0xE0 + ?a = 0xE0 then 0xA0 else 0x80) \<le> ?b" "?b \<le> (if 0xE0 + ?a = 0xED then 0x9F else 0xBF)"
    proof -
      have q: "c div 64 = 64 * ?a + c div 64 mod 64" using sextets(2) [of c] by simp
      have "32 \<le> c div 64" using div_le_mono [OF 3(1), of 64] by simp
      with q show "(if 0xE0 + ?a = 0xE0 then 0xA0 else 0x80) \<le> ?b" by (cases "?a = 0") simp_all
      have "c div 64 mod 64 \<le> 31" if "?a = 13"
      proof -
        have "c < 0xE000" using that by simp
        then have "c \<le> 0xD7FF" using assms by (simp add: is_scalar_def)
        from div_le_mono [OF this, of 64] q that show ?thesis by simp
      qed
      with m [of "c div 64"] show "?b \<le> (if 0xE0 + ?a = 0xED then 0x9F else 0xBF)" by simp
    qed
    have "utf8_decode 0 cp lo hi (of_nat (0xE0 + ?a) # of_nat ?b # of_nat ?d # bs)
        = utf8_decode 2 (0xE0 + ?a - 0xE0) (if 0xE0 + ?a = 0xE0 then 0xA0 else 0x80)
            (if 0xE0 + ?a = 0xED then 0x9F else 0xBF) (of_nat ?b # of_nat ?d # bs)"
      using 3 by (intro utf8_decode_lead3) auto
    also have "\<dots> = utf8_decode 1 (c div 64) 0x80 0xBF (of_nat ?d # bs)"
      using r m2 [of "c div 64"] sextets(2) [of c] by (subst utf8_decode_cont(2)) simp_all
    also have "\<dots> = Some c # utf8_decode 0 0 0 0 bs"
      using m [of c] m2 [of c] sextets(1) [of c] by (subst utf8_decode_cont(1)) simp_all
    finally show ?thesis using 3 by (simp add: utf8_bytes_def del: of_nat_add)
  next
    case 4
    let ?z = "c div 262144" and ?a = "0x80 + c div 4096 mod 64"
    let ?b = "0x80 + c div 64 mod 64" and ?d = "0x80 + c mod 64"
    have r: "(if 0xF0 + ?z = 0xF0 then 0x90 else 0x80) \<le> ?a" "?a \<le> (if 0xF0 + ?z = 0xF4 then 0x8F else 0xBF)"
    proof -
      have q: "c div 4096 = 64 * ?z + c div 4096 mod 64" using sextets(3) [of c] by simp
      have "16 \<le> c div 4096" using div_le_mono [OF 4(1), of 4096] by simp
      with q show "(if 0xF0 + ?z = 0xF0 then 0x90 else 0x80) \<le> ?a" by (cases "?z = 0") simp_all
      have "c \<le> 0x10FFFF" using 4(2) by simp
      from div_le_mono [OF this, of 4096] q have "?z = 4 \<Longrightarrow> c div 4096 mod 64 \<le> 15" by simp
      with m [of "c div 4096"] show "?a \<le> (if 0xF0 + ?z = 0xF4 then 0x8F else 0xBF)" by simp
    qed
    have "utf8_decode 0 cp lo hi (of_nat (0xF0 + ?z) # of_nat ?a # of_nat ?b # of_nat ?d # bs)
        = utf8_decode 3 (0xF0 + ?z - 0xF0) (if 0xF0 + ?z = 0xF0 then 0x90 else 0x80)
            (if 0xF0 + ?z = 0xF4 then 0x8F else 0xBF) (of_nat ?a # of_nat ?b # of_nat ?d # bs)"
      using 4 by (intro utf8_decode_lead4) auto
    also have "\<dots> = utf8_decode 2 (c div 4096) 0x80 0xBF (of_nat ?b # of_nat ?d # bs)"
      using r m2 [of "c div 4096"] sextets(3) [of c] by (subst utf8_decode_cont(3)) simp_all
    also have "\<dots> = utf8_decode 1 (c div 64) 0x80 0xBF (of_nat ?d # bs)"
      using m [of "c div 64"] m2 [of "c div 64"] sextets(2) [of c] by (subst utf8_decode_cont(2)) simp_all
    also have "\<dots> = Some c # utf8_decode 0 0 0 0 bs"
      using m [of c] m2 [of c] sextets(1) [of c] by (subst utf8_decode_cont(1)) simp_all
    finally show ?thesis using 4 by (simp add: utf8_bytes_def del: of_nat_add)
  qed
qed

lemma utf8_decode_encode:
  "\<forall>c \<in> set cs. is_scalar c \<Longrightarrow> utf8_decode 0 cp lo hi (concat (map utf8_bytes cs)) = map Some cs"
proof (induction cs arbitrary: cp lo hi)
  case Nil
  show ?case by (simp add: utf8_decode.simps)
qed (simp add: utf8_decode_bytes)

lemma strip_bom_id: "(\<forall>c. cs = 0xFEFF # c \<longrightarrow> False) \<Longrightarrow> strip_bom (map Some cs) = map Some cs"
  by (cases cs) auto

lemma scalar_values_bom:
  "wf_utf16 s \<Longrightarrow> scalar_values s = 0xFEFF # cs \<Longrightarrow> \<exists>t. s = 0xFEFF # t"
proof -
  assume "wf_utf16 s" "scalar_values s = 0xFEFF # cs"
  then have "s = units_of 0xFEFF @ concat (map units_of cs)"
    using scalar_values_units [of s] by simp
  then show ?thesis by (simp add: units_of_def)
qed

lemma text_decode_encode:
  assumes "wf_utf16 s" "\<forall>t. s \<noteq> 0xFEFF # t"
  shows "text_decode (text_encode s) = s" "text_decode_fatal (text_encode s) = Some s"
proof -
  have d: "utf8_decode 0 0 0 0 (text_encode s) = map Some (scalar_values s)"
    unfolding text_encode_def by (rule utf8_decode_encode) (simp add: scalar_values_scalar)
  have b: "strip_bom (map Some (scalar_values s)) = map Some (scalar_values s)"
    using assms scalar_values_bom by (intro strip_bom_id) metis
  show "text_decode (text_encode s) = s"
    using scalar_values_units [OF assms(1)] by (simp add: text_decode_def d b comp_def)
  show "text_decode_fatal (text_encode s) = Some s"
    using scalar_values_units [OF assms(1)] by (simp add: text_decode_fatal_def d b comp_def)
qed

end
