(* ===== verification/Bytes.thy ===== *)
theory Bytes
  imports Js_Text
begin

text \<open>
  The byte helpers of \<open>src/bytes.ts\<close>: comparison, UTF-8 in both directions and base64. The
  runtime's \<open>atob\<close> and \<open>btoa\<close> are modelled as the HTML standard defines them: \<open>btoa\<close> refuses
  a code unit above 255, \<open>atob\<close> drops ASCII whitespace, strips padding and refuses anything else
  outside the alphabet.
\<close>

text \<open>\<open>bytesEq\<close>: the length check, then the loop over the positions.\<close>

fun bytes_eq_from :: "bytes \<Rightarrow> bytes \<Rightarrow> bool" where
  "bytes_eq_from (x # xs) (y # ys) = (if x \<noteq> y then False else bytes_eq_from xs ys)"
| "bytes_eq_from _ _ = True"

definition bytes_eq :: "bytes \<Rightarrow> bytes \<Rightarrow> bool" where
  "bytes_eq a b = (if length a \<noteq> length b then False else bytes_eq_from a b)"

lemma bytes_eq_iff [simp]: "bytes_eq a b \<longleftrightarrow> a = b"
proof -
  have "length a = length b \<Longrightarrow> bytes_eq_from a b \<longleftrightarrow> a = b"
    by (induction a b rule: list_induct2) auto
  then show ?thesis by (auto simp: bytes_eq_def)
qed

subsection \<open>UTF-8\<close>

definition utf8 :: "jstr \<Rightarrow> bytes" where
  "utf8 s = text_encode s"

definition from_utf8 :: "bytes \<Rightarrow> jstr" where
  "from_utf8 b = text_decode b"

lemma from_utf8_utf8: "wf_utf16 s \<Longrightarrow> \<forall>t. s \<noteq> 0xFEFF # t \<Longrightarrow> from_utf8 (utf8 s) = s"
  by (simp add: from_utf8_def utf8_def text_decode_encode)

subsection \<open>Base64\<close>

definition b64_code :: "nat \<Rightarrow> nat" where
  "b64_code n = (if n < 26 then 65 + n else if n < 52 then 71 + n else if n < 62 then n - 4
     else if n = 62 then 43 else 47)"

definition b64_char :: "nat \<Rightarrow> 16 word" where
  "b64_char n = of_nat (b64_code n)"

definition b64_val :: "16 word \<Rightarrow> nat option" where
  "b64_val c = (let x = unat c in
     if 65 \<le> x \<and> x \<le> 90 then Some (x - 65)
     else if 97 \<le> x \<and> x \<le> 122 then Some (x - 71)
     else if 48 \<le> x \<and> x \<le> 57 then Some (x + 4)
     else if x = 43 then Some 62 else if x = 47 then Some 63 else None)"

fun b64_enc :: "nat list \<Rightarrow> jstr" where
  "b64_enc [] = []"
| "b64_enc [a] = [b64_char (a div 4), b64_char (a mod 4 * 16), 61, 61]"
| "b64_enc [a, b] = [b64_char (a div 4), b64_char (a mod 4 * 16 + b div 16), b64_char (b mod 16 * 4), 61]"
| "b64_enc (a # b # c # r) = b64_char (a div 4) # b64_char (a mod 4 * 16 + b div 16)
     # b64_char (b mod 16 * 4 + c div 64) # b64_char (c mod 64) # b64_enc r"

fun b64_dec :: "nat list \<Rightarrow> nat list" where
  "b64_dec (w # x # y # z # r) = (w * 4 + x div 16) # (x mod 16 * 16 + y div 4) # (y mod 4 * 64 + z) # b64_dec r"
| "b64_dec [w, x, y] = [w * 4 + x div 16, x mod 16 * 16 + y div 4]"
| "b64_dec [w, x] = [w * 4 + x div 16]"
| "b64_dec _ = []"

definition btoa :: "jstr \<Rightarrow> jstr option" where
  "btoa s = (if \<exists>c \<in> set s. unat c > 255 then None else Some (b64_enc (map unat s)))"

definition strip_padding :: "jstr \<Rightarrow> jstr" where
  "strip_padding s =
     (if length s mod 4 \<noteq> 0 then s
      else if drop (length s - 2) s = [61, 61] then take (length s - 2) s
      else if drop (length s - 1) s = [61] then take (length s - 1) s
      else s)"

definition is_ascii_ws :: "16 word \<Rightarrow> bool" where
  "is_ascii_ws c \<longleftrightarrow> c = 9 \<or> c = 10 \<or> c = 12 \<or> c = 13 \<or> c = 32"

definition atob :: "jstr \<Rightarrow> jstr option" where
  "atob s =
     (let t = strip_padding (filter (\<lambda>c. \<not> is_ascii_ws c) s) in
      if length t mod 4 = 1 \<or> None \<in> set (map b64_val t) then None
      else Some (map of_nat (b64_dec (map (the \<circ> b64_val) t))))"

text \<open>\<open>charCodeAt\<close> stored into a byte array keeps the low eight bits.\<close>

definition b64_to_bytes :: "jstr \<Rightarrow> bytes option" where
  "b64_to_bytes s = map_option (map (\<lambda>c. of_nat (unat c))) (atob s)"

definition bytes_to_b64 :: "bytes \<Rightarrow> jstr option" where
  "bytes_to_b64 b = btoa (map (\<lambda>x. of_nat (unat x)) b)"

lemma unat_b64_char: "n < 64 \<Longrightarrow> unat (b64_char n) = b64_code n"
  unfolding b64_char_def by (rule unat_of_nat_16) (auto simp: b64_code_def)

lemma b64_val_char: "n < 64 \<Longrightarrow> b64_val (b64_char n) = Some n"
  by (auto simp: b64_val_def unat_b64_char Let_def b64_code_def)

lemma b64_char_neq:
  assumes "n < 64"
  shows "b64_char n \<noteq> 61" "\<not> is_ascii_ws (b64_char n)"
proof -
  have "b64_code n \<notin> {61, 9, 10, 12, 13, 32}" using assms by (auto simp: b64_code_def)
  with unat_b64_char [OF assms] show "b64_char n \<noteq> 61" "\<not> is_ascii_ws (b64_char n)"
    by (auto simp: is_ascii_ws_def)
qed

text \<open>The encoded text is the sextets' characters followed by the padding.\<close>

fun b64_sextets :: "nat list \<Rightarrow> nat list" where
  "b64_sextets [] = []"
| "b64_sextets [a] = [a div 4, a mod 4 * 16]"
| "b64_sextets [a, b] = [a div 4, a mod 4 * 16 + b div 16, b mod 16 * 4]"
| "b64_sextets (a # b # c # r) =
     a div 4 # (a mod 4 * 16 + b div 16) # (b mod 16 * 4 + c div 64) # c mod 64 # b64_sextets r"

definition b64_pad :: "nat list \<Rightarrow> jstr" where
  "b64_pad xs = (if length xs mod 3 = 1 then [61, 61] else if length xs mod 3 = 2 then [61] else [])"

lemma b64_enc_split: "b64_enc xs = map b64_char (b64_sextets xs) @ b64_pad xs"
  by (induction xs rule: b64_enc.induct) (auto simp: b64_pad_def)

lemma b64_sextets_length:
  "length (b64_sextets xs) mod 4 = (if length xs mod 3 = 0 then 0 else length xs mod 3 + 1)"
  by (induction xs rule: b64_sextets.induct) auto

lemma b64_padded_length: "(length (b64_sextets xs) + length (b64_pad xs)) mod 4 = 0"
  by (induction xs rule: b64_sextets.induct) (auto simp: b64_pad_def)

lemma b64_sextets_bound: "\<forall>x \<in> set xs. x < 256 \<Longrightarrow> y \<in> set (b64_sextets xs) \<Longrightarrow> y < 64"
proof (induction xs rule: b64_sextets.induct)
  case (4 a b c r)
  then have "a div 4 < 64" "b div 16 < 16" "c div 64 < 4" by auto
  moreover have "a mod 4 \<le> 3" "b mod 16 \<le> 15" "c mod 64 < 64" by simp_all
  ultimately show ?case using 4 by auto
next
  case (3 a b)
  then have "a div 4 < 64" "b div 16 < 16" by auto
  moreover have "a mod 4 \<le> 3" "b mod 16 \<le> 15" by simp_all
  ultimately show ?case using 3 by auto
next
  case (2 a)
  moreover have "a mod 4 \<le> 3" by simp
  ultimately show ?case by auto
qed simp

lemma b64_dec_sextets: "\<forall>x \<in> set xs. x < 256 \<Longrightarrow> b64_dec (b64_sextets xs) = xs"
proof (induction xs rule: b64_sextets.induct)
  case (4 a b c r)
  have "a div 4 * 4 + (a mod 4 * 16 + b div 16) div 16 = a"
    and "(a mod 4 * 16 + b div 16) mod 16 * 16 + (b mod 16 * 4 + c div 64) div 4 = b"
    and "(b mod 16 * 4 + c div 64) mod 4 * 64 + c mod 64 = c"
  proof -
    have "b div 16 < 16" "c div 64 < 4" using "4.prems" by auto
    then show "a div 4 * 4 + (a mod 4 * 16 + b div 16) div 16 = a"
      "(a mod 4 * 16 + b div 16) mod 16 * 16 + (b mod 16 * 4 + c div 64) div 4 = b"
      "(b mod 16 * 4 + c div 64) mod 4 * 64 + c mod 64 = c"
      by simp_all
  qed
  with 4 show ?case by simp
next
  case (3 a b)
  then have "b div 16 < 16" by auto
  then show ?case by simp
qed simp_all

lemma drop_neq_Cons: "x \<notin> set s \<Longrightarrow> drop k s \<noteq> x # ys"
  using in_set_dropD [of x k s] by auto

lemma strip_padding_app:
  assumes "61 \<notin> set s" "length (s @ p) mod 4 = 0" "p = [] \<or> p = [61] \<or> p = [61, 61]"
  shows "strip_padding (s @ p) = s"
proof -
  from assms(3) consider "p = []" | "p = [61]" | "p = [61, 61]" by blast
  then show ?thesis
  proof cases
    case 1
    then show ?thesis using assms(2) by (simp add: strip_padding_def drop_neq_Cons [OF assms(1)])
  next
    case 2
    then show ?thesis using assms(2)
      by (cases s rule: rev_cases) (use assms(1) in \<open>auto simp: strip_padding_def\<close>)
  next
    case 3
    then show ?thesis using assms(2) by (simp add: strip_padding_def)
  qed
qed

lemma atob_btoa:
  assumes "\<forall>c \<in> set s. unat c < 256" "btoa s = Some t"
  shows "atob t = Some s"
proof -
  let ?x = "map unat s" and ?q = "map b64_char (b64_sextets (map unat s))"
  have b: "\<forall>y \<in> set (b64_sextets ?x). y < 64"
    using assms(1) b64_sextets_bound [of ?x] by auto
  have t: "t = ?q @ b64_pad ?x" using assms(2) by (simp add: btoa_def b64_enc_split split: if_splits)
  have neq: "b64_char y \<noteq> 61 \<and> \<not> is_ascii_ws (b64_char y)" if "y \<in> set (b64_sextets ?x)" for y
    using b that b64_char_neq by simp
  have n61: "61 \<notin> set ?q"
  proof
    assume "61 \<in> set ?q"
    then obtain y where "y \<in> set (b64_sextets ?x)" "61 = b64_char y" unfolding set_map by (rule imageE)
    with neq [of y] show False by simp
  qed
  have "filter (\<lambda>c. \<not> is_ascii_ws c) t = t"
    unfolding filter_id_conv t using neq by (auto simp: b64_pad_def is_ascii_ws_def split: if_splits)
  moreover have "strip_padding t = ?q"
    unfolding t using n61 b64_padded_length [of ?x]
    by (intro strip_padding_app) (auto simp: b64_pad_def)
  moreover have "None \<notin> set (map b64_val ?q)"
    using b b64_val_char by (auto simp: image_iff)
  moreover have "length ?q mod 4 \<noteq> 1" using b64_sextets_length [of ?x] by simp
  moreover have "map (the \<circ> b64_val) ?q = b64_sextets ?x"
    using b by (simp add: b64_val_char map_idI)
  moreover have "map of_nat (b64_dec (b64_sextets ?x)) = s"
    using assms(1) by (simp add: b64_dec_sextets map_idI)
  ultimately show ?thesis by (simp add: atob_def Let_def del: map_map set_map)
qed

lemma byte_bound: "unat (x :: byte) < 256"
  using unsigned_less [of x, where ?'a = nat] by simp

lemma b64_to_bytes_to_b64: "\<exists>s. bytes_to_b64 b = Some s \<and> b64_to_bytes s = Some b"
proof -
  let ?s = "map (\<lambda>x. of_nat (unat x)) b :: jstr"
  have u: "unat (of_nat (unat x) :: 16 word) = unat x" for x :: byte
    using byte_bound [of x] by (intro unat_of_nat_16) simp
  have lt: "\<forall>c \<in> set ?s. unat c < 256"
    using u byte_bound by auto
  have "\<not> (\<exists>c \<in> set ?s. unat c > 255)" using lt by fastforce
  then obtain t where t: "btoa ?s = Some t" unfolding btoa_def by simp
  then have "atob t = Some ?s" by (rule atob_btoa [OF lt])
  moreover have "of_nat (unat (of_nat (unat x) :: 16 word)) = x" for x :: byte by (simp only: u) simp
  then have "map (\<lambda>c. of_nat (unat c)) ?s = b" unfolding map_map o_def by (rule map_idI)
  ultimately show ?thesis
    using t unfolding bytes_to_b64_def b64_to_bytes_def by (metis option.simps(9))
qed

subsection \<open>Properties\<close>

text \<open>Base64 loses nothing: any byte string is encoded (every code unit is a byte, so
  \<open>btoa\<close> never refuses) and decoding the text gives the bytes back.\<close>

theorem base64_roundtrip: "\<exists>s. bytes_to_b64 b = Some s \<and> b64_to_bytes s = Some b"
  by (rule b64_to_bytes_to_b64)

text \<open>Text survives the wire encoding: decoding the UTF-8 bytes of a string gives the string
  back, when it holds no lone surrogate and does not begin with a byte-order mark, which the
  decoder drops.\<close>

theorem utf8_roundtrip:
  assumes "wf_utf16 s" "\<forall>t. s \<noteq> 0xFEFF # t"
  shows "from_utf8 (utf8 s) = s"
  using from_utf8_utf8 [OF assms] .

theorem utf8_roundtrip_witness: "from_utf8 (utf8 [0xD83D, 0xDE00, 0xE9]) = [0xD83D, 0xDE00, 0xE9]"
  by (rule utf8_roundtrip) (simp_all add: is_high_def is_low_def)

end
