(* ===== verification/Value_Fold.thy ===== *)
theory Value_Fold
  imports Store Bytes
begin

text \<open>
  The \<open>value\<close> fold of \<open>src/folds/value.ts\<close>: a last-writer-wins register that keeps the first
  operation accepted for each \<open>(origin, seq)\<close> slot and projects the greatest by
  \<open>(lamport, origin, seq)\<close>. Writes carry the fields of \<open>ValueOp\<close>, which are fields of
  \<open>stored_op\<close>.
\<close>

record value_register =
  vr_ops :: "(jstr \<times> stored_op) list"

record winner =
  win_origin :: jstr
  win_seq :: int
  win_lamport :: int

datatype value_state = ValueEmpty | ValueData bytes winner

datatype set_outcome = Accepted | SetDuplicate | Equivocation

definition value_register_new :: value_register where
  "value_register_new = \<lparr>vr_ops = []\<rparr>"

definition prev_eq :: "bytes option \<Rightarrow> bytes option \<Rightarrow> bool" where
  "prev_eq a b = (case (a, b) of (Some x, Some y) \<Rightarrow> bytes_eq x y | _ \<Rightarrow> a = b)"

definition reg_set :: "stored_op \<Rightarrow> value_register \<Rightarrow> value_register \<times> set_outcome" where
  "reg_set op r =
     (let k = op_slot op in
      case jm_get (vr_ops r) k of
        Some prior \<Rightarrow>
          if \<not> bytes_eq (op_payload prior) (op_payload op) \<or> \<not> prev_eq (op_prev prior) (op_prev op)
          then (r, Equivocation) else (r, SetDuplicate)
      | None \<Rightarrow> (r\<lparr>vr_ops := jm_set k op (vr_ops r)\<rparr>, Accepted))"

definition beats :: "stored_op \<Rightarrow> stored_op option \<Rightarrow> bool" where
  "beats o' win = (case win of
     None \<Rightarrow> True
   | Some w \<Rightarrow> op_lamport o' > op_lamport w
       \<or> (op_lamport o' = op_lamport w \<and> op_origin o' > op_origin w)
       \<or> (op_lamport o' = op_lamport w \<and> op_origin o' = op_origin w \<and> op_seq o' > op_seq w))"

fun reg_scan :: "stored_op option \<Rightarrow> stored_op list \<Rightarrow> stored_op option" where
  "reg_scan win [] = win"
| "reg_scan win (o' # os) = reg_scan (if beats o' win then Some o' else win) os"

definition reg_read :: "value_register \<Rightarrow> value_state" where
  "reg_read r = (case reg_scan None (map snd (vr_ops r)) of
     None \<Rightarrow> ValueEmpty
   | Some w \<Rightarrow> ValueData (op_payload w)
       \<lparr>win_origin = op_origin w, win_seq = op_seq w, win_lamport = op_lamport w\<rparr>)"

text \<open>\<open>BindingInstance.assembleValue\<close>: a fresh register, every operation set, then read.\<close>

fun reg_set_all :: "stored_op list \<Rightarrow> value_register \<Rightarrow> value_register" where
  "reg_set_all [] r = r"
| "reg_set_all (op # ops) r = reg_set_all ops (fst (reg_set op r))"

definition assemble_value :: "stored_op list \<Rightarrow> value_state" where
  "assemble_value ops = reg_read (reg_set_all ops value_register_new)"

subsection \<open>The register's invariant and the outcome of a write\<close>

definition reg_inv :: "value_register \<Rightarrow> bool" where
  "reg_inv r \<longleftrightarrow> distinct (jm_keys (vr_ops r)) \<and> (\<forall>(k, op) \<in> set (vr_ops r). k = op_slot op)"

definition reg_accepted :: "value_register \<Rightarrow> stored_op list" where
  "reg_accepted r = map snd (vr_ops r)"

lemma reg_accepted_simps [simp]:
  "reg_accepted value_register_new = []"
  "reg_accepted (r\<lparr>vr_ops := vr_ops r @ [(k, op)]\<rparr>) = reg_accepted r @ [op]"
  by (simp_all add: reg_accepted_def value_register_new_def)

lemma reg_inv_new [wf_intros]: "reg_inv value_register_new"
  by (simp add: reg_inv_def value_register_new_def)

lemma prev_eq_iff [simp]: "prev_eq a b \<longleftrightarrow> a = b"
  by (auto simp: prev_eq_def split: option.splits)

lemma reg_keys: "reg_inv r \<Longrightarrow> jm_keys (vr_ops r) = map op_slot (reg_accepted r)"
  by (auto simp: reg_inv_def reg_accepted_def)

lemma reg_accepted_distinct: "reg_inv r \<Longrightarrow> distinct (map op_id (reg_accepted r))"
  using reg_keys [of r] by (auto simp: reg_inv_def simp flip: distinct_op_slot)

lemma reg_get_None: "reg_inv r \<Longrightarrow>
    jm_get (vr_ops r) (op_slot op) = None \<longleftrightarrow> op_id op \<notin> op_id ` set (reg_accepted r)"
  using reg_keys [of r] by (simp add: map_of_eq_None_iff op_slot_image_iff flip: set_map [of fst])

lemma reg_get_Some:
  assumes "reg_inv r" "jm_get (vr_ops r) (op_slot op) = Some prior"
  shows "prior \<in> set (reg_accepted r) \<and> op_id prior = op_id op"
proof -
  have "(op_slot op, prior) \<in> set (vr_ops r)" using assms(2) by (rule jm_get_in)
  with assms(1) have "op_slot op = op_slot prior" by (auto simp: reg_inv_def)
  with \<open>(op_slot op, prior) \<in> set (vr_ops r)\<close> show ?thesis
    by (force simp: op_slot_eq_iff reg_accepted_def)
qed

lemma reg_set_fresh [outcome_simps]:
  assumes "reg_inv r" "op_id op \<notin> op_id ` set (reg_accepted r)"
  shows "reg_set op r = (r\<lparr>vr_ops := vr_ops r @ [(op_slot op, op)]\<rparr>, Accepted)"
proof -
  have "jm_get (vr_ops r) (op_slot op) = None" using assms by (simp add: reg_get_None)
  then show ?thesis by (simp add: reg_set_def jm_set_fresh)
qed

lemma reg_set_held [outcome_simps]:
  assumes "reg_inv r" "prior \<in> set (reg_accepted r)" "op_id prior = op_id op"
  shows "reg_set op r = (r, if op_payload prior = op_payload op \<and> op_prev prior = op_prev op
    then SetDuplicate else Equivocation)"
proof -
  have "(op_slot op, prior) \<in> set (vr_ops r)"
    using assms by (force simp: reg_inv_def reg_accepted_def simp flip: op_slot_eq_iff)
  then have "jm_get (vr_ops r) (op_slot op) = Some prior"
    using assms(1) by (simp add: reg_inv_def)
  then show ?thesis by (simp add: reg_set_def)
qed

lemma reg_set_inv [wf_intros]:
  assumes "reg_inv r"
  shows "reg_inv (fst (reg_set op r))"
proof (cases "op_id op \<in> op_id ` set (reg_accepted r)")
  case True
  then obtain p where "p \<in> set (reg_accepted r)" "op_id p = op_id op" by force
  with assms show ?thesis using reg_set_held by simp
next
  case False
  have "op_slot op \<notin> set (jm_keys (vr_ops r))"
    using False reg_get_None [OF assms, of op] by (simp add: map_of_eq_None_iff)
  then show ?thesis using False assms by (auto simp: reg_set_fresh reg_inv_def)
qed

lemma reg_set_all_inv [wf_intros]: "reg_inv r \<Longrightarrow> reg_inv (reg_set_all ops r)"
  by (induction ops r rule: reg_set_all.induct) (auto intro: wf_intros)

lemma reg_set_all_accepted:
  "reg_inv r \<Longrightarrow> reg_accepted (reg_set_all ops r) = reg_accepted r @ landed (reg_accepted r) ops"
proof (induction ops r rule: reg_set_all.induct)
  case (2 op ops r)
  show ?case
  proof (cases "op_id op \<in> op_id ` set (reg_accepted r)")
    case True
    then obtain p where "p \<in> set (reg_accepted r)" "op_id p = op_id op" by force
    with 2 True show ?thesis by (simp add: reg_set_held)
  next
    case False
    with 2 show ?thesis using reg_set_inv [of r op] by (simp add: reg_set_fresh)
  qed
qed simp

subsection \<open>The projection is the maximum\<close>

lemma beats_iff: "beats o' (Some w) \<longleftrightarrow> rank_of w < rank_of o'"
  by (auto simp: beats_def rank_of_def less_op_rank_def)

lemma reg_scan_Some: "reg_scan (Some w) os = Some v \<Longrightarrow>
    v \<in> insert w (set os) \<and> (\<forall>x \<in> insert w (set os). rank_of x \<le> rank_of v)"
proof (induction os arbitrary: w)
  case (Cons x xs)
  then show ?case by (force simp: beats_iff split: if_splits)
qed simp

lemma reg_scan_total: "\<exists>v. reg_scan (Some w) os = Some v"
  by (induction os arbitrary: w) auto

lemma reg_scan_max:
  assumes "os \<noteq> []"
  obtains v where "reg_scan None os = Some v" "v \<in> set os" "\<forall>x \<in> set os. rank_of x \<le> rank_of v"
proof -
  obtain x xs where os: "os = x # xs" using assms by (cases os) auto
  obtain v where "reg_scan (Some x) xs = Some v" using reg_scan_total by blast
  with os reg_scan_Some [OF this] show ?thesis by (intro that) (auto simp: beats_def)
qed

lemma reg_scan_unique:
  assumes "v \<in> set os" "\<forall>x \<in> set os. rank_of x \<le> rank_of v" "inj_on op_id (set os)"
  shows "reg_scan None os = Some v"
proof -
  have "os \<noteq> []" using assms(1) by auto
  then obtain w where w: "reg_scan None os = Some w" "w \<in> set os" "\<forall>x \<in> set os. rank_of x \<le> rank_of w"
    by (rule reg_scan_max)
  then have "rank_of v = rank_of w" using assms by (meson antisym)
  then have "v = w" using inj_on_rank [OF assms(3)] assms(1) w(2) by (auto dest: inj_onD)
  with w show ?thesis by simp
qed

lemma reg_scan_set:
  assumes "set xs = set ys" "inj_on op_id (set xs)"
  shows "reg_scan None xs = reg_scan None ys"
proof (cases "xs = []")
  case False
  then obtain v where "reg_scan None xs = Some v" "v \<in> set xs" "\<forall>x \<in> set xs. rank_of x \<le> rank_of v"
    by (rule reg_scan_max)
  with assms show ?thesis using reg_scan_unique [of v ys] by auto
qed (use assms in simp)

lemma assemble_value_eq: "assemble_value ops =
    (case reg_scan None (landed [] ops) of None \<Rightarrow> ValueEmpty
     | Some w \<Rightarrow> ValueData (op_payload w)
         \<lparr>win_origin = op_origin w, win_seq = op_seq w, win_lamport = op_lamport w\<rparr>)"
proof -
  have "map snd (vr_ops (reg_set_all ops value_register_new)) = landed [] ops"
    using reg_set_all_accepted [OF reg_inv_new, of ops]
    by (simp flip: reg_accepted_def)
  then show ?thesis by (simp add: assemble_value_def reg_read_def)
qed

interpretation value_assembly: convergent_assembly assemble_value
proof (unfold_locales, goal_cases)
  case (1 xs ys)
  then have "landed [] xs = xs" "landed [] ys = ys" by (simp_all add: landed_all)
  with 1 show ?case
    using reg_scan_set [of xs ys] by (simp add: assemble_value_eq distinct_map)
qed

text \<open>A write with an empty payload.\<close>

definition sample_write :: "16 word \<Rightarrow> int \<Rightarrow> int \<Rightarrow> stored_op" where
  "sample_write origin seq lamport = \<lparr>op_origin = [origin], op_seq = seq, op_lamport = lamport, op_prev = None,
     op_refs = None, op_payload = [], op_share = None, op_glade_id = None, op_key = None\<rparr>"

subsection \<open>Properties\<close>

text \<open>C7. The register shows the last write: it is empty exactly when nothing was delivered, and
  otherwise shows the payload of the accepted write of greatest \<open>(lamport, origin, seq)\<close>, where
  the accepted writes are the first delivered of each identity.\<close>

theorem value_is_last_write:
  "(assemble_value ops = ValueEmpty \<longleftrightarrow> ops = [])
   \<and> (assemble_value ops = ValueData p w \<longleftrightarrow> (\<exists>o' \<in> set (landed [] ops). p = op_payload o'
        \<and> w = \<lparr>win_origin = op_origin o', win_seq = op_seq o', win_lamport = op_lamport o'\<rparr>
        \<and> (\<forall>x \<in> set (landed [] ops). rank_of x \<le> rank_of o')))"
proof (cases "ops = []")
  case False
  then have ne: "landed [] ops \<noteq> []" by (cases ops) simp_all
  have inj: "inj_on op_id (set (landed [] ops))"
    using landed_distinct [of "[]" ops] by (simp add: distinct_map)
  obtain v where v: "reg_scan None (landed [] ops) = Some v" "v \<in> set (landed [] ops)"
    "\<forall>x \<in> set (landed [] ops). rank_of x \<le> rank_of v"
    using reg_scan_max [OF ne] by blast
  moreover have "o' = v" if "o' \<in> set (landed [] ops)" "\<forall>x \<in> set (landed [] ops). rank_of x \<le> rank_of o'" for o'
    using reg_scan_unique [OF that inj] v(1) by simp
  ultimately have uniq: "o' \<in> set (landed [] ops) \<and> (\<forall>x \<in> set (landed [] ops). rank_of x \<le> rank_of o') \<longleftrightarrow> o' = v" for o'
    by blast
  have "assemble_value ops = ValueData (op_payload v)
      \<lparr>win_origin = op_origin v, win_seq = op_seq v, win_lamport = op_lamport v\<rparr>"
    by (simp add: assemble_value_eq v(1))
  moreover have "(\<exists>o' \<in> set (landed [] ops). p = op_payload o'
        \<and> w = \<lparr>win_origin = op_origin o', win_seq = op_seq o', win_lamport = op_lamport o'\<rparr>
        \<and> (\<forall>x \<in> set (landed [] ops). rank_of x \<le> rank_of o')) \<longleftrightarrow>
      (\<exists>o'. (o' \<in> set (landed [] ops) \<and> (\<forall>x \<in> set (landed [] ops). rank_of x \<le> rank_of o')) \<and> p = op_payload o'
        \<and> w = \<lparr>win_origin = op_origin o', win_seq = op_seq o', win_lamport = op_lamport o'\<rparr>)" by blast
  ultimately show ?thesis using False unfolding uniq by auto
qed (simp add: assemble_value_eq)

theorem value_is_last_write_witness:
  "assemble_value [sample_write 98 1 2, sample_write 97 1 3, sample_write 98 2 3]
     = ValueData [] \<lparr>win_origin = [98], win_seq = 2, win_lamport = 3\<rparr>"
  using value_is_last_write [of "[sample_write 98 1 2, sample_write 97 1 3, sample_write 98 2 3]" "[]"
      "\<lparr>win_origin = [98], win_seq = 2, win_lamport = 3\<rparr>"]
  by (simp add: sample_write_def op_id_def rank_of_def less_eq_op_rank_def less_op_rank_def)

text \<open>Replicas agree: two replicas that were delivered the same writes, in any order and with
  any repetition, show the same value, as long as no origin uses one sequence number for two
  different writes.\<close>

theorem value_replicas_agree:
  assumes "set xs = set ys" "consistent_ids (set xs)"
  shows "assemble_value (landed [] xs) = assemble_value (landed [] ys)"
  using assms by (rule value_assembly.deliveries_converge)

theorem value_replicas_agree_witness:
  "assemble_value (landed [] [sample_write 97 1 1, sample_write 98 1 2, sample_write 97 1 1])
     = assemble_value (landed [] [sample_write 98 1 2, sample_write 97 1 1])"
  by (rule value_replicas_agree) (auto simp: consistent_ids_def inj_on_def sample_write_def op_id_def)

text \<open>A slot keeps its first write: whatever has been written before, a further write to a held
  slot changes nothing, and is reported as an equivocation exactly when its payload or its
  predecessor differs; a write to a free slot is accepted.\<close>

theorem register_first_write_wins:
  "reg_set op (reg_set_all ops value_register_new) =
     (let r = reg_set_all ops value_register_new in
      case find (\<lambda>p. op_id p = op_id op) (landed [] ops) of
        None \<Rightarrow> (r\<lparr>vr_ops := vr_ops r @ [(op_slot op, op)]\<rparr>, Accepted)
      | Some prior \<Rightarrow> (r, if op_payload prior = op_payload op \<and> op_prev prior = op_prev op then SetDuplicate else Equivocation))"
proof -
  let ?r = "reg_set_all ops value_register_new"
  have inv: "reg_inv ?r" by (intro wf_intros)
  have acc: "reg_accepted ?r = landed [] ops" using reg_set_all_accepted [OF reg_inv_new] by simp
  show ?thesis
  proof (cases "find (\<lambda>p. op_id p = op_id op) (landed [] ops)")
    case None
    then have "op_id op \<notin> op_id ` set (reg_accepted ?r)" by (auto simp: acc find_None_iff)
    with inv None show ?thesis by (simp add: reg_set_fresh Let_def)
  next
    case (Some prior)
    then have "prior \<in> set (reg_accepted ?r)" "op_id prior = op_id op" by (auto simp: acc find_Some_iff)
    with inv Some show ?thesis by (simp add: reg_set_held Let_def)
  qed
qed

end
