(* ===== verification/Log_Fold.thy ===== *)
theory Log_Fold
  imports Prelude
begin

text \<open>
  The \<open>log\<close> fold of \<open>src/folds/log.ts\<close>: \<open>push\<close> numbers records from 1, \<open>read\<close> returns
  what lies after an exclusive cursor within the record and byte bounds. A bound that is
  \<open>null\<close> or absent is \<open>None\<close>.
\<close>

record log_record =
  lr_seq :: int
  lr_payload :: bytes

record log_buffer =
  lb_records :: "log_record list"

record read_req =
  rq_cursor_seq :: int
  rq_max_records :: "int option"
  rq_max_bytes :: "int option"

datatype read_state = ReadData | ReadWouldBlock

record read_result =
  rr_state :: read_state
  rr_records :: "log_record list"
  rr_next_cursor_seq :: int

definition log_buffer_new :: log_buffer where
  "log_buffer_new = \<lparr>lb_records = []\<rparr>"

definition log_push :: "bytes \<Rightarrow> log_buffer \<Rightarrow> log_buffer \<times> log_record" where
  "log_push payload b =
     (let r = \<lparr>lr_seq = int (length (lb_records b)) + 1, lr_payload = payload\<rparr>
      in (b\<lparr>lb_records := lb_records b @ [r]\<rparr>, r))"

definition log_head :: "log_buffer \<Rightarrow> int" where
  "log_head b = int (length (lb_records b))"

definition log_all :: "log_buffer \<Rightarrow> log_record list" where
  "log_all b = lb_records b"

definition payload_len :: "log_record \<Rightarrow> int" where
  "payload_len r = int (length (lr_payload r))"

text \<open>The loop of \<open>read\<close>: \<open>out\<close> and \<open>bytes\<close> are its local variables.\<close>

fun log_read_loop :: "read_req \<Rightarrow> log_record list \<Rightarrow> log_record list \<Rightarrow> int \<Rightarrow> log_record list" where
  "log_read_loop rq [] out bytes = out"
| "log_read_loop rq (r # rs) out bytes =
     (if lr_seq r \<le> rq_cursor_seq rq then log_read_loop rq rs out bytes
      else if (case rq_max_records rq of None \<Rightarrow> False | Some m \<Rightarrow> int (length out) \<ge> m) then out
      else if (case rq_max_bytes rq of None \<Rightarrow> False
               | Some m \<Rightarrow> length out > 0 \<and> bytes + payload_len r > m) then out
      else log_read_loop rq rs (out @ [r]) (bytes + payload_len r))"

definition log_read :: "read_req \<Rightarrow> log_buffer \<Rightarrow> read_result" where
  "log_read rq b =
     (let out = log_read_loop rq (lb_records b) [] 0 in
      \<lparr>rr_state = (if out \<noteq> [] then ReadData else ReadWouldBlock),
       rr_records = out,
       rr_next_cursor_seq = (if out \<noteq> [] then lr_seq (last out) else rq_cursor_seq rq)\<rparr>)"

fun log_push_all :: "bytes list \<Rightarrow> log_buffer \<Rightarrow> log_buffer" where
  "log_push_all [] b = b"
| "log_push_all (p # ps) b = log_push_all ps (fst (log_push p b))"

subsection \<open>Numbering\<close>

definition log_inv :: "log_buffer \<Rightarrow> bool" where
  "log_inv b \<longleftrightarrow> (\<forall>i < length (lb_records b). lr_seq (lb_records b ! i) = int i + 1)"

lemma log_inv_new [wf_intros]: "log_inv log_buffer_new"
  by (simp add: log_inv_def log_buffer_new_def)

lemma log_push_inv [wf_intros]: "log_inv b \<Longrightarrow> log_inv (fst (log_push p b))"
  by (auto simp: log_inv_def log_push_def Let_def nth_append less_Suc_eq)

lemma log_push_all_inv [wf_intros]: "log_inv b \<Longrightarrow> log_inv (log_push_all ps b)"
  by (induction ps b rule: log_push_all.induct) (auto intro: wf_intros)

definition number_from :: "int \<Rightarrow> bytes list \<Rightarrow> log_record list" where
  "number_from n ps = map (\<lambda>(i, p). \<lparr>lr_seq = n + int i + 1, lr_payload = p\<rparr>) (enumerate 0 ps)"

lemma number_from_simps [simp]:
  "number_from n [] = []" "length (number_from n ps) = length ps"
  "i < length ps \<Longrightarrow> number_from n ps ! i = \<lparr>lr_seq = n + int i + 1, lr_payload = ps ! i\<rparr>"
  by (simp_all add: number_from_def nth_enumerate_eq)

lemma number_from_Cons: "number_from n (p # ps) = \<lparr>lr_seq = n + 1, lr_payload = p\<rparr> # number_from (n + 1) ps"
  by (rule nth_equalityI) (auto simp: nth_Cons split: nat.split)

lemma log_push_all_records:
  "lb_records (log_push_all ps b) = lb_records b @ number_from (int (length (lb_records b))) ps"
  by (induction ps b rule: log_push_all.induct) (auto simp: log_push_def Let_def number_from_Cons add_ac)

subsection \<open>Reading\<close>

abbreviation after :: "int \<Rightarrow> log_record list \<Rightarrow> log_record list" where
  "after c rs \<equiv> filter (\<lambda>r. lr_seq r > c) rs"

lemma log_read_loop_prefix:
  "\<exists>k. log_read_loop rq rs out bytes = out @ take k (after (rq_cursor_seq rq) rs)"
proof (induction rq rs out bytes rule: log_read_loop.induct)
  case (2 rq r rs out bytes)
  show ?case
  proof (cases "lr_seq r \<le> rq_cursor_seq rq")
    case True
    with 2 show ?thesis by auto
  next
    case False
    let ?stop = "(case rq_max_records rq of None \<Rightarrow> False | Some m \<Rightarrow> int (length out) \<ge> m)
      \<or> (case rq_max_bytes rq of None \<Rightarrow> False | Some m \<Rightarrow> length out > 0 \<and> bytes + payload_len r > m)"
    show ?thesis
    proof (cases ?stop)
      case True
      with False have "log_read_loop rq (r # rs) out bytes = out" by auto
      then show ?thesis by (intro exI [of _ 0]) simp
    next
      case stop: False
      with False 2 obtain k where "log_read_loop rq (r # rs) out bytes
          = (out @ [r]) @ take k (after (rq_cursor_seq rq) rs)" by auto
      with False show ?thesis by (intro exI [of _ "Suc k"]) simp
    qed
  qed
qed auto

lemma log_read_loop_max_records:
  "rq_max_records rq = Some m \<Longrightarrow> int (length out) \<le> m \<Longrightarrow>
   int (length (log_read_loop rq rs out bytes)) \<le> m"
  by (induction rq rs out bytes rule: log_read_loop.induct) auto

lemma log_read_loop_max_bytes:
  "rq_max_bytes rq = Some m \<Longrightarrow> bytes = (\<Sum>r\<leftarrow>out. payload_len r) \<Longrightarrow> bytes \<le> m \<or> length out \<le> 1 \<Longrightarrow>
   (\<Sum>r\<leftarrow>log_read_loop rq rs out bytes. payload_len r) \<le> m \<or> length (log_read_loop rq rs out bytes) \<le> 1"
proof (induction rq rs out bytes rule: log_read_loop.induct)
  case (2 rq r rs out bytes)
  then show ?case by (auto split: option.splits)
qed auto

lemma log_read_loop_extends: "\<exists>ys. log_read_loop rq rs out bytes = out @ ys"
  using log_read_loop_prefix by metis

lemma log_read_loop_progress:
  "after (rq_cursor_seq rq) rs \<noteq> [] \<Longrightarrow> (\<forall>m. rq_max_records rq = Some m \<longrightarrow> 0 < m) \<Longrightarrow>
   log_read_loop rq rs [] 0 \<noteq> []"
proof (induction rs)
  case (Cons r rs)
  then show ?case
    using log_read_loop_extends [of rq rs "[r]" "payload_len r"] by (auto split: option.splits)
qed simp

lemma log_inv_sorted:
  assumes "log_inv b"
  shows "sorted_wrt (\<lambda>r s. lr_seq r < lr_seq s) (lb_records b)"
  using assms by (auto simp: log_inv_def sorted_wrt_iff_nth_less)

lemma after_take_last:
  assumes "sorted_wrt (\<lambda>r s. lr_seq r < lr_seq s) rs" "xs = take k (after c rs)" "xs \<noteq> []"
  shows "xs @ after (lr_seq (last xs)) rs = after c rs"
proof -
  let ?f = "after c rs"
  have s: "sorted_wrt (\<lambda>r s. lr_seq r < lr_seq s) ?f"
    using assms(1) by (rule sorted_wrt_filter)
  let ?l = "lr_seq (last xs)"
  have "last xs \<in> set ?f" using assms(2,3) by (metis in_set_takeD last_in_set)
  then have cl: "c < ?l" by simp
  have x: "\<And>r. r \<in> set xs \<Longrightarrow> lr_seq r \<le> ?l"
  proof -
    fix r assume "r \<in> set xs"
    have "sorted_wrt (\<lambda>r s. lr_seq r < lr_seq s) xs" using s assms(2) by (simp add: sorted_wrt_take)
    with assms(3) \<open>r \<in> set xs\<close> show "lr_seq r \<le> ?l"
      by (cases xs rule: rev_cases) (auto simp: sorted_wrt_append intro: order.strict_implies_order)
  qed
  have d: "\<And>r. r \<in> set (drop k ?f) \<Longrightarrow> ?l < lr_seq r"
    using s assms(2,3) last_in_set [of xs]
    by (metis append_take_drop_id sorted_wrt_append)
  have "after ?l rs = after ?l ?f"
    using cl by (auto simp: filter_filter intro!: filter_cong)
  also have "\<dots> = after ?l (xs @ drop k ?f)" using assms(2) by simp
  also have "\<dots> = drop k ?f" using x d by (auto simp: filter_empty_conv not_less filter_id_conv)
  finally show ?thesis using assms(2) by simp
qed

subsection \<open>Properties\<close>

text \<open>
  A reader that follows the cursor: each read starts after the last record of the one before,
  with bounds of its own.
\<close>

fun read_chain :: "(int option \<times> int option) list \<Rightarrow> int \<Rightarrow> log_buffer \<Rightarrow> log_record list" where
  "read_chain [] c b = []"
| "read_chain ((mr, mb) # bounds) c b =
     (let r = log_read \<lparr>rq_cursor_seq = c, rq_max_records = mr, rq_max_bytes = mb\<rparr> b
      in rr_records r @ read_chain bounds (rr_next_cursor_seq r) b)"

lemma log_read_resume:
  assumes "log_inv b"
  shows "\<exists>k. rr_records (log_read rq b) = take k (after (rq_cursor_seq rq) (lb_records b))
    \<and> rr_records (log_read rq b) @ after (rr_next_cursor_seq (log_read rq b)) (lb_records b)
        = after (rq_cursor_seq rq) (lb_records b)"
proof -
  obtain k where k: "log_read_loop rq (lb_records b) [] 0 = take k (after (rq_cursor_seq rq) (lb_records b))"
    using log_read_loop_prefix [of rq "lb_records b" "[]" 0] by auto
  then show ?thesis
    using after_take_last [OF log_inv_sorted [OF assms] k]
    by (intro exI [of _ k]) (auto simp: log_read_def Let_def)
qed

lemma after_none:
  assumes "rs = number_from 0 ps"
  shows "after c rs = [] \<longleftrightarrow> ps = [] \<or> int (length ps) \<le> c"
proof -
  have "after c rs = [] \<longleftrightarrow> (\<forall>i < length ps. int i + 1 \<le> c)"
    unfolding assms filter_empty_conv all_set_conv_all_nth by (auto simp: not_le)
  also have "\<dots> \<longleftrightarrow> ps = [] \<or> int (length ps) \<le> c"
  proof (cases ps rule: rev_cases)
    case (snoc qs p)
    then show ?thesis by (auto dest: spec [of _ "length qs"])
  qed simp
  finally show ?thesis .
qed

text \<open>C31. A reader never loses nor repeats a record: following the cursor through reads with
  arbitrary bounds returns, in order and without gap or repetition, the first records after the
  starting cursor.\<close>

theorem log_reads_resume:
  "\<exists>k. read_chain bounds c (log_push_all ps log_buffer_new)
      = take k (filter (\<lambda>r. lr_seq r > c) (lb_records (log_push_all ps log_buffer_new)))"
proof -
  let ?b = "log_push_all ps log_buffer_new"
  have inv: "log_inv ?b" by (intro wf_intros)
  have "\<exists>k. read_chain bounds c ?b = take k (after c (lb_records ?b))"
  proof (induction bounds arbitrary: c)
    case Nil
    show ?case by (intro exI [of _ 0]) simp
  next
    case (Cons mm bounds)
    obtain mr mb where mm: "mm = (mr, mb)" by fastforce
    let ?r = "log_read \<lparr>rq_cursor_seq = c, rq_max_records = mr, rq_max_bytes = mb\<rparr> ?b"
    obtain k where "read_chain bounds (rr_next_cursor_seq ?r) ?b = take k (after (rr_next_cursor_seq ?r) (lb_records ?b))"
      using Cons by blast
    moreover have "rr_records ?r @ after (rr_next_cursor_seq ?r) (lb_records ?b) = after c (lb_records ?b)"
      using log_read_resume [OF inv] by fastforce
    ultimately show ?case
      by (intro exI [of _ "length (rr_records ?r) + k"]) (simp add: mm Let_def take_add flip: \<open>_ = after c _\<close>)
  qed
  then show ?thesis .
qed

text \<open>A read respects its bounds and still makes progress: it returns no more records than
  asked, no more bytes than asked unless it returns at most a single record, and at least one record
  whenever one lies after the cursor and the record bound is not zero; it reports data exactly
  when it returns a record, and leaves the cursor alone otherwise.\<close>

theorem log_read_bounded:
  assumes "b = log_push_all ps log_buffer_new" "rq_max_records rq = Some m" "0 < m" "rq_max_bytes rq = Some n"
  shows "int (length (rr_records (log_read rq b))) \<le> m
    \<and> ((\<Sum>r\<leftarrow>rr_records (log_read rq b). payload_len r) \<le> n \<or> length (rr_records (log_read rq b)) \<le> 1)
    \<and> (rr_records (log_read rq b) = [] \<longleftrightarrow> ps = [] \<or> int (length ps) \<le> rq_cursor_seq rq)
    \<and> (rr_state (log_read rq b) = ReadData \<longleftrightarrow> rr_records (log_read rq b) \<noteq> [])
    \<and> (rr_records (log_read rq b) = [] \<longrightarrow> rr_next_cursor_seq (log_read rq b) = rq_cursor_seq rq)"
proof -
  have inv: "log_inv b" unfolding assms(1) by (intro wf_intros)
  have recs: "lb_records b = number_from 0 ps"
    using log_push_all_records [of ps log_buffer_new] by (simp add: assms(1) log_buffer_new_def)
  let ?out = "log_read_loop rq (lb_records b) [] 0"
  have out: "rr_records (log_read rq b) = ?out" by (simp add: log_read_def Let_def)
  have "int (length ?out) \<le> m" using assms by (intro log_read_loop_max_records) simp_all
  moreover have "(\<Sum>r\<leftarrow>?out. payload_len r) \<le> n \<or> length ?out \<le> 1"
    using assms by (intro log_read_loop_max_bytes) simp_all
  moreover have "after (rq_cursor_seq rq) (lb_records b) = [] \<longleftrightarrow> ps = [] \<or> int (length ps) \<le> rq_cursor_seq rq"
    by (rule after_none) (rule recs)
  moreover have "?out = [] \<longleftrightarrow> after (rq_cursor_seq rq) (lb_records b) = []"
    using log_read_loop_progress [of rq "lb_records b"] log_read_loop_prefix [of rq "lb_records b" "[]" 0] assms(2,3)
    by auto
  ultimately have facts: "int (length ?out) \<le> m" "(\<Sum>r\<leftarrow>?out. payload_len r) \<le> n \<or> length ?out \<le> 1"
    "?out = [] \<longleftrightarrow> ps = [] \<or> int (length ps) \<le> rq_cursor_seq rq" by blast+
  show ?thesis
    unfolding out by (intro conjI) (use facts in \<open>auto simp: log_read_def Let_def\<close>)
qed

theorem log_read_bounded_witness:
  "let b = log_push_all [[1, 2], [3], [4, 5]] log_buffer_new;
       r = log_read \<lparr>rq_cursor_seq = 1, rq_max_records = Some 2, rq_max_bytes = Some 2\<rparr> b
   in int (length (rr_records r)) \<le> 2"
  using log_read_bounded [of "log_push_all [[1, 2], [3], [4, 5]] log_buffer_new" "[[1, 2], [3], [4, 5]]"
      "\<lparr>rq_cursor_seq = 1, rq_max_records = Some 2, rq_max_bytes = Some 2\<rparr>" 2 2]
  by (simp add: Let_def)

end
