(* ===== verification/Shapes.thy ===== *)
theory Shapes
  imports Prelude
begin

text \<open>
  The delivery capabilities of \<open>src/shapes.ts\<close>: the adapter table and the four gates, which
  accept exactly the shape names they list and refuse everything else with the list of what
  they support. Shape names are strings on the way in, since declarations come from outside.
\<close>

datatype delivery_shape = Atom | Crdt | Value | Log | Stream | Swmr | TextCrdt

definition shape_name :: "delivery_shape \<Rightarrow> jstr" where
  "shape_name s = (case s of
     Atom \<Rightarrow> jlit ''atom'' | Crdt \<Rightarrow> jlit ''crdt'' | Value \<Rightarrow> jlit ''value'' | Log \<Rightarrow> jlit ''log''
   | Stream \<Rightarrow> jlit ''stream'' | Swmr \<Rightarrow> jlit ''swmr'' | TextCrdt \<Rightarrow> jlit ''text_crdt'')"

record shape_adapter =
  ad_shape :: delivery_shape
  ad_contract_version :: jstr
  ad_operations :: "jstr list"

definition adapters :: "(jstr \<times> shape_adapter) list" where
  "adapters =
    [(jlit ''atom'', \<lparr>ad_shape = Atom, ad_contract_version = jlit ''atom.oracle/v1'',
        ad_operations = map jlit [''replace'', ''read'', ''end-stream'']\<rparr>),
     (jlit ''crdt'', \<lparr>ad_shape = Crdt, ad_contract_version = jlit ''crdt.oracle/v1'',
        ad_operations = map jlit [''apply'', ''read'', ''bootstrap'', ''reconnect'']\<rparr>),
     (jlit ''value'', \<lparr>ad_shape = Value, ad_contract_version = jlit ''value.oracle/v0'',
        ad_operations = map jlit [''read'', ''set'', ''local-invalidation'']\<rparr>),
     (jlit ''log'', \<lparr>ad_shape = Log, ad_contract_version = jlit ''log.oracle/v0'',
        ad_operations = map jlit [''append'', ''read'', ''subscribe'']\<rparr>),
     (jlit ''stream'', \<lparr>ad_shape = Stream, ad_contract_version = jlit ''stream.oracle/v1'',
        ad_operations = map jlit [''push'', ''read'', ''reconnect'', ''end-stream'']\<rparr>),
     (jlit ''swmr'', \<lparr>ad_shape = Swmr, ad_contract_version = jlit ''swmr.oracle/v1'',
        ad_operations = map jlit [''snapshot_push'', ''delta_push'', ''reset'', ''read'']\<rparr>),
     (jlit ''text_crdt'', \<lparr>ad_shape = TextCrdt, ad_contract_version = jlit ''text_crdt.profile/v1'',
        ad_operations = map jlit [''insert'', ''delete'', ''read'', ''bootstrap'', ''reconnect'']\<rparr>)]"

record unsupported_shape =
  us_shape :: jstr
  us_operation :: jstr
  us_supported :: "jstr list"

text \<open>\<open>ADAPTERS[shape]\<close> behind a gate that has checked the name.\<close>

definition gate :: "string list \<Rightarrow> jstr list \<Rightarrow> jstr \<Rightarrow> jstr \<Rightarrow> unsupported_shape + shape_adapter" where
  "gate accepted supported shape operation =
     (case (if shape \<in> set (map jlit accepted) then jm_get adapters shape else None) of
        Some a \<Rightarrow> Inr a
      | None \<Rightarrow> Inl \<lparr>us_shape = shape, us_operation = operation, us_supported = supported\<rparr>)"

definition require_shape_adapter :: "jstr \<Rightarrow> jstr \<Rightarrow> unsupported_shape + shape_adapter" where
  "require_shape_adapter shape operation =
     gate [''atom'', ''crdt'', ''value'', ''log'', ''stream'', ''swmr'', ''text_crdt'']
       (jm_keys adapters) shape operation"

definition require_mount_shape_adapter :: "jstr \<Rightarrow> jstr \<Rightarrow> unsupported_shape + shape_adapter" where
  "require_mount_shape_adapter shape operation =
     gate [''value'', ''log'', ''swmr'', ''crdt'']
       (map jlit [''crdt'', ''log'', ''swmr'', ''value'']) shape operation"

definition require_fold_shape_adapter :: "jstr \<Rightarrow> jstr \<Rightarrow> unsupported_shape + shape_adapter" where
  "require_fold_shape_adapter shape operation =
     gate [''value'', ''log''] (map jlit [''log'', ''value'']) shape operation"

definition require_exchange_shape :: "jstr \<Rightarrow> jstr \<Rightarrow> unsupported_shape + unit" where
  "require_exchange_shape shape operation =
     (if shape \<noteq> jlit ''exchange''
      then Inl \<lparr>us_shape = shape, us_operation = operation, us_supported = [jlit ''exchange'']\<rparr>
      else Inr ())"

definition glial_shape_capabilities :: "shape_adapter list" where
  "glial_shape_capabilities = map snd adapters"

lemma adapters_get: "jm_get adapters (shape_name s) = Some a \<Longrightarrow> ad_shape a = s"
  by (cases s) (auto simp: adapters_def shape_name_def)

lemma adapters_total: "jm_get adapters (shape_name s) \<noteq> None"
  by (cases s) (auto simp: adapters_def shape_name_def)

lemma shape_name_eq_iff [simp]: "shape_name s = shape_name t \<longleftrightarrow> s = t"
  by (cases s; cases t) (simp_all add: shape_name_def)

text \<open>What a gate over the names of a set of shapes does.\<close>

lemma gate_spec:
  assumes "map jlit accepted = map shape_name ss"
  shows "gate accepted names shape oper = Inr a \<longleftrightarrow> shape = shape_name (ad_shape a) \<and> ad_shape a \<in> set ss
      \<and> jm_get adapters shape = Some a"
    and "gate accepted names shape oper = Inl e \<longleftrightarrow> shape \<notin> shape_name ` set ss
      \<and> e = \<lparr>us_shape = shape, us_operation = oper, us_supported = names\<rparr>"
proof -
  have acc: "set (map jlit accepted) = shape_name ` set ss" by (simp only: assms set_map)
  show "gate accepted names shape oper = Inr a \<longleftrightarrow> shape = shape_name (ad_shape a) \<and> ad_shape a \<in> set ss
      \<and> jm_get adapters shape = Some a"
    unfolding gate_def acc by (auto dest: adapters_get split: option.splits)
  show "gate accepted names shape oper = Inl e \<longleftrightarrow> shape \<notin> shape_name ` set ss
      \<and> e = \<lparr>us_shape = shape, us_operation = oper, us_supported = names\<rparr>"
    unfolding gate_def acc
    by (cases "shape \<in> shape_name ` set ss") (auto simp: adapters_total split: option.splits)
qed

lemma accepted_names:
  "map jlit [''atom'', ''crdt'', ''value'', ''log'', ''stream'', ''swmr'', ''text_crdt'']
     = map shape_name [Atom, Crdt, Value, Log, Stream, Swmr, TextCrdt]"
  "map jlit [''value'', ''log'', ''swmr'', ''crdt''] = map shape_name [Value, Log, Swmr, Crdt]"
  "map jlit [''value'', ''log''] = map shape_name [Value, Log]"
  by (simp_all add: shape_name_def)

lemma require_mount_Inr: "require_mount_shape_adapter shape oper = Inr a \<longleftrightarrow>
    shape = shape_name (ad_shape a) \<and> ad_shape a \<in> {Value, Log, Swmr, Crdt} \<and> jm_get adapters shape = Some a"
  by (simp add: require_mount_shape_adapter_def gate_spec [OF accepted_names(2)])

lemma require_mount_Inl: "require_mount_shape_adapter shape oper = Inl e \<longleftrightarrow>
    shape \<notin> shape_name ` {Value, Log, Swmr, Crdt}
    \<and> e = \<lparr>us_shape = shape, us_operation = oper, us_supported = map jlit [''crdt'', ''log'', ''swmr'', ''value'']\<rparr>"
  by (simp add: require_mount_shape_adapter_def gate_spec [OF accepted_names(2)])

lemma require_fold_Inr: "require_fold_shape_adapter shape oper = Inr a \<longleftrightarrow>
    shape = shape_name (ad_shape a) \<and> ad_shape a \<in> {Value, Log} \<and> jm_get adapters shape = Some a"
  by (simp add: require_fold_shape_adapter_def gate_spec [OF accepted_names(3)])

lemma require_shape_Inr: "require_shape_adapter shape oper = Inr a \<longleftrightarrow>
    shape = shape_name (ad_shape a) \<and> jm_get adapters shape = Some a"
  by (cases "ad_shape a") (auto simp: require_shape_adapter_def gate_spec [OF accepted_names(1)])

subsection \<open>Properties\<close>

text \<open>The shape gates are exact and fail closed: each accepts precisely the shapes its seam
  carries, returns that shape's adapter, and refuses every other string with an error that
  names the shape and the operation. What the fold gate accepts the mount gate accepts, and
  what that accepts is a delivery shape, with the same adapter.\<close>

theorem shape_gates_exact:
  "((\<exists>a. require_shape_adapter s oper = Inr a) \<longleftrightarrow> s \<in> range shape_name)
   \<and> ((\<exists>a. require_mount_shape_adapter s oper = Inr a) \<longleftrightarrow> s \<in> shape_name ` {Value, Log, Swmr, Crdt})
   \<and> ((\<exists>a. require_fold_shape_adapter s oper = Inr a) \<longleftrightarrow> s \<in> shape_name ` {Value, Log})
   \<and> (require_fold_shape_adapter s oper = Inr a \<longrightarrow> require_mount_shape_adapter s oper = Inr a)
   \<and> (require_mount_shape_adapter s oper = Inr a \<longrightarrow> require_shape_adapter s oper = Inr a)
   \<and> (require_shape_adapter s oper = Inr a \<longrightarrow> s = shape_name (ad_shape a))
   \<and> (require_mount_shape_adapter s oper = Inl e \<longrightarrow> us_shape e = s \<and> us_operation e = oper)"
proof -
  have get: "\<exists>a. jm_get adapters (shape_name d) = Some a \<and> ad_shape a = d" for d
    using adapters_total [of d] adapters_get [of d] by auto
  have "(\<exists>a. require_shape_adapter s oper = Inr a) \<longleftrightarrow> s \<in> range shape_name"
    using get by (auto simp: require_shape_Inr) metis
  moreover have "(\<exists>a. require_mount_shape_adapter s oper = Inr a) \<longleftrightarrow> s \<in> shape_name ` {Value, Log, Swmr, Crdt}"
    using require_mount_Inl [of s oper] by (cases "require_mount_shape_adapter s oper") auto
  moreover have "(\<exists>a. require_fold_shape_adapter s oper = Inr a) \<longleftrightarrow> s \<in> shape_name ` {Value, Log}"
    using get [of Value] get [of Log] by (auto simp: require_fold_Inr)
  moreover have "require_fold_shape_adapter s oper = Inr a \<Longrightarrow> require_mount_shape_adapter s oper = Inr a"
    "require_mount_shape_adapter s oper = Inr a \<Longrightarrow> require_shape_adapter s oper = Inr a"
    "require_shape_adapter s oper = Inr a \<Longrightarrow> s = shape_name (ad_shape a)"
    unfolding require_fold_Inr require_mount_Inr require_shape_Inr by blast+
  moreover have "us_shape e = s \<and> us_operation e = oper" if "require_mount_shape_adapter s oper = Inl e"
    using that [unfolded require_mount_Inl] by simp
  ultimately show ?thesis by blast
qed

theorem shape_gates_exact_witness: "require_shape_adapter (jlit ''log'') [] = require_fold_shape_adapter (jlit ''log'') []"
proof -
  have "jlit ''log'' \<in> shape_name ` {Value, Log}" by (simp add: shape_name_def)
  then obtain a where a: "require_fold_shape_adapter (jlit ''log'') [] = Inr a"
    using shape_gates_exact [of "jlit ''log''" "[]"] by blast
  then have "require_shape_adapter (jlit ''log'') [] = Inr a"
    using shape_gates_exact [of "jlit ''log''" "[]" a] by blast
  with a show ?thesis by simp
qed

end
