(* ===== verification/Js_Json.thy ===== *)
theory Js_Json
  imports Js_Text
begin

text \<open>
  \<open>JSON.parse\<close> on a string of code units, as ECMA-404 and the language define it: the whole
  text is one value with whitespace around it, a repeated member name keeps its first place and
  its last value, a number is kept as its literal (the code never looks at a number's value).
  The recursion spends one unit of fuel per call; \<open>json_fuel\<close> is enough for every input.
\<close>

datatype json =
  JNull | JBool bool | JNum jstr | JStr jstr | JArr "json list" | JObj "(jstr \<times> json) list"

definition is_ws :: "16 word \<Rightarrow> bool" where
  "is_ws c \<longleftrightarrow> c = 0x20 \<or> c = 0x09 \<or> c = 0x0A \<or> c = 0x0D"

definition skip_ws :: "jstr \<Rightarrow> jstr" where
  "skip_ws xs = dropWhile is_ws xs"

definition is_digit :: "16 word \<Rightarrow> bool" where
  "is_digit c \<longleftrightarrow> 48 \<le> unat c \<and> unat c \<le> 57"

definition hex_val :: "16 word \<Rightarrow> nat option" where
  "hex_val c =
     (if is_digit c then Some (unat c - 48)
      else if 97 \<le> unat c \<and> unat c \<le> 102 then Some (unat c - 87)
      else if 65 \<le> unat c \<and> unat c \<le> 70 then Some (unat c - 55)
      else None)"

definition hex4 :: "16 word \<Rightarrow> 16 word \<Rightarrow> 16 word \<Rightarrow> 16 word \<Rightarrow> 16 word option" where
  "hex4 a b c d =
     (case (hex_val a, hex_val b, hex_val c, hex_val d) of
        (Some w, Some x, Some y, Some z) \<Rightarrow> Some (of_nat (w * 4096 + x * 256 + y * 16 + z))
      | _ \<Rightarrow> None)"

text \<open>The escapes of one letter: quote, backslash, slash, b, f, n, r, t.\<close>

definition simple_escape :: "16 word \<Rightarrow> 16 word option" where
  "simple_escape e =
     map_of [(0x22, 0x22), (0x5C, 0x5C), (0x2F, 0x2F), (0x62, 0x08), (0x66, 0x0C),
             (0x6E, 0x0A), (0x72, 0x0D), (0x74, 0x09)] e"

definition cons_to :: "'a \<Rightarrow> ('a list \<times> 'b) option \<Rightarrow> ('a list \<times> 'b) option" where
  "cons_to x r = map_option (\<lambda>(xs, rest). (x # xs, rest)) r"

text \<open>The characters of a string after its opening quote, and what follows the closing one.\<close>

fun parse_chars :: "jstr \<Rightarrow> (jstr \<times> jstr) option" where
  "parse_chars [] = None"
| "parse_chars (c # cs) =
     (if c = 0x22 then Some ([], cs)
      else if c = 0x5C then
        (case cs of
           [] \<Rightarrow> None
         | e # r \<Rightarrow>
             if e = 0x75 then
               (case r of
                  h1 # h2 # h3 # h4 # r' \<Rightarrow>
                    (case hex4 h1 h2 h3 h4 of None \<Rightarrow> None | Some x \<Rightarrow> cons_to x (parse_chars r'))
                | _ \<Rightarrow> None)
             else (case simple_escape e of None \<Rightarrow> None | Some x \<Rightarrow> cons_to x (parse_chars r)))
      else if unat c < 0x20 then None
      else cons_to c (parse_chars cs))"

definition parse_digits :: "jstr \<Rightarrow> jstr \<times> jstr" where
  "parse_digits xs = (takeWhile is_digit xs, dropWhile is_digit xs)"

definition parse_int_part :: "jstr \<Rightarrow> (jstr \<times> jstr) option" where
  "parse_int_part xs =
     (case xs of
        [] \<Rightarrow> None
      | d # r \<Rightarrow> if d = 48 then Some ([d], r)
                 else if is_digit d then Some (parse_digits xs) else None)"

definition parse_frac :: "jstr \<Rightarrow> (jstr \<times> jstr) option" where
  "parse_frac xs =
     (case xs of
        [] \<Rightarrow> Some ([], [])
      | c # r \<Rightarrow> if c = 0x2E
                 then (let (ds, r') = parse_digits r in if ds = [] then None else Some (c # ds, r'))
                 else Some ([], xs))"

definition parse_exp :: "jstr \<Rightarrow> (jstr \<times> jstr) option" where
  "parse_exp xs =
     (case xs of
        [] \<Rightarrow> Some ([], [])
      | c # r \<Rightarrow> if c = 0x65 \<or> c = 0x45
                 then (let (sg, r1) = (case r of [] \<Rightarrow> ([], r)
                                       | s # r' \<Rightarrow> if s = 0x2B \<or> s = 0x2D then ([s], r') else ([], r));
                           (ds, r') = parse_digits r1
                       in if ds = [] then None else Some (c # sg @ ds, r'))
                 else Some ([], xs))"

definition parse_minus :: "jstr \<Rightarrow> jstr \<times> jstr" where
  "parse_minus xs = (case xs of [] \<Rightarrow> ([], xs) | c # r \<Rightarrow> if c = 0x2D then ([c], r) else ([], xs))"

definition parse_number :: "jstr \<Rightarrow> (jstr \<times> jstr) option" where
  "parse_number xs =
     (let (sg, r0) = parse_minus xs in
      case parse_int_part r0 of
        None \<Rightarrow> None
      | Some (i, r1) \<Rightarrow>
          (case parse_frac r1 of
             None \<Rightarrow> None
           | Some (f, r2) \<Rightarrow>
               (case parse_exp r2 of None \<Rightarrow> None | Some (e, r3) \<Rightarrow> Some (sg @ i @ f @ e, r3))))"

definition parse_literal :: "jstr \<Rightarrow> (json \<times> jstr) option" where
  "parse_literal xs =
     (if take 4 xs = jlit ''true'' then Some (JBool True, drop 4 xs)
      else if take 5 xs = jlit ''false'' then Some (JBool False, drop 5 xs)
      else if take 4 xs = jlit ''null'' then Some (JNull, drop 4 xs)
      else None)"

definition make_obj :: "(jstr \<times> json) list \<Rightarrow> json" where
  "make_obj ms = JObj (foldl (\<lambda>m (k, v). jm_set k v m) [] ms)"

text \<open>A member's name and the colon after it.\<close>

definition member_head :: "jstr \<Rightarrow> (jstr \<times> jstr) option" where
  "member_head xs =
     (case skip_ws xs of
        [] \<Rightarrow> None
      | c # cs \<Rightarrow>
          if c \<noteq> 0x22 then None
          else (case parse_chars cs of
             None \<Rightarrow> None
           | Some (k, r) \<Rightarrow> (case skip_ws r of
                [] \<Rightarrow> None
              | d # ds \<Rightarrow> if d = 0x3A then Some (k, ds) else None)))"

fun json_value :: "nat \<Rightarrow> jstr \<Rightarrow> (json \<times> jstr) option"
  and json_elements :: "nat \<Rightarrow> jstr \<Rightarrow> (json list \<times> jstr) option"
  and json_members :: "nat \<Rightarrow> jstr \<Rightarrow> ((jstr \<times> json) list \<times> jstr) option" where
  "json_value 0 xs = None"
| "json_value (Suc n) xs =
     (case skip_ws xs of
        [] \<Rightarrow> None
      | c # cs \<Rightarrow>
          if c = 0x22 then map_option (\<lambda>(s, r). (JStr s, r)) (parse_chars cs)
          else if c = 0x5B then
            (case skip_ws cs of
               [] \<Rightarrow> None
             | d # ds \<Rightarrow> if d = 0x5D then Some (JArr [], ds)
                         else map_option (\<lambda>(vs, r). (JArr vs, r)) (json_elements n (d # ds)))
          else if c = 0x7B then
            (case skip_ws cs of
               [] \<Rightarrow> None
             | d # ds \<Rightarrow> if d = 0x7D then Some (JObj [], ds)
                         else map_option (\<lambda>(ms, r). (make_obj ms, r)) (json_members n (d # ds)))
          else if c = 0x2D \<or> is_digit c
          then map_option (\<lambda>(l, r). (JNum l, r)) (parse_number (c # cs))
          else parse_literal (c # cs))"
| "json_elements 0 xs = None"
| "json_elements (Suc n) xs =
     (case json_value n xs of
        None \<Rightarrow> None
      | Some (v, r) \<Rightarrow>
          (case skip_ws r of
             [] \<Rightarrow> None
           | c # cs \<Rightarrow> if c = 0x5D then Some ([v], cs)
                       else if c = 0x2C then cons_to v (json_elements n cs)
                       else None))"
| "json_members 0 xs = None"
| "json_members (Suc n) xs =
     (case member_head xs of
        None \<Rightarrow> None
      | Some (k, ds) \<Rightarrow>
          (case json_value n ds of
             None \<Rightarrow> None
           | Some (v, r) \<Rightarrow>
               (case skip_ws r of
                  [] \<Rightarrow> None
                | c # cs \<Rightarrow> if c = 0x7D then Some ([(k, v)], cs)
                            else if c = 0x2C then cons_to (k, v) (json_members n cs)
                            else None)))"

definition json_fuel :: "jstr \<Rightarrow> nat" where
  "json_fuel xs = 2 * length xs + 1"

definition json_parse :: "jstr \<Rightarrow> json option" where
  "json_parse xs =
     (case json_value (json_fuel xs) xs of
        None \<Rightarrow> None
      | Some (v, r) \<Rightarrow> if skip_ws r = [] then Some v else None)"

subsection \<open>Every parser consumes input, so the fuel is enough\<close>

named_theorems consumes \<open>a parser's rest is shorter than its input\<close>

lemma cons_to_Some [simp]: "cons_to x r = Some (ys, rest) \<longleftrightarrow> (\<exists>xs. r = Some (xs, rest) \<and> ys = x # xs)"
  by (cases r) (auto simp: cons_to_def)

lemma skip_ws_length: "length (skip_ws xs) \<le> length xs"
  by (simp add: skip_ws_def length_dropWhile_le)

lemma skip_ws_Cons_length: "skip_ws xs = c # cs \<Longrightarrow> length cs < length xs"
  using skip_ws_length [of xs] by simp

lemma parse_chars_length [consumes]: "parse_chars xs = Some (s, r) \<Longrightarrow> length r < length xs"
  by (induction xs arbitrary: s rule: parse_chars.induct)
    (fastforce split: if_splits list.splits option.splits)+

lemma parse_digits_length: "parse_digits xs = (ds, r) \<Longrightarrow> length r + length ds = length xs"
  by (metis parse_digits_def Pair_inject add.commute length_append takeWhile_dropWhile_id)

lemma parse_int_part_length: "parse_int_part xs = Some (i, r) \<Longrightarrow> length r < length xs"
  using parse_digits_length [of xs i r]
  by (auto simp: parse_int_part_def parse_digits_def split: list.splits if_splits)

lemma parse_frac_length: "parse_frac xs = Some (f, r) \<Longrightarrow> length r \<le> length xs"
  by (auto simp: parse_frac_def Let_def dest!: parse_digits_length split: list.splits if_splits prod.splits)

lemma parse_exp_length: "parse_exp xs = Some (e, r) \<Longrightarrow> length r \<le> length xs"
  by (auto simp: parse_exp_def Let_def dest!: parse_digits_length split: list.splits if_splits prod.splits)

lemma parse_number_length [consumes]:
  assumes "parse_number xs = Some (s, r)"
  shows "length r < length xs"
proof -
  obtain sg r0 where sg: "parse_minus xs = (sg, r0)" by fastforce
  then have "length r0 \<le> length xs" by (auto simp: parse_minus_def split: list.splits if_splits)
  with assms sg show ?thesis
    by (auto simp: parse_number_def split: option.splits prod.splits
        dest!: parse_int_part_length parse_frac_length parse_exp_length)
qed

lemma parse_literal_length [consumes]: "parse_literal xs = Some (v, r) \<Longrightarrow> length r < length xs"
  by (cases xs) (auto simp: parse_literal_def jlit_def split: if_splits)

lemma member_head_length [consumes]: "member_head xs = Some (k, r) \<Longrightarrow> length r < length xs"
  by (auto simp: member_head_def split: list.splits if_splits option.splits
      dest!: parse_chars_length skip_ws_Cons_length)

lemma json_length [consumes]:
  "json_value n xs = Some (v, r) \<Longrightarrow> length r < length xs"
  "json_elements n xs = Some (vs, r) \<Longrightarrow> length r < length xs"
  "json_members n xs = Some (ms, r) \<Longrightarrow> length r < length xs"
proof (induction n arbitrary: xs v vs ms r)
  case (Suc n)
  {
    case 1
    then obtain c cs where c: "skip_ws xs = c # cs" by (auto split: list.splits)
    then have "length (c # cs) \<le> length xs" using skip_ws_length [of xs] by simp
    moreover have "length r < length (c # cs)"
      using 1 c by (auto split: list.splits if_splits dest!: consumes Suc.IH(2,3) skip_ws_Cons_length)
    ultimately show ?case by simp
  next
    case 2
    then show ?case
      by (auto split: list.splits if_splits option.splits dest!: Suc.IH(1,2) skip_ws_Cons_length)
  next
    case 3
    then show ?case
      by (auto split: list.splits if_splits option.splits
          dest!: Suc.IH(1,3) skip_ws_Cons_length member_head_length)
  }
qed auto

lemma json_fuel_step:
  "2 * length xs + 1 \<le> n \<Longrightarrow> json_value (Suc n) xs = json_value n xs"
  "2 * length xs + 2 \<le> n \<Longrightarrow> json_elements (Suc n) xs = json_elements n xs"
  "2 * length xs + 2 \<le> n \<Longrightarrow> json_members (Suc n) xs = json_members n xs"
proof (induction n arbitrary: xs)
  case (Suc n)
  {
    case 1
    show ?case
    proof (cases "skip_ws xs")
      case (Cons c cs)
      have "2 * length (d # ds) + 2 \<le> n" if "skip_ws cs = d # ds" for d ds
        using 1 skip_ws_Cons_length [OF Cons] skip_ws_length [of cs] that by auto
      with Cons Suc.IH(2,3) show ?thesis
        unfolding json_value.simps(2) [of "Suc n" xs] json_value.simps(2) [of n xs]
        by (auto split: list.split simp del: json_elements.simps json_members.simps json_value.simps)
    qed simp
  next
    case 2
    have *: "2 * length cs + 2 \<le> n" if "json_value n xs = Some (v, r)" "skip_ws r = c # cs" for v r c cs
      using 2 json_length(1) [OF that(1)] skip_ws_Cons_length [OF that(2)] by simp
    have "json_value (Suc n) xs = json_value n xs" using 2 Suc.IH(1) by simp
    then show ?case
      unfolding json_elements.simps(2) [of "Suc n" xs] json_elements.simps(2) [of n xs]
      by (auto split: option.split list.split
          simp del: json_value.simps json_elements.simps dest!: * Suc.IH(2))
  next
    case 3
    have *: "2 * length ds + 1 \<le> n" if "member_head xs = Some (k, ds)" for k ds
      using 3 member_head_length [OF that] by simp
    have **: "2 * length cs + 2 \<le> n"
      if "member_head xs = Some (k, ds)" "json_value n ds = Some (v, r)" "skip_ws r = c # cs" for k ds v r c cs
      using 3 member_head_length [OF that(1)] json_length(1) [OF that(2)] skip_ws_Cons_length [OF that(3)] by simp
    show ?case
    proof (cases "member_head xs")
      case (Some p)
      then obtain k ds where p: "member_head xs = Some (k, ds)" by (cases p) auto
      have "json_value (Suc n) ds = json_value n ds" using * [OF p] Suc.IH(1) by simp
      with p show ?thesis
        unfolding json_members.simps(2) [of "Suc n" xs] json_members.simps(2) [of n xs]
        by (auto split: option.split list.split
            simp del: json_value.simps json_members.simps dest!: ** [OF p] Suc.IH(3))
    qed simp
  }
qed auto

lemma json_value_fuel:
  assumes "json_fuel xs \<le> n"
  shows "json_value n xs = json_value (json_fuel xs) xs"
  using assms by (induction n rule: dec_induct) (auto simp: json_fuel_def json_fuel_step(1) simp del: json_value.simps)

end
