(* ===== verification/Text_Edit.thy ===== *)
theory Text_Edit
  imports Bytes Js_Json
begin

text \<open>
  The text profile's payloads of \<open>src/text_crdt.ts\<close>: \<open>decodeTextEdit\<close> and
  \<open>encodeTextEdit\<close>. The two payload encoders are imported from \<open>@owebeeone/taut-shape\<close> and
  are a parameter, the record \<open>profile_if\<close>. A thrown value is an \<open>Inl\<close>: \<open>TextCrdtError\<close>
  with its message, or the language's own \<open>TypeError\<close> and \<open>URIError\<close>.
\<close>

datatype text_error = TextCrdtError string | JsTypeError | JsURIError | JsError string

datatype text_edit = TextInsert jstr "jstr option" jstr | TextDelete jstr

record profile_if =
  pf_insert :: "jstr \<Rightarrow> jstr option \<Rightarrow> jstr \<Rightarrow> bytes"
  pf_delete :: "jstr \<Rightarrow> bytes"

definition encode_text_edit :: "profile_if \<Rightarrow> text_edit \<Rightarrow> bytes" where
  "encode_text_edit P e = (case e of
     TextInsert atom after txt \<Rightarrow> pf_insert P atom after txt
   | TextDelete atom \<Rightarrow> pf_delete P atom)"

text \<open>
  \<open>Object.keys(value)\<close> throws for \<open>null\<close> and lists the indices of an array or a string;
  a member of anything but an object reads as \<open>undefined\<close>.
\<close>

fun index_keys :: "nat \<Rightarrow> jstr list" where
  "index_keys 0 = []"
| "index_keys (Suc n) = index_keys n @ [dec_nat n]"

fun object_keys :: "json \<Rightarrow> (text_error + jstr list)" where
  "object_keys JNull = Inl JsTypeError"
| "object_keys (JObj ms) = Inr (jm_keys ms)"
| "object_keys (JArr vs) = Inr (index_keys (length vs))"
| "object_keys (JStr s) = Inr (index_keys (length s))"
| "object_keys _ = Inr []"

fun json_member :: "json \<Rightarrow> jstr \<Rightarrow> json option" where
  "json_member (JObj ms) k = jm_get ms k"
| "json_member _ _ = None"

fun join_comma :: "jstr list \<Rightarrow> jstr" where
  "join_comma [] = []"
| "join_comma [s] = s"
| "join_comma (s # t # r) = s @ 44 # join_comma (t # r)"

definition as_string :: "json option \<Rightarrow> jstr option" where
  "as_string v = (case v of Some (JStr s) \<Rightarrow> Some s | _ \<Rightarrow> None)"

definition decode_text_edit :: "bytes \<Rightarrow> (text_error + text_edit)" where
  "decode_text_edit payload =
     (case Option.bind (text_decode_fatal payload) json_parse of
        None \<Rightarrow> Inl (TextCrdtError ''text_crdt payload must be canonical UTF-8 JSON'')
      | Some v \<Rightarrow> rbind (object_keys v) (\<lambda>ks.
          let keys = join_comma (sort ks);
              kind = as_string (json_member v (jlit ''kind''));
              atom = as_string (json_member v (jlit ''atom_id''));
              txt = as_string (json_member v (jlit ''text''));
              after = json_member v (jlit ''after'')
          in
            if kind = Some (jlit ''delete'') \<and> keys = jlit ''atom_id,kind'' \<and> atom \<noteq> None \<and> the atom \<noteq> []
            then Inr (TextDelete (the atom))
            else if kind = Some (jlit ''insert'') \<and> keys = jlit ''after,atom_id,kind,text''
              \<and> atom \<noteq> None \<and> the atom \<noteq> [] \<and> (after = Some JNull \<or> as_string after \<noteq> None)
              \<and> txt \<noteq> None \<and> the txt \<noteq> []
            then Inr (TextInsert (the atom) (as_string after) (the txt))
            else Inl (TextCrdtError ''text_crdt payload is not an insert/delete profile operation'')))"

subsection \<open>What the decoder accepts\<close>

text \<open>The payload's object: the member set is exactly the edit's, each with the edit's type.\<close>

fun edit_members :: "text_edit \<Rightarrow> jstr \<Rightarrow> json option" where
  "edit_members (TextDelete a) = [jlit ''kind'' \<mapsto> JStr (jlit ''delete''), jlit ''atom_id'' \<mapsto> JStr a]"
| "edit_members (TextInsert a b t) = [jlit ''kind'' \<mapsto> JStr (jlit ''insert''), jlit ''atom_id'' \<mapsto> JStr a,
     jlit ''after'' \<mapsto> (case b of None \<Rightarrow> JNull | Some p \<Rightarrow> JStr p), jlit ''text'' \<mapsto> JStr t]"

definition edit_ok :: "text_edit \<Rightarrow> bool" where
  "edit_ok e = (case e of TextDelete a \<Rightarrow> a \<noteq> [] | TextInsert a b t \<Rightarrow> a \<noteq> [] \<and> t \<noteq> [])"

definition payload_json :: "bytes \<Rightarrow> json option" where
  "payload_json b = Option.bind (text_decode_fatal b) json_parse"

lemma as_string_Some [simp]: "as_string v = Some s \<longleftrightarrow> v = Some (JStr s)"
  by (auto simp: as_string_def split: option.splits json.splits)

lemma as_string_simps [simp]: "as_string None = None" "as_string (Some JNull) = None" "as_string (Some (JStr s)) = Some s"
  by (simp_all add: as_string_def)

lemma decode_text_edit_Inr: "decode_text_edit b = Inr e \<longleftrightarrow>
   (\<exists>ms. payload_json b = Some (JObj ms) \<and> edit_ok e
     \<and> (case e of
          TextDelete a \<Rightarrow> join_comma (sort (jm_keys ms)) = jlit ''atom_id,kind''
            \<and> jm_get ms (jlit ''kind'') = Some (JStr (jlit ''delete'')) \<and> jm_get ms (jlit ''atom_id'') = Some (JStr a)
        | TextInsert a p t \<Rightarrow> join_comma (sort (jm_keys ms)) = jlit ''after,atom_id,kind,text''
            \<and> jm_get ms (jlit ''kind'') = Some (JStr (jlit ''insert'')) \<and> jm_get ms (jlit ''atom_id'') = Some (JStr a)
            \<and> jm_get ms (jlit ''after'') = Some (case p of None \<Rightarrow> JNull | Some q \<Rightarrow> JStr q)
            \<and> jm_get ms (jlit ''text'') = Some (JStr t)))"
  (is "_ \<longleftrightarrow> ?R")
proof
  assume "decode_text_edit b = Inr e"
  then show ?R
    by (cases "payload_json b"; cases "the (payload_json b)")
       (auto simp: decode_text_edit_def payload_json_def Let_def edit_ok_def rbind_Inr_iff split: if_splits)
next
  assume ?R
  then show "decode_text_edit b = Inr e"
    by (cases e) (auto simp: decode_text_edit_def payload_json_def Let_def edit_ok_def split: option.splits)
qed


text \<open>A JSON object has each member name once, and a joined key list is as long as its parts say.\<close>

lemma distinct_foldl_set:
  "distinct (jm_keys m) \<Longrightarrow> distinct (jm_keys (foldl (\<lambda>m (k, v). jm_set k v m) m ms))"
  by (induction ms arbitrary: m) (auto simp: distinct_update split: prod.split)

lemma json_value_distinct: "json_value n xs = Some (JObj ms, r) \<Longrightarrow> distinct (jm_keys ms)"
  by (cases n)
     (auto simp: make_obj_def parse_literal_def intro!: distinct_foldl_set
       split: list.splits if_splits option.splits)

lemma json_parse_distinct: "json_parse xs = Some (JObj ms) \<Longrightarrow> distinct (jm_keys ms)"
  by (auto simp: json_parse_def dest: json_value_distinct split: option.splits if_splits)

lemma payload_json_distinct: "payload_json b = Some (JObj ms) \<Longrightarrow> distinct (jm_keys ms)"
  by (auto simp: payload_json_def dest: json_parse_distinct split: bind_splits)

lemma length_join_comma: "ks \<noteq> [] \<Longrightarrow> Suc (length (join_comma ks)) = (\<Sum>k\<in>#mset ks. Suc (length k))"
  by (induction ks rule: join_comma.induct) auto

lemma join_comma_exact:
  assumes "length (join_comma L) = length (join_comma ks)" "distinct ks" "ks \<noteq> []" "set ks \<subseteq> set L"
  shows "mset L = mset ks"
proof -
  have "count (mset ks) x \<le> count (mset L) x" for x
    using assms(2,4) distinct_count_atmost_1 [of ks] by (auto simp: count_mset_0_iff not_in_iff Suc_le_eq)
  then have "mset ks \<subseteq># mset L" by (rule mset_subset_eqI)
  then obtain R where R: "mset L = mset ks + R" by (metis subset_mset.le_iff_add)
  have "L \<noteq> []" using assms(3,4) by auto
  then have "(\<Sum>k\<in>#mset L. Suc (length k)) = (\<Sum>k\<in>#mset ks. Suc (length k))"
    using assms(1,3) by (simp flip: length_join_comma)
  then have "(\<Sum>k\<in>#R. Suc (length k)) = 0" unfolding R by simp
  then have "R = {#}" by simp
  with R show ?thesis by simp
qed

lemma join_comma_dom:
  assumes "distinct (jm_keys ms)" "distinct ks" "ks \<noteq> []"
  shows "dom (jm_get ms) = set ks \<longleftrightarrow>
    join_comma (sort (jm_keys ms)) = join_comma (sort ks) \<and> set ks \<subseteq> dom (jm_get ms)"
proof
  assume "dom (jm_get ms) = set ks"
  then have "set (jm_keys ms) = set ks" by (simp add: dom_map_of_conv_image_fst)
  then have "mset (jm_keys ms) = mset ks" using assms set_eq_iff_mset_eq_distinct by blast
  then have "sort (jm_keys ms) = sort ks" by (metis mset_sort properties_for_sort sorted_sort)
  with \<open>dom (jm_get ms) = set ks\<close>
  show "join_comma (sort (jm_keys ms)) = join_comma (sort ks) \<and> set ks \<subseteq> dom (jm_get ms)" by simp
next
  assume j: "join_comma (sort (jm_keys ms)) = join_comma (sort ks) \<and> set ks \<subseteq> dom (jm_get ms)"
  moreover have "sort ks \<noteq> []" using assms(3) by (metis set_empty set_sort)
  ultimately have "mset (sort (jm_keys ms)) = mset (sort ks)"
    using assms(2) by (intro join_comma_exact) (auto simp: dom_map_of_conv_image_fst)
  then show "dom (jm_get ms) = set ks"
    by (metis dom_map_of_conv_image_fst mset_sort set_map set_mset_mset)
qed

lemma sorted_member_names:
  "join_comma (sort [jlit ''kind'', jlit ''atom_id'']) = jlit ''atom_id,kind''"
  "join_comma (sort [jlit ''kind'', jlit ''atom_id'', jlit ''after'', jlit ''text'']) = jlit ''after,atom_id,kind,text''"
  by (simp_all add: jlit_def sort_key_def)

lemma map_eq_on_dom: "m = m' \<longleftrightarrow> dom m = dom m' \<and> (\<forall>k \<in> dom m'. m k = m' k)"
  by (metis domIff ext)

lemma dom_edit_members:
  "dom (edit_members (TextDelete a)) = set [jlit ''kind'', jlit ''atom_id'']"
  "dom (edit_members (TextInsert a p t)) = set [jlit ''kind'', jlit ''atom_id'', jlit ''after'', jlit ''text'']"
  by auto

lemma decoded_members:
  assumes "distinct (jm_keys ms)"
  shows "jm_get ms = edit_members e \<longleftrightarrow> (case e of
          TextDelete a \<Rightarrow> join_comma (sort (jm_keys ms)) = jlit ''atom_id,kind''
            \<and> jm_get ms (jlit ''kind'') = Some (JStr (jlit ''delete'')) \<and> jm_get ms (jlit ''atom_id'') = Some (JStr a)
        | TextInsert a p t \<Rightarrow> join_comma (sort (jm_keys ms)) = jlit ''after,atom_id,kind,text''
            \<and> jm_get ms (jlit ''kind'') = Some (JStr (jlit ''insert'')) \<and> jm_get ms (jlit ''atom_id'') = Some (JStr a)
            \<and> jm_get ms (jlit ''after'') = Some (case p of None \<Rightarrow> JNull | Some q \<Rightarrow> JStr q)
            \<and> jm_get ms (jlit ''text'') = Some (JStr t))"
    (is "?L \<longleftrightarrow> ?R")
proof -
  have eq: "?L \<longleftrightarrow> dom (jm_get ms) = dom (edit_members e)
      \<and> (\<forall>k \<in> dom (edit_members e). jm_get ms k = edit_members e k)"
    by (rule map_eq_on_dom)
  show ?thesis
  proof (cases e)
    case (TextDelete a)
    have "dom (jm_get ms) = dom (edit_members e) \<longleftrightarrow> join_comma (sort (jm_keys ms)) = jlit ''atom_id,kind''
        \<and> set [jlit ''kind'', jlit ''atom_id''] \<subseteq> dom (jm_get ms)"
      unfolding TextDelete dom_edit_members sorted_member_names(1) [symmetric]
      by (rule join_comma_dom [OF assms]) auto
    then show ?thesis unfolding eq by (auto simp: TextDelete)
  next
    case (TextInsert a p t)
    have "dom (jm_get ms) = dom (edit_members e) \<longleftrightarrow> join_comma (sort (jm_keys ms)) = jlit ''after,atom_id,kind,text''
        \<and> set [jlit ''kind'', jlit ''atom_id'', jlit ''after'', jlit ''text''] \<subseteq> dom (jm_get ms)"
      unfolding TextInsert dom_edit_members sorted_member_names(2) [symmetric]
      by (rule join_comma_dom [OF assms]) auto
    then show ?thesis unfolding eq by (auto simp: TextInsert)
  qed
qed

text \<open>A payload and what it decodes to: the text of a deletion of the atom \<open>a\<close>.\<close>

definition sample_text :: jstr where
  "sample_text = [0x7B, 0x22, 0x6B, 0x69, 0x6E, 0x64, 0x22, 0x3A, 0x22, 0x64, 0x65, 0x6C, 0x65, 0x74, 0x65,
     0x22, 0x2C, 0x22, 0x61, 0x74, 0x6F, 0x6D, 0x5F, 0x69, 0x64, 0x22, 0x3A, 0x22, 0x61, 0x22, 0x7D]"

definition sample_delete :: bytes where
  "sample_delete = text_encode sample_text"

lemma sample_json: "json_parse sample_text
    = Some (JObj [(jlit ''kind'', JStr (jlit ''delete'')), (jlit ''atom_id'', JStr [97])])"
  by code_simp

lemma decode_sample_delete: "decode_text_edit sample_delete = Inr (TextDelete [97])"
proof -
  have "wf_utf16 sample_text" "\<forall>t. sample_text \<noteq> 0xFEFF # t"
    by (simp_all add: sample_text_def is_high_def is_low_def)
  then have "payload_json sample_delete = json_parse sample_text"
    by (simp add: payload_json_def sample_delete_def text_decode_encode)
  then show ?thesis
    unfolding decode_text_edit_Inr using sorted_member_names(1) by (simp add: sample_json edit_ok_def)
qed

lemma decode_empty: "decode_text_edit [] = Inl (TextCrdtError ''text_crdt payload must be canonical UTF-8 JSON'')"
  by (simp add: decode_text_edit_def text_decode_fatal_def utf8_decode.simps json_parse_def json_fuel_def skip_ws_def)

subsection \<open>Properties\<close>

text \<open>The decoder accepts a payload exactly when it is the UTF-8 JSON text of an object
  whose members are the edit's members, no more and no fewer, with a non-empty atom id and, for
  an insertion, a non-empty text; it returns that edit.\<close>

theorem decode_text_edit_exact: "decode_text_edit b = Inr e \<longleftrightarrow>
    edit_ok e \<and> (\<exists>ms. payload_json b = Some (JObj ms) \<and> jm_get ms = edit_members e)"
  unfolding decode_text_edit_Inr using decoded_members payload_json_distinct by blast

text \<open>Past the parser: \<open>null\<close> has no keys, and any other value is an edit or is refused.\<close>

lemma decode_text_edit_cases:
  "payload_json b = None \<Longrightarrow> decode_text_edit b = Inl (TextCrdtError ''text_crdt payload must be canonical UTF-8 JSON'')"
  "payload_json b = Some JNull \<Longrightarrow> decode_text_edit b = Inl JsTypeError"
  "payload_json b = Some v \<Longrightarrow> v \<noteq> JNull \<Longrightarrow> \<nexists>e. decode_text_edit b = Inr e \<Longrightarrow>
     decode_text_edit b = Inl (TextCrdtError ''text_crdt payload is not an insert/delete profile operation'')"
proof -
  show "decode_text_edit b = Inl (TextCrdtError ''text_crdt payload must be canonical UTF-8 JSON'')" if "payload_json b = None"
    using that by (simp add: decode_text_edit_def payload_json_def)
  show "decode_text_edit b = Inl JsTypeError" if "payload_json b = Some JNull"
    using that by (simp add: decode_text_edit_def payload_json_def)
  show "decode_text_edit b = Inl (TextCrdtError ''text_crdt payload is not an insert/delete profile operation'')"
    if v: "payload_json b = Some v" "v \<noteq> JNull" "\<nexists>e. decode_text_edit b = Inr e"
  proof -
    obtain ks where "object_keys v = Inr ks" using v(2) by (cases v) simp_all
    with v(1,3) show ?thesis by (auto simp: decode_text_edit_def payload_json_def Let_def split: if_splits)
  qed
qed

text \<open>C38. Every refusal of a payload is pinned: it is the \<open>TextCrdtError\<close> that says \<open>canonical UTF-8
  JSON\<close> exactly when the bytes are not the UTF-8 text of a JSON value, and the \<open>TextCrdtError\<close> that says
  \<open>not an insert/delete profile operation\<close> exactly when they are the text of a value that is not \<open>null\<close> and not an
  object with an edit's members. The JSON text \<open>null\<close>, and only it, escapes as the language's
  \<open>TypeError\<close>: \<open>Object.keys\<close> runs outside the \<open>try\<close>. There is no other refusal.\<close>

theorem decode_text_edit_errors:
  "(decode_text_edit b = Inl (TextCrdtError ''text_crdt payload must be canonical UTF-8 JSON'') \<longleftrightarrow> payload_json b = None)
    \<and> (decode_text_edit b = Inl JsTypeError \<longleftrightarrow> payload_json b = Some JNull)
    \<and> (decode_text_edit b = Inl (TextCrdtError ''text_crdt payload is not an insert/delete profile operation'') \<longleftrightarrow>
        (\<exists>v. payload_json b = Some v \<and> v \<noteq> JNull \<and> \<not> (\<exists>e ms. v = JObj ms \<and> edit_ok e \<and> jm_get ms = edit_members e)))
    \<and> decode_text_edit b \<in> {Inl (TextCrdtError ''text_crdt payload must be canonical UTF-8 JSON''), Inl JsTypeError,
        Inl (TextCrdtError ''text_crdt payload is not an insert/delete profile operation'')} \<union> range Inr"
proof (cases "payload_json b")
  case None
  then show ?thesis by (simp add: decode_text_edit_cases(1))
next
  case (Some v)
  note exact = decode_text_edit_exact [of b, unfolded Some]
  consider "v = JNull" | e where "decode_text_edit b = Inr e" | "v \<noteq> JNull" "\<nexists>e. decode_text_edit b = Inr e" by blast
  then show ?thesis
  proof cases
    case 1
    then show ?thesis using Some by (simp add: decode_text_edit_cases(2))
  next
    case (2 e)
    then show ?thesis using Some exact [of e] by auto
  next
    case 3
    then have "decode_text_edit b = Inl (TextCrdtError ''text_crdt payload is not an insert/delete profile operation'')"
      using Some by (intro decode_text_edit_cases(3) [of b v])
    moreover have "\<not> (\<exists>e ms. v = JObj ms \<and> edit_ok e \<and> jm_get ms = edit_members e)" using 3(2) exact by auto
    ultimately show ?thesis using Some 3(1) by simp
  qed
qed

end
