(* ===== verification/Js_Uri.thy ===== *)
theory Js_Uri
  imports Js_Json
begin

text \<open>
  \<open>encodeURIComponent\<close> and \<open>decodeURIComponent\<close> as the language defines them: an unreserved
  character stands for itself, any other code point for the percent escapes of its UTF-8 bytes;
  a lone surrogate, or an escape sequence that is not the UTF-8 of one code point, is a
  \<open>URIError\<close> (\<open>None\<close>).
\<close>

definition uri_unreserved :: "16 word \<Rightarrow> bool" where
  "uri_unreserved c \<longleftrightarrow> is_digit c \<or> 65 \<le> unat c \<and> unat c \<le> 90 \<or> 97 \<le> unat c \<and> unat c \<le> 122
     \<or> c \<in> set (jlit ''-_.!~*()'') \<or> c = 39"

definition hex_digit :: "nat \<Rightarrow> 16 word" where
  "hex_digit n = (if n < 10 then of_nat (48 + n) else of_nat (55 + n))"

definition pct_byte :: "byte \<Rightarrow> jstr" where
  "pct_byte b = [37, hex_digit (unat b div 16), hex_digit (unat b mod 16)]"

definition pct_point :: "nat \<Rightarrow> jstr" where
  "pct_point n = concat (map pct_byte (utf8_bytes n))"

fun uri_encode :: "jstr \<Rightarrow> jstr option" where
  "uri_encode [] = Some []"
| "uri_encode (c # s) =
     (if uri_unreserved c then map_option (Cons c) (uri_encode s)
      else if is_low c then None
      else if is_high c then
        (case s of
           [] \<Rightarrow> None
         | d # r \<Rightarrow> if is_low d then map_option (append (pct_point (pair_value c d))) (uri_encode r) else None)
      else map_option (append (pct_point (unat c))) (uri_encode s))"

fun pct_octets :: "nat \<Rightarrow> jstr \<Rightarrow> (bytes \<times> jstr) option" where
  "pct_octets 0 s = Some ([], s)"
| "pct_octets (Suc n) (p # a # b # s) =
     (case (hex_val a, hex_val b) of
        (Some x, Some y) \<Rightarrow> if p = 37 then cons_to (of_nat (x * 16 + y)) (pct_octets n s) else None
      | _ \<Rightarrow> None)"
| "pct_octets (Suc n) _ = None"

definition octet_count :: "byte \<Rightarrow> nat" where
  "octet_count b = (let x = unat b in
     if x < 0x80 then 1 else if x < 0xC0 then 0 else if x < 0xE0 then 2 else if x < 0xF0 then 3
     else if x < 0xF8 then 4 else 0)"

text \<open>One escaped code point at the head of the string.\<close>

definition pct_decode :: "jstr \<Rightarrow> (jstr \<times> jstr) option" where
  "pct_decode s =
     (case pct_octets 1 s of
        Some ([b], _) \<Rightarrow>
          (case pct_octets (octet_count b) s of
             Some (bs, r) \<Rightarrow> (case utf8_decode 0 0 0 0 bs of [Some v] \<Rightarrow> Some (units_of v, r) | _ \<Rightarrow> None)
           | None \<Rightarrow> None)
      | _ \<Rightarrow> None)"

lemma pct_octets_length: "pct_octets n s = Some (bs, r) \<Longrightarrow> length r + 3 * n = length s \<and> length bs = n"
  by (induction n s arbitrary: bs r rule: pct_octets.induct) (auto split: option.splits if_splits)

lemma pct_decode_length: "pct_decode s = Some (u, r) \<Longrightarrow> length r < length s"
  by (auto simp: pct_decode_def dest!: pct_octets_length
      split: option.splits list.splits prod.splits)
     (auto simp: octet_count_def utf8_decode.simps Let_def split: if_splits)

function uri_decode :: "jstr \<Rightarrow> jstr option" where
  "uri_decode [] = Some []"
| "uri_decode (c # s) =
     (if c \<noteq> 37 then map_option (Cons c) (uri_decode s)
      else case pct_decode (c # s) of
        None \<Rightarrow> None
      | Some (u, r) \<Rightarrow> map_option (append u) (uri_decode r))"
  by pat_completeness auto
termination by (relation "measure length") (auto dest: pct_decode_length)

subsection \<open>Round trip\<close>

lemma hex_val_digit: "n < 16 \<Longrightarrow> hex_val (hex_digit n) = Some n"
  by (cases "n < 10") (simp_all add: hex_digit_def hex_val_def is_digit_def unat_of_nat_16 del: of_nat_add)

lemma pct_octets_bytes: "pct_octets (length bs) (concat (map pct_byte bs) @ r) = Some (bs, r)"
proof (induction bs)
  case (Cons b bs)
  have "unat b < 256" using unsigned_less [of b, where ?'a = nat] by simp
  then have "unat b div 16 < 16" "unat b mod 16 < 16" by auto
  moreover have "of_nat (unat b div 16 * 16 + unat b mod 16) = b"
    by (simp only: div_mult_mod_eq) simp
  ultimately show ?case using Cons by (simp add: pct_byte_def hex_val_digit del: of_nat_add of_nat_mult)
qed simp

lemma octet_count_utf8:
  assumes "is_scalar n"
  shows "\<exists>b bs. utf8_bytes n = b # bs \<and> octet_count b = length (utf8_bytes n)"
proof -
  have n: "n < 0x110000" using assms by (auto simp: is_scalar_def)
  consider "n < 0x80" | "0x80 \<le> n" "n < 0x800" | "0x800 \<le> n" "n < 0x10000" | "0x10000 \<le> n"
    by linarith
  then show ?thesis
  proof cases
    case 2
    then have "unat (of_nat (0xC0 + n div 64) :: byte) = 0xC0 + n div 64"
      by (intro unat_of_nat_byte) auto
    with 2 show ?thesis by (auto simp: utf8_bytes_def octet_count_def Let_def simp del: of_nat_add)
  next
    case 3
    then have "unat (of_nat (0xE0 + n div 4096) :: byte) = 0xE0 + n div 4096"
      by (intro unat_of_nat_byte) auto
    with 3 show ?thesis by (auto simp: utf8_bytes_def octet_count_def Let_def simp del: of_nat_add)
  next
    case 4
    with n have "unat (of_nat (0xF0 + n div 262144) :: byte) = 0xF0 + n div 262144"
      by (intro unat_of_nat_byte) auto
    with 4 n show ?thesis by (auto simp: utf8_bytes_def octet_count_def Let_def simp del: of_nat_add)
  qed (simp add: utf8_bytes_def octet_count_def Let_def unat_of_nat_byte)
qed

lemma pct_decode_point:
  assumes "is_scalar n"
  shows "pct_decode (pct_point n @ r) = Some (units_of n, r)"
proof -
  obtain b bs where b: "utf8_bytes n = b # bs" "octet_count b = length (utf8_bytes n)"
    using octet_count_utf8 [OF assms] by blast
  have all: "pct_octets (length (utf8_bytes n)) (pct_point n @ r) = Some (utf8_bytes n, r)"
    unfolding pct_point_def by (rule pct_octets_bytes)
  have "pct_octets (length [b]) (concat (map pct_byte [b]) @ (concat (map pct_byte bs) @ r))
      = Some ([b], concat (map pct_byte bs) @ r)" by (rule pct_octets_bytes)
  then have one: "pct_octets 1 (pct_point n @ r) = Some ([b], concat (map pct_byte bs) @ r)"
    by (simp add: pct_point_def b(1))
  have "utf8_decode 0 0 0 0 (utf8_bytes n) = [Some n]"
    using utf8_decode_encode [of "[n]"] assms by simp
  then show ?thesis unfolding pct_decode_def one using b(2) all by simp
qed

lemma pct_point_head: "\<exists>s. pct_point n = 37 # s"
proof -
  obtain b bs where "utf8_bytes n = b # bs" by (cases "utf8_bytes n") (auto simp: utf8_bytes_def split: if_splits)
  then show ?thesis by (simp add: pct_point_def pct_byte_def)
qed

lemma uri_decode_point:
  assumes "is_scalar n"
  shows "uri_decode (pct_point n @ r) = map_option (append (units_of n)) (uri_decode r)"
proof -
  obtain s where s: "pct_point n = 37 # s" using pct_point_head by blast
  then show ?thesis using pct_decode_point [OF assms, of r] by simp
qed

lemma unit_scalar: "\<not> is_high c \<Longrightarrow> \<not> is_low c \<Longrightarrow> is_scalar (unat c)"
  using scalar_values_scalar [of "unat c" "[c]"] by simp

lemma pair_scalar: "is_high c \<Longrightarrow> is_low d \<Longrightarrow> is_scalar (pair_value c d)"
  using scalar_values_scalar [of "pair_value c d" "[c, d]"] by simp

lemma uri_encode_decode: "uri_encode s = Some t \<Longrightarrow> uri_decode t = Some s"
proof (induction s arbitrary: t rule: uri_encode.induct)
  case (2 c s)
  show ?case
  proof (cases "uri_unreserved c")
    case True
    have "\<not> uri_unreserved 37" by (simp add: uri_unreserved_def is_digit_def jlit_def)
    with True have "c \<noteq> 37" by auto
    with 2 True show ?thesis by auto
  next
    case False
    with "2.prems" consider d r u where "is_high c" "is_low d" "s = d # r" "uri_encode r = Some u"
        "t = pct_point (pair_value c d) @ u"
      | u where "\<not> is_high c" "\<not> is_low c" "uri_encode s = Some u" "t = pct_point (unat c) @ u"
      by (auto split: if_splits list.splits)
    then show ?thesis
    proof cases
      case 1
      with False "2.IH"(2) [of d r u] not_high_low [of c] show ?thesis
        by (simp add: uri_decode_point pair_scalar pair_units)
    next
      case 2
      with False "2.IH"(3) [of u] show ?thesis by (simp add: uri_decode_point unit_scalar)
    qed
  qed
qed simp

lemma unreserved_ascii: "uri_unreserved c \<Longrightarrow> unat c < 128"
  by (auto simp: uri_unreserved_def is_digit_def jlit_def)

lemma surrogate_reserved: "is_high c \<or> is_low c \<Longrightarrow> \<not> uri_unreserved c"
  by (auto simp: is_high_def is_low_def dest!: unreserved_ascii)

lemma uri_encode_wf: "wf_utf16 s \<Longrightarrow> \<exists>t. uri_encode s = Some t"
proof (induction s rule: wf_utf16.induct)
  case (3 c d s)
  then show ?case using not_high_low [of c] surrogate_reserved by (auto split: if_splits)
qed auto

lemma pct_point_chars: "c \<in> set (pct_point n) \<Longrightarrow> c = 37 \<or> is_digit c \<or> 65 \<le> unat c \<and> unat c \<le> 70"
proof -
  have "is_digit (hex_digit k) \<or> 65 \<le> unat (hex_digit k) \<and> unat (hex_digit k) \<le> 70" if "k < 16" for k
    using that by (cases "k < 10") (simp_all add: hex_digit_def is_digit_def unat_of_nat_16 del: of_nat_add)
  note hex = this
  assume "c \<in> set (pct_point n)"
  then obtain b where "c \<in> set (pct_byte b)" unfolding pct_point_def by auto
  moreover have "unat b div 16 < 16" "unat b mod 16 < 16"
    using unsigned_less [of b, where ?'a = nat] by auto
  note hex [OF this(1)] hex [OF this(2)]
  ultimately show ?thesis by (auto simp: pct_byte_def)
qed

lemma uri_encode_chars: "uri_encode s = Some t \<Longrightarrow> c \<in> set t \<Longrightarrow> c = 37 \<or> uri_unreserved c"
proof (induction s arbitrary: t rule: uri_encode.induct)
  case (2 x s)
  have "c = 37 \<or> uri_unreserved c" if "c \<in> set (pct_point n)" for n
    using pct_point_chars [OF that] by (auto simp: uri_unreserved_def)
  with 2 show ?case by (auto split: if_splits list.splits)
qed simp

end
