(* ===== verification/Text_Ids.thy ===== *)
theory Text_Ids
  imports Text_Edit Js_Uri Store
begin

text \<open>
  Element identities, sequence numbers and clocks of \<open>src/text_crdt.ts\<close>: \<open>textAtomId\<close> and
  \<open>parseTextAtomId\<close>, \<open>baseSequences\<close>, \<open>crdtSequence\<close> and \<open>crdtClock\<close>.
  \<open>localeCompare\<close> is implementation-defined: the comparison is a parameter \<open>lc\<close>.
\<close>

record text_element_id =
  te_actor :: jstr
  te_counter :: int

definition checked_sequence :: "int \<Rightarrow> string \<Rightarrow> (text_error + int)" where
  "checked_sequence v label =
     (if \<not> is_safe_integer v \<or> v < 0
      then Inl (TextCrdtError (''text_crdt '' @ label @ '' must be a non-negative safe integer''))
      else Inr v)"

definition counter_width :: nat where
  "counter_width = length (dec_int max_safe_integer)"

definition pad_start :: "nat \<Rightarrow> 16 word \<Rightarrow> jstr \<Rightarrow> jstr" where
  "pad_start n c s = replicate (n - length s) c @ s"

definition text_atom_id :: "text_element_id \<Rightarrow> int \<Rightarrow> (text_error + jstr)" where
  "text_atom_id i order =
     (if te_actor i = [] then Inl (TextCrdtError ''text_crdt actor_id must not be empty'')
      else if \<not> is_safe_integer (te_counter i) \<or> te_counter i \<le> 0
      then Inl (TextCrdtError ''text_crdt element counter must be a positive safe integer'')
      else if \<not> is_safe_integer order \<or> order \<le> 0
      then Inl (TextCrdtError ''text_crdt insertion order must be a positive safe integer'')
      else case uri_encode (te_actor i) of
        None \<Rightarrow> Inl JsURIError
      | Some a \<Rightarrow> Inr (pad_start counter_width 48 (dec_int (max_safe_integer - order))
          @ 58 # a @ 58 # dec_int (te_counter i)))"

text \<open>
  The two patterns. \<open>split_tail\<close> is \<open>(.*):(\d+)$\<close>: the digits after the last colon, and
  before it no line terminator, which a dot does not match. \<open>Number\<close> of the digits is their
  value when that is safe; a larger one rounds to an unsafe number.
\<close>

definition is_line_end :: "16 word \<Rightarrow> bool" where
  "is_line_end c \<longleftrightarrow> c = 10 \<or> c = 13 \<or> c = 0x2028 \<or> c = 0x2029"

definition digits_value :: "jstr \<Rightarrow> int" where
  "digits_value s = foldl (\<lambda>n c. n * 10 + (int (unat c) - 48)) 0 s"

definition split_tail :: "jstr \<Rightarrow> (jstr \<times> jstr) option" where
  "split_tail s =
     (let d = rev (takeWhile (\<lambda>c. c \<noteq> 58) (rev s)) in
      case dropWhile (\<lambda>c. c \<noteq> 58) (rev s) of
        [] \<Rightarrow> None
      | _ # p \<Rightarrow> if d \<noteq> [] \<and> list_all is_digit d \<and> \<not> list_ex is_line_end p then Some (rev p, d) else None)"

definition match_ranked :: "jstr \<Rightarrow> (jstr \<times> jstr) option" where
  "match_ranked s =
     (if 17 \<le> length s \<and> list_all is_digit (take 16 s) \<and> s ! 16 = 58 then split_tail (drop 17 s) else None)"

definition match_legacy :: "jstr \<Rightarrow> (jstr \<times> jstr) option" where
  "match_legacy s =
     (case split_tail s of
        None \<Rightarrow> None
      | Some (p, d) \<Rightarrow>
          let n = length p - 17 in
          if 17 \<le> length p \<and> p ! n = 58 \<and> list_all is_digit (drop (Suc n) p) then Some (take n p, d) else None)"

definition matched_id :: "(jstr \<times> jstr) option \<Rightarrow> text_element_id option" where
  "matched_id m =
     (case m of
        None \<Rightarrow> None
      | Some (a, d) \<Rightarrow>
          if is_safe_integer (digits_value d) \<and> digits_value d > 0
          then map_option (\<lambda>actor. \<lparr>te_actor = actor, te_counter = digits_value d\<rparr>) (uri_decode a)
          else None)"

definition parse_text_atom_id :: "jstr \<Rightarrow> jstr \<Rightarrow> int \<Rightarrow> text_element_id" where
  "parse_text_atom_id atom fallback_actor fallback_counter =
     (case matched_id (match_ranked atom) of
        Some i \<Rightarrow> i
      | None \<Rightarrow>
          (case matched_id (match_legacy atom) of
             Some i \<Rightarrow> i
           | None \<Rightarrow> \<lparr>te_actor = fallback_actor,
               te_counter = (if is_safe_integer fallback_counter \<and> fallback_counter > 0
                             then fallback_counter else 1)\<rparr>))"

definition element_key :: "text_element_id \<Rightarrow> jstr" where
  "element_key i = te_actor i @ 0 # dec_int (te_counter i)"

lemma element_key_eq_iff [simp]: "element_key i = element_key j \<longleftrightarrow> i = j"
  by (cases i; cases j) (simp add: element_key_def sep_last_inj)

subsection \<open>Sequence bases and clocks\<close>

fun base_sequences_from :: "(jstr \<times> int) list \<Rightarrow> stored_op list \<Rightarrow> (text_error + (jstr \<times> int) list)" where
  "base_sequences_from m [] = Inr m"
| "base_sequences_from m (op # ops) =
     rbind (checked_sequence (op_seq op) ''op seq'') (\<lambda>seq.
       base_sequences_from
         (case jm_get m (op_origin op) of
            None \<Rightarrow> jm_set (op_origin op) seq m
          | Some prior \<Rightarrow> if seq < prior then jm_set (op_origin op) seq m else m) ops)"

definition base_sequences :: "stored_op list \<Rightarrow> (text_error + (jstr \<times> int) list)" where
  "base_sequences ops = base_sequences_from [] ops"

definition crdt_sequence :: "jstr \<Rightarrow> int \<Rightarrow> (jstr \<times> int) list \<Rightarrow> (text_error + int)" where
  "crdt_sequence origin seq bases =
     (let base = (case jm_get bases origin of None \<Rightarrow> 0 | Some b \<Rightarrow> b) in
      rbind (checked_sequence seq ''op seq'') (\<lambda>s. Inr (s - base + 1)))"

fun crdt_clock_from :: "(jstr \<times> int) list \<Rightarrow> (jstr \<times> int) list \<Rightarrow> stored_head list \<Rightarrow> (text_error + (jstr \<times> int) list)" where
  "crdt_clock_from bases m [] = Inr m"
| "crdt_clock_from bases m (r # rs) =
     rbind (crdt_sequence (head_origin r) (head_seq r) bases) (\<lambda>seq.
       crdt_clock_from bases
         (if seq > (case jm_get m (head_origin r) of None \<Rightarrow> 0 | Some p \<Rightarrow> p)
          then jm_set (head_origin r) seq m else m) rs)"

definition crdt_clock :: "(jstr \<Rightarrow> jstr \<Rightarrow> int) \<Rightarrow> stored_op \<Rightarrow> (jstr \<times> int) list \<Rightarrow> (text_error + (jstr \<times> int) list)" where
  "crdt_clock lc op bases =
     rbind (crdt_clock_from bases [] (case op_refs op of None \<Rightarrow> [] | Some rs \<Rightarrow> rs)) (\<lambda>m.
       Inr (js_sort (\<lambda>l r. lc (fst l) (fst r)) m))"

subsection \<open>Decimal text of a fixed width\<close>

fun fixed_dec :: "nat \<Rightarrow> nat \<Rightarrow> jstr" where
  "fixed_dec 0 n = []"
| "fixed_dec (Suc w) n = fixed_dec w (n div 10) @ [digit (n mod 10)]"

lemma length_fixed_dec [simp]: "length (fixed_dec w n) = w"
  by (induction w arbitrary: n) auto

lemma fixed_dec_zero: "fixed_dec w 0 = replicate w (digit 0)"
  by (induction w) (simp_all flip: replicate_append_same)

lemma length_dec_nat: "n < 10 ^ w \<Longrightarrow> 0 < w \<Longrightarrow> length (dec_nat n) \<le> w"
proof (induction n arbitrary: w rule: dec_nat.induct)
  case (1 n)
  show ?case
  proof (cases "n < 10")
    case True
    with 1 show ?thesis by (simp add: dec_nat.simps [of n])
  next
    case False
    with "1.prems" obtain v where v: "w = Suc v" "0 < v" by (cases w; cases "w - 1") auto
    then have "n div 10 < 10 ^ v" using "1.prems" by auto
    with False v 1 show ?thesis by (simp add: dec_nat.simps [of n])
  qed
qed

lemma pad_dec_nat: "n < 10 ^ w \<Longrightarrow> 0 < w \<Longrightarrow> pad_start w (digit 0) (dec_nat n) = fixed_dec w n"
proof (induction n arbitrary: w rule: dec_nat.induct)
  case (1 n)
  obtain v where v: "w = Suc v" using "1.prems" by (cases w) auto
  show ?case
  proof (cases "n < 10")
    case True
    with v show ?thesis by (simp add: dec_nat.simps [of n] pad_start_def fixed_dec_zero)
  next
    case False
    with "1.prems" v have v0: "0 < v" by (cases v) auto
    moreover have "n div 10 < 10 ^ v" using "1.prems" v by auto
    ultimately have "pad_start v (digit 0) (dec_nat (n div 10)) = fixed_dec v (n div 10)"
      using 1 False by blast
    with v show ?thesis using False by (simp add: dec_nat.simps [of n] pad_start_def)
  qed
qed

lemma less_append_same_length: "(xs :: jstr) < ys \<Longrightarrow> length xs = length ys \<Longrightarrow> xs @ u < ys @ v"
  unfolding list_less_def by (rule lexord_sufI) auto

lemma fixed_dec_less: "m < n \<Longrightarrow> n < 10 ^ w \<Longrightarrow> fixed_dec w m < fixed_dec w n"
proof (induction w arbitrary: m n)
  case (Suc w)
  show ?case
  proof (cases "m div 10 < n div 10")
    case True
    moreover have "n div 10 < 10 ^ w" using Suc.prems by auto
    ultimately have "fixed_dec w (m div 10) < fixed_dec w (n div 10)" by (rule Suc.IH)
    then show ?thesis by (simp add: less_append_same_length)
  next
    case False
    then have "m div 10 = n div 10" "m mod 10 < n mod 10"
      using Suc.prems(1) div_le_mono [of m n 10] by (auto simp: modulo_nat_def)
    moreover have "digit (m mod 10) < digit (n mod 10)"
      using calculation(2) by (simp add: word_less_nat_alt unat_digit)
    ultimately show ?thesis unfolding fixed_dec.simps
      by (simp add: list_less_def lexord_append_leftI)
  qed
qed simp

lemma counter_width_16: "counter_width = 16"
  by (simp add: counter_width_def max_safe_integer_def dec_int_def dec_nat.simps)

lemma rank_text:
  assumes "is_safe_integer order" "0 < order"
  shows "pad_start counter_width 48 (dec_int (max_safe_integer - order)) = fixed_dec 16 (nat (max_safe_integer - order))"
proof -
  let ?n = "nat (max_safe_integer - order)"
  have "?n < 10 ^ 16" using assms by (simp add: max_safe_integer_def)
  moreover have "dec_int (max_safe_integer - order) = dec_nat ?n"
    using assms by (simp add: dec_int_def is_safe_integer_def)
  moreover have "(48 :: 16 word) = digit 0" by (simp add: digit_def)
  ultimately show ?thesis using pad_dec_nat [of ?n 16] by (simp add: counter_width_16)
qed

lemma fixed_dec_digits: "c \<in> set (fixed_dec w n) \<Longrightarrow> is_digit c"
  by (induction w arbitrary: n) (auto simp: is_digit_def unat_digit)

lemma dec_nat_is_digit: "c \<in> set (dec_nat n) \<Longrightarrow> is_digit c"
  using dec_nat_digits by (simp add: is_digit_def)

lemma uint_digit: "d < 10 \<Longrightarrow> uint (digit d) = 48 + int d"
proof -
  assume "d < 10"
  then have "int (unat (digit d)) = int (48 + d)" by (simp only: unat_digit)
  then show ?thesis by simp
qed

lemma digits_value_dec_nat: "digits_value (dec_nat n) = int n"
proof (induction n rule: dec_nat.induct)
  case (1 n)
  show ?case
  proof (cases "n < 10")
    case True
    then show ?thesis by (simp add: dec_nat.simps [of n] digits_value_def uint_digit)
  next
    case False
    then have "digits_value (dec_nat n) = digits_value (dec_nat (n div 10)) * 10 + int (n mod 10)"
      by (simp add: dec_nat.simps [of n] digits_value_def uint_digit)
    also have "\<dots> = int (n div 10) * 10 + int (n mod 10)" using 1 False by simp
    also have "\<dots> = int n" by (simp only: zdiv_int zmod_int of_nat_numeral div_mult_mod_eq)
    finally show ?thesis .
  qed
qed

subsection \<open>Identities in atom ids\<close>

lemma split_tail_app:
  assumes "58 \<notin> set d" "d \<noteq> []" "list_all is_digit d" "\<forall>c \<in> set p. \<not> is_line_end c"
  shows "split_tail (p @ 58 # d) = Some (p, d)"
proof -
  have "rev (p @ 58 # d) = rev d @ 58 # rev p" by simp
  then have "takeWhile (\<lambda>c. c \<noteq> 58) (rev (p @ 58 # d)) = rev d"
    "dropWhile (\<lambda>c. c \<noteq> 58) (rev (p @ 58 # d)) = 58 # rev p"
    using assms(1) by (simp_all add: takeWhile_append dropWhile_append dropWhile_eq_Nil_conv)
  then show ?thesis using assms by (simp add: split_tail_def list_ex_iff)
qed

lemma text_atom_id_Inr:
  assumes "text_atom_id i order = Inr s"
  obtains a where "uri_encode (te_actor i) = Some a" "0 < te_counter i" "is_safe_integer (te_counter i)"
    "0 < order" "is_safe_integer order"
    "s = fixed_dec 16 (nat (max_safe_integer - order)) @ 58 # a @ 58 # dec_nat (nat (te_counter i))"
  using assms rank_text [of order]
  by (auto simp: text_atom_id_def dec_int_def split: if_splits option.splits)

lemma match_ranked_atom:
  assumes "uri_encode actor = Some a"
  shows "match_ranked (fixed_dec 16 n @ 58 # a @ 58 # dec_nat c) = Some (a, dec_nat c)"
proof -
  have "list_all is_digit (fixed_dec 16 n)" using fixed_dec_digits by (auto simp: list_all_iff)
  moreover have "\<not> is_line_end x" if "x \<in> set a" for x
    using uri_encode_chars [OF assms that] unreserved_ascii [of x]
    by (auto simp: is_line_end_def uri_unreserved_def is_digit_def jlit_def)
  moreover have "58 \<notin> set (dec_nat c)" "list_all is_digit (dec_nat c)"
    using dec_nat_is_digit dec_nat_digits [of 58 c] by (auto simp: list_all_iff)
  ultimately show ?thesis by (simp add: match_ranked_def nth_append split_tail_app)
qed

subsection \<open>Properties\<close>

text \<open>An atom id carries the element's identity: parsing the id minted for an element
  returns that element, whatever the insertion order and the fallback identity.\<close>

theorem parse_text_atom_id_roundtrip:
  assumes "text_atom_id i order = Inr s"
  shows "parse_text_atom_id s actor counter = i"
proof -
  obtain a where a: "uri_encode (te_actor i) = Some a" "0 < te_counter i" "is_safe_integer (te_counter i)"
    "s = fixed_dec 16 (nat (max_safe_integer - order)) @ 58 # a @ 58 # dec_nat (nat (te_counter i))"
    using assms by (rule text_atom_id_Inr)
  then have "matched_id (match_ranked s) = Some i"
    using uri_encode_decode [OF a(1)]
    by (simp add: match_ranked_atom matched_id_def digits_value_dec_nat)
  then show ?thesis by (simp add: parse_text_atom_id_def)
qed

theorem parse_text_atom_id_roundtrip_witness:
  "\<exists>s. text_atom_id \<lparr>te_actor = [0xE9, 58], te_counter = 7\<rparr> 3 = Inr s
     \<and> parse_text_atom_id s [] 0 = \<lparr>te_actor = [0xE9, 58], te_counter = 7\<rparr>"
proof -
  have "\<exists>a. uri_encode [0xE9, 58] = Some a" by (rule uri_encode_wf) (simp add: is_high_def is_low_def)
  then have "\<exists>s. text_atom_id \<lparr>te_actor = [0xE9, 58], te_counter = 7\<rparr> 3 = Inr s"
    by (auto simp: text_atom_id_def is_safe_integer_def max_safe_integer_def simp del: uri_encode.simps)
  then show ?thesis using parse_text_atom_id_roundtrip by blast
qed

text \<open>The later insertion sorts first: of two atom ids, the one minted with the larger
  insertion order is the smaller string, whoever the actors are.\<close>

theorem text_atom_id_later_first:
  assumes "text_atom_id i m = Inr s" "text_atom_id j n = Inr t" "m < n"
  shows "t < s"
proof -
  have "nat (max_safe_integer - n) < nat (max_safe_integer - m)" "nat (max_safe_integer - m) < 10 ^ 16"
    using assms by (auto simp: is_safe_integer_def max_safe_integer_def elim!: text_atom_id_Inr)
  then have "fixed_dec 16 (nat (max_safe_integer - n)) < fixed_dec 16 (nat (max_safe_integer - m))"
    by (rule fixed_dec_less)
  then show ?thesis
    using assms(1,2) by (auto elim!: text_atom_id_Inr intro!: less_append_same_length)
qed

theorem text_atom_id_later_first_witness:
  "\<exists>s t. text_atom_id \<lparr>te_actor = [98], te_counter = 1\<rparr> 1 = Inr s
     \<and> text_atom_id \<lparr>te_actor = [97], te_counter = 1\<rparr> 2 = Inr t \<and> t < s"
proof -
  have "\<exists>a. uri_encode [98] = Some a" "\<exists>a. uri_encode [97] = Some a"
    by (simp_all add: uri_encode_wf is_high_def is_low_def del: uri_encode.simps)
  then obtain s t where s: "text_atom_id \<lparr>te_actor = [98], te_counter = 1\<rparr> 1 = Inr s"
    and t: "text_atom_id \<lparr>te_actor = [97], te_counter = 1\<rparr> 2 = Inr t"
    by (auto simp: text_atom_id_def is_safe_integer_def max_safe_integer_def simp del: uri_encode.simps)
  moreover from text_atom_id_later_first [OF s t] have "t < s" by simp
  ultimately show ?thesis by blast
qed

end
