(* ===== verification/Text_Plan.thy ===== *)
theory Text_Plan
  imports Text_Ids
begin

text \<open>
  The editor's view of a text mount in \<open>src/text_crdt.ts\<close>: the identity-bearing state, the plan
  that turns an arbitrary replacement of the text into insert and delete edits
  (\<open>planTextReplacement\<close>) and the selections anchored to elements (\<open>anchorSelection\<close>,
  \<open>resolveSelection\<close>). \<open>allocate\<close> is a closure over the caller's counters: it is passed its
  state and returns an atom id and the next state, or throws.
\<close>

record text_element =
  tx_id :: text_element_id
  tx_atom :: jstr
  tx_text :: jstr
  tx_deleted :: bool

record text_state =
  ts_text :: jstr
  ts_elements :: "text_element list"
  ts_visible :: "text_element list"
  ts_clock :: "(jstr \<times> int) list"
  ts_diagnostics :: "jstr list"

datatype text_affinity = AffBefore | AffAfter

record text_cursor =
  cu_element :: "text_element_id option"
  cu_affinity :: text_affinity

record selection_anchor =
  sa_anchor :: text_cursor
  sa_focus :: text_cursor

record selection_offsets =
  so_anchor :: int
  so_focus :: int

definition empty_text_state :: text_state where
  "empty_text_state = \<lparr>ts_text = [], ts_elements = [], ts_visible = [], ts_clock = [], ts_diagnostics = []\<rparr>"

definition next_text_counter :: "text_state \<Rightarrow> jstr \<Rightarrow> int" where
  "next_text_counter st actor =
     foldl (\<lambda>c e. if te_actor (tx_id e) = actor then max c (te_counter (tx_id e)) else c) 0 (ts_elements st) + 1"

subsection \<open>The replacement plan\<close>

record element_range =
  er_element :: text_element
  er_start :: nat
  er_end :: nat

fun code_point_ranges :: "nat \<Rightarrow> text_element list \<Rightarrow> element_range list" where
  "code_point_ranges offset [] = []"
| "code_point_ranges offset (e # es) =
     (let n = offset + length (array_from (tx_text e))
      in \<lparr>er_element = e, er_start = offset, er_end = n\<rparr> # code_point_ranges n es)"

text \<open>The two \<open>while\<close> loops count equal code points from either end.\<close>

fun common_prefix :: "'a list \<Rightarrow> 'a list \<Rightarrow> nat" where
  "common_prefix (x # xs) (y # ys) = (if x = y then Suc (common_prefix xs ys) else 0)"
| "common_prefix _ _ = 0"

definition js_slice :: "'a list \<Rightarrow> nat \<Rightarrow> int \<Rightarrow> 'a list" where
  "js_slice xs s e =
     (let stop = (if e < 0 then nat (int (length xs) + e) else min (nat e) (length xs))
      in take (stop - s) (drop s xs))"

fun plan_inserts :: "('s \<Rightarrow> text_error + jstr \<times> 's) \<Rightarrow> jstr option \<Rightarrow> jstr list \<Rightarrow> 's \<Rightarrow> text_error + text_edit list \<times> 's" where
  "plan_inserts allocate after [] s = Inr ([], s)"
| "plan_inserts allocate after (t # ts) s =
     rbind (allocate s) (\<lambda>(atom, s').
       rbind (plan_inserts allocate (Some atom) ts s') (\<lambda>(es, s'').
         Inr (TextInsert atom after t # es, s'')))"

definition affected_ranges :: "element_range list \<Rightarrow> nat \<Rightarrow> nat \<Rightarrow> element_range list" where
  "affected_ranges ranges prefix old_end =
     (if prefix = old_end
      then (case find (\<lambda>r. er_start r < prefix \<and> prefix < er_end r) ranges of None \<Rightarrow> [] | Some r \<Rightarrow> [r])
      else filter (\<lambda>r. er_end r > prefix \<and> er_start r < old_end) ranges)"

definition plan_text_replacement ::
  "text_state \<Rightarrow> jstr \<Rightarrow> ('s \<Rightarrow> text_error + jstr \<times> 's) \<Rightarrow> 's \<Rightarrow> text_error + text_edit list \<times> 's" where
  "plan_text_replacement st next_text allocate s =
     (if next_text = ts_text st then Inr ([], s)
      else
        let previous = array_from (ts_text st);
            nxt = array_from next_text;
            prefix = common_prefix previous nxt;
            suffix = common_prefix (rev (drop prefix previous)) (rev (drop prefix nxt));
            old_end = length previous - suffix;
            ranges = code_point_ranges 0 (ts_visible st);
            affected = affected_ranges ranges prefix old_end;
            boundary_start = (if affected = [] then prefix else er_start (hd affected));
            boundary_end = (if affected = [] then old_end else er_end (last affected));
            next_boundary_end = int (length nxt) - (int (length previous) - int boundary_end);
            replacement = js_slice nxt boundary_start next_boundary_end;
            anchor = map_option (\<lambda>r. tx_atom (er_element r)) (find (\<lambda>r. er_end r \<le> boundary_start) (rev ranges));
            deletes = map (\<lambda>r. TextDelete (tx_atom (er_element r))) affected
        in rbind (plan_inserts allocate anchor replacement s) (\<lambda>(es, s'). Inr (deletes @ es, s')))"

subsection \<open>Selections\<close>

fun cursor_scan :: "int \<Rightarrow> int \<Rightarrow> text_element list \<Rightarrow> text_cursor option" where
  "cursor_scan offset position [] = None"
| "cursor_scan offset position (e # es) =
     (let stop = position + int (length (tx_text e)) in
      if offset = position \<and> position = 0 then Some \<lparr>cu_element = Some (tx_id e), cu_affinity = AffBefore\<rparr>
      else if offset \<le> stop
      then Some \<lparr>cu_element = Some (tx_id e),
                 cu_affinity = (if offset - position < stop - offset then AffBefore else AffAfter)\<rparr>
      else cursor_scan offset stop es)"

definition cursor_at_offset :: "text_state \<Rightarrow> int \<Rightarrow> text_cursor" where
  "cursor_at_offset st raw =
     (let offset = max 0 (min (int (length (ts_text st))) raw) in
      if ts_visible st = [] then \<lparr>cu_element = None, cu_affinity = AffBefore\<rparr>
      else case cursor_scan offset 0 (ts_visible st) of
        Some c \<Rightarrow> c
      | None \<Rightarrow> \<lparr>cu_element = Some (tx_id (last (ts_visible st))), cu_affinity = AffAfter\<rparr>)"

definition anchor_selection :: "text_state \<Rightarrow> selection_offsets \<Rightarrow> selection_anchor" where
  "anchor_selection st sel =
     \<lparr>sa_anchor = cursor_at_offset st (so_anchor sel), sa_focus = cursor_at_offset st (so_focus sel)\<rparr>"

fun resolve_scan :: "jstr \<Rightarrow> text_affinity \<Rightarrow> int \<Rightarrow> text_element list \<Rightarrow> int option" where
  "resolve_scan target aff offset [] = None"
| "resolve_scan target aff offset (e # es) =
     (let offset' = (if tx_deleted e then offset else offset + int (length (tx_text e))) in
      if element_key (tx_id e) = target then Some (if aff = AffBefore then offset else offset')
      else resolve_scan target aff offset' es)"

definition resolve_cursor :: "text_state \<Rightarrow> text_cursor \<Rightarrow> int" where
  "resolve_cursor st c =
     (let edge = (if cu_affinity c = AffBefore then 0 else int (length (ts_text st))) in
      case cu_element c of
        None \<Rightarrow> edge
      | Some i \<Rightarrow>
          (case resolve_scan (element_key i) (cu_affinity c) 0 (ts_elements st) of
             Some n \<Rightarrow> n
           | None \<Rightarrow> edge))"

definition resolve_selection :: "text_state \<Rightarrow> selection_anchor \<Rightarrow> selection_offsets" where
  "resolve_selection st sel =
     \<lparr>so_anchor = resolve_cursor st (sa_anchor sel), so_focus = resolve_cursor st (sa_focus sel)\<rparr>"

subsection \<open>The ranges partition the text\<close>

definition code_points :: "text_element list \<Rightarrow> jstr list" where
  "code_points es = concat (map (\<lambda>e. array_from (tx_text e)) es)"

abbreviation cp_len :: "text_element list \<Rightarrow> nat" where
  "cp_len es \<equiv> length (code_points es)"

definition text_ok :: "text_state \<Rightarrow> bool" where
  "text_ok st \<longleftrightarrow> ts_text st = concat (map tx_text (ts_visible st))
     \<and> distinct (map tx_atom (ts_visible st))
     \<and> (\<forall>e \<in> set (ts_visible st). tx_text e \<noteq> [] \<and> wf_utf16 (tx_text e))"

lemma code_points_simps [simp]:
  "code_points [] = []" "code_points (e # es) = array_from (tx_text e) @ code_points es"
  "code_points (xs @ ys) = code_points xs @ code_points ys"
  by (simp_all add: code_points_def)

lemma text_ok_code_points: "text_ok st \<Longrightarrow> array_from (ts_text st) = code_points (ts_visible st)"
  by (simp add: text_ok_def code_points_def array_from_concat comp_def)

lemma concat_code_points [simp]: "concat (code_points es) = concat (map tx_text es)"
  by (induction es) auto

lemma ranges_append: "code_point_ranges off (xs @ ys) =
    code_point_ranges off xs @ code_point_ranges (off + cp_len xs) ys"
  by (induction xs arbitrary: off) (simp_all add: Let_def add.assoc)

lemma ranges_bounds: "r \<in> set (code_point_ranges off es) \<Longrightarrow>
    off \<le> er_start r \<and> er_start r \<le> er_end r \<and> er_end r \<le> off + cp_len es"
  by (induction es arbitrary: off) (fastforce simp: Let_def)+

lemma ranges_start: "\<forall>e \<in> set es. tx_text e \<noteq> [] \<Longrightarrow> r \<in> set (code_point_ranges off es) \<Longrightarrow> er_start r < er_end r"
  by (induction es arbitrary: off) (auto simp: Let_def)

lemma ranges_Nil [simp]: "code_point_ranges off es = [] \<longleftrightarrow> es = []"
  by (cases es) (simp_all add: Let_def)

lemma ranges_hd: "es \<noteq> [] \<Longrightarrow> er_start (hd (code_point_ranges off es)) = off"
  by (cases es) (simp_all add: Let_def)

lemma ranges_last: "es \<noteq> [] \<Longrightarrow> er_end (last (code_point_ranges off es)) = off + cp_len es"
  by (induction es arbitrary: off) (auto simp: Let_def)

lemma ranges_elements [simp]: "map er_element (code_point_ranges off es) = es"
  by (induction es arbitrary: off) (simp_all add: Let_def)

lemma split_at_code_point:
  assumes "off \<le> p" "p \<le> off + cp_len es" "\<forall>e \<in> set es. tx_text e \<noteq> []"
  shows "\<exists>L R. es = L @ R \<and> off + cp_len L \<le> p \<and> (\<forall>r \<in> set (code_point_ranges (off + cp_len L) R). p < er_end r)"
  using assms
proof (induction es arbitrary: off)
  case (Cons e es)
  show ?case
  proof (cases "off + length (array_from (tx_text e)) \<le> p")
    case True
    let ?n = "off + length (array_from (tx_text e))"
    have "p \<le> ?n + cp_len es" "\<forall>e \<in> set es. tx_text e \<noteq> []" using Cons.prems by simp_all
    from Cons.IH [OF True this] obtain L R where LR: "es = L @ R" "?n + cp_len L \<le> p"
      "\<forall>r \<in> set (code_point_ranges (?n + cp_len L) R). p < er_end r" by blast
    have "e # es = (e # L) @ R" "off + cp_len (e # L) \<le> p"
      "\<forall>r \<in> set (code_point_ranges (off + cp_len (e # L)) R). p < er_end r"
      using LR by (simp_all add: add.assoc)
    then show ?thesis by blast
  next
    case False
    have "p < er_end r" if "r \<in> set (code_point_ranges off (e # es))" for r
      using that False ranges_bounds [of r "off + length (array_from (tx_text e))" es]
        ranges_start [of es r] Cons.prems by (fastforce simp: Let_def)
    with Cons.prems show ?thesis by (intro exI [of _ "[]"] exI [of _ "e # es"]) auto
  qed
qed simp

lemma split_by_start:
  "\<exists>F Q. es = F @ Q \<and> (\<forall>r \<in> set (code_point_ranges off F). er_start r < q)
     \<and> (\<forall>r \<in> set (code_point_ranges (off + cp_len F) Q). q \<le> er_start r)"
proof (induction es arbitrary: off)
  case (Cons e es)
  show ?case
  proof (cases "off < q")
    case True
    let ?n = "off + length (array_from (tx_text e))"
    obtain F Q where FQ: "es = F @ Q" "\<forall>r \<in> set (code_point_ranges ?n F). er_start r < q"
      "\<forall>r \<in> set (code_point_ranges (?n + cp_len F) Q). q \<le> er_start r"
      using Cons.IH [of ?n] by blast
    have "e # es = (e # F) @ Q" "\<forall>r \<in> set (code_point_ranges off (e # F)). er_start r < q"
      "\<forall>r \<in> set (code_point_ranges (off + cp_len (e # F)) Q). q \<le> er_start r"
      using FQ True by (simp_all add: Let_def add.assoc)
    then show ?thesis by blast
  next
    case False
    have "q \<le> er_start r" if "r \<in> set (code_point_ranges off (e # es))" for r
      using ranges_bounds [OF that] False by simp
    then have "e # es = [] @ e # es" "\<forall>r \<in> set (code_point_ranges off []). er_start r < q"
      "\<forall>r \<in> set (code_point_ranges (off + cp_len []) (e # es)). q \<le> er_start r" by auto
    then show ?thesis by blast
  qed
qed simp

lemma affected_split:
  assumes "\<forall>e \<in> set es. tx_text e \<noteq> []" "p \<le> q" "q \<le> cp_len es"
  shows "\<exists>L F Q. es = L @ F @ Q \<and> affected_ranges (code_point_ranges 0 es) p q = code_point_ranges (cp_len L) F
    \<and> cp_len L \<le> p \<and> q \<le> cp_len L + cp_len F \<and> (F = [] \<longrightarrow> cp_len L = p)"
proof -
  obtain L R where LR: "es = L @ R" "cp_len L \<le> p"
    and R: "\<forall>r \<in> set (code_point_ranges (cp_len L) R). p < er_end r"
    using split_at_code_point [of 0 p es] assms by auto
  have Lend: "er_end r \<le> p" if "r \<in> set (code_point_ranges 0 L)" for r
    using ranges_bounds [OF that] LR(2) by simp
  have es: "code_point_ranges 0 es = code_point_ranges 0 L @ code_point_ranges (cp_len L) R"
    using LR(1) ranges_append [of 0 L R] by simp
  show ?thesis
  proof (cases "p = q")
    case False
    obtain F Q where FQ: "R = F @ Q" "\<forall>r \<in> set (code_point_ranges (cp_len L) F). er_start r < q"
      "\<forall>r \<in> set (code_point_ranges (cp_len L + cp_len F) Q). q \<le> er_start r"
      using split_by_start by blast
    have "affected_ranges (code_point_ranges 0 es) p q = code_point_ranges (cp_len L) F"
    proof -
      let ?P = "\<lambda>r. er_end r > p \<and> er_start r < q"
      have "filter ?P (code_point_ranges 0 L) = []" using Lend by (fastforce intro: filter_not_set)
      moreover have "filter ?P (code_point_ranges (cp_len L + cp_len F) Q) = []"
        using FQ(3) by (fastforce intro: filter_not_set)
      moreover have "filter ?P (code_point_ranges (cp_len L) F) = code_point_ranges (cp_len L) F"
        using FQ R by (simp add: ranges_append filter_id_conv)
      ultimately show ?thesis unfolding affected_ranges_def es using False FQ(1) by (simp add: ranges_append)
    qed
    moreover have "q \<le> cp_len L + cp_len F"
    proof (cases Q)
      case Nil
      then show ?thesis using FQ(1) LR(1) assms(3) by simp
    next
      case (Cons e Q')
      then show ?thesis using FQ(3) by (simp add: Let_def)
    qed
    moreover have "F \<noteq> []" using calculation(2) LR(2) False assms(2) by auto
    ultimately show ?thesis using LR FQ(1) by blast
  next
    case True
    have noL: "find (\<lambda>r. er_start r < p \<and> p < er_end r) (code_point_ranges 0 L @ rs)
        = find (\<lambda>r. er_start r < p \<and> p < er_end r) rs" for rs
      using Lend by (intro find_skip) fastforce
    show ?thesis
    proof (cases R)
      case Nil
      then show ?thesis
        using True LR assms(3) noL [of "[]"] unfolding es affected_ranges_def
        by (intro exI [of _ L] exI [of _ "[]"]) simp
    next
      case (Cons e Q)
      let ?n = "cp_len L + length (array_from (tx_text e))"
      have pn: "p < ?n" using R Cons by (simp add: Let_def)
      have Q: "find (\<lambda>r. er_start r < p \<and> p < er_end r) (code_point_ranges ?n Q) = None"
        using pn ranges_bounds [of _ ?n Q] by (fastforce simp: find_None_iff)
      have a: "affected_ranges (code_point_ranges 0 es) p q =
          (if cp_len L < p then code_point_ranges (cp_len L) [e] else [])"
        unfolding affected_ranges_def es noL using True pn Q Cons by (simp add: Let_def)
      show ?thesis
      proof (cases "cp_len L < p")
        case lt: True
        then show ?thesis using a LR Cons True pn
          by (intro exI [of _ L] exI [of _ "[e]"] exI [of _ Q]) simp
      next
        case False
        then show ?thesis using a LR Cons True
          by (intro exI [of _ L] exI [of _ "[]"] exI [of _ R]) simp
      qed
    qed
  qed
qed

lemma anchor_of_split:
  assumes "\<forall>e \<in> set (L @ X). tx_text e \<noteq> []"
  shows "map_option (\<lambda>r. tx_atom (er_element r)) (find (\<lambda>r. er_end r \<le> cp_len L) (rev (code_point_ranges 0 (L @ X))))
    = (if L = [] then None else Some (tx_atom (last L)))"
proof -
  have X: "find (\<lambda>r. er_end r \<le> cp_len L) (rev (code_point_ranges (cp_len L) X) @ ys)
      = find (\<lambda>r. er_end r \<le> cp_len L) ys" for ys
  proof -
    have "\<not> er_end r \<le> cp_len L" if "r \<in> set (code_point_ranges (cp_len L) X)" for r
      using ranges_bounds [OF that] ranges_start [OF _ that] assms by fastforce
    then have "\<forall>r \<in> set (rev (code_point_ranges (cp_len L) X)). \<not> er_end r \<le> cp_len L" by simp
    then show ?thesis by (rule find_skip)
  qed
  show ?thesis
  proof (cases L rule: rev_cases)
    case Nil
    then show ?thesis using X [of "[]"] by simp
  next
    case (snoc K e)
    have "rev (code_point_ranges 0 (L @ X)) = rev (code_point_ranges (cp_len L) X) @ rev (code_point_ranges 0 L)"
      by (simp add: ranges_append)
    then show ?thesis unfolding \<open>rev _ = _\<close> X by (simp add: snoc ranges_append Let_def)
  qed
qed

lemma common_prefix_take:
  "take (common_prefix xs ys) xs = take (common_prefix xs ys) ys
    \<and> common_prefix xs ys \<le> length xs \<and> common_prefix xs ys \<le> length ys"
  by (induction xs ys rule: common_prefix.induct) auto

lemma common_suffix_drop:
  assumes "s = common_prefix (rev xs) (rev ys)"
  shows "drop (length xs - s) xs = drop (length ys - s) ys" "s \<le> length xs" "s \<le> length ys"
  using common_prefix_take [of "rev xs" "rev ys"] assms by (simp_all add: take_rev)

subsection \<open>What the edits do\<close>

text \<open>
  The effect of an edit on the visible atoms: a deletion removes its atom, an insertion places
  the new atom right after its parent (at the front for \<open>null\<close>), ahead of the parent's older
  children, as the order of atom ids makes it.
\<close>

fun apply_edit :: "(jstr \<times> jstr) list \<Rightarrow> text_edit \<Rightarrow> (jstr \<times> jstr) list" where
  "apply_edit vs (TextDelete a) = filter (\<lambda>v. fst v \<noteq> a) vs"
| "apply_edit vs (TextInsert a None t) = (a, t) # vs"
| "apply_edit vs (TextInsert a (Some p) t) =
     takeWhile (\<lambda>v. fst v \<noteq> p) vs
       @ (case dropWhile (\<lambda>v. fst v \<noteq> p) vs of [] \<Rightarrow> [] | x # xs \<Rightarrow> x # (a, t) # xs)"

definition visible_atoms :: "text_state \<Rightarrow> (jstr \<times> jstr) list" where
  "visible_atoms st = map (\<lambda>e. (tx_atom e, tx_text e)) (ts_visible st)"

fun inserted_atoms :: "text_edit list \<Rightarrow> jstr list" where
  "inserted_atoms [] = []"
| "inserted_atoms (TextInsert a p t # es) = a # inserted_atoms es"
| "inserted_atoms (TextDelete a # es) = inserted_atoms es"

lemma visible_atoms_simps [simp]:
  "fst ` set (visible_atoms st) = tx_atom ` set (ts_visible st)"
  "concat (map snd (visible_atoms st)) = concat (map tx_text (ts_visible st))"
  by (simp_all add: visible_atoms_def image_image comp_def)

lemma inserted_atoms_append [simp]: "inserted_atoms (xs @ ys) = inserted_atoms xs @ inserted_atoms ys"
  by (induction xs rule: inserted_atoms.induct) auto

lemma inserted_atoms_deletes [simp]: "inserted_atoms (map (\<lambda>r. TextDelete (f r)) rs) = []"
  by (induction rs) auto

lemma apply_deletes: "foldl apply_edit vs (map (\<lambda>r. TextDelete (f r)) rs) = filter (\<lambda>v. fst v \<notin> f ` set rs) vs"
  by (induction rs arbitrary: vs) (auto intro: filter_cong)

lemma apply_insert_after:
  "p \<notin> fst ` set K \<Longrightarrow> apply_edit (K @ (p, x) # R) (TextInsert a (Some p) t) = K @ (p, x) # (a, t) # R"
  by (induction K) auto

lemma apply_inserts:
  assumes "plan_inserts allocate after ts s = Inr (es, s')"
    and "after = (if L = [] then None else Some (fst (last L)))"
    and "distinct (map fst L)" "distinct (inserted_atoms es)" "set (inserted_atoms es) \<inter> fst ` set L = {}"
  shows "\<exists>new. foldl apply_edit (L @ R) es = L @ new @ R \<and> map snd new = ts"
  using assms
proof (induction allocate after ts s arbitrary: L es s' rule: plan_inserts.induct)
  case (2 allocate after t ts s)
  then obtain a s1 es1 where a: "allocate s = Inr (a, s1)"
    and p: "plan_inserts allocate (Some a) ts s1 = Inr (es1, s')" and es: "es = TextInsert a after t # es1"
    by (auto simp: rbind_Inr_iff)
  have step: "apply_edit (L @ R) (TextInsert a after t) = (L @ [(a, t)]) @ R"
  proof (cases L rule: rev_cases)
    case Nil
    then show ?thesis using "2.prems"(2) by simp
  next
    case (snoc K x)
    then show ?thesis using "2.prems"(2,3) apply_insert_after [of "fst x" K "snd x"] by auto
  qed
  have "\<exists>new. foldl apply_edit ((L @ [(a, t)]) @ R) es1 = (L @ [(a, t)]) @ new @ R \<and> map snd new = ts"
    using "2.prems" es p by (intro "2.IH" [OF p]) auto
  then show ?case unfolding es foldl_Cons step by force
qed simp

lemma js_slice_middle:
  assumes "a + k \<le> length xs"
  shows "js_slice xs a (int (length xs) - int k) = take (length xs - k - a) (drop a xs)"
  using assms by (auto simp: js_slice_def Let_def min_def nat_diff_distrib)

text \<open>The plan of a changed text: a run of elements is deleted, and text inserted in its place.\<close>

lemma plan_shape:
  assumes "text_ok st" "next_text \<noteq> ts_text st"
    and plan: "plan_text_replacement st next_text allocate s = Inr (edits, s')"
  shows "\<exists>L F Q ins mid. ts_visible st = L @ F @ Q
    \<and> edits = map (\<lambda>e. TextDelete (tx_atom e)) F @ ins
    \<and> plan_inserts allocate (if L = [] then None else Some (tx_atom (last L))) mid s = Inr (ins, s')
    \<and> next_text = concat (map tx_text L) @ concat mid @ concat (map tx_text Q)"
proof -
  define prev nxt where "prev = array_from (ts_text st)" and "nxt = array_from next_text"
  define p where "p = common_prefix prev nxt"
  define u where "u = common_prefix (rev (drop p prev)) (rev (drop p nxt))"
  define q where "q = length prev - u"
  let ?vs = "ts_visible st" and ?r = "code_point_ranges 0 (ts_visible st)"
  have prev: "prev = code_points ?vs" using text_ok_code_points [OF assms(1)] by (simp add: prev_def)
  have ne: "\<forall>e \<in> set ?vs. tx_text e \<noteq> []" using assms(1) by (simp add: text_ok_def)
  have P: "take p prev = take p nxt" "p \<le> length prev" "p \<le> length nxt"
    using common_prefix_take [of prev nxt] by (simp_all add: p_def)
  have U: "drop (length prev - p - u) (drop p prev) = drop (length nxt - p - u) (drop p nxt)"
    "u \<le> length prev - p" "u \<le> length nxt - p"
    using common_suffix_drop [of u "drop p prev" "drop p nxt"] by (simp_all add: u_def)
  have q: "p \<le> q" "q \<le> cp_len ?vs" using U(2) P(2) by (simp_all add: q_def flip: prev)
  obtain L F Q where LFQ: "?vs = L @ F @ Q"
    and aff: "affected_ranges ?r p q = code_point_ranges (cp_len L) F"
    and b: "cp_len L \<le> p" "q \<le> cp_len L + cp_len F" "F = [] \<longrightarrow> cp_len L = p"
    using affected_split [OF ne q] by blast
  let ?a = "cp_len L" and ?b = "cp_len L + cp_len F" and ?k = "length prev - (cp_len L + cp_len F)"
  have ab: "?b \<le> length prev" using LFQ by (simp add: prev)
  have bs: "(if affected_ranges ?r p q = [] then p else er_start (hd (affected_ranges ?r p q))) = ?a"
    using b(3) by (auto simp: aff ranges_hd)
  have be: "(if affected_ranges ?r p q = [] then q else er_end (last (affected_ranges ?r p q))) = ?b"
    using b q(1) by (auto simp: aff ranges_last)
  have k: "?k \<le> u" using b(2) U(2) P(2) by (simp add: q_def)
  then have ka: "?a + ?k \<le> length nxt" using b(1) U(3) P(3) by simp
  let ?mid = "take (length nxt - ?k - ?a) (drop ?a nxt)"
  have mid: "js_slice nxt ?a (int (length nxt) - (int (length prev) - int ?b)) = ?mid"
    using js_slice_middle [OF ka] ab by (simp add: of_nat_diff)
  have anchor: "map_option (\<lambda>r. tx_atom (er_element r)) (find (\<lambda>r. er_end r \<le> ?a) (rev ?r))
      = (if L = [] then None else Some (tx_atom (last L)))"
    using anchor_of_split [of L "F @ Q"] ne unfolding LFQ by simp
  have eq: "plan_text_replacement st next_text allocate s =
      rbind (plan_inserts allocate (if L = [] then None else Some (tx_atom (last L))) ?mid s)
        (\<lambda>(es, s'). Inr (map (\<lambda>r. TextDelete (tx_atom (er_element r))) (code_point_ranges ?a F) @ es, s'))"
    unfolding plan_text_replacement_def Let_def prev_def [symmetric] nxt_def [symmetric]
    unfolding p_def [symmetric] unfolding u_def [symmetric] unfolding q_def [symmetric]
    unfolding bs be unfolding aff mid anchor using assms(2) by simp
  from plan [unfolded eq rbind_Inr_iff] obtain ins where ins: "plan_inserts allocate (if L = [] then None else Some (tx_atom (last L))) ?mid s = Inr (ins, s')"
    and edits: "edits = map (\<lambda>r. TextDelete (tx_atom (er_element r))) (code_point_ranges ?a F) @ ins"
    by auto
  have front: "take ?a nxt = code_points L"
  proof -
    have "take ?a nxt = take ?a prev" using P(1) b(1) by (metis min.absorb1 take_take)
    then show ?thesis by (simp add: prev LFQ)
  qed
  have rear: "drop (length nxt - ?k) nxt = code_points Q"
  proof -
    have "drop (length nxt - u) nxt = drop (length prev - u) prev"
      using U P(2,3) by (simp add: add.commute)
    then have "drop (u - ?k) (drop (length nxt - u) nxt) = drop (u - ?k) (drop (length prev - u) prev)" by simp
    moreover have "u - ?k + (length nxt - u) = length nxt - ?k" "u - ?k + (length prev - u) = ?b"
      using k U(2,3) P(2,3) ab by simp_all
    ultimately have "drop (length nxt - ?k) nxt = drop ?b prev" by simp
    then show ?thesis by (simp add: prev LFQ)
  qed
  have "nxt = take ?a nxt @ ?mid @ drop (length nxt - ?k) nxt"
    using take_middle_drop [OF ka] by simp
  then have "nxt = code_points L @ ?mid @ code_points Q" unfolding front rear .
  then have "concat nxt = concat (code_points L @ ?mid @ code_points Q)" by (rule arg_cong)
  then have "next_text = concat (map tx_text L) @ concat ?mid @ concat (map tx_text Q)"
    by (simp add: nxt_def)
  moreover have "map (\<lambda>r. TextDelete (tx_atom (er_element r))) (code_point_ranges ?a F)
      = map (\<lambda>e. TextDelete (tx_atom e)) (map er_element (code_point_ranges ?a F))"
    by (simp only: map_map comp_def)
  ultimately show ?thesis using LFQ ins edits unfolding ranges_elements by blast
qed

subsection \<open>Cursors\<close>

definition view_ok :: "text_state \<Rightarrow> bool" where
  "view_ok st \<longleftrightarrow> ts_text st = concat (map tx_text (ts_visible st))
     \<and> ts_visible st = filter (\<lambda>e. \<not> tx_deleted e) (ts_elements st)
     \<and> distinct (map tx_id (ts_elements st))
     \<and> (\<forall>e \<in> set (ts_visible st). tx_text e \<noteq> [])"

definition text_len :: "text_element list \<Rightarrow> int" where
  "text_len es = int (length (concat (map tx_text es)))"

lemma text_len_simps [simp]: "text_len [] = 0" "text_len (e # es) = int (length (tx_text e)) + text_len es"
  "text_len (xs @ ys) = text_len xs + text_len ys"
  by (simp_all add: text_len_def)

lemma text_len_nonneg [simp]: "0 \<le> text_len es"
  by (simp add: text_len_def)

lemma resolve_scan_split:
  assumes "tx_id e \<notin> tx_id ` set A"
  shows "resolve_scan (element_key (tx_id e)) aff off (A @ e # B) =
    Some (off + text_len (filter (\<lambda>x. \<not> tx_deleted x) (if aff = AffBefore then A else A @ [e])))"
  using assms
proof (induction A arbitrary: off)
  case Nil
  show ?case by (cases aff) (simp_all add: Let_def)
next
  case (Cons x A)
  then have "tx_id x \<noteq> tx_id e" "tx_id e \<notin> tx_id ` set A" by auto
  then show ?case using Cons.IH by (simp add: Let_def)
qed

lemma cursor_scan_skip:
  assumes "\<forall>e \<in> set X. tx_text e \<noteq> []" "pos + text_len X < offset" "0 \<le> pos"
  shows "cursor_scan offset pos (X @ es) = cursor_scan offset (pos + text_len X) es"
  using assms
proof (induction X arbitrary: pos)
  case (Cons e X)
  let ?n = "pos + int (length (tx_text e))"
  have "?n + text_len X < offset" using Cons.prems by simp
  moreover from this have "?n < offset" using text_len_nonneg [of X] by linarith
  moreover from this have "offset \<noteq> pos" by linarith
  ultimately have "cursor_scan offset pos ((e # X) @ es) = cursor_scan offset ?n (X @ es)"
    by (simp add: Let_def)
  also have "\<dots> = cursor_scan offset (?n + text_len X) es"
    using Cons.prems \<open>?n + text_len X < offset\<close> by (intro Cons.IH) simp_all
  finally show ?case by (simp add: add.assoc)
qed simp

lemma resolve_visible:
  assumes "view_ok st" "ts_visible st = X @ e # Y"
  shows "resolve_cursor st \<lparr>cu_element = Some (tx_id e), cu_affinity = aff\<rparr> =
    text_len (if aff = AffBefore then X else X @ [e])"
proof -
  have "filter (\<lambda>e. \<not> tx_deleted e) (ts_elements st) = X @ e # Y"
    using assms by (simp add: view_ok_def)
  then obtain P B where els: "ts_elements st = P @ e # B" and P: "filter (\<lambda>e. \<not> tx_deleted e) P = X"
    and e: "\<not> tx_deleted e"
    by (rule filter_splitE)
  have "tx_id e \<notin> tx_id ` set P" using assms(1) els by (auto simp: view_ok_def)
  then show ?thesis
    using resolve_scan_split [of e P aff 0 B] els P e by (simp add: resolve_cursor_def)
qed

subsection \<open>Properties\<close>

text \<open>C2. Applying the planned edits to the visible text gives exactly the requested text, for
  any replacement whatever, when the allocator returns fresh atom ids. The visible elements
  must be non-empty and hold no lone surrogate, as every element the runtime itself mints.\<close>

theorem plan_text_replacement_correct:
  assumes "text_ok st"
    and "plan_text_replacement st next_text allocate s = Inr (edits, s')"
    and "distinct (inserted_atoms edits)" "set (inserted_atoms edits) \<inter> fst ` set (visible_atoms st) = {}"
  shows "concat (map snd (foldl apply_edit (visible_atoms st) edits)) = next_text"
proof (cases "next_text = ts_text st")
  case True
  with assms show ?thesis by (simp add: plan_text_replacement_def text_ok_def)
next
  case False
  obtain L F Q ins mid where sh: "ts_visible st = L @ F @ Q"
      "edits = map (\<lambda>e. TextDelete (tx_atom e)) F @ ins"
      "plan_inserts allocate (if L = [] then None else Some (tx_atom (last L))) mid s = Inr (ins, s')"
      "next_text = concat (map tx_text L) @ concat mid @ concat (map tx_text Q)"
    using plan_shape [OF assms(1) False assms(2)] by blast
  let ?v = "map (\<lambda>e. (tx_atom e, tx_text e))"
  have d: "distinct (map tx_atom (L @ F @ Q))" using assms(1) sh(1) by (simp add: text_ok_def)
  have "filter (\<lambda>v. fst v \<notin> tx_atom ` set F) (?v (L @ F @ Q)) = ?v L @ ?v Q"
  proof -
    have "filter (\<lambda>v. fst v \<notin> tx_atom ` set F) (?v L) = ?v L" "filter (\<lambda>v. fst v \<notin> tx_atom ` set F) (?v Q) = ?v Q"
      using d by (auto simp: filter_id_conv)
    moreover have "filter (\<lambda>v. fst v \<notin> tx_atom ` set F) (?v F) = []" by (simp add: filter_empty_conv)
    ultimately show ?thesis by simp
  qed
  then have del: "foldl apply_edit (visible_atoms st) edits = foldl apply_edit (?v L @ ?v Q) ins"
    by (simp add: sh(1,2) apply_deletes visible_atoms_def)
  have "\<exists>new. foldl apply_edit (?v L @ ?v Q) ins = ?v L @ new @ ?v Q \<and> map snd new = mid"
    using assms(3,4) d sh
    by (intro apply_inserts [OF sh(3)]) (auto simp: last_map comp_def image_image)
  then show ?thesis using del sh(4) by (auto simp: comp_def)
qed

text \<open>A two-letter text, and the plan that replaces its first letter.\<close>

definition sample_element :: "int \<Rightarrow> 16 word \<Rightarrow> 16 word \<Rightarrow> text_element" where
  "sample_element n a t =
     \<lparr>tx_id = \<lparr>te_actor = [120], te_counter = n\<rparr>, tx_atom = [a], tx_text = [t], tx_deleted = False\<rparr>"

definition sample_state :: text_state where
  "sample_state = \<lparr>ts_text = [97, 98], ts_elements = [sample_element 1 49 97, sample_element 2 50 98],
     ts_visible = [sample_element 1 49 97, sample_element 2 50 98], ts_clock = [], ts_diagnostics = []\<rparr>"

lemma sample_plan: "plan_text_replacement sample_state [99, 98] (\<lambda>s. Inr (hd s, tl s)) [[51]]
    = Inr ([TextDelete [49], TextInsert [51] None [99]], [])"
proof -
  let ?e1 = "sample_element 1 49 97" and ?e2 = "sample_element 2 50 98"
  let ?rs = "[\<lparr>er_element = ?e1, er_start = 0, er_end = Suc 0\<rparr>, \<lparr>er_element = ?e2, er_start = Suc 0, er_end = 2\<rparr>]"
  have a: "array_from [97, 98] = [[97], [98]]" "array_from [99, 98] = [[99], [98]]"
    by (simp_all add: is_high_def)
  have e: "tx_text (sample_element n c d) = [d]" "tx_atom (sample_element n c d) = [c]" for n c d
    by (simp_all add: sample_element_def)
  have r: "code_point_ranges 0 [?e1, ?e2] = ?rs" by (simp add: e)
  have p: "common_prefix [[97], [98]] [[99], [98 :: 16 word]] = 0"
    "common_prefix [[98], [97]] [[98], [99 :: 16 word]] = 1" by simp_all
  have q: "affected_ranges ?rs 0 (Suc 0) = [hd ?rs]" by (simp add: affected_ranges_def)
  show ?thesis
    by (simp add: plan_text_replacement_def sample_state_def a r Let_def p e q js_slice_def
        del: array_from.simps common_prefix.simps code_point_ranges.simps)
qed

theorem plan_text_replacement_correct_witness:
  "concat (map snd (foldl apply_edit (visible_atoms sample_state) [TextDelete [49], TextInsert [51] None [99]])) = [99, 98]"
  by (rule plan_text_replacement_correct [OF _ sample_plan])
     (simp_all add: text_ok_def sample_state_def sample_element_def is_high_def is_low_def)

text \<open>A cursor that stands between two elements is anchored and resolved without moving: the
  offset of any element boundary survives \<open>anchorSelection\<close> followed by \<open>resolveSelection\<close>,
  tombstones between the elements notwithstanding.\<close>

theorem selection_boundary_roundtrip:
  assumes "view_ok st" "ts_visible st = X @ Y"
  shows "resolve_cursor st (cursor_at_offset st (text_len X)) = text_len X"
proof -
  let ?o = "text_len X"
  have ne: "\<forall>e \<in> set X. tx_text e \<noteq> []" using assms by (simp add: view_ok_def)
  have len: "int (length (ts_text st)) = text_len (X @ Y)"
    using assms(1) [unfolded view_ok_def] assms(2) by (metis text_len_def)
  then have o: "max 0 (min (int (length (ts_text st))) ?o) = ?o" by simp
  show ?thesis
  proof (cases X rule: rev_cases)
    case Nil
    show ?thesis
    proof (cases Y)
      case (Cons e Z)
      then show ?thesis using Nil assms o resolve_visible [OF assms(1), of "[]" e Z AffBefore]
        by (simp add: cursor_at_offset_def Let_def)
    qed (use Nil assms o in \<open>simp add: cursor_at_offset_def resolve_cursor_def\<close>)
  next
    case (snoc K e)
    have lt: "text_len K < ?o" "tx_text e \<noteq> []" using ne snoc by (auto simp: less_le)
    then have "cursor_scan ?o 0 (ts_visible st) = cursor_scan ?o (text_len K) (e # Y)"
      using cursor_scan_skip [of K 0 ?o "e # Y"] ne snoc assms(2) by simp
    also have "\<dots> = Some \<lparr>cu_element = Some (tx_id e), cu_affinity = AffAfter\<rparr>"
      using lt snoc by (auto simp: Let_def)
    finally have "cursor_at_offset st ?o = \<lparr>cu_element = Some (tx_id e), cu_affinity = AffAfter\<rparr>"
      using o snoc assms(2) by (simp add: cursor_at_offset_def)
    then show ?thesis using resolve_visible [OF assms(1), of K e Y AffAfter] assms(2) snoc by simp
  qed
qed

theorem selection_boundary_roundtrip_witness:
  "resolve_cursor sample_state (cursor_at_offset sample_state (text_len [sample_element 1 49 97]))
     = text_len [sample_element 1 49 97]"
  by (rule selection_boundary_roundtrip [where Y = "[sample_element 2 50 98]"])
     (simp_all add: view_ok_def sample_state_def sample_element_def)

end
