(* ===== verification/Text_Project.thy ===== *)
theory Text_Project
  imports Text_Plan
begin

text \<open>
  The identity projection of \<open>src/text_crdt.ts\<close> (\<open>projectIdentity\<close>): the operations that a
  CRDT node has delivered are folded into a map of atoms and a set of deleted atom ids, the atoms
  are arranged as a forest by their \<open>after\<close> links, and the forest is walked in order.

  \<open>CrdtNode\<close> and the functions over it come from \<open>@owebeeone/taut-shape\<close>: they are the
  record \<open>crdt_if\<close>, a parameter. \<open>localeCompare\<close> is the parameter \<open>lc\<close>.
\<close>

record crdt_op =
  co_origin :: jstr
  co_seq :: int
  co_deps :: "(jstr \<times> int) list"
  co_payload :: bytes

datatype crdt_output = CrdtDiagnostic jstr "jstr option" "int option" | CrdtOther

record canonical_text =
  ct_text :: jstr
  ct_diagnostics :: "jstr list"

record ('n, 'k, 't) crdt_if =
  cn_new :: "int \<Rightarrow> 'n"
  cn_apply :: "crdt_op \<Rightarrow> 'n \<Rightarrow> 'n \<times> crdt_output list"
  cn_operations :: "'n \<Rightarrow> crdt_op list"
  cn_clock :: "'n \<Rightarrow> (jstr \<times> int) list"
  cn_revision :: "'n \<Rightarrow> int"
  cn_changes_since :: "int \<Rightarrow> 'n \<Rightarrow> bool \<times> crdt_op list"
  cn_checkpoint :: "'n \<Rightarrow> 'k"
  cn_restore :: "'k \<Rightarrow> text_error + 'n"
  cn_project_text :: "'n \<Rightarrow> canonical_text"
  cn_checkpoint_text :: "'n \<Rightarrow> 't"
  cn_restore_text :: "'t \<Rightarrow> 'n \<Rightarrow> text_error + 'n"

definition diagnostic_name :: "jstr \<Rightarrow> jstr option \<Rightarrow> int option \<Rightarrow> jstr" where
  "diagnostic_name code origin seq =
     code @ jlit '':'' @ (case origin of None \<Rightarrow> [] | Some o' \<Rightarrow> o') @ jlit '':''
       @ (case seq of None \<Rightarrow> [] | Some n \<Rightarrow> dec_int n)"

fun add_diagnostics :: "jstr list \<Rightarrow> crdt_output list \<Rightarrow> jstr list" where
  "add_diagnostics ds [] = ds"
| "add_diagnostics ds (CrdtDiagnostic c o' s # outs) = add_diagnostics (js_add (diagnostic_name c o' s) ds) outs"
| "add_diagnostics ds (CrdtOther # outs) = add_diagnostics ds outs"

record atom =
  at_after :: "jstr option"
  at_text :: jstr
  at_origin :: jstr
  at_seq :: int

type_synonym atoms = "(jstr \<times> atom) list"

definition or_empty :: "jstr option \<Rightarrow> jstr" where
  "or_empty s = (case s of None \<Rightarrow> [] | Some t \<Rightarrow> t)"

definition atom_compare :: "(jstr \<Rightarrow> jstr \<Rightarrow> int) \<Rightarrow> atom \<Rightarrow> atom \<Rightarrow> int" where
  "atom_compare lc l r =
     (let after = lc (or_empty (at_after l)) (or_empty (at_after r)) in
      if after \<noteq> 0 then after
      else let txt = lc (at_text l) (at_text r) in
        if txt \<noteq> 0 then txt
        else let origin = lc (at_origin l) (at_origin r) in
          if origin \<noteq> 0 then origin
          else if at_seq l < at_seq r then - 1 else if at_seq l > at_seq r then 1 else 0)"

text \<open>The loop over the operations; an undecodable payload throws, leaving what was folded.\<close>

fun absorb_edit :: "(jstr \<Rightarrow> jstr \<Rightarrow> int) \<Rightarrow> crdt_op \<Rightarrow> text_edit \<Rightarrow> atoms \<times> jstr list \<times> jstr list \<Rightarrow> atoms \<times> jstr list \<times> jstr list" where
  "absorb_edit lc op (TextDelete a) (atoms, deleted, diags) = (atoms, js_add a deleted, diags)"
| "absorb_edit lc op (TextInsert a after txt) (atoms, deleted, diags) =
     (let candidate = \<lparr>at_after = after, at_text = txt, at_origin = co_origin op, at_seq = co_seq op\<rparr> in
      case jm_get atoms a of
        Some prior \<Rightarrow>
          if prior \<noteq> candidate
          then (if atom_compare lc candidate prior < 0 then jm_set a candidate atoms else atoms,
                deleted, js_add (jlit ''atom_equivocation:'' @ a) diags)
          else (jm_set a candidate atoms, deleted, diags)
      | None \<Rightarrow> (jm_set a candidate atoms, deleted, diags))"

fun absorb_ops :: "(jstr \<Rightarrow> jstr \<Rightarrow> int) \<Rightarrow> crdt_op list \<Rightarrow> atoms \<times> jstr list \<times> jstr list
    \<Rightarrow> (atoms \<times> jstr list \<times> jstr list) \<times> text_error option" where
  "absorb_ops lc [] st = (st, None)"
| "absorb_ops lc (op # ops) st =
     (case decode_text_edit (co_payload op) of
        Inl e \<Rightarrow> (st, Some e)
      | Inr edit \<Rightarrow> absorb_ops lc ops (absorb_edit lc op edit st))"

text \<open>The children map: \<open>None\<close> is the key \<open>null\<close>; an atom whose parent is unknown is left out.\<close>

fun link_children :: "atoms \<Rightarrow> atoms \<Rightarrow> (jstr option \<times> jstr list) list \<Rightarrow> jstr list
    \<Rightarrow> (jstr option \<times> jstr list) list \<times> jstr list" where
  "link_children atoms [] children diags = (children, diags)"
| "link_children atoms ((a, at) # rest) children diags =
     (if at_after at \<noteq> None \<and> jm_get atoms (the (at_after at)) = None
      then link_children atoms rest children
        (js_add (jlit ''missing_parent:'' @ a @ jlit '':'' @ the (at_after at)) diags)
      else link_children atoms rest
        (jm_set (at_after at) ((case jm_get children (at_after at) of None \<Rightarrow> [] | Some s \<Rightarrow> s) @ [a]) children)
        diags)"

definition sort_siblings :: "(jstr option \<times> jstr list) list \<Rightarrow> (jstr option \<times> jstr list) list" where
  "sort_siblings children = map (\<lambda>(k, s). (k, sort s)) children"

text \<open>
  The walk. The JavaScript array used as a stack grows at its end; here the top of the stack is
  the head of the list. \<open>visiting\<close> and \<open>visited\<close> are the sets of the code.
\<close>

record walk =
  wk_visiting :: "jstr list"
  wk_visited :: "jstr list"
  wk_elements :: "text_element list"
  wk_diagnostics :: "jstr list"

definition children_of :: "(jstr option \<times> jstr list) list \<Rightarrow> jstr option \<Rightarrow> jstr list" where
  "children_of children k = (case jm_get children k of None \<Rightarrow> [] | Some s \<Rightarrow> s)"

definition enter_atom :: "jstr \<Rightarrow> atom \<Rightarrow> jstr list \<Rightarrow> walk \<Rightarrow> walk" where
  "enter_atom a at deleted w =
     w\<lparr>wk_visiting := js_add a (wk_visiting w),
       wk_elements := wk_elements w
         @ [\<lparr>tx_id = parse_text_atom_id a (at_origin at) (at_seq at), tx_atom = a,
             tx_text = at_text at, tx_deleted = (a \<in> set deleted)\<rparr>]\<rparr>"

function visit_loop :: "atoms \<Rightarrow> jstr list \<Rightarrow> (jstr option \<times> jstr list) list \<Rightarrow> (jstr \<times> bool) list \<Rightarrow> walk \<Rightarrow> text_error + walk" where
  "visit_loop atoms deleted children [] w = Inr w"
| "visit_loop atoms deleted children ((a, leaving) # stack) w =
     (if leaving
      then visit_loop atoms deleted children stack
        (w\<lparr>wk_visiting := js_remove a (wk_visiting w), wk_visited := js_add a (wk_visited w)\<rparr>)
      else if a \<in> set (wk_visiting w)
      then visit_loop atoms deleted children stack
        (w\<lparr>wk_diagnostics := js_add (jlit ''cycle:'' @ a) (wk_diagnostics w)\<rparr>)
      else if a \<in> set (wk_visited w) then visit_loop atoms deleted children stack w
      else case jm_get atoms a of
        None \<Rightarrow> Inl JsTypeError
      | Some at \<Rightarrow> visit_loop atoms deleted children
          (map (\<lambda>c. (c, False)) (children_of children (Some a)) @ (a, True) # stack)
          (enter_atom a at deleted w))"
  by pat_completeness auto
termination
proof (relation "(\<lambda>(atoms, deleted, children, stack, w).
      card (set (jm_keys atoms) - set (wk_visiting w) - set (wk_visited w))) <*mlex*>
    measure (\<lambda>(atoms, deleted, children, stack, w). length stack)", goal_cases)
  case 1
  show ?case by (intro wf_mlex) simp
next
  case (2 atoms deleted children a leaving stack w)
  then show ?case by (intro mlex_leq) (auto intro!: card_mono)
next
  case (5 atoms deleted children a leaving stack w at)
  then have "a \<in> set (jm_keys atoms)" by (force dest: jm_get_in)
  with 5 show ?case by (intro mlex_less) (auto simp: enter_atom_def intro!: psubset_card_mono)
qed (auto intro: mlex_leq)

fun visit_all :: "atoms \<Rightarrow> jstr list \<Rightarrow> (jstr option \<times> jstr list) list \<Rightarrow> jstr list \<Rightarrow> walk \<Rightarrow> text_error + walk" where
  "visit_all atoms deleted children [] w = Inr w"
| "visit_all atoms deleted children (r # rs) w =
     rbind (visit_loop atoms deleted children [(r, False)] w) (visit_all atoms deleted children rs)"

definition walk_forest :: "atoms \<Rightarrow> jstr list \<Rightarrow> (jstr option \<times> jstr list) list \<Rightarrow> jstr list \<Rightarrow> text_error + walk" where
  "walk_forest atoms deleted children diags =
     rbind (visit_all atoms deleted children (children_of children None)
         \<lparr>wk_visiting = [], wk_visited = [], wk_elements = [], wk_diagnostics = diags\<rparr>) (\<lambda>w.
       let pending = sort (filter (\<lambda>a. a \<notin> set (wk_visited w)) (jm_keys atoms)) in
       visit_all atoms deleted children
         (filter (\<lambda>a. case jm_get atoms a of None \<Rightarrow> False
                    | Some at \<Rightarrow> at_after at \<noteq> None \<and> jm_get atoms (the (at_after at)) \<noteq> None) pending) w)"

definition project_identity ::
  "('n, 'k, 't) crdt_if \<Rightarrow> (jstr \<Rightarrow> jstr \<Rightarrow> int) \<Rightarrow> 'n \<Rightarrow> crdt_op list \<Rightarrow> jstr list \<Rightarrow> atoms \<Rightarrow> jstr list
    \<Rightarrow> (atoms \<times> jstr list) \<times> (text_error + text_state)" where
  "project_identity C lc node operations delivery atoms deleted =
     (let canonical = cn_project_text C node;
          diags = foldl (\<lambda>ds d. js_add d ds) delivery (ct_diagnostics canonical) in
      case absorb_ops lc operations (atoms, deleted, diags) of
        ((atoms', deleted', diags'), Some e) \<Rightarrow> ((atoms', deleted'), Inl e)
      | ((atoms', deleted', diags'), None) \<Rightarrow>
          ((atoms', deleted'),
           (let (linked, diags'') = link_children atoms' atoms' [] diags'; children = sort_siblings linked in
            rbind (walk_forest atoms' deleted' children diags'') (\<lambda>w.
              let visible = filter (\<lambda>e. \<not> tx_deleted e) (wk_elements w);
                  txt = concat (map tx_text visible) in
              if txt \<noteq> ct_text canonical
              then Inl (TextCrdtError ''text_crdt identity projection diverged from the canonical Taut projection'')
              else Inr \<lparr>ts_text = txt, ts_elements = wk_elements w, ts_visible = visible,
                ts_clock = foldl (\<lambda>m (k, v). jm_set k v m) [] (cn_clock C node),
                ts_diagnostics = sort (wk_diagnostics w)\<rparr>))))"

subsection \<open>The walk visits every linked atom once\<close>

text \<open>
  \<open>linked\<close>: the atoms that hang off \<open>null\<close> or off an atom that is present. The invariant of the
  walk's state: the elements are the atoms entered so far, each once; the stack's leaving marks
  are the atoms being visited.
\<close>

definition linked :: "atoms \<Rightarrow> jstr set" where
  "linked atoms = {a. \<exists>at. jm_get atoms a = Some at
     \<and> (at_after at = None \<or> jm_get atoms (the (at_after at)) \<noteq> None)}"

definition walk_inv :: "jstr set \<Rightarrow> walk \<Rightarrow> bool" where
  "walk_inv A w \<longleftrightarrow> distinct (map tx_atom (wk_elements w))
     \<and> tx_atom ` set (wk_elements w) = set (wk_visiting w) \<union> set (wk_visited w)
     \<and> set (wk_visiting w) \<inter> set (wk_visited w) = {}
     \<and> set (wk_visiting w) \<union> set (wk_visited w) \<subseteq> A"

abbreviation leaving_marks :: "(jstr \<times> bool) list \<Rightarrow> jstr list" where
  "leaving_marks stack \<equiv> map fst (filter snd stack)"

definition stack_inv :: "jstr set \<Rightarrow> (jstr \<times> bool) list \<Rightarrow> walk \<Rightarrow> bool" where
  "stack_inv A stack w \<longleftrightarrow> fst ` set stack \<subseteq> A \<and> distinct (leaving_marks stack)
     \<and> set (leaving_marks stack) = set (wk_visiting w)"

definition children_ok :: "atoms \<Rightarrow> (jstr option \<times> jstr list) list \<Rightarrow> jstr set \<Rightarrow> bool" where
  "children_ok atoms children A \<longleftrightarrow> A \<subseteq> dom (jm_get atoms) \<and> (\<forall>k. set (children_of children k) \<subseteq> A)"

lemma leaving_marks_children [simp]: "filter snd (map (\<lambda>c. (c, False)) cs) = []"
  by (induction cs) auto

lemma walk_inv_leave: "walk_inv A w \<Longrightarrow> a \<in> set (wk_visiting w) \<Longrightarrow>
    walk_inv A (w\<lparr>wk_visiting := js_remove a (wk_visiting w), wk_visited := js_add a (wk_visited w)\<rparr>)"
  by (auto simp: walk_inv_def)

lemma walk_inv_enter: "walk_inv A w \<Longrightarrow> a \<in> A \<Longrightarrow> a \<notin> set (wk_visiting w) \<Longrightarrow> a \<notin> set (wk_visited w) \<Longrightarrow>
    walk_inv A (enter_atom a at deleted w)"
  by (auto simp: walk_inv_def enter_atom_def)

lemmas visit_loop_step = visit_loop.simps(2)
declare visit_loop.simps(2) [simp del]

lemma visit_loop_walk:
  assumes "children_ok atoms children A" "walk_inv A w" "stack_inv A stack w"
  shows "\<exists>w'. visit_loop atoms deleted children stack w = Inr w' \<and> walk_inv A w' \<and> wk_visiting w' = []
    \<and> set (wk_visited w) \<union> fst ` set stack \<subseteq> set (wk_visited w')"
  using assms
proof (induction atoms deleted children stack w rule: visit_loop.induct)
  case (1 atoms deleted children w)
  then show ?case by (simp add: stack_inv_def)
next
  case (2 atoms deleted children a leaving stack w)
  note prems = "2.prems"
  consider (leave) leaving | (cycle) "\<not> leaving" "a \<in> set (wk_visiting w)"
    | (seen) "\<not> leaving" "a \<notin> set (wk_visiting w)" "a \<in> set (wk_visited w)"
    | (enter) "\<not> leaving" "a \<notin> set (wk_visiting w)" "a \<notin> set (wk_visited w)" by blast
  then show ?case
  proof cases
    case leave
    let ?w = "w\<lparr>wk_visiting := js_remove a (wk_visiting w), wk_visited := js_add a (wk_visited w)\<rparr>"
    have a: "a \<in> set (wk_visiting w)" using prems leave by (auto simp: stack_inv_def)
    have "stack_inv A stack ?w" using prems(3) leave by (auto simp: stack_inv_def)
    then obtain w' where "visit_loop atoms deleted children stack ?w = Inr w'" "walk_inv A w'"
      "wk_visiting w' = []" "set (wk_visited ?w) \<union> fst ` set stack \<subseteq> set (wk_visited w')"
      using "2.IH"(1) [OF leave prems(1) walk_inv_leave [OF prems(2) a]] by blast
    then show ?thesis using leave by (auto simp: visit_loop_step)
  next
    case cycle
    let ?w = "w\<lparr>wk_diagnostics := js_add (jlit ''cycle:'' @ a) (wk_diagnostics w)\<rparr>"
    have inv: "walk_inv A ?w" "stack_inv A stack ?w" using prems cycle by (auto simp: walk_inv_def stack_inv_def)
    obtain w' where w': "visit_loop atoms deleted children stack ?w = Inr w'" "walk_inv A w'"
      "wk_visiting w' = []" "set (wk_visited ?w) \<union> fst ` set stack \<subseteq> set (wk_visited w')"
      using "2.IH"(2) [OF cycle prems(1) inv] by blast
    have "a \<in> set (leaving_marks stack)" using prems(3) cycle by (auto simp: stack_inv_def)
    then have "a \<in> fst ` set stack" by auto
    then show ?thesis using w' cycle by (auto simp: visit_loop_step)
  next
    case seen
    have "stack_inv A stack w" using prems seen by (auto simp: stack_inv_def)
    then obtain w' where "visit_loop atoms deleted children stack w = Inr w'" "walk_inv A w'"
      "wk_visiting w' = []" "set (wk_visited w) \<union> fst ` set stack \<subseteq> set (wk_visited w')"
      using "2.IH"(3) [OF seen prems(1,2)] by blast
    then show ?thesis using seen by (auto simp: visit_loop_step)
  next
    case enter
    have "a \<in> A" using prems(3) by (simp add: stack_inv_def)
    moreover have kids: "set (children_of children (Some a)) \<subseteq> A"
      using prems(1) unfolding children_ok_def by blast
    moreover from \<open>a \<in> A\<close> obtain at where at: "jm_get atoms a = Some at"
      using prems(1) by (auto simp: children_ok_def)
    moreover have "stack_inv A (map (\<lambda>c. (c, False)) (children_of children (Some a)) @ (a, True) # stack) (enter_atom a at deleted w)"
      using prems(2,3) enter kids by (auto simp: stack_inv_def enter_atom_def)
    ultimately obtain w' where w': "visit_loop atoms deleted children
          (map (\<lambda>c. (c, False)) (children_of children (Some a)) @ (a, True) # stack) (enter_atom a at deleted w) = Inr w'"
      "walk_inv A w'" "wk_visiting w' = []"
      "set (wk_visited (enter_atom a at deleted w))
        \<union> fst ` set (map (\<lambda>c. (c, False)) (children_of children (Some a)) @ (a, True) # stack) \<subseteq> set (wk_visited w')"
      using "2.IH"(4) [OF enter at prems(1) walk_inv_enter [OF prems(2) \<open>a \<in> A\<close> enter(2,3)]] by blast
    moreover have "wk_visited (enter_atom a at deleted w) = wk_visited w" by (simp add: enter_atom_def)
    ultimately show ?thesis using enter at by (auto simp: visit_loop_step)
  qed
qed

lemma visit_all_walk:
  assumes "children_ok atoms children A" "walk_inv A w" "wk_visiting w = []" "set roots \<subseteq> A"
  shows "\<exists>w'. visit_all atoms deleted children roots w = Inr w' \<and> walk_inv A w' \<and> wk_visiting w' = []
    \<and> set (wk_visited w) \<union> set roots \<subseteq> set (wk_visited w')"
  using assms
proof (induction roots arbitrary: w)
  case (Cons r rs)
  have "stack_inv A [(r, False)] w" using Cons.prems by (simp add: stack_inv_def)
  then obtain w1 where w1: "visit_loop atoms deleted children [(r, False)] w = Inr w1" "walk_inv A w1"
    "wk_visiting w1 = []" "set (wk_visited w) \<union> fst ` set [(r, False)] \<subseteq> set (wk_visited w1)"
    using visit_loop_walk [OF Cons.prems(1,2)] by blast
  have "set rs \<subseteq> A" using Cons.prems(4) by simp
  then obtain w2 where "visit_all atoms deleted children rs w1 = Inr w2" "walk_inv A w2" "wk_visiting w2 = []"
    "set (wk_visited w1) \<union> set rs \<subseteq> set (wk_visited w2)"
    using Cons.IH [OF Cons.prems(1) w1(2,3)] by blast
  then show ?case using w1 by auto
qed auto

lemma children_of_set: "children_of (jm_set k s m) j = (if j = k then s else children_of m j)"
  by (simp add: children_of_def jm_get_set)

lemma children_of_sorted: "children_of (sort_siblings m) k = sort (children_of m k)"
  by (induction m) (auto simp: children_of_def sort_siblings_def)

lemma link_children_set: "set (children_of (fst (link_children atoms rest children diags)) k) =
    set (children_of children k)
      \<union> {a. \<exists>at. (a, at) \<in> set rest \<and> at_after at = k \<and> (k = None \<or> jm_get atoms (the k) \<noteq> None)}"
proof (induction atoms rest children diags rule: link_children.induct)
  case (2 atoms a at rest children diags)
  show ?case
  proof (cases "at_after at \<noteq> None \<and> jm_get atoms (the (at_after at)) = None")
    case True
    then show ?thesis using 2(1) by auto
  next
    case False
    then have "link_children atoms ((a, at) # rest) children diags = link_children atoms rest
        (jm_set (at_after at) (children_of children (at_after at) @ [a]) children) diags"
      unfolding children_of_def by (simp only: link_children.simps if_False)
    moreover note 2(2) [OF False, folded children_of_def]
    ultimately show ?thesis using False by (auto simp: children_of_set)
  qed
qed simp

lemma linked_iff: "distinct (jm_keys atoms) \<Longrightarrow> a \<in> linked atoms \<longleftrightarrow>
    (\<exists>at. (a, at) \<in> set atoms \<and> (at_after at = None \<or> jm_get atoms (the (at_after at)) \<noteq> None))"
  by (auto simp: linked_def)

lemma walk_forest_linked:
  assumes "distinct (jm_keys atoms)" "children = sort_siblings (fst (link_children atoms atoms [] ds))"
  shows "\<exists>w. walk_forest atoms deleted children diags = Inr w
    \<and> distinct (map tx_atom (wk_elements w)) \<and> tx_atom ` set (wk_elements w) = linked atoms"
proof -
  have kids: "set (children_of children k) =
      {a. \<exists>at. (a, at) \<in> set atoms \<and> at_after at = k \<and> (k = None \<or> jm_get atoms (the k) \<noteq> None)}" for k
    unfolding assms(2) children_of_sorted using link_children_set [of atoms atoms "[]" ds k]
    by (simp add: children_of_def)
  have ok: "children_ok atoms children (linked atoms)"
    unfolding children_ok_def kids
  proof (intro conjI allI subsetI)
    show "a \<in> dom (jm_get atoms)" if "a \<in> linked atoms" for a using that by (auto simp: linked_def)
  qed (use linked_iff [OF assms(1)] in auto)
  let ?w0 = "\<lparr>wk_visiting = [], wk_visited = [], wk_elements = [], wk_diagnostics = diags\<rparr>"
  have "walk_inv (linked atoms) ?w0" "wk_visiting ?w0 = []" by (simp_all add: walk_inv_def)
  moreover have "set (children_of children None) \<subseteq> linked atoms" using ok by (auto simp: children_ok_def)
  ultimately obtain w1 where w1: "visit_all atoms deleted children (children_of children None) ?w0 = Inr w1"
    "walk_inv (linked atoms) w1" "wk_visiting w1 = []" "set (children_of children None) \<subseteq> set (wk_visited w1)"
    using visit_all_walk [OF ok] by blast
  let ?has = "\<lambda>a. case jm_get atoms a of None \<Rightarrow> False
      | Some at \<Rightarrow> at_after at \<noteq> None \<and> jm_get atoms (the (at_after at)) \<noteq> None"
  let ?rest = "filter ?has (sort (filter (\<lambda>a. a \<notin> set (wk_visited w1)) (jm_keys atoms)))"
  have "set ?rest \<subseteq> linked atoms" by (auto simp: linked_def split: option.splits)
  then obtain w2 where w2: "visit_all atoms deleted children ?rest w1 = Inr w2" "walk_inv (linked atoms) w2"
    "wk_visiting w2 = []" "set (wk_visited w1) \<union> set ?rest \<subseteq> set (wk_visited w2)"
    using visit_all_walk [OF ok w1(2,3)] by blast
  have "a \<in> set (wk_visited w2)" if a: "a \<in> linked atoms" for a
  proof -
    obtain at where at: "(a, at) \<in> set atoms" "at_after at = None \<or> jm_get atoms (the (at_after at)) \<noteq> None"
      using a linked_iff [OF assms(1)] by blast
    then have "jm_get atoms a = Some at" "a \<in> set (jm_keys atoms)" using assms(1) by force+
    with at kids [of None] w1(4) w2(4) show ?thesis by (cases "at_after at") auto
  qed
  moreover have "tx_atom ` set (wk_elements w2) = set (wk_visited w2)" "set (wk_visited w2) \<subseteq> linked atoms"
    using w2(2,3) by (auto simp: walk_inv_def)
  ultimately have "tx_atom ` set (wk_elements w2) = linked atoms" by blast
  moreover have "walk_forest atoms deleted children diags = Inr w2"
    by (simp add: walk_forest_def w1(1) w2(1))
  ultimately show ?thesis using w2(2) by (auto simp: walk_inv_def)
qed

subsection \<open>What the elements hold\<close>

definition element_of :: "atoms \<Rightarrow> jstr list \<Rightarrow> text_element \<Rightarrow> bool" where
  "element_of atoms deleted e \<longleftrightarrow> (\<exists>at. jm_get atoms (tx_atom e) = Some at \<and> tx_text e = at_text at
     \<and> tx_id e = parse_text_atom_id (tx_atom e) (at_origin at) (at_seq at)
     \<and> (tx_deleted e \<longleftrightarrow> tx_atom e \<in> set deleted))"

lemma visit_loop_elements:
  "visit_loop atoms deleted children stack w = Inr w' \<Longrightarrow> \<forall>e \<in> set (wk_elements w). element_of atoms deleted e \<Longrightarrow>
   \<forall>e \<in> set (wk_elements w'). element_of atoms deleted e"
proof (induction atoms deleted children stack w rule: visit_loop.induct)
  case (2 atoms deleted children a leaving stack w)
  have "\<forall>e \<in> set (wk_elements (enter_atom a at deleted w)). element_of atoms deleted e"
    if "jm_get atoms a = Some at" for at
    using that 2(6) by (auto simp: enter_atom_def element_of_def)
  with 2 show ?case by (simp add: visit_loop_step split: if_splits option.splits)
qed simp

lemma visit_all_elements:
  "visit_all atoms deleted children rs w = Inr w' \<Longrightarrow> \<forall>e \<in> set (wk_elements w). element_of atoms deleted e \<Longrightarrow>
   \<forall>e \<in> set (wk_elements w'). element_of atoms deleted e"
  by (induction rs arbitrary: w) (auto simp: rbind_Inr_iff dest: visit_loop_elements)

lemma walk_forest_elements:
  "walk_forest atoms deleted children diags = Inr w \<Longrightarrow> \<forall>e \<in> set (wk_elements w). element_of atoms deleted e"
  by (auto simp: walk_forest_def rbind_Inr_iff Let_def dest!: visit_all_elements)

lemma absorb_edit_distinct: "distinct (jm_keys (fst st)) \<Longrightarrow> distinct (jm_keys (fst (absorb_edit lc op e st)))"
  by (cases "(lc, op, e, st)" rule: absorb_edit.cases) (auto simp: Let_def distinct_update split: option.split)

lemma absorb_ops_distinct: "distinct (jm_keys (fst st)) \<Longrightarrow> distinct (jm_keys (fst (fst (absorb_ops lc ops st))))"
  by (induction ops arbitrary: st) (auto simp: absorb_edit_distinct split: sum.split)

text \<open>The first payload that does not decode ends the loop.\<close>

lemma absorb_ops_error: "snd (absorb_ops lc ops st) =
    map_option (\<lambda>op. projl (decode_text_edit (co_payload op))) (find (\<lambda>op. isl (decode_text_edit (co_payload op))) ops)"
  by (induction ops arbitrary: st) (auto split: sum.split)

text \<open>Absorbing in two deliveries is absorbing at once.\<close>

lemma absorb_ops_append: "snd (absorb_ops lc xs st) = None \<Longrightarrow>
    absorb_ops lc (xs @ ys) st = absorb_ops lc ys (fst (absorb_ops lc xs st))"
  by (induction xs arbitrary: st) (auto split: sum.splits)

definition divergence :: text_error where
  "divergence = TextCrdtError ''text_crdt identity projection diverged from the canonical Taut projection''"

text \<open>The node with another canonical text.\<close>

definition showing :: "jstr \<Rightarrow> ('n, 'k, 't) crdt_if \<Rightarrow> ('n, 'k, 't) crdt_if" where
  "showing c C = C\<lparr>cn_project_text := (\<lambda>n. (cn_project_text C n)\<lparr>ct_text := c\<rparr>)\<rparr>"

lemma showing_simps [simp]: "ct_text (cn_project_text (showing c C) n) = c"
    "ct_diagnostics (cn_project_text (showing c C) n) = ct_diagnostics (cn_project_text C n)" "cn_clock (showing c C) = cn_clock C"
  by (simp_all add: showing_def)

lemma showing_own: "project_identity (showing (ct_text (cn_project_text C node)) C) lc node ops delivery atoms deleted
    = project_identity C lc node ops delivery atoms deleted"
  by (simp only: project_identity_def Let_def showing_simps)

lemma project_identity_undecodable:
  "find (\<lambda>op. isl (decode_text_edit (co_payload op))) ops = Some op \<Longrightarrow>
   snd (project_identity C lc node ops delivery atoms deleted) = Inl (projl (decode_text_edit (co_payload op)))"
  using absorb_ops_error [of lc ops "(atoms, deleted, foldl (\<lambda>ds d. js_add d ds) delivery (ct_diagnostics (cn_project_text C node)))"]
  by (auto simp: project_identity_def Let_def split: prod.split option.split)

lemma project_identity_walks:
  assumes "distinct (jm_keys atoms)" "find (\<lambda>op. isl (decode_text_edit (co_payload op))) ops = None"
  obtains at1 del1 st where "distinct (map tx_atom (ts_elements st))" "tx_atom ` set (ts_elements st) = linked at1"
    "\<forall>e \<in> set (ts_elements st). element_of at1 del1 e" "ts_visible st = filter (\<lambda>e. \<not> tx_deleted e) (ts_elements st)"
    "ts_text st = concat (map tx_text (ts_visible st))"
    "\<And>c. project_identity (showing c C) lc node ops delivery atoms deleted = ((at1, del1), if c = ts_text st then Inr st else Inl divergence)"
proof -
  let ?diags = "foldl (\<lambda>ds d. js_add d ds) delivery (ct_diagnostics (cn_project_text C node))"
  obtain at1 del1 dg1 where ab: "absorb_ops lc ops (atoms, deleted, ?diags) = ((at1, del1, dg1), None)"
    using absorb_ops_error [of lc ops "(atoms, deleted, ?diags)"] assms(2) by (metis option.map(1) prod.exhaust snd_conv)
  have d: "distinct (jm_keys at1)"
    using absorb_ops_distinct [of "(atoms, deleted, ?diags)" lc ops] assms(1) ab by simp
  obtain lk dg2 where lk: "link_children at1 at1 [] dg1 = (lk, dg2)" by fastforce
  obtain w where w: "walk_forest at1 del1 (sort_siblings lk) dg2 = Inr w"
    "distinct (map tx_atom (wk_elements w))" "tx_atom ` set (wk_elements w) = linked at1"
    using walk_forest_linked [OF d, of "sort_siblings lk" dg1] lk by fastforce
  define st where "st = \<lparr>ts_text = concat (map tx_text (filter (\<lambda>e. \<not> tx_deleted e) (wk_elements w))), ts_elements = wk_elements w,
    ts_visible = filter (\<lambda>e. \<not> tx_deleted e) (wk_elements w), ts_clock = foldl (\<lambda>m (k, v). jm_set k v m) [] (cn_clock C node),
    ts_diagnostics = sort (wk_diagnostics w)\<rparr>"
  show thesis
  proof (rule that [of st at1 del1])
    show "project_identity (showing c C) lc node ops delivery atoms deleted = ((at1, del1), if c = ts_text st then Inr st else Inl divergence)" for c
      using ab lk w(1) by (simp add: project_identity_def Let_def divergence_def st_def)
  qed (use w walk_forest_elements [OF w(1)] in \<open>simp_all add: st_def\<close>)
qed

subsection \<open>Properties\<close>

text \<open>C32. The identity projection holds every linked atom exactly once, with its text and its
  deletion mark, and nothing else; its visible elements are those not deleted, and together
  they spell the canonical text of the node.\<close>

theorem project_identity_elements:
  assumes "distinct (jm_keys atoms)"
    and "project_identity C lc node ops delivery atoms deleted = ((atoms', deleted'), Inr st)"
  shows "distinct (map tx_atom (ts_elements st)) \<and> tx_atom ` set (ts_elements st) = linked atoms'
    \<and> (\<forall>e \<in> set (ts_elements st). element_of atoms' deleted' e)
    \<and> ts_visible st = filter (\<lambda>e. \<not> tx_deleted e) (ts_elements st)
    \<and> ts_text st = concat (map tx_text (ts_visible st))
    \<and> ts_text st = ct_text (cn_project_text C node)"
proof -
  have none: "find (\<lambda>op. isl (decode_text_edit (co_payload op))) ops = None"
    using project_identity_undecodable [of ops _ C lc node delivery atoms deleted] assms(2)
    by (cases "find (\<lambda>op. isl (decode_text_edit (co_payload op))) ops") simp_all
  obtain at1 del1 s where
    s: "distinct (map tx_atom (ts_elements s))" "tx_atom ` set (ts_elements s) = linked at1"
      "\<forall>e \<in> set (ts_elements s). element_of at1 del1 e" "ts_visible s = filter (\<lambda>e. \<not> tx_deleted e) (ts_elements s)"
      "ts_text s = concat (map tx_text (ts_visible s))"
    and r: "\<And>c. project_identity (showing c C) lc node ops delivery atoms deleted = ((at1, del1), if c = ts_text s then Inr s else Inl divergence)"
    by (rule project_identity_walks [OF assms(1) none, of C lc node delivery deleted]) (rule that)
  have own: "((atoms', deleted'), Inr st) = ((at1, del1), if ct_text (cn_project_text C node) = ts_text s then Inr s else Inl divergence)"
    using r [of "ct_text (cn_project_text C node)"] by (simp only: showing_own assms(2))
  then have eqs: "atoms' = at1" "deleted' = del1" "st = s" "ts_text s = ct_text (cn_project_text C node)"
    by (simp_all split: if_splits)
  show ?thesis unfolding eqs(1-3) using s eqs(4) by blast
qed

text \<open>A node over operations kept in a list, whose canonical text is given.\<close>

definition list_node :: "jstr \<Rightarrow> (crdt_op list, crdt_op list, unit) crdt_if" where
  "list_node txt = \<lparr>cn_new = (\<lambda>_. []), cn_apply = (\<lambda>op ops. (ops @ [op], [])), cn_operations = (\<lambda>ops. ops),
     cn_clock = (\<lambda>_. []), cn_revision = (\<lambda>ops. int (length ops)),
     cn_changes_since = (\<lambda>r ops. (r < 0, drop (nat r) ops)),
     cn_checkpoint = (\<lambda>ops. ops), cn_restore = (\<lambda>ops. Inr ops),
     cn_project_text = (\<lambda>_. \<lparr>ct_text = txt, ct_diagnostics = []\<rparr>),
     cn_checkpoint_text = (\<lambda>_. ()), cn_restore_text = (\<lambda>_ n. Inr n)\<rparr>"

lemma list_node_text: "ct_text (cn_project_text (list_node t) n) = t"
  by (simp add: list_node_def)

theorem project_identity_elements_witness:
  "linked [([49], \<lparr>at_after = Some [57], at_text = [97], at_origin = [120], at_seq = 1\<rparr>)] = {}"
proof -
  let ?at = "\<lparr>at_after = Some [57], at_text = [97], at_origin = [120], at_seq = 1\<rparr>"
  let ?st = "\<lparr>ts_text = [], ts_elements = [], ts_visible = [], ts_clock = [],
    ts_diagnostics = [jlit ''missing_parent:'' @ [49] @ jlit '':'' @ [57]]\<rparr>"
  have "project_identity (list_node []) (\<lambda>_ _. 0) [] [] [] [([49], ?at)] [] = (([([49], ?at)], []), Inr ?st)"
    by (simp add: project_identity_def list_node_def Let_def walk_forest_def children_of_def sort_siblings_def js_add_def)
  from project_identity_elements [OF _ this] show ?thesis by simp
qed

text \<open>C39. The projection always ends, and fails exactly when it should. If a payload does not decode, the
  error is the decoder's for the first such payload. Otherwise one state is determined by the operations
  and the atoms: the projection returns it when the node's canonical text is the text of that state (\<open>showing
  c\<close> is the node with the canonical text \<open>c\<close>), and reports the divergence for every other canonical text. The
  walk never meets an atom that is not in the map, cycles and missing parents included.\<close>

theorem project_identity_errors:
  assumes "distinct (jm_keys atoms)"
  shows "case find (\<lambda>op. isl (decode_text_edit (co_payload op))) ops of
      Some op \<Rightarrow> snd (project_identity C lc node ops delivery atoms deleted) = Inl (projl (decode_text_edit (co_payload op)))
    | None \<Rightarrow> \<exists>st. snd (project_identity C lc node ops delivery atoms deleted)
          = (if ct_text (cn_project_text C node) = ts_text st then Inr st else Inl divergence)
        \<and> (\<forall>c. snd (project_identity (showing c C) lc node ops delivery atoms deleted) = (if c = ts_text st then Inr st else Inl divergence))"
proof (cases "find (\<lambda>op. isl (decode_text_edit (co_payload op))) ops")
  case None
  obtain at1 del1 st where
    r: "\<And>c. project_identity (showing c C) lc node ops delivery atoms deleted = ((at1, del1), if c = ts_text st then Inr st else Inl divergence)"
    by (rule project_identity_walks [OF assms None, of C lc node delivery deleted]) (rule that)
  from r [of "ct_text (cn_project_text C node)"]
  have "snd (project_identity C lc node ops delivery atoms deleted) = (if ct_text (cn_project_text C node) = ts_text st then Inr st else Inl divergence)"
    by (simp add: showing_own)
  with r None show ?thesis by auto
next
  case (Some op)
  with project_identity_undecodable [OF Some, of C lc node delivery atoms deleted] show ?thesis by simp
qed

text \<open>A node that shows another text than its only atom, and an undecodable payload behind a good one.\<close>

theorem project_identity_errors_witness:
  "(let atoms = [([49], \<lparr>at_after = None, at_text = [98], at_origin = [120], at_seq = 1\<rparr>)] in
      snd (project_identity (list_node [99]) (\<lambda>_ _. 0) [] [] [] atoms []) = Inl divergence
      \<and> isl (snd (project_identity (list_node [98]) (\<lambda>_ _. 0) [] [] [] atoms [])) = False)
   \<and> snd (project_identity (list_node []) (\<lambda>_ _. 0) [] (map (\<lambda>p. \<lparr>co_origin = [], co_seq = 1, co_deps = [], co_payload = p\<rparr>) [sample_delete, []]) [] [] [])
       = Inl (TextCrdtError ''text_crdt payload must be canonical UTF-8 JSON'')"
proof -
  let ?atoms = "[([49], \<lparr>at_after = None, at_text = [98], at_origin = [120], at_seq = 1\<rparr>)]"
  let ?ops = "map (\<lambda>p. \<lparr>co_origin = [], co_seq = 1, co_deps = [], co_payload = p\<rparr>) [sample_delete, []]"
  have same: "showing [98] (list_node [99]) = list_node [98]" by (simp add: showing_def list_node_def)
  obtain st where st: "snd (project_identity (list_node [98]) (\<lambda>_ _. 0) [] [] [] ?atoms []) = Inr st" "ts_text st = [98]"
    by (simp add: project_identity_def list_node_def Let_def walk_forest_def children_of_def sort_siblings_def js_add_def visit_loop_step enter_atom_def)
  obtain s where own: "snd (project_identity (list_node [99]) (\<lambda>_ _. 0) [] [] [] ?atoms []) = (if [99] = ts_text s then Inr s else Inl divergence)"
    and any: "\<forall>c. snd (project_identity (showing c (list_node [99])) (\<lambda>_ _. 0) [] [] [] ?atoms []) = (if c = ts_text s then Inr s else Inl divergence)"
    using project_identity_errors [where atoms = ?atoms and ops = "[]" and C = "list_node [99]" and lc = "\<lambda>_ _. 0" and node = "[]" and delivery = "[]" and deleted = "[]"]
    by (auto simp: list_node_text)
  have "s = st" using any [rule_format, of "[98]"] st by (simp add: same split: if_splits)
  with own st have "snd (project_identity (list_node [99]) (\<lambda>_ _. 0) [] [] [] ?atoms []) = Inl divergence" by simp
  moreover have "snd (project_identity (list_node []) (\<lambda>_ _. 0) [] ?ops [] [] []) = Inl (TextCrdtError ''text_crdt payload must be canonical UTF-8 JSON'')"
    using project_identity_errors [where atoms = "[]" and ops = ?ops and C = "list_node []" and lc = "\<lambda>_ _. 0" and node = "[]" and delivery = "[]" and deleted = "[]"]
    by (simp add: decode_sample_delete decode_empty)
  ultimately show ?thesis by (simp add: st Let_def)
qed

end
