(* ===== verification/Text_Assembler.thy ===== *)
theory Text_Assembler
  imports Text_Project
begin

text \<open>
  \<open>assembleTextCrdt\<close> and \<open>TextCrdtAssembler\<close> of \<open>src/text_crdt.ts\<close>: the retained text engine of
  a mount. It feeds each new operation to its CRDT node under a normalised sequence number
  (counted from the origin's lowest), keeps what the identity projection needs, and starts the
  node again only when a normalisation it has already used changes.

  The keys \<open>JSON.stringify([op.origin, op.seq])\<close> tell operations apart exactly as the pair
  \<open>op_id\<close> does, and \<open>JSON.stringify(op.refs ?? [])\<close> tells reference lists apart whose heads
  list their fields in the order of the type: both are modelled by the value itself. A method
  that can throw returns the object it leaves behind together with the error, if any.
\<close>

type_synonym lcmp = "jstr \<Rightarrow> jstr \<Rightarrow> int"

definition refs_of :: "stored_op \<Rightarrow> stored_head list" where
  "refs_of op = (case op_refs op of None \<Rightarrow> [] | Some rs \<Rightarrow> rs)"

definition crdt_op_of :: "lcmp \<Rightarrow> (jstr \<times> int) list \<Rightarrow> stored_op \<Rightarrow> (text_error + crdt_op)" where
  "crdt_op_of lc bases op =
     rbind (crdt_sequence (op_origin op) (op_seq op) bases) (\<lambda>seq.
     rbind (crdt_clock lc op bases) (\<lambda>deps.
       Inr \<lparr>co_origin = op_origin op, co_seq = seq, co_deps = deps, co_payload = op_payload op\<rparr>))"

subsection \<open>One-shot assembly\<close>

fun assemble_apply :: "('n, 'k, 't) crdt_if \<Rightarrow> lcmp \<Rightarrow> (jstr \<times> int) list \<Rightarrow> stored_op list \<Rightarrow> 'n \<times> jstr list \<Rightarrow> text_error + 'n \<times> jstr list" where
  "assemble_apply C lc bases [] st = Inr st"
| "assemble_apply C lc bases (op # ops) (node, diags) =
     rbind (decode_text_edit (op_payload op)) (\<lambda>_.
     rbind (crdt_op_of lc bases op) (\<lambda>c.
       let (node', outs) = cn_apply C c node
       in assemble_apply C lc bases ops (node', add_diagnostics diags outs)))"

definition assemble_text_crdt :: "('n, 'k, 't) crdt_if \<Rightarrow> lcmp \<Rightarrow> stored_op list \<Rightarrow> text_error + text_state" where
  "assemble_text_crdt C lc ops =
     rbind (base_sequences ops) (\<lambda>bases.
     rbind (assemble_apply C lc bases ops (cn_new C (max 1024 (int (length ops))), [])) (\<lambda>(node, diags).
       snd (project_identity C lc node (cn_operations C node) diags [] [])))"

subsection \<open>The retained assembler\<close>

record 'n assembler =
  ta_node :: 'n
  ta_history :: "((jstr \<times> int) \<times> stored_op) list"
  ta_bases :: "(jstr \<times> int) list"
  ta_referenced :: "jstr list"
  ta_diagnostics :: "jstr list"
  ta_atoms :: atoms
  ta_deleted :: "jstr list"
  ta_revision :: int
  ta_value :: "text_state option"
  ta_engines :: int
  ta_applied :: int
  ta_rebases :: int
  ta_validated :: int

record ('k, 't) text_checkpoint =
  ck_version :: int
  ck_history :: "stored_op list"
  ck_node :: 'k
  ck_text :: 't
  ck_bases :: "(jstr \<times> int) list"
  ck_referenced :: "jstr list"
  ck_diagnostics :: "jstr list"
  ck_atoms :: atoms
  ck_deleted :: "jstr list"

definition assembler_new :: "('n, 'k, 't) crdt_if \<Rightarrow> 'n assembler" where
  "assembler_new C = \<lparr>ta_node = cn_new C max_safe_integer, ta_history = [], ta_bases = [], ta_referenced = [],
     ta_diagnostics = [], ta_atoms = [], ta_deleted = [], ta_revision = - 1, ta_value = None,
     ta_engines = 1, ta_applied = 0, ta_rebases = 0, ta_validated = 0\<rparr>"

fun validate_refs :: "stored_head list \<Rightarrow> text_error option" where
  "validate_refs [] = None"
| "validate_refs (r # rs) =
     (case checked_sequence (head_seq r) ''ref seq'' of Inl e \<Rightarrow> Some e | Inr _ \<Rightarrow> validate_refs rs)"

definition validate_op :: "stored_op \<Rightarrow> text_error option" where
  "validate_op op =
     (case decode_text_edit (op_payload op) of
        Inl e \<Rightarrow> Some e
      | Inr _ \<Rightarrow>
          (case checked_sequence (op_seq op) ''op seq'' of
             Inl e \<Rightarrow> Some e
           | Inr _ \<Rightarrow> validate_refs (refs_of op)))"

definition same_content :: "stored_op \<Rightarrow> stored_op \<Rightarrow> bool" where
  "same_content a b \<longleftrightarrow> op_payload a = op_payload b \<and> refs_of a = refs_of b"

fun validate_new :: "stored_op list \<Rightarrow> 'n assembler \<Rightarrow> 'n assembler \<times> text_error option" where
  "validate_new [] a = (a, None)"
| "validate_new (op # ops) a =
     (if (case jm_get (ta_history a) (op_id op) of None \<Rightarrow> False | Some old \<Rightarrow> same_content old op)
      then validate_new ops a
      else
        let a' = a\<lparr>ta_validated := ta_validated a + 1\<rparr> in
        case validate_op op of Some e \<Rightarrow> (a', Some e) | None \<Rightarrow> validate_new ops a')"

fun collect_fresh :: "((jstr \<times> int) \<times> stored_op) list \<Rightarrow> (jstr \<times> int) list \<Rightarrow> (jstr \<times> int) list \<Rightarrow> stored_op list
    \<Rightarrow> stored_op list \<times> (jstr \<times> int) list" where
  "collect_fresh history seen bases [] = ([], bases)"
| "collect_fresh history seen bases (op # ops) =
     (if jm_get history (op_id op) \<noteq> None \<or> op_id op \<in> set seen
      then collect_fresh history seen bases ops
      else
        let bases' = (case jm_get bases (op_origin op) of
              None \<Rightarrow> jm_set (op_origin op) (op_seq op) bases
            | Some base \<Rightarrow> if op_seq op < base then jm_set (op_origin op) (op_seq op) bases else bases);
            (fresh, bases'') = collect_fresh history (js_add (op_id op) seen) bases' ops
        in (op # fresh, bases''))"

definition needs_rebase :: "(jstr \<times> int) list \<Rightarrow> jstr list \<Rightarrow> (jstr \<times> int) list \<Rightarrow> bool" where
  "needs_rebase old referenced bases =
     list_ex (\<lambda>(origin, base).
       case jm_get old origin of
         Some o' \<Rightarrow> o' \<noteq> base
       | None \<Rightarrow> origin \<in> set referenced \<and> base \<noteq> 0) bases"

fun record_fresh :: "stored_op list \<Rightarrow> 'n assembler \<Rightarrow> 'n assembler" where
  "record_fresh [] a = a"
| "record_fresh (op # ops) a =
     record_fresh ops
       (a\<lparr>ta_history := jm_set (op_id op) op (ta_history a),
          ta_referenced := foldl (\<lambda>rs r. js_add (head_origin r) rs) (ta_referenced a) (refs_of op)\<rparr>)"

definition reset_engine :: "('n, 'k, 't) crdt_if \<Rightarrow> 'n assembler \<Rightarrow> 'n assembler" where
  "reset_engine C a = a\<lparr>ta_node := cn_new C max_safe_integer, ta_diagnostics := [], ta_atoms := [],
     ta_deleted := [], ta_revision := - 1, ta_engines := ta_engines a + 1, ta_rebases := ta_rebases a + 1\<rparr>"

fun feed :: "('n, 'k, 't) crdt_if \<Rightarrow> lcmp \<Rightarrow> stored_op list \<Rightarrow> 'n assembler \<Rightarrow> 'n assembler \<times> text_error option" where
  "feed C lc [] a = (a, None)"
| "feed C lc (op # ops) a =
     (let a1 = a\<lparr>ta_applied := ta_applied a + 1\<rparr> in
      case crdt_op_of lc (ta_bases a) op of
        Inl e \<Rightarrow> (a1, Some e)
      | Inr c \<Rightarrow>
          (let (node, outs) = cn_apply C c (ta_node a)
           in feed C lc ops (a1\<lparr>ta_node := node, ta_diagnostics := add_diagnostics (ta_diagnostics a) outs\<rparr>)))"

definition assembler_apply :: "('n, 'k, 't) crdt_if \<Rightarrow> lcmp \<Rightarrow> stored_op list \<Rightarrow> 'n assembler \<Rightarrow> 'n assembler \<times> text_error option" where
  "assembler_apply C lc ops a =
     (case validate_new ops a of
        (a1, Some e) \<Rightarrow> (a1, Some e)
      | (a1, None) \<Rightarrow>
          (let (fresh, bases) = collect_fresh (ta_history a1) [] (ta_bases a1) ops in
           if fresh = [] then (a1, None)
           else
             let rebase = needs_rebase (ta_bases a1) (ta_referenced a1) bases;
                 a2 = (record_fresh fresh a1)\<lparr>ta_bases := bases\<rparr>;
                 a3 = (if rebase then reset_engine C a2 else a2)
             in case feed C lc (if rebase then map snd (ta_history a3) else fresh) a3 of
                  (a4, Some e) \<Rightarrow> (a4, Some e)
                | (a4, None) \<Rightarrow> (a4\<lparr>ta_value := None\<rparr>, None)))"

definition assembler_state :: "('n, 'k, 't) crdt_if \<Rightarrow> lcmp \<Rightarrow> 'n assembler \<Rightarrow> 'n assembler \<times> (text_error + text_state)" where
  "assembler_state C lc a =
     (case ta_value a of
        Some v \<Rightarrow> (a, Inr v)
      | None \<Rightarrow>
          (let (reset, ops) = cn_changes_since C (ta_revision a) (ta_node a);
               atoms = (if reset then [] else ta_atoms a);
               deleted = (if reset then [] else ta_deleted a);
               ((atoms', deleted'), r) = project_identity C lc (ta_node a) ops (ta_diagnostics a) atoms deleted;
               a1 = a\<lparr>ta_atoms := atoms', ta_deleted := deleted'\<rparr>
           in case r of
                Inl e \<Rightarrow> (a1, Inl e)
              | Inr v \<Rightarrow> (a1\<lparr>ta_value := Some v, ta_revision := cn_revision C (ta_node a)\<rparr>, Inr v)))"

definition assembler_checkpoint :: "('n, 'k, 't) crdt_if \<Rightarrow> lcmp \<Rightarrow> 'n assembler
    \<Rightarrow> 'n assembler \<times> (text_error + ('k, 't) text_checkpoint)" where
  "assembler_checkpoint C lc a =
     (case assembler_state C lc a of
        (a1, Inl e) \<Rightarrow> (a1, Inl e)
      | (a1, Inr _) \<Rightarrow>
          (a1, Inr \<lparr>ck_version = 1, ck_history = map snd (ta_history a1), ck_node = cn_checkpoint C (ta_node a1),
             ck_text = cn_checkpoint_text C (ta_node a1), ck_bases = ta_bases a1, ck_referenced = ta_referenced a1,
             ck_diagnostics = ta_diagnostics a1, ck_atoms = ta_atoms a1, ck_deleted = ta_deleted a1\<rparr>))"

definition history_map :: "stored_op list \<Rightarrow> ((jstr \<times> int) \<times> stored_op) list" where
  "history_map ops = foldl (\<lambda>m op. jm_set (op_id op) op m) [] ops"

definition checkpoint_matches :: "stored_op list \<Rightarrow> stored_op list \<Rightarrow> bool" where
  "checkpoint_matches history persisted =
     list_all (\<lambda>old. case jm_get (history_map persisted) (op_id old) of
         None \<Rightarrow> False
       | Some op \<Rightarrow> same_content op old) history"

definition assembler_restore :: "('n, 'k, 't) crdt_if \<Rightarrow> lcmp \<Rightarrow> ('k, 't) text_checkpoint \<Rightarrow> stored_op list
    \<Rightarrow> text_error + 'n assembler" where
  "assembler_restore C lc saved persisted =
     (if ck_version saved \<noteq> 1 then Inl (JsError ''unsupported Glial text checkpoint'')
      else if \<not> checkpoint_matches (ck_history saved) persisted
      then Inl (JsError ''checkpoint does not match persisted operation history'')
      else
        rbind (cn_restore C (ck_node saved)) (\<lambda>n.
        rbind (cn_restore_text C (ck_text saved) n) (\<lambda>node.
          let a = (assembler_new C)\<lparr>ta_node := node, ta_history := history_map (ck_history saved),
                ta_bases := foldl (\<lambda>m (k, v). jm_set k v m) [] (ck_bases saved),
                ta_referenced := foldl (\<lambda>s x. js_add x s) [] (ck_referenced saved),
                ta_diagnostics := foldl (\<lambda>s x. js_add x s) [] (ck_diagnostics saved),
                ta_atoms := foldl (\<lambda>m (k, v). jm_set k v m) [] (ck_atoms saved),
                ta_deleted := foldl (\<lambda>s x. js_add x s) [] (ck_deleted saved),
                ta_revision := cn_revision C node\<rparr>
          in case assembler_apply C lc (filter (\<lambda>op. jm_get (ta_history a) (op_id op) = None) persisted) a of
               (_, Some e) \<Rightarrow> Inl e
             | (a', None) \<Rightarrow> Inr a')))"

subsection \<open>Replaying a history\<close>

fun replay :: "('n, 'k, 't) crdt_if \<Rightarrow> lcmp \<Rightarrow> (jstr \<times> int) list \<Rightarrow> stored_op list \<Rightarrow> 'n \<times> jstr list \<Rightarrow> text_error + 'n \<times> jstr list" where
  "replay C lc bases [] st = Inr st"
| "replay C lc bases (op # ops) (node, diags) =
     rbind (crdt_op_of lc bases op) (\<lambda>c.
       replay C lc bases ops (fst (cn_apply C c node), add_diagnostics diags (snd (cn_apply C c node))))"

lemma replay_append: "replay C lc bases (xs @ ys) st = rbind (replay C lc bases xs st) (replay C lc bases ys)"
proof (induction xs arbitrary: st)
  case (Cons op xs)
  then show ?case by (cases st; cases "crdt_op_of lc bases op") auto
qed simp

definition add_base :: "(jstr \<times> int) list \<Rightarrow> stored_op \<Rightarrow> (jstr \<times> int) list" where
  "add_base bases op = (case jm_get bases (op_origin op) of
              None \<Rightarrow> jm_set (op_origin op) (op_seq op) bases
            | Some base \<Rightarrow> if op_seq op < base then jm_set (op_origin op) (op_seq op) bases else bases)"

text \<open>What \<open>collect_fresh\<close> keeps: the first operation of each identity that is not in the history.\<close>

lemma collect_fresh_landed:
  assumes "fst ` set history = op_id ` set hist" "set seen = op_id ` set new"
  shows "collect_fresh history seen bases ops =
    (landed (hist @ new) ops, foldl add_base bases (landed (hist @ new) ops))"
  using assms
proof (induction ops arbitrary: seen bases new)
  case (Cons op ops)
  have held: "jm_get history (op_id op) \<noteq> None \<or> op_id op \<in> set seen \<longleftrightarrow> op_id op \<in> op_id ` set (hist @ new)"
    using Cons.prems by (auto simp: map_of_eq_None_iff image_Un)
  show ?case
  proof (cases "op_id op \<in> op_id ` set (hist @ new)")
    case True
    with Cons held show ?thesis by simp
  next
    case False
    have "collect_fresh history (js_add (op_id op) seen) (add_base bases op) ops =
      (landed (hist @ (new @ [op])) ops, foldl add_base (add_base bases op) (landed (hist @ (new @ [op])) ops))"
      using Cons.prems by (intro Cons.IH) auto
    moreover have "collect_fresh history seen bases (op # ops) =
        (let (fresh, b) = collect_fresh history (js_add (op_id op) seen) (add_base bases op) ops in (op # fresh, b))"
      unfolding add_base_def using held False by (simp add: Let_def)
    ultimately show ?thesis using False by simp
  qed
qed simp

definition base_or_zero :: "(jstr \<times> int) list \<Rightarrow> jstr \<Rightarrow> int" where
  "base_or_zero bases origin = (case jm_get bases origin of None \<Rightarrow> 0 | Some b \<Rightarrow> b)"

definition op_origins :: "stored_op \<Rightarrow> jstr set" where
  "op_origins op = insert (op_origin op) (head_origin ` set (refs_of op))"

lemma crdt_clock_from_cong:
  "\<forall>r \<in> set rs. base_or_zero b (head_origin r) = base_or_zero b' (head_origin r) \<Longrightarrow>
   crdt_clock_from b m rs = crdt_clock_from b' m rs"
  by (induction rs arbitrary: m) (simp_all add: crdt_sequence_def base_or_zero_def)

lemma crdt_op_of_cong:
  assumes "\<forall>o' \<in> op_origins op. base_or_zero b o' = base_or_zero b' o'"
  shows "crdt_op_of lc b op = crdt_op_of lc b' op"
proof -
  have "crdt_clock lc op b = crdt_clock lc op b'"
    using assms crdt_clock_from_cong [of "refs_of op" b b' "[]"]
    by (simp add: crdt_clock_def op_origins_def refs_of_def)
  moreover have "crdt_sequence (op_origin op) s b = crdt_sequence (op_origin op) s b'" for s
    using assms by (simp add: crdt_sequence_def op_origins_def base_or_zero_def)
  ultimately show ?thesis by (simp add: crdt_op_of_def)
qed

lemma replay_cong:
  "\<forall>op \<in> set ops. \<forall>o' \<in> op_origins op. base_or_zero b o' = base_or_zero b' o' \<Longrightarrow>
   replay C lc b ops st = replay C lc b' ops st"
proof (induction ops arbitrary: st)
  case (Cons op ops)
  then show ?case using crdt_op_of_cong [of op b b' lc] by (cases st) simp
qed simp

lemma validate_refs_None: "validate_refs rs = None \<longleftrightarrow> (\<forall>r \<in> set rs. is_safe_integer (head_seq r) \<and> 0 \<le> head_seq r)"
  by (induction rs) (auto simp: checked_sequence_def)

lemma validate_op_None: "validate_op op = None \<longleftrightarrow> (\<exists>e. decode_text_edit (op_payload op) = Inr e)
    \<and> is_safe_integer (op_seq op) \<and> 0 \<le> op_seq op
    \<and> (\<forall>r \<in> set (refs_of op). is_safe_integer (head_seq r) \<and> 0 \<le> head_seq r)"
  by (auto simp: validate_op_def checked_sequence_def validate_refs_None split: sum.splits)

lemma crdt_clock_from_total:
  "\<forall>r \<in> set rs. is_safe_integer (head_seq r) \<and> 0 \<le> head_seq r \<Longrightarrow> \<exists>m'. crdt_clock_from b m rs = Inr m'"
  by (induction rs arbitrary: m) (simp_all add: crdt_sequence_def checked_sequence_def)

lemma crdt_op_of_total:
  assumes "validate_op op = None"
  shows "\<exists>c. crdt_op_of lc b op = Inr c"
proof -
  have "\<exists>m. crdt_clock_from b [] (refs_of op) = Inr m"
    using assms by (intro crdt_clock_from_total) (simp add: validate_op_None)
  then show ?thesis
    using assms by (auto simp: crdt_op_of_def crdt_clock_def refs_of_def validate_op_None crdt_sequence_def checked_sequence_def)
qed

lemma replay_total: "\<forall>op \<in> set ops. validate_op op = None \<Longrightarrow> \<exists>st'. replay C lc b ops st = Inr st'"
proof (induction ops arbitrary: st)
  case (Cons op ops)
  then obtain c where "crdt_op_of lc b op = Inr c" using crdt_op_of_total [of op lc b] by auto
  with Cons show ?case by (cases st) simp
qed simp

lemma feed_replay:
  "replay C lc (ta_bases a) ops (ta_node a, ta_diagnostics a) = Inr (n, d) \<Longrightarrow>
   feed C lc ops a = (a\<lparr>ta_node := n, ta_diagnostics := d, ta_applied := ta_applied a + int (length ops)\<rparr>, None)"
proof (induction ops arbitrary: a)
  case (Cons op ops)
  then obtain c where c: "crdt_op_of lc (ta_bases a) op = Inr c" by (auto simp: rbind_Inr_iff)
  let ?a = "a\<lparr>ta_applied := ta_applied a + 1, ta_node := fst (cn_apply C c (ta_node a)),
     ta_diagnostics := add_diagnostics (ta_diagnostics a) (snd (cn_apply C c (ta_node a)))\<rparr>"
  have "feed C lc (op # ops) a = feed C lc ops ?a" by (simp add: c split: prod.split)
  also have "\<dots> = (?a\<lparr>ta_node := n, ta_diagnostics := d, ta_applied := ta_applied ?a + int (length ops)\<rparr>, None)"
    using Cons.prems c by (intro Cons.IH) simp
  finally show ?case by simp
qed simp

subsection \<open>The assembler's node is the replay of its history\<close>

definition asm_inv :: "('n, 'k, 't) crdt_if \<Rightarrow> lcmp \<Rightarrow> stored_op list \<Rightarrow> 'n assembler \<Rightarrow> bool" where
  "asm_inv C lc hist a \<longleftrightarrow>
     ta_history a = map (\<lambda>op. (op_id op, op)) hist \<and> distinct (map op_id hist)
     \<and> (\<forall>op \<in> set hist. validate_op op = None)
     \<and> ta_bases a = foldl add_base [] hist
     \<and> set (ta_referenced a) = (\<Union>op \<in> set hist. head_origin ` set (refs_of op))
     \<and> replay C lc (ta_bases a) hist (cn_new C max_safe_integer, []) = Inr (ta_node a, ta_diagnostics a)"

lemma asm_inv_new: "asm_inv C lc [] (assembler_new C)"
  by (simp add: asm_inv_def assembler_new_def)

lemma validate_new_state: "\<exists>n. fst (validate_new ops a) = a\<lparr>ta_validated := n\<rparr>"
proof (induction ops arbitrary: a)
  case Nil
  show ?case by (intro exI [of _ "ta_validated a"]) simp
next
  case (Cons op ops)
  have "\<exists>n. fst (validate_new ops (a\<lparr>ta_validated := k\<rparr>)) = a\<lparr>ta_validated := n\<rparr>" for k
    using Cons.IH [of "a\<lparr>ta_validated := k\<rparr>"] by simp
  with Cons.IH [of a] show ?case by (auto simp: Let_def split: option.split)
qed

lemma validate_new_ok:
  "snd (validate_new ops a) = None \<Longrightarrow>
   \<forall>op \<in> set ops. jm_get (ta_history a) (op_id op) = None \<longrightarrow> validate_op op = None"
  by (induction ops a rule: validate_new.induct) (auto simp: Let_def split: if_splits option.splits)

lemma validate_new_error: "snd (validate_new ops a) = Some e \<Longrightarrow> \<exists>op \<in> set ops. validate_op op = Some e"
  by (induction ops a rule: validate_new.induct) (auto simp: Let_def split: if_splits option.splits)

lemma record_fresh_fields:
  "ta_history a = map (\<lambda>op. (op_id op, op)) hist \<Longrightarrow> distinct (map op_id (hist @ ops)) \<Longrightarrow>
   \<exists>refs. record_fresh ops a = a\<lparr>ta_history := map (\<lambda>op. (op_id op, op)) (hist @ ops), ta_referenced := refs\<rparr>
     \<and> set refs = set (ta_referenced a) \<union> (\<Union>op \<in> set ops. head_origin ` set (refs_of op))"
proof (induction ops arbitrary: a hist)
  case Nil
  then show ?case by (intro exI [of _ "ta_referenced a"]) simp
next
  case (Cons op ops)
  have refs: "set (foldl (\<lambda>rs r. js_add (head_origin r) rs) xs rs) = set xs \<union> head_origin ` set rs" for xs rs
    by (induction rs arbitrary: xs) auto
  have fresh: "jm_get (ta_history a) (op_id op) = None"
    using Cons.prems by (auto simp: map_of_eq_None_iff)
  let ?a = "a\<lparr>ta_history := jm_set (op_id op) op (ta_history a),
      ta_referenced := foldl (\<lambda>rs r. js_add (head_origin r) rs) (ta_referenced a) (refs_of op)\<rparr>"
  have "ta_history ?a = map (\<lambda>op. (op_id op, op)) (hist @ [op])"
    using Cons.prems(1) fresh by (simp add: jm_set_fresh)
  then obtain rs where "record_fresh ops ?a = ?a\<lparr>ta_history := map (\<lambda>op. (op_id op, op)) ((hist @ [op]) @ ops), ta_referenced := rs\<rparr>"
    "set rs = set (ta_referenced ?a) \<union> (\<Union>op \<in> set ops. head_origin ` set (refs_of op))"
    using Cons.IH [of ?a "hist @ [op]"] Cons.prems(2) by auto
  then show ?case by (intro exI [of _ rs]) (auto simp: refs)
qed

lemma add_base_distinct: "distinct (jm_keys b) \<Longrightarrow> distinct (jm_keys (add_base b op))"
  by (auto simp: add_base_def distinct_update split: option.split)

lemma add_bases_distinct: "distinct (jm_keys b) \<Longrightarrow> distinct (jm_keys (foldl add_base b ops))"
  by (induction ops arbitrary: b) (auto simp: add_base_distinct)

lemma add_base_get: "jm_get (add_base b op) o' = (if o' = op_origin op
    then Some (case jm_get b o' of None \<Rightarrow> op_seq op | Some n \<Rightarrow> min n (op_seq op)) else jm_get b o')"
  by (auto simp: add_base_def jm_get_set split: option.split)

lemma add_bases_dom: "dom (jm_get (foldl add_base b ops)) = dom (jm_get b) \<union> op_origin ` set ops"
proof (induction ops arbitrary: b)
  case (Cons op ops)
  have "dom (jm_get (add_base b op)) = insert (op_origin op) (dom (jm_get b))"
    by (auto simp: add_base_get split: if_splits)
  with Cons show ?case by auto
qed simp

lemma no_rebase_same:
  assumes "\<not> needs_rebase old referenced (foldl add_base old ops)" "distinct (jm_keys old)"
    and "o' \<in> dom (jm_get old) \<or> o' \<in> set referenced"
  shows "base_or_zero old o' = base_or_zero (foldl add_base old ops) o'"
proof (cases "jm_get (foldl add_base old ops) o'")
  case None
  then have "jm_get old o' = None" using add_bases_dom [of old ops] by (metis Un_iff domIff)
  with None show ?thesis by (simp add: base_or_zero_def)
next
  case (Some b)
  then have "(o', b) \<in> set (foldl add_base old ops)" by (rule jm_get_in)
  with assms(1) have "case jm_get old o' of Some x \<Rightarrow> x = b | None \<Rightarrow> \<not> (o' \<in> set referenced \<and> b \<noteq> 0)"
    by (force simp: needs_rebase_def list_ex_iff split: option.splits)
  with Some assms(3) show ?thesis by (auto simp: base_or_zero_def split: option.splits)
qed

lemma asm_inv_frame: "asm_inv C lc hist a \<Longrightarrow>
    asm_inv C lc hist (a\<lparr>ta_validated := n\<rparr>) \<and> asm_inv C lc hist (a\<lparr>ta_value := v\<rparr>)
      \<and> asm_inv C lc hist (a\<lparr>ta_atoms := x, ta_deleted := y\<rparr>) \<and> asm_inv C lc hist (a\<lparr>ta_revision := r\<rparr>)"
  by (auto simp: asm_inv_def)

lemma replay_extend:
  assumes inv: "asm_inv C lc hist a" and ok: "\<forall>op \<in> set new. validate_op op = None"
    and stay: "\<not> needs_rebase (ta_bases a) (ta_referenced a) (foldl add_base (ta_bases a) new)"
  shows "replay C lc (foldl add_base (ta_bases a) new) (hist @ new) (cn_new C max_safe_integer, [])
    = replay C lc (foldl add_base (ta_bases a) new) new (ta_node a, ta_diagnostics a)"
proof -
  have b: "ta_bases a = foldl add_base [] hist"
    and r: "set (ta_referenced a) = (\<Union>op \<in> set hist. head_origin ` set (refs_of op))"
    and rp: "replay C lc (ta_bases a) hist (cn_new C max_safe_integer, []) = Inr (ta_node a, ta_diagnostics a)"
    using inv unfolding asm_inv_def by blast+
  have "dom (jm_get (ta_bases a)) = op_origin ` set hist" unfolding b using add_bases_dom [of "[]" hist] by simp
  then have "o' \<in> dom (jm_get (ta_bases a)) \<or> o' \<in> set (ta_referenced a)"
    if "op \<in> set hist" "o' \<in> op_origins op" for op o'
    using that r by (auto simp: op_origins_def)
  moreover have "distinct (jm_keys (ta_bases a))" unfolding b by (simp add: add_bases_distinct)
  ultimately have "replay C lc (foldl add_base (ta_bases a) new) hist (cn_new C max_safe_integer, [])
      = replay C lc (ta_bases a) hist (cn_new C max_safe_integer, [])"
    using no_rebase_same [OF stay] by (intro replay_cong) (metis (no_types))
  with rp show ?thesis by (simp add: replay_append)
qed

lemma assembler_apply_inv:
  assumes inv: "asm_inv C lc hist a" and ok: "snd (validate_new ops a) = None"
  shows "\<exists>a'. assembler_apply C lc ops a = (a', None) \<and> asm_inv C lc (hist @ landed hist ops) a'"
proof -
  let ?new = "landed hist ops"
  obtain n where n: "fst (validate_new ops a) = a\<lparr>ta_validated := n\<rparr>" using validate_new_state by blast
  define a1 where "a1 = a\<lparr>ta_validated := n\<rparr>"
  have v: "validate_new ops a = (a1, None)" using n ok by (simp add: a1_def prod_eq_iff)
  have i1: "asm_inv C lc hist a1" using asm_inv_frame [OF inv] by (simp add: a1_def)
  have h: "ta_history a1 = map (\<lambda>op. (op_id op, op)) hist" and d: "distinct (map op_id hist)"
    and b: "ta_bases a1 = foldl add_base [] hist" using i1 by (simp_all add: asm_inv_def)
  have cf: "collect_fresh (ta_history a1) [] (ta_bases a1) ops = (?new, foldl add_base (ta_bases a1) ?new)"
    using collect_fresh_landed [of "ta_history a1" hist "[]" "[]" "ta_bases a1" ops]
    by (simp add: h image_image)
  have new: "\<forall>op \<in> set ?new. validate_op op = None"
  proof
    fix op assume op: "op \<in> set ?new"
    then have "op \<in> set ops" "op_id op \<notin> op_id ` set hist"
      using landed_subset [of hist ops] landed_not_held by blast+
    then have "jm_get (ta_history a) (op_id op) = None"
      using inv by (auto simp: asm_inv_def map_of_eq_None_iff)
    then show "validate_op op = None" using validate_new_ok [OF ok] \<open>op \<in> set ops\<close> by blast
  qed
  show ?thesis
  proof (cases "?new = []")
    case True
    then show ?thesis using i1 by (simp add: assembler_apply_def v cf)
  next
    case False
    let ?bases = "foldl add_base (ta_bases a1) ?new"
    obtain refs where rec: "record_fresh ?new a1 = a1\<lparr>ta_history := map (\<lambda>op. (op_id op, op)) (hist @ ?new), ta_referenced := refs\<rparr>"
      and refs: "set refs = set (ta_referenced a1) \<union> (\<Union>op \<in> set ?new. head_origin ` set (refs_of op))"
      using record_fresh_fields [OF h] landed_distinct [OF d, of ops] by blast
    define a2 where "a2 = (record_fresh ?new a1)\<lparr>ta_bases := ?bases\<rparr>"
    let ?re = "needs_rebase (ta_bases a1) (ta_referenced a1) ?bases"
    define a3 where "a3 = (if ?re then reset_engine C a2 else a2)"
    let ?todo = "if ?re then map snd (ta_history a3) else ?new"
    have a3: "ta_history a3 = map (\<lambda>op. (op_id op, op)) (hist @ ?new)" "ta_bases a3 = ?bases" "ta_referenced a3 = refs"
      by (simp_all add: a3_def a2_def rec reset_engine_def)
    have valid: "\<forall>op \<in> set (hist @ ?new). validate_op op = None" using i1 new by (auto simp: asm_inv_def)
    have "replay C lc ?bases ?todo (ta_node a3, ta_diagnostics a3)
        = replay C lc ?bases (hist @ ?new) (cn_new C max_safe_integer, [])"
    proof (cases ?re)
      case True
      then show ?thesis by (simp add: a3(1) comp_def) (simp add: a3_def reset_engine_def)
    next
      case False
      then have "ta_node a3 = ta_node a1" "ta_diagnostics a3 = ta_diagnostics a1"
        by (simp_all add: a3_def a2_def rec)
      then show ?thesis using replay_extend [OF i1 new False] False by simp
    qed
    moreover obtain nd where nd: "replay C lc ?bases (hist @ ?new) (cn_new C max_safe_integer, []) = Inr nd"
      using replay_total [OF valid] by blast
    ultimately have "replay C lc (ta_bases a3) ?todo (ta_node a3, ta_diagnostics a3) = Inr (fst nd, snd nd)"
      by (simp add: a3(2))
    note feed = feed_replay [OF this]
    have "assembler_apply C lc ops a =
        (a3\<lparr>ta_node := fst nd, ta_diagnostics := snd nd, ta_applied := ta_applied a3 + int (length ?todo), ta_value := None\<rparr>, None)"
      unfolding assembler_apply_def v prod.case option.case cf Let_def
      unfolding a2_def [symmetric] unfolding a3_def [symmetric]
      using False feed by simp
    moreover have "asm_inv C lc (hist @ ?new)
        (a3\<lparr>ta_node := fst nd, ta_diagnostics := snd nd, ta_applied := ta_applied a3 + int (length ?todo), ta_value := None\<rparr>)"
      using valid nd landed_distinct [OF d, of ops] i1 refs
      by (simp add: asm_inv_def a3 b image_Un)
    ultimately show ?thesis by blast
  qed
qed

fun apply_batches :: "('n, 'k, 't) crdt_if \<Rightarrow> lcmp \<Rightarrow> stored_op list list \<Rightarrow> 'n assembler \<Rightarrow> 'n assembler \<times> text_error option" where
  "apply_batches C lc [] a = (a, None)"
| "apply_batches C lc (ops # rest) a =
     (case assembler_apply C lc ops a of
        (a', Some e) \<Rightarrow> (a', Some e)
      | (a', None) \<Rightarrow> apply_batches C lc rest a')"

lemma apply_error_validation:
  assumes inv: "asm_inv C lc hist a" and err: "assembler_apply C lc ops a = (a', Some e)"
  shows "(\<exists>op \<in> set ops. validate_op op = Some e) \<and> (\<exists>n. a' = a\<lparr>ta_validated := n\<rparr>)"
proof -
  have "snd (validate_new ops a) \<noteq> None"
    using assembler_apply_inv [OF inv, of ops] err by auto
  then obtain e' where e': "snd (validate_new ops a) = Some e'" by blast
  obtain a1 where a1: "validate_new ops a = (a1, Some e')" using e' by (metis prod.collapse)
  then have "assembler_apply C lc ops a = (a1, Some e')" by (simp add: assembler_apply_def)
  with err a1 have "a' = fst (validate_new ops a)" "e = e'" by simp_all
  with validate_new_state validate_new_error e' show ?thesis by metis
qed

lemma apply_batches_inv:
  assumes "asm_inv C lc hist a" "apply_batches C lc batches a = (a', None)"
  shows "asm_inv C lc (hist @ landed hist (concat batches)) a'"
  using assms
proof (induction batches arbitrary: hist a)
  case (Cons ops rest)
  then obtain a1 where a1: "assembler_apply C lc ops a = (a1, None)" "apply_batches C lc rest a1 = (a', None)"
    by (auto split: prod.splits option.splits)
  have "snd (validate_new ops a) = None"
    using a1(1) by (auto simp: assembler_apply_def split: prod.splits option.splits)
  from assembler_apply_inv [OF Cons.prems(1) this] have "asm_inv C lc (hist @ landed hist ops) a1"
    using a1(1) by auto
  from Cons.IH [OF this a1(2)] show ?case by (simp add: landed_append)
qed simp

subsection \<open>Checkpoints\<close>

lemma foldl_js_add_id: "distinct (xs @ ys) \<Longrightarrow> foldl (\<lambda>s x. js_add x s) xs ys = xs @ ys"
  by (induction ys arbitrary: xs) (auto simp: js_add_def)

lemma foldl_js_add_set: "set (foldl (\<lambda>s x. js_add x s) xs ys) = set xs \<union> set ys"
  by (induction ys arbitrary: xs) auto

lemma foldl_jm_set_id: "distinct (jm_keys (xs @ ys)) \<Longrightarrow> foldl (\<lambda>m (k, v). jm_set k v m) xs ys = xs @ ys"
proof (induction ys arbitrary: xs)
  case (Cons y ys)
  then have "jm_get xs (fst y) = None" by (auto simp: map_of_eq_None_iff)
  then have "jm_set (fst y) (snd y) xs = xs @ [y]" by (simp add: jm_set_fresh)
  with Cons show ?case by (cases y) simp
qed simp

lemma history_map_id: "distinct (map op_id ops) \<Longrightarrow> history_map ops = map (\<lambda>op. (op_id op, op)) ops"
proof -
  assume d: "distinct (map op_id ops)"
  have "history_map ops = foldl (\<lambda>m (k, v). jm_set k v m) [] (map (\<lambda>op. (op_id op, op)) ops)"
    by (simp add: history_map_def foldl_map)
  also have "\<dots> = map (\<lambda>op. (op_id op, op)) ops"
    using d foldl_jm_set_id [of "[]" "map (\<lambda>op. (op_id op, op)) ops"] by (simp add: comp_def)
  finally show ?thesis .
qed

lemma add_diagnostics_distinct: "distinct ds \<Longrightarrow> distinct (add_diagnostics ds outs)"
  by (induction ds outs rule: add_diagnostics.induct) auto

lemma replay_diagnostics_distinct: "replay C lc b ops st = Inr (n, d) \<Longrightarrow> distinct (snd st) \<Longrightarrow> distinct d"
proof (induction ops arbitrary: st)
  case (Cons op ops)
  then show ?case by (cases st) (auto simp: rbind_Inr_iff add_diagnostics_distinct)
qed auto

lemma landed_filter_held: "set (map op_id held) \<subseteq> op_id ` set held' \<Longrightarrow>
    landed held' (filter (\<lambda>op. op_id op \<notin> op_id ` set held) ops) = landed held' ops"
  by (induction held' ops rule: landed.induct) auto

lemma assembler_state_frame:
  assumes "assembler_state C lc a = (a', r)"
  shows "ta_history a' = ta_history a \<and> ta_bases a' = ta_bases a \<and> ta_referenced a' = ta_referenced a
    \<and> ta_node a' = ta_node a \<and> ta_diagnostics a' = ta_diagnostics a"
  using assms by (auto simp: assembler_state_def Let_def split: option.splits prod.splits sum.splits)

lemma asm_inv_cong:
  assumes "asm_inv C lc hist a" "ta_history b = ta_history a" "ta_bases b = ta_bases a"
    "set (ta_referenced b) = set (ta_referenced a)" "ta_node b = ta_node a" "ta_diagnostics b = ta_diagnostics a"
  shows "asm_inv C lc hist b"
  using assms(1) unfolding asm_inv_def assms(2-) .

lemma assembler_state_inv: "asm_inv C lc hist a \<Longrightarrow> assembler_state C lc a = (a', r) \<Longrightarrow> asm_inv C lc hist a'"
  using assembler_state_frame by (metis asm_inv_cong)

text \<open>The law of the node's checkpoints: restoring both parts of a checkpoint gives the node.\<close>

definition checkpoints_faithful :: "('n, 'k, 't) crdt_if \<Rightarrow> bool" where
  "checkpoints_faithful C \<longleftrightarrow>
     (\<forall>n. rbind (cn_restore C (cn_checkpoint C n)) (cn_restore_text C (cn_checkpoint_text C n)) = Inr n)"

lemma restore_inv:
  assumes inv: "asm_inv C lc hist a" and ck: "assembler_checkpoint C lc a = (a1, Inr saved)"
    and law: "checkpoints_faithful C" and match: "checkpoint_matches hist persisted"
    and ok: "\<forall>op \<in> set persisted. validate_op op = None"
  shows "\<exists>a'. assembler_restore C lc saved persisted = Inr a' \<and> asm_inv C lc (hist @ landed hist persisted) a'"
proof -
  have i1: "asm_inv C lc hist a1"
    using inv ck by (auto simp: assembler_checkpoint_def dest: assembler_state_inv split: prod.splits sum.splits)
  then have h: "map snd (ta_history a1) = hist" and d: "distinct (map op_id hist)"
    and b: "ta_bases a1 = foldl add_base [] hist"
    and rp: "replay C lc (ta_bases a1) hist (cn_new C max_safe_integer, []) = Inr (ta_node a1, ta_diagnostics a1)"
    unfolding asm_inv_def by (auto simp: comp_def)
  have sv: "ck_version saved = 1" "ck_history saved = hist" "ck_bases saved = ta_bases a1"
    "ck_node saved = cn_checkpoint C (ta_node a1)" "ck_text saved = cn_checkpoint_text C (ta_node a1)"
    "ck_referenced saved = ta_referenced a1" "ck_diagnostics saved = ta_diagnostics a1"
    using ck h by (auto simp: assembler_checkpoint_def split: prod.splits sum.splits)
  define a2 where "a2 = (assembler_new C)\<lparr>ta_node := ta_node a1, ta_history := history_map hist,
                ta_bases := foldl (\<lambda>m (k, v). jm_set k v m) [] (ta_bases a1),
                ta_referenced := foldl (\<lambda>s x. js_add x s) [] (ta_referenced a1),
                ta_diagnostics := foldl (\<lambda>s x. js_add x s) [] (ta_diagnostics a1),
                ta_atoms := foldl (\<lambda>m (k, v). jm_set k v m) [] (ck_atoms saved),
                ta_deleted := foldl (\<lambda>s x. js_add x s) [] (ck_deleted saved),
                ta_revision := cn_revision C (ta_node a1)\<rparr>"
  let ?todo = "filter (\<lambda>op. jm_get (ta_history a2) (op_id op) = None) persisted"
  have hist2: "ta_history a2 = map (\<lambda>op. (op_id op, op)) hist" by (simp add: a2_def history_map_id [OF d])
  have "distinct (ta_diagnostics a1)" using replay_diagnostics_distinct [OF rp] by simp
  then have "ta_diagnostics a2 = ta_diagnostics a1" using foldl_js_add_id [of "[]"] by (simp add: a2_def)
  moreover have "ta_bases a2 = ta_bases a1"
    using foldl_jm_set_id [of "[]" "ta_bases a1"] add_bases_distinct [of "[]" hist] by (simp add: a2_def b)
  moreover have "set (ta_referenced a2) = set (ta_referenced a1)" "ta_node a2 = ta_node a1"
    by (simp_all add: a2_def foldl_js_add_set)
  moreover have "ta_history a2 = ta_history a1" using i1 hist2 by (simp add: asm_inv_def)
  ultimately have i2: "asm_inv C lc hist a2" using asm_inv_cong [OF i1] by blast
  have todo: "?todo = filter (\<lambda>op. op_id op \<notin> op_id ` set hist) persisted"
    by (auto simp: hist2 map_of_eq_None_iff image_image intro!: filter_cong)
  have "snd (validate_new ?todo a2) = None"
    using validate_new_error [of ?todo a2] ok by (cases "snd (validate_new ?todo a2)") auto
  then obtain a' where a': "assembler_apply C lc ?todo a2 = (a', None)" "asm_inv C lc (hist @ landed hist ?todo) a'"
    using assembler_apply_inv [OF i2] by blast
  have "landed hist ?todo = landed hist persisted" unfolding todo by (rule landed_filter_held) simp
  moreover obtain m where "cn_restore C (ck_node saved) = Inr m" "cn_restore_text C (ck_text saved) m = Inr (ta_node a1)"
    using law [unfolded checkpoints_faithful_def, rule_format, of "ta_node a1"] by (auto simp: rbind_Inr_iff sv)
  then have "assembler_restore C lc saved persisted = Inr a'"
    unfolding assembler_restore_def using match a'(1) [unfolded hist2 history_map_id [OF d, symmetric]] by (simp add: sv Let_def flip: a2_def)
  ultimately show ?thesis using a'(2) by simp
qed

subsection \<open>A small run\<close>

definition sample_op :: "int \<Rightarrow> bytes \<Rightarrow> stored_op" where
  "sample_op seq payload = \<lparr>op_origin = [120], op_seq = seq, op_lamport = seq, op_prev = None, op_refs = None,
     op_payload = payload, op_share = None, op_glade_id = None, op_key = None\<rparr>"

lemma sample_op_simps [simp]:
  "op_id (sample_op s p) = ([120], s)" "op_origin (sample_op s p) = [120]" "op_seq (sample_op s p) = s"
  "op_payload (sample_op s p) = p" "refs_of (sample_op s p) = []" "op_refs (sample_op s p) = None"
  by (simp_all add: sample_op_def op_id_def refs_of_def)

lemma sample_valid: "is_safe_integer s \<Longrightarrow> 0 \<le> s \<Longrightarrow> validate_op (sample_op s sample_delete) = None"
  by (simp add: validate_op_None decode_sample_delete)

lemma safe_numeral: "is_safe_integer 1" "is_safe_integer 3" "is_safe_integer 5"
  by (simp_all add: is_safe_integer_def max_safe_integer_def)

definition sample_node :: "(crdt_op list, crdt_op list, unit) crdt_if" where
  "sample_node = list_node []"

lemma sample_node_faithful: "checkpoints_faithful sample_node"
  by (simp add: checkpoints_faithful_def sample_node_def list_node_def)

text \<open>Two deliveries; the second brings a lower sequence number, so the engine starts again.\<close>

lemma sample_run: "\<exists>a. apply_batches sample_node (\<lambda>_ _. 0)
    [[sample_op 5 sample_delete], [sample_op 3 sample_delete]] (assembler_new sample_node) = (a, None)
  \<and> ta_rebases a = 1 \<and> map co_seq (ta_node a) = [3, 1] \<and> ta_atoms a = []"
  by (simp add: assembler_apply_def assembler_new_def sample_valid safe_numeral same_content_def Let_def
      needs_rebase_def reset_engine_def crdt_op_of_def crdt_sequence_def checked_sequence_def crdt_clock_def
      sample_node_def list_node_def)

lemma sample_run_once: "apply_batches sample_node (\<lambda>_ _. 0) [[sample_op 3 sample_delete]] (assembler_new sample_node)
    = ((assembler_new sample_node)\<lparr>ta_node := [\<lparr>co_origin = [120], co_seq = 1, co_deps = [], co_payload = sample_delete\<rparr>],
         ta_history := [(([120], 3), sample_op 3 sample_delete)], ta_bases := [([120], 3)],
         ta_applied := 1, ta_validated := 1\<rparr>, None)"
  by (simp add: assembler_apply_def assembler_new_def sample_valid safe_numeral same_content_def Let_def
      needs_rebase_def reset_engine_def crdt_op_of_def crdt_sequence_def checked_sequence_def crdt_clock_def
      sample_node_def list_node_def)

lemma sample_checkpoint: "\<exists>a1 saved. assembler_checkpoint sample_node (\<lambda>_ _. 0)
    (fst (apply_batches sample_node (\<lambda>_ _. 0) [[sample_op 3 sample_delete]] (assembler_new sample_node))) = (a1, Inr saved)
  \<and> ck_history saved = [sample_op 3 sample_delete]"
  unfolding sample_run_once
  by (simp add: assembler_checkpoint_def assembler_state_def project_identity_def assembler_new_def decode_sample_delete
      walk_forest_def children_of_def sort_siblings_def Let_def sample_node_def list_node_def)

subsection \<open>Properties\<close>

text \<open>C6. The retained engine is the replay of its history. After any deliveries, in whatever
  batches, with duplicates and late lower sequence numbers, the node and the delivery
  diagnostics are what a fresh node gives when it is fed the accepted operations once each,
  in order of arrival, under the final normalisation. The engine starts again exactly when
  that is needed for this to hold.\<close>

theorem assembler_is_replay:
  assumes "apply_batches C lc batches (assembler_new C) = (a, None)"
  shows "map snd (ta_history a) = landed [] (concat batches)
    \<and> ta_bases a = foldl add_base [] (landed [] (concat batches))
    \<and> replay C lc (ta_bases a) (landed [] (concat batches)) (cn_new C max_safe_integer, [])
        = Inr (ta_node a, ta_diagnostics a)"
  using apply_batches_inv [OF asm_inv_new assms] by (auto simp: asm_inv_def comp_def)

theorem assembler_is_replay_witness:
  "\<exists>a :: crdt_op list assembler. map snd (ta_history a) = [sample_op 5 sample_delete, sample_op 3 sample_delete]
     \<and> replay sample_node (\<lambda>_ _. 0) (ta_bases a) [sample_op 5 sample_delete, sample_op 3 sample_delete]
         (cn_new sample_node max_safe_integer, []) = Inr (ta_node a, ta_diagnostics a)"
proof -
  obtain a where a: "apply_batches sample_node (\<lambda>_ _. 0)
      [[sample_op 5 sample_delete], [sample_op 3 sample_delete]] (assembler_new sample_node) = (a, None)"
    using sample_run by blast
  have "landed [] (concat [[sample_op 5 sample_delete], [sample_op 3 sample_delete]])
      = [sample_op 5 sample_delete, sample_op 3 sample_delete]" by simp
  note run = assembler_is_replay [OF a, unfolded this]
  show ?thesis
  proof (rule exI [of _ a], rule conjI)
    show "map snd (ta_history a) = [sample_op 5 sample_delete, sample_op 3 sample_delete]" using run by (rule conjunct1)
    show "replay sample_node (\<lambda>_ _. 0) (ta_bases a) [sample_op 5 sample_delete, sample_op 3 sample_delete]
         (cn_new sample_node max_safe_integer, []) = Inr (ta_node a, ta_diagnostics a)"
      using run by (elim conjE)
  qed
qed

text \<open>C34. A delivery is accepted whole or not at all: when \<open>apply\<close> throws, one of the delivered
  operations is invalid with that error, and nothing of the engine has changed but the count
  of validated operations.\<close>

theorem assembler_apply_atomic:
  assumes "apply_batches C lc batches (assembler_new C) = (a, None)"
    and "assembler_apply C lc ops a = (a', Some e)"
  shows "(\<exists>op \<in> set ops. validate_op op = Some e) \<and> (\<exists>n. a' = a\<lparr>ta_validated := n\<rparr>)"
  using apply_error_validation [OF apply_batches_inv [OF asm_inv_new assms(1)] assms(2)] .

theorem assembler_apply_atomic_witness:
  "validate_op (sample_op 5 []) = Some (TextCrdtError ''text_crdt payload must be canonical UTF-8 JSON'')"
proof -
  let ?e = "TextCrdtError ''text_crdt payload must be canonical UTF-8 JSON''"
  have run: "apply_batches sample_node (\<lambda>_ _. 0) [] (assembler_new sample_node) = (assembler_new sample_node, None)" by simp
  have err: "assembler_apply sample_node (\<lambda>_ _. 0) [sample_op 5 []] (assembler_new sample_node)
      = ((assembler_new sample_node)\<lparr>ta_validated := 1\<rparr>, Some ?e)"
    by (simp add: assembler_apply_def assembler_new_def validate_op_def decode_empty)
  from assembler_apply_atomic [OF run err] show ?thesis by simp
qed

text \<open>C33. Recovery from a checkpoint loses nothing: restoring a checkpoint of the engine
  against a store that holds the same operations and perhaps more gives an engine whose node
  is again the replay of the whole history, the additional operations included. The node's own
  checkpoints must restore the node.\<close>

theorem assembler_restore_resumes:
  assumes "apply_batches C lc batches (assembler_new C) = (a, None)"
    and "assembler_checkpoint C lc a = (a1, Inr saved)"
    and "checkpoints_faithful C" "checkpoint_matches (ck_history saved) persisted"
    and "\<forall>op \<in> set persisted. validate_op op = None"
  shows "\<exists>a' hist. assembler_restore C lc saved persisted = Inr a'
    \<and> hist = landed [] (concat batches @ persisted) \<and> map snd (ta_history a') = hist
    \<and> replay C lc (foldl add_base [] hist) hist (cn_new C max_safe_integer, []) = Inr (ta_node a', ta_diagnostics a')"
proof -
  let ?hist = "landed [] (concat batches)"
  have inv: "asm_inv C lc ?hist a" using apply_batches_inv [OF asm_inv_new assms(1)] by simp
  have "ck_history saved = ?hist"
    using assms(2) inv assembler_state_frame [of C lc a]
    by (auto simp: assembler_checkpoint_def asm_inv_def comp_def split: prod.splits sum.splits)
  with restore_inv [OF inv assms(2,3) _ assms(5)] assms(4) show ?thesis
    by (auto simp: asm_inv_def comp_def landed_append)
qed

theorem assembler_restore_resumes_witness:
  "\<exists>saved a'. assembler_restore sample_node (\<lambda>_ _. 0) saved [sample_op 5 sample_delete, sample_op 3 sample_delete] = Inr a'
     \<and> map snd (ta_history a') = [sample_op 3 sample_delete, sample_op 5 sample_delete]"
proof -
  obtain a1 saved where ck: "assembler_checkpoint sample_node (\<lambda>_ _. 0)
      (fst (apply_batches sample_node (\<lambda>_ _. 0) [[sample_op 3 sample_delete]] (assembler_new sample_node))) = (a1, Inr saved)"
    and h: "ck_history saved = [sample_op 3 sample_delete]" using sample_checkpoint by blast
  have "checkpoint_matches (ck_history saved) [sample_op 5 sample_delete, sample_op 3 sample_delete]"
    by (simp add: h checkpoint_matches_def history_map_def same_content_def)
  moreover have "\<forall>op \<in> set [sample_op 5 sample_delete, sample_op 3 sample_delete]. validate_op op = None"
    by (simp add: sample_valid safe_numeral)
  ultimately obtain a' where a': "assembler_restore sample_node (\<lambda>_ _. 0) saved
      [sample_op 5 sample_delete, sample_op 3 sample_delete] = Inr a'"
    "map snd (ta_history a') = landed [] (concat [[sample_op 3 sample_delete]] @ [sample_op 5 sample_delete, sample_op 3 sample_delete])"
    using assembler_restore_resumes [OF sample_run_once ck [unfolded sample_run_once fst_conv] sample_node_faithful]
    by blast
  then show ?thesis by (intro exI [of _ saved] exI [of _ a']) simp
qed

end
