(* ===== verification/Swmr.thy ===== *)
theory Swmr
  imports Store Bytes
begin

text \<open>
  The single-writer multi-reader adapter of \<open>src/swmr.ts\<close>: the two-byte action envelope, the
  canonical assembly of an operation set through the Taut \<open>SwmrNode\<close>, and the bounded window of
  a full-image file. The node comes from \<open>@owebeeone/taut-shape\<close>: it is the record \<open>swmr_if\<close>,
  a parameter. A \<open>SwmrAdapterError\<close> is modelled by its \<open>reason\<close>.
\<close>

datatype swmr_action = Snapshot | Delta | Reset

datatype swmr_error = SwmrAdapterError jstr | SwmrRangeError string

datatype swmr_input =
    SnapshotPush jstr bytes
  | DeltaPush jstr bytes
  | ResetPush jstr "bytes option"
  | SwmrRead jstr

text \<open>A read response carries the snapshot, the deltas and the next cursor's sequence number.\<close>

datatype swmr_output =
    SwmrDiagnostic jstr
  | SwmrResponse "bytes option" "bytes list" "int option"
  | SwmrOther

record 'w swmr_if =
  sn_new :: 'w
  sn_handle :: "swmr_input \<Rightarrow> 'w \<Rightarrow> 'w \<times> swmr_output list"
  sn_epoch :: "'w \<Rightarrow> int"

definition swmr_adapter_version :: byte where
  "swmr_adapter_version = 1"

definition swmr_tag :: "swmr_action \<Rightarrow> byte" where
  "swmr_tag a = (case a of Snapshot \<Rightarrow> 0 | Delta \<Rightarrow> 1 | Reset \<Rightarrow> 2)"

definition encode_swmr_action :: "swmr_action \<Rightarrow> bytes \<Rightarrow> bytes" where
  "encode_swmr_action action body = swmr_adapter_version # swmr_tag action # body"

definition decode_swmr_action :: "bytes \<Rightarrow> (swmr_error + swmr_action \<times> bytes)" where
  "decode_swmr_action payload =
     (if length payload < 2 then Inl (SwmrAdapterError (jlit ''invalid_action''))
      else if payload ! 0 \<noteq> swmr_adapter_version then Inl (SwmrAdapterError (jlit ''invalid_action''))
      else if unat (payload ! 1) < length [Snapshot, Delta, Reset]
      then Inr ([Snapshot, Delta, Reset] ! unat (payload ! 1), drop 2 payload)
      else Inl (SwmrAdapterError (jlit ''invalid_action'')))"

subsection \<open>Assembly\<close>

datatype swmr_state = SwmrEmpty | SwmrData | SwmrReset

record swmr_assembly =
  sa_state :: swmr_state
  sa_writer :: "jstr option"
  sa_epoch :: int
  sa_seq :: "int option"
  sa_snapshot :: "bytes option"
  sa_deltas :: "bytes list"
  sa_value :: "bytes option"
  sa_last_action :: "swmr_action option"
  sa_reset_detail :: "bytes option"

definition swmr_compare :: "stored_op \<Rightarrow> stored_op \<Rightarrow> int" where
  "swmr_compare a b = (if op_seq a - op_seq b \<noteq> 0 then op_seq a - op_seq b else op_lamport a - op_lamport b)"

fun swmr_diagnostic :: "swmr_output list \<Rightarrow> jstr option" where
  "swmr_diagnostic [] = None"
| "swmr_diagnostic (SwmrDiagnostic code # outs) = Some code"
| "swmr_diagnostic (_ # outs) = swmr_diagnostic outs"

fun swmr_response :: "swmr_output list \<Rightarrow> (bytes option \<times> bytes list \<times> int option) option" where
  "swmr_response [] = None"
| "swmr_response (SwmrResponse s d c # outs) = Some (s, d, c)"
| "swmr_response (_ # outs) = swmr_response outs"

definition reset_body :: "bytes \<Rightarrow> bytes option" where
  "reset_body body = (if length body = 0 then None else Some body)"

definition swmr_push :: "swmr_action \<Rightarrow> jstr \<Rightarrow> bytes \<Rightarrow> swmr_input" where
  "swmr_push action origin body = (case action of
     Snapshot \<Rightarrow> SnapshotPush origin body
   | Delta \<Rightarrow> DeltaPush origin body
   | Reset \<Rightarrow> ResetPush origin (reset_body body))"

record 'w swmr_run =
  sr_node :: 'w
  sr_writer :: "jstr option"
  sr_last :: "swmr_action option"
  sr_detail :: "bytes option"

fun swmr_replay :: "'w swmr_if \<Rightarrow> stored_op list \<Rightarrow> 'w swmr_run \<Rightarrow> swmr_error + 'w swmr_run" where
  "swmr_replay N [] r = Inr r"
| "swmr_replay N (op # ops) r =
     rbind (decode_swmr_action (op_payload op)) (\<lambda>(action, body).
       let (node, outs) = sn_handle N (swmr_push action (op_origin op) body) (sr_node r) in
       case swmr_diagnostic outs of
         Some code \<Rightarrow> Inl (SwmrAdapterError code)
       | None \<Rightarrow> swmr_replay N ops
           \<lparr>sr_node = node,
            sr_writer = (case sr_writer r of None \<Rightarrow> Some (op_origin op) | w \<Rightarrow> w),
            sr_last = Some action,
            sr_detail = (if action = Reset then reset_body body else sr_detail r)\<rparr>)"

definition assemble_swmr :: "'w swmr_if \<Rightarrow> stored_op list \<Rightarrow> jstr \<Rightarrow> swmr_error + swmr_assembly" where
  "assemble_swmr N ops swmr_id =
     rbind (swmr_replay N (js_sort swmr_compare ops)
         \<lparr>sr_node = sn_new N, sr_writer = None, sr_last = None, sr_detail = None\<rparr>) (\<lambda>r.
       let (node, outs) = sn_handle N (SwmrRead swmr_id) (sr_node r) in
       case swmr_response outs of
         None \<Rightarrow> Inl (SwmrAdapterError (jlit ''internal''))
       | Some (snapshot, deltas, next_seq) \<Rightarrow>
           let value = (if deltas \<noteq> [] then Some (last deltas) else snapshot) in
           Inr \<lparr>sa_state = (if value \<noteq> None then SwmrData else if sr_last r = Some Reset then SwmrReset else SwmrEmpty),
             sa_writer = sr_writer r, sa_epoch = sn_epoch N node, sa_seq = next_seq,
             sa_snapshot = snapshot, sa_deltas = deltas, sa_value = value,
             sa_last_action = sr_last r, sa_reset_detail = sr_detail r\<rparr>)"

subsection \<open>File windows\<close>

record file_window =
  fw_from :: int
  fw_length :: int
  fw_total :: int
  fw_bytes :: bytes
  fw_revision :: jstr

definition state_name :: "swmr_state \<Rightarrow> jstr" where
  "state_name s = (case s of SwmrEmpty \<Rightarrow> jlit ''empty'' | SwmrData \<Rightarrow> jlit ''data'' | SwmrReset \<Rightarrow> jlit ''reset'')"

definition project_file_window :: "swmr_assembly \<Rightarrow> int \<Rightarrow> int \<Rightarrow> swmr_error + file_window" where
  "project_file_window a from len =
     (if \<not> is_safe_integer from \<or> from < 0
      then Inl (SwmrRangeError ''file window from must be a non-negative safe integer'')
      else if \<not> is_safe_integer len \<or> len < 0
      then Inl (SwmrRangeError ''file window length must be a non-negative safe integer'')
      else
        let source = (case sa_value a of None \<Rightarrow> [] | Some v \<Rightarrow> v);
            start = min from (int (length source));
            stop = min (int (length source)) (start + len)
        in Inr \<lparr>fw_from = start, fw_length = stop - start, fw_total = int (length source),
             fw_bytes = take (nat (stop - start)) (drop (nat start) source),
             fw_revision = dec_int (sa_epoch a) @ jlit '':''
               @ (case sa_seq a of Some n \<Rightarrow> dec_int n | None \<Rightarrow> state_name (sa_state a))\<rparr>)"

subsection \<open>The assembly depends on the operations only\<close>

interpretation swmr_order: comparator swmr_compare "\<lambda>op. [op_seq op, op_lamport op]"
  by unfold_locales (auto simp: swmr_compare_def)

lemma swmr_tag_index: "[Snapshot, Delta, Reset] ! unat (swmr_tag a) = a" "unat (swmr_tag a) < 3"
  by (cases a; simp add: swmr_tag_def)+

lemma decode_swmr_encode: "decode_swmr_action (encode_swmr_action a body) = Inr (a, body)"
  using swmr_tag_index [of a] by (simp add: decode_swmr_action_def encode_swmr_action_def)

lemma decode_swmr_Inr:
  assumes "decode_swmr_action p = Inr (a, body)"
  shows "p = encode_swmr_action a body"
proof -
  obtain v t where p: "p = v # t # drop 2 p" "v = swmr_adapter_version" "unat t < 3"
      "a = [Snapshot, Delta, Reset] ! unat t" "body = drop 2 p"
    using assms by (cases p; cases "tl p") (auto simp: decode_swmr_action_def split: if_splits)
  have "t = swmr_tag a"
  proof -
    from p(3) consider "unat t = 0" | "unat t = 1" | "unat t = 2" by linarith
    then have "unat t = unat (swmr_tag a)" by cases (simp_all add: p(4) swmr_tag_def)
    then show ?thesis by (rule unsigned_word_eqI)
  qed
  with p show ?thesis unfolding encode_swmr_action_def by metis
qed

text \<open>The file image of an assembly, and the window in plain list terms.\<close>

definition file_image :: "swmr_assembly \<Rightarrow> bytes" where
  "file_image a = (case sa_value a of None \<Rightarrow> [] | Some v \<Rightarrow> v)"

lemma project_file_window_Inr: "project_file_window a from len = Inr w \<Longrightarrow>
    0 \<le> from \<and> 0 \<le> len \<and> fw_bytes w = take (nat len) (drop (nat from) (file_image a))
    \<and> fw_length w = int (length (fw_bytes w)) \<and> fw_total w = int (length (file_image a))
    \<and> fw_from w + fw_length w \<le> fw_total w \<and> 0 \<le> fw_length w"
proof -
  assume w: "project_file_window a from len = Inr w"
  then have nn: "0 \<le> from" "0 \<le> len" by (auto simp: project_file_window_def split: if_splits)
  let ?s = "file_image a"
  define i where "i = min from (int (length ?s))"
  define j where "j = min (int (length ?s)) (i + len)"
  have f: "fw_bytes w = take (nat (j - i)) (drop (nat i) ?s)" "fw_length w = j - i" "fw_from w = i" "fw_total w = int (length ?s)"
    using w by (auto simp: project_file_window_def Let_def i_def j_def file_image_def split: if_splits)
  have ij: "0 \<le> i" "i \<le> j" "j \<le> int (length ?s)" using nn by (simp_all add: i_def j_def)
  have "take (nat (j - i)) (drop (nat i) ?s) = take (nat len) (drop (nat from) ?s)"
  proof (cases "from \<le> int (length ?s)")
    case True
    then have "nat i = nat from" "nat (j - i) = min (nat len) (length ?s - nat from)"
      using nn by (auto simp: i_def j_def min_def)
    then show ?thesis by (simp add: min_def)
  next
    case False
    then show ?thesis using nn by (simp add: i_def)
  qed
  moreover have "int (length (take (nat (j - i)) (drop (nat i) ?s))) = j - i" using ij by simp
  ultimately show ?thesis using f ij nn by simp
qed

subsection \<open>Properties\<close>

text \<open>The action envelope is a bijection: a payload decodes to an action and a body exactly
  when it is what the encoder makes of them, so nothing else is accepted and nothing is lost.\<close>

theorem swmr_action_bijection: "decode_swmr_action p = Inr (a, body) \<longleftrightarrow> p = encode_swmr_action a body"
  using decode_swmr_encode decode_swmr_Inr by blast

text \<open>The canonical assembly does not depend on the order of arrival: whatever the node, two
  deliveries of the same operations assemble to the same value or fail with the same error,
  when no two of them share both sequence number and Lamport time.\<close>

theorem assemble_swmr_order_free:
  assumes "set xs = set ys" "distinct xs" "distinct ys" "inj_on (\<lambda>op. [op_seq op, op_lamport op]) (set xs)"
  shows "assemble_swmr N xs i = assemble_swmr N ys i"
  using swmr_order.sort_unique [OF assms] by (simp add: assemble_swmr_def)

definition sample_push :: "int \<Rightarrow> bytes \<Rightarrow> stored_op" where
  "sample_push seq payload = \<lparr>op_origin = [97], op_seq = seq, op_lamport = seq, op_prev = None, op_refs = None,
     op_payload = payload, op_share = None, op_glade_id = None, op_key = None\<rparr>"

definition sample_swmr :: "swmr_output list swmr_if" where
  "sample_swmr = \<lparr>sn_new = [], sn_handle = (\<lambda>i w. (w, [SwmrResponse None [] None])), sn_epoch = (\<lambda>_. 0)\<rparr>"

theorem assemble_swmr_order_free_witness:
  "assemble_swmr sample_swmr [sample_push 2 [1, 1, 5], sample_push 1 [1, 0]] [] = assemble_swmr sample_swmr [sample_push 1 [1, 0], sample_push 2 [1, 1, 5]] []"
  by (rule assemble_swmr_order_free) (auto simp: sample_push_def)

text \<open>A file window never reaches outside the image, holds exactly the bytes asked for that
  exist, and adjacent windows join without gap or overlap.\<close>

theorem file_windows_join:
  assumes "project_file_window a from m = Inr v" "project_file_window a (from + m) n = Inr w"
  shows "fw_bytes v @ fw_bytes w = take (nat (m + n)) (drop (nat from) (file_image a))
    \<and> fw_length v = int (length (fw_bytes v)) \<and> fw_from v + fw_length v \<le> int (length (file_image a))
    \<and> fw_total v = int (length (file_image a))"
proof -
  note v = project_file_window_Inr [OF assms(1)] and w = project_file_window_Inr [OF assms(2)]
  let ?s = "drop (nat from) (file_image a)"
  have "fw_bytes w = take (nat n) (drop (nat m) ?s)" using v w by (simp add: nat_add_distrib add.commute)
  moreover have "fw_bytes v = take (nat m) ?s" using v by simp
  moreover have "take (nat m) ?s @ take (nat n) (drop (nat m) ?s) = take (nat (m + n)) ?s"
    using v w by (simp only: nat_add_distrib take_add)
  ultimately have "fw_bytes v @ fw_bytes w = take (nat (m + n)) ?s" by (simp only:)
  with v show ?thesis by linarith
qed

definition sample_image :: swmr_assembly where
  "sample_image = \<lparr>sa_state = SwmrData, sa_writer = None, sa_epoch = 1, sa_seq = None, sa_snapshot = Some [1, 2, 3],
     sa_deltas = [], sa_value = Some [1, 2, 3], sa_last_action = None, sa_reset_detail = None\<rparr>"

theorem file_windows_join_witness:
  "\<exists>v w. project_file_window sample_image 0 2 = Inr v \<and> project_file_window sample_image (0 + 2) 5 = Inr w
     \<and> fw_bytes v @ fw_bytes w = [1, 2, 3]"
proof -
  obtain v w where "project_file_window sample_image 0 2 = Inr v" "project_file_window sample_image (0 + 2) 5 = Inr w"
    by (simp add: project_file_window_def is_safe_integer_def max_safe_integer_def Let_def)
  then show ?thesis using file_windows_join by (fastforce simp: file_image_def sample_image_def)
qed

end
