(* ===== verification/Js_Stringify.thy ===== *)
theory Js_Stringify
  imports Js_Json
begin

text \<open>
  \<open>JSON.stringify\<close> on strings as the language defines it: the short escapes, \<open>\u00xx\<close> for the
  other control characters, and \<open>\udxxx\<close> for a surrogate that is not part of a pair. Parsing
  the quoted string gives the string back, lone surrogates included.
\<close>

definition hex_low :: "nat \<Rightarrow> 16 word" where
  "hex_low n = (if n < 10 then of_nat (48 + n) else of_nat (87 + n))"

definition unicode_escape :: "16 word \<Rightarrow> jstr" where
  "unicode_escape c = (let n = unat c in
     [0x5C, 0x75, hex_low (n div 4096), hex_low (n div 256 mod 16), hex_low (n div 16 mod 16), hex_low (n mod 16)])"

definition short_escape :: "16 word \<Rightarrow> 16 word option" where
  "short_escape c = map_of [(0x22, 0x22), (0x5C, 0x5C), (0x08, 0x62), (0x0C, 0x66), (0x0A, 0x6E), (0x0D, 0x72), (0x09, 0x74)] c"

definition quote_unit :: "16 word \<Rightarrow> jstr" where
  "quote_unit c = (case short_escape c of
     Some e \<Rightarrow> [0x5C, e]
   | None \<Rightarrow> if unat c < 0x20 \<or> is_high c \<or> is_low c then unicode_escape c else [c])"

fun quote_chars :: "jstr \<Rightarrow> jstr" where
  "quote_chars [] = []"
| "quote_chars [c] = quote_unit c"
| "quote_chars (c # d # s) =
     (if is_high c \<and> is_low d then c # d # quote_chars s else quote_unit c @ quote_chars (d # s))"

definition json_quote :: "jstr \<Rightarrow> jstr" where
  "json_quote s = 0x22 # quote_chars s @ [0x22]"

lemma hex_val_low: "n < 16 \<Longrightarrow> hex_val (hex_low n) = Some n"
  by (cases "n < 10") (simp_all add: hex_low_def hex_val_def is_digit_def unat_of_nat_16 del: of_nat_add)

lemma hex_digits: "(n div 4096) * 4096 + (n div 256 mod 16) * 256 + (n div 16 mod 16) * 16 + n mod 16 = (n :: nat)"
proof -
  have "n div 16 div 16 * 16 + n div 16 mod 16 = n div 16" "n div 256 div 16 * 16 + n div 256 mod 16 = n div 256"
    by (rule div_mult_mod_eq)+
  then have "n div 256 * 16 + n div 16 mod 16 = n div 16" "n div 4096 * 16 + n div 256 mod 16 = n div 256"
    by (simp_all add: div_mult2_eq [symmetric])
  with div_mult_mod_eq [of n 16] show ?thesis by linarith
qed

lemma hex4_escape: "hex4 (hex_low (unat c div 4096)) (hex_low (unat c div 256 mod 16))
    (hex_low (unat c div 16 mod 16)) (hex_low (unat c mod 16)) = Some c"
proof -
  have "unat c < 65536" by simp
  then have "unat c div 4096 < 16" by (simp add: less_mult_imp_div_less)
  then show ?thesis
    by (simp add: hex4_def hex_val_low hex_digits del: of_nat_add of_nat_mult)
qed

lemma parse_chars_unit: "parse_chars (quote_unit c @ r) = cons_to c (parse_chars r)"
proof (cases "short_escape c")
  case None
  then have "c \<noteq> 0x22" "c \<noteq> 0x5C" by (auto simp: short_escape_def)
  with None show ?thesis
    by (simp add: quote_unit_def unicode_escape_def Let_def hex4_escape)
next
  case (Some e)
  then have "simple_escape e = Some c \<and> e \<noteq> 0x75"
    by (auto simp: short_escape_def simple_escape_def split: if_splits)
  with Some show ?thesis by (simp add: quote_unit_def)
qed

lemma parse_chars_quote: "parse_chars (quote_chars s @ 0x22 # r) = Some (s, r)"
proof (induction s rule: quote_chars.induct)
  case (3 c d s)
  show ?case
  proof (cases "is_high c \<and> is_low d")
    case True
    then have "c \<noteq> 0x22 \<and> c \<noteq> 0x5C \<and> \<not> unat c < 0x20" "d \<noteq> 0x22 \<and> d \<noteq> 0x5C \<and> \<not> unat d < 0x20"
      by (auto simp: is_high_def is_low_def)
    with True 3 show ?thesis by simp
  next
    case False
    with 3 show ?thesis by (auto simp: parse_chars_unit)
  qed
qed (simp_all add: parse_chars_unit)

end
