(* ===== verification/Events.thy ===== *)
theory Events
  imports Js_Stringify Log_Fold Value_Fold Swmr Text_Plan Shapes
begin

text \<open>
  The change events of \<open>src/events.ts\<close>: the \<open>ChangeEvent\<close> envelope of glade-decl (a generic
  shell whose payload bytes are opaque) together with the decoded fields that glial adds for its
  consumers. A glade id is represented by its \<open>id\<close> string. An absent or \<open>null\<close> field is
  \<open>None\<close>.
\<close>

datatype change_kind = Refresh | Increment

record change_event =
  ce_glade_id :: jstr
  ce_shape :: delivery_shape
  ce_kind :: change_kind
  ce_base_seq :: "int option"
  ce_origin_meta :: "(jstr \<times> int) option"
  ce_payload :: bytes

record text_delta =
  td_origin :: jstr
  td_seq :: int
  td_edit :: text_edit

record instance_event =
  ie_envelope :: change_event
  ie_value :: "bytes option"
  ie_empty :: bool
  ie_records :: "log_record list option"
  ie_delta :: "log_record list option"
  ie_swmr :: "swmr_assembly option"
  ie_crdt :: "text_state option"
  ie_crdt_delta :: "text_delta list option"

definition plain_event :: "change_event \<Rightarrow> instance_event" where
  "plain_event e = \<lparr>ie_envelope = e, ie_value = None, ie_empty = False, ie_records = None, ie_delta = None,
     ie_swmr = None, ie_crdt = None, ie_crdt_delta = None\<rparr>"

text \<open>\<open>JSON.stringify\<close> of the record list: an array of objects in the order of their literals.\<close>

definition json_array :: "jstr list \<Rightarrow> jstr" where
  "json_array items = 0x5B # join_comma items @ [0x5D]"

definition json_record :: "log_record \<Rightarrow> jstr" where
  "json_record r = jlit ''{\"seq\":'' @ dec_int (lr_seq r) @ jlit '',\"text\":'' @ json_quote (from_utf8 (lr_payload r)) @ jlit ''}''"

definition encode_log :: "log_record list \<Rightarrow> bytes" where
  "encode_log records = utf8 (json_array (map json_record records))"

definition value_refresh :: "jstr \<Rightarrow> jstr option \<Rightarrow> int option \<Rightarrow> bytes option \<Rightarrow> instance_event" where
  "value_refresh g origin seq value =
     (let envelope = \<lparr>ce_glade_id = g, ce_shape = Value, ce_kind = Refresh, ce_base_seq = seq,
            ce_origin_meta = (case (origin, seq) of (Some o', Some s) \<Rightarrow> Some (o', s) | _ \<Rightarrow> None),
            ce_payload = (case value of None \<Rightarrow> [] | Some v \<Rightarrow> v)\<rparr>
      in if value = None then (plain_event envelope)\<lparr>ie_empty := True\<rparr>
         else (plain_event envelope)\<lparr>ie_value := value\<rparr>)"

definition log_refresh :: "jstr \<Rightarrow> log_record list \<Rightarrow> instance_event" where
  "log_refresh g records =
     (plain_event \<lparr>ce_glade_id = g, ce_shape = Log, ce_kind = Refresh, ce_base_seq = Some (int (length records)),
        ce_origin_meta = None, ce_payload = encode_log records\<rparr>)\<lparr>ie_records := Some records\<rparr>"

definition log_delta :: "jstr \<Rightarrow> int \<Rightarrow> log_record list \<Rightarrow> log_record list \<Rightarrow> instance_event" where
  "log_delta g base delta whole =
     (plain_event \<lparr>ce_glade_id = g, ce_shape = Log, ce_kind = Increment, ce_base_seq = Some base,
        ce_origin_meta = None, ce_payload = encode_log delta\<rparr>)\<lparr>ie_delta := Some delta, ie_records := Some whole\<rparr>"

definition swmr_change :: "jstr \<Rightarrow> swmr_assembly \<Rightarrow> change_kind \<Rightarrow> instance_event" where
  "swmr_change g a kind =
     (plain_event \<lparr>ce_glade_id = g, ce_shape = Swmr, ce_kind = kind, ce_base_seq = sa_seq a,
        ce_origin_meta = (case (sa_writer a, sa_seq a) of (Some w, Some s) \<Rightarrow> Some (w, s) | _ \<Rightarrow> None),
        ce_payload = (case sa_value a of None \<Rightarrow> [] | Some v \<Rightarrow> v)\<rparr>)\<lparr>ie_swmr := Some a\<rparr>"

definition json_edit :: "text_edit \<Rightarrow> jstr" where
  "json_edit e = (case e of
     TextDelete a \<Rightarrow> jlit ''{\"kind\":\"delete\",\"atomId\":'' @ json_quote a @ jlit ''}''
   | TextInsert a p t \<Rightarrow> jlit ''{\"kind\":\"insert\",\"atomId\":'' @ json_quote a @ jlit '',\"after\":''
       @ (case p of None \<Rightarrow> jlit ''null'' | Some q \<Rightarrow> json_quote q) @ jlit '',\"text\":'' @ json_quote t @ jlit ''}'')"

definition json_text_delta :: "text_delta \<Rightarrow> jstr" where
  "json_text_delta d = jlit ''{\"origin\":'' @ json_quote (td_origin d) @ jlit '',\"seq\":'' @ dec_int (td_seq d)
     @ jlit '',\"edit\":'' @ json_edit (td_edit d) @ jlit ''}''"

fun decode_deltas :: "stored_op list \<Rightarrow> text_error + text_delta list" where
  "decode_deltas [] = Inr []"
| "decode_deltas (op # ops) =
     rbind (decode_text_edit (op_payload op)) (\<lambda>edit.
     rbind (decode_deltas ops) (\<lambda>ds.
       Inr (\<lparr>td_origin = op_origin op, td_seq = op_seq op, td_edit = edit\<rparr> # ds)))"

definition text_crdt_change :: "jstr \<Rightarrow> text_state \<Rightarrow> change_kind \<Rightarrow> stored_op list \<Rightarrow> text_error + instance_event" where
  "text_crdt_change g st kind ops =
     rbind (decode_deltas ops) (\<lambda>delta.
       Inr ((plain_event \<lparr>ce_glade_id = g, ce_shape = Crdt, ce_kind = kind, ce_base_seq = None,
          ce_origin_meta = None, ce_payload = utf8 (json_array (map json_text_delta delta))\<rparr>)
          \<lparr>ie_crdt := Some st, ie_crdt_delta := Some delta\<rparr>))"

lemma event_fields [simp]:
  "ie_records (log_delta g b d w) = Some w" "ie_delta (log_delta g b d w) = Some d"
  "ie_records (log_refresh g w) = Some w" "ie_delta (log_refresh g w) = None"
  "ce_base_seq (ie_envelope (log_delta g b d w)) = Some b"
  by (simp_all add: log_delta_def log_refresh_def plain_event_def)

end
