(* ===== verification/Instance.thy ===== *)
theory Instance
  imports Store Events Text_Assembler
begin

text \<open>
  The binding instance of \<open>src/instance.ts\<close>: one store, one fold or assembly, the listeners,
  and optionally a destination.

  An operation of the instance is a state transformer \<open>act\<close> over a context: the store engine,
  the destination, the instance itself and the events handed to listeners so far, in order. It
  returns a value or throws, and what was changed before the throw stays changed. The context's
  components that the code reaches through references (the store object, the destination) are
  parts of it. Listeners are numbered; a listener is taken not to call back into the instance.

  The destination is the interface \<open>GladeDestination\<close>: \<open>de_send\<close> also lists the batches that
  reach this instance's subscription before it returns (a synchronous echo), each with the state
  of the destination at that moment: an exception of the subscriber leaves it there. A destination
  without \<open>hydrate\<close> has \<open>None\<close> there.
\<close>

subsection \<open>The surroundings of an instance\<close>

datatype inst_error =
    TextFail text_error
  | SwmrFail swmr_error
  | DestFail jstr
  | InstFail string

record 'd dest_if =
  de_origin :: "'d \<Rightarrow> jstr option"
  de_send :: "bytes \<Rightarrow> 'd \<Rightarrow> ('d \<times> stored_op list) list \<times> 'd \<times> (inst_error + stored_op)"
  de_subscribe :: "'d \<Rightarrow> 'd \<times> (inst_error + nat)"
  de_unsubscribe :: "nat \<Rightarrow> 'd \<Rightarrow> 'd"
  de_hydrate :: "(stored_op list \<Rightarrow> 'd \<Rightarrow> 'd \<times> (inst_error + stored_op list)) option"

record ('e, 'd, 'n, 'k, 't, 'w) env =
  en_engine :: "('e, ('k, 't) text_checkpoint) engine_if"
  en_dest :: "'d dest_if"
  en_crdt :: "('n, 'k, 't) crdt_if"
  en_swmr :: "'w swmr_if"
  en_profile :: profile_if
  en_lc :: lcmp

record 'n binding_instance =
  in_key :: jstr
  in_glade_id :: jstr
  in_adapter :: shape_adapter
  in_store :: nat
  in_local_origin :: jstr
  in_text_profile :: bool
  in_refcount :: int
  in_listeners :: "nat list"
  in_emitted :: "jstr list"
  in_glade :: bool
  in_glade_off :: "nat option"
  in_text_batch :: "stored_op list option"
  in_assembly :: "'n assembler option"
  in_checkpoint_at :: int

record ('e, 'd, 'n) ctx =
  cx_engine :: 'e
  cx_dest :: 'd
  cx_inst :: "'n binding_instance"
  cx_out :: "(nat \<times> instance_event) list"

type_synonym ('e, 'd, 'n, 'a) act = "('e, 'd, 'n) ctx \<Rightarrow> ('e, 'd, 'n) ctx \<times> (inst_error + 'a)"

definition ret :: "'a \<Rightarrow> ('e, 'd, 'n, 'a) act" where
  "ret x s = (s, Inr x)"

definition throw :: "inst_error \<Rightarrow> ('e, 'd, 'n, 'a) act" where
  "throw e s = (s, Inl e)"

definition andthen :: "('e, 'd, 'n, 'a) act \<Rightarrow> ('a \<Rightarrow> ('e, 'd, 'n, 'b) act) \<Rightarrow> ('e, 'd, 'n, 'b) act" where
  "andthen m f s = (case m s of (s', Inl e) \<Rightarrow> (s', Inl e) | (s', Inr x) \<Rightarrow> f x s')"

definition get_inst :: "('n binding_instance \<Rightarrow> 'a) \<Rightarrow> ('e, 'd, 'n, 'a) act" where
  "get_inst f s = (s, Inr (f (cx_inst s)))"

definition mod_inst :: "('n binding_instance \<Rightarrow> 'n binding_instance) \<Rightarrow> ('e, 'd, 'n, unit) act" where
  "mod_inst f s = (s\<lparr>cx_inst := f (cx_inst s)\<rparr>, Inr ())"

definition lift_text :: "text_error + 'a \<Rightarrow> ('e, 'd, 'n, 'a) act" where
  "lift_text r = (case r of Inl e \<Rightarrow> throw (TextFail e) | Inr x \<Rightarrow> ret x)"

definition lift_swmr :: "swmr_error + 'a \<Rightarrow> ('e, 'd, 'n, 'a) act" where
  "lift_swmr r = (case r of Inl e \<Rightarrow> throw (SwmrFail e) | Inr x \<Rightarrow> ret x)"

definition store_all :: "('e, 'd, 'n, 'k, 't, 'w) env \<Rightarrow> ('e, 'd, 'n, stored_op list) act" where
  "store_all V s = (s, Inr (si_all (ei_store (en_engine V) (in_store (cx_inst s))) (cx_engine s)))"

definition store_append :: "('e, 'd, 'n, 'k, 't, 'w) env \<Rightarrow> stored_op \<Rightarrow> ('e, 'd, 'n, append_outcome) act" where
  "store_append V op s =
     (let (e, out) = si_append (ei_store (en_engine V) (in_store (cx_inst s))) op (cx_engine s)
      in (s\<lparr>cx_engine := e\<rparr>, Inr out))"

text \<open>\<open>for (const l of this.listeners) { l(e); }\<close>\<close>

definition broadcast :: "instance_event \<Rightarrow> ('e, 'd, 'n, unit) act" where
  "broadcast ev s = (s\<lparr>cx_out := cx_out s @ map (\<lambda>l. (l, ev)) (in_listeners (cx_inst s))\<rparr>, Inr ())"

definition shape_of :: "'n binding_instance \<Rightarrow> delivery_shape" where
  "shape_of i = ad_shape (in_adapter i)"

subsection \<open>Keys and construction\<close>

record fill =
  fl_domain :: jstr
  fl_zone :: "jstr option"
  fl_key :: "jstr option"

definition instance_key :: "jstr \<Rightarrow> fill \<Rightarrow> jstr" where
  "instance_key g f = g @ 0 # fl_domain f @ 0 # or_empty (fl_zone f) @ 0 # or_empty (fl_key f)"

definition new_instance :: "jstr \<Rightarrow> jstr \<Rightarrow> jstr \<Rightarrow> nat \<Rightarrow> jstr \<Rightarrow> bool \<Rightarrow> unsupported_shape + 'n binding_instance" where
  "new_instance g shape key store origin profile =
     rbind (require_mount_shape_adapter shape (jlit ''instance construction'')) (\<lambda>a.
       Inr \<lparr>in_key = key, in_glade_id = g, in_adapter = a, in_store = store, in_local_origin = origin,
         in_text_profile = profile, in_refcount = 0, in_listeners = [], in_emitted = [], in_glade = False,
         in_glade_off = None, in_text_batch = None, in_assembly = None, in_checkpoint_at = 0\<rparr>)"

subsection \<open>Assembly\<close>

definition op_compare :: "stored_op \<Rightarrow> stored_op \<Rightarrow> int" where
  "op_compare a b =
     (if op_lamport a - op_lamport b \<noteq> 0 then op_lamport a - op_lamport b
      else if op_origin a < op_origin b then - 1
      else if op_origin a > op_origin b then 1
      else op_seq a - op_seq b)"

definition sorted_ops :: "stored_op list \<Rightarrow> stored_op list" where
  "sorted_ops ops = js_sort op_compare ops"

definition assemble_log :: "stored_op list \<Rightarrow> log_record list" where
  "assemble_log ops = log_all (log_push_all (map op_payload ops) log_buffer_new)"

definition swmr_assembly_act :: "('e, 'd, 'n, 'k, 't, 'w) env \<Rightarrow> ('e, 'd, 'n, swmr_assembly) act" where
  "swmr_assembly_act V =
     andthen (get_inst shape_of) (\<lambda>sh.
     if sh \<noteq> Swmr then throw (InstFail ''swmrAssembly() requires shape swmr'')
     else andthen (store_all V) (\<lambda>ops.
       andthen (get_inst in_glade_id) (\<lambda>g. lift_swmr (assemble_swmr (en_swmr V) ops g))))"

definition preflight_swmr :: "('e, 'd, 'n, 'k, 't, 'w) env \<Rightarrow> stored_op list \<Rightarrow> ('e, 'd, 'n, unit) act" where
  "preflight_swmr V incoming =
     andthen (store_all V) (\<lambda>ops.
     andthen (get_inst in_glade_id) (\<lambda>g.
     andthen (lift_swmr (assemble_swmr (en_swmr V) (ops @ incoming) g)) (\<lambda>_. ret ())))"

text \<open>A method of the text assembler run in place; the assembler must exist.\<close>

definition on_assembly :: "('n assembler \<Rightarrow> 'n assembler \<times> (text_error + 'a)) \<Rightarrow> ('e, 'd, 'n, 'a) act" where
  "on_assembly f s =
     (case in_assembly (cx_inst s) of
        None \<Rightarrow> (s, Inl (TextFail JsTypeError))
      | Some a \<Rightarrow> (let (a', r) = f a in lift_text r (s\<lparr>cx_inst := (cx_inst s)\<lparr>in_assembly := Some a'\<rparr>\<rparr>)))"

definition of_option :: "'a \<times> text_error option \<Rightarrow> 'a \<times> (text_error + unit)" where
  "of_option p = (fst p, case snd p of None \<Rightarrow> Inr () | Some e \<Rightarrow> Inl e)"

definition load_checkpoint :: "('e, 'd, 'n, 'k, 't, 'w) env \<Rightarrow> ('e, 'd, 'n, ('k, 't) text_checkpoint option) act" where
  "load_checkpoint V s =
     (s, Inr (case si_load_checkpoint (ei_store (en_engine V) (in_store (cx_inst s))) of
        None \<Rightarrow> None | Some f \<Rightarrow> f (cx_engine s)))"

definition open_assembly :: "('e, 'd, 'n, 'k, 't, 'w) env \<Rightarrow> ('e, 'd, 'n, unit) act" where
  "open_assembly V =
     andthen (store_all V) (\<lambda>persisted.
     andthen (load_checkpoint V) (\<lambda>saved.
     case (case saved of None \<Rightarrow> None
           | Some ck \<Rightarrow> (case assembler_restore (en_crdt V) (en_lc V) ck persisted of Inl _ \<Rightarrow> None | Inr a \<Rightarrow> Some a)) of
       Some a \<Rightarrow> mod_inst (\<lambda>i. i\<lparr>in_assembly := Some a\<rparr>)
     | None \<Rightarrow>
         andthen (mod_inst (\<lambda>i. i\<lparr>in_assembly := Some (assembler_new (en_crdt V))\<rparr>)) (\<lambda>_.
           on_assembly (\<lambda>a. of_option (assembler_apply (en_crdt V) (en_lc V) persisted a)))))"

definition text_crdt_state :: "('e, 'd, 'n, 'k, 't, 'w) env \<Rightarrow> ('e, 'd, 'n, text_state) act" where
  "text_crdt_state V =
     andthen (get_inst (\<lambda>i. i)) (\<lambda>i.
     if shape_of i \<noteq> Crdt \<or> \<not> in_text_profile i
     then throw (InstFail ''textCrdtState() requires a text_crdt profile'')
     else
       andthen (if in_assembly i = None then open_assembly V else ret ()) (\<lambda>_.
         on_assembly (assembler_state (en_crdt V) (en_lc V))))"

definition validate_incoming :: "('e, 'd, 'n, 'k, 't, 'w) env \<Rightarrow> stored_op list \<Rightarrow> ('e, 'd, 'n, unit) act" where
  "validate_incoming V ops =
     andthen (text_crdt_state V) (\<lambda>_. on_assembly (\<lambda>a. of_option (validate_new ops a)))"

definition save_text_checkpoint :: "('e, 'd, 'n, 'k, 't, 'w) env \<Rightarrow> bool \<Rightarrow> ('e, 'd, 'n, unit) act" where
  "save_text_checkpoint V force s =
     (case (in_assembly (cx_inst s), si_save_checkpoint (ei_store (en_engine V) (in_store (cx_inst s)))) of
        (Some a, Some save) \<Rightarrow>
          if force \<or> ta_applied a - in_checkpoint_at (cx_inst s) \<ge> 256
          then andthen (on_assembly (assembler_checkpoint (en_crdt V) (en_lc V))) (\<lambda>ck s'.
                 (s'\<lparr>cx_engine := save ck (cx_engine s'),
                     cx_inst := (cx_inst s')\<lparr>in_checkpoint_at := ta_applied a\<rparr>\<rparr>, Inr ())) s
          else (s, Inr ())
      | _ \<Rightarrow> (s, Inr ()))"

definition value_event :: "jstr \<Rightarrow> stored_op list \<Rightarrow> instance_event" where
  "value_event g ops =
     (case assemble_value ops of
        ValueEmpty \<Rightarrow> value_refresh g None None None
      | ValueData v w \<Rightarrow> value_refresh g (Some (win_origin w)) (Some (win_seq w)) (Some v))"

definition refresh_event :: "('e, 'd, 'n, 'k, 't, 'w) env \<Rightarrow> ('e, 'd, 'n, instance_event) act" where
  "refresh_event V =
     andthen (get_inst shape_of) (\<lambda>sh.
     andthen (get_inst in_glade_id) (\<lambda>g.
     andthen (store_all V) (\<lambda>ops.
     if sh = Log then ret (log_refresh g (assemble_log (sorted_ops ops)))
     else if sh = Swmr then andthen (swmr_assembly_act V) (\<lambda>a. ret (swmr_change g a Refresh))
     else if sh = Crdt then andthen (text_crdt_state V) (\<lambda>st. lift_text (text_crdt_change g st Refresh []))
     else ret (value_event g ops))))"

text \<open>The loop of the log branch: \<open>ops\<close> and the assembled records side by side.\<close>

fun log_fan :: "stored_op list \<Rightarrow> log_record list \<Rightarrow> jstr list \<Rightarrow> jstr list \<times> log_record list" where
  "log_fan (op # ops) (r # rs) emitted =
     (if op_slot op \<in> set emitted then log_fan ops rs emitted
      else (let (emitted', delta) = log_fan ops rs (js_add (op_slot op) emitted) in (emitted', r # delta)))"
| "log_fan _ _ emitted = (emitted, [])"

definition fold_log :: "('e, 'd, 'n, 'k, 't, 'w) env \<Rightarrow> ('e, 'd, 'n, unit) act" where
  "fold_log V =
     andthen (store_all V) (\<lambda>held.
     andthen (get_inst (\<lambda>i. i)) (\<lambda>i.
       let ops = sorted_ops held; whole = assemble_log ops; base = int (length (in_emitted i));
           (emitted, delta) = log_fan ops whole (in_emitted i)
       in andthen (mod_inst (\<lambda>i. i\<lparr>in_emitted := emitted\<rparr>)) (\<lambda>_.
            if length delta = 0 then ret () else broadcast (log_delta (in_glade_id i) base delta whole))))"

definition fold_and_broadcast :: "('e, 'd, 'n, 'k, 't, 'w) env \<Rightarrow> stored_op list \<Rightarrow> ('e, 'd, 'n, unit) act" where
  "fold_and_broadcast V landed_ops =
     andthen (get_inst (\<lambda>i. i)) (\<lambda>i.
     if shape_of i = Log then fold_log V
     else if shape_of i = Swmr then
       andthen (swmr_assembly_act V) (\<lambda>a.
         broadcast (swmr_change (in_glade_id i) a (if sa_last_action a = Some Delta then Increment else Refresh)))
     else if shape_of i = Crdt then
       andthen (if in_assembly i = None then ret ()
                else on_assembly (\<lambda>a. of_option (assembler_apply (en_crdt V) (en_lc V) landed_ops a))) (\<lambda>_.
       andthen (text_crdt_state V) (\<lambda>_.
       andthen (save_text_checkpoint V False) (\<lambda>_.
       andthen (text_crdt_state V) (\<lambda>st.
       andthen (lift_text (text_crdt_change (in_glade_id i) st Increment landed_ops)) broadcast))))
     else andthen (refresh_event V) broadcast)"

subsection \<open>Incoming operations\<close>

text \<open>The persisting loop of \<open>ingest\<close>: the operations that landed, in order.\<close>

fun append_loop :: "('e, 'd, 'n, 'k, 't, 'w) env \<Rightarrow> stored_op list \<Rightarrow> ('e, 'd, 'n, stored_op list) act" where
  "append_loop V [] = ret []"
| "append_loop V (op # ops) =
     andthen (store_append V op) (\<lambda>out.
     andthen (append_loop V ops) (\<lambda>delta.
       ret (if out = Appended then op # delta else delta)))"

definition check_incoming :: "('e, 'd, 'n, 'k, 't, 'w) env \<Rightarrow> stored_op list \<Rightarrow> ('e, 'd, 'n, unit) act" where
  "check_incoming V ops =
     andthen (get_inst shape_of) (\<lambda>sh.
     if sh = Swmr then preflight_swmr V ops
     else if sh = Crdt then validate_incoming V ops
     else ret ())"

definition ingest :: "('e, 'd, 'n, 'k, 't, 'w) env \<Rightarrow> stored_op list \<Rightarrow> ('e, 'd, 'n, unit) act" where
  "ingest V ops =
     andthen (get_inst in_text_batch) (\<lambda>batch.
     case batch of
       Some b \<Rightarrow> mod_inst (\<lambda>i. i\<lparr>in_text_batch := Some (b @ ops)\<rparr>)
     | None \<Rightarrow>
         andthen (check_incoming V ops) (\<lambda>_.
         andthen (append_loop V ops) (\<lambda>delta.
           if delta \<noteq> [] then fold_and_broadcast V delta else ret ())))"

text \<open>\<open>this.glade.send(payload)\<close>, the echoes it causes included.\<close>

definition on_dest :: "('d \<Rightarrow> 'd \<times> (inst_error + 'a)) \<Rightarrow> ('e, 'd, 'n, 'a) act" where
  "on_dest f s = (let (d, r) = f (cx_dest s) in (s\<lparr>cx_dest := d\<rparr>, r))"

fun echo_batches :: "('e, 'd, 'n, 'k, 't, 'w) env \<Rightarrow> ('d \<times> stored_op list) list \<Rightarrow> ('e, 'd, 'n, unit) act" where
  "echo_batches V [] = ret ()"
| "echo_batches V ((d, ops) # steps) =
     andthen (on_dest (\<lambda>_. (d, Inr ()))) (\<lambda>_. andthen (ingest V ops) (\<lambda>_. echo_batches V steps))"

definition glade_send :: "('e, 'd, 'n, 'k, 't, 'w) env \<Rightarrow> bytes \<Rightarrow> ('e, 'd, 'n, stored_op) act" where
  "glade_send V payload s =
     (let (steps, d, r) = de_send (en_dest V) payload (cx_dest s) in
      andthen (echo_batches V steps) (\<lambda>_ s'. (s'\<lparr>cx_dest := d\<rparr>, r)) s)"

definition attach_glade :: "('e, 'd, 'n, 'k, 't, 'w) env \<Rightarrow> ('e, 'd, 'n, unit) act" where
  "attach_glade V =
     andthen (get_inst in_glade) (\<lambda>connected.
     if connected then ret ()
     else
       andthen (mod_inst (\<lambda>i. i\<lparr>in_glade := True\<rparr>)) (\<lambda>_.
       andthen (store_all V) (\<lambda>ops.
       andthen (case de_hydrate (en_dest V) of None \<Rightarrow> ret [] | Some h \<Rightarrow> on_dest (h ops)) (\<lambda>backfill.
       andthen (on_dest (de_subscribe (en_dest V))) (\<lambda>off.
       andthen (mod_inst (\<lambda>i. i\<lparr>in_glade_off := Some off\<rparr>)) (\<lambda>_.
         if backfill \<noteq> [] then ingest V backfill else ret ()))))))"

subsection \<open>Consumers\<close>

definition subscribe :: "('e, 'd, 'n, 'k, 't, 'w) env \<Rightarrow> nat \<Rightarrow> ('e, 'd, 'n, unit) act" where
  "subscribe V l =
     andthen (mod_inst (\<lambda>i. i\<lparr>in_listeners := js_add l (in_listeners i)\<rparr>)) (\<lambda>_.
     andthen (refresh_event V) (\<lambda>ev s. (s\<lparr>cx_out := cx_out s @ [(l, ev)]\<rparr>, Inr ())))"

definition unsubscribe :: "nat \<Rightarrow> ('e, 'd, 'n, unit) act" where
  "unsubscribe l = mod_inst (\<lambda>i. i\<lparr>in_listeners := js_remove l (in_listeners i)\<rparr>)"

definition hydrate :: "('e, 'd, 'n, 'k, 't, 'w) env \<Rightarrow> ('e, 'd, 'n, unit) act" where
  "hydrate V =
     andthen (get_inst shape_of) (\<lambda>sh.
     if sh = Log then
       andthen (store_all V) (\<lambda>ops.
         mod_inst (\<lambda>i. i\<lparr>in_emitted := foldl (\<lambda>em op. js_add (op_slot op) em) (in_emitted i) ops\<rparr>))
     else if sh = Swmr then andthen (swmr_assembly_act V) (\<lambda>_. ret ())
     else if sh = Crdt then andthen (text_crdt_state V) (\<lambda>_. ret ())
     else ret ())"

definition dispose :: "('e, 'd, 'n, 'k, 't, 'w) env \<Rightarrow> ('e, 'd, 'n, unit) act" where
  "dispose V =
     andthen (save_text_checkpoint V True) (\<lambda>_.
     andthen (get_inst in_glade_off) (\<lambda>off.
     andthen (case off of None \<Rightarrow> ret () | Some n \<Rightarrow> on_dest (\<lambda>d. (de_unsubscribe (en_dest V) n d, Inr ()))) (\<lambda>_.
       mod_inst (\<lambda>i. i\<lparr>in_listeners := []\<rparr>))))"

subsection \<open>Local writes\<close>

definition own_count :: "jstr \<Rightarrow> stored_op list \<Rightarrow> int" where
  "own_count origin ops = int (length (filter (\<lambda>o'. op_origin o' = origin) ops))"

definition max_lamport :: "stored_op list \<Rightarrow> int" where
  "max_lamport ops = foldl (\<lambda>m o'. max m (op_lamport o')) 0 ops"

fun latest_ops :: "(jstr \<times> stored_op) list \<Rightarrow> stored_op list \<Rightarrow> (jstr \<times> stored_op) list" where
  "latest_ops m [] = m"
| "latest_ops m (op # ops) =
     latest_ops (case jm_get m (op_origin op) of
         None \<Rightarrow> jm_set (op_origin op) op m
       | Some prior \<Rightarrow> if op_seq op > op_seq prior then jm_set (op_origin op) op m else m) ops"

definition head_of :: "stored_op \<Rightarrow> stored_head" where
  "head_of op = \<lparr>head_origin = op_origin op, head_seq = op_seq op, head_hash = HashNull\<rparr>"

definition crdt_heads :: "lcmp \<Rightarrow> stored_op list \<Rightarrow> stored_head list" where
  "crdt_heads lc ops =
     map head_of (js_sort (\<lambda>l r. lc (op_origin l) (op_origin r)) (map snd (latest_ops [] ops)))"

text \<open>\<open>mintLocal\<close> and \<open>previewLocal\<close> differ in the origin only.\<close>

definition mint_op :: "lcmp \<Rightarrow> delivery_shape \<Rightarrow> stored_op list \<Rightarrow> jstr \<Rightarrow> bytes \<Rightarrow> stored_op" where
  "mint_op lc sh ops origin payload =
     \<lparr>op_origin = origin, op_seq = own_count origin ops + 1, op_lamport = max_lamport ops + 1, op_prev = None,
      op_refs = (if sh = Crdt then Some (crdt_heads lc ops) else None), op_payload = payload,
      op_share = None, op_glade_id = None, op_key = None\<rparr>"

definition preflight_write :: "('e, 'd, 'n, 'k, 't, 'w) env \<Rightarrow> bytes \<Rightarrow> ('e, 'd, 'n, unit) act" where
  "preflight_write V payload s =
     (let i = cx_inst s; origin = (if in_glade i then de_origin (en_dest V) (cx_dest s) else Some (in_local_origin i)) in
      case origin of
        None \<Rightarrow> (s, Inl (SwmrFail (SwmrAdapterError (jlit ''missing_writer_origin''))))
      | Some o' \<Rightarrow> andthen (store_all V) (\<lambda>ops. preflight_swmr V [mint_op (en_lc V) Swmr ops o' payload]) s)"

text \<open>The tail of \<open>write\<close>: checks, persists and folds the operation that was sent or minted.\<close>

definition land_op :: "('e, 'd, 'n, 'k, 't, 'w) env \<Rightarrow> stored_op \<Rightarrow> ('e, 'd, 'n, stored_op) act" where
  "land_op V op =
     andthen (check_incoming V [op]) (\<lambda>_.
     andthen (store_append V op) (\<lambda>out.
     andthen (if out = Appended then fold_and_broadcast V [op] else ret ()) (\<lambda>_.
       ret op)))"

definition write_payload :: "('e, 'd, 'n, 'k, 't, 'w) env \<Rightarrow> bytes \<Rightarrow> ('e, 'd, 'n, stored_op) act" where
  "write_payload V payload =
     andthen (get_inst (\<lambda>i. i)) (\<lambda>i.
     andthen (if shape_of i = Crdt then andthen (lift_text (decode_text_edit payload)) (\<lambda>_. ret ())
              else if shape_of i = Swmr then preflight_write V payload else ret ()) (\<lambda>_.
     andthen (if in_glade i then glade_send V payload
              else andthen (store_all V) (\<lambda>ops.
                ret (mint_op (en_lc V) (shape_of i) ops (in_local_origin i) payload))) (land_op V)))"

definition write_swmr :: "('e, 'd, 'n, 'k, 't, 'w) env \<Rightarrow> swmr_action \<Rightarrow> bytes \<Rightarrow> ('e, 'd, 'n, stored_op) act" where
  "write_swmr V action body =
     andthen (get_inst shape_of) (\<lambda>sh.
     if sh \<noteq> Swmr then throw (InstFail ''writeSwmr() requires shape swmr'')
     else write_payload V (encode_swmr_action action body))"

text \<open>
  \<open>replaceText\<close>. \<open>in_text_batch\<close> holds the shared array \<open>batch\<close>: the loop pushes to it, and so do
  the echoes that \<open>ingest\<close> diverts to it. The \<open>finally\<close> block ingests what there is.
\<close>

definition allocate_atom :: "jstr \<Rightarrow> int \<times> int \<Rightarrow> text_error + jstr \<times> (int \<times> int)" where
  "allocate_atom actor st =
     (let (counter, order) = st in
      rbind (text_atom_id \<lparr>te_actor = actor, te_counter = counter\<rparr> order) (\<lambda>a. Inr (a, (counter + 1, order + 1))))"

definition sorted_heads :: "lcmp \<Rightarrow> (jstr \<times> stored_head) list \<Rightarrow> stored_head list" where
  "sorted_heads lc heads = js_sort (\<lambda>a b. lc (head_origin a) (head_origin b)) (map snd heads)"

definition push_batch :: "stored_op \<Rightarrow> ('e, 'd, 'n, unit) act" where
  "push_batch op = mod_inst (\<lambda>i. i\<lparr>in_text_batch := map_option (\<lambda>b. b @ [op]) (in_text_batch i)\<rparr>)"

fun replace_loop :: "('e, 'd, 'n, 'k, 't, 'w) env \<Rightarrow> text_edit list \<Rightarrow> int \<Rightarrow> int \<Rightarrow> (jstr \<times> stored_head) list \<Rightarrow> ('e, 'd, 'n, unit) act" where
  "replace_loop V [] sequence lamport heads = ret ()"
| "replace_loop V (edit # edits) sequence lamport heads =
     andthen (get_inst (\<lambda>i. i)) (\<lambda>i.
     andthen (if in_glade i then glade_send V (encode_text_edit (en_profile V) edit)
              else ret \<lparr>op_origin = in_local_origin i, op_seq = sequence, op_lamport = lamport + 1, op_prev = None,
                op_refs = Some (sorted_heads (en_lc V) heads), op_payload = encode_text_edit (en_profile V) edit,
                op_share = None, op_glade_id = None, op_key = None\<rparr>) (\<lambda>op.
     andthen (push_batch op) (\<lambda>_.
       replace_loop V edits (if in_glade i then sequence else sequence + 1)
         (if in_glade i then lamport else lamport + 1) (jm_set (op_origin op) (head_of op) heads))))"

definition run_batch :: "('e, 'd, 'n, 'k, 't, 'w) env \<Rightarrow> ('e, 'd, 'n, unit) act \<Rightarrow> ('e, 'd, 'n, unit) act" where
  "run_batch V body s =
     (let (s1, r) = body (s\<lparr>cx_inst := (cx_inst s)\<lparr>in_text_batch := Some []\<rparr>\<rparr>);
          batch = (case in_text_batch (cx_inst s1) of None \<Rightarrow> [] | Some b \<Rightarrow> b);
          s2 = s1\<lparr>cx_inst := (cx_inst s1)\<lparr>in_text_batch := None\<rparr>\<rparr>
      in if batch = [] then (s2, r)
         else (case ingest V batch s2 of (s3, Inl e) \<Rightarrow> (s3, Inl e) | (s3, Inr _) \<Rightarrow> (s3, r)))"

definition replace_text :: "('e, 'd, 'n, 'k, 't, 'w) env \<Rightarrow> jstr \<Rightarrow> ('e, 'd, 'n, unit) act" where
  "replace_text V next_text s0 =
     andthen (get_inst (\<lambda>i. i)) (\<lambda>i.
     if shape_of i \<noteq> Crdt \<or> \<not> in_text_profile i
     then throw (InstFail ''replaceText() requires a text_crdt profile'')
     else
       andthen (text_crdt_state V) (\<lambda>st.
       let actor = (case (if in_glade i then de_origin (en_dest V) (cx_dest s0) else None) of
             None \<Rightarrow> in_local_origin i | Some o' \<Rightarrow> o') in
       andthen (store_all V) (\<lambda>before.
       andthen (lift_text (plan_text_replacement st next_text (allocate_atom actor)
           (next_text_counter st actor, max_lamport before + 1))) (\<lambda>(edits, _).
       if edits = [] then ret ()
       else
         let own = foldl (\<lambda>m o'. if op_origin o' = in_local_origin i then max m (op_seq o') else m) 0 before;
             heads = foldl (\<lambda>m h. jm_set (head_origin h) h m) [] (crdt_heads (en_lc V) before)
         in run_batch V (replace_loop V edits (own + 1) (max_lamport before) heads))))) s0"

end
