(* ===== verification/Instance_Fold.thy ===== *)
theory Instance_Fold
  imports Instance
begin

text \<open>
  What a binding instance of shape \<open>log\<close> or \<open>value\<close> promises its consumers, for every store
  engine that keeps the store contract: deliveries and local writes persist exactly the
  operations that land, every landed record of a log is fanned exactly once, and what the
  listeners saw last is what a new subscriber is shown. The lemmas are proved in the locale
  \<open>instance_env\<close> (an environment whose engine keeps the contract \<open>store_engine\<close>), which is
  interpreted on the memory engine.
\<close>

definition held :: "('e, 'd, 'n, 'k, 't, 'w) env \<Rightarrow> ('e, 'd, 'n) ctx \<Rightarrow> stored_op list" where
  "held V s = si_all (ei_store (en_engine V) (in_store (cx_inst s))) (cx_engine s)"

definition placed :: "('e \<Rightarrow> bool) \<Rightarrow> ('e \<Rightarrow> nat set) \<Rightarrow> ('e, 'd, 'n) ctx \<Rightarrow> bool" where
  "placed einv live s \<longleftrightarrow> einv (cx_engine s) \<and> in_store (cx_inst s) \<in> live (cx_engine s)"

text \<open>The persisting loop on the engine alone.\<close>

fun engine_put :: "('e, 'c) engine_if \<Rightarrow> nat \<Rightarrow> stored_op list \<Rightarrow> 'e \<Rightarrow> 'e" where
  "engine_put E a [] e = e"
| "engine_put E a (op # ops) e = engine_put E a ops (fst (si_append (ei_store E a) op e))"

subsection \<open>The action combinators\<close>

named_theorems act_simps

lemma act_eval [act_simps]:
  "ret x s = (s, Inr x)" "throw e s = (s, Inl e)" "get_inst f s = (s, Inr (f (cx_inst s)))"
  "mod_inst g s = (s\<lparr>cx_inst := g (cx_inst s)\<rparr>, Inr ())"
  "broadcast ev s = (s\<lparr>cx_out := cx_out s @ map (\<lambda>l. (l, ev)) (in_listeners (cx_inst s))\<rparr>, Inr ())"
  "store_all V s = (s, Inr (held V s))"
  by (simp_all add: ret_def throw_def get_inst_def mod_inst_def broadcast_def store_all_def held_def)

lemma andthen_eval [act_simps]:
  "andthen m f s = (case m s of (s', Inl e) \<Rightarrow> (s', Inl e) | (s', Inr x) \<Rightarrow> f x s')"
  by (simp add: andthen_def)

lemma andthen_assoc: "andthen (andthen m f) g s = andthen m (\<lambda>x. andthen (f x) g) s"
  by (simp add: andthen_def split: prod.split sum.split)

lemma andthen_ret: "andthen m ret = m"
  by (rule ext) (simp add: andthen_def ret_def split: prod.split sum.split)

lemma held_upd [simp]:
  "held V (s\<lparr>cx_dest := d\<rparr>) = held V s" "held V (s\<lparr>cx_out := out\<rparr>) = held V s"
  "held V (s\<lparr>cx_inst := (cx_inst s)\<lparr>in_emitted := em\<rparr>\<rparr>) = held V s"
  by (simp_all add: held_def)

lemma placed_upd [simp]:
  "placed einv live (s\<lparr>cx_dest := d\<rparr>) = placed einv live s" "placed einv live (s\<lparr>cx_out := out\<rparr>) = placed einv live s"
  "placed einv live (s\<lparr>cx_inst := (cx_inst s)\<lparr>in_emitted := em\<rparr>\<rparr>) = placed einv live s"
  by (simp_all add: placed_def)

subsection \<open>Order and numbering of the log\<close>

interpretation op_order: comparator op_compare rank_of
  by unfold_locales (auto simp: op_compare_def rank_of_def less_eq_op_rank_def)

lemma assemble_log_eq: "assemble_log ops = number_from 0 (map op_payload ops)"
  by (simp add: assemble_log_def log_all_def log_push_all_records log_buffer_new_def)

lemma length_assemble_log [simp]: "length (assemble_log ops) = length ops"
  by (simp add: assemble_log_eq)

lemma payloads_number_from: "map lr_payload (number_from n ps) = ps"
  by (rule nth_equalityI) simp_all

interpretation log_assembly: convergent_assembly "\<lambda>ops. assemble_log (sorted_ops ops)"
proof (unfold_locales, goal_cases)
  case (1 xs ys)
  then have "sorted_ops xs = sorted_ops ys"
    unfolding sorted_ops_def
    by (intro op_order.sort_unique) (auto simp: distinct_map inj_on_rank)
  then show ?case by simp
qed

lemma number_from_append: "number_from n (ps @ qs) = number_from n ps @ number_from (n + int (length ps)) qs"
  by (induction ps arbitrary: n) (simp_all add: number_from_Cons add_ac)

text \<open>The records of the converged whole that stand for the operations in \<open>A\<close>, with their index in it.\<close>

definition records_at :: "stored_op list \<Rightarrow> jstr set \<Rightarrow> log_record list" where
  "records_at ops A = map snd (filter (\<lambda>p. op_slot (fst p) \<in> A) (zip (sorted_ops ops) (assemble_log (sorted_ops ops))))"

lemma log_fan_spec:
  assumes "length rs = length ops" "distinct (map op_slot ops)"
  shows "log_fan ops rs em = (em @ filter (\<lambda>x. x \<notin> set em) (map op_slot ops),
     map snd (filter (\<lambda>p. op_slot (fst p) \<notin> set em) (zip ops rs)))"
  using assms
proof (induction ops rs em rule: log_fan.induct)
  case (1 op ops r rs em)
  have other: "op_slot op \<notin> set (map op_slot ops)" using 1(4) by simp
  have "filter (\<lambda>x. x \<notin> set (js_add (op_slot op) em)) (map op_slot ops) = filter (\<lambda>x. x \<notin> set em) (map op_slot ops)"
    by (rule filter_cong) (use other in \<open>auto simp del: set_map\<close>)
  moreover have "filter (\<lambda>p. op_slot (fst p) \<notin> set (js_add (op_slot op) em)) (zip ops rs) = filter (\<lambda>p. op_slot (fst p) \<notin> set em) (zip ops rs)"
    using other by (intro filter_cong) (auto simp: image_iff, metis set_zip_leftD)
  ultimately show ?case using 1 by (auto simp: js_add_def)
qed auto

lemma map_fst_filter_zip:
  "length rs = length ops \<Longrightarrow> map fst (filter (\<lambda>p. P (fst p)) (zip ops rs)) = filter P ops"
  by (induction ops rs rule: list_induct2') auto

lemma payload_filter_zip:
  "map lr_payload rs = map op_payload ops \<Longrightarrow>
   map lr_payload (map snd (filter (\<lambda>p. P (fst p)) (zip ops rs))) = map op_payload (filter P ops)"
  by (induction ops rs rule: list_induct2') auto

lemma records_at_payloads: "map lr_payload (records_at ops A) = map op_payload (filter (\<lambda>o'. op_slot o' \<in> A) (sorted_ops ops))"
  unfolding records_at_def by (rule payload_filter_zip) (simp add: assemble_log_eq payloads_number_from)

lemma mset_records_at:
  assumes "distinct (map op_id (old @ new))"
  shows "mset (map lr_payload (records_at (old @ new) (op_slot ` set new))) = mset (map op_payload new)"
proof -
  have "filter (\<lambda>o'. op_slot o' \<in> op_slot ` set new) (old @ new) = new"
    using assms by (auto simp: op_slot_image_iff filter_empty_conv filter_id_conv)
  then have "filter_mset (\<lambda>o'. op_slot o' \<in> op_slot ` set new) (mset (sorted_ops (old @ new))) = mset new"
    by (metis mset_filter mset_js_sort sorted_ops_def)
  then show ?thesis
    by (simp add: records_at_payloads flip: mset_filter)
qed

subsection \<open>Events of a run\<close>

text \<open>
  \<open>fold_event\<close> is the event that a fold of the instance hands to its listeners after the
  operations \<open>new\<close> landed on top of \<open>old\<close>: for a log the newly landed records, each with its
  index in the converged whole, after \<open>length old\<close> delivered ones; otherwise the whole value.
\<close>

definition fold_event :: "delivery_shape \<Rightarrow> jstr \<Rightarrow> stored_op list \<Rightarrow> stored_op list \<Rightarrow> instance_event" where
  "fold_event sh g old new =
     (if sh = Log
      then log_delta g (int (length old)) (records_at (old @ new) (op_slot ` set new)) (assemble_log (sorted_ops (old @ new)))
      else value_event g (old @ new))"

fun fold_events :: "delivery_shape \<Rightarrow> jstr \<Rightarrow> stored_op list \<Rightarrow> stored_op list list \<Rightarrow> instance_event list" where
  "fold_events sh g old [] = []"
| "fold_events sh g old (new # news) = fold_event sh g old new # fold_events sh g (old @ new) news"

definition fan :: "nat list \<Rightarrow> instance_event list \<Rightarrow> (nat \<times> instance_event) list" where
  "fan ls evs = concat (map (\<lambda>e. map (\<lambda>l. (l, e)) ls) evs)"

lemma fan_simps [simp]:
  "fan ls [] = []" "fan ls (xs @ ys) = fan ls xs @ fan ls ys" "fan ls [e] = map (\<lambda>l. (l, e)) ls"
  by (simp_all add: fan_def)

lemma fan_of_listener:
  assumes "distinct ls" "l \<in> set ls"
  shows "map snd (filter (\<lambda>p. fst p = l) (fan ls evs)) = evs"
proof (induction evs)
  case (Cons e evs)
  have "filter (\<lambda>x. x = l) ls = [l]" using assms by (induction ls) (auto simp: filter_empty_conv)
  then have "filter (\<lambda>p. fst p = l) (map (\<lambda>l. (l, e)) ls) = [(l, e)]" by (simp add: filter_map comp_def)
  with Cons show ?case by (simp add: fan_def)
qed (simp add: fan_def)

lemma fold_events_append:
  "fold_events sh g old (xs @ ys) = fold_events sh g old xs @ fold_events sh g (old @ concat xs) ys"
  by (induction xs arbitrary: old) auto

text \<open>The records of an increment, and what a sequence of events carries.\<close>

definition delta_of :: "instance_event \<Rightarrow> log_record list" where
  "delta_of e = (case ie_delta e of None \<Rightarrow> [] | Some d \<Rightarrow> d)"

lemma fold_event_log [simp]:
  "delta_of (fold_event Log g old new) = records_at (old @ new) (op_slot ` set new)"
  "ie_records (fold_event Log g old new) = Some (assemble_log (sorted_ops (old @ new)))"
  "ce_base_seq (ie_envelope (fold_event Log g old new)) = Some (int (length old))"
  by (simp_all add: fold_event_def delta_of_def)

lemma fold_event_whole: "sh \<noteq> Log \<Longrightarrow> fold_event sh g old new = value_event g (old @ new)"
  by (simp add: fold_event_def)

lemma length_records_at:
  "distinct (map op_id (old @ new)) \<Longrightarrow> length (records_at (old @ new) (op_slot ` set new)) = length new"
  using mset_records_at [of old new] by (metis length_map size_mset)

lemma fold_events_deltas:
  "distinct (map op_id (old @ concat news)) \<Longrightarrow>
   mset (map lr_payload (concat (map delta_of (fold_events Log g old news)))) = mset (map op_payload (concat news))"
proof (induction news arbitrary: old)
  case (Cons new news)
  then have "mset (map lr_payload (records_at (old @ new) (op_slot ` set new))) = mset (map op_payload new)"
    by (intro mset_records_at) auto
  moreover have "mset (map lr_payload (concat (map delta_of (fold_events Log g (old @ new) news)))) = mset (map op_payload (concat news))"
    using Cons.prems by (intro Cons.IH) (simp only: append_assoc concat.simps)
  ultimately show ?case by simp
qed simp

lemma fold_events_bases:
  "distinct (map op_id (old @ concat news)) \<Longrightarrow> i < length (fold_events Log g old news) \<Longrightarrow>
   ce_base_seq (ie_envelope (fold_events Log g old news ! i))
     = Some (int (length old + length (concat (map delta_of (take i (fold_events Log g old news))))))"
proof (induction news arbitrary: old i)
  case (Cons new news)
  then have "length (records_at (old @ new) (op_slot ` set new)) = length new" by (intro length_records_at) auto
  moreover have "distinct (map op_id ((old @ new) @ concat news))" using Cons.prems(1) by (simp only: append_assoc concat.simps)
  note Cons.IH [OF this]
  ultimately show ?case using Cons.prems(2) by (cases i) simp_all
qed simp

lemma fold_events_last:
  "news \<noteq> [] \<Longrightarrow> \<exists>prior. last (fold_events sh g old news) = fold_event sh g prior (last news) \<and> prior @ last news = old @ concat news"
proof (induction news arbitrary: old)
  case (Cons new news)
  show ?case
  proof (cases news)
    case (Cons n ns)
    then have "fold_events sh g (old @ new) news \<noteq> []" by simp
    with Cons Cons.IH [of "old @ new"] show ?thesis by simp
  qed auto
qed simp

lemma fold_events_Nil_iff [simp]: "fold_events sh g old news = [] \<longleftrightarrow> news = []"
  by (cases news) simp_all

text \<open>
  A settled instance has no open replacement batch and, for a log, has marked exactly the
  operations of its store as delivered. \<open>progress V s news s'\<close>: between \<open>s\<close> and \<open>s'\<close> the non-empty
  batches \<open>news\<close> landed, and every listener was handed the event of each of them, and nothing else.
\<close>

definition settled :: "('e, 'd, 'n, 'k, 't, 'w) env \<Rightarrow> ('e, 'd, 'n) ctx \<Rightarrow> bool" where
  "settled V s \<longleftrightarrow> shape_of (cx_inst s) \<noteq> Swmr \<and> shape_of (cx_inst s) \<noteq> Crdt \<and> in_text_batch (cx_inst s) = None
     \<and> (shape_of (cx_inst s) = Log \<longrightarrow> distinct (in_emitted (cx_inst s)) \<and> set (in_emitted (cx_inst s)) = op_slot ` set (held V s))"

definition progress :: "('e, 'd, 'n, 'k, 't, 'w) env \<Rightarrow> ('e, 'd, 'n) ctx \<Rightarrow> stored_op list list \<Rightarrow> ('e, 'd, 'n) ctx \<Rightarrow> bool" where
  "progress V s news s' \<longleftrightarrow> held V s' = held V s @ concat news \<and> [] \<notin> set news
     \<and> in_listeners (cx_inst s') = in_listeners (cx_inst s) \<and> in_glade_id (cx_inst s') = in_glade_id (cx_inst s)
     \<and> shape_of (cx_inst s') = shape_of (cx_inst s)
     \<and> cx_out s' = cx_out s
         @ fan (in_listeners (cx_inst s)) (fold_events (shape_of (cx_inst s)) (in_glade_id (cx_inst s)) (held V s) news)"

lemma progress_refl: "progress V s [] s"
  by (simp add: progress_def)

lemma progress_trans: "progress V s xs s' \<Longrightarrow> progress V s' ys s'' \<Longrightarrow> progress V s (xs @ ys) s''"
  by (auto simp: progress_def fold_events_append)

lemma distinct_map_sorted_ops: "distinct (map f (sorted_ops ops)) \<longleftrightarrow> distinct (map f ops)"
  unfolding sorted_ops_def by (intro mset_eq_imp_distinct_iff) simp

lemma fold_marks:
  assumes ids: "distinct (map op_id (old @ new))" and new: "new \<noteq> []" and em: "set em = op_slot ` set old" "distinct em"
  shows "\<exists>em'. log_fan (sorted_ops (old @ new)) (assemble_log (sorted_ops (old @ new))) em
      = (em', records_at (old @ new) (op_slot ` set new))
    \<and> distinct em' \<and> set em' = op_slot ` set (old @ new) \<and> records_at (old @ new) (op_slot ` set new) \<noteq> []"
proof -
  let ?ops = "sorted_ops (old @ new)"
  have slots: "distinct (map op_slot ?ops)" "set ?ops = set (old @ new)"
    using ids by (simp_all only: distinct_op_slot distinct_map_sorted_ops) (simp add: sorted_ops_def)
  have sides: "op_slot o' \<notin> op_slot ` set old \<longleftrightarrow> op_slot o' \<in> op_slot ` set new" if "o' \<in> set ?ops" for o'
  proof -
    from that have "o' \<in> set old \<or> o' \<in> set new" by (simp add: slots(2))
    moreover have "op_id ` set old \<inter> op_id ` set new = {}" using ids by simp
    ultimately show ?thesis unfolding op_slot_image_iff by blast
  qed
  have "filter (\<lambda>p. op_slot (fst p) \<notin> op_slot ` set old) (zip ?ops rs) = filter (\<lambda>p. op_slot (fst p) \<in> op_slot ` set new) (zip ?ops rs)" for rs :: "log_record list"
    using sides by (intro filter_cong refl) (metis set_zip_leftD prod.collapse)
  moreover have "records_at (old @ new) (op_slot ` set new) \<noteq> []"
    using mset_records_at [OF ids] new by auto
  ultimately show ?thesis
    using slots em log_fan_spec [of "assemble_log ?ops" ?ops em]
    by (auto simp: records_at_def distinct_filter)
qed

subsection \<open>Runs\<close>

text \<open>What a caller, the session and a mount can do to an instance, one call after the other.\<close>

datatype instance_input = Deliver "stored_op list" | LocalWrite bytes | Attach

fun instance_step :: "('e, 'd, 'n, 'k, 't, 'w) env \<Rightarrow> instance_input \<Rightarrow> ('e, 'd, 'n) ctx \<Rightarrow> ('e, 'd, 'n) ctx" where
  "instance_step V (Deliver ops) s = fst (ingest V ops s)"
| "instance_step V (LocalWrite payload) s = fst (write_payload V payload s)"
| "instance_step V Attach s = fst (attach_glade V s)"

fun instance_run :: "('e, 'd, 'n, 'k, 't, 'w) env \<Rightarrow> instance_input list \<Rightarrow> ('e, 'd, 'n) ctx \<Rightarrow> ('e, 'd, 'n) ctx" where
  "instance_run V [] s = s"
| "instance_run V (i # ins) s = instance_run V ins (instance_step V i s)"

definition same_view :: "('e, 'd, 'n, 'k, 't, 'w) env \<Rightarrow> ('e, 'd, 'n) ctx \<Rightarrow> ('e, 'd, 'n) ctx \<Rightarrow> bool" where
  "same_view V s s' \<longleftrightarrow> cx_engine s' = cx_engine s \<and> cx_out s' = cx_out s
     \<and> in_store (cx_inst s') = in_store (cx_inst s) \<and> in_adapter (cx_inst s') = in_adapter (cx_inst s)
     \<and> in_glade_id (cx_inst s') = in_glade_id (cx_inst s) \<and> in_listeners (cx_inst s') = in_listeners (cx_inst s)
     \<and> in_emitted (cx_inst s') = in_emitted (cx_inst s) \<and> in_text_batch (cx_inst s') = in_text_batch (cx_inst s)"

lemma same_view_fields:
  assumes "same_view V s s'"
  shows "held V s' = held V s" "placed einv live s' = placed einv live s" "settled V s' = settled V s"
    and "progress V r news s' = progress V r news s"
  using assms by (simp_all add: same_view_def held_def placed_def settled_def progress_def shape_of_def)

lemma progress_from_view: "same_view V s s' \<Longrightarrow> progress V s' news r = progress V s news r"
  by (simp add: same_view_def held_def progress_def shape_of_def)

lemma same_view_dest [simp]: "same_view V s (s\<lparr>cx_dest := d\<rparr>)"
  by (simp add: same_view_def)

subsection \<open>Persisting\<close>

locale instance_env = store_engine "en_engine V" einv live
  for V :: "('e, 'd, 'n, 'k, 't, 'w) env" and einv live
begin

lemma engine_put_spec:
  assumes "einv e" "a \<in> live e"
  shows "let e' = engine_put (en_engine V) a ops e in einv e' \<and> live e' = live e
    \<and> si_all (ei_store (en_engine V) a) e' = si_all (ei_store (en_engine V) a) e @ landed (si_all (ei_store (en_engine V) a) e) ops
    \<and> (\<forall>b \<in> live e - {a}. si_all (ei_store (en_engine V) b) e' = si_all (ei_store (en_engine V) b) e)"
  using assms
proof (induction ops arbitrary: e)
  case (Cons op ops)
  let ?e = "fst (si_append (ei_store (en_engine V) a) op e)"
  have "einv ?e" "live ?e = live e" using Cons.prems append_at_inv append_live by auto
  with Cons.IH [of ?e] Cons.prems show ?case
    using append_at_all [OF Cons.prems, of op] append_frame [OF Cons.prems] by (simp add: Let_def)
qed (simp add: Let_def)

lemma held_distinct: "placed einv live s \<Longrightarrow> distinct (map op_id (held V s))"
  using instance_store.ids_distinct [OF stores] by (simp add: placed_def held_def)

lemma store_append_eq [act_simps]:
  assumes "placed einv live s"
  shows "store_append V op s =
    (s\<lparr>cx_engine := engine_put (en_engine V) (in_store (cx_inst s)) [op] (cx_engine s)\<rparr>,
     Inr (if op_id op \<in> op_id ` set (held V s) then AppendDuplicate else Appended))"
  using assms instance_store.append_fresh [OF stores] instance_store.append_held [OF stores]
  by (fastforce simp: store_append_def placed_def held_def split: prod.split)

lemma put_placed [simp]: "placed einv live s \<Longrightarrow>
    placed einv live (s\<lparr>cx_engine := engine_put (en_engine V) (in_store (cx_inst s)) ops (cx_engine s)\<rparr>)"
  using engine_put_spec [of "cx_engine s" "in_store (cx_inst s)" ops] by (simp add: Let_def placed_def)

lemma put_held [simp]: "placed einv live s \<Longrightarrow>
    held V (s\<lparr>cx_engine := engine_put (en_engine V) (in_store (cx_inst s)) ops (cx_engine s)\<rparr>) = held V s @ landed (held V s) ops"
  using engine_put_spec [of "cx_engine s" "in_store (cx_inst s)" ops] by (simp add: Let_def placed_def held_def)

lemma append_loop_eq [act_simps]:
  "placed einv live s \<Longrightarrow> append_loop V ops s =
    (s\<lparr>cx_engine := engine_put (en_engine V) (in_store (cx_inst s)) ops (cx_engine s)\<rparr>, Inr (landed (held V s) ops))"
proof (induction ops arbitrary: s)
  case (Cons op ops)
  let ?s = "s\<lparr>cx_engine := engine_put (en_engine V) (in_store (cx_inst s)) [op] (cx_engine s)\<rparr>"
  have "append_loop V ops ?s = (?s\<lparr>cx_engine := engine_put (en_engine V) (in_store (cx_inst ?s)) ops (cx_engine ?s)\<rparr>, Inr (landed (held V ?s) ops))"
    by (rule Cons.IH) (simp only: put_placed Cons.prems)
  moreover have "held V ?s = held V s @ landed (held V s) [op]" by (rule put_held [OF Cons.prems])
  ultimately show ?case
    using store_append_eq [OF Cons.prems, of op] by (simp add: andthen_def ret_def)
qed (simp add: ret_def)

subsection \<open>Folding and fanning\<close>

text \<open>What a delivery may change of the context, besides the engine: the marks and the output.\<close>

lemma fold_landed:
  assumes "placed einv live s" "held V s = old @ new" "new \<noteq> []"
    and "shape_of (cx_inst s) \<noteq> Swmr" "shape_of (cx_inst s) \<noteq> Crdt" "in_text_batch (cx_inst s) = None"
    and "shape_of (cx_inst s) = Log \<Longrightarrow> distinct (in_emitted (cx_inst s)) \<and> set (in_emitted (cx_inst s)) = op_slot ` set old"
  shows "\<exists>em. fold_and_broadcast V x s =
      (s\<lparr>cx_inst := (cx_inst s)\<lparr>in_emitted := em\<rparr>,
         cx_out := cx_out s @ fan (in_listeners (cx_inst s)) [fold_event (shape_of (cx_inst s)) (in_glade_id (cx_inst s)) old new]\<rparr>, Inr ())
    \<and> (shape_of (cx_inst s) = Log \<longrightarrow> distinct em \<and> set em = op_slot ` set (old @ new))"
proof (cases "shape_of (cx_inst s) = Log")
  case True
  have ids: "distinct (map op_id (old @ new))" using held_distinct [OF assms(1)] assms(2) by simp
  from assms(7) True have em: "set (in_emitted (cx_inst s)) = op_slot ` set old" "distinct (in_emitted (cx_inst s))" by auto
  obtain em' where fan: "log_fan (sorted_ops (old @ new)) (assemble_log (sorted_ops (old @ new))) (in_emitted (cx_inst s))
        = (em', records_at (old @ new) (op_slot ` set new))"
      "distinct em'" "set em' = op_slot ` set (old @ new)" "records_at (old @ new) (op_slot ` set new) \<noteq> []"
    using fold_marks [OF ids assms(3) em] by blast
  have "length (in_emitted (cx_inst s)) = length old"
    using em ids by (metis distinct_append distinct_card distinct_map distinct_op_slot length_map list.set_map map_append)
  then have "fold_and_broadcast V x s = (s\<lparr>cx_inst := (cx_inst s)\<lparr>in_emitted := em'\<rparr>,
      cx_out := cx_out s @ fan (in_listeners (cx_inst s)) [fold_event Log (in_glade_id (cx_inst s)) old new]\<rparr>, Inr ())"
    using True fan by (simp add: fold_and_broadcast_def fold_log_def act_simps assms(2) Let_def fold_event_def)
  with fan True show ?thesis by auto
next
  case False
  then have "fold_and_broadcast V x s = (s\<lparr>cx_inst := (cx_inst s)\<lparr>in_emitted := in_emitted (cx_inst s)\<rparr>,
      cx_out := cx_out s @ fan (in_listeners (cx_inst s)) [fold_event (shape_of (cx_inst s)) (in_glade_id (cx_inst s)) old new]\<rparr>, Inr ())"
    using assms by (simp add: fold_and_broadcast_def refresh_event_def act_simps fold_event_def)
  with False show ?thesis by blast
qed

lemma ingest_progress:
  assumes "placed einv live s" "settled V s"
  shows "\<exists>s'. ingest V ops s = (s', Inr ()) \<and> placed einv live s' \<and> settled V s'
    \<and> progress V s (filter (\<lambda>n. n \<noteq> []) [landed (held V s) ops]) s'
    \<and> cx_dest s' = cx_dest s \<and> cx_inst s' = (cx_inst s)\<lparr>in_emitted := in_emitted (cx_inst s')\<rparr>"
proof -
  let ?s = "s\<lparr>cx_engine := engine_put (en_engine V) (in_store (cx_inst s)) ops (cx_engine s)\<rparr>"
  let ?new = "landed (held V s) ops"
  have step: "ingest V ops s = (if ?new \<noteq> [] then fold_and_broadcast V ?new ?s else (?s, Inr ()))"
    using assms by (auto simp: ingest_def settled_def check_incoming_def act_simps)
  have p: "placed einv live ?s" "held V ?s = held V s @ ?new" using assms by simp_all
  show ?thesis
  proof (cases "?new = []")
    case True
    with step p assms show ?thesis
      by (intro exI [of _ ?s]) (auto simp: settled_def progress_def)
  next
    case False
    then obtain em where em: "fold_and_broadcast V ?new ?s = (?s\<lparr>cx_inst := (cx_inst s)\<lparr>in_emitted := em\<rparr>,
         cx_out := cx_out s @ fan (in_listeners (cx_inst s)) [fold_event (shape_of (cx_inst s)) (in_glade_id (cx_inst s)) (held V s) ?new]\<rparr>, Inr ())"
       "shape_of (cx_inst s) = Log \<longrightarrow> distinct em \<and> set em = op_slot ` set (held V s @ ?new)"
      using fold_landed [OF p False, of ?new] assms by (auto simp: settled_def)
    let ?t = "?s\<lparr>cx_inst := (cx_inst s)\<lparr>in_emitted := em\<rparr>,
         cx_out := cx_out s @ fan (in_listeners (cx_inst s)) [fold_event (shape_of (cx_inst s)) (in_glade_id (cx_inst s)) (held V s) ?new]\<rparr>"
    have t: "placed einv live ?t" "held V ?t = held V s @ ?new"
      using p by (simp_all add: placed_def held_def)
    show ?thesis
    proof (intro exI [of _ ?t] conjI)
      show "settled V ?t" using em(2) assms(2) t(2) by (auto simp: settled_def shape_of_def)
      show "progress V s (filter (\<lambda>n. n \<noteq> []) [?new]) ?t"
        using False t(2) by (simp add: progress_def shape_of_def)
    qed (use step em False t(1) in simp_all)
  qed
qed

definition advances :: "('e, 'd, 'n) ctx \<Rightarrow> stored_op list list \<Rightarrow> ('e, 'd, 'n) ctx \<Rightarrow> bool" where
  "advances s news s' \<longleftrightarrow> placed einv live s' \<and> settled V s' \<and> progress V s news s'"

lemma advances_refl: "placed einv live s \<Longrightarrow> settled V s \<Longrightarrow> advances s [] s"
  by (simp add: advances_def progress_refl)

lemma advances_trans: "advances s xs s' \<Longrightarrow> advances s' ys s'' \<Longrightarrow> advances s (xs @ ys) s''"
  by (auto simp: advances_def intro: progress_trans)

lemma advances_view: "advances s xs s' \<Longrightarrow> same_view V s' s'' \<Longrightarrow> advances s xs s''"
  by (simp add: advances_def same_view_fields)

lemma advances_from_view: "advances s' xs s'' \<Longrightarrow> same_view V s s' \<Longrightarrow> advances s xs s''"
  by (simp add: advances_def progress_from_view)

lemma advancesD: "advances s xs s' \<Longrightarrow> placed einv live s' \<and> settled V s' \<and> held V s' = held V s @ concat xs"
  by (auto simp: advances_def progress_def)

lemma ingest_advances:
  assumes "placed einv live s" "settled V s"
  shows "\<exists>s' news. ingest V ops s = (s', Inr ()) \<and> advances s news s' \<and> concat news = landed (held V s) ops
    \<and> cx_dest s' = cx_dest s \<and> cx_inst s' = (cx_inst s)\<lparr>in_emitted := in_emitted (cx_inst s')\<rparr>"
proof -
  obtain s' where "ingest V ops s = (s', Inr ())" "advances s (filter (\<lambda>n. n \<noteq> []) [landed (held V s) ops]) s'"
      "cx_dest s' = cx_dest s" "cx_inst s' = (cx_inst s)\<lparr>in_emitted := in_emitted (cx_inst s')\<rparr>"
    using ingest_progress [OF assms, of ops] unfolding advances_def by blast
  then show ?thesis by (intro exI [of _ s'] exI [of _ "filter (\<lambda>n. n \<noteq> []) [landed (held V s) ops]"] conjI) simp_all
qed

lemma echo_advances:
  assumes "placed einv live s" "settled V s"
  shows "\<exists>s' news. echo_batches V steps s = (s', Inr ()) \<and> advances s news s'
    \<and> concat news = landed (held V s) (concat (map snd steps))"
  using assms
proof (induction steps arbitrary: s)
  case Nil
  then show ?case using advances_refl by (intro exI [of _ s] exI [of _ "[]"]) (simp add: ret_def)
next
  case (Cons step steps)
  obtain d ops where step: "step = (d, ops)" by (cases step)
  let ?s = "s\<lparr>cx_dest := d\<rparr>"
  have "placed einv live ?s" "settled V ?s" using Cons.prems by (simp_all add: same_view_fields [OF same_view_dest])
  then obtain s' news where 1: "ingest V ops ?s = (s', Inr ())" "advances ?s news s'" "concat news = landed (held V s) ops"
    using ingest_advances [of ?s ops] unfolding held_upd by blast
  have s': "advances s news s'" by (rule advances_from_view [OF 1(2) same_view_dest])
  have "placed einv live s'" "settled V s'" using advancesD [OF s'] by simp_all
  from Cons.IH [OF this] obtain s'' news' where 2: "echo_batches V steps s' = (s'', Inr ())" "advances s' news' s''"
      "concat news' = landed (held V s') (concat (map snd steps))" by blast
  have "echo_batches V (step # steps) s = (s'', Inr ())"
    using 1 2 by (simp add: step on_dest_def act_simps)
  moreover have "concat (news @ news') = landed (held V s) (concat (map snd (step # steps)))"
    using 1(3) 2(3) advancesD [OF s'] by (simp add: step landed_append)
  ultimately show ?case using advances_trans [OF s' 2(2)] by blast
qed

text \<open>The tail of \<open>write\<close> for one operation is a delivery of that operation.\<close>

lemma land_is_ingest:
  assumes "placed einv live s" "settled V s"
  shows "land_op V op s = andthen (ingest V [op]) (\<lambda>_. ret op) s"
  using assms by (auto simp: land_op_def ingest_def settled_def check_incoming_def act_simps)

definition minted :: "('e, 'd, 'n) ctx \<Rightarrow> bytes \<Rightarrow> stored_op" where
  "minted s payload = mint_op (en_lc V) (shape_of (cx_inst s)) (held V s) (in_local_origin (cx_inst s)) payload"

lemma write_eq:
  assumes "placed einv live s" "settled V s"
  shows "write_payload V payload s =
    andthen (if in_glade (cx_inst s) then glade_send V payload else ret (minted s payload))
      (\<lambda>op. andthen (ingest V [op]) (\<lambda>_. ret op)) s"
proof (cases "in_glade (cx_inst s)")
  case False
  then have "write_payload V payload s = land_op V (minted s payload) s"
    using assms(2) by (simp add: write_payload_def settled_def act_simps minted_def)
  with False show ?thesis by (simp add: land_is_ingest [OF assms] andthen_def [of "ret _"] ret_def)
next
  case True
  obtain steps d r where send: "de_send (en_dest V) payload (cx_dest s) = (steps, d, r)" by (cases "de_send (en_dest V) payload (cx_dest s)")
  obtain s' news where s': "echo_batches V steps s = (s', Inr ())" "advances s news s'"
    using echo_advances [OF assms] by blast
  have g: "glade_send V payload s = (s'\<lparr>cx_dest := d\<rparr>, r)"
    using s' by (simp add: glade_send_def send act_simps)
  have "placed einv live (s'\<lparr>cx_dest := d\<rparr>)" "settled V (s'\<lparr>cx_dest := d\<rparr>)"
    using advancesD [OF s'(2)] by (simp_all add: same_view_fields [OF same_view_dest])
  note tail = land_is_ingest [OF this]
  have "write_payload V payload s = andthen (glade_send V payload) (land_op V) s"
    using assms(2) True by (simp add: write_payload_def settled_def act_simps)
  then show ?thesis
    using True tail by (cases r) (simp_all add: andthen_def g)
qed

text \<open>What \<open>send\<close> is told to have echoed, and what it returned.\<close>

abbreviation send_result :: "bytes \<Rightarrow> ('e, 'd, 'n) ctx \<Rightarrow> ('d \<times> stored_op list) list \<times> 'd \<times> (inst_error + stored_op)" where
  "send_result payload s \<equiv> (if in_glade (cx_inst s) then de_send (en_dest V) payload (cx_dest s)
     else ([], cx_dest s, Inr (minted s payload)))"

lemma write_advances:
  assumes "placed einv live s" "settled V s" "send_result payload s = (steps, d, r)"
  shows "\<exists>s' news. write_payload V payload s = (s', r) \<and> advances s news s' \<and> cx_dest s' = d
    \<and> concat news = landed (held V s) (concat (map snd steps) @ (case r of Inl _ \<Rightarrow> [] | Inr op \<Rightarrow> [op]))"
proof -
  obtain s1 news where 1: "(if in_glade (cx_inst s) then glade_send V payload else ret (minted s payload)) s = (s1, r)"
      "advances s news s1" "cx_dest s1 = d" "concat news = landed (held V s) (concat (map snd steps))"
  proof (cases "in_glade (cx_inst s)")
    case True
    obtain t news where t: "echo_batches V steps s = (t, Inr ())" "advances s news t"
        "concat news = landed (held V s) (concat (map snd steps))"
      using echo_advances [OF assms(1,2)] by blast
    with True assms(3) have "glade_send V payload s = (t\<lparr>cx_dest := d\<rparr>, r)" by (simp add: glade_send_def act_simps)
    then show thesis
      using True t(3) by (intro that [OF _ advances_view [OF t(2) same_view_dest]]) simp_all
  next
    case False
    with assms show thesis by (intro that [OF _ advances_refl]) (auto simp: ret_def)
  qed
  show ?thesis
  proof (cases r)
    case (Inl e)
    with 1 show ?thesis
      by (intro exI [of _ s1] exI [of _ news]) (simp add: write_eq [OF assms(1,2)] andthen_def)
  next
    case (Inr op)
    have "placed einv live s1" "settled V s1" using advancesD [OF 1(2)] by simp_all
    from ingest_advances [OF this, of "[op]"] obtain s2 news' where
      2: "ingest V [op] s1 = (s2, Inr ())" "advances s1 news' s2" "concat news' = landed (held V s1) [op]" "cx_dest s2 = cx_dest s1"
      by blast
    have "write_payload V payload s = (s2, r)"
      using 1(1) 2(1) Inr by (simp add: write_eq [OF assms(1,2)] andthen_def ret_def)
    moreover have "concat (news @ news') = landed (held V s) (concat (map snd steps) @ [op])"
      using 1(4) 2(3) advancesD [OF 1(2)] by (simp only: concat_append landed_append)
    ultimately show ?thesis using advances_trans [OF 1(2) 2(2)] 1(3) 2(4) Inr
      by (intro exI [of _ s2] exI [of _ "news @ news'"]) simp
  qed
qed

text \<open>What a successful attachment gets from the destination, and what it leaves there.\<close>

definition dest_hydrate :: "('e, 'd, 'n) ctx \<Rightarrow> 'd \<times> (inst_error + stored_op list)" where
  "dest_hydrate s = (case de_hydrate (en_dest V) of None \<Rightarrow> (cx_dest s, Inr []) | Some h \<Rightarrow> h (held V s) (cx_dest s))"

lemma attach_hydrated:
  assumes "placed einv live s" "settled V s" "\<not> in_glade (cx_inst s)"
    and "dest_hydrate s = (d, Inr extra)" "de_subscribe (en_dest V) d = (d', Inr off)"
  shows "\<exists>s' news. attach_glade V s = (s', Inr ()) \<and> advances s news s' \<and> in_glade (cx_inst s') \<and> cx_dest s' = d'
    \<and> concat news = landed (held V s) extra"
proof -
  define t where "t = s\<lparr>cx_dest := d', cx_inst := (cx_inst s)\<lparr>in_glade := True, in_glade_off := Some off\<rparr>\<rparr>"
  have v: "same_view V s t" by (simp add: t_def same_view_def)
  have h: "held V (s\<lparr>cx_inst := (cx_inst s)\<lparr>in_glade := True\<rparr>\<rparr>) = held V s" by (simp add: held_def)
  have a: "attach_glade V s = (if extra \<noteq> [] then ingest V extra t else (t, Inr ()))"
    using assms(3-5) h
    by (auto simp: attach_glade_def act_simps on_dest_def dest_hydrate_def t_def split: option.splits)
  show ?thesis
  proof (cases "extra = []")
    case True
    have "in_glade (cx_inst t)" "cx_dest t = d'" by (simp_all add: t_def)
    with True a advances_view [OF advances_refl [OF assms(1,2)] v] show ?thesis by (intro exI [of _ t] exI [of _ "[]"]) simp
  next
    case f: False
    have "placed einv live t" "settled V t" using assms(1,2) by (simp_all add: same_view_fields [OF v])
    from ingest_advances [OF this, of extra, unfolded same_view_fields(1) [OF v]] obtain s' news where
      i: "ingest V extra t = (s', Inr ())" "advances t news s'" "concat news = landed (held V s) extra"
      "cx_dest s' = cx_dest t" "cx_inst s' = (cx_inst t)\<lparr>in_emitted := in_emitted (cx_inst s')\<rparr>" by blast
    have "in_glade (cx_inst s')" using arg_cong [OF i(5), of in_glade] by (simp add: t_def)
    moreover have "cx_dest s' = d'" using i(4) by (simp add: t_def)
    ultimately show ?thesis
      using a f i(1,3) advances_from_view [OF i(2) v] by (intro exI [of _ s'] exI [of _ news]) simp
  qed
qed

lemma attach_refused:
  assumes "\<not> in_glade (cx_inst s)"
    and "(\<exists>d e. dest_hydrate s = (d, Inl e)) \<or> (\<exists>d extra d' e. dest_hydrate s = (d, Inr extra) \<and> de_subscribe (en_dest V) d = (d', Inl e))"
  shows "same_view V s (fst (attach_glade V s))"
proof -
  have h: "held V (s\<lparr>cx_inst := (cx_inst s)\<lparr>in_glade := True\<rparr>\<rparr>) = held V s" by (simp add: held_def)
  show ?thesis
    using assms h by (auto simp: attach_glade_def act_simps on_dest_def dest_hydrate_def same_view_def split: option.splits)
qed

lemma attach_advances:
  assumes "placed einv live s" "settled V s"
  shows "\<exists>news. advances s news (fst (attach_glade V s))"
proof (cases "in_glade (cx_inst s)")
  case True
  with assms show ?thesis
    by (intro exI [of _ "[]"]) (simp add: attach_glade_def act_simps advances_refl)
next
  case False
  obtain d r where d: "dest_hydrate s = (d, r)" by (cases "dest_hydrate s")
  obtain d' r' where d': "de_subscribe (en_dest V) d = (d', r')" by (cases "de_subscribe (en_dest V) d")
  show ?thesis
  proof (cases "\<exists>extra off. r = Inr extra \<and> r' = Inr off")
    case True
    then obtain extra off where r: "r = Inr extra" "r' = Inr off" by blast
    show ?thesis using attach_hydrated [OF assms False d [unfolded r] d' [unfolded r]] by auto
  next
    case f: False
    then have "same_view V s (fst (attach_glade V s))"
      using d d' False by (intro attach_refused) (cases r; cases r'; auto)+
    then show ?thesis using advances_view [OF advances_refl [OF assms]] by blast
  qed
qed

lemma step_advances:
  assumes "placed einv live s" "settled V s"
  shows "\<exists>news. advances s news (instance_step V i s)"
proof (cases i)
  case (Deliver ops)
  with ingest_advances [OF assms, of ops] show ?thesis by auto
next
  case (LocalWrite payload)
  obtain steps d r where "send_result payload s = (steps, d, r)" by (rule prod_cases3)
  from write_advances [OF assms this] LocalWrite show ?thesis by auto
next
  case Attach
  with attach_advances [OF assms] show ?thesis by auto
qed

lemma run_advances:
  assumes "placed einv live s" "settled V s"
  shows "\<exists>news. advances s news (instance_run V ins s)"
  using assms
proof (induction ins arbitrary: s)
  case Nil
  then show ?case using advances_refl by auto
next
  case (Cons i ins)
  obtain news where s': "advances s news (instance_step V i s)" using step_advances Cons.prems by blast
  then have "placed einv live (instance_step V i s)" "settled V (instance_step V i s)" using advancesD by blast+
  with Cons.IH obtain news' where "advances (instance_step V i s) news' (instance_run V ins (instance_step V i s))" by blast
  with s' show ?case using advances_trans by fastforce
qed

lemma deliveries_held:
  assumes "placed einv live s" "settled V s"
  shows "\<exists>s'. instance_run V (map Deliver xs) s = s' \<and> settled V s' \<and> held V s' = held V s @ landed (held V s) (concat xs)
    \<and> shape_of (cx_inst s') = shape_of (cx_inst s) \<and> in_glade_id (cx_inst s') = in_glade_id (cx_inst s)"
  using assms
proof (induction xs arbitrary: s)
  case (Cons ops xs)
  from ingest_advances [OF Cons.prems, of ops] obtain t news where
    t: "ingest V ops s = (t, Inr ())" "advances s news t" "concat news = landed (held V s) ops" by blast
  then have f: "placed einv live t" "settled V t" "held V t = held V s @ landed (held V s) ops"
      "shape_of (cx_inst t) = shape_of (cx_inst s)" "in_glade_id (cx_inst t) = in_glade_id (cx_inst s)"
    by (simp_all add: advances_def progress_def)
  from Cons.IH [OF f(1,2)] t(1) f show ?case by (simp add: landed_append)
qed simp

end

subsection \<open>Refreshes and local order\<close>

lemma refresh_eq: "settled V s \<Longrightarrow> refresh_event V s = (s, Inr (if shape_of (cx_inst s) = Log
    then log_refresh (in_glade_id (cx_inst s)) (assemble_log (sorted_ops (held V s)))
    else value_event (in_glade_id (cx_inst s)) (held V s)))"
  by (simp add: refresh_event_def settled_def act_simps)

lemma insort_last: "key y < key x \<Longrightarrow> insort_key key y (ys @ [x]) = insort_key key y ys @ [x]"
  for key :: "'a \<Rightarrow> 'b::linorder"
  by (induction ys) auto

lemma sorted_ops_snoc:
  assumes "\<forall>o' \<in> set ops. op_lamport o' < op_lamport op"
  shows "sorted_ops (ops @ [op]) = sorted_ops ops @ [op]"
  using assms unfolding sorted_ops_def op_order.sort_is_sort_key
  by (induction ops) (simp_all add: insort_last rank_of_def less_op_rank_def)

lemma max_lamport_bound: "o' \<in> set ops \<Longrightarrow> op_lamport o' \<le> max_lamport ops"
proof -
  have "m \<le> foldl (\<lambda>m o'. max m (op_lamport o')) m ops \<and> (\<forall>o' \<in> set ops. op_lamport o' \<le> foldl (\<lambda>m o'. max m (op_lamport o')) m ops)" for m
  proof (induction ops arbitrary: m)
    case (Cons a ops)
    from Cons [of "max m (op_lamport a)"] show ?case by auto
  qed simp
  then show "o' \<in> set ops \<Longrightarrow> ?thesis" by (simp add: max_lamport_def)
qed

lemma mint_op_fields [simp]:
  "op_lamport (mint_op lc sh ops org payload) = max_lamport ops + 1" "op_payload (mint_op lc sh ops org payload) = payload"
  "op_origin (mint_op lc sh ops org payload) = org" "op_seq (mint_op lc sh ops org payload) = own_count org ops + 1"
  by (simp_all add: mint_op_def)

text \<open>An origin's sequence numbers never exceed the number of its operations.\<close>

definition own_chain :: "jstr \<Rightarrow> stored_op list \<Rightarrow> bool" where
  "own_chain origin ops \<longleftrightarrow> (\<forall>o' \<in> set ops. op_origin o' = origin \<longrightarrow> op_seq o' \<le> own_count origin ops)"

lemma own_chain_fresh: "own_chain origin ops \<Longrightarrow> op_id (mint_op lc sh ops origin payload) \<notin> op_id ` set ops"
  by (force simp: own_chain_def op_id_def)

lemma own_chain_snoc: "own_chain origin ops \<Longrightarrow> own_chain origin (ops @ [mint_op lc sh ops origin payload])"
  by (fastforce simp: own_chain_def own_count_def)

subsection \<open>The memory engine as environment\<close>

definition mem_env :: "'d dest_if \<Rightarrow> ('n, 'k, 't) crdt_if \<Rightarrow> 'w swmr_if \<Rightarrow> profile_if \<Rightarrow> lcmp \<Rightarrow> (mem_engine, 'd, 'n, 'k, 't, 'w) env" where
  "mem_env D C W P lc = \<lparr>en_engine = mem_if, en_dest = D, en_crdt = C, en_swmr = W, en_profile = P, en_lc = lc\<rparr>"

interpretation mem_inst: instance_env "mem_env D C W P lc" mem_inv mem_live
  for D :: "'d dest_if" and C :: "('n, 'k, 't) crdt_if" and W :: "'w swmr_if" and P lc
  unfolding instance_env_def mem_env_def using mem_eng.store_engine_axioms by simp

definition sample_inst :: "delivery_shape \<Rightarrow> 'n binding_instance" where
  "sample_inst sh = \<lparr>in_key = [], in_glade_id = [103], in_adapter = \<lparr>ad_shape = sh, ad_contract_version = [], ad_operations = []\<rparr>,
     in_store = 0, in_local_origin = [97], in_text_profile = False, in_refcount = 1, in_listeners = [7], in_emitted = [],
     in_glade = False, in_glade_off = None, in_text_batch = None, in_assembly = None, in_checkpoint_at = 0\<rparr>"

definition sample_ctx :: "delivery_shape \<Rightarrow> (mem_engine, unit, crdt_op list) ctx" where
  "sample_ctx sh = \<lparr>cx_engine = fst (mem_open [] mem_engine_new), cx_dest = (), cx_inst = sample_inst sh, cx_out = []\<rparr>"

text \<open>A destination that echoes each operation before it returns from \<open>send\<close>.\<close>

definition sample_echo :: "stored_op \<Rightarrow> unit dest_if" where
  "sample_echo op = \<lparr>de_origin = (\<lambda>_. Some [98]), de_send = (\<lambda>_ _. ([((), [op])], (), Inr op)), de_subscribe = (\<lambda>_. ((), Inr 0)),
     de_unsubscribe = (\<lambda>_ _. ()), de_hydrate = None\<rparr>"

definition sample_env :: "unit dest_if \<Rightarrow> (mem_engine, unit, crdt_op list, crdt_op list, unit, swmr_output list) env" where
  "sample_env D = mem_env D sample_node sample_swmr \<lparr>pf_insert = (\<lambda>_ _ _. []), pf_delete = (\<lambda>_. [])\<rparr> (\<lambda>_ _. 0)"

lemma sample_env_ok: "instance_env (sample_env D) mem_inv mem_live"
  unfolding sample_env_def by (rule mem_inst.instance_env_axioms)

lemma sample_ctx_ok:
  "placed mem_inv mem_live (sample_ctx sh)" "held (sample_env D) (sample_ctx sh) = []"
  "sh \<noteq> Swmr \<Longrightarrow> sh \<noteq> Crdt \<Longrightarrow> settled (sample_env D) (sample_ctx sh)"
  "shape_of (cx_inst (sample_ctx sh)) = sh" "in_listeners (cx_inst (sample_ctx sh)) = [7]"
  by (simp_all add: placed_def held_def settled_def sample_ctx_def sample_inst_def mem_open_def mem_engine_new_def
      sample_env_def mem_env_def mem_if_def mem_all_def mem_inv_def mem_live_def Let_def shape_of_def)

subsection \<open>Properties\<close>

text \<open>C3. Every record of a log is fanned exactly once: after any run of deliveries, local writes
  and attachments, whatever the destination echoes or refuses, the increments that a listener was
  handed carry exactly the payloads of the operations that landed during the run, each as often
  as it landed, and each increment counts the records delivered before it.\<close>

theorem log_run_fans_once:
  assumes "instance_env V einv live" "placed einv live s" "settled V s" "shape_of (cx_inst s) = Log"
    and "distinct (in_listeners (cx_inst s))" "l \<in> set (in_listeners (cx_inst s))"
  shows "\<exists>new evs. held V (instance_run V ins s) = held V s @ new
    \<and> map snd (filter (\<lambda>p. fst p = l) (drop (length (cx_out s)) (cx_out (instance_run V ins s)))) = evs
    \<and> mset (map lr_payload (concat (map delta_of evs))) = mset (map op_payload new)
    \<and> (\<forall>i < length evs. ce_base_seq (ie_envelope (evs ! i)) = Some (int (length (held V s) + length (concat (map delta_of (take i evs))))))"
proof -
  obtain news where adv: "instance_env.advances V einv live s news (instance_run V ins s)"
    using instance_env.run_advances [OF assms(1-3)] by blast
  then have p: "progress V s news (instance_run V ins s)" and pl: "placed einv live (instance_run V ins s)"
    by (simp_all add: instance_env.advances_def [OF assms(1)])
  have ids: "distinct (map op_id (held V s @ concat news))"
    using instance_env.held_distinct [OF assms(1) pl] p by (simp add: progress_def)
  show ?thesis
    using p assms(4) fan_of_listener [OF assms(5,6)] fold_events_deltas [OF ids] fold_events_bases [OF ids]
    by (intro exI [of _ "concat news"] exI [of _ "fold_events Log (in_glade_id (cx_inst s)) (held V s) news"] conjI allI impI)
      (simp_all add: progress_def)
qed

theorem log_run_fans_once_witness:
  "\<exists>new evs. held (sample_env (sample_echo (sample_push 4 []))) (instance_run (sample_env (sample_echo (sample_push 4 [])))
        [Deliver [sample_push 2 [1]], Attach, LocalWrite []] (sample_ctx Log)) = [] @ new
    \<and> map snd (filter (\<lambda>p. fst p = 7) (drop (length (cx_out (sample_ctx Log))) (cx_out (instance_run (sample_env (sample_echo (sample_push 4 [])))
        [Deliver [sample_push 2 [1]], Attach, LocalWrite []] (sample_ctx Log))))) = evs
    \<and> mset (map lr_payload (concat (map delta_of evs))) = mset (map op_payload new)
    \<and> (\<forall>i < length evs. ce_base_seq (ie_envelope (evs ! i)) = Some (int (length ([] :: stored_op list) + length (concat (map delta_of (take i evs))))))"
  by (rule log_run_fans_once [OF sample_env_ok sample_ctx_ok(1) sample_ctx_ok(3), unfolded sample_ctx_ok]) simp_all

text \<open>Listeners and newcomers agree: after any run of a log or value instance, the last event
  a listener was handed shows the same value or records as the refresh that a new subscriber
  would be handed, and a run without events landed nothing.\<close>

theorem run_shows_refresh:
  assumes "instance_env V einv live" "placed einv live s" "settled V s"
    and "distinct (in_listeners (cx_inst s))" "l \<in> set (in_listeners (cx_inst s))"
    and "evs = map snd (filter (\<lambda>p. fst p = l) (drop (length (cx_out s)) (cx_out (instance_run V ins s))))"
  shows "if evs = [] then held V (instance_run V ins s) = held V s
    else \<exists>r. refresh_event V (instance_run V ins s) = (instance_run V ins s, Inr r)
      \<and> ie_records r = ie_records (last evs) \<and> ie_value r = ie_value (last evs) \<and> ie_empty r = ie_empty (last evs)"
proof -
  obtain news where adv: "instance_env.advances V einv live s news (instance_run V ins s)"
    using instance_env.run_advances [OF assms(1-3)] by blast
  let ?s = "instance_run V ins s" and ?sh = "shape_of (cx_inst s)"
  from adv have p: "progress V s news ?s" and st: "settled V ?s"
    by (simp_all add: instance_env.advances_def [OF assms(1)])
  have evs: "evs = fold_events ?sh (in_glade_id (cx_inst s)) (held V s) news"
    using p fan_of_listener [OF assms(4,5)] by (simp add: assms(6) progress_def)
  show ?thesis
  proof (cases "news = []")
    case True
    with p evs show ?thesis by (simp add: progress_def)
  next
    case False
    from fold_events_last [OF this, of ?sh "in_glade_id (cx_inst s)" "held V s"] obtain prior where
      "last evs = fold_event ?sh (in_glade_id (cx_inst s)) prior (last news)" "prior @ last news = held V ?s"
      using p evs by (auto simp: progress_def)
    moreover have "evs \<noteq> []" using False evs by simp
    ultimately show ?thesis
      using refresh_eq [OF st] p
      by (cases "?sh = Log")
        (simp_all add: progress_def fold_event_whole fold_event_def log_delta_def log_refresh_def plain_event_def)
  qed
qed

theorem run_shows_refresh_witness:
  "let V = sample_env (sample_echo (sample_push 4 [])); s = instance_run V [Deliver [sample_push 2 [1]]] (sample_ctx Value);
       evs = map snd (filter (\<lambda>p. fst p = 7) (drop (length (cx_out (sample_ctx Value))) (cx_out s)))
   in if evs = [] then held V s = held V (sample_ctx Value) else \<exists>r. refresh_event V s = (s, Inr r)
      \<and> ie_records r = ie_records (last evs) \<and> ie_value r = ie_value (last evs) \<and> ie_empty r = ie_empty (last evs)"
  unfolding Let_def
  by (rule run_shows_refresh [OF sample_env_ok sample_ctx_ok(1) sample_ctx_ok(3)]) (simp_all add: sample_ctx_ok)

text \<open>A write is folded once, echo or not: when a connected destination sends an operation that
  the instance does not hold, and echoes nothing but that operation, however often, before it
  returns, then the write returns the operation, persists it, and hands each listener exactly the
  one event of its landing.\<close>

theorem write_echo_folds_once:
  assumes "instance_env V einv live" "placed einv live s" "settled V s" "in_glade (cx_inst s)"
    and "de_send (en_dest V) payload (cx_dest s) = (steps, d, Inr op)" "set (concat (map snd steps)) \<subseteq> {op}"
    and "op_id op \<notin> op_id ` set (held V s)"
  shows "\<exists>s'. write_payload V payload s = (s', Inr op) \<and> held V s' = held V s @ [op] \<and> cx_dest s' = d
    \<and> cx_out s' = cx_out s @ fan (in_listeners (cx_inst s))
        [fold_event (shape_of (cx_inst s)) (in_glade_id (cx_inst s)) (held V s) [op]]"
proof -
  obtain s' news where w: "write_payload V payload s = (s', Inr op)" "instance_env.advances V einv live s news s'" "cx_dest s' = d"
      "concat news = landed (held V s) (concat (map snd steps) @ [op])"
    using instance_env.write_advances [OF assms(1-3), of payload steps d "Inr op"] assms(4,5) by auto
  have "landed (held V s) (ops @ [op]) = [op]" if "set ops \<subseteq> {op}" for ops
    using that assms(7) by (cases ops) (auto intro!: landed_none)
  then have c: "concat news = [op]" using w(4) assms(6) by simp
  moreover have "[] \<notin> set news" using w(2) by (simp add: instance_env.advances_def [OF assms(1)] progress_def)
  ultimately have "news = [[op]]" by (cases news; cases "hd news"; cases "tl news") (auto simp: neq_Nil_conv Cons_eq_append_conv)
  with w show ?thesis by (auto simp: instance_env.advances_def [OF assms(1)] progress_def)
qed

definition connected :: "('e, 'd, 'n) ctx \<Rightarrow> ('e, 'd, 'n) ctx" where
  "connected s = s\<lparr>cx_inst := (cx_inst s)\<lparr>in_glade := True\<rparr>\<rparr>"

lemma connected_ok [simp]:
  "placed einv live (connected s) = placed einv live s" "settled V (connected s) = settled V s" "held V (connected s) = held V s"
  "in_glade (cx_inst (connected s))" "in_listeners (cx_inst (connected s)) = in_listeners (cx_inst s)" "cx_dest (connected s) = cx_dest s"
  by (simp_all add: connected_def placed_def settled_def held_def shape_of_def)

theorem write_echo_folds_once_witness:
  "\<exists>s'. write_payload (sample_env (sample_echo (sample_push 4 []))) [9] (connected (sample_ctx Log)) = (s', Inr (sample_push 4 []))
    \<and> held (sample_env (sample_echo (sample_push 4 []))) s' = held (sample_env (sample_echo (sample_push 4 []))) (connected (sample_ctx Log)) @ [sample_push 4 []]
    \<and> cx_dest s' = ()
    \<and> cx_out s' = cx_out (connected (sample_ctx Log)) @ fan (in_listeners (cx_inst (connected (sample_ctx Log))))
        [fold_event (shape_of (cx_inst (connected (sample_ctx Log)))) (in_glade_id (cx_inst (connected (sample_ctx Log))))
           (held (sample_env (sample_echo (sample_push 4 []))) (connected (sample_ctx Log))) [sample_push 4 []]]"
  by (rule write_echo_folds_once [OF sample_env_ok, where steps = "[((), [sample_push 4 []])]"])
    (simp_all add: sample_ctx_ok, simp add: sample_env_def mem_env_def sample_echo_def)

text \<open>Offline writes append: on an unconnected log whose own sequence numbers do not run ahead of
  their count, each write lands (its identity is new) as the last record of the converged whole,
  with the whole before it unchanged, so a sequence of writes reads back in order.\<close>

theorem offline_writes_append:
  assumes "instance_env V einv live" "placed einv live s" "settled V s" "shape_of (cx_inst s) = Log" "\<not> in_glade (cx_inst s)"
    and "own_chain (in_local_origin (cx_inst s)) (held V s)"
  shows "\<exists>new. held V (instance_run V (map LocalWrite payloads) s) = held V s @ new
    \<and> assemble_log (sorted_ops (held V (instance_run V (map LocalWrite payloads) s)))
        = assemble_log (sorted_ops (held V s)) @ number_from (int (length (held V s))) payloads"
  using assms
proof (induction payloads arbitrary: s)
  case Nil
  then show ?case by simp
next
  case (Cons payload payloads)
  let ?op = "instance_env.minted V s payload"
  note op = instance_env.minted_def [OF Cons.prems(1), of s payload]
  have send: "\<not> in_glade (cx_inst s)" by (rule Cons.prems(5))
  from instance_env.write_eq [OF Cons.prems(1-3), of payload]
  have w: "write_payload V payload s = andthen (ingest V [?op]) (\<lambda>_. ret ?op) s"
    using send by (simp add: andthen_def ret_def split: prod.split sum.split)
  obtain s' where s': "ingest V [?op] s = (s', Inr ())" "placed einv live s'" "settled V s'"
      "progress V s (filter (\<lambda>n. n \<noteq> []) [landed (held V s) [?op]]) s'"
      "cx_inst s' = (cx_inst s)\<lparr>in_emitted := in_emitted (cx_inst s')\<rparr>"
    using instance_env.ingest_progress [OF Cons.prems(1-3)] by blast
  have same: "in_glade (cx_inst s') = in_glade (cx_inst s)" "in_local_origin (cx_inst s') = in_local_origin (cx_inst s)" "shape_of (cx_inst s') = Log"
    using arg_cong [OF s'(5), of in_glade] arg_cong [OF s'(5), of in_local_origin] arg_cong [OF s'(5), of shape_of] Cons.prems(4)
    by (simp_all add: shape_of_def)
  have fresh: "op_id ?op \<notin> op_id ` set (held V s)" unfolding op by (rule own_chain_fresh [OF Cons.prems(6)])
  then have held: "held V s' = held V s @ [?op]" using s'(4) by (simp add: progress_def)
  have chain: "own_chain (in_local_origin (cx_inst s')) (held V s')"
    unfolding held same op by (rule own_chain_snoc [OF Cons.prems(6)])
  have "\<not> in_glade (cx_inst s')" using same send by simp
  from Cons.IH [OF Cons.prems(1) s'(2,3) same(3) this chain] obtain new where
    new: "held V (instance_run V (map LocalWrite payloads) s') = held V s' @ new"
      "assemble_log (sorted_ops (held V (instance_run V (map LocalWrite payloads) s')))
        = assemble_log (sorted_ops (held V s')) @ number_from (int (length (held V s'))) payloads" by blast
  have "\<forall>o' \<in> set (held V s). op_lamport o' < op_lamport ?op"
    using max_lamport_bound [of _ "held V s"] by (fastforce simp: op)
  then have "sorted_ops (held V s') = sorted_ops (held V s) @ [?op]" unfolding held by (rule sorted_ops_snoc)
  then have "assemble_log (sorted_ops (held V s')) = assemble_log (sorted_ops (held V s)) @ number_from (int (length (held V s))) [payload]"
    by (simp add: assemble_log_eq number_from_append op) (simp add: sorted_ops_def)
  moreover have "instance_run V (map LocalWrite (payload # payloads)) s = instance_run V (map LocalWrite payloads) s'"
    using w s'(1) by (simp add: andthen_def ret_def)
  ultimately show ?case using new held
    by (intro exI [of _ "?op # new"]) (simp add: number_from_Cons add.commute)
qed

theorem offline_writes_append_witness:
  "\<exists>new. held (sample_env (sample_echo (sample_push 4 []))) (instance_run (sample_env (sample_echo (sample_push 4 []))) (map LocalWrite [[1], [2]]) (sample_ctx Log))
      = held (sample_env (sample_echo (sample_push 4 []))) (sample_ctx Log) @ new
    \<and> assemble_log (sorted_ops (held (sample_env (sample_echo (sample_push 4 [])))
          (instance_run (sample_env (sample_echo (sample_push 4 []))) (map LocalWrite [[1], [2]]) (sample_ctx Log))))
        = assemble_log (sorted_ops (held (sample_env (sample_echo (sample_push 4 []))) (sample_ctx Log)))
          @ number_from (int (length (held (sample_env (sample_echo (sample_push 4 []))) (sample_ctx Log)))) [[1], [2]]"
  by (rule offline_writes_append [OF sample_env_ok sample_ctx_ok(1) sample_ctx_ok(3)])
    (simp_all add: sample_ctx_ok own_chain_def, simp add: sample_ctx_def sample_inst_def)

text \<open>C28. Instances converge up to equivocation: take two log instances (whose held records have all been
  fanned out) or two value instances of one glade id, over any two stores that keep the store contract, and deliver operations to them in any
  batches, order and repetition. If for every slot (origin and sequence number) the operation that is
  the first for the slot in what the instance held at the start and then received is the same on
  both sides (or none on both), a new subscriber is handed the same refresh by both. With equal starts, that is so when the same
  operations are delivered and no origin forks a slot; with a forked slot each replica
  keeps the operation that it received first, and the replicas may differ. Text and single-writer instances
  are not in the scope.\<close>

theorem instances_converge:
  assumes "instance_env V einv live" "placed einv live s" "settled V s"
    and "instance_env W finv flive" "placed finv flive t" "settled W t"
    and "shape_of (cx_inst s) = shape_of (cx_inst t)" "in_glade_id (cx_inst s) = in_glade_id (cx_inst t)"
    and "\<forall>i. find (\<lambda>op. op_id op = i) (held V s @ concat xs) = find (\<lambda>op. op_id op = i) (held W t @ concat ys)"
  shows "snd (refresh_event V (instance_run V (map Deliver xs) s)) = snd (refresh_event W (instance_run W (map Deliver ys) t))"
proof -
  note s = instance_env.deliveries_held [OF assms(1-3), of xs]
    and t = instance_env.deliveries_held [OF assms(4-6), of ys]
  note ids = instance_env.held_distinct [OF assms(1,2)] instance_env.held_distinct [OF assms(4,5)]
  have "assemble_log (sorted_ops (held V s @ landed (held V s) (concat xs))) = assemble_log (sorted_ops (held W t @ landed (held W t) (concat ys)))"
    by (rule log_assembly.same_first_converge [OF ids assms(9)])
  moreover have "assemble_value (held V s @ landed (held V s) (concat xs)) = assemble_value (held W t @ landed (held W t) (concat ys))"
    by (rule value_assembly.same_first_converge [OF ids assms(9)])
  ultimately show ?thesis
    using s t assms(7,8) by (auto simp: refresh_eq value_event_def)
qed

theorem instances_converge_witness:
  "snd (refresh_event (sample_env (sample_echo (sample_push 4 []))) (instance_run (sample_env (sample_echo (sample_push 4 [])))
      (map Deliver [[sample_push 1 [1]], [sample_push 2 [2], sample_push 1 [1]]]) (sample_ctx Log)))
   = snd (refresh_event (sample_env (sample_echo (sample_push 5 []))) (instance_run (sample_env (sample_echo (sample_push 5 [])))
      (map Deliver [[sample_push 2 [2]], [sample_push 1 [1]]]) (sample_ctx Log)))"
  by (rule instances_converge [OF sample_env_ok sample_ctx_ok(1) sample_ctx_ok(3) sample_env_ok sample_ctx_ok(1) sample_ctx_ok(3)])
    (simp_all add: sample_ctx_ok, auto intro!: first_of_consistent simp: consistent_ids_def sample_push_def op_id_def)

text \<open>With a forked slot the value that is shown depends on the order of the deliveries.\<close>

lemma forked_slot_diverges:
  "snd (refresh_event (sample_env (sample_echo (sample_push 4 []))) (instance_run (sample_env (sample_echo (sample_push 4 [])))
      (map Deliver [[sample_push 1 [1], sample_push 1 [2]]]) (sample_ctx Value)))
   \<noteq> snd (refresh_event (sample_env (sample_echo (sample_push 4 []))) (instance_run (sample_env (sample_echo (sample_push 4 [])))
      (map Deliver [[sample_push 1 [2], sample_push 1 [1]]]) (sample_ctx Value)))"
proof -
  let ?V = "sample_env (sample_echo (sample_push 4 []))"
  have shown: "snd (refresh_event ?V (instance_run ?V (map Deliver [[sample_push 1 [v], sample_push 1 [w]]]) (sample_ctx Value)))
      = Inr (value_event (in_glade_id (cx_inst (sample_ctx Value))) [sample_push 1 [v]])" for v w
  proof -
    have "landed [] [sample_push 1 [v], sample_push 1 [w]] = [sample_push 1 [v]]" by (simp add: op_id_def sample_push_def)
    then show ?thesis
      using instance_env.deliveries_held [OF sample_env_ok sample_ctx_ok(1) sample_ctx_ok(3), of "Value" _ "[[sample_push 1 [v], sample_push 1 [w]]]"]
      by (auto simp: sample_ctx_ok refresh_eq)
  qed
  have "assemble_value [sample_push 1 [v]] = ValueData [v] \<lparr>win_origin = [97], win_seq = 1, win_lamport = 1\<rparr>" for v
    by (simp add: assemble_value_def sample_push_def reg_set_def value_register_new_def reg_read_def beats_def Let_def)
  then have "value_event g [sample_push 1 [1]] \<noteq> value_event g [sample_push 1 [2]]" for g
    by (simp add: value_event_def value_refresh_def plain_event_def)
  then show ?thesis unfolding shown by simp
qed

end
