(* ===== verification/Instance_Swmr.thy ===== *)
theory Instance_Swmr
  imports Instance_Fold
begin

text \<open>
  A binding instance of shape \<open>swmr\<close>: the canonical assembly is replayed before anything is
  persisted, so that a delivery or a local write is accepted as a whole or leaves no trace, and
  the assembly that was checked is the one that listeners are handed.
\<close>

context instance_env
begin

lemma swmr_fold:
  assumes "shape_of (cx_inst s) = Swmr" "assemble_swmr (en_swmr V) (held V s) (in_glade_id (cx_inst s)) = Inr a"
  shows "fold_and_broadcast V x s = (s\<lparr>cx_out := cx_out s @ fan (in_listeners (cx_inst s))
      [swmr_change (in_glade_id (cx_inst s)) a (if sa_last_action a = Some Delta then Increment else Refresh)]\<rparr>, Inr ())"
  using assms by (simp add: fold_and_broadcast_def swmr_assembly_act_def act_simps lift_swmr_def)

lemma preflight_eq:
  "preflight_swmr V ops s = (case assemble_swmr (en_swmr V) (held V s @ ops) (in_glade_id (cx_inst s)) of
      Inl e \<Rightarrow> (s, Inl (SwmrFail e)) | Inr _ \<Rightarrow> (s, Inr ()))"
  by (simp add: preflight_swmr_def act_simps lift_swmr_def split: sum.split)

lemma swmr_append:
  assumes "placed einv live s" "shape_of (cx_inst s) = Swmr" "landed (held V s) ops = ops"
    and "assemble_swmr (en_swmr V) (held V s @ ops) (in_glade_id (cx_inst s)) = Inr a"
  defines "t \<equiv> s\<lparr>cx_engine := engine_put (en_engine V) (in_store (cx_inst s)) ops (cx_engine s)\<rparr>"
  shows "fold_and_broadcast V x t = (t\<lparr>cx_out := cx_out s @ fan (in_listeners (cx_inst s))
      [swmr_change (in_glade_id (cx_inst s)) a (if sa_last_action a = Some Delta then Increment else Refresh)]\<rparr>, Inr ())"
    and "held V t = held V s @ ops" "placed einv live t"
  using assms by (simp_all add: t_def swmr_fold)

end

subsection \<open>Properties\<close>

text \<open>C37. Deliveries to a single-writer instance are all or nothing: a batch of new operations that
  the canonical assembly refuses leaves store, instance and listeners as they were, and one that
  it accepts is persisted as a whole and fans the very assembly that was checked, so the store
  of the instance can always be assembled.\<close>

theorem swmr_ingest_all_or_nothing:
  assumes "instance_env V einv live" "placed einv live s" "shape_of (cx_inst s) = Swmr" "in_text_batch (cx_inst s) = None"
    and "ops \<noteq> []" "distinct (map op_id ops)" "op_id ` set ops \<inter> op_id ` set (held V s) = {}"
  shows "case assemble_swmr (en_swmr V) (held V s @ ops) (in_glade_id (cx_inst s)) of
      Inl e \<Rightarrow> ingest V ops s = (s, Inl (SwmrFail e))
    | Inr a \<Rightarrow> \<exists>s'. ingest V ops s = (s', Inr ()) \<and> placed einv live s' \<and> held V s' = held V s @ ops \<and> cx_inst s' = cx_inst s
        \<and> assemble_swmr (en_swmr V) (held V s') (in_glade_id (cx_inst s')) = Inr a
        \<and> cx_out s' = cx_out s @ fan (in_listeners (cx_inst s))
            [swmr_change (in_glade_id (cx_inst s)) a (if sa_last_action a = Some Delta then Increment else Refresh)]"
proof (cases "assemble_swmr (en_swmr V) (held V s @ ops) (in_glade_id (cx_inst s))")
  case (Inl e)
  then show ?thesis
    using assms(3,4) by (simp add: ingest_def check_incoming_def act_simps instance_env.preflight_eq [OF assms(1)])
next
  case (Inr a)
  have l: "landed (held V s) ops = ops" by (rule landed_all [OF assms(6,7)])
  note t = instance_env.swmr_append [OF assms(1-3) l Inr]
  have "ingest V ops s = fold_and_broadcast V ops (s\<lparr>cx_engine := engine_put (en_engine V) (in_store (cx_inst s)) ops (cx_engine s)\<rparr>)"
    using assms(3-5) Inr l
    by (simp add: ingest_def check_incoming_def act_simps instance_env.preflight_eq [OF assms(1)] instance_env.append_loop_eq [OF assms(1,2)])
  with t Inr show ?thesis by simp
qed

theorem swmr_ingest_all_or_nothing_witness:
  "\<exists>s'. ingest (sample_env (sample_echo (sample_push 4 []))) [sample_push 1 [1, 0, 7]] (sample_ctx Swmr) = (s', Inr ())
     \<and> held (sample_env (sample_echo (sample_push 4 []))) s' = [sample_push 1 [1, 0, 7]]"
proof -
  have a: "\<exists>a. assemble_swmr (en_swmr (sample_env (sample_echo (sample_push 4 [])))) ([] @ [sample_push 1 [1, 0, 7]]) (in_glade_id (cx_inst (sample_ctx Swmr))) = Inr a"
    by (simp add: sample_env_def mem_env_def sample_swmr_def sample_push_def assemble_swmr_def decode_swmr_action_def swmr_adapter_version_def)
  show ?thesis
    using swmr_ingest_all_or_nothing [OF sample_env_ok sample_ctx_ok(1) sample_ctx_ok(4), of "[sample_push 1 [1, 0, 7]]" "sample_echo (sample_push 4 [])"] a
    by (auto simp: sample_ctx_ok) (auto simp: sample_ctx_def sample_inst_def)
qed

text \<open>A local write of an unconnected single-writer instance is all or nothing: the operation that
  is checked first is the one that is minted, so the write either fails with the refusal of the
  canonical assembly and changes nothing, or returns an operation that is persisted at the end of
  the store and fanned once.\<close>

theorem swmr_write_all_or_nothing:
  assumes "instance_env V einv live" "placed einv live s" "shape_of (cx_inst s) = Swmr" "in_text_batch (cx_inst s) = None"
    and "\<not> in_glade (cx_inst s)" "own_chain (in_local_origin (cx_inst s)) (held V s)"
    and "op = mint_op (en_lc V) Swmr (held V s) (in_local_origin (cx_inst s)) (encode_swmr_action action body)"
  shows "case assemble_swmr (en_swmr V) (held V s @ [op]) (in_glade_id (cx_inst s)) of
      Inl e \<Rightarrow> write_swmr V action body s = (s, Inl (SwmrFail e))
    | Inr a \<Rightarrow> \<exists>s'. write_swmr V action body s = (s', Inr op) \<and> held V s' = held V s @ [op] \<and> cx_inst s' = cx_inst s
        \<and> cx_out s' = cx_out s @ fan (in_listeners (cx_inst s))
            [swmr_change (in_glade_id (cx_inst s)) a (if sa_last_action a = Some Delta then Increment else Refresh)]"
proof (cases "assemble_swmr (en_swmr V) (held V s @ [op]) (in_glade_id (cx_inst s))")
  case (Inl e)
  then show ?thesis
    using assms(3,5,7)
    by (simp add: write_swmr_def write_payload_def preflight_write_def act_simps instance_env.preflight_eq [OF assms(1)])
next
  case (Inr a)
  have fresh: "op_id op \<notin> op_id ` set (held V s)"
    unfolding assms(7) by (rule own_chain_fresh [OF assms(6)])
  then have l: "landed (held V s) [op] = [op]" by simp
  note t = instance_env.swmr_append [OF assms(1-3) l Inr]
  have "write_swmr V action body s = land_op V op s"
    using assms(3,5,7) Inr
    by (simp add: write_swmr_def write_payload_def preflight_write_def act_simps instance_env.preflight_eq [OF assms(1)])
  also have "\<dots> = andthen (fold_and_broadcast V [op]) (\<lambda>_. ret op)
      (s\<lparr>cx_engine := engine_put (en_engine V) (in_store (cx_inst s)) [op] (cx_engine s)\<rparr>)"
    using assms(3,4) Inr fresh
    by (simp add: land_op_def check_incoming_def andthen_def ret_def get_inst_def instance_env.preflight_eq [OF assms(1)] instance_env.store_append_eq [OF assms(1,2)]
        split: prod.split sum.split)
  finally show ?thesis using t Inr by (simp add: andthen_def ret_def)
qed

theorem swmr_write_all_or_nothing_witness:
  "\<exists>s' op. write_swmr (sample_env (sample_echo (sample_push 4 []))) Snapshot [7] (sample_ctx Swmr) = (s', Inr op)
     \<and> held (sample_env (sample_echo (sample_push 4 []))) s' = [op]"
proof -
  let ?op = "mint_op (en_lc (sample_env (sample_echo (sample_push 4 [])))) Swmr [] (in_local_origin (cx_inst (sample_ctx Swmr))) (encode_swmr_action Snapshot [7])"
  have a: "\<exists>a. assemble_swmr (en_swmr (sample_env (sample_echo (sample_push 4 [])))) ([] @ [?op]) (in_glade_id (cx_inst (sample_ctx Swmr))) = Inr a"
    by (simp add: sample_env_def mem_env_def sample_swmr_def assemble_swmr_def decode_swmr_encode)
  show ?thesis
    using swmr_write_all_or_nothing [OF sample_env_ok sample_ctx_ok(1) sample_ctx_ok(4) _ _ _ refl, of "sample_echo (sample_push 4 [])" Snapshot "[7]"] a
    by (auto simp: sample_ctx_ok own_chain_def) (auto simp: sample_ctx_def sample_inst_def)
qed

end
