(* ===== verification/Session.thy ===== *)
theory Session
  imports Instance_Fold
begin

text \<open>
  The session destination of \<open>src/session.ts\<close>: it adapts a glade session and an operation bus to
  the \<open>GladeDestination\<close> of an instance. The code depends on the shape of a session and of a bus
  only, so both are records of operations, parameters of the model: a call of the session may
  throw, and publishing on the bus lists the batches that the bus hands to this destination's
  subscription before it returns, each with the bus state at that moment, and may throw.
\<close>

record 's session_if =
  se_origin :: "'s \<Rightarrow> jstr"
  se_append :: "jstr \<Rightarrow> jstr \<Rightarrow> jstr \<Rightarrow> bytes \<Rightarrow> bytes \<Rightarrow> 's \<Rightarrow> 's \<times> (inst_error + stored_op)"
  se_apply_remote :: "stored_op list \<Rightarrow> 's \<Rightarrow> 's \<times> inst_error option"
  se_dump :: "('s \<Rightarrow> stored_op list) option"

record 'b bus_if =
  bu_publish :: "stored_op list \<Rightarrow> 'b \<Rightarrow> ('b \<times> stored_op list) list \<times> 'b \<times> inst_error option"
  bu_on_ops :: "'b \<Rightarrow> 'b \<times> (inst_error + nat)"
  bu_off :: "nat \<Rightarrow> 'b \<Rightarrow> 'b"

record route =
  rt_share :: jstr
  rt_glade_id :: jstr
  rt_shape :: jstr
  rt_key :: bytes

definition on_route :: "route \<Rightarrow> stored_op \<Rightarrow> bool" where
  "on_route R op \<longleftrightarrow> op_share op = Some (rt_share R) \<and> op_glade_id op = Some (rt_glade_id R)
     \<and> (case op_key op of None \<Rightarrow> False | Some k \<Rightarrow> bytes_eq k (rt_key R))"

definition is_wire :: "stored_op \<Rightarrow> bool" where
  "is_wire op \<longleftrightarrow> op_share op \<noteq> None \<and> op_glade_id op \<noteq> None \<and> op_key op \<noteq> None"

definition wire_compare :: "stored_op \<Rightarrow> stored_op \<Rightarrow> int" where
  "wire_compare a b = (if op_origin a < op_origin b then - 1 else if op_origin a > op_origin b then 1 else op_seq a - op_seq b)"

text \<open>\<open>hydrate\<close>: the store's wire operations to the session, the session's unheld route operations back.\<close>

definition session_hydrate :: "'s session_if \<Rightarrow> route \<Rightarrow> stored_op list \<Rightarrow> 's \<times> 'b \<Rightarrow> ('s \<times> 'b) \<times> (inst_error + stored_op list)" where
  "session_hydrate S R ops st =
     (let (ss, bus) = st;
          wire = js_sort wire_compare (filter is_wire ops);
          (ss', err) = (if wire = [] then (ss, None) else se_apply_remote S wire ss)
      in case err of
           Some e \<Rightarrow> ((ss', bus), Inl e)
         | None \<Rightarrow>
             (case se_dump S of
                None \<Rightarrow> ((ss', bus), Inr [])
              | Some dump \<Rightarrow>
                  let held_slots = set (map op_slot ops)
                  in ((ss', bus), Inr (filter (\<lambda>o'. on_route R o' \<and> op_slot o' \<notin> held_slots) (dump ss')))))"

text \<open>
  The subscription's handler on a batch: nothing when no operation is on the route, otherwise the
  session absorbs the routed ones and then they go on to the instance.
\<close>

definition session_handler :: "'s session_if \<Rightarrow> route \<Rightarrow> stored_op list \<Rightarrow> 's \<Rightarrow> 's \<times> (inst_error + stored_op list option)" where
  "session_handler S R ops ss =
     (let routed = filter (on_route R) ops in
      if length routed = 0 then (ss, Inr None)
      else (let (ss', err) = se_apply_remote S routed ss in
            (ss', case err of Some e \<Rightarrow> Inl e | None \<Rightarrow> Inr (Some routed))))"

text \<open>The handler on the batches of one publication, until one throws.\<close>

fun session_echoes :: "'s session_if \<Rightarrow> route \<Rightarrow> ('b \<times> stored_op list) list \<Rightarrow> 's
    \<Rightarrow> (('s \<times> 'b) \<times> stored_op list) list \<times> 's \<times> ('b \<times> inst_error) option" where
  "session_echoes S R [] ss = ([], ss, None)"
| "session_echoes S R ((bus, ops) # steps) ss =
     (case session_handler S R ops ss of
        (ss', Inl e) \<Rightarrow> ([], ss', Some (bus, e))
      | (ss', Inr None) \<Rightarrow> session_echoes S R steps ss'
      | (ss', Inr (Some routed)) \<Rightarrow>
          (case session_echoes S R steps ss' of (out, ss'', err) \<Rightarrow> (((ss', bus), routed) # out, ss'', err)))"

definition session_send :: "'s session_if \<Rightarrow> 'b bus_if \<Rightarrow> route \<Rightarrow> bytes \<Rightarrow> 's \<times> 'b
    \<Rightarrow> (('s \<times> 'b) \<times> stored_op list) list \<times> ('s \<times> 'b) \<times> (inst_error + stored_op)" where
  "session_send S B R payload st =
     (let (ss, bus) = st in
      case se_append S (rt_share R) (rt_glade_id R) (rt_shape R) payload (rt_key R) ss of
        (ss', Inl e) \<Rightarrow> ([], (ss', bus), Inl e)
      | (ss', Inr op) \<Rightarrow>
          (let (steps, bus', err) = bu_publish B [op] bus;
               (out, ss'', stopped) = session_echoes S R steps ss'
           in case stopped of
                Some (b, e) \<Rightarrow> (out, (ss'', b), Inl e)
              | None \<Rightarrow> (out, (ss'', bus'), case err of Some e \<Rightarrow> Inl e | None \<Rightarrow> Inr op)))"

definition session_destination :: "'s session_if \<Rightarrow> 'b bus_if \<Rightarrow> route \<Rightarrow> ('s \<times> 'b) dest_if" where
  "session_destination S B R =
     \<lparr>de_origin = (\<lambda>(ss, bus). Some (se_origin S ss)),
      de_send = session_send S B R,
      de_subscribe = (\<lambda>(ss, bus). let (bus', r) = bu_on_ops B bus in ((ss, bus'), r)),
      de_unsubscribe = (\<lambda>n (ss, bus). (ss, bu_off B n bus)),
      de_hydrate = Some (session_hydrate S R)\<rparr>"

text \<open>A batch that the bus hands to an attached instance, outside any of its own sends.\<close>

definition session_inbound :: "('e, 's \<times> 'b, 'n, 'k, 't, 'w) env \<Rightarrow> 's session_if \<Rightarrow> route \<Rightarrow> stored_op list \<Rightarrow> ('e, 's \<times> 'b, 'n, unit) act" where
  "session_inbound V S R ops =
     andthen (on_dest (\<lambda>(ss, bus). let (ss', r) = session_handler S R ops ss in ((ss', bus), r))) (\<lambda>routed.
       case routed of None \<Rightarrow> ret () | Some rs \<Rightarrow> ingest V rs)"

text \<open>\<open>feedSession\<close>: the carrier absorber's handler.\<close>

definition feed_session :: "'s session_if \<Rightarrow> stored_op list \<Rightarrow> 's \<Rightarrow> 's \<times> inst_error option" where
  "feed_session S ops ss = se_apply_remote S ops ss"

subsection \<open>Order and routing\<close>

interpretation wire_order: comparator wire_compare "\<lambda>op. (Rank 0 (op_origin op) (op_seq op))"
  by unfold_locales (auto simp: wire_compare_def less_eq_op_rank_def)

definition wire_ops :: "stored_op list \<Rightarrow> stored_op list" where
  "wire_ops ops = js_sort wire_compare (filter is_wire ops)"

lemma wire_ops_set: "set (wire_ops ops) = {o' \<in> set ops. is_wire o'}"
  by (auto simp: wire_ops_def)

lemma wire_ops_chain: "sorted (map op_seq (filter (\<lambda>o'. op_origin o' = w) (wire_ops ops)))"
proof -
  have "sorted (map (\<lambda>op. Rank 0 (op_origin op) (op_seq op)) (filter (\<lambda>o'. op_origin o' = w) (wire_ops ops)))"
    unfolding wire_ops_def by (rule sorted_filter [OF wire_order.sort_sorted])
  then show ?thesis
    by (auto simp: sorted_wrt_map less_eq_op_rank_def elim!: sorted_wrt_mono_rel [rotated])
qed

lemma session_hydrate_ok:
  assumes "(if wire_ops ops = [] then (ss, None) else se_apply_remote S (wire_ops ops) ss) = (ss', None)" "se_dump S = Some dump"
  shows "session_hydrate S R ops (ss, bus)
    = ((ss', bus), Inr (filter (\<lambda>o'. on_route R o' \<and> op_slot o' \<notin> op_slot ` set ops) (dump ss')))"
  using assms by (auto simp: session_hydrate_def wire_ops_def Let_def split: prod.splits if_splits)

subsection \<open>Properties\<close>

text \<open>C30. A late mount catches up: attaching a session destination to a log or value instance hands
  the session exactly the operations that once rode the wire, per origin in sequence order, and
  afterwards the instance holds every identity that the session knows for the route, having
  taken in nothing else; what landed was fanned like any delivery.\<close>

theorem session_attach_catches_up:
  assumes "instance_env V einv live" "placed einv live s" "settled V s" "\<not> in_glade (cx_inst s)"
    and "en_dest V = session_destination S B R" "se_dump S = Some dump" "cx_dest s = (ss, bus)"
    and "wire = wire_ops (held V s)" "(if wire = [] then (ss, None) else se_apply_remote S wire ss) = (ss', None)"
    and "bu_on_ops B bus = (bus', Inr off)"
  shows "\<exists>s' news. attach_glade V s = (s', Inr ()) \<and> in_glade (cx_inst s') \<and> cx_dest s' = (ss', bus')
    \<and> set wire = {o' \<in> set (held V s). is_wire o'} \<and> (\<forall>w. sorted (map op_seq (filter (\<lambda>o'. op_origin o' = w) wire)))
    \<and> progress V s news s' \<and> set (concat news) \<subseteq> {o' \<in> set (dump ss'). on_route R o'}
    \<and> op_id ` {o' \<in> set (dump ss'). on_route R o'} \<subseteq> op_id ` set (held V s')"
proof -
  let ?extra = "filter (\<lambda>o'. on_route R o' \<and> op_slot o' \<notin> op_slot ` set (held V s)) (dump ss')"
  have "instance_env.dest_hydrate V s = ((ss', bus), Inr ?extra)"
    using session_hydrate_ok [OF assms(9) [unfolded assms(8)] assms(6)]
    by (simp add: instance_env.dest_hydrate_def [OF assms(1)] assms(5,7) session_destination_def)
  moreover have "de_subscribe (en_dest V) (ss', bus) = ((ss', bus'), Inr off)"
    using assms(10) by (simp add: assms(5) session_destination_def)
  ultimately obtain s' news where a: "attach_glade V s = (s', Inr ())" "instance_env.advances V einv live s news s'"
      "in_glade (cx_inst s')" "cx_dest s' = (ss', bus')" "concat news = landed (held V s) ?extra"
    using instance_env.attach_hydrated [OF assms(1-4)] by blast
  have p: "progress V s news s'" using a(2) by (simp add: instance_env.advances_def [OF assms(1)])
  then have h: "held V s' = held V s @ landed (held V s) ?extra" using a(5) by (simp add: progress_def)
  have "op_id ` set (held V s') = op_id ` set (held V s) \<union> op_id ` set ?extra"
    unfolding h by (rule landed_ids)
  then have "op_id ` {o' \<in> set (dump ss'). on_route R o'} \<subseteq> op_id ` set (held V s')"
    by (auto simp: op_slot_image_iff)
  moreover have "set (concat news) \<subseteq> {o' \<in> set (dump ss'). on_route R o'}"
    unfolding a(5) using landed_subset [of "held V s" ?extra] by auto
  ultimately show ?thesis
    using a p wire_ops_chain wire_ops_set unfolding assms(8) by blast
qed

text \<open>A session that knows one operation of the route, and a bus without echoes.\<close>

definition sample_session :: "stored_op list session_if" where
  "sample_session = \<lparr>se_origin = (\<lambda>_. [115]), se_append = (\<lambda>_ _ _ p _ ss. (ss, Inr (sample_push 9 p))),
     se_apply_remote = (\<lambda>ops ss. (ss @ ops, None)), se_dump = Some (\<lambda>ss. ss)\<rparr>"

definition sample_bus :: "unit bus_if" where
  "sample_bus = \<lparr>bu_publish = (\<lambda>_ _. ([], (), None)), bu_on_ops = (\<lambda>_. ((), Inr 0)), bu_off = (\<lambda>_ _. ())\<rparr>"

definition sample_route :: route where
  "sample_route = \<lparr>rt_share = [1], rt_glade_id = [103], rt_shape = [], rt_key = []\<rparr>"

definition sample_wire :: stored_op where
  "sample_wire = (sample_push 3 [8])\<lparr>op_share := Some [1], op_glade_id := Some [103], op_key := Some []\<rparr>"

definition session_env :: "(mem_engine, stored_op list \<times> unit, crdt_op list, crdt_op list, unit, swmr_output list) env" where
  "session_env = mem_env (session_destination sample_session sample_bus sample_route) sample_node sample_swmr
     \<lparr>pf_insert = (\<lambda>_ _ _. []), pf_delete = (\<lambda>_. [])\<rparr> (\<lambda>_ _. 0)"

definition session_ctx :: "(mem_engine, stored_op list \<times> unit, crdt_op list) ctx" where
  "session_ctx = \<lparr>cx_engine = fst (mem_open [] mem_engine_new), cx_dest = ([sample_wire], ()), cx_inst = sample_inst Log, cx_out = []\<rparr>"

lemma session_ctx_ok:
  "instance_env session_env mem_inv mem_live" "placed mem_inv mem_live session_ctx" "settled session_env session_ctx"
  "\<not> in_glade (cx_inst session_ctx)" "held session_env session_ctx = []" "cx_dest session_ctx = ([sample_wire], ())"
  unfolding session_env_def
  by (rule mem_inst.instance_env_axioms)
    (simp_all add: placed_def held_def settled_def session_ctx_def sample_inst_def mem_open_def mem_engine_new_def
      mem_env_def mem_if_def mem_all_def mem_inv_def mem_live_def Let_def shape_of_def)

theorem session_attach_catches_up_witness:
  "\<exists>s'. attach_glade session_env session_ctx = (s', Inr ()) \<and> op_id sample_wire \<in> op_id ` set (held session_env s')"
proof -
  have on: "on_route sample_route sample_wire"
    by (simp add: on_route_def sample_route_def sample_wire_def bytes_eq_def)
  have "en_dest session_env = session_destination sample_session sample_bus sample_route" by (simp add: session_env_def mem_env_def)
  note t = session_attach_catches_up [OF session_ctx_ok(1-4) this, where dump = "\<lambda>ss. ss" and wire = "[]" and ss = "[sample_wire]"
      and bus = "()" and bus' = "()" and ss' = "[sample_wire]" and off = 0]
  show ?thesis
    using t on by (auto simp: session_ctx_ok wire_ops_def sample_session_def sample_bus_def)
qed

end
