(* ===== verification/Binder.thy ===== *)
theory Binder
  imports Instance_Fold
begin

text \<open>
  The binder of \<open>src/binder.ts\<close>: the registry of live instances, reference counted by mounts.

  Mount handles and the registry share the instance objects, so a binder state is a heap of
  instances indexed by address, the registry (a map from instance keys to addresses), the mounts
  handed out, and what all of them share: the store engine, the world of destinations, and the
  events handed to listeners. An instance runs against the destination that it was attached to,
  one of the family \<open>dests\<close>; \<open>he_dest\<close> is its index.
\<close>

datatype bind_error = ShapeFail unsupported_shape | ProfileFail string | MountFail inst_error

record binding_decl =
  bd_glade_id :: jstr
  bd_shape :: jstr

record mount_config =
  mc_glade :: "nat option"
  mc_text_profile :: bool

text \<open>A declared shape profile: its glade id and the profile's name.\<close>

record profile_decl =
  pd_glade_id :: jstr
  pd_profile :: jstr

record mount =
  mt_inst :: nat
  mt_key :: jstr
  mt_listener :: "nat option"
  mt_live :: bool

record 'n heap_entry =
  he_inst :: "'n binding_instance"
  he_dest :: nat

record ('e, 'd, 'n) registry =
  bn_engine :: 'e
  bn_world :: 'd
  bn_heap :: "'n heap_entry list"
  bn_instances :: "(jstr \<times> nat) list"
  bn_mounts :: "mount list"
  bn_out :: "(nat \<times> instance_event) list"

record ('e, 'd, 'n, 'k, 't, 'w) binder_env =
  be_env :: "('e, 'd, 'n, 'k, 't, 'w) env"
  be_dests :: "nat \<Rightarrow> 'd dest_if"
  be_origin :: jstr
  be_profiles :: "(jstr \<Rightarrow> profile_decl option) option"

definition env_at :: "('e, 'd, 'n, 'k, 't, 'w) binder_env \<Rightarrow> nat \<Rightarrow> ('e, 'd, 'n, 'k, 't, 'w) env" where
  "env_at B n = (be_env B)\<lparr>en_dest := be_dests B n\<rparr>"

text \<open>A method call on the instance at an address, in the state that the binder's parts share.\<close>

definition entry_ctx :: "('e, 'd, 'n) registry \<Rightarrow> 'n binding_instance \<Rightarrow> ('e, 'd, 'n) ctx" where
  "entry_ctx b i = \<lparr>cx_engine = bn_engine b, cx_dest = bn_world b, cx_inst = i, cx_out = bn_out b\<rparr>"

definition call_at :: "nat \<Rightarrow> ('e, 'd, 'n, 'a) act \<Rightarrow> ('e, 'd, 'n) registry \<Rightarrow> ('e, 'd, 'n) registry \<times> (inst_error + 'a)" where
  "call_at a m b =
     (let (s, r) = m (entry_ctx b (he_inst (bn_heap b ! a)))
      in (b\<lparr>bn_engine := cx_engine s, bn_world := cx_dest s,
            bn_heap := (bn_heap b)[a := (bn_heap b ! a)\<lparr>he_inst := cx_inst s\<rparr>], bn_out := cx_out s\<rparr>, r))"

definition crdt_profile_of :: "('e, 'd, 'n, 'k, 't, 'w) binder_env \<Rightarrow> binding_decl \<Rightarrow> mount_config \<Rightarrow> bind_error + bool" where
  "crdt_profile_of B decl config =
     (case (case be_profiles B of None \<Rightarrow> None | Some lookup \<Rightarrow> lookup (bd_glade_id decl)) of
        None \<Rightarrow> if \<not> mc_text_profile config then Inl (ProfileFail ''requires crdtProfile text_crdt'') else Inr True
      | Some declared \<Rightarrow>
          if pd_glade_id declared \<noteq> bd_glade_id decl then Inl (ProfileFail ''the shape-profile lookup answered with another declaration'')
          else if pd_profile declared \<noteq> jlit ''text_crdt'' then Inl (ProfileFail ''mounts crdt only as text_crdt'')
          else Inr True)"

text \<open>The first interest in a key: open the store, construct, hydrate, register.\<close>

definition create_instance :: "('e, 'd, 'n, 'k, 't, 'w) binder_env \<Rightarrow> binding_decl \<Rightarrow> jstr \<Rightarrow> bool \<Rightarrow> ('e, 'd, 'n) registry
    \<Rightarrow> ('e, 'd, 'n) registry \<times> (bind_error + nat)" where
  "create_instance B decl key profile b =
     (let (e, store) = ei_open (en_engine (be_env B)) key (bn_engine b); b1 = b\<lparr>bn_engine := e\<rparr> in
      case new_instance (bd_glade_id decl) (bd_shape decl) key store (be_origin B) profile of
        Inl u \<Rightarrow> (b1, Inl (ShapeFail u))
      | Inr i \<Rightarrow>
          (let a = length (bn_heap b1); b2 = b1\<lparr>bn_heap := bn_heap b1 @ [\<lparr>he_inst = i, he_dest = 0\<rparr>]\<rparr> in
           case call_at a (hydrate (be_env B)) b2 of
             (b3, Inl e') \<Rightarrow> (b3, Inl (MountFail e'))
           | (b3, Inr _) \<Rightarrow> (b3\<lparr>bn_instances := jm_set key a (bn_instances b3)\<rparr>, Inr a)))"

text \<open>\<open>instance.attachGlade(config.glade)\<close>; the first destination stays.\<close>

definition attach_at :: "('e, 'd, 'n, 'k, 't, 'w) binder_env \<Rightarrow> nat \<Rightarrow> nat \<Rightarrow> ('e, 'd, 'n) registry \<Rightarrow> ('e, 'd, 'n) registry \<times> (inst_error + unit)" where
  "attach_at B a n b =
     (let b1 = (if in_glade (he_inst (bn_heap b ! a)) then b
                else b\<lparr>bn_heap := (bn_heap b)[a := (bn_heap b ! a)\<lparr>he_dest := n\<rparr>]\<rparr>)
      in call_at a (attach_glade (env_at B (he_dest (bn_heap b1 ! a)))) b1)"

definition bump :: "int \<Rightarrow> ('e, 'd, 'n, unit) act" where
  "bump k = mod_inst (\<lambda>i. i\<lparr>in_refcount := in_refcount i + k\<rparr>)"

text \<open>Counting the interest, subscribing the listener, and handing out the mount.\<close>

definition finish_mount :: "('e, 'd, 'n, 'k, 't, 'w) binder_env \<Rightarrow> nat \<Rightarrow> jstr \<Rightarrow> nat option \<Rightarrow> ('e, 'd, 'n) registry
    \<Rightarrow> ('e, 'd, 'n) registry \<times> (bind_error + nat)" where
  "finish_mount B a key listener b =
     (let b1 = fst (call_at a (bump 1) b);
          (b2, r) = (case listener of None \<Rightarrow> (b1, Inr ()) | Some l \<Rightarrow> call_at a (subscribe (env_at B (he_dest (bn_heap b1 ! a))) l) b1)
      in case r of
           Inl e \<Rightarrow> (b2, Inl (MountFail e))
         | Inr _ \<Rightarrow> (b2\<lparr>bn_mounts := bn_mounts b2 @ [\<lparr>mt_inst = a, mt_key = key, mt_listener = listener, mt_live = True\<rparr>]\<rparr>,
                     Inr (length (bn_mounts b2))))"

definition mount_binding :: "('e, 'd, 'n, 'k, 't, 'w) binder_env \<Rightarrow> binding_decl \<Rightarrow> fill \<Rightarrow> nat option \<Rightarrow> mount_config
    \<Rightarrow> ('e, 'd, 'n) registry \<Rightarrow> ('e, 'd, 'n) registry \<times> (bind_error + nat)" where
  "mount_binding B decl fill listener config b =
     (case require_mount_shape_adapter (bd_shape decl) (jlit ''mount'') of
        Inl u \<Rightarrow> (b, Inl (ShapeFail u))
      | Inr _ \<Rightarrow>
     (case (if bd_shape decl = jlit ''crdt'' then crdt_profile_of B decl config else Inr (mc_text_profile config)) of
        Inl e \<Rightarrow> (b, Inl e)
      | Inr profile \<Rightarrow>
          (let key = instance_key (bd_glade_id decl) fill in
           case (case jm_get (bn_instances b) key of Some a \<Rightarrow> (b, Inr a) | None \<Rightarrow> create_instance B decl key profile b) of
             (b1, Inl e) \<Rightarrow> (b1, Inl e)
           | (b1, Inr a) \<Rightarrow>
               (case (case mc_glade config of None \<Rightarrow> (b1, Inr ()) | Some n \<Rightarrow> attach_at B a n b1) of
                  (b2, Inl e) \<Rightarrow> (b2, Inl (MountFail e))
                | (b2, Inr _) \<Rightarrow> finish_mount B a key listener b2))))"

text \<open>The tear-down of the last unmount: dispose, unregister, drop the store's key.\<close>

definition tear_down :: "('e, 'd, 'n, 'k, 't, 'w) binder_env \<Rightarrow> nat \<Rightarrow> jstr \<Rightarrow> ('e, 'd, 'n) registry \<Rightarrow> ('e, 'd, 'n) registry \<times> (inst_error + unit)" where
  "tear_down B a key b =
     (case call_at a (dispose (env_at B (he_dest (bn_heap b ! a)))) b of
        (b1, Inl e) \<Rightarrow> (b1, Inl e)
      | (b1, Inr _) \<Rightarrow>
          (b1\<lparr>bn_instances := jm_delete key (bn_instances b1), bn_engine := ei_drop (en_engine (be_env B)) key (bn_engine b1)\<rparr>, Inr ()))"

definition unmount :: "('e, 'd, 'n, 'k, 't, 'w) binder_env \<Rightarrow> nat \<Rightarrow> ('e, 'd, 'n) registry \<Rightarrow> ('e, 'd, 'n) registry \<times> (inst_error + unit)" where
  "unmount B h b =
     (let mt = bn_mounts b ! h; a = mt_inst mt in
      if \<not> mt_live mt then (b, Inr ())
      else
        (let b1 = b\<lparr>bn_mounts := (bn_mounts b)[h := mt\<lparr>mt_live := False\<rparr>]\<rparr>;
             b2 = (case mt_listener mt of None \<Rightarrow> b1 | Some l \<Rightarrow> fst (call_at a (unsubscribe l) b1));
             b3 = fst (call_at a (bump (- 1)) b2)
         in if in_refcount (he_inst (bn_heap b3 ! a)) = 0 then tear_down B a (mt_key mt) b3 else (b3, Inr ())))"

definition instance_count :: "('e, 'd, 'n) registry \<Rightarrow> nat" where
  "instance_count b = length (bn_instances b)"

definition refcount_of :: "binding_decl \<Rightarrow> fill \<Rightarrow> ('e, 'd, 'n) registry \<Rightarrow> int" where
  "refcount_of decl fill b =
     (case jm_get (bn_instances b) (instance_key (bd_glade_id decl) fill) of
        None \<Rightarrow> 0 | Some a \<Rightarrow> in_refcount (he_inst (bn_heap b ! a)))"

definition is_live :: "binding_decl \<Rightarrow> fill \<Rightarrow> ('e, 'd, 'n) registry \<Rightarrow> bool" where
  "is_live decl fill b \<longleftrightarrow> jm_get (bn_instances b) (instance_key (bd_glade_id decl) fill) \<noteq> None"

definition binder_new :: "'e \<Rightarrow> 'd \<Rightarrow> ('e, 'd, 'n) registry" where
  "binder_new e d = \<lparr>bn_engine = e, bn_world = d, bn_heap = [], bn_instances = [], bn_mounts = [], bn_out = []\<rparr>"

subsection \<open>Runs\<close>

datatype binder_input = Mount binding_decl fill "nat option" mount_config | Unmount nat

text \<open>
  A run of the registry's operations. The flag stays true as long as no instance method threw:
  a mount that a gate refused does not clear it. An unmount names a handle that was handed out.
\<close>

fun binder_step :: "('e, 'd, 'n, 'k, 't, 'w) binder_env \<Rightarrow> binder_input \<Rightarrow> ('e, 'd, 'n) registry \<Rightarrow> ('e, 'd, 'n) registry \<times> bool" where
  "binder_step B (Mount decl fill listener config) b =
     (case mount_binding B decl fill listener config b of
        (b', r) \<Rightarrow> (b', (case r of Inl (MountFail _) \<Rightarrow> False | _ \<Rightarrow> True)))"
| "binder_step B (Unmount h) b =
     (if h < length (bn_mounts b)
      then (case unmount B h b of (b', r) \<Rightarrow> (b', (case r of Inl _ \<Rightarrow> False | Inr _ \<Rightarrow> True))) else (b, True))"

fun binder_run :: "('e, 'd, 'n, 'k, 't, 'w) binder_env \<Rightarrow> binder_input list \<Rightarrow> ('e, 'd, 'n) registry \<Rightarrow> ('e, 'd, 'n) registry \<times> bool" where
  "binder_run B [] b = (b, True)"
| "binder_run B (i # ins) b =
     (case binder_step B i b of (b1, ok1) \<Rightarrow> (case binder_run B ins b1 of (b2, ok2) \<Rightarrow> (b2, ok1 \<and> ok2)))"

subsection \<open>Instance methods do not count, and only add to what is handed out\<close>

definition extends :: "'a list \<Rightarrow> 'a list \<Rightarrow> bool" where
  "extends xs ys \<longleftrightarrow> (\<exists>zs. ys = xs @ zs)"

lemma extends_refl [simp]: "extends xs xs" and extends_append [simp]: "extends xs (xs @ zs)"
  by (auto simp: extends_def)

lemma extends_trans: "extends xs ys \<Longrightarrow> extends ys zs \<Longrightarrow> extends xs zs"
  by (auto simp: extends_def)

definition keeps_count :: "('e, 'd, 'n, 'a) act \<Rightarrow> bool" where
  "keeps_count m \<longleftrightarrow> (\<forall>s. in_refcount (cx_inst (fst (m s))) = in_refcount (cx_inst s) \<and> extends (cx_out s) (cx_out (fst (m s))))"

named_theorems keeps

lemma keeps_basic [keeps]:
  "keeps_count (ret x)" "keeps_count (throw e)" "keeps_count (get_inst f)" "keeps_count (store_all V)"
  "keeps_count (store_append V op)" "keeps_count (broadcast ev)" "keeps_count (load_checkpoint V)" "keeps_count (on_dest g)"
  by (simp_all add: keeps_count_def ret_def throw_def get_inst_def store_all_def store_append_def broadcast_def
      load_checkpoint_def on_dest_def split: prod.split)

lemma keeps_mod [keeps]: "(\<And>i. in_refcount (f i) = in_refcount i) \<Longrightarrow> keeps_count (mod_inst f)"
  by (simp add: keeps_count_def mod_inst_def)

lemma keeps_countD: "keeps_count m \<Longrightarrow> in_refcount (cx_inst (fst (m s))) = in_refcount (cx_inst s)"
  and keeps_outD: "keeps_count m \<Longrightarrow> extends (cx_out s) (cx_out (fst (m s)))"
  by (simp_all add: keeps_count_def)

lemma keeps_andthen [keeps]:
  assumes "keeps_count m" "\<And>x. keeps_count (f x)"
  shows "keeps_count (andthen m f)"
  unfolding keeps_count_def
proof
  fix s
  obtain s' r where m: "m s = (s', r)" by (cases "m s")
  have "in_refcount (cx_inst s') = in_refcount (cx_inst s)" "extends (cx_out s) (cx_out s')"
    using keeps_countD [OF assms(1), of s] keeps_outD [OF assms(1), of s] by (simp_all add: m)
  then show "in_refcount (cx_inst (fst (andthen m f s))) = in_refcount (cx_inst s) \<and> extends (cx_out s) (cx_out (fst (andthen m f s)))"
    using keeps_countD [OF assms(2), where s = s'] extends_trans [OF _ keeps_outD [OF assms(2), where s = s']] by (cases r) (simp_all add: andthen_def m)
qed

lemma keeps_prod [keeps]: "(\<And>x y. keeps_count (f x y)) \<Longrightarrow> keeps_count (case p of (x, y) \<Rightarrow> f x y)"
  by (cases p) simp

lemma keeps_lift [keeps]: "keeps_count (lift_text r)" "keeps_count (lift_swmr q)"
  by (cases r; simp add: lift_text_def keeps) (cases q; simp add: lift_swmr_def keeps)

lemma keeps_if [keeps]: "(P \<Longrightarrow> keeps_count m) \<Longrightarrow> (\<not> P \<Longrightarrow> keeps_count n) \<Longrightarrow> keeps_count (if P then m else n)"
  by simp

lemma keeps_option [keeps]:
  "keeps_count m \<Longrightarrow> (\<And>x. keeps_count (f x)) \<Longrightarrow> keeps_count (case q of None \<Rightarrow> m | Some x \<Rightarrow> f x)"
  by (cases q) simp_all

lemma lift_text_out: "cx_out (fst (lift_text r s)) = cx_out s"
  by (simp add: lift_text_def ret_def throw_def split: sum.split)

lemma keeps_on_assembly [keeps]: "keeps_count (on_assembly f)"
  by (simp add: keeps_count_def on_assembly_def keeps_countD [OF keeps_lift(1)] lift_text_out split: option.split prod.split)

lemma keeps_saved [keeps]:
  "keeps_count (\<lambda>s. (s\<lparr>cx_engine := save (cx_engine s), cx_inst := (cx_inst s)\<lparr>in_checkpoint_at := n\<rparr>\<rparr>, Inr ()))"
  by (simp add: keeps_count_def)

lemma keeps_saving: "keeps_count (andthen (on_assembly f)
    (\<lambda>ck s. (s\<lparr>cx_engine := save ck (cx_engine s), cx_inst := (cx_inst s)\<lparr>in_checkpoint_at := n\<rparr>\<rparr>, Inr ())))"
  by (intro keeps)

lemma keeps_checkpoint [keeps]: "keeps_count (save_text_checkpoint V force)"
  by (simp add: keeps_count_def save_text_checkpoint_def keeps_countD [OF keeps_saving] keeps_outD [OF keeps_saving] split: option.split)

lemma keeps_states [keeps]:
  "keeps_count (swmr_assembly_act V)" "keeps_count (open_assembly V)" "keeps_count (preflight_swmr V ops)"
  unfolding swmr_assembly_act_def open_assembly_def preflight_swmr_def
  by (intro keeps; simp)+

lemma keeps_text_state [keeps]: "keeps_count (text_crdt_state V)" "keeps_count (validate_incoming V ops)"
  unfolding text_crdt_state_def validate_incoming_def by (intro keeps)+

lemma keeps_refresh [keeps]: "keeps_count (refresh_event V)" "keeps_count (fold_log V)" "keeps_count (check_incoming V ops)"
  unfolding refresh_event_def fold_log_def check_incoming_def Let_def by (intro keeps; simp)+

lemma keeps_fold [keeps]: "keeps_count (fold_and_broadcast V ops)"
  unfolding fold_and_broadcast_def by (intro keeps)

lemma keeps_append_loop [keeps]: "keeps_count (append_loop V ops)"
  by (induction ops) (simp_all add: keeps)

lemma keeps_ingest [keeps]: "keeps_count (ingest V ops)"
  unfolding ingest_def by (intro keeps; simp)

lemma keeps_methods [keeps]:
  "keeps_count (hydrate V)" "keeps_count (attach_glade V)" "keeps_count (dispose V)" "keeps_count (unsubscribe l)"
  unfolding hydrate_def attach_glade_def dispose_def unsubscribe_def by (intro keeps; simp)+

lemma keeps_subscribe [keeps]: "keeps_count (subscribe V l)"
proof -
  have "keeps_count (\<lambda>s. (s\<lparr>cx_out := cx_out s @ [(l, ev)]\<rparr>, Inr ()))" for ev by (simp add: keeps_count_def)
  then show ?thesis unfolding subscribe_def by (intro keeps) simp_all
qed

subsection \<open>Counts\<close>

definition count_at :: "('e, 'd, 'n) registry \<Rightarrow> nat \<Rightarrow> int" where
  "count_at b a = in_refcount (he_inst (bn_heap b ! a))"

definition live_mounts :: "('e, 'd, 'n) registry \<Rightarrow> nat \<Rightarrow> nat" where
  "live_mounts b a = length (filter (\<lambda>mt. mt_live mt \<and> mt_inst mt = a) (bn_mounts b))"

text \<open>
  The registry's invariant: it holds each key and each instance once; a live mount's instance is registered under the
  mount's key; and no instance counts less interest than it has live mounts. It is exact
  when moreover every registered instance counts its live mounts, of which there is one.
\<close>

definition registry_inv :: "('e, 'd, 'n) registry \<Rightarrow> bool" where
  "registry_inv b \<longleftrightarrow> distinct (jm_keys (bn_instances b)) \<and> distinct (map snd (bn_instances b)) \<and> (\<forall>(k, a) \<in> set (bn_instances b). a < length (bn_heap b))
     \<and> (\<forall>mt \<in> set (bn_mounts b). mt_inst mt < length (bn_heap b) \<and> (mt_live mt \<longrightarrow> jm_get (bn_instances b) (mt_key mt) = Some (mt_inst mt)))
     \<and> (\<forall>a < length (bn_heap b). int (live_mounts b a) \<le> count_at b a)"

definition registry_exact :: "('e, 'd, 'n) registry \<Rightarrow> bool" where
  "registry_exact b \<longleftrightarrow> (\<forall>(k, a) \<in> set (bn_instances b). count_at b a = int (live_mounts b a) \<and> 0 < live_mounts b a)"

lemma registry_invD:
  assumes "registry_inv b"
  shows "mt \<in> set (bn_mounts b) \<Longrightarrow> mt_inst mt < length (bn_heap b)"
    and "mt \<in> set (bn_mounts b) \<Longrightarrow> mt_live mt \<Longrightarrow> jm_get (bn_instances b) (mt_key mt) = Some (mt_inst mt)"
    and "(k, a) \<in> set (bn_instances b) \<Longrightarrow> a < length (bn_heap b)"
    and "a < length (bn_heap b) \<Longrightarrow> int (live_mounts b a) \<le> count_at b a"
  using assms unfolding registry_inv_def by blast+

lemma registry_inv_key:
  assumes "registry_inv b" "(k, a) \<in> set (bn_instances b)" "(k', a) \<in> set (bn_instances b)"
  shows "k = k'"
proof -
  have "inj_on snd (set (bn_instances b))" using assms(1) by (simp add: registry_inv_def distinct_map)
  from inj_onD [OF this _ assms(2,3)] show ?thesis by simp
qed

text \<open>States that differ only in what instance methods do.\<close>

definition same_counts :: "('e, 'd, 'n) registry \<Rightarrow> ('e, 'd, 'n) registry \<Rightarrow> bool" where
  "same_counts b b' \<longleftrightarrow> bn_instances b' = bn_instances b \<and> bn_mounts b' = bn_mounts b \<and> length (bn_heap b') = length (bn_heap b)
     \<and> (\<forall>a < length (bn_heap b). count_at b' a = count_at b a)"

lemma same_counts_refl [simp]: "same_counts b b"
  by (simp add: same_counts_def)

lemma same_counts_trans: "same_counts b b' \<Longrightarrow> same_counts b' b'' \<Longrightarrow> same_counts b b''"
  by (simp add: same_counts_def)

lemma same_counts_live: "same_counts b b' \<Longrightarrow> live_mounts b' = live_mounts b"
  by (rule ext) (simp add: same_counts_def live_mounts_def)

lemma same_counts_inv: "same_counts b b' \<Longrightarrow> registry_inv b \<Longrightarrow> registry_inv b'"
  using same_counts_live [of b b'] by (simp add: same_counts_def registry_inv_def)

lemma same_counts_exact: "same_counts b b' \<Longrightarrow> registry_inv b \<Longrightarrow> registry_exact b \<Longrightarrow> registry_exact b'"
  using same_counts_live [of b b'] by (fastforce simp: same_counts_def registry_exact_def registry_inv_def)

lemma entry_ctx_inst [simp]: "cx_inst (entry_ctx b i) = i"
  by (simp add: entry_ctx_def)

lemma call_at_counts:
  assumes "keeps_count m"
  shows "same_counts b (fst (call_at a m b))"
proof -
  obtain s r where m: "m (entry_ctx b (he_inst (bn_heap b ! a))) = (s, r)" by (cases "m (entry_ctx b (he_inst (bn_heap b ! a)))")
  have "in_refcount (cx_inst s) = in_refcount (he_inst (bn_heap b ! a))"
    using keeps_countD [OF assms, of "entry_ctx b (he_inst (bn_heap b ! a))"] by (simp add: m)
  then show ?thesis
    by (simp add: call_at_def m same_counts_def count_at_def nth_update_sel [where f = "\<lambda>e. in_refcount (he_inst e)"])
qed

lemma bump_counts:
  defines "b' k a b \<equiv> fst (call_at a (bump k) b)"
  shows "bn_instances (b' k a b) = bn_instances b" "bn_mounts (b' k a b) = bn_mounts b" "length (bn_heap (b' k a b)) = length (bn_heap b)"
    and "a < length (bn_heap b) \<Longrightarrow> x < length (bn_heap b) \<Longrightarrow> count_at (b' k a b) x = (if x = a then count_at b a + k else count_at b x)"
  by (auto simp: b'_def call_at_def bump_def mod_inst_def entry_ctx_def count_at_def nth_list_update)

lemma attach_at_counts: "same_counts b (fst (attach_at B a n b))"
proof -
  let ?b = "if in_glade (he_inst (bn_heap b ! a)) then b else b\<lparr>bn_heap := (bn_heap b)[a := (bn_heap b ! a)\<lparr>he_dest := n\<rparr>]\<rparr>"
  have "same_counts b ?b" by (simp add: same_counts_def count_at_def nth_update_sel [where f = "\<lambda>e. in_refcount (he_inst e)"])
  moreover have "same_counts ?b (fst (attach_at B a n b))"
    unfolding attach_at_def Let_def by (rule call_at_counts [OF keeps_methods(2)])
  ultimately show ?thesis by (rule same_counts_trans)
qed

lemma create_counts:
  fixes b :: "('e, 'd, 'n) registry"
  assumes "registry_inv b" "jm_get (bn_instances b) key = None" "create_instance B decl key profile b = (b', r)"
  shows "registry_inv b' \<and> bn_mounts b' = bn_mounts b \<and> length (bn_heap b) \<le> length (bn_heap b') \<and> (\<forall>x < length (bn_heap b). count_at b' x = count_at b x)
    \<and> (case r of Inl _ \<Rightarrow> bn_instances b' = bn_instances b
       | Inr a \<Rightarrow> bn_instances b' = jm_set key a (bn_instances b) \<and> a = length (bn_heap b) \<and> a < length (bn_heap b') \<and> count_at b' a = 0)"
proof -
  obtain e store where e: "ei_open (en_engine (be_env B)) key (bn_engine b) = (e, store)" by (cases "ei_open (en_engine (be_env B)) key (bn_engine b)")
  let ?b1 = "b\<lparr>bn_engine := e\<rparr>"
  show ?thesis
  proof (cases "new_instance (bd_glade_id decl) (bd_shape decl) key store (be_origin B) profile :: unsupported_shape + 'n binding_instance")
    case (Inl u)
    then have "b' = ?b1" "r = Inl (ShapeFail u)" using assms(3) by (simp_all add: create_instance_def e Let_def)
    with assms(1) show ?thesis by (simp add: registry_inv_def count_at_def live_mounts_def)
  next
    case (Inr i)
    then have i: "in_refcount i = 0" by (auto simp: new_instance_def rbind_Inr_iff)
    let ?b2 = "?b1\<lparr>bn_heap := bn_heap b @ [\<lparr>he_inst = i, he_dest = 0\<rparr>]\<rparr>" and ?a = "length (bn_heap b)"
    have "live_mounts b ?a = 0" using assms(1) by (auto simp: live_mounts_def registry_inv_def filter_empty_conv)
    then have inv2: "registry_inv ?b2" "count_at ?b2 ?a = 0"
      using assms(1) i by (auto simp: registry_inv_def live_mounts_def count_at_def nth_append less_Suc_eq)
    obtain b3 q where c: "call_at ?a (hydrate (be_env B)) ?b2 = (b3, q)" by (cases "call_at ?a (hydrate (be_env B)) ?b2")
    have sc: "same_counts ?b2 b3" using call_at_counts [OF keeps_methods(1), of ?b2 ?a "be_env B"] by (simp add: c)
    have inv3: "registry_inv b3" by (rule same_counts_inv [OF sc inv2(1)])
    have f: "bn_instances b3 = bn_instances b" "bn_mounts b3 = bn_mounts b" "length (bn_heap b3) = Suc ?a"
        "\<forall>x < ?a. count_at b3 x = count_at b x" "count_at b3 ?a = 0"
      using sc inv2(2) by (auto simp: same_counts_def count_at_def nth_append)
    show ?thesis
    proof (cases q)
      case (Inl e')
      then have "b' = b3" "r = Inl (MountFail e')" using assms(3) Inr by (simp_all add: create_instance_def e c Let_def)
      with inv3 f show ?thesis by simp
    next
      case q: (Inr u)
      from Inr have r: "b' = b3\<lparr>bn_instances := jm_set key ?a (bn_instances b3)\<rparr>" "r = Inr ?a"
        using assms(3) q by (simp_all add: create_instance_def e c Let_def)
      have "?a \<notin> snd ` set (bn_instances b)" using assms(1) by (auto simp: registry_inv_def)
      then have "registry_inv b'"
        using inv3 assms(2) f(1-3)
        by (auto simp: r registry_inv_def count_at_def live_mounts_def jm_set_fresh jm_get_set map_of_eq_None_iff image_iff)
      with r f show ?thesis by (simp add: count_at_def)
    qed
  qed
qed

text \<open>An instance other than \<open>a\<close> counts exactly its live mounts, at least one; \<open>a\<close> may have none yet.\<close>

definition exact_but :: "nat \<Rightarrow> ('e, 'd, 'n) registry \<Rightarrow> bool" where
  "exact_but a b \<longleftrightarrow> (\<forall>(k, x) \<in> set (bn_instances b). count_at b x = int (live_mounts b x) \<and> (x = a \<or> 0 < live_mounts b x))"

lemma finish_counts:
  assumes "registry_inv b" "jm_get (bn_instances b) key = Some a" "finish_mount B a key listener b = (b', r)"
  shows "registry_inv b' \<and> bn_instances b' = bn_instances b \<and> (case r of Inl e \<Rightarrow> bn_mounts b' = bn_mounts b \<and> (\<exists>e'. e = MountFail e')
    | Inr h \<Rightarrow> h = length (bn_mounts b) \<and> bn_mounts b' = bn_mounts b @ [\<lparr>mt_inst = a, mt_key = key, mt_listener = listener, mt_live = True\<rparr>]
       \<and> (exact_but a b \<longrightarrow> registry_exact b'))"
proof -
  let ?b1 = "fst (call_at a (bump 1) b)"
  obtain b2 q where s: "(case listener of None \<Rightarrow> (?b1, Inr ()) | Some l \<Rightarrow> call_at a (subscribe (env_at B (he_dest (bn_heap ?b1 ! a))) l) ?b1) = (b2, q)"
    by (cases "case listener of None \<Rightarrow> (?b1, Inr ()) | Some l \<Rightarrow> call_at a (subscribe (env_at B (he_dest (bn_heap ?b1 ! a))) l) ?b1")
  have sc: "same_counts ?b1 b2"
  proof (cases listener)
    case (Some l)
    with s call_at_counts [OF keeps_subscribe, of ?b1 a "env_at B (he_dest (bn_heap ?b1 ! a))" l] show ?thesis by simp
  qed (use s in simp)
  have a: "a < length (bn_heap b)" using assms(1,2) by (auto simp: registry_inv_def dest: jm_get_in)
  have f: "bn_instances b2 = bn_instances b" "bn_mounts b2 = bn_mounts b" "length (bn_heap b2) = length (bn_heap b)"
      "\<forall>x < length (bn_heap b). count_at b2 x = (if x = a then count_at b a + 1 else count_at b x)"
    using sc bump_counts [where a = a and k = 1 and b = b] a by (simp_all add: same_counts_def)
  have lm: "live_mounts b2 = live_mounts b" by (rule ext) (simp add: live_mounts_def f)
  have inv2: "registry_inv b2" using assms(1) f lm by (fastforce simp: registry_inv_def)
  show ?thesis
  proof (cases q)
    case (Inl e)
    with s have "b' = b2" "r = Inl (MountFail e)" using assms(3) by (simp_all add: finish_mount_def Let_def)
    with inv2 f show ?thesis by simp
  next
    case (Inr u)
    let ?mt = "\<lparr>mt_inst = a, mt_key = key, mt_listener = listener, mt_live = True\<rparr>"
    have r: "b' = b2\<lparr>bn_mounts := bn_mounts b @ [?mt]\<rparr>" "r = Inr (length (bn_mounts b))"
      using assms(3) Inr s f by (simp_all add: finish_mount_def Let_def)
    have lm': "live_mounts b' x = (if x = a then live_mounts b a + 1 else live_mounts b x)" for x
      by (simp add: live_mounts_def r)
    have c': "count_at b' = count_at b2" by (rule ext) (simp add: count_at_def r)
    have g: "bn_instances b' = bn_instances b" "length (bn_heap b') = length (bn_heap b)" "bn_mounts b' = bn_mounts b @ [?mt]"
      by (simp_all add: r f)
    have "registry_inv b'"
      using assms(1,2) a f(4) unfolding registry_inv_def g c' lm' by auto
    moreover have "exact_but a b \<longrightarrow> registry_exact b'"
      using assms(1) f(4) unfolding exact_but_def registry_exact_def registry_inv_def g c' lm' by fastforce
    ultimately show ?thesis using r f by simp
  qed
qed

lemma same_counts_but: "same_counts b b' \<Longrightarrow> registry_inv b \<Longrightarrow> exact_but a b \<Longrightarrow> exact_but a b'"
  using same_counts_live [of b b'] by (fastforce simp: same_counts_def exact_but_def registry_inv_def)

lemma open_counts:
  assumes "registry_inv b" "(case jm_get (bn_instances b) key of Some a \<Rightarrow> (b, Inr a) | None \<Rightarrow> create_instance B decl key profile b) = (b', q)"
  shows "registry_inv b' \<and> (case q of Inl e \<Rightarrow> registry_exact b \<longrightarrow> registry_exact b'
    | Inr a \<Rightarrow> jm_get (bn_instances b') key = Some a \<and> (registry_exact b \<longrightarrow> exact_but a b'))"
proof (cases "jm_get (bn_instances b) key")
  case (Some a)
  with assms have "b' = b" "q = Inr a" by simp_all
  with assms(1) Some show ?thesis by (fastforce simp: registry_exact_def exact_but_def)
next
  case None
  with assms(2) have "create_instance B decl key profile b = (b', q)" by simp
  note c = create_counts [OF assms(1) None this]
  then have lm: "live_mounts b' = live_mounts b" by (intro ext) (simp add: live_mounts_def)
  have old: "registry_exact b \<Longrightarrow> (k, x) \<in> set (bn_instances b) \<Longrightarrow> count_at b' x = int (live_mounts b x) \<and> 0 < live_mounts b x" for k x
    using c assms(1) by (fastforce simp: registry_exact_def registry_inv_def)
  show ?thesis
  proof (cases q)
    case (Inl e)
    with c old lm show ?thesis by (auto simp: registry_exact_def)
  next
    case (Inr a)
    with c have a: "bn_instances b' = bn_instances b @ [(key, a)]" "count_at b' a = 0" "a < length (bn_heap b')"
      by (auto simp: jm_set_fresh [OF None])
    moreover have "live_mounts b a = 0"
      using c assms(1) Inr by (auto simp: live_mounts_def registry_inv_def filter_empty_conv)
    ultimately have "exact_but a b'" if "registry_exact b"
      using old [OF that] unfolding exact_but_def lm by fastforce
    moreover have "jm_get (bn_instances b') key = Some a" using c Inr by (simp add: jm_get_set)
    ultimately show ?thesis using c Inr by simp
  qed
qed

lemma mount_counts:
  assumes "registry_inv b" "mount_binding B decl fill listener config b = (b', r)"
  shows "registry_inv b' \<and> (registry_exact b \<longrightarrow> (\<nexists>e. r = Inl (MountFail e)) \<longrightarrow> registry_exact b')"
proof (cases "require_mount_shape_adapter (bd_shape decl) (jlit ''mount'')")
  case (Inl u)
  with assms show ?thesis by (auto simp: mount_binding_def)
next
  case gate: (Inr ad)
  show ?thesis
  proof (cases "if bd_shape decl = jlit ''crdt'' then crdt_profile_of B decl config else Inr (mc_text_profile config)")
    case (Inl e)
    with assms gate show ?thesis by (auto simp: mount_binding_def simp del: if_split)
  next
    case profile: (Inr profile)
    let ?key = "instance_key (bd_glade_id decl) fill"
    let ?open = "case jm_get (bn_instances b) ?key of Some a \<Rightarrow> (b, Inr a) | None \<Rightarrow> create_instance B decl ?key profile b"
    obtain b1 q where o': "?open = (b1, q)" by (cases ?open)
    have m: "(case (b1, q) of (b1, Inl e) \<Rightarrow> (b1, Inl e)
        | (b1, Inr a) \<Rightarrow> (case (case mc_glade config of None \<Rightarrow> (b1, Inr ()) | Some n \<Rightarrow> attach_at B a n b1) of
              (b2, Inl e) \<Rightarrow> (b2, Inl (MountFail e)) | (b2, Inr _) \<Rightarrow> finish_mount B a ?key listener b2)) = (b', r)"
      using assms(2) unfolding mount_binding_def gate profile by (simp add: Let_def o')
    note o1 = open_counts [OF assms(1) o']
    show ?thesis
    proof (cases q)
      case (Inl e)
      with o1 m show ?thesis by auto
    next
      case (Inr a)
      let ?att = "case mc_glade config of None \<Rightarrow> (b1, Inr ()) | Some n \<Rightarrow> attach_at B a n b1"
      obtain b2 q2 where t: "?att = (b2, q2)" by (cases ?att)
      have sc: "same_counts b1 b2"
        using t attach_at_counts [of b1 B a] by (cases "mc_glade config") (auto split: prod.splits, metis fst_conv)
      have inv2: "registry_inv b2" and ex: "registry_exact b \<longrightarrow> exact_but a b2" and k: "jm_get (bn_instances b2) ?key = Some a"
        using same_counts_inv [OF sc] same_counts_but [OF sc] o1 Inr sc by (auto simp: same_counts_def)
      show ?thesis
      proof (cases q2)
        case (Inl e)
        with m Inr t inv2 show ?thesis by auto
      next
        case q2: (Inr u)
        with m Inr t have "finish_mount B a ?key listener b2 = (b', r)" by simp
        from finish_counts [OF inv2 k this] ex show ?thesis by (cases r) auto
      qed
    qed
  qed
qed

lemma live_mounts_off:
  assumes "h < length (bn_mounts b)" "mt_live (bn_mounts b ! h)"
  shows "live_mounts b x = live_mounts (b\<lparr>bn_mounts := (bn_mounts b)[h := (bn_mounts b ! h)\<lparr>mt_live := False\<rparr>]\<rparr>) x
    + (if x = mt_inst (bn_mounts b ! h) then 1 else 0)"
proof -
  let ?ms = "bn_mounts b"
  have 1: "?ms = take h ?ms @ ?ms ! h # drop (Suc h) ?ms" by (rule id_take_nth_drop [OF assms(1)])
  have 2: "?ms[h := y] = take h ?ms @ y # drop (Suc h) ?ms" for y by (rule upd_conv_take_nth_drop [OF assms(1)])
  show ?thesis
    unfolding live_mounts_def registry.simps 2 by (subst 1) (use assms(2) in simp)
qed

lemma tear_down_counts:
  assumes "registry_inv b" "live_mounts b a = 0" "jm_get (bn_instances b) key = Some a" "tear_down B a key b = (b', r)"
  shows "registry_inv b' \<and> (exact_but a b \<longrightarrow> r = Inr () \<longrightarrow> registry_exact b')"
proof -
  let ?dis = "dispose (env_at B (he_dest (bn_heap b ! a)))"
  obtain c q where c: "call_at a ?dis b = (c, q)" by (cases "call_at a ?dis b")
  have sc: "same_counts b c" using call_at_counts [OF keeps_methods(3), of b a] by (metis c fst_conv)
  have inv: "registry_inv c" by (rule same_counts_inv [OF sc assms(1)])
  show ?thesis
  proof (cases q)
    case (Inl e)
    with assms(4) c inv show ?thesis by (auto simp: tear_down_def)
  next
    case (Inr v)
    with assms(4) c have r: "b' = c\<lparr>bn_instances := jm_delete key (bn_instances c), bn_engine := ei_drop (en_engine (be_env B)) key (bn_engine c)\<rparr>"
      by (simp add: tear_down_def)
    have g: "bn_instances b' = filter (\<lambda>p. key \<noteq> fst p) (bn_instances b)" "bn_mounts b' = bn_mounts b" "length (bn_heap b') = length (bn_heap b)"
      using sc by (simp_all add: r same_counts_def AList.delete_eq case_prod_beta')
    have cl: "count_at b' = count_at c" "live_mounts b' = live_mounts b"
      using sc by (auto simp: r count_at_def live_mounts_def same_counts_def)
    have apart: "mt_key mt \<noteq> key" if "mt \<in> set (bn_mounts b)" "mt_live mt" for mt
      using that assms(2,3) registry_invD(2) [OF assms(1) that] by (auto simp: live_mounts_def filter_empty_conv)
    have get: "jm_get (bn_instances b') k = (if k = key then None else jm_get (bn_instances b) k)" for k
      using sc by (simp add: r jm_get_delete same_counts_def)
    have "registry_inv b'"
      using assms(1) apart sc unfolding registry_inv_def cl get unfolding g
      by (auto simp: same_counts_def distinct_map_filter)
    moreover have "registry_exact b'" if "exact_but a b"
    proof -
      have "x \<noteq> a" if "(k, x) \<in> set (bn_instances b)" "k \<noteq> key" for k x
        using that registry_inv_key [OF assms(1)] jm_get_in [OF assms(3)] by blast
      then show ?thesis
        using that assms(1) sc unfolding registry_exact_def exact_but_def cl g registry_inv_def
        by (fastforce simp: same_counts_def)
    qed
    ultimately show ?thesis by simp
  qed
qed

text \<open>Marking a live mount dead and counting one less.\<close>

lemma release_counts:
  assumes "registry_inv b" "h < length (bn_mounts b)" "mt_live (bn_mounts b ! h)" "a = mt_inst (bn_mounts b ! h)"
    and "same_counts (b\<lparr>bn_mounts := (bn_mounts b)[h := (bn_mounts b ! h)\<lparr>mt_live := False\<rparr>]\<rparr>) c" "c' = fst (call_at a (bump (- 1)) c)"
  shows "registry_inv c'" "jm_get (bn_instances c') (mt_key (bn_mounts b ! h)) = Some a" "registry_exact b \<Longrightarrow> exact_but a c'"
    and "int (live_mounts c' a) \<le> count_at c' a"
proof -
  let ?mt = "bn_mounts b ! h"
  have mem: "?mt \<in> set (bn_mounts b)" using assms(2) by simp
  have a: "a < length (bn_heap b)" "jm_get (bn_instances b) (mt_key ?mt) = Some a"
    using assms(1,3,4) mem unfolding registry_inv_def by auto
  have f: "bn_instances c' = bn_instances b" "bn_mounts c' = (bn_mounts b)[h := ?mt\<lparr>mt_live := False\<rparr>]" "length (bn_heap c') = length (bn_heap b)"
      "\<forall>x < length (bn_heap b). count_at c' x = (if x = a then count_at b a - 1 else count_at b x)"
    using assms(5,6) a bump_counts [where a = a and k = "- 1" and b = c] by (simp_all add: same_counts_def count_at_def)
  show "jm_get (bn_instances c') (mt_key ?mt) = Some a" using a f by simp
  have lm: "live_mounts b x = live_mounts c' x + (if x = a then 1 else 0)" for x
    using live_mounts_off [OF assms(2,3), of x] f(2) by (simp add: live_mounts_def assms(4))
  have old: "mt \<in> set (bn_mounts c') \<Longrightarrow> mt \<in> set (bn_mounts b) \<or> mt = ?mt\<lparr>mt_live := False\<rparr>" for mt
    unfolding f(2) using set_update_subset_insert by fastforce
  have le: "\<forall>x < length (bn_heap b). int (live_mounts c' x) \<le> count_at c' x"
    using assms(1) lm f(4) by (auto simp: registry_inv_def)
  with a show "int (live_mounts c' a) \<le> count_at c' a" by simp
  have "\<forall>mt \<in> set (bn_mounts c'). mt_inst mt < length (bn_heap b)
      \<and> (mt_live mt \<longrightarrow> jm_get (bn_instances b) (mt_key mt) = Some (mt_inst mt))"
  proof
    fix mt assume "mt \<in> set (bn_mounts c')"
    from old [OF this] show "mt_inst mt < length (bn_heap b) \<and> (mt_live mt \<longrightarrow> jm_get (bn_instances b) (mt_key mt) = Some (mt_inst mt))"
    proof
      assume m: "mt \<in> set (bn_mounts b)"
      show ?thesis using registry_invD(1,2) [OF assms(1) m] by blast
    next
      assume "mt = ?mt\<lparr>mt_live := False\<rparr>"
      with a(1) show ?thesis by (simp add: assms(4))
    qed
  qed
  then show "registry_inv c'"
    using assms(1) le unfolding registry_inv_def f(1,3) by simp
  show "exact_but a c'" if ex: "registry_exact b"
    unfolding exact_but_def f(1)
  proof clarify
    fix k x assume m: "(k, x) \<in> set (bn_instances b)"
    have "count_at b x = int (live_mounts b x)" "0 < live_mounts b x" "x < length (bn_heap b)"
      using ex m registry_invD(3) [OF assms(1) m] by (auto simp: registry_exact_def)
    then show "count_at c' x = int (live_mounts c' x) \<and> (x = a \<or> 0 < live_mounts c' x)"
      using lm [of x] f(4) by (simp split: if_splits)
  qed
qed

lemma unmount_counts:
  assumes "registry_inv b" "h < length (bn_mounts b)" "unmount B h b = (b', r)"
  shows "registry_inv b' \<and> (registry_exact b \<longrightarrow> r = Inr () \<longrightarrow> registry_exact b')"
proof (cases "mt_live (bn_mounts b ! h)")
  case False
  with assms show ?thesis by (simp add: unmount_def)
next
  case True
  let ?mt = "bn_mounts b ! h" and ?a = "mt_inst (bn_mounts b ! h)"
  let ?b1 = "b\<lparr>bn_mounts := (bn_mounts b)[h := ?mt\<lparr>mt_live := False\<rparr>]\<rparr>"
  define c where "c = (case mt_listener ?mt of None \<Rightarrow> ?b1 | Some l \<Rightarrow> fst (call_at ?a (unsubscribe l) ?b1))"
  define c' where "c' = fst (call_at ?a (bump (- 1)) c)"
  have sc: "same_counts ?b1 c" by (cases "mt_listener ?mt") (simp_all add: c_def call_at_counts [OF keeps_methods(4)])
  note rel = release_counts [OF assms(1,2) True refl sc c'_def]
  have "unmount B h b = (if count_at c' ?a = 0 then tear_down B ?a (mt_key ?mt) c' else (c', Inr ()))"
    using True by (simp add: unmount_def Let_def count_at_def c_def c'_def)
  then have un: "(if count_at c' ?a = 0 then tear_down B ?a (mt_key ?mt) c' else (c', Inr ())) = (b', r)"
    using assms(3) by simp
  show ?thesis
  proof (cases "count_at c' ?a = 0")
    case False
    then have "exact_but ?a c' \<Longrightarrow> registry_exact c'"
      by (fastforce simp: exact_but_def registry_exact_def)
    with False un rel show ?thesis by auto
  next
    case z: True
    then have "live_mounts c' ?a = 0" using rel(4) by simp
    from tear_down_counts [OF rel(1) this rel(2)] z un rel(3) show ?thesis by auto
  qed
qed

lemma binder_new_inv: "registry_inv (binder_new e d)" "registry_exact (binder_new e d)"
  by (simp_all add: binder_new_def registry_inv_def registry_exact_def)

lemma step_counts:
  assumes "registry_inv b" "binder_step B i b = (b', ok)"
  shows "registry_inv b' \<and> (registry_exact b \<longrightarrow> ok \<longrightarrow> registry_exact b')"
proof (cases i)
  case (Mount decl fill listener config)
  obtain c r where m: "mount_binding B decl fill listener config b = (c, r)" by (cases "mount_binding B decl fill listener config b")
  from mount_counts [OF assms(1) m] m assms(2) Mount show ?thesis
    by (auto split: sum.splits bind_error.splits)
next
  case (Unmount h)
  obtain c r where m: "unmount B h b = (c, r)" by (cases "unmount B h b")
  show ?thesis
  proof (cases "h < length (bn_mounts b)")
    case True
    from unmount_counts [OF assms(1) this m] m assms(2) Unmount True show ?thesis by (auto split: sum.splits)
  qed (use assms Unmount in simp)
qed

lemma run_counts:
  "registry_inv b \<Longrightarrow> binder_run B ins b = (b', ok) \<Longrightarrow> registry_inv b' \<and> (registry_exact b \<longrightarrow> ok \<longrightarrow> registry_exact b')"
proof (induction ins arbitrary: b b' ok)
  case (Cons i ins)
  obtain c ok1 where c: "binder_step B i b = (c, ok1)" by (cases "binder_step B i b")
  obtain d ok2 where d: "binder_run B ins c = (d, ok2)" by (cases "binder_run B ins c")
  from step_counts [OF Cons.prems(1) c] Cons.IH [OF _ d] c d Cons.prems(2) show ?case by auto
qed simp

text \<open>The live mounts of a key, the abstract value of the registry.\<close>

definition mounts_of :: "('e, 'd, 'n) registry \<Rightarrow> jstr \<Rightarrow> mount list" where
  "mounts_of b key = filter (\<lambda>mt. mt_live mt \<and> mt_key mt = key) (bn_mounts b)"

lemma mounts_of_live:
  assumes "registry_inv b" "jm_get (bn_instances b) key = Some a"
  shows "length (mounts_of b key) = live_mounts b a"
proof -
  have "mt_key mt = key \<longleftrightarrow> mt_inst mt = a" if mt: "mt \<in> set (bn_mounts b)" "mt_live mt" for mt
  proof
    have g: "jm_get (bn_instances b) (mt_key mt) = Some (mt_inst mt)" by (rule registry_invD(2) [OF assms(1) mt])
    show "mt_key mt = key \<Longrightarrow> mt_inst mt = a" using g assms(2) by simp
    show "mt_inst mt = a \<Longrightarrow> mt_key mt = key"
      using registry_inv_key [OF assms(1) jm_get_in [OF g]] jm_get_in [OF assms(2)] by simp
  qed
  then have "mounts_of b key = filter (\<lambda>mt. mt_live mt \<and> mt_inst mt = a) (bn_mounts b)"
    unfolding mounts_of_def by (intro filter_cong) auto
  then show ?thesis by (simp add: live_mounts_def)
qed

lemma mounts_of_none: "registry_inv b \<Longrightarrow> jm_get (bn_instances b) key = None \<Longrightarrow> mounts_of b key = []"
  using registry_invD(2) by (fastforce simp: mounts_of_def filter_empty_conv)

lemma exact_at: "registry_exact b \<Longrightarrow> jm_get (bn_instances b) key = Some a \<Longrightarrow> count_at b a = int (live_mounts b a) \<and> 0 < live_mounts b a"
  using jm_get_in unfolding registry_exact_def by fastforce

lemma exact_keys:
  assumes "registry_inv b" "registry_exact b"
  shows "fst ` set (bn_instances b) = mt_key ` {mt \<in> set (bn_mounts b). mt_live mt}"
proof
  show "fst ` set (bn_instances b) \<subseteq> mt_key ` {mt \<in> set (bn_mounts b). mt_live mt}"
  proof
    fix k assume "k \<in> fst ` set (bn_instances b)"
    then have "jm_get (bn_instances b) k \<noteq> None" by (simp add: map_of_eq_None_iff)
    then obtain a where a: "jm_get (bn_instances b) k = Some a" by blast
    have "mounts_of b k \<noteq> []" using exact_at [OF assms(2) a] mounts_of_live [OF assms(1) a] by auto
    then show "k \<in> mt_key ` {mt \<in> set (bn_mounts b). mt_live mt}"
      by (force simp: mounts_of_def filter_empty_conv)
  qed
  show "mt_key ` {mt \<in> set (bn_mounts b). mt_live mt} \<subseteq> fst ` set (bn_instances b)"
    using registry_invD(2) [OF assms(1)] by (force dest: jm_get_in)
qed

lemma refcount_exact:
  assumes "registry_inv b" "registry_exact b"
  shows "refcount_of decl fill b = int (length (mounts_of b (instance_key (bd_glade_id decl) fill)))"
proof (cases "jm_get (bn_instances b) (instance_key (bd_glade_id decl) fill)")
  case None
  with mounts_of_none [OF assms(1) None] show ?thesis by (simp add: refcount_of_def)
next
  case (Some a)
  with exact_at [OF assms(2) Some] mounts_of_live [OF assms(1) Some] show ?thesis by (simp add: refcount_of_def count_at_def)
qed

definition profile_ok :: "('e, 'd, 'n, 'k, 't, 'w) binder_env \<Rightarrow> binding_decl \<Rightarrow> mount_config \<Rightarrow> bool" where
  "profile_ok B decl config =
     (case (case be_profiles B of None \<Rightarrow> None | Some lookup \<Rightarrow> lookup (bd_glade_id decl)) of
        None \<Rightarrow> mc_text_profile config
      | Some declared \<Rightarrow> pd_glade_id declared = bd_glade_id decl \<and> pd_profile declared = jlit ''text_crdt'')"

subsection \<open>Properties\<close>

definition sample_binder :: "(mem_engine, unit, crdt_op list, crdt_op list, unit, swmr_output list) binder_env" where
  "sample_binder = \<lparr>be_env = sample_env (sample_echo (sample_push 4 [])), be_dests = (\<lambda>_. sample_echo (sample_push 4 [])),
     be_origin = [97], be_profiles = None\<rparr>"

definition sample_decl :: binding_decl where
  "sample_decl = \<lparr>bd_glade_id = [103], bd_shape = jlit ''log''\<rparr>"

definition sample_fill :: fill where
  "sample_fill = \<lparr>fl_domain = [100], fl_zone = None, fl_key = None\<rparr>"

definition no_config :: mount_config where
  "no_config = \<lparr>mc_glade = None, mc_text_profile = False\<rparr>"

definition sample_mounts :: "binder_input list" where
  "sample_mounts = [Mount sample_decl sample_fill (Some 7) no_config, Mount sample_decl sample_fill None no_config, Unmount 0]"

lemma gate_log: "require_mount_shape_adapter (jlit ''log'') oper = Inr \<lparr>ad_shape = Log, ad_contract_version = jlit ''log.oracle/v0'',
        ad_operations = map jlit [''append'', ''read'', ''subscribe'']\<rparr>"
  by (simp add: require_mount_shape_adapter_def gate_def adapters_def)

lemma sample_mounts_run:
  "(case binder_run sample_binder sample_mounts (binder_new mem_engine_new ()) of
      (b, ok) \<Rightarrow> ok \<and> bn_mounts b \<noteq> [] \<and> mt_live (last (bn_mounts b)))"
  unfolding sample_mounts_def
  by (simp add: sample_decl_def mount_binding_def gate_log no_config_def Let_def create_instance_def binder_new_def new_instance_def
     sample_binder_def sample_env_def mem_env_def mem_if_def mem_open_def mem_engine_new_def call_at_def entry_ctx_def hydrate_def act_simps held_def
     finish_mount_def bump_def subscribe_def refresh_event_def env_at_def shape_of_def unmount_def unsubscribe_def mem_all_def)

text \<open>No consumer loses its instance: after any run of mounts and unmounts, including those in which
  a store, a destination or an assembly threw, every mount that was not unmounted still finds
  its instance registered under its key, and that instance counts at least its live mounts.\<close>

theorem registry_run_safe:
  assumes "mt \<in> set (bn_mounts (fst (binder_run B ins (binder_new e d))))" "mt_live mt"
  shows "jm_get (bn_instances (fst (binder_run B ins (binder_new e d)))) (mt_key mt) = Some (mt_inst mt)
    \<and> int (live_mounts (fst (binder_run B ins (binder_new e d))) (mt_inst mt)) \<le> count_at (fst (binder_run B ins (binder_new e d))) (mt_inst mt)"
proof -
  have inv: "registry_inv (fst (binder_run B ins (binder_new e d)))"
    using run_counts [OF binder_new_inv(1), of B ins e d] by (cases "binder_run B ins (binder_new e d)") auto
  from registry_invD(2) [OF inv assms] registry_invD(4) [OF inv registry_invD(1) [OF inv assms(1)]] show ?thesis by blast
qed

theorem registry_run_safe_witness:
  "\<exists>b mt. fst (binder_run sample_binder sample_mounts (binder_new mem_engine_new ())) = b \<and> mt \<in> set (bn_mounts b) \<and> mt_live mt
    \<and> jm_get (bn_instances b) (mt_key mt) = Some (mt_inst mt) \<and> int (live_mounts b (mt_inst mt)) \<le> count_at b (mt_inst mt)"
proof -
  let ?b = "fst (binder_run sample_binder sample_mounts (binder_new mem_engine_new ()))"
  have "bn_mounts ?b \<noteq> []" "mt_live (last (bn_mounts ?b))" using sample_mounts_run by (auto split: prod.splits)
  note mt = last_in_set [OF this(1)] this(2)
  from mt registry_run_safe [OF mt] show ?thesis by blast
qed

text \<open>C9. The registry refines a multiset of mounts: after any run in which no instance method threw, a
  declaration and fill are live exactly when one of their mounts is, the reference count is the
  number of these mounts, and there are as many instances as keys with a live mount; so the
  last unmount tears down and none before it does.\<close>

theorem registry_run_exact:
  assumes "binder_run B ins (binder_new e d) = (b, True)"
  shows "is_live decl fill b = (mounts_of b (instance_key (bd_glade_id decl) fill) \<noteq> [])
    \<and> refcount_of decl fill b = int (length (mounts_of b (instance_key (bd_glade_id decl) fill)))
    \<and> instance_count b = card (mt_key ` {mt \<in> set (bn_mounts b). mt_live mt})"
proof -
  have inv: "registry_inv b" and ex: "registry_exact b"
    using run_counts [OF binder_new_inv(1) assms] by (simp_all add: binder_new_inv(2))
  let ?key = "instance_key (bd_glade_id decl) fill"
  have "card (fst ` set (bn_instances b)) = length (bn_instances b)"
    using inv by (metis distinct_card length_map list.set_map registry_inv_def)
  then have n: "instance_count b = card (mt_key ` {mt \<in> set (bn_mounts b). mt_live mt})"
    using exact_keys [OF inv ex] by (simp add: instance_count_def)
  have "is_live decl fill b = (mounts_of b ?key \<noteq> [])"
  proof (cases "jm_get (bn_instances b) ?key")
    case (Some a)
    with exact_at [OF ex Some] mounts_of_live [OF inv Some] show ?thesis by (auto simp: is_live_def)
  qed (use mounts_of_none [OF inv] in \<open>simp add: is_live_def\<close>)
  with n refcount_exact [OF inv ex] show ?thesis by simp
qed

theorem registry_run_exact_witness:
  "\<exists>b. binder_run sample_binder sample_mounts (binder_new mem_engine_new ()) = (b, True)
    \<and> refcount_of sample_decl sample_fill b = int (length (mounts_of b (instance_key (bd_glade_id sample_decl) sample_fill)))"
proof -
  obtain b where b: "binder_run sample_binder sample_mounts (binder_new mem_engine_new ()) = (b, True)"
    using sample_mounts_run by (auto split: prod.splits)
  with registry_run_exact [OF b] show ?thesis by blast
qed

text \<open>Mounts fail closed: a declaration whose shape cannot be mounted, or a \<open>crdt\<close> declaration whose
  profile is not \<open>text_crdt\<close>, is refused before anything is touched; a declared profile counts
  ahead of the configuration.\<close>

theorem mount_fails_closed:
  assumes "bd_shape decl \<notin> set (map jlit [''value'', ''log'', ''swmr'', ''crdt'']) \<or> (bd_shape decl = jlit ''crdt'' \<and> \<not> profile_ok B decl config)"
  shows "\<exists>e. mount_binding B decl fill listener config b = (b, Inl e) \<and> (\<forall>x. e \<noteq> MountFail x)"
proof (cases "require_mount_shape_adapter (bd_shape decl) (jlit ''mount'')")
  case (Inl u)
  then show ?thesis by (simp add: mount_binding_def)
next
  case (Inr ad)
  then have "bd_shape decl \<in> set (map jlit [''value'', ''log'', ''swmr'', ''crdt''])"
    by (auto simp: require_mount_shape_adapter_def gate_def split: if_splits)
  with assms have c: "bd_shape decl = jlit ''crdt''" "\<not> profile_ok B decl config" by auto
  have "\<exists>e. crdt_profile_of B decl config = Inl (ProfileFail e)"
    using c(2) by (auto simp: crdt_profile_of_def profile_ok_def split: option.split)
  then show ?thesis using Inr c(1) by (auto simp: mount_binding_def)
qed

theorem mount_fails_closed_witness:
  "\<exists>e. mount_binding sample_binder (sample_decl\<lparr>bd_shape := jlit ''stream''\<rparr>) sample_fill None no_config (binder_new mem_engine_new ())
      = (binder_new mem_engine_new (), Inl e) \<and> (\<forall>x. e \<noteq> MountFail x)"
  by (rule mount_fails_closed) simp

end
