(* ===== verification/Single_Writer.thy ===== *)
theory Single_Writer
  imports Prelude
begin

text \<open>
  The two single-writer surfaces of \<open>src/provider_status_atom.ts\<close> and \<open>src/live_metrics_stream.ts\<close>:
  adapters over the Taut \<open>AtomNode\<close> and \<open>StreamNode\<close>, the surfaces with their declared writer,
  and the registries that hold one surface per id. The nodes come from \<open>@owebeeone/taut-shape\<close>
  and are parameters.

  Surfaces are objects shared by the registry and by the writers and readers handed out, so a
  registry state is a heap of surfaces indexed by address and a map from ids to addresses. A
  writer is the address of its surface together with the identity it was opened for.

  Both registries keep the contract \<open>writer_registry\<close>, from which the single-writer discipline
  over runs is proved once.
\<close>

datatype writer_error = WriterConflict jstr jstr jstr | CapacityChange jstr | ProbeHeld string

subsection \<open>Provider status\<close>

datatype atom_input = AtomReplace bytes | AtomRead jstr jstr int | AtomEndStream jstr jstr

datatype 'r atom_output = AtomResponse 'r | AtomOther

record ('a, 'r) atom_if =
  an_new :: 'a
  an_handle :: "atom_input \<Rightarrow> 'a \<Rightarrow> 'a \<times> 'r atom_output list"

record atom_declaration =
  ad_id :: jstr
  ad_writer :: jstr

record 'a status_atom =
  pa_declaration :: atom_declaration
  pa_node :: 'a

record 'a atom_registry =
  ar_heap :: "'a status_atom list"
  ar_atoms :: "(jstr \<times> nat) list"

definition atom_dispatch :: "('a, 'r) atom_if \<Rightarrow> nat \<Rightarrow> atom_input \<Rightarrow> 'a atom_registry \<Rightarrow> 'a atom_registry \<times> 'r atom_output list" where
  "atom_dispatch N a inp s =
     (let (node, outs) = an_handle N inp (pa_node (ar_heap s ! a))
      in (s\<lparr>ar_heap := (ar_heap s)[a := (ar_heap s ! a)\<lparr>pa_node := node\<rparr>]\<rparr>, outs))"

definition atom_replace :: "('a, 'r) atom_if \<Rightarrow> nat \<Rightarrow> bytes \<Rightarrow> 'a atom_registry \<Rightarrow> 'a atom_registry \<times> 'r atom_output list" where
  "atom_replace N a payload s = atom_dispatch N a (AtomReplace payload) s"

definition atom_read :: "('a, 'r) atom_if \<Rightarrow> nat \<Rightarrow> jstr \<Rightarrow> jstr \<Rightarrow> int \<Rightarrow> 'a atom_registry \<Rightarrow> 'a atom_registry \<times> 'r atom_output list" where
  "atom_read N a atom stream version s = atom_dispatch N a (AtomRead atom stream version) s"

definition atom_end_stream :: "('a, 'r) atom_if \<Rightarrow> nat \<Rightarrow> jstr \<Rightarrow> jstr \<Rightarrow> 'a atom_registry \<Rightarrow> 'a atom_registry \<times> 'r atom_output list" where
  "atom_end_stream N a atom stream s = atom_dispatch N a (AtomEndStream atom stream) s"

fun atom_response :: "'r atom_output list \<Rightarrow> 'r option" where
  "atom_response [] = None"
| "atom_response (AtomResponse r # outs) = Some r"
| "atom_response (AtomOther # outs) = atom_response outs"

definition atom_writer :: "nat \<Rightarrow> jstr \<Rightarrow> 'a atom_registry \<Rightarrow> writer_error + nat" where
  "atom_writer a writer s =
     (let d = pa_declaration (ar_heap s ! a) in
      if writer \<noteq> ad_writer d then Inl (WriterConflict (ad_id d) (ad_writer d) writer) else Inr a)"

definition atom_reconnect :: "('a, 'r) atom_if \<Rightarrow> nat \<Rightarrow> jstr \<Rightarrow> int \<Rightarrow> 'a atom_registry \<Rightarrow> 'a atom_registry \<times> (writer_error + 'r)" where
  "atom_reconnect N a stream version s =
     (let (s', outs) = atom_read N a (ad_id (pa_declaration (ar_heap s ! a))) stream version s
      in (s', case atom_response outs of
                None \<Rightarrow> Inl (ProbeHeld ''provider-status probe unexpectedly produced no response'')
              | Some r \<Rightarrow> Inr r))"

definition atom_declare :: "('a, 'r) atom_if \<Rightarrow> atom_declaration \<Rightarrow> 'a atom_registry \<Rightarrow> 'a atom_registry \<times> (writer_error + nat)" where
  "atom_declare N d s =
     (case jm_get (ar_atoms s) (ad_id d) of
        Some a \<Rightarrow>
          (let held = pa_declaration (ar_heap s ! a) in
           if ad_writer held \<noteq> ad_writer d then (s, Inl (WriterConflict (ad_id d) (ad_writer held) (ad_writer d)))
           else (s, Inr a))
      | None \<Rightarrow>
          (let a = length (ar_heap s)
           in (s\<lparr>ar_heap := ar_heap s @ [\<lparr>pa_declaration = d, pa_node = an_new N\<rparr>], ar_atoms := jm_set (ad_id d) a (ar_atoms s)\<rparr>, Inr a)))"

subsection \<open>Live metrics\<close>

datatype stream_input = StreamPush bytes | StreamRead jstr

text \<open>A read response with its \<open>state\<close>.\<close>

datatype 'r stream_output = StreamResponse jstr 'r | StreamOther

record ('m, 'r) stream_if =
  st_new :: "int \<Rightarrow> 'm"
  st_handle :: "stream_input \<Rightarrow> 'm \<Rightarrow> 'm \<times> 'r stream_output list"

record stream_declaration =
  sd_id :: jstr
  sd_writer :: jstr
  sd_capacity :: int

record 'm metrics_stream =
  ms_declaration :: stream_declaration
  ms_node :: 'm

record 'm stream_registry =
  sg_heap :: "'m metrics_stream list"
  sg_streams :: "(jstr \<times> nat) list"

record metrics_reader =
  mr_stream :: nat
  mr_stream_id :: jstr
  mr_loss_count :: int
  mr_connected :: bool

definition stream_dispatch :: "('m, 'r) stream_if \<Rightarrow> nat \<Rightarrow> stream_input \<Rightarrow> 'm stream_registry \<Rightarrow> 'm stream_registry \<times> 'r stream_output list" where
  "stream_dispatch N a inp s =
     (let (node, outs) = st_handle N inp (ms_node (sg_heap s ! a))
      in (s\<lparr>sg_heap := (sg_heap s)[a := (sg_heap s ! a)\<lparr>ms_node := node\<rparr>]\<rparr>, outs))"

definition stream_push :: "('m, 'r) stream_if \<Rightarrow> nat \<Rightarrow> bytes \<Rightarrow> 'm stream_registry \<Rightarrow> 'm stream_registry \<times> 'r stream_output list" where
  "stream_push N a payload s = stream_dispatch N a (StreamPush payload) s"

fun stream_response :: "'r stream_output list \<Rightarrow> (jstr \<times> 'r) option" where
  "stream_response [] = None"
| "stream_response (StreamResponse st r # outs) = Some (st, r)"
| "stream_response (StreamOther # outs) = stream_response outs"

definition stream_read :: "('m, 'r) stream_if \<Rightarrow> nat \<Rightarrow> jstr \<Rightarrow> 'm stream_registry \<Rightarrow> 'm stream_registry \<times> (writer_error + jstr \<times> 'r)" where
  "stream_read N a stream s =
     (let (s', outs) = stream_dispatch N a (StreamRead stream) s
      in (s', case stream_response outs of None \<Rightarrow> Inl (ProbeHeld ''live-metrics probe unexpectedly held'') | Some r \<Rightarrow> Inr r))"

definition stream_writer :: "nat \<Rightarrow> jstr \<Rightarrow> 'm stream_registry \<Rightarrow> writer_error + nat" where
  "stream_writer a writer s =
     (let d = ms_declaration (sg_heap s ! a) in
      if writer \<noteq> sd_writer d then Inl (WriterConflict (sd_id d) (sd_writer d) writer) else Inr a)"

definition stream_reader :: "nat \<Rightarrow> jstr \<Rightarrow> metrics_reader" where
  "stream_reader a stream = \<lparr>mr_stream = a, mr_stream_id = stream, mr_loss_count = 0, mr_connected = True\<rparr>"

definition reader_poll :: "('m, 'r) stream_if \<Rightarrow> metrics_reader \<Rightarrow> 'm stream_registry
    \<Rightarrow> 'm stream_registry \<times> metrics_reader \<times> (writer_error + jstr \<times> 'r)" where
  "reader_poll N rd s =
     (case stream_read N (mr_stream rd) (mr_stream_id rd) s of
        (s', Inl e) \<Rightarrow> (s', rd, Inl e)
      | (s', Inr (st, r)) \<Rightarrow>
          (s', if st = jlit ''dropped'' then rd\<lparr>mr_loss_count := mr_loss_count rd + 1, mr_connected := False\<rparr> else rd, Inr (st, r)))"

definition reader_reconnect :: "('m, 'r) stream_if \<Rightarrow> metrics_reader \<Rightarrow> 'm stream_registry
    \<Rightarrow> 'm stream_registry \<times> metrics_reader \<times> (writer_error + jstr \<times> 'r)" where
  "reader_reconnect N rd s = reader_poll N (rd\<lparr>mr_connected := True\<rparr>) s"

definition stream_declare :: "('m, 'r) stream_if \<Rightarrow> stream_declaration \<Rightarrow> 'm stream_registry \<Rightarrow> 'm stream_registry \<times> (writer_error + nat)" where
  "stream_declare N d s =
     (case jm_get (sg_streams s) (sd_id d) of
        Some a \<Rightarrow>
          (let held = ms_declaration (sg_heap s ! a) in
           if sd_writer held \<noteq> sd_writer d then (s, Inl (WriterConflict (sd_id d) (sd_writer held) (sd_writer d)))
           else if sd_capacity held \<noteq> sd_capacity d then (s, Inl (CapacityChange (sd_id d)))
           else (s, Inr a))
      | None \<Rightarrow>
          (let a = length (sg_heap s)
           in (s\<lparr>sg_heap := sg_heap s @ [\<lparr>ms_declaration = d, ms_node = st_new N (sd_capacity d)\<rparr>],
                 sg_streams := jm_set (sd_id d) a (sg_streams s)\<rparr>, Inr a)))"

subsection \<open>The contract of a registry\<close>

datatype 'd registry_input = Declare 'd | OpenWriter nat jstr | Publish nat bytes

text \<open>
  A run against a registry: declarations, writers opened on surfaces that were handed out
  (\<open>surf\<close> says which), and payloads published through the writers opened so far, which
  the run collects.
\<close>

fun registry_step :: "('d \<Rightarrow> 's \<Rightarrow> 's \<times> (writer_error + nat)) \<Rightarrow> (nat \<Rightarrow> jstr \<Rightarrow> 's \<Rightarrow> writer_error + nat) \<Rightarrow> (nat \<Rightarrow> bytes \<Rightarrow> 's \<Rightarrow> 's)
    \<Rightarrow> ('s \<Rightarrow> nat \<Rightarrow> 'd option) \<Rightarrow> 'd registry_input \<Rightarrow> 's \<times> (nat \<times> jstr) list \<Rightarrow> 's \<times> (nat \<times> jstr) list" where
  "registry_step decl wr pub surf (Declare d) (s, ws) = (fst (decl d s), ws)"
| "registry_step decl wr pub surf (OpenWriter a w) (s, ws) =
     (if surf s a = None then (s, ws) else (case wr a w s of Inl e \<Rightarrow> (s, ws) | Inr b \<Rightarrow> (s, ws @ [(b, w)])))"
| "registry_step decl wr pub surf (Publish k payload) (s, ws) =
     (if k < length ws then (pub (fst (ws ! k)) payload s, ws) else (s, ws))"

fun registry_run :: "('d \<Rightarrow> 's \<Rightarrow> 's \<times> (writer_error + nat)) \<Rightarrow> (nat \<Rightarrow> jstr \<Rightarrow> 's \<Rightarrow> writer_error + nat) \<Rightarrow> (nat \<Rightarrow> bytes \<Rightarrow> 's \<Rightarrow> 's)
    \<Rightarrow> ('s \<Rightarrow> nat \<Rightarrow> 'd option) \<Rightarrow> 'd registry_input list \<Rightarrow> 's \<times> (nat \<times> jstr) list \<Rightarrow> 's \<times> (nat \<times> jstr) list" where
  "registry_run decl wr pub surf [] st = st"
| "registry_run decl wr pub surf (i # ins) st = registry_run decl wr pub surf ins (registry_step decl wr pub surf i st)"

locale writer_registry =
  fixes decl :: "'d \<Rightarrow> 's \<Rightarrow> 's \<times> (writer_error + nat)" and wr :: "nat \<Rightarrow> jstr \<Rightarrow> 's \<Rightarrow> writer_error + nat"
    and pub :: "nat \<Rightarrow> bytes \<Rightarrow> 's \<Rightarrow> 's" and surf :: "'s \<Rightarrow> nat \<Rightarrow> 'd option" and wf :: "'s \<Rightarrow> bool"
    and ident :: "'d \<Rightarrow> jstr" and owner :: "'d \<Rightarrow> jstr"
  assumes declare_wf: "wf s \<Longrightarrow> wf (fst (decl d s))"
    and declare_keeps: "wf s \<Longrightarrow> surf s a = Some h \<Longrightarrow> surf (fst (decl d s)) a = Some h"
    and declare_conflict: "wf s \<Longrightarrow> surf s a = Some h \<Longrightarrow> ident h = ident d \<Longrightarrow> owner h \<noteq> owner d \<Longrightarrow>
      decl d s = (s, Inl (WriterConflict (ident d) (owner h) (owner d)))"
    and declare_owner: "wf s \<Longrightarrow> snd (decl d s) = Inr a \<Longrightarrow>
      \<exists>h. surf (fst (decl d s)) a = Some h \<and> ident h = ident d \<and> owner h = owner d"
    and one_surface: "wf s \<Longrightarrow> surf s a = Some h \<Longrightarrow> surf s b = Some h' \<Longrightarrow> ident h = ident h' \<Longrightarrow> a = b"
    and writer_spec: "wf s \<Longrightarrow> surf s a = Some h \<Longrightarrow>
      wr a w s = (if w = owner h then Inr a else Inl (WriterConflict (ident h) (owner h) w))"
    and publish_wf: "wf s \<Longrightarrow> wf (pub a payload s)"
    and publish_keeps: "wf s \<Longrightarrow> surf (pub a payload s) = surf s"
begin

definition owned :: "'s \<times> (nat \<times> jstr) list \<Rightarrow> bool" where
  "owned st \<longleftrightarrow> wf (fst st) \<and> (\<forall>(a, w) \<in> set (snd st). \<exists>h. surf (fst st) a = Some h \<and> owner h = w)"

lemma ownedD: "owned (s, ws) \<Longrightarrow> (a, w) \<in> set ws \<Longrightarrow> \<exists>h. surf s a = Some h \<and> owner h = w"
  by (auto simp: owned_def)

lemma step_owned:
  assumes "owned (s, ws)"
  shows "owned (registry_step decl wr pub surf i (s, ws))"
proof (cases i)
  case (Declare d)
  have "\<exists>h. surf (fst (decl d s)) a = Some h \<and> owner h = w" if "(a, w) \<in> set ws" for a w
  proof -
    have "wf s" using assms by (simp add: owned_def)
    from ownedD [OF assms that] declare_keeps [OF this] show ?thesis by blast
  qed
  with Declare assms show ?thesis by (auto simp: owned_def declare_wf)
next
  case (OpenWriter a w)
  show ?thesis
  proof (cases "surf s a")
    case (Some h)
    with assms OpenWriter writer_spec [of s a h w] show ?thesis by (cases "w = owner h") (auto simp: owned_def)
  qed (use assms OpenWriter in simp)
next
  case (Publish k payload)
  with assms show ?thesis by (auto simp: owned_def publish_wf publish_keeps)
qed

lemma run_owned: "owned st \<Longrightarrow> owned (registry_run decl wr pub surf ins st)"
proof (induction ins arbitrary: st)
  case (Cons i ins)
  then show ?case using step_owned by (cases st) simp
qed simp

lemma writers_agree:
  assumes "owned st" "registry_run decl wr pub surf ins st = (s, ws)" "(a, w) \<in> set ws" "(b, v) \<in> set ws"
  shows "\<exists>h h'. surf s a = Some h \<and> surf s b = Some h' \<and> w = owner h \<and> v = owner h' \<and> (ident h = ident h' \<longrightarrow> a = b \<and> w = v)"
proof -
  have o': "owned (s, ws)" using run_owned [OF assms(1), of ins] assms(2) by simp
  then obtain h h' where h: "surf s a = Some h" "owner h = w" "surf s b = Some h'" "owner h' = v"
    using ownedD [OF o' assms(3)] ownedD [OF o' assms(4)] by blast
  have wf: "wf s" using o' by (simp add: owned_def)
  have "a = b \<and> w = v" if "ident h = ident h'"
  proof -
    have "a = b" by (rule one_surface [OF wf h(1,3) that])
    with h show ?thesis by simp
  qed
  with h show ?thesis by blast
qed

end

subsection \<open>Both registries keep it\<close>

definition atom_at :: "'a atom_registry \<Rightarrow> nat \<Rightarrow> atom_declaration option" where
  "atom_at s a = (if a < length (ar_heap s) then Some (pa_declaration (ar_heap s ! a)) else None)"

definition atom_wf :: "'a atom_registry \<Rightarrow> bool" where
  "atom_wf s \<longleftrightarrow> (\<forall>i a. jm_get (ar_atoms s) i = Some a \<longleftrightarrow> a < length (ar_heap s) \<and> ad_id (pa_declaration (ar_heap s ! a)) = i)"

lemma atom_dispatch_keeps: "atom_at (fst (atom_dispatch N a inp s)) = atom_at s" "ar_atoms (fst (atom_dispatch N a inp s)) = ar_atoms s"
    "length (ar_heap (fst (atom_dispatch N a inp s))) = length (ar_heap s)"
    "pa_declaration (ar_heap (fst (atom_dispatch N a inp s)) ! b) = pa_declaration (ar_heap s ! b)"
  by (auto simp: atom_dispatch_def atom_at_def nth_update_sel [where f = pa_declaration] split: prod.split)

lemma atom_wfD: "atom_wf s \<Longrightarrow> jm_get (ar_atoms s) i = Some a \<longleftrightarrow> a < length (ar_heap s) \<and> ad_id (pa_declaration (ar_heap s ! a)) = i"
  by (simp add: atom_wf_def)

lemma atom_declare_wf:
  assumes "atom_wf s"
  shows "atom_wf (fst (atom_declare N d s))"
proof (cases "jm_get (ar_atoms s) (ad_id d)")
  case None
  have "ad_id (pa_declaration (ar_heap s ! a)) \<noteq> ad_id d" if "a < length (ar_heap s)" for a
    using that None atom_wfD [OF assms, of "ad_id d" a] by auto
  with None show ?thesis
    by (auto simp: atom_declare_def atom_wf_def Let_def jm_get_set nth_append less_Suc_eq atom_wfD [OF assms])
next
  case (Some a)
  with assms show ?thesis by (simp add: atom_declare_def Let_def)
qed

interpretation atoms: writer_registry "atom_declare N" atom_writer "\<lambda>a p s. fst (atom_replace N a p s)" atom_at atom_wf ad_id ad_writer
  for N :: "('a, 'r) atom_if"
proof (unfold_locales, goal_cases)
  case (1 s d)
  then show ?case by (rule atom_declare_wf)
next
  case (2 s a h d)
  then show ?case by (auto simp: atom_declare_def atom_at_def Let_def nth_append split: option.split if_splits)
next
  case (3 s a h d)
  then show ?case using atom_wfD [OF 3(1), of "ad_id d" a] by (auto simp: atom_declare_def atom_at_def Let_def split: if_splits)
next
  case (4 s d a)
  then show ?case using atom_wfD [OF 4(1), of "ad_id d" a] by (auto simp: atom_declare_def atom_at_def Let_def split: option.splits if_splits)
next
  case (5 s a h b h')
  then have "jm_get (ar_atoms s) (ad_id h) = Some a" "jm_get (ar_atoms s) (ad_id h') = Some b"
    by (simp_all add: atom_at_def atom_wfD split: if_splits)
  with 5(4) show ?case by simp
next
  case (6 s a h w)
  then show ?case by (auto simp: atom_writer_def atom_at_def split: if_splits)
next
  case (7 s a p)
  then show ?case by (simp add: atom_replace_def atom_wf_def atom_dispatch_keeps)
next
  case (8 s a p)
  then show ?case by (simp add: atom_replace_def atom_dispatch_keeps)
qed

definition stream_at :: "'m stream_registry \<Rightarrow> nat \<Rightarrow> stream_declaration option" where
  "stream_at s a = (if a < length (sg_heap s) then Some (ms_declaration (sg_heap s ! a)) else None)"

definition stream_wf :: "'m stream_registry \<Rightarrow> bool" where
  "stream_wf s \<longleftrightarrow> (\<forall>i a. jm_get (sg_streams s) i = Some a \<longleftrightarrow> a < length (sg_heap s) \<and> sd_id (ms_declaration (sg_heap s ! a)) = i)"

lemma stream_dispatch_keeps: "stream_at (fst (stream_dispatch N a inp s)) = stream_at s" "sg_streams (fst (stream_dispatch N a inp s)) = sg_streams s"
    "length (sg_heap (fst (stream_dispatch N a inp s))) = length (sg_heap s)"
    "ms_declaration (sg_heap (fst (stream_dispatch N a inp s)) ! b) = ms_declaration (sg_heap s ! b)"
  by (auto simp: stream_dispatch_def stream_at_def nth_update_sel [where f = ms_declaration] split: prod.split)

lemma stream_wfD: "stream_wf s \<Longrightarrow> jm_get (sg_streams s) i = Some a \<longleftrightarrow> a < length (sg_heap s) \<and> sd_id (ms_declaration (sg_heap s ! a)) = i"
  by (simp add: stream_wf_def)

lemma stream_declare_wf:
  assumes "stream_wf s"
  shows "stream_wf (fst (stream_declare N d s))"
proof (cases "jm_get (sg_streams s) (sd_id d)")
  case None
  have "sd_id (ms_declaration (sg_heap s ! a)) \<noteq> sd_id d" if "a < length (sg_heap s)" for a
    using that None stream_wfD [OF assms, of "sd_id d" a] by auto
  with None show ?thesis
    by (auto simp: stream_declare_def stream_wf_def Let_def jm_get_set nth_append less_Suc_eq stream_wfD [OF assms])
next
  case (Some a)
  with assms show ?thesis by (simp add: stream_declare_def Let_def)
qed

interpretation streams: writer_registry "stream_declare N" stream_writer "\<lambda>a p s. fst (stream_push N a p s)" stream_at stream_wf sd_id sd_writer
  for N :: "('m, 'r) stream_if"
proof (unfold_locales, goal_cases)
  case (1 s d)
  then show ?case by (rule stream_declare_wf)
next
  case (2 s a h d)
  then show ?case by (auto simp: stream_declare_def stream_at_def Let_def nth_append split: option.split if_splits)
next
  case (3 s a h d)
  then show ?case using stream_wfD [OF 3(1), of "sd_id d" a] by (auto simp: stream_declare_def stream_at_def Let_def split: if_splits)
next
  case (4 s d a)
  then show ?case using stream_wfD [OF 4(1), of "sd_id d" a] by (auto simp: stream_declare_def stream_at_def Let_def split: option.splits if_splits)
next
  case (5 s a h b h')
  then have "jm_get (sg_streams s) (sd_id h) = Some a" "jm_get (sg_streams s) (sd_id h') = Some b"
    by (simp_all add: stream_at_def stream_wfD split: if_splits)
  with 5(4) show ?case by simp
next
  case (6 s a h w)
  then show ?case by (auto simp: stream_writer_def stream_at_def split: if_splits)
next
  case (7 s a p)
  then show ?case by (simp add: stream_push_def stream_wf_def stream_dispatch_keeps)
next
  case (8 s a p)
  then show ?case by (simp add: stream_push_def stream_dispatch_keeps)
qed

lemma new_owned:
  "atoms.owned (\<lparr>ar_heap = [], ar_atoms = []\<rparr>, [])" "streams.owned (\<lparr>sg_heap = [], sg_streams = []\<rparr>, [])"
  by (simp_all add: atoms.owned_def streams.owned_def atom_wf_def stream_wf_def)

abbreviation atoms_run :: "('a, 'r) atom_if \<Rightarrow> atom_declaration registry_input list \<Rightarrow> 'a atom_registry \<times> (nat \<times> jstr) list" where
  "atoms_run N ins \<equiv> registry_run (atom_declare N) atom_writer (\<lambda>a p s. fst (atom_replace N a p s)) atom_at ins (\<lparr>ar_heap = [], ar_atoms = []\<rparr>, [])"

abbreviation streams_run :: "('m, 'r) stream_if \<Rightarrow> stream_declaration registry_input list \<Rightarrow> 'm stream_registry \<times> (nat \<times> jstr) list" where
  "streams_run N ins \<equiv> registry_run (stream_declare N) stream_writer (\<lambda>a p s. fst (stream_push N a p s)) stream_at ins (\<lparr>sg_heap = [], sg_streams = []\<rparr>, [])"

text \<open>A node that keeps its inputs, and a run with a second writer.\<close>

definition sample_atom :: "(atom_input list, unit) atom_if" where
  "sample_atom = \<lparr>an_new = [], an_handle = (\<lambda>i n. (n @ [i], []))\<rparr>"

definition sample_stream :: "(stream_input list, unit) stream_if" where
  "sample_stream = \<lparr>st_new = (\<lambda>_. []), st_handle = (\<lambda>i n. (n @ [i], []))\<rparr>"

lemma sample_atoms_run:
  "atoms_run sample_atom [Declare \<lparr>ad_id = [1], ad_writer = [2]\<rparr>, OpenWriter 0 [2], Declare \<lparr>ad_id = [1], ad_writer = [3]\<rparr>, OpenWriter 0 [3], Publish 0 [9]]
    = (\<lparr>ar_heap = [\<lparr>pa_declaration = \<lparr>ad_id = [1], ad_writer = [2]\<rparr>, pa_node = [AtomReplace [9]]\<rparr>], ar_atoms = [([1], 0)]\<rparr>, [(0, [2])])"
  by (simp add: atom_declare_def atom_writer_def atom_at_def atom_replace_def atom_dispatch_def sample_atom_def Let_def)

subsection \<open>Properties\<close>

text \<open>C36. One writer per surface: whatever is declared, opened and published, on either registry, every
  writer that was handed out belongs to the writer its surface was first declared with, and two
  writers of the same surface id are writers of the same object under the same identity.\<close>

theorem single_writer_surfaces:
  "(\<forall>s ws a w b v. atoms_run N ins = (s, ws) \<and> (a, w) \<in> set ws \<and> (b, v) \<in> set ws \<longrightarrow>
      (\<exists>h h'. atom_at s a = Some h \<and> atom_at s b = Some h' \<and> w = ad_writer h \<and> v = ad_writer h' \<and> (ad_id h = ad_id h' \<longrightarrow> a = b \<and> w = v)))
   \<and> (\<forall>s ws a w b v. streams_run M jns = (s, ws) \<and> (a, w) \<in> set ws \<and> (b, v) \<in> set ws \<longrightarrow>
      (\<exists>h h'. stream_at s a = Some h \<and> stream_at s b = Some h' \<and> w = sd_writer h \<and> v = sd_writer h' \<and> (sd_id h = sd_id h' \<longrightarrow> a = b \<and> w = v)))"
proof (intro conjI allI impI, goal_cases)
  case (1 s ws a w b v)
  then show ?case by (elim conjE) (rule atoms.writers_agree [OF new_owned(1)])
next
  case (2 s ws a w b v)
  then show ?case by (elim conjE) (rule streams.writers_agree [OF new_owned(2)])
qed

theorem single_writer_surfaces_witness:
  "\<exists>s h. atoms_run sample_atom [Declare \<lparr>ad_id = [1], ad_writer = [2]\<rparr>, OpenWriter 0 [2], Declare \<lparr>ad_id = [1], ad_writer = [3]\<rparr>, OpenWriter 0 [3], Publish 0 [9]]
      = (s, [(0, [2])]) \<and> atom_at s 0 = Some h \<and> [2] = ad_writer h"
  using single_writer_surfaces [of sample_atom "[Declare \<lparr>ad_id = [1], ad_writer = [2]\<rparr>, OpenWriter 0 [2], Declare \<lparr>ad_id = [1], ad_writer = [3]\<rparr>, OpenWriter 0 [3], Publish 0 [9]]"
      sample_stream "[]", THEN conjunct1] sample_atoms_run by fastforce

end
