(* ===== verification/Steps.thy ===== *)
theory Steps
  imports Prelude
begin

text \<open>
  Runs of a labelled step relation, shared by the components whose operations interleave with the
  events of their environment (the transactions of a database, the promises and timers of a
  session).
\<close>

inductive steps :: "('s \<Rightarrow> 'l \<Rightarrow> 's \<Rightarrow> bool) \<Rightarrow> 's \<Rightarrow> 'l list \<Rightarrow> 's \<Rightarrow> bool" for R where
  steps_refl: "steps R s [] s"
| steps_trans: "R s l t \<Longrightarrow> steps R t ls u \<Longrightarrow> steps R s (l # ls) u"

inductive_simps steps_Nil_iff [simp]: "steps R s [] t"
inductive_simps steps_Cons_iff [simp]: "steps R s (l # ls) t"

lemma steps_append_iff: "steps R s (ls @ ms) u \<longleftrightarrow> (\<exists>t. steps R s ls t \<and> steps R t ms u)"
  by (induction ls arbitrary: s) auto

lemma steps_invariant:
  assumes "steps R s ls t" "I s" "\<And>s l t. R s l t \<Longrightarrow> I s \<Longrightarrow> I t"
  shows "I t"
  using assms(1,2) by (induction rule: steps.induct) (auto intro: assms(3))

text \<open>The same for an invariant that needs a condition on the labels.\<close>

lemma steps_invariant_if:
  assumes "steps R s ls t" "I s" "\<forall>l \<in> set ls. P l" "\<And>s l t. R s l t \<Longrightarrow> P l \<Longrightarrow> I s \<Longrightarrow> I t"
  shows "I t"
  using assms(1-3) by (induction rule: steps.induct) (auto intro: assms(4))

end
