(* ===== verification/Store_Idb.thy ===== *)
theory Store_Idb
  imports Store Steps "HOL-Library.Product_Lexorder"
begin

text \<open>
  The persistent store engine of \<open>src/store_idb.ts\<close>: the store seam of \<open>Store\<close> served from a
  cache in memory, with every append written through to an IndexedDB database.

  The database is what the platform documents: object stores that map keys to rows, \<open>getAll\<close> in
  key order, and transactions that commit or abort as a whole, in the order in which they were
  created. A transaction that has been created and not settled is in the engine's queue; \<open>Commit\<close>
  and \<open>Abort\<close> of the oldest one are events of the environment that interleave with the calls of
  the clients. A closed database refuses new transactions with an error.
\<close>

subsection \<open>The database\<close>

record op_row =
  or_instance :: jstr
  or_origin :: jstr
  or_seq :: int
  or_op :: stored_op

type_synonym row_key = "jstr \<times> jstr \<times> int"

record 'c idb_db =
  db_rows :: "(row_key \<times> op_row) list"
  db_checkpoints :: "(jstr \<times> 'c) list"

datatype 'c idb_write = PutRow op_row | PutCheckpoint jstr 'c | DeleteRow row_key | DeleteCheckpoint jstr

definition key_of_row :: "op_row \<Rightarrow> row_key" where
  "key_of_row r = (or_instance r, or_origin r, or_seq r)"

definition row_for :: "jstr \<Rightarrow> stored_op \<Rightarrow> op_row" where
  "row_for key op = \<lparr>or_instance = key, or_origin = op_origin op, or_seq = op_seq op, or_op = op\<rparr>"

fun apply_write :: "'c idb_write \<Rightarrow> 'c idb_db \<Rightarrow> 'c idb_db" where
  "apply_write (PutRow r) d = d\<lparr>db_rows := jm_set (key_of_row r) r (db_rows d)\<rparr>"
| "apply_write (PutCheckpoint k v) d = d\<lparr>db_checkpoints := jm_set k v (db_checkpoints d)\<rparr>"
| "apply_write (DeleteRow k) d = d\<lparr>db_rows := jm_delete k (db_rows d)\<rparr>"
| "apply_write (DeleteCheckpoint k) d = d\<lparr>db_checkpoints := jm_delete k (db_checkpoints d)\<rparr>"

text \<open>\<open>getAll\<close>: the rows in the order of their keys.\<close>

definition get_all_rows :: "'c idb_db \<Rightarrow> op_row list" where
  "get_all_rows d = map snd (sort_key fst (db_rows d))"

text \<open>
  A transaction: a write-through or checkpoint (\<open>TxWrite\<close>, with the flag whether the engine tracks
  it in \<open>pending\<close>), a purge, or the read of a refresh.
\<close>

datatype 'c idb_tx = TxWrite bool "'c idb_write list" | TxPurge "'c idb_write list" | TxReload jstr

fun tx_writes :: "'c idb_tx \<Rightarrow> 'c idb_write list" where
  "tx_writes (TxWrite tracked ws) = ws"
| "tx_writes (TxPurge ws) = ws"
| "tx_writes (TxReload k) = []"

definition run_writes :: "'c idb_write list \<Rightarrow> 'c idb_db \<Rightarrow> 'c idb_db" where
  "run_writes ws d = fold apply_write ws d"

subsection \<open>The engine\<close>

record 'c idb_store =
  ib_key :: jstr
  ib_ops :: "stored_op list"
  ib_checkpoint :: "'c option"

record ('c, 'x) idb_engine =
  ie_heap :: "'c idb_store list"
  ie_cache :: "(jstr \<times> nat) list"
  ie_failure :: "'x option"
  ie_db :: "'c idb_db"
  ie_closed :: bool
  ie_queue :: "'c idb_tx list"

text \<open>The platform: its errors, and the checkpoint values that it can clone into a row.\<close>

record ('c, 'x) idb_platform =
  pl_closed :: 'x
  pl_clone :: 'x
  pl_cloneable :: "'c \<Rightarrow> bool"

definition note_failure :: "'x \<Rightarrow> ('c, 'x) idb_engine \<Rightarrow> ('c, 'x) idb_engine" where
  "note_failure x e = e\<lparr>ie_failure := (case ie_failure e of None \<Rightarrow> Some x | Some y \<Rightarrow> Some y)\<rparr>"

definition enqueue :: "'c idb_tx \<Rightarrow> ('c, 'x) idb_engine \<Rightarrow> ('c, 'x) idb_engine" where
  "enqueue tx e = e\<lparr>ie_queue := ie_queue e @ [tx]\<rparr>"

definition idb_put :: "('c, 'x) idb_platform \<Rightarrow> op_row \<Rightarrow> ('c, 'x) idb_engine \<Rightarrow> ('c, 'x) idb_engine" where
  "idb_put X row e = (if ie_closed e then note_failure (pl_closed X) e else enqueue (TxWrite True [PutRow row]) e)"

text \<open>
  A value that cannot be cloned throws after the operations were put: their transaction still
  commits, untracked, and the failure is noted.
\<close>

definition idb_save_checkpoint :: "('c, 'x) idb_platform \<Rightarrow> jstr \<Rightarrow> stored_op list \<Rightarrow> 'c \<Rightarrow> ('c, 'x) idb_engine \<Rightarrow> ('c, 'x) idb_engine" where
  "idb_save_checkpoint X key ops v e =
     (if ie_closed e then note_failure (pl_closed X) e
      else let puts = map (\<lambda>op. PutRow (row_for key op)) ops in
        if pl_cloneable X v then enqueue (TxWrite True (puts @ [PutCheckpoint key v])) e
        else note_failure (pl_clone X) (enqueue (TxWrite False puts) e))"

definition idb_append :: "('c, 'x) idb_platform \<Rightarrow> nat \<Rightarrow> stored_op \<Rightarrow> ('c, 'x) idb_engine \<Rightarrow> ('c, 'x) idb_engine \<times> append_outcome" where
  "idb_append X a op e =
     (let s = ie_heap e ! a in
      if \<exists>o' \<in> set (ib_ops s). op_origin o' = op_origin op \<and> op_seq o' = op_seq op then (e, AppendDuplicate)
      else (idb_put X (row_for (ib_key s) op) (e\<lparr>ie_heap := (ie_heap e)[a := s\<lparr>ib_ops := ib_ops s @ [op]\<rparr>]\<rparr>), Appended))"

definition idb_all :: "nat \<Rightarrow> ('c, 'x) idb_engine \<Rightarrow> stored_op list" where
  "idb_all a e = ib_ops (ie_heap e ! a)"

definition idb_load_checkpoint :: "nat \<Rightarrow> ('c, 'x) idb_engine \<Rightarrow> 'c option" where
  "idb_load_checkpoint a e = ib_checkpoint (ie_heap e ! a)"

definition idb_checkpoint :: "('c, 'x) idb_platform \<Rightarrow> nat \<Rightarrow> 'c \<Rightarrow> ('c, 'x) idb_engine \<Rightarrow> ('c, 'x) idb_engine" where
  "idb_checkpoint X a v e =
     (let s = (ie_heap e ! a)\<lparr>ib_checkpoint := Some v\<rparr>
      in idb_save_checkpoint X (ib_key s) (ib_ops s) v (e\<lparr>ie_heap := (ie_heap e)[a := s]\<rparr>))"

definition idb_open :: "jstr \<Rightarrow> ('c, 'x) idb_engine \<Rightarrow> ('c, 'x) idb_engine \<times> nat" where
  "idb_open key e =
     (case jm_get (ie_cache e) key of
        Some a \<Rightarrow> (e, a)
      | None \<Rightarrow>
          let a = length (ie_heap e)
          in (e\<lparr>ie_heap := ie_heap e @ [\<lparr>ib_key = key, ib_ops = [], ib_checkpoint = None\<rparr>], ie_cache := jm_set key a (ie_cache e)\<rparr>, a))"

definition idb_drop :: "jstr \<Rightarrow> ('c, 'x) idb_engine \<Rightarrow> ('c, 'x) idb_engine" where
  "idb_drop key e = e"

definition idb_clear :: "nat \<Rightarrow> ('c, 'x) idb_engine \<Rightarrow> ('c, 'x) idb_engine" where
  "idb_clear a e = e\<lparr>ie_heap := (ie_heap e)[a := (ie_heap e ! a)\<lparr>ib_ops := [], ib_checkpoint := None\<rparr>]\<rparr>"

text \<open>\<open>purge\<close> up to the end of its transaction: \<open>Inl\<close> when the promise rejects at once.\<close>

definition idb_purge :: "('c, 'x) idb_platform \<Rightarrow> jstr \<Rightarrow> ('c, 'x) idb_engine \<Rightarrow> ('c, 'x) idb_engine \<times> ('x + unit)" where
  "idb_purge X key e =
     (case jm_get (ie_cache e) key of
        None \<Rightarrow> (e, Inr ())
      | Some a \<Rightarrow>
          (let ops = idb_all a e; e1 = idb_clear a e in
           if ie_closed e1 then (e1, Inl (pl_closed X))
           else (enqueue (TxPurge (DeleteCheckpoint key # map (\<lambda>op. DeleteRow (key, op_origin op, op_seq op)) ops)) e1, Inr ())))"

text \<open>\<open>flush\<close> waits while a tracked transaction is unsettled; \<open>None\<close> is the wait.\<close>

definition idb_pending :: "('c, 'x) idb_engine \<Rightarrow> 'c idb_tx list" where
  "idb_pending e = filter (\<lambda>tx. case tx of TxWrite tracked ws \<Rightarrow> tracked | _ \<Rightarrow> False) (ie_queue e)"

definition idb_flush_checked :: "('c, 'x) idb_engine \<Rightarrow> ('x + unit) option" where
  "idb_flush_checked e =
     (if idb_pending e \<noteq> [] then None else Some (case ie_failure e of Some x \<Rightarrow> Inl x | None \<Rightarrow> Inr ()))"

definition idb_refresh :: "('c, 'x) idb_platform \<Rightarrow> jstr \<Rightarrow> ('c, 'x) idb_engine \<Rightarrow> (('c, 'x) idb_engine \<times> ('x + unit)) option" where
  "idb_refresh X key e =
     (case idb_flush_checked e of
        None \<Rightarrow> None
      | Some (Inl x) \<Rightarrow> Some (e, Inl x)
      | Some (Inr u) \<Rightarrow> Some (if ie_closed e then (e, Inl (pl_closed X)) else (enqueue (TxReload key) e, Inr ())))"

definition idb_close :: "('c, 'x) idb_engine \<Rightarrow> ('c, 'x) idb_engine" where
  "idb_close e = e\<lparr>ie_closed := True\<rparr>"

text \<open>A store put into the cache with the operations of its rows.\<close>

definition cache_store :: "jstr \<Rightarrow> stored_op list \<Rightarrow> 'c option \<Rightarrow> ('c, 'x) idb_engine \<Rightarrow> ('c, 'x) idb_engine" where
  "cache_store key ops cp e =
     e\<lparr>ie_heap := ie_heap e @ [\<lparr>ib_key = key, ib_ops = ops, ib_checkpoint = cp\<rparr>], ie_cache := jm_set key (length (ie_heap e)) (ie_cache e)\<rparr>"

definition instance_rows :: "jstr \<Rightarrow> 'c idb_db \<Rightarrow> stored_op list" where
  "instance_rows key d = map or_op (filter (\<lambda>r. or_instance r = key) (get_all_rows d))"

text \<open>The oldest transaction commits, or aborts with an error.\<close>

definition idb_commit :: "('c, 'x) idb_engine \<Rightarrow> ('c, 'x) idb_engine" where
  "idb_commit e =
     (case ie_queue e of
        [] \<Rightarrow> e
      | tx # q \<Rightarrow>
          (let e1 = e\<lparr>ie_queue := q, ie_db := run_writes (tx_writes tx) (ie_db e)\<rparr>
           in case tx of
                TxReload key \<Rightarrow> cache_store key (instance_rows key (ie_db e1)) (jm_get (db_checkpoints (ie_db e1)) key) e1
              | _ \<Rightarrow> e1))"

definition idb_abort :: "'x \<Rightarrow> ('c, 'x) idb_engine \<Rightarrow> ('c, 'x) idb_engine" where
  "idb_abort x e =
     (case ie_queue e of
        [] \<Rightarrow> e
      | tx # q \<Rightarrow> (case tx of TxWrite tracked ws \<Rightarrow> note_failure x (e\<lparr>ie_queue := q\<rparr>) | _ \<Rightarrow> e\<lparr>ie_queue := q\<rparr>))"

subsection \<open>Opening the database\<close>

datatype 'x open_event = OpenBlocked | OpenFailed 'x | OpenSucceeded

text \<open>
  The promise of the open request over the events of the request: the outcome once it is settled
  (the first one counts), whether the request was blocked, and whether the connection was closed
  again. \<open>bx\<close> is the error of a blocked upgrade.
\<close>

fun open_request :: "'x \<Rightarrow> 'x open_event list \<Rightarrow> bool \<Rightarrow> ('x + unit) option \<Rightarrow> bool \<Rightarrow> ('x + unit) option \<times> bool" where
  "open_request bx [] blocked out closed = (out, closed)"
| "open_request bx (OpenBlocked # evs) blocked out closed =
     open_request bx evs True (case out of None \<Rightarrow> Some (Inl bx) | Some r \<Rightarrow> Some r) closed"
| "open_request bx (OpenFailed x # evs) blocked out closed =
     open_request bx evs blocked (case out of None \<Rightarrow> Some (Inl x) | Some r \<Rightarrow> Some r) closed"
| "open_request bx (OpenSucceeded # evs) blocked out closed =
     (if blocked then open_request bx evs blocked out True
      else open_request bx evs blocked (case out of None \<Rightarrow> Some (Inr ()) | Some r \<Rightarrow> Some r) closed)"

text \<open>The first event decides, and a connection that arrives after a block is closed again.\<close>

lemma open_request_settled: "fst (open_request bx evs blocked (Some r) closed) = Some r"
  by (induction bx evs blocked "Some r" closed rule: open_request.induct) auto

lemma open_request_closed: "snd (open_request bx evs True out closed) \<longleftrightarrow> closed \<or> OpenSucceeded \<in> set evs"
  by (induction bx evs True out closed rule: open_request.induct) auto

lemma open_request_first:
  "fst (open_request bx (ev # evs) False None False) =
     Some (case ev of OpenBlocked \<Rightarrow> Inl bx | OpenFailed x \<Rightarrow> Inl x | OpenSucceeded \<Rightarrow> Inr ())"
  by (cases ev) (simp_all add: open_request_settled)

definition group_row :: "op_row \<Rightarrow> (jstr \<times> stored_op list) list \<Rightarrow> (jstr \<times> stored_op list) list" where
  "group_row r m =
     (let m1 = (case jm_get m (or_instance r) of None \<Rightarrow> jm_set (or_instance r) [] m | Some ops \<Rightarrow> m);
          ops = (case jm_get m1 (or_instance r) of None \<Rightarrow> [] | Some ops \<Rightarrow> ops)
      in jm_set (or_instance r) (ops @ [or_op r]) m1)"

definition idb_load :: "'c idb_db \<Rightarrow> ('c, 'x) idb_engine" where
  "idb_load d =
     fold (\<lambda>(key, ops). cache_store key ops (jm_get (db_checkpoints d) key)) (fold group_row (get_all_rows d) [])
       \<lparr>ie_heap = [], ie_cache = [], ie_failure = None, ie_db = d, ie_closed = False, ie_queue = []\<rparr>"

subsection \<open>Runs\<close>

text \<open>
  The clients' calls and the platform's events, with what a purge gives at once and with the
  transaction that commits or aborts. A client appends, saves and purges through the
  store that the engine's cache holds for the key, and not while a refresh of that key is under
  way (\<open>refresh\<close> demands exclusive ownership).
\<close>

datatype ('c, 'x) idb_label = DoOpen jstr | DoAppend nat stored_op | DoCheckpoint nat 'c | DoDrop jstr | DoPurge jstr "'x + unit"
  | DoRefresh jstr | DoClose | Commit "'c idb_tx" | Abort "'c idb_tx" 'x

definition idb_owns :: "('c, 'x) idb_engine \<Rightarrow> nat \<Rightarrow> bool" where
  "idb_owns e a \<longleftrightarrow> a < length (ie_heap e) \<and> jm_get (ie_cache e) (ib_key (ie_heap e ! a)) = Some a
     \<and> TxReload (ib_key (ie_heap e ! a)) \<notin> set (ie_queue e)"

inductive idb_step :: "('c, 'x) idb_platform \<Rightarrow> ('c, 'x) idb_engine \<Rightarrow> ('c, 'x) idb_label \<Rightarrow> ('c, 'x) idb_engine \<Rightarrow> bool" for X where
  step_open: "idb_step X e (DoOpen k) (fst (idb_open k e))"
| step_append: "idb_owns e a \<Longrightarrow> idb_step X e (DoAppend a op) (fst (idb_append X a op e))"
| step_checkpoint: "idb_owns e a \<Longrightarrow> idb_step X e (DoCheckpoint a v) (idb_checkpoint X a v e)"
| step_drop: "idb_step X e (DoDrop k) (idb_drop k e)"
| step_purge: "TxReload k \<notin> set (ie_queue e) \<Longrightarrow> idb_purge X k e = (e', r) \<Longrightarrow> idb_step X e (DoPurge k r) e'"
| step_refresh: "idb_refresh X k e = Some (e', r) \<Longrightarrow> idb_step X e (DoRefresh k) e'"
| step_close: "idb_step X e DoClose (idb_close e)"
| step_commit: "ie_queue e = tx # q \<Longrightarrow> idb_step X e (Commit tx) (idb_commit e)"
| step_abort: "ie_queue e = tx # q \<Longrightarrow> idb_step X e (Abort tx x) (idb_abort x e)"

inductive_cases idb_stepE: "idb_step X e l e'"

subsection \<open>Writes and the rows they leave\<close>

definition settled_db :: "('c, 'x) idb_engine \<Rightarrow> 'c idb_db" where
  "settled_db e = fold run_writes (map tx_writes (ie_queue e)) (ie_db e)"

lemma settled_enqueue: "settled_db (enqueue tx e) = run_writes (tx_writes tx) (settled_db e)"
  by (simp add: settled_db_def enqueue_def)

lemma run_writes_simps [simp]: "run_writes [] d = d" "run_writes (w # ws) d = run_writes ws (apply_write w d)"
    "run_writes (vs @ ws) d = run_writes ws (run_writes vs d)"
  by (simp_all add: run_writes_def)

abbreviation row_of :: "'c idb_db \<Rightarrow> row_key \<Rightarrow> op_row option" where
  "row_of d \<equiv> jm_get (db_rows d)"

lemma key_of_row_for: "key_of_row (row_for k op) = (k, op_origin op, op_seq op)"
  by (simp add: key_of_row_def row_for_def)

lemma run_puts:
  "row_of (run_writes (map (\<lambda>op. PutRow (row_for k op)) ops) d) (k', i) =
     (if k' = k then (case find (\<lambda>op. op_id op = i) (rev ops) of Some op \<Rightarrow> Some (row_for k op) | None \<Rightarrow> row_of d (k', i)) else row_of d (k', i))"
proof (induction ops rule: rev_induct)
  case (snoc op ops)
  then show ?case by (auto simp: jm_get_set key_of_row_for op_id_def)
qed simp

lemma run_deletes:
  "row_of (run_writes (map (\<lambda>op. DeleteRow (k, op_origin op, op_seq op)) ops) d) (k', i) =
     (if k' = k \<and> i \<in> op_id ` set ops then None else row_of d (k', i))"
proof (induction ops rule: rev_induct)
  case (snoc op ops)
  then show ?case by (auto simp: jm_get_delete op_id_def)
qed simp

lemma run_rows_checkpoints [simp]:
  "db_checkpoints (run_writes (map (\<lambda>op. PutRow (f op)) ops) d) = db_checkpoints d"
  "db_checkpoints (run_writes (map (\<lambda>op. DeleteRow (g op)) ops) d) = db_checkpoints d"
  by (induction ops arbitrary: d) simp_all

text \<open>The instance that a write touches.\<close>

fun write_instance :: "'c idb_write \<Rightarrow> jstr" where
  "write_instance (PutRow r) = or_instance r"
| "write_instance (PutCheckpoint k v) = k"
| "write_instance (DeleteRow k) = fst k"
| "write_instance (DeleteCheckpoint k) = k"

definition touches :: "jstr \<Rightarrow> 'c idb_tx \<Rightarrow> bool" where
  "touches k tx \<longleftrightarrow> k \<in> write_instance ` set (tx_writes tx)"

lemma untouched_writes:
  "k \<notin> write_instance ` set ws \<Longrightarrow> row_of (run_writes ws d) (k, i) = row_of d (k, i)
    \<and> jm_get (db_checkpoints (run_writes ws d)) k = jm_get (db_checkpoints d) k"
proof (induction ws arbitrary: d)
  case (Cons w ws)
  then show ?case by (cases w) (auto simp: jm_get_set jm_get_delete key_of_row_def)
qed simp

lemma untouched_queue:
  "\<forall>tx \<in> set q. \<not> touches k tx \<Longrightarrow> row_of (fold run_writes (map tx_writes q) d) (k, i) = row_of d (k, i)
    \<and> jm_get (db_checkpoints (fold run_writes (map tx_writes q) d)) k = jm_get (db_checkpoints d) k"
  by (induction q arbitrary: d) (auto simp: touches_def untouched_writes)

text \<open>Every row and checkpoint of an instance in one database is in the other one too.\<close>

definition below :: "jstr \<Rightarrow> 'c idb_db \<Rightarrow> 'c idb_db \<Rightarrow> bool" where
  "below k d d' \<longleftrightarrow> (\<forall>i r. row_of d (k, i) = Some r \<longrightarrow> row_of d' (k, i) = Some r)
     \<and> (\<forall>v. jm_get (db_checkpoints d) k = Some v \<longrightarrow> jm_get (db_checkpoints d') k = Some v)"

lemma belowD:
  "below k d d' \<Longrightarrow> row_of d (k, i) = Some r \<Longrightarrow> row_of d' (k, i) = Some r"
  "below k d d' \<Longrightarrow> jm_get (db_checkpoints d) k = Some v \<Longrightarrow> jm_get (db_checkpoints d') k = Some v"
  by (simp_all only: below_def)

fun is_delete :: "'c idb_write \<Rightarrow> bool" where
  "is_delete (DeleteRow k) \<longleftrightarrow> True"
| "is_delete (DeleteCheckpoint k) \<longleftrightarrow> True"
| "is_delete w \<longleftrightarrow> False"

lemma below_refl: "below k d d"
  by (simp add: below_def)

lemma below_trans: "below k d d' \<Longrightarrow> below k d' d'' \<Longrightarrow> below k d d''"
  by (simp add: below_def)

lemma below_apply: "below k d d' \<Longrightarrow> below k (apply_write w d) (apply_write w d')"
  by (cases w) (auto simp: below_def jm_get_set jm_get_delete)

lemma below_run: "below k d d' \<Longrightarrow> below k (run_writes ws d) (run_writes ws d')"
  by (induction ws arbitrary: d d') (simp_all add: below_apply)

lemma below_queue: "below k d d' \<Longrightarrow> below k (fold run_writes (map tx_writes q) d) (fold run_writes (map tx_writes q) d')"
  by (induction q arbitrary: d d') (simp_all add: below_run)

lemma deletes_below: "\<forall>w \<in> set ws. is_delete w \<Longrightarrow> below k (run_writes ws d) d"
proof (induction ws arbitrary: d)
  case (Cons w ws)
  then have "below k (run_writes ws (apply_write w d)) (apply_write w d)" by simp
  moreover have "below k (apply_write w d) d"
    using Cons.prems by (cases w) (auto simp: below_def jm_get_delete split: if_splits)
  ultimately show ?case by (auto intro: below_trans)
qed (simp add: below_refl)

lemma untouched_below: "\<not> touches k tx \<Longrightarrow> below k d (run_writes (tx_writes tx) d)"
  by (simp add: below_def touches_def untouched_writes)

text \<open>
  A purge that rejects, or whose transaction aborts, leaves its instance's rows behind: from then on
  the instance is behind, until a refresh of it completes.
\<close>

fun falls_behind :: "jstr \<Rightarrow> ('c, 'x) idb_label \<Rightarrow> bool \<Rightarrow> bool" where
  "falls_behind k (DoPurge k' (Inl x)) b \<longleftrightarrow> b \<or> k' = k"
| "falls_behind k (Abort (TxPurge ws) x) b \<longleftrightarrow> b \<or> touches k (TxPurge ws :: 'c idb_tx)"
| "falls_behind k (Commit (TxReload k')) b \<longleftrightarrow> b \<and> k' \<noteq> k"
| "falls_behind k l b \<longleftrightarrow> b"

definition behind :: "jstr \<Rightarrow> ('c, 'x) idb_label list \<Rightarrow> bool \<Rightarrow> bool" where
  "behind k ls b = fold (falls_behind k) ls b"

lemma behind_simps [simp]: "behind k [] b = b" "behind k (l # ls) b = behind k ls (falls_behind k l b)"
  by (simp_all add: behind_def)

lemma falls_behind_mono: "falls_behind k l a \<Longrightarrow> (a \<Longrightarrow> b) \<Longrightarrow> falls_behind k l b"
  by (induction k l a rule: falls_behind.induct) auto

lemma behind_mono: "behind k ls a \<Longrightarrow> (a \<Longrightarrow> b) \<Longrightarrow> behind k ls b"
  by (induction ls arbitrary: a b) (simp, simp, meson falls_behind_mono)

text \<open>Rows are filed under the key that their operation gives them.\<close>

definition db_wf :: "'c idb_db \<Rightarrow> bool" where
  "db_wf d \<longleftrightarrow> distinct (jm_keys (db_rows d))
     \<and> (\<forall>k i r. row_of d (k, i) = Some r \<longrightarrow> r = row_for k (or_op r) \<and> op_id (or_op r) = i)"

lemma db_wfD: "db_wf d \<Longrightarrow> row_of d (k, i) = Some r \<Longrightarrow> r = row_for k (or_op r) \<and> op_id (or_op r) = i"
  by (simp only: db_wf_def)

fun write_wf :: "'c idb_write \<Rightarrow> bool" where
  "write_wf (PutRow r) \<longleftrightarrow> r = row_for (or_instance r) (or_op r)"
| "write_wf w \<longleftrightarrow> True"

lemma write_wf_row_for [simp]: "write_wf (PutRow (row_for k op))"
  by (simp add: row_for_def)

definition tx_wf :: "'c idb_tx \<Rightarrow> bool" where
  "tx_wf tx \<longleftrightarrow> (\<forall>w \<in> set (tx_writes tx). write_wf w) \<and> (\<forall>ws. tx = TxPurge ws \<longrightarrow> (\<forall>w \<in> set ws. is_delete w))"

lemma apply_write_wf: "db_wf d \<Longrightarrow> write_wf w \<Longrightarrow> db_wf (apply_write w d)"
proof (cases w)
  case (PutRow r)
  assume d: "db_wf d" and w: "write_wf w"
  then have r: "row_for (or_instance r) (or_op r) = r" using PutRow by simp
  then have "op_id (or_op r) = (or_origin r, or_seq r)" by (simp add: row_for_def op_id_def) (metis op_row.select_convs(2,3))
  with d r show ?thesis by (auto simp: PutRow db_wf_def jm_get_set key_of_row_def distinct_update)
qed (auto simp: db_wf_def jm_get_delete distinct_delete)

lemma run_writes_wf: "db_wf d \<Longrightarrow> \<forall>w \<in> set ws. write_wf w \<Longrightarrow> db_wf (run_writes ws d)"
  by (induction ws arbitrary: d) (simp_all add: apply_write_wf)

lemma get_all_rows_mem: "db_wf d \<Longrightarrow> r \<in> set (get_all_rows d) \<longleftrightarrow> (\<exists>k i. row_of d (k, i) = Some r)"
proof -
  assume "db_wf d"
  then have "row_of d kk = Some r \<longleftrightarrow> (kk, r) \<in> set (db_rows d)" for kk by (simp add: db_wf_def)
  then show ?thesis by (force simp: get_all_rows_def image_iff)
qed

lemma instance_rows_mem: "db_wf d \<Longrightarrow> op \<in> set (instance_rows k d) \<longleftrightarrow> row_of d (k, op_id op) = Some (row_for k op)"
proof
  assume d: "db_wf d" and "op \<in> set (instance_rows k d)"
  then obtain r k' i where r: "row_of d (k', i) = Some r" "or_instance r = k" "op = or_op r"
    by (auto simp: instance_rows_def get_all_rows_mem)
  with db_wfD [OF d r(1)] have "r = row_for k' (or_op r)" "op_id (or_op r) = i" by blast+
  with r show "row_of d (k, op_id op) = Some (row_for k op)" by (metis op_row.select_convs(1) row_for_def)
next
  assume d: "db_wf d" and r: "row_of d (k, op_id op) = Some (row_for k op)"
  then have "row_for k op \<in> set (get_all_rows d)" using get_all_rows_mem [OF d] by blast
  then show "op \<in> set (instance_rows k d)" by (force simp: instance_rows_def row_for_def)
qed

lemma sorted_map_key: "sorted (map f xs) \<Longrightarrow> (\<And>x y. x \<in> set xs \<Longrightarrow> y \<in> set xs \<Longrightarrow> f x \<le> f y \<Longrightarrow> g x \<le> g y) \<Longrightarrow> sorted (map g xs)"
  by (induction xs) auto

lemma instance_rows_sorted:
  assumes "db_wf d"
  shows "sorted (map op_id (instance_rows k d)) \<and> distinct (map op_id (instance_rows k d))"
proof -
  let ?ps = "filter (\<lambda>p. or_instance (snd p) = k) (sort_key fst (db_rows d))"
  have key: "fst p = (k, op_id (or_op (snd p)))" if "p \<in> set ?ps" for p
  proof -
    obtain k' i r where p: "p = ((k', i), r)" by (metis prod.collapse)
    with that assms have "row_of d (k', i) = Some r" by (simp add: db_wf_def)
    from db_wfD [OF assms this] p that show ?thesis by (auto simp: row_for_def) (metis op_row.select_convs(1))+
  qed
  have ids: "map op_id (instance_rows k d) = map (\<lambda>p. op_id (or_op (snd p))) ?ps"
    by (simp add: instance_rows_def get_all_rows_def filter_map comp_def)
  have "sorted (map fst ?ps)" by (rule sorted_filter) (rule sorted_sort_key)
  then have "sorted (map (\<lambda>p. op_id (or_op (snd p))) ?ps)"
    by (rule sorted_map_key) (simp add: key)
  moreover have "distinct (map (\<lambda>p. op_id (or_op (snd p))) ?ps)"
  proof -
    have "distinct (map fst (db_rows d))" using assms by (simp add: db_wf_def)
    then have "distinct (map fst (sort_key fst (db_rows d)))" by (simp add: distinct_map)
    then have "distinct (map fst ?ps)" by (rule distinct_map_filter)
    also have "map fst ?ps = map (\<lambda>p. (k, op_id (or_op (snd p)))) ?ps" by (rule map_cong [OF refl]) (rule key)
    also have "\<dots> = map (Pair k) (map (\<lambda>p. op_id (or_op (snd p))) ?ps)" by simp
    finally show ?thesis by (simp only: distinct_map)
  qed
  ultimately show ?thesis by (simp only: ids)
qed

subsection \<open>The cache mirrors the database\<close>

definition held_at :: "('c, 'x) idb_engine \<Rightarrow> jstr \<Rightarrow> jstr \<times> int \<Rightarrow> stored_op option" where
  "held_at e k i = (case jm_get (ie_cache e) k of None \<Rightarrow> None | Some a \<Rightarrow> find (\<lambda>op. op_id op = i) (ib_ops (ie_heap e ! a)))"

fun reload_quiet :: "'c idb_tx list \<Rightarrow> bool" where
  "reload_quiet [] \<longleftrightarrow> True"
| "reload_quiet (TxReload k # q) \<longleftrightarrow> (\<forall>tx \<in> set q. \<not> touches k tx) \<and> reload_quiet q"
| "reload_quiet (_ # q) \<longleftrightarrow> reload_quiet q"

lemma reload_quiet_one [simp]: "reload_quiet [tx]"
  by (cases tx) simp_all

lemma reload_quiet_snoc: "reload_quiet (q @ [tx]) \<longleftrightarrow> reload_quiet q \<and> (\<forall>k. TxReload k \<in> set q \<longrightarrow> \<not> touches k tx)"
  by (induction q rule: reload_quiet.induct) auto

text \<open>The structural invariant, and what holds as long as no failure was noted.\<close>

definition idb_wf :: "('c, 'x) idb_engine \<Rightarrow> bool" where
  "idb_wf e \<longleftrightarrow> (\<forall>s \<in> set (ie_heap e). distinct (map op_id (ib_ops s)))
     \<and> (\<forall>k a. jm_get (ie_cache e) k = Some a \<longrightarrow> a < length (ie_heap e) \<and> ib_key (ie_heap e ! a) = k)
     \<and> db_wf (ie_db e) \<and> (\<forall>tx \<in> set (ie_queue e). tx_wf tx) \<and> reload_quiet (ie_queue e)"

text \<open>
  What the engine has is in the database once the queue is settled; and when the instance is not
  behind, the database has nothing else. One flag is for the rows and one for the checkpoint.
\<close>

definition live_checkpoint :: "('c, 'x) idb_engine \<Rightarrow> jstr \<Rightarrow> 'c option" where
  "live_checkpoint e k = (case jm_get (ie_cache e) k of None \<Rightarrow> None | Some a \<Rightarrow> ib_checkpoint (ie_heap e ! a))"

definition covers :: "bool \<Rightarrow> 'v option \<Rightarrow> 'v option \<Rightarrow> bool" where
  "covers late live stored \<longleftrightarrow> stored = live \<or> late \<and> live = None"

lemma covers_same [simp]: "covers late v v"
  by (simp add: covers_def)

lemma covers_late [simp]: "covers True None v"
  by (simp add: covers_def)

lemma covers_Some: "covers late (Some v) stored \<longleftrightarrow> stored = Some v"
  by (auto simp: covers_def)

lemma covers_False: "covers False live stored \<longleftrightarrow> stored = live"
  by (simp add: covers_def)

definition in_step :: "jstr \<Rightarrow> bool \<Rightarrow> bool \<Rightarrow> ('c, 'x) idb_engine \<Rightarrow> bool" where
  "in_step k r c e \<longleftrightarrow> (\<forall>i. covers r (map_option (row_for k) (held_at e k i)) (row_of (settled_db e) (k, i)))
     \<and> covers c (live_checkpoint e k) (jm_get (db_checkpoints (settled_db e)) k)"

definition idb_inv :: "jstr \<Rightarrow> bool \<Rightarrow> bool \<Rightarrow> ('c, 'x) idb_engine \<Rightarrow> bool" where
  "idb_inv k r c e \<longleftrightarrow> idb_wf e \<and> (ie_failure e = None \<longrightarrow> in_step k r c e)"

lemma in_step_rows: "in_step k r c e \<Longrightarrow> covers r (map_option (row_for k) (held_at e k i)) (row_of (settled_db e) (k, i))"
  by (simp only: in_step_def)

lemma in_step_checkpoint: "in_step k r c e \<Longrightarrow> covers c (live_checkpoint e k) (jm_get (db_checkpoints (settled_db e)) k)"
  by (simp only: in_step_def)

lemma in_stepI:
  assumes "\<And>i. covers r (map_option (row_for k) (held_at e k i)) (row_of (settled_db e) (k, i))"
    and "covers c (live_checkpoint e k) (jm_get (db_checkpoints (settled_db e)) k)"
  shows "in_step k r c e"
  using assms by (simp add: in_step_def)

lemma idb_inv_wf: "idb_inv k r c e \<Longrightarrow> idb_wf e"
  by (simp add: idb_inv_def)

lemma idb_invI: "idb_wf e \<Longrightarrow> (ie_failure e = None \<Longrightarrow> in_step k r c e) \<Longrightarrow> idb_inv k r c e"
  by (simp add: idb_inv_def)

lemma idb_inv_step: "idb_inv k r c e \<Longrightarrow> ie_failure e = None \<Longrightarrow> in_step k r c e"
  by (simp add: idb_inv_def)

lemma find_id_None: "find (\<lambda>op. op_id op = i) ops = None \<longleftrightarrow> i \<notin> op_id ` set ops"
  by (auto simp: find_None_iff)

lemma note_failure_noted [simp]: "\<exists>y. ie_failure (note_failure x e) = Some y"
  by (simp add: note_failure_def split: option.split)

lemma note_failure_simps [simp]:
  "ie_failure (note_failure x e) \<noteq> None" "ie_heap (note_failure x e) = ie_heap e" "ie_cache (note_failure x e) = ie_cache e"
  "ie_db (note_failure x e) = ie_db e" "ie_queue (note_failure x e) = ie_queue e" "ie_closed (note_failure x e) = ie_closed e"
  by (simp_all add: note_failure_def split: option.split)

lemma enqueue_simps [simp]:
  "ie_failure (enqueue tx e) = ie_failure e" "ie_heap (enqueue tx e) = ie_heap e" "ie_cache (enqueue tx e) = ie_cache e"
  "ie_db (enqueue tx e) = ie_db e" "ie_queue (enqueue tx e) = ie_queue e @ [tx]" "ie_closed (enqueue tx e) = ie_closed e"
  by (simp_all add: enqueue_def)

lemma noted_inv: "idb_wf e \<Longrightarrow> idb_inv k r c (note_failure x e)"
  by (simp add: idb_inv_def idb_wf_def)

lemma idb_wf_cacheD: "idb_wf e \<Longrightarrow> jm_get (ie_cache e) k = Some a \<Longrightarrow> a < length (ie_heap e) \<and> ib_key (ie_heap e ! a) = k"
  by (simp add: idb_wf_def)

lemma idb_wf_distinct: "idb_wf e \<Longrightarrow> a < length (ie_heap e) \<Longrightarrow> distinct (map op_id (ib_ops (ie_heap e ! a)))"
  by (simp add: idb_wf_def)

text \<open>A change of the store at \<open>a\<close> that keeps its key.\<close>

lemma store_update_wf:
  assumes "idb_wf e" "ib_key s = ib_key (ie_heap e ! a)" "distinct (map op_id (ib_ops s))"
  shows "idb_wf (e\<lparr>ie_heap := (ie_heap e)[a := s]\<rparr>)"
  using assms by (auto simp: idb_wf_def nth_update_sel [where f = ib_key] dest!: set_update_subset_insert [THEN subsetD])

lemma enqueue_wf:
  assumes "idb_wf e" "tx_wf tx" "\<forall>k. TxReload k \<in> set (ie_queue e) \<longrightarrow> \<not> touches k tx"
  shows "idb_wf (enqueue tx e)"
  using assms by (auto simp: idb_wf_def reload_quiet_snoc)

lemma cached_apart:
  "idb_wf e \<Longrightarrow> jm_get (ie_cache e) k = Some b \<Longrightarrow> k \<noteq> ib_key (ie_heap e ! a) \<Longrightarrow> b \<noteq> a"
  using idb_wf_cacheD by blast

lemma held_at_update:
  assumes "idb_wf e" "jm_get (ie_cache e) (ib_key (ie_heap e ! a)) = Some a" "a < length (ie_heap e)"
  shows "held_at (e\<lparr>ie_heap := (ie_heap e)[a := s]\<rparr>) k i =
    (if k = ib_key (ie_heap e ! a) then find (\<lambda>op. op_id op = i) (ib_ops s) else held_at e k i)"
proof (cases "k = ib_key (ie_heap e ! a)")
  case True
  with assms show ?thesis by (simp add: held_at_def)
next
  case False
  with cached_apart [OF assms(1), of k _ a] show ?thesis by (auto simp: held_at_def split: option.split)
qed

text \<open>Only heap, cache, database and queue matter for what is held and settled.\<close>

lemma settled_heap [simp]: "settled_db (e\<lparr>ie_heap := h\<rparr>) = settled_db e"
  by (simp add: settled_db_def)

lemma held_at_cong: "ie_cache e' = ie_cache e \<Longrightarrow> ie_heap e' = ie_heap e \<Longrightarrow> held_at e' = held_at e"
  by (simp add: fun_eq_iff held_at_def split: option.split)

lemma held_enqueue [simp]: "held_at (enqueue tx e) k i = held_at e k i"
  by (simp add: held_at_def split: option.split)

lemma find_id_snoc:
  "op_id op \<notin> op_id ` set xs \<Longrightarrow> find (\<lambda>op. op_id op = i) (xs @ [op]) = (if i = op_id op then Some op else find (\<lambda>op. op_id op = i) xs)"
  by (induction xs) auto

lemma live_checkpoint_update:
  assumes "idb_wf e" "jm_get (ie_cache e) (ib_key (ie_heap e ! a)) = Some a" "a < length (ie_heap e)"
  shows "live_checkpoint (e\<lparr>ie_heap := (ie_heap e)[a := s]\<rparr>) k =
    (if k = ib_key (ie_heap e ! a) then ib_checkpoint s else live_checkpoint e k)"
proof (cases "k = ib_key (ie_heap e ! a)")
  case True
  with assms show ?thesis by (simp add: live_checkpoint_def)
next
  case False
  with cached_apart [OF assms(1), of k _ a] show ?thesis by (auto simp: live_checkpoint_def split: option.split)
qed

lemma live_checkpoint_cong: "ie_cache e' = ie_cache e \<Longrightarrow> ie_heap e' = ie_heap e \<Longrightarrow> live_checkpoint e' = live_checkpoint e"
  by (simp add: fun_eq_iff live_checkpoint_def split: option.split)

lemma live_checkpoint_enqueue [simp]: "live_checkpoint (enqueue tx e) k = live_checkpoint e k"
  by (simp add: live_checkpoint_def split: option.split)

lemma live_checkpoint_cached: "jm_get (ie_cache e) k = Some a \<Longrightarrow> live_checkpoint e k = ib_checkpoint (ie_heap e ! a)"
  by (simp add: live_checkpoint_def)

lemma held_at_cached: "jm_get (ie_cache e) k = Some a \<Longrightarrow> held_at e k i = find (\<lambda>op. op_id op = i) (ib_ops (ie_heap e ! a))"
  by (simp add: held_at_def)

lemma find_id_rev: "distinct (map op_id xs) \<Longrightarrow> find (\<lambda>op. op_id op = i) (rev xs) = find (\<lambda>op. op_id op = i) xs"
proof (cases "find (\<lambda>op. op_id op = i) xs")
  case None
  then have "find (\<lambda>op. op_id op = i) (rev xs) = None" by (simp add: find_id_None)
  with None show ?thesis by simp
next
  case (Some op)
  moreover assume "distinct (map op_id xs)"
  ultimately have "find (\<lambda>op. op_id op = i) (rev xs) = Some op" by (simp add: find_id_iff rev_map [symmetric])
  with Some show ?thesis by simp
qed

lemma append_keeps:
  assumes inv: "idb_inv k r c e" and own: "idb_owns e a"
  shows "idb_inv k r c (fst (idb_append X a op e))"
proof (cases "op_id op \<in> op_id ` set (ib_ops (ie_heap e ! a))")
  case True
  then have "fst (idb_append X a op e) = e" by (auto simp: idb_append_def Let_def op_id_def)
  with inv show ?thesis by simp
next
  case new: False
  let ?s = "ie_heap e ! a"
  let ?e1 = "e\<lparr>ie_heap := (ie_heap e)[a := ?s\<lparr>ib_ops := ib_ops ?s @ [op]\<rparr>]\<rparr>"
  have a: "a < length (ie_heap e)" "jm_get (ie_cache e) (ib_key ?s) = Some a" "TxReload (ib_key ?s) \<notin> set (ie_queue e)"
    using own by (simp_all add: idb_owns_def)
  have res: "fst (idb_append X a op e) = idb_put X (row_for (ib_key ?s) op) ?e1"
    using new by (auto simp: idb_append_def Let_def op_id_def image_iff)
  have wf: "idb_wf e" by (rule idb_inv_wf [OF inv])
  have wf1: "idb_wf ?e1"
    using new idb_wf_distinct [OF wf a(1)] by (intro store_update_wf [OF wf]) auto
  show ?thesis
  proof (cases "ie_closed e")
    case True
    then show ?thesis by (simp add: res idb_put_def noted_inv [OF wf1])
  next
    case False
    then have res: "fst (idb_append X a op e) = enqueue (TxWrite True [PutRow (row_for (ib_key ?s) op)]) ?e1"
      by (simp add: res idb_put_def)
    have wf2: "idb_wf (fst (idb_append X a op e))"
      unfolding res using a(3) by (intro enqueue_wf [OF wf1]) (auto simp: tx_wf_def touches_def row_for_def)
    show ?thesis
    proof (rule idb_invI [OF wf2])
      assume "ie_failure (fst (idb_append X a op e)) = None"
      then have m: "in_step k r c e" using idb_inv_step [OF inv] by (simp add: res)
      have rows: "row_of (settled_db (fst (idb_append X a op e))) (k, i) =
          (if k = ib_key ?s \<and> i = op_id op then Some (row_for k op) else row_of (settled_db e) (k, i))" for i
        unfolding res by (simp add: settled_enqueue jm_get_set key_of_row_for op_id_def)
      have held: "held_at (fst (idb_append X a op e)) k i =
          (if k = ib_key ?s \<and> i = op_id op then Some op else held_at e k i)" for i
        unfolding res held_enqueue held_at_update [OF wf a(2,1)]
        using new by (simp add: held_at_cached [OF a(2)] find_id_snoc)
      have live: "live_checkpoint (fst (idb_append X a op e)) k = live_checkpoint e k"
        unfolding res live_checkpoint_enqueue live_checkpoint_update [OF wf a(2,1)] by (simp add: live_checkpoint_cached [OF a(2)])
      have db: "db_checkpoints (settled_db (fst (idb_append X a op e))) = db_checkpoints (settled_db e)"
        unfolding res by (simp add: settled_enqueue)
      show "in_step k r c (fst (idb_append X a op e))"
        by (rule in_stepI) (simp_all add: rows held live db in_step_rows [OF m] in_step_checkpoint [OF m])
    qed
  qed
qed

lemma checkpoint_keeps:
  assumes inv: "idb_inv k r c e" and own: "idb_owns e a"
  shows "idb_inv k r c (idb_checkpoint X a v e)"
proof -
  let ?s = "ie_heap e ! a"
  let ?e1 = "e\<lparr>ie_heap := (ie_heap e)[a := ?s\<lparr>ib_checkpoint := Some v\<rparr>]\<rparr>"
  let ?puts = "map (\<lambda>op. PutRow (row_for (ib_key ?s) op)) (ib_ops ?s)"
  have a: "a < length (ie_heap e)" "jm_get (ie_cache e) (ib_key ?s) = Some a" "TxReload (ib_key ?s) \<notin> set (ie_queue e)"
    using own by (simp_all add: idb_owns_def)
  have res: "idb_checkpoint X a v e = idb_save_checkpoint X (ib_key ?s) (ib_ops ?s) v ?e1"
    by (simp add: idb_checkpoint_def Let_def)
  have wf: "idb_wf e" by (rule idb_inv_wf [OF inv])
  have wf1: "idb_wf ?e1" using idb_wf_distinct [OF wf a(1)] by (intro store_update_wf [OF wf]) auto
  have wf2: "idb_wf (enqueue (TxWrite tr (?puts @ ws)) ?e1)" if "set ws \<subseteq> {PutCheckpoint (ib_key ?s) v}" for tr ws
    using a(3) that by (intro enqueue_wf [OF wf1]) (auto simp: tx_wf_def touches_def row_for_def)
  have wf3: "idb_wf (enqueue (TxWrite tr ?puts) ?e1)" for tr using wf2 [of "[]" tr] by simp
  show ?thesis
  proof (cases "ie_closed e \<or> \<not> pl_cloneable X v")
    case True
    then show ?thesis by (auto simp: res idb_save_checkpoint_def Let_def noted_inv [OF wf1] noted_inv [OF wf3])
  next
    case False
    then have res: "idb_checkpoint X a v e = enqueue (TxWrite True (?puts @ [PutCheckpoint (ib_key ?s) v])) ?e1"
      by (simp add: res idb_save_checkpoint_def Let_def)
    have wf4: "idb_wf (idb_checkpoint X a v e)" unfolding res by (rule wf2) simp
    show ?thesis
    proof (rule idb_invI [OF wf4])
      assume "ie_failure (idb_checkpoint X a v e) = None"
      then have m: "in_step k r c e" using idb_inv_step [OF inv] by (simp add: res)
      have held: "held_at (idb_checkpoint X a v e) k i = held_at e k i" for i
        unfolding res held_enqueue held_at_update [OF wf a(2,1)] by (simp add: held_at_cached [OF a(2)])
      have live: "live_checkpoint (idb_checkpoint X a v e) k = (if k = ib_key ?s then Some v else live_checkpoint e k)"
        unfolding res live_checkpoint_enqueue live_checkpoint_update [OF wf a(2,1)] by simp
      have rows: "row_of (settled_db (idb_checkpoint X a v e)) (k, i) =
          (if k = ib_key ?s then (case held_at e k i of Some op \<Rightarrow> Some (row_for k op) | None \<Rightarrow> row_of (settled_db e) (k, i))
           else row_of (settled_db e) (k, i))" for i
        unfolding res using idb_wf_distinct [OF wf a(1)]
        by (cases "k = ib_key ?s") (auto simp: settled_enqueue run_puts find_id_rev held_at_cached [OF a(2)] split: option.split)
      have db: "jm_get (db_checkpoints (settled_db (idb_checkpoint X a v e))) k =
          (if k = ib_key ?s then Some v else jm_get (db_checkpoints (settled_db e)) k)"
        unfolding res by (simp add: settled_enqueue jm_get_set)
      show "in_step k r c (idb_checkpoint X a v e)"
      proof (rule in_stepI)
        show "covers r (map_option (row_for k) (held_at (idb_checkpoint X a v e) k i)) (row_of (settled_db (idb_checkpoint X a v e)) (k, i))" for i
          unfolding rows held using in_step_rows [OF m, of i]
          by (cases "held_at e k i") (simp_all only: option.map option.case covers_Some if_cancel)
      qed (use in_step_checkpoint [OF m] in \<open>simp add: live db\<close>)
    qed
  qed
qed

lemma clear_held:
  assumes "idb_wf e" "jm_get (ie_cache e) k' = Some a"
  shows "held_at (idb_clear a e) k i = (if k = k' then None else held_at e k i)
    \<and> live_checkpoint (idb_clear a e) k = (if k = k' then None else live_checkpoint e k)"
proof -
  have a: "a < length (ie_heap e)" "ib_key (ie_heap e ! a) = k'" using idb_wf_cacheD [OF assms] by blast+
  then have c: "jm_get (ie_cache e) (ib_key (ie_heap e ! a)) = Some a" using assms(2) by simp
  show ?thesis
    unfolding idb_clear_def held_at_update [OF assms(1) c a(1)] live_checkpoint_update [OF assms(1) c a(1)]
    by (simp add: a(2))
qed

lemma purge_keeps:
  assumes inv: "idb_inv k r c e" and quiet: "TxReload k' \<notin> set (ie_queue e)" and res: "idb_purge X k' e = (e', out)"
  shows "idb_inv k (falls_behind k (DoPurge k' out) r) (falls_behind k (DoPurge k' out) c) e'"
proof (cases "jm_get (ie_cache e) k'")
  case None
  with res inv show ?thesis by (auto simp: idb_purge_def)
next
  case (Some a)
  let ?e1 = "idb_clear a e"
  let ?dels = "map (\<lambda>op. DeleteRow (k', op_origin op, op_seq op)) (ib_ops (ie_heap e ! a))"
  have wf: "idb_wf e" by (rule idb_inv_wf [OF inv])
  have wf1: "idb_wf ?e1" unfolding idb_clear_def by (rule store_update_wf [OF wf]) simp_all
  have q1: "ie_queue ?e1 = ie_queue e" "ie_failure ?e1 = ie_failure e" "settled_db ?e1 = settled_db e" "ie_closed ?e1 = ie_closed e"
    by (simp_all add: idb_clear_def)
  note held = clear_held [OF wf Some, of k]
  show ?thesis
  proof (cases "ie_closed e")
    case True
    then have e': "e' = ?e1" "out = Inl (pl_closed X)" using res Some by (simp_all add: idb_purge_def Let_def q1)
    show ?thesis unfolding e'
    proof (rule idb_invI [OF wf1])
      assume "ie_failure ?e1 = None"
      then have m: "in_step k r c e" using idb_inv_step [OF inv] by (simp add: q1)
      show "in_step k (falls_behind k (DoPurge k' (Inl (pl_closed X))) r) (falls_behind k (DoPurge k' (Inl (pl_closed X))) c) ?e1"
        using in_step_rows [OF m] in_step_checkpoint [OF m] by (intro in_stepI) (auto simp: held q1)
    qed
  next
    case False
    then have e': "e' = enqueue (TxPurge (DeleteCheckpoint k' # ?dels)) ?e1" "out = Inr ()"
      using res Some by (simp_all add: idb_purge_def Let_def idb_all_def q1)
    have wf2: "idb_wf e'" unfolding e' using quiet by (intro enqueue_wf [OF wf1]) (auto simp: q1 touches_def tx_wf_def)
    show ?thesis
    proof (rule idb_invI [OF wf2])
      assume "ie_failure e' = None"
      then have m: "in_step k r c e" using idb_inv_step [OF inv] by (simp add: e' q1)
      have "i \<in> op_id ` set (ib_ops (ie_heap e ! a)) \<longleftrightarrow> held_at e k' i \<noteq> None" for i
        by (simp only: held_at_cached [OF Some] find_id_None not_not)
      then have rows: "row_of (settled_db e') (k, i) = (if k = k' \<and> held_at e k i \<noteq> None then None else row_of (settled_db e) (k, i))" for i
        unfolding e' by (cases "k = k'") (simp_all add: settled_enqueue q1 run_deletes)
      have db: "jm_get (db_checkpoints (settled_db e')) k = (if k = k' then None else jm_get (db_checkpoints (settled_db e)) k)"
        unfolding e' by (simp add: settled_enqueue q1 jm_get_delete)
      have now: "held_at e' k i = (if k = k' then None else held_at e k i)" "live_checkpoint e' k = (if k = k' then None else live_checkpoint e k)" for i
        unfolding e' by (simp_all add: held)
      have "covers r (map_option (row_for k) (held_at e' k i)) (row_of (settled_db e') (k, i))" for i
        using in_step_rows [OF m, of i] by (cases "held_at e k i") (auto simp: rows now)
      moreover have "covers c (live_checkpoint e' k) (jm_get (db_checkpoints (settled_db e')) k)"
        using in_step_checkpoint [OF m] by (simp add: db now)
      ultimately show "in_step k (falls_behind k (DoPurge k' out) r) (falls_behind k (DoPurge k' out) c) e'"
        by (simp add: in_step_def e'(2))
    qed
  qed
qed

text \<open>A store put into the cache.\<close>

lemma cache_store_simps [simp]:
  "ie_failure (cache_store k ops cp e) = ie_failure e" "ie_db (cache_store k ops cp e) = ie_db e"
  "ie_queue (cache_store k ops cp e) = ie_queue e" "ie_closed (cache_store k ops cp e) = ie_closed e"
  "settled_db (cache_store k ops cp e) = settled_db e"
  by (simp_all add: cache_store_def settled_db_def)

lemma cache_store_wf: "idb_wf e \<Longrightarrow> distinct (map op_id ops) \<Longrightarrow> idb_wf (cache_store k ops cp e)"
  by (auto simp: idb_wf_def cache_store_def jm_get_set nth_append less_Suc_eq)

lemma cache_store_held:
  assumes "idb_wf e"
  shows "held_at (cache_store k ops cp e) k' i = (if k' = k then find (\<lambda>op. op_id op = i) ops else held_at e k' i)"
  using idb_wf_cacheD [OF assms, of k'] by (auto simp: held_at_def cache_store_def jm_get_set nth_append split: option.split)

lemma cache_store_checkpoint:
  assumes "idb_wf e"
  shows "live_checkpoint (cache_store k ops cp e) k' = (if k' = k then cp else live_checkpoint e k')"
  using idb_wf_cacheD [OF assms, of k'] by (auto simp: live_checkpoint_def cache_store_def jm_get_set nth_append split: option.split)

text \<open>Filled from the settled rows, the store is exact.\<close>

lemma cache_store_keeps:
  assumes inv: "idb_inv k r c e" and ids: "distinct (map op_id ops)"
    and rows: "\<And>i. k' = k \<Longrightarrow> row_of (settled_db e) (k, i) = map_option (row_for k) (find (\<lambda>op. op_id op = i) ops)"
    and cp: "k' = k \<Longrightarrow> jm_get (db_checkpoints (settled_db e)) k = cp"
  shows "idb_inv k (r \<and> k' \<noteq> k) (c \<and> k' \<noteq> k) (cache_store k' ops cp e)"
proof (rule idb_invI)
  have wf: "idb_wf e" by (rule idb_inv_wf [OF inv])
  then show "idb_wf (cache_store k' ops cp e)" using ids by (rule cache_store_wf)
  assume "ie_failure (cache_store k' ops cp e) = None"
  then have m: "in_step k r c e" using idb_inv_step [OF inv] by simp
  show "in_step k (r \<and> k' \<noteq> k) (c \<and> k' \<noteq> k) (cache_store k' ops cp e)"
    using in_step_rows [OF m] in_step_checkpoint [OF m] rows cp
    by (intro in_stepI) (auto simp: cache_store_held [OF wf] cache_store_checkpoint [OF wf])
qed

lemma open_cache_store: "jm_get (ie_cache e) k = None \<Longrightarrow> fst (idb_open k e) = cache_store k [] None e"
  by (simp add: idb_open_def cache_store_def Let_def)

lemma open_keeps:
  assumes inv: "idb_inv k r c e"
  shows "idb_inv k r c (fst (idb_open k' e))"
proof (cases "jm_get (ie_cache e) k'")
  case None
  have wf: "idb_wf e" by (rule idb_inv_wf [OF inv])
  have "held_at (cache_store k' [] None e) k = held_at e k" "live_checkpoint (cache_store k' [] None e) k = live_checkpoint e k"
    using None by (auto simp: fun_eq_iff cache_store_held [OF wf] cache_store_checkpoint [OF wf]) (simp_all add: held_at_def live_checkpoint_def)
  then have "in_step k r c (cache_store k' [] None e) = in_step k r c e" by (simp add: in_step_def)
  moreover have "idb_wf (cache_store k' [] None e)" by (rule cache_store_wf [OF wf]) simp
  ultimately show ?thesis using inv unfolding open_cache_store [OF None] by (simp add: idb_inv_def)
qed (use inv in \<open>simp add: idb_open_def\<close>)

lemma instance_rows_find:
  assumes "db_wf d"
  shows "map_option (row_for k) (find (\<lambda>op. op_id op = i) (instance_rows k d)) = row_of d (k, i)"
proof (cases "find (\<lambda>op. op_id op = i) (instance_rows k d)")
  case (Some op)
  then have "op \<in> set (instance_rows k d)" "op_id op = i"
    using instance_rows_sorted [OF assms, of k] by (simp_all add: find_id_iff)
  with Some show ?thesis using instance_rows_mem [OF assms, of op k] by simp
next
  case None
  then have no: "i \<notin> op_id ` set (instance_rows k d)" by (simp add: find_id_None)
  have "row_of d (k, i) = None"
  proof (rule ccontr)
    assume "row_of d (k, i) \<noteq> None"
    then obtain r where r: "row_of d (k, i) = Some r" by blast
    with db_wfD [OF assms r] have "or_op r \<in> set (instance_rows k d)" "op_id (or_op r) = i"
      by (simp_all add: instance_rows_mem [OF assms])
    with no show False by blast
  qed
  with None show ?thesis by (simp only: option.map)
qed

lemma idb_inv_cong:
  assumes "ie_heap e' = ie_heap e" "ie_cache e' = ie_cache e" "ie_db e' = ie_db e" "ie_queue e' = ie_queue e" "ie_failure e' = ie_failure e"
  shows "idb_inv k r c e' = idb_inv k r c e"
proof -
  have "settled_db e' = settled_db e" using assms by (simp add: settled_db_def)
  moreover have "held_at e' = held_at e" "live_checkpoint e' = live_checkpoint e"
    using assms by (intro held_at_cong live_checkpoint_cong; simp)+
  moreover have "idb_wf e' = idb_wf e" using assms by (simp add: idb_wf_def)
  ultimately show ?thesis using assms by (simp only: idb_inv_def in_step_def)
qed

text \<open>The oldest transaction leaves the queue, with its writes or without them.\<close>

lemma dequeue_wf:
  assumes "idb_wf e" "ie_queue e = tx # q"
  shows "idb_wf (e\<lparr>ie_queue := q\<rparr>)" "idb_wf (e\<lparr>ie_queue := q, ie_db := run_writes (tx_writes tx) (ie_db e)\<rparr>)"
proof -
  have "reload_quiet q" using assms by (cases tx) (simp_all add: idb_wf_def)
  moreover have "db_wf (run_writes (tx_writes tx) (ie_db e))" using assms by (simp add: idb_wf_def tx_wf_def run_writes_wf)
  ultimately show "idb_wf (e\<lparr>ie_queue := q\<rparr>)" "idb_wf (e\<lparr>ie_queue := q, ie_db := run_writes (tx_writes tx) (ie_db e)\<rparr>)"
    using assms by (simp_all add: idb_wf_def)
qed

lemma dequeue_inv:
  assumes "idb_inv k r c e" "ie_queue e = tx # q"
  shows "idb_inv k r c (e\<lparr>ie_queue := q, ie_db := run_writes (tx_writes tx) (ie_db e)\<rparr>)"
proof -
  let ?e1 = "e\<lparr>ie_queue := q, ie_db := run_writes (tx_writes tx) (ie_db e)\<rparr>"
  have "settled_db ?e1 = settled_db e" using assms(2) by (simp add: settled_db_def)
  moreover have "held_at ?e1 = held_at e" "live_checkpoint ?e1 = live_checkpoint e"
    by (intro held_at_cong live_checkpoint_cong; simp)+
  ultimately show ?thesis using assms dequeue_wf(2) [OF idb_inv_wf [OF assms(1)] assms(2)] by (simp add: idb_inv_def in_step_def)
qed

lemma commit_keeps:
  assumes inv: "idb_inv k r c e" and q: "ie_queue e = tx # q"
  shows "idb_inv k (falls_behind k (Commit tx) r) (falls_behind k (Commit tx) c) (idb_commit e)"
proof -
  let ?e1 = "e\<lparr>ie_queue := q, ie_db := run_writes (tx_writes tx) (ie_db e)\<rparr>"
  have inv1: "idb_inv k r c ?e1" by (rule dequeue_inv [OF inv q])
  show ?thesis
  proof (cases tx)
    case (TxReload k')
    have d: "db_wf (ie_db ?e1)" using idb_inv_wf [OF inv1] by (simp only: idb_wf_def)
    have quiet: "\<forall>tx \<in> set q. \<not> touches k' tx" using inv q TxReload by (simp add: idb_inv_def idb_wf_def)
    have res: "idb_commit e = cache_store k' (instance_rows k' (ie_db ?e1)) (jm_get (db_checkpoints (ie_db ?e1)) k') ?e1"
      using q TxReload by (simp add: idb_commit_def)
    have same: "row_of (settled_db ?e1) (k', i) = row_of (ie_db ?e1) (k', i)"
        "jm_get (db_checkpoints (settled_db ?e1)) k' = jm_get (db_checkpoints (ie_db ?e1)) k'" for i
      using untouched_queue [OF quiet, of "ie_db ?e1" i] by (simp_all add: settled_db_def)
    have "idb_inv k (r \<and> k' \<noteq> k) (c \<and> k' \<noteq> k) (idb_commit e)" unfolding res
    proof (rule cache_store_keeps [OF inv1])
      show "distinct (map op_id (instance_rows k' (ie_db ?e1)))" using instance_rows_sorted [OF d] by blast
      show "row_of (settled_db ?e1) (k, i) = map_option (row_for k) (find (\<lambda>op. op_id op = i) (instance_rows k' (ie_db ?e1)))"
        if "k' = k" for i using that same(1) [of i] instance_rows_find [OF d, of k i] by simp
      show "jm_get (db_checkpoints (settled_db ?e1)) k = jm_get (db_checkpoints (ie_db ?e1)) k'" if "k' = k" using that same(2) by simp
    qed
    with TxReload show ?thesis by simp
  qed (use inv1 q in \<open>simp_all add: idb_commit_def\<close>)
qed

lemma abort_keeps:
  assumes inv: "idb_inv k r c e" and q: "ie_queue e = tx # q"
  shows "idb_inv k (falls_behind k (Abort tx x) r) (falls_behind k (Abort tx x) c) (idb_abort x e)"
proof (cases tx)
  case (TxWrite tr ws)
  then show ?thesis using noted_inv [OF dequeue_wf(1) [OF idb_inv_wf [OF inv] q]] q by (simp add: idb_abort_def)
next
  case (TxReload k)
  with dequeue_inv [OF inv q] q show ?thesis by (simp add: idb_abort_def)
next
  case (TxPurge ws)
  have res: "idb_abort x e = e\<lparr>ie_queue := q\<rparr>" using q TxPurge by (simp add: idb_abort_def)
  have "idb_wf e" by (rule idb_inv_wf [OF inv])
  then have "\<forall>w \<in> set ws. is_delete w" using q TxPurge by (simp add: idb_wf_def tx_wf_def)
  then have up: "below k (settled_db e) (settled_db (e\<lparr>ie_queue := q\<rparr>))"
    using q TxPurge by (simp add: settled_db_def below_queue deletes_below)
  have down: "below k (settled_db (e\<lparr>ie_queue := q\<rparr>)) (settled_db e)" if "\<not> touches k tx"
    using q untouched_below [OF that, of "ie_db e"] by (simp add: settled_db_def below_queue)
  show ?thesis unfolding res
  proof (rule idb_invI [OF dequeue_wf(1) [OF \<open>idb_wf e\<close> q]])
    assume "ie_failure (e\<lparr>ie_queue := q\<rparr>) = None"
    then have m: "in_step k r c e" using idb_inv_step [OF inv] by simp
    have same: "held_at (e\<lparr>ie_queue := q\<rparr>) = held_at e" "live_checkpoint (e\<lparr>ie_queue := q\<rparr>) = live_checkpoint e"
      by (intro held_at_cong live_checkpoint_cong; simp)+
    have mono: "covers (late \<or> touches k tx) live stored'"
      if "covers late live stored" "\<And>v. stored = Some v \<Longrightarrow> stored' = Some v" "\<And>v. \<not> touches k tx \<Longrightarrow> stored' = Some v \<Longrightarrow> stored = Some v"
      for late and live stored stored' :: "'v option"
      using that by (cases live; cases stored; cases stored') (auto simp: covers_def)
    have "covers (r \<or> touches k tx) (map_option (row_for k) (held_at e k i)) (row_of (settled_db (e\<lparr>ie_queue := q\<rparr>)) (k, i))" for i
      by (rule mono [OF in_step_rows [OF m]]) (blast intro: belowD(1) [OF up] belowD(1) [OF down])+
    moreover have "covers (c \<or> touches k tx) (live_checkpoint e k) (jm_get (db_checkpoints (settled_db (e\<lparr>ie_queue := q\<rparr>))) k)"
      by (rule mono [OF in_step_checkpoint [OF m]]) (blast intro: belowD(2) [OF up] belowD(2) [OF down])+
    ultimately show "in_step k (falls_behind k (Abort tx x) r) (falls_behind k (Abort tx x) c) (e\<lparr>ie_queue := q\<rparr>)"
      by (simp add: in_step_def same TxPurge)
  qed
qed

lemma refresh_keeps:
  assumes inv: "idb_inv k r c e" and res: "idb_refresh X k' e = Some (e', out)"
  shows "idb_inv k r c e'"
proof (cases "e' = e")
  case False
  then have e': "e' = enqueue (TxReload k') e" using res by (auto simp: idb_refresh_def split: option.splits sum.splits if_splits)
  have "idb_wf e'" unfolding e' using inv by (intro enqueue_wf) (auto simp: idb_inv_def touches_def tx_wf_def)
  moreover have "in_step k r c e' = in_step k r c e" by (simp add: e' in_step_def settled_enqueue)
  ultimately show ?thesis using inv by (simp add: idb_inv_def e')
qed (use inv in simp)

lemma idb_step_keeps: "idb_step X e l e' \<Longrightarrow> idb_inv k r c e \<Longrightarrow> idb_inv k (falls_behind k l r) (falls_behind k l c) e'"
proof (induction rule: idb_step.induct)
  case (step_purge k' e e' out)
  then show ?case by (intro purge_keeps)
next
  case (step_commit e tx q)
  then show ?case by (intro commit_keeps)
next
  case (step_abort e tx q x)
  then show ?case by (intro abort_keeps)
next
  case (step_close e)
  then show ?case using idb_inv_cong [of "idb_close e" e] by (simp add: idb_close_def)
next
  case (step_drop e k)
  then show ?case by (simp add: idb_drop_def)
qed (simp_all add: open_keeps append_keeps checkpoint_keeps refresh_keeps)

lemma idb_steps_keep:
  "steps (idb_step X) e ls e' \<Longrightarrow> idb_inv k r c e \<Longrightarrow> idb_inv k (behind k ls r) (behind k ls c) e'"
  by (induction arbitrary: r c rule: steps.induct) (simp_all add: idb_step_keeps)

subsection \<open>Loading\<close>

definition cached_store :: "('c, 'x) idb_engine \<Rightarrow> jstr \<Rightarrow> 'c idb_store option" where
  "cached_store e k = map_option (\<lambda>a. ie_heap e ! a) (jm_get (ie_cache e) k)"

lemma held_at_store: "held_at e k i = (case cached_store e k of None \<Rightarrow> None | Some s \<Rightarrow> find (\<lambda>op. op_id op = i) (ib_ops s))"
  by (simp add: held_at_def cached_store_def split: option.split)

lemma cached_store_put: "idb_wf e \<Longrightarrow> cached_store (cache_store k ops cp e) k' =
    (if k' = k then Some \<lparr>ib_key = k, ib_ops = ops, ib_checkpoint = cp\<rparr> else cached_store e k')"
  using idb_wf_cacheD [of e k'] by (cases "jm_get (ie_cache e) k'") (auto simp: cached_store_def cache_store_def jm_get_set nth_append)

lemma group_row_get: "jm_get (group_row r m) k =
    (if k = or_instance r then Some ((case jm_get m k of None \<Rightarrow> [] | Some ops \<Rightarrow> ops) @ [or_op r]) else jm_get m k)"
  by (auto simp: group_row_def Let_def jm_get_set split: option.split)

lemma group_row_keys: "distinct (jm_keys m) \<Longrightarrow> distinct (jm_keys (group_row r m))"
  by (auto simp: group_row_def Let_def distinct_update split: option.split)

lemma group_rows_get: "jm_get (fold group_row rows m) k =
    (case jm_get m k of
       None \<Rightarrow> if filter (\<lambda>r. or_instance r = k) rows = [] then None else Some (map or_op (filter (\<lambda>r. or_instance r = k) rows))
     | Some ops \<Rightarrow> Some (ops @ map or_op (filter (\<lambda>r. or_instance r = k) rows)))"
  by (induction rows arbitrary: m) (auto simp: group_row_get split: option.split)

lemma group_rows_keys: "distinct (jm_keys m) \<Longrightarrow> distinct (jm_keys (fold group_row rows m))"
  by (induction rows arbitrary: m) (simp_all add: group_row_keys)

lemma load_stores:
  assumes "idb_wf e" "distinct (jm_keys gs)" "\<forall>(k, ops) \<in> set gs. distinct (map op_id ops)"
  shows "idb_wf (fold (\<lambda>(key, ops). cache_store key ops (cps key)) gs e)
    \<and> cached_store (fold (\<lambda>(key, ops). cache_store key ops (cps key)) gs e) k =
        (case jm_get gs k of Some ops \<Rightarrow> Some \<lparr>ib_key = k, ib_ops = ops, ib_checkpoint = cps k\<rparr> | None \<Rightarrow> cached_store e k)"
  using assms
proof (induction gs arbitrary: e)
  case (Cons g gs)
  obtain k' ops where g: "g = (k', ops)" by fastforce
  have wf: "idb_wf (cache_store k' ops (cps k') e)" using Cons.prems g by (intro cache_store_wf) auto
  have fresh: "jm_get gs k' = None" using Cons.prems g by (simp add: map_of_eq_None_iff)
  let ?e' = "cache_store k' ops (cps k') e"
  have ih: "idb_wf (fold (\<lambda>(key, ops). cache_store key ops (cps key)) gs ?e')
      \<and> cached_store (fold (\<lambda>(key, ops). cache_store key ops (cps key)) gs ?e') k =
          (case jm_get gs k of Some ops \<Rightarrow> Some \<lparr>ib_key = k, ib_ops = ops, ib_checkpoint = cps k\<rparr> | None \<Rightarrow> cached_store ?e' k)"
    using Cons.prems g by (intro Cons.IH [OF wf]) auto
  show ?case
  proof (cases "k = k'")
    case True
    with ih fresh cached_store_put [OF Cons.prems(1), of k' ops "cps k'" k] show ?thesis by (simp add: g)
  next
    case False
    with ih cached_store_put [OF Cons.prems(1), of k' ops "cps k'" k] show ?thesis by (simp add: g split: option.split)
  qed
qed simp

lemma load_frame:
  "ie_failure (fold (\<lambda>(key, ops). cache_store key ops (cps key)) gs e) = ie_failure e
    \<and> ie_db (fold (\<lambda>(key, ops). cache_store key ops (cps key)) gs e) = ie_db e
    \<and> ie_queue (fold (\<lambda>(key, ops). cache_store key ops (cps key)) gs e) = ie_queue e
    \<and> ie_closed (fold (\<lambda>(key, ops). cache_store key ops (cps key)) gs e) = ie_closed e"
  by (induction gs arbitrary: e) (simp_all add: split_beta)

lemma idb_load_frame [simp]: "ie_failure (idb_load d) = None" "ie_db (idb_load d) = d" "ie_queue (idb_load d) = []" "\<not> ie_closed (idb_load d)"
  unfolding idb_load_def by (simp_all only: load_frame idb_engine.select_convs simp_thms)

lemma idb_load_stores:
  fixes d :: "'c idb_db"
  assumes "db_wf d"
  shows "idb_wf (idb_load d :: ('c, 'x) idb_engine)
    \<and> cached_store (idb_load d :: ('c, 'x) idb_engine) k = (if instance_rows k d = [] then None
        else Some \<lparr>ib_key = k, ib_ops = instance_rows k d, ib_checkpoint = jm_get (db_checkpoints d) k\<rparr>)"
proof -
  let ?gs = "fold group_row (get_all_rows d) []"
  define e0 :: "('c, 'x) idb_engine" where
    "e0 = \<lparr>ie_heap = [], ie_cache = [], ie_failure = None, ie_db = d, ie_closed = False, ie_queue = []\<rparr>"
  have get: "jm_get ?gs k = (if instance_rows k d = [] then None else Some (instance_rows k d))" for k
    by (simp add: group_rows_get instance_rows_def)
  have keys: "distinct (jm_keys ?gs)" by (rule group_rows_keys) simp
  have ids: "\<forall>(k, ops) \<in> set ?gs. distinct (map op_id ops)"
    using keys instance_rows_sorted [OF assms] by (auto simp: jm_mem_get get split: if_splits)
  have wf0: "idb_wf e0" and none: "cached_store e0 k = None" for k
    using assms by (simp_all add: e0_def idb_wf_def cached_store_def)
  have "idb_load d = fold (\<lambda>(key, ops). cache_store key ops (jm_get (db_checkpoints d) key)) ?gs e0"
    by (simp add: idb_load_def e0_def)
  with load_stores [OF wf0 keys ids, of "jm_get (db_checkpoints d)" k] show ?thesis by (simp add: get none)
qed

lemmas idb_load_wf = idb_load_stores [THEN conjunct1]
lemmas idb_load_cached = idb_load_stores [THEN conjunct2]

text \<open>A checkpoint without any row of its instance is not loaded.\<close>

definition orphan_checkpoint :: "jstr \<Rightarrow> 'c idb_db \<Rightarrow> bool" where
  "orphan_checkpoint k d \<longleftrightarrow> instance_rows k d = [] \<and> jm_get (db_checkpoints d) k \<noteq> None"

lemma live_checkpoint_store: "live_checkpoint e k = (case cached_store e k of None \<Rightarrow> None | Some s \<Rightarrow> ib_checkpoint s)"
  by (simp add: live_checkpoint_def cached_store_def split: option.split)

lemma idb_load_inv:
  fixes d :: "'c idb_db"
  assumes "db_wf d"
  shows "idb_inv k False (orphan_checkpoint k d) (idb_load d :: ('c, 'x) idb_engine)"
proof (rule idb_invI [OF idb_load_wf [OF assms]])
  define e where "e = (idb_load d :: ('c, 'x) idb_engine)"
  have settled: "settled_db e = d" by (simp add: settled_db_def e_def)
  have cached: "cached_store e k = (if instance_rows k d = [] then None
      else Some \<lparr>ib_key = k, ib_ops = instance_rows k d, ib_checkpoint = jm_get (db_checkpoints d) k\<rparr>)"
    unfolding e_def by (rule idb_load_cached [OF assms])
  have rows: "row_of d (k, i) = map_option (row_for k) (held_at e k i)" for i
    using instance_rows_find [OF assms, of k i] by (cases "instance_rows k d = []") (simp_all add: held_at_store cached)
  have "covers (orphan_checkpoint k d) (live_checkpoint e k) (jm_get (db_checkpoints d) k)"
    by (auto simp: live_checkpoint_store cached orphan_checkpoint_def covers_def)
  with rows have "in_step k False (orphan_checkpoint k d) e" by (intro in_stepI) (simp_all add: settled)
  then show "in_step k False (orphan_checkpoint k d) (idb_load d :: ('c, 'x) idb_engine)" by (simp add: e_def)
qed

text \<open>Untracked transactions exist only after a failure.\<close>

lemma untracked_noted:
  "idb_step X e l e' \<Longrightarrow> (\<forall>ws. TxWrite False ws \<in> set (ie_queue e) \<longrightarrow> ie_failure e \<noteq> None)
    \<Longrightarrow> \<forall>ws. TxWrite False ws \<in> set (ie_queue e') \<longrightarrow> ie_failure e' \<noteq> None"
proof (induction rule: idb_step.induct)
  case (step_open e k)
  then show ?case by (simp add: idb_open_def Let_def split: option.split)
next
  case (step_append e a op)
  then show ?case by (auto simp: idb_append_def idb_put_def Let_def)
next
  case (step_checkpoint e a v)
  then show ?case by (auto simp: idb_checkpoint_def idb_save_checkpoint_def Let_def)
next
  case (step_purge k e e' out)
  then show ?case by (auto simp: idb_purge_def Let_def idb_clear_def split: option.splits if_splits)
next
  case (step_refresh k e e' r)
  then show ?case by (auto simp: idb_refresh_def split: option.splits sum.splits if_splits)
next
  case (step_commit e tx q)
  then show ?case by (auto simp: idb_commit_def Let_def split: idb_tx.splits)
next
  case (step_abort e tx q x)
  then show ?case by (auto simp: idb_abort_def split: idb_tx.splits)
qed (simp_all add: idb_drop_def idb_close_def)

subsection \<open>The seam\<close>

definition idb_if :: "('c, 'x) idb_platform \<Rightarrow> (('c, 'x) idb_engine, 'c) engine_if" where
  "idb_if X = \<lparr>ei_open = idb_open, ei_drop = idb_drop,
     ei_store = (\<lambda>a. \<lparr>si_append = idb_append X a, si_all = idb_all a,
        si_load_checkpoint = Some (idb_load_checkpoint a), si_save_checkpoint = Some (idb_checkpoint X a)\<rparr>)\<rparr>"

lemma idb_if_simps [simp]:
  "ei_open (idb_if X) = idb_open" "ei_drop (idb_if X) = idb_drop"
  "si_append (ei_store (idb_if X) a) = idb_append X a" "si_all (ei_store (idb_if X) a) = idb_all a"
  by (simp_all add: idb_if_def)

definition idb_live :: "('c, 'x) idb_engine \<Rightarrow> nat set" where
  "idb_live e = {a. a < length (ie_heap e)}"

definition idb_seam :: "('c, 'x) idb_engine \<Rightarrow> bool" where
  "idb_seam e \<longleftrightarrow> (\<forall>s \<in> set (ie_heap e). distinct (map op_id (ib_ops s)))
     \<and> (\<forall>k a. jm_get (ie_cache e) k = Some a \<longrightarrow> a < length (ie_heap e))"

lemma idb_put_heap [simp]: "ie_heap (idb_put X r e) = ie_heap e" "ie_cache (idb_put X r e) = ie_cache e"
  by (simp_all add: idb_put_def)

lemma idb_append_held: "op_id op \<in> op_id ` set (ib_ops (ie_heap e ! a)) \<Longrightarrow> idb_append X a op e = (e, AppendDuplicate)"
  by (auto simp: idb_append_def Let_def op_id_def)

lemma idb_append_fresh: "op_id op \<notin> op_id ` set (ib_ops (ie_heap e ! a)) \<Longrightarrow>
    snd (idb_append X a op e) = Appended
    \<and> ie_heap (fst (idb_append X a op e)) = (ie_heap e)[a := (ie_heap e ! a)\<lparr>ib_ops := ib_ops (ie_heap e ! a) @ [op]\<rparr>]
    \<and> ie_cache (fst (idb_append X a op e)) = ie_cache e"
  by (auto simp: idb_append_def Let_def op_id_def image_iff)

lemma idb_append_seam:
  assumes "idb_seam e" "a < length (ie_heap e)"
  shows "idb_seam (fst (idb_append X a op e))"
proof (cases "op_id op \<in> op_id ` set (ib_ops (ie_heap e ! a))")
  case False
  with assms idb_append_fresh [OF False, of X] show ?thesis
    by (auto simp: idb_seam_def dest!: set_update_subset_insert [THEN subsetD])
qed (use assms in \<open>simp add: idb_append_held\<close>)

interpretation idb_st: instance_store "ei_store (idb_if X) a" "\<lambda>e. idb_seam e \<and> a \<in> idb_live e"
  for X :: "('c, 'x) idb_platform" and a
proof (unfold_locales, goal_cases)
  case (1 e op)
  then show ?case
    using idb_append_fresh [of op e a X] idb_append_seam [of e a X op]
    by (cases "idb_append X a op e") (simp add: idb_live_def idb_all_def)
next
  case (2 e op)
  then show ?case by (simp add: idb_append_held idb_all_def)
next
  case (3 e)
  then show ?case by (simp add: idb_seam_def idb_live_def idb_all_def)
qed

interpretation idb_eng: store_engine "idb_if X" idb_seam idb_live for X :: "('c, 'x) idb_platform"
proof (unfold_locales, goal_cases)
  case (1 e k e' a)
  then show ?case
    by (auto simp: idb_open_def idb_live_def idb_all_def Let_def nth_append idb_seam_def jm_get_set less_Suc_eq split: option.splits if_splits)
next
  case (2 e k e' a)
  then show ?case by (auto simp: idb_open_def Let_def jm_get_set split: option.splits)
next
  case (3 e k)
  then show ?case by (simp add: idb_drop_def)
next
  case (4 e a b op)
  then show ?case using idb_append_fresh [of op e a X]
    by (cases "op_id op \<in> op_id ` set (ib_ops (ie_heap e ! a))") (simp_all add: idb_append_held idb_all_def)
next
  case (5 e a op)
  then show ?case using idb_append_fresh [of op e a X]
    by (cases "op_id op \<in> op_id ` set (ib_ops (ie_heap e ! a))") (simp_all add: idb_append_held idb_live_def)
qed

subsection \<open>Against the memory engine\<close>

text \<open>Calls through the seam, each opening the store of its key first.\<close>

datatype seam_call = CallOpen jstr | CallAppend jstr stored_op | CallAll jstr

datatype seam_result = AtAddress nat | AppendResult append_outcome | AllResult "stored_op list"

fun run_call :: "('e, 'c) engine_if \<Rightarrow> seam_call \<Rightarrow> 'e \<Rightarrow> 'e \<times> seam_result" where
  "run_call E (CallOpen k) e = (let (e', a) = ei_open E k e in (e', AtAddress a))"
| "run_call E (CallAppend k op) e =
     (let (e1, a) = ei_open E k e; (e2, out) = si_append (ei_store E a) op e1 in (e2, AppendResult out))"
| "run_call E (CallAll k) e = (let (e', a) = ei_open E k e in (e', AllResult (si_all (ei_store E a) e')))"

fun seam_run :: "('e, 'c) engine_if \<Rightarrow> seam_call list \<Rightarrow> 'e \<Rightarrow> seam_result list" where
  "seam_run E [] e = []"
| "seam_run E (c # cs) e = (let (e', r) = run_call E c e in r # seam_run E cs e')"

text \<open>The same calls on the persistent engine, with what the platform does in between.\<close>

datatype 'x seam_item = Call seam_call | TxCommits | TxAborts 'x | DbCloses

fun calls_of :: "'x seam_item list \<Rightarrow> seam_call list" where
  "calls_of [] = []"
| "calls_of (Call c # is) = c # calls_of is"
| "calls_of (_ # is) = calls_of is"

fun idb_seam_run :: "('c, 'x) idb_platform \<Rightarrow> 'x seam_item list \<Rightarrow> ('c, 'x) idb_engine \<Rightarrow> seam_result list" where
  "idb_seam_run X [] e = []"
| "idb_seam_run X (Call c # is) e = (let (e', r) = run_call (idb_if X) c e in r # idb_seam_run X is e')"
| "idb_seam_run X (TxCommits # is) e = idb_seam_run X is (idb_commit e)"
| "idb_seam_run X (TxAborts x # is) e = idb_seam_run X is (idb_abort x e)"
| "idb_seam_run X (DbCloses # is) e = idb_seam_run X is (idb_close e)"

definition seam_sim :: "('c, 'x) idb_engine \<Rightarrow> mem_engine \<Rightarrow> bool" where
  "seam_sim e m \<longleftrightarrow> map ib_ops (ie_heap e) = map ms_ops (me_heap m) \<and> ie_cache e = me_stores m
     \<and> (\<forall>k. TxReload k \<notin> set (ie_queue e)) \<and> (\<forall>k a. jm_get (ie_cache e) k = Some a \<longrightarrow> a < length (ie_heap e))"

lemma seam_sim_at: "seam_sim e m \<Longrightarrow> a < length (ie_heap e) \<Longrightarrow> ib_ops (ie_heap e ! a) = ms_ops (me_heap m ! a)"
  by (metis length_map nth_map seam_sim_def)

lemma seam_sim_length: "seam_sim e m \<Longrightarrow> length (ie_heap e) = length (me_heap m)"
  by (metis length_map seam_sim_def)

lemma seam_sim_open:
  assumes "seam_sim e m"
  shows "snd (idb_open k e) = snd (mem_open k m) \<and> seam_sim (fst (idb_open k e)) (fst (mem_open k m))
    \<and> snd (idb_open k e) < length (ie_heap (fst (idb_open k e)))"
  using assms seam_sim_length [OF assms]
  by (auto simp: idb_open_def mem_open_def Let_def seam_sim_def jm_get_set less_Suc_eq split: option.split)

lemma seam_sim_append:
  assumes sim: "seam_sim e m" and a: "a < length (ie_heap e)"
  shows "snd (idb_append X a op e) = snd (mem_append_at a op m) \<and> seam_sim (fst (idb_append X a op e)) (fst (mem_append_at a op m))"
proof (cases "op_id op \<in> op_id ` set (ib_ops (ie_heap e ! a))")
  case True
  with sim seam_sim_at [OF sim a] show ?thesis by (simp add: idb_append_held mem_append_at_eq)
next
  case False
  have "TxReload k \<notin> set (ie_queue (fst (idb_append X a op e)))" for k
    using sim False by (auto simp: seam_sim_def idb_append_def idb_put_def Let_def op_id_def)
  with idb_append_fresh [OF False, of X] False sim seam_sim_at [OF sim a] show ?thesis
    by (simp add: mem_append_at_eq seam_sim_def map_update)
qed

lemma seam_sim_call:
  fixes e :: "('c, 'x) idb_engine"
  assumes "seam_sim e m"
  shows "snd (run_call (idb_if X) c e) = snd (run_call (mem_if :: (mem_engine, 'd) engine_if) c m)
    \<and> seam_sim (fst (run_call (idb_if X) c e)) (fst (run_call (mem_if :: (mem_engine, 'd) engine_if) c m))"
proof (cases c)
  case (CallOpen k)
  with seam_sim_open [OF assms, of k] show ?thesis by (simp add: split_beta)
next
  case (CallAppend k op)
  with seam_sim_open [OF assms, of k] seam_sim_append [of "fst (idb_open k e)" "fst (mem_open k m)" "snd (idb_open k e)" X op]
  show ?thesis by (simp add: split_beta)
next
  case (CallAll k)
  with seam_sim_open [OF assms, of k] seam_sim_at [of "fst (idb_open k e)" "fst (mem_open k m)" "snd (idb_open k e)"]
  show ?thesis by (simp add: split_beta idb_all_def)
qed

lemma seam_sim_env:
  assumes "seam_sim e m"
  shows "seam_sim (idb_commit e) m" "seam_sim (idb_abort x e) m" "seam_sim (idb_close e) m"
  using assms by (auto simp: seam_sim_def idb_commit_def idb_abort_def idb_close_def Let_def split: list.split idb_tx.split)

lemma seam_sim_run:
  fixes e :: "('c, 'x) idb_engine"
  shows "seam_sim e m \<Longrightarrow> idb_seam_run X is e = seam_run (mem_if :: (mem_engine, 'd) engine_if) (calls_of is) m"
proof (induction X "is" e arbitrary: m rule: idb_seam_run.induct)
  case (2 X c "is" e)
  note sim = seam_sim_call [OF 2(2), of X c, where 'd = 'd]
  have "idb_seam_run X is (fst (run_call (idb_if X) c e))
      = seam_run (mem_if :: (mem_engine, 'd) engine_if) (calls_of is) (fst (run_call (mem_if :: (mem_engine, 'd) engine_if) c m))"
    using sim by (intro 2(1) [OF refl prod.collapse]) blast
  with sim show ?case by (simp add: split_beta)
qed (simp_all add: seam_sim_env)

subsection \<open>Properties\<close>

lemma idb_run_inv: "db_wf d \<Longrightarrow> steps (idb_step X) (idb_load d) ls e \<Longrightarrow> idb_inv k (behind k ls False) (behind k ls (orphan_checkpoint k d)) e"
  by (rule idb_steps_keep [OF _ idb_load_inv])

lemma idb_run_untracked: "steps (idb_step X) (idb_load d) ls e \<Longrightarrow> \<forall>ws. TxWrite False ws \<in> set (ie_queue e) \<longrightarrow> ie_failure e \<noteq> None"
  by (erule steps_invariant [where I = "\<lambda>e. \<forall>ws. TxWrite False ws \<in> set (ie_queue e) \<longrightarrow> ie_failure e \<noteq> None"])
    (simp, rule untracked_noted)

lemma sort_by_id:
  assumes "sorted (map op_id xs)" "distinct (map op_id xs)" "distinct (map op_id ys)" "set xs = set ys"
  shows "xs = sort_key op_id ys"
proof (rule map_inj_on)
  have ms: "mset xs = mset ys" by (rule set_eq_map_distinct_mset [OF assms(2,3,4)])
  have "sort (map op_id ys) = map op_id xs" by (rule properties_for_sort) (simp_all add: ms assms(1))
  moreover have "sort (map op_id ys) = map op_id (sort_key op_id ys)" by (rule properties_for_sort) simp_all
  ultimately show "map op_id xs = map op_id (sort_key op_id ys)" by simp
  show "inj_on op_id (set xs \<union> set (sort_key op_id ys))" using assms by (simp add: distinct_map)
qed

lemma row_for_inj: "row_for k op = row_for k op' \<longleftrightarrow> op = op'"
  by (auto simp: row_for_def)

lemma flush_checked_none: "idb_flush_checked e = Some (Inr ()) \<Longrightarrow> ie_failure e = None"
  by (auto simp: idb_flush_checked_def split: if_splits option.splits)

lemma flushed_quiet:
  assumes "idb_flush_checked e = Some (Inr ())" "\<forall>ws. TxWrite False ws \<in> set (ie_queue e) \<longrightarrow> ie_failure e \<noteq> None"
    and "\<forall>ws. TxPurge ws \<in> set (ie_queue e) \<longrightarrow> \<not> touches k (TxPurge ws)"
  shows "\<forall>tx \<in> set (ie_queue e). \<not> touches k tx"
proof
  fix tx assume tx: "tx \<in> set (ie_queue e)"
  have none: "ie_failure e = None" and pend: "idb_pending e = []"
    using assms(1) by (auto simp: idb_flush_checked_def split: if_splits option.splits)
  show "\<not> touches k tx"
  proof (cases tx)
    case (TxWrite tr ws)
    with tx pend assms(2) none show ?thesis by (cases tr) (auto simp: idb_pending_def filter_empty_conv)
  qed (use tx assms(3) in \<open>auto simp: touches_def\<close>)
qed

lemma open_cached:
  assumes "idb_wf e" "idb_open k e = (e1, a)"
  shows "idb_all a e1 = (case cached_store e k of None \<Rightarrow> [] | Some s \<Rightarrow> ib_ops s)
    \<and> idb_load_checkpoint a e1 = (case cached_store e k of None \<Rightarrow> None | Some s \<Rightarrow> ib_checkpoint s)"
  using assms by (auto simp: idb_open_def cached_store_def idb_all_def idb_load_checkpoint_def Let_def split: option.splits)

lemma held_after_open: "idb_wf e \<Longrightarrow> idb_open k e = (e1, a) \<Longrightarrow> held_at e k i = find (\<lambda>op. op_id op = i) (idb_all a e1)"
  using open_cached [of e k e1 a] by (simp add: held_at_store split: option.split)

lemma open_distinct: "idb_wf e \<Longrightarrow> idb_open k e = (e1, a) \<Longrightarrow> distinct (map op_id (idb_all a e1))"
  using open_cached [of e k e1 a] idb_wf_distinct [of e] idb_wf_cacheD [of e k] by (auto simp: cached_store_def split: option.splits)

lemma open_loaded:
  fixes f1 :: "('c, 'x) idb_engine"
  assumes "db_wf d" "idb_open k (idb_load d) = (f1, b)"
  shows "idb_all b f1 = instance_rows k d"
    "idb_load_checkpoint b f1 = (if instance_rows k d = [] then None else jm_get (db_checkpoints d) k)"
  using open_cached [OF idb_load_wf [OF assms(1)] assms(2)] idb_load_cached [OF assms(1), of k, where 'x = 'x] by simp_all

text \<open>C5. Durability: from any database and through any interleaving of opens, appends, checkpoints,
  purges, refreshes, a close and the database's commits and aborts, once \<open>flushChecked\<close>
  returns without a failure and no purge of the instance is under way, a fresh engine on the database serves
  all operations of the instance that this engine serves, in the order of origin and sequence, and
  its last checkpoint when it has any operation. Unless a purge of the instance was rejected or aborted since its
  last completed refresh (which \<open>flushChecked\<close> does not report), it serves no other operation; and no other
  checkpoint either, unless the first database had a checkpoint for the instance without any operation.\<close>

theorem flush_checked_durable:
  fixes d :: "'c idb_db" and e e1 f1 :: "('c, 'x) idb_engine"
  assumes "db_wf d" "steps (idb_step X) (idb_load d) ls e"
    and "idb_flush_checked e = Some (Inr ())" "\<forall>ws. TxPurge ws \<in> set (ie_queue e) \<longrightarrow> \<not> touches k (TxPurge ws)"
    and "idb_open k e = (e1, a)" "idb_open k (idb_load (ie_db e)) = (f1, b)"
  shows "set (idb_all a e1) \<subseteq> set (idb_all b f1) \<and> sorted (map op_id (idb_all b f1)) \<and> distinct (map op_id (idb_all b f1))
    \<and> (\<forall>v. idb_load_checkpoint a e1 = Some v \<and> idb_all a e1 \<noteq> [] \<longrightarrow> idb_load_checkpoint b f1 = Some v)
    \<and> (\<not> behind k ls False \<longrightarrow> idb_all b f1 = sort_key op_id (idb_all a e1))
    \<and> (\<not> behind k ls (orphan_checkpoint k d) \<longrightarrow>
         idb_load_checkpoint b f1 = (if idb_all a e1 = [] then None else idb_load_checkpoint a e1))"
proof -
  note inv = idb_run_inv [OF assms(1,2), of k]
  have wf: "idb_wf e" by (rule idb_inv_wf [OF inv])
  then have d: "db_wf (ie_db e)" by (simp add: idb_wf_def)
  have none: "ie_failure e = None" using assms(3) by (rule flush_checked_none)
  have quiet: "\<forall>tx \<in> set (ie_queue e). \<not> touches k tx"
    by (rule flushed_quiet [OF assms(3) idb_run_untracked [OF assms(2)] assms(4)])
  have m: "in_step k (behind k ls False) (behind k ls (orphan_checkpoint k d)) e" by (rule idb_inv_step [OF inv none])
  have rows: "covers (behind k ls False) (map_option (row_for k) (find (\<lambda>op. op_id op = i) (idb_all a e1))) (row_of (ie_db e) (k, i))" for i
    using in_step_rows [OF m, of i] untouched_queue [OF quiet, of "ie_db e" i] held_after_open [OF wf assms(5)] by (simp add: settled_db_def)
  have cp: "covers (behind k ls (orphan_checkpoint k d)) (idb_load_checkpoint a e1) (jm_get (db_checkpoints (ie_db e)) k)"
    using in_step_checkpoint [OF m] untouched_queue [OF quiet, of "ie_db e"] open_cached [OF wf assms(5)]
    by (simp add: settled_db_def live_checkpoint_store)
  have ids: "distinct (map op_id (idb_all a e1))" by (rule open_distinct [OF wf assms(5)])
  have sub: "set (idb_all a e1) \<subseteq> set (instance_rows k (ie_db e))"
  proof
    fix op assume "op \<in> set (idb_all a e1)"
    with ids have "find (\<lambda>o'. op_id o' = op_id op) (idb_all a e1) = Some op" by (simp add: find_id_iff)
    with rows [of "op_id op"] show "op \<in> set (instance_rows k (ie_db e))" by (simp add: instance_rows_mem [OF d] covers_Some)
  qed
  have exact: "instance_rows k (ie_db e) = sort_key op_id (idb_all a e1)" if "\<not> behind k ls False"
  proof -
    have "op \<in> set (instance_rows k (ie_db e)) \<longleftrightarrow> op \<in> set (idb_all a e1)" for op
      using rows [of "op_id op"] that ids by (auto simp: instance_rows_mem [OF d] covers_False row_for_inj find_id_iff)
    then show ?thesis using instance_rows_sorted [OF d] ids by (intro sort_by_id) auto
  qed
  note loaded = open_loaded [OF d assms(6)]
  show ?thesis
  proof (intro conjI allI impI)
    show "set (idb_all a e1) \<subseteq> set (idb_all b f1)" "sorted (map op_id (idb_all b f1))" "distinct (map op_id (idb_all b f1))"
      using sub instance_rows_sorted [OF d] loaded by simp_all
    show "idb_load_checkpoint b f1 = Some v" if "idb_load_checkpoint a e1 = Some v \<and> idb_all a e1 \<noteq> []" for v
      using that sub cp loaded by (auto simp: covers_Some)
    show "idb_all b f1 = sort_key op_id (idb_all a e1)" if "\<not> behind k ls False"
      using exact [OF that] loaded by simp
    show "idb_load_checkpoint b f1 = (if idb_all a e1 = [] then None else idb_load_checkpoint a e1)"
      if late: "\<not> behind k ls (orphan_checkpoint k d)"
    proof -
      have "\<not> behind k ls False" using late behind_mono [of k ls False] by blast
      from exact [OF this] have "instance_rows k (ie_db e) = [] \<longleftrightarrow> idb_all a e1 = []" by (metis set_empty set_sort)
      with cp late loaded show ?thesis by (simp add: covers_False)
    qed
  qed
qed

text \<open>A run for the witnesses: two appends out of key order, both committed.\<close>

definition idb_sample_op :: "16 word \<Rightarrow> stored_op" where
  "idb_sample_op w = \<lparr>op_origin = [w], op_seq = 1, op_lamport = 1, op_prev = None, op_refs = None, op_payload = [],
     op_share = None, op_glade_id = None, op_key = None\<rparr>"

definition idb_sample :: "(unit, unit) idb_platform" where
  "idb_sample = \<lparr>pl_closed = (), pl_clone = (), pl_cloneable = (\<lambda>_. True)\<rparr>"

definition idb_sample_row :: "16 word \<Rightarrow> row_key \<times> op_row" where
  "idb_sample_row w = (([1], [w], 1), row_for [1] (idb_sample_op w))"

definition idb_sample_engine :: "16 word list \<Rightarrow> 16 word list \<Rightarrow> 16 word list \<Rightarrow> (unit, unit) idb_engine" where
  "idb_sample_engine held queued stored =
     \<lparr>ie_heap = [\<lparr>ib_key = [1], ib_ops = map idb_sample_op held, ib_checkpoint = None\<rparr>], ie_cache = [([1], 0)], ie_failure = None,
      ie_db = \<lparr>db_rows = map idb_sample_row stored, db_checkpoints = []\<rparr>, ie_closed = False,
      ie_queue = map (\<lambda>w. TxWrite True [PutRow (row_for [1] (idb_sample_op w))]) queued\<rparr>"

lemma idb_sample_steps:
  "fst (idb_open [1] (idb_load \<lparr>db_rows = [], db_checkpoints = []\<rparr>)) = idb_sample_engine [] [] []"
  "fst (idb_append idb_sample 0 (idb_sample_op 2) (idb_sample_engine [] [] [])) = idb_sample_engine [2] [2] []"
  "fst (idb_append idb_sample 0 (idb_sample_op 1) (idb_sample_engine [2] [2] [])) = idb_sample_engine [2, 1] [2, 1] []"
  "idb_commit (idb_sample_engine [2, 1] [2, 1] []) = idb_sample_engine [2, 1] [1] [2]"
  "idb_commit (idb_sample_engine [2, 1] [1] [2]) = idb_sample_engine [2, 1] [] [2, 1]"
  by (simp_all add: idb_open_def idb_load_def get_all_rows_def idb_sample_engine_def idb_append_def idb_put_def enqueue_def idb_sample_op_def
      idb_commit_def run_writes_def idb_sample_row_def key_of_row_for)

lemma idb_sample_run:
  "steps (idb_step idb_sample) (idb_load \<lparr>db_rows = [], db_checkpoints = []\<rparr>)
     [DoOpen [1], DoAppend 0 (idb_sample_op 2), DoAppend 0 (idb_sample_op 1),
      Commit (TxWrite True [PutRow (row_for [1] (idb_sample_op 2))]), Commit (TxWrite True [PutRow (row_for [1] (idb_sample_op 1))])] (idb_sample_engine [2, 1] [] [2, 1])"
proof -
  note S = idb_sample_steps
  have "idb_step idb_sample (idb_load \<lparr>db_rows = [], db_checkpoints = []\<rparr>) (DoOpen [1]) (idb_sample_engine [] [] [])"
    using step_open [of idb_sample _ "[1]"] S(1) by metis
  moreover have "idb_step idb_sample (idb_sample_engine [] [] []) (DoAppend 0 (idb_sample_op 2)) (idb_sample_engine [2] [2] [])"
    using step_append [of "idb_sample_engine [] [] []" 0 idb_sample "idb_sample_op 2"] S(2) by (simp add: idb_owns_def idb_sample_engine_def)
  moreover have "idb_step idb_sample (idb_sample_engine [2] [2] []) (DoAppend 0 (idb_sample_op 1)) (idb_sample_engine [2, 1] [2, 1] [])"
    using step_append [of "idb_sample_engine [2] [2] []" 0 idb_sample "idb_sample_op 1"] S(3) by (simp add: idb_owns_def idb_sample_engine_def)
  moreover have "idb_step idb_sample (idb_sample_engine [2, 1] [2, 1] []) (Commit (TxWrite True [PutRow (row_for [1] (idb_sample_op 2))])) (idb_sample_engine [2, 1] [1] [2])"
    using step_commit [of "idb_sample_engine [2, 1] [2, 1] []" "TxWrite True [PutRow (row_for [1] (idb_sample_op 2))]" "[TxWrite True [PutRow (row_for [1] (idb_sample_op 1))]]" idb_sample] S(4) by (simp add: idb_sample_engine_def)
  moreover have "idb_step idb_sample (idb_sample_engine [2, 1] [1] [2]) (Commit (TxWrite True [PutRow (row_for [1] (idb_sample_op 1))])) (idb_sample_engine [2, 1] [] [2, 1])"
    using step_commit [of "idb_sample_engine [2, 1] [1] [2]" "TxWrite True [PutRow (row_for [1] (idb_sample_op 1))]" "[]" idb_sample] S(5) by (simp add: idb_sample_engine_def)
  ultimately show ?thesis by (blast intro: steps.intros)
qed

theorem flush_checked_durable_witness:
  "\<exists>f1 b. idb_open [1] (idb_load (ie_db (idb_sample_engine [2, 1] [] [2, 1])) :: (unit, unit) idb_engine) = (f1, b)
     \<and> idb_all b f1 = sort_key op_id [idb_sample_op 2, idb_sample_op 1] \<and> idb_load_checkpoint b f1 = None"
proof -
  let ?e = "idb_sample_engine [2, 1] [] [2, 1]"
  obtain f1 b where f: "idb_open [1] (idb_load (ie_db ?e) :: (unit, unit) idb_engine) = (f1, b)" by fastforce
  have open_e: "idb_open [1] ?e = (?e, 0)" and flush: "idb_flush_checked ?e = Some (Inr ())" and queue: "ie_queue ?e = []"
    by (simp_all add: idb_open_def idb_flush_checked_def idb_pending_def idb_sample_engine_def)
  have wf: "db_wf \<lparr>db_rows = [], db_checkpoints = []\<rparr>" by (simp add: db_wf_def)
  have late: "orphan_checkpoint [1] \<lparr>db_rows = [], db_checkpoints = []\<rparr> \<longleftrightarrow> False" by (simp add: orphan_checkpoint_def)
  note D = flush_checked_durable [OF wf idb_sample_run flush _ open_e f, unfolded queue late behind_simps falls_behind.simps]
  have "idb_all b f1 = sort_key op_id (idb_all 0 ?e)" "idb_load_checkpoint b f1 = (if idb_all 0 ?e = [] then None else idb_load_checkpoint 0 ?e)"
    using D by simp_all
  with f show ?thesis by (simp add: idb_all_def idb_load_checkpoint_def idb_sample_engine_def)
qed

text \<open>
  The case that \<open>flushChecked\<close> misses: a purge whose transaction aborts empties the running engine's
  instance, leaves every row in the database and notes no failure, so a fresh engine serves the purged
  operations again.
\<close>

lemma aborted_purge_survives:
  assumes "ie_queue e = []" "\<not> ie_closed e" "idb_flush_checked e = Some (Inr ())" "jm_get (ie_cache e) k = Some a" "a < length (ie_heap e)"
  shows "\<exists>tx e'. steps (idb_step X) e [DoPurge k (Inr ()), Abort tx x] e' \<and> idb_flush_checked e' = Some (Inr ())
    \<and> idb_all a e' = [] \<and> ie_queue e' = [] \<and> ie_db e' = ie_db e"
proof -
  let ?tx = "TxPurge (DeleteCheckpoint k # map (\<lambda>op. DeleteRow (k, op_origin op, op_seq op)) (idb_all a e))"
  have purge: "idb_purge X k e = (enqueue ?tx (idb_clear a e), Inr ())"
    using assms(2,4) by (simp add: idb_purge_def Let_def idb_clear_def)
  have "idb_step X e (DoPurge k (Inr ())) (enqueue ?tx (idb_clear a e))" using assms(1) by (intro step_purge purge) simp
  moreover have queue: "ie_queue (enqueue ?tx (idb_clear a e)) = [?tx]" using assms(1) by (simp add: idb_clear_def)
  moreover have "idb_step X (enqueue ?tx (idb_clear a e)) (Abort ?tx x) (idb_abort x (enqueue ?tx (idb_clear a e)))"
    by (rule step_abort [OF queue])
  ultimately have run: "steps (idb_step X) e [DoPurge k (Inr ()), Abort ?tx x] (idb_abort x (enqueue ?tx (idb_clear a e)))"
    by (blast intro: steps.intros)
  have abort: "idb_abort x (enqueue ?tx (idb_clear a e)) = idb_clear a e"
    using queue assms(1) by (simp add: idb_abort_def enqueue_def idb_clear_def)
  have "idb_flush_checked (idb_clear a e) = Some (Inr ())" "idb_all a (idb_clear a e) = []" "ie_queue (idb_clear a e) = []"
      "ie_db (idb_clear a e) = ie_db e"
    using assms(1,3,5) by (simp_all add: idb_flush_checked_def idb_pending_def idb_clear_def idb_all_def split: option.splits)
  with run show ?thesis unfolding abort by blast
qed

text \<open>And a checkpoint that was saved without operations is not loaded, nor deleted by a purge.\<close>

lemma orphan_checkpoint_kept:
  fixes d :: "'c idb_db"
  assumes "db_wf d" "orphan_checkpoint k d"
  shows "idb_purge X k (idb_load d :: ('c, 'x) idb_engine) = (idb_load d, Inr ())"
proof -
  have "cached_store (idb_load d :: ('c, 'x) idb_engine) k = None" using assms by (simp add: idb_load_cached orphan_checkpoint_def)
  then show ?thesis by (simp add: idb_purge_def cached_store_def)
qed

text \<open>C35. The seam: however the database commits, aborts with errors or closes in between, a
  sequence of opens, appends and reads on the persistent engine answers exactly what the memory
  engine answers, so persistence can fail without the application noticing.\<close>

theorem idb_matches_memory:
  "idb_seam_run X is (idb_load \<lparr>db_rows = [], db_checkpoints = []\<rparr> :: ('c, 'x) idb_engine)
     = seam_run (mem_if :: (mem_engine, 'd) engine_if) (calls_of is) mem_engine_new"
  by (rule seam_sim_run) (simp add: seam_sim_def idb_load_def get_all_rows_def mem_engine_new_def)

end
