(* ===== verification/Supplier.thy ===== *)
theory Supplier
  imports Shapes Bytes Steps Complex_Main
begin

text \<open>
  The supplier kit of \<open>src/supplier/index.ts\<close>: an authority session that serves surfaces, either
  as the provider of an exchange (\<open>ExchangeServing\<close>) or by publishing into a value or log surface
  (\<open>ShareServing\<close>), and reattaches every serving when the link drops.

  The code is asynchronous. The model has one state with the servings, the handlers registered
  with the session (\<open>su_hooks\<close>), the pending timers of the injected scheduler and the running
  asynchronous functions (\<open>su_tasks\<close>), each suspended at one of its \<open>await\<close>s. What the
  environment decides (a promise that settles, a timer that fires, a dropped link, a frame that
  arrives, a client's call) is a labelled step, and tasks are resumed in any order, which includes
  the orders that the event loop of the language allows. Servings are objects, so they live in a heap
  and the supplier's set holds addresses.
\<close>

subsection \<open>Surfaces, requests and answers\<close>

record supplier_surface =
  sf_glade_id :: jstr
  sf_shape :: jstr
  sf_share :: jstr
  sf_key :: "bytes option"

record supplier_op =
  so_share :: jstr
  so_glade_id :: jstr
  so_key :: "bytes option"
  so_origin :: jstr
  so_seq :: int
  so_payload :: bytes

record exchange_request =
  xq_share :: jstr
  xq_glade_id :: jstr
  xq_corr :: jstr
  xq_payload :: bytes

record exchange_answer =
  xa_ok :: "bool option"
  xa_payload :: "bytes option"
  xa_error :: "jstr option"

record exchange_reply =
  xr_corr :: jstr
  xr_ok :: bool
  xr_payload :: "bytes option"
  xr_error :: "jstr option"

definition surface_key :: "supplier_surface \<Rightarrow> bytes option" where
  "surface_key s = (case sf_key s of None \<Rightarrow> None | Some k \<Rightarrow> if length k \<noteq> 0 then Some k else None)"

record backoff_config =
  bk_initial_ms :: "real option"
  bk_factor :: "real option"
  bk_max_ms :: "real option"

definition default_to :: "'a \<Rightarrow> 'a option \<Rightarrow> 'a" where
  "default_to d x = (case x of None \<Rightarrow> d | Some v \<Rightarrow> v)"

definition backoff_ms :: "backoff_config option \<Rightarrow> nat \<Rightarrow> real" where
  "backoff_ms cfg attempt =
     (let initial = default_to 250 (Option.bind cfg bk_initial_ms);
          factor = default_to 2 (Option.bind cfg bk_factor);
          max_ms = default_to 10000 (Option.bind cfg bk_max_ms)
      in min max_ms (initial * factor ^ attempt))"

text \<open>
  The answer to a request that \<open>onReq\<close> accepted: the handler's answer or its error (as the
  string the code makes of it), and for each call of \<open>respondExchange\<close> whether it throws and
  with what; the result are the calls made.
\<close>

definition answer_request :: "exchange_request \<Rightarrow> jstr + exchange_answer \<Rightarrow> jstr option \<Rightarrow> exchange_reply list" where
  "answer_request rq outcome respond_throws =
     (let failed = (\<lambda>e. \<lparr>xr_corr = xq_corr rq, xr_ok = False, xr_payload = None, xr_error = Some e\<rparr>) in
      case outcome of
        Inl e \<Rightarrow> [failed e]
      | Inr ans \<Rightarrow>
          (let reply = \<lparr>xr_corr = xq_corr rq, xr_ok = default_to (xa_error ans = None) (xa_ok ans),
                         xr_payload = xa_payload ans, xr_error = xa_error ans\<rparr>
           in reply # (case respond_throws of None \<Rightarrow> [] | Some e \<Rightarrow> [failed e])))"

subsection \<open>The state\<close>

datatype serving_kind = ExchangeServing | ShareServing shape_adapter

record serving =
  sv_kind :: serving_kind
  sv_surface :: supplier_surface
  sv_off :: "nat option"
  sv_detached :: bool
  sv_generation :: nat

text \<open>
  A handler registered with the session: its registration, and the serving and generation that its
  closure captured.
\<close>

record hook =
  hk_id :: nat
  hk_serving :: nat
  hk_generation :: nat

text \<open>
  Where an asynchronous function is suspended: at \<open>await ensureHello()\<close>, inside \<open>attach\<close> of a
  serving at \<open>await subscribe(\<dots>)\<close> with the generation it took, or at \<open>await attach()\<close> after
  that call returned (\<open>True\<close>) or threw. \<open>ReattachAll\<close> also knows which servings its iteration
  over the set has reached.
\<close>

datatype attach_phase = AwaitHello | AwaitSubscribe nat nat | AwaitAttach nat bool

datatype task = AttachOne nat attach_phase | ReattachAll "nat list" attach_phase

record supplier_config =
  cf_says_hello :: bool
  cf_backoff :: "backoff_config option"

record supplier =
  su_heap :: "serving list"
  su_servings :: "nat list"
  su_drop_on :: bool
  su_cancel :: "nat option"
  su_attempt :: nat
  su_helloed :: bool
  su_detached :: bool
  su_hellos :: nat
  su_fresh :: nat
  su_hooks :: "hook list"
  su_timers :: "(nat \<times> real) list"
  su_tasks :: "task list"

definition attach_supplier :: "bool \<Rightarrow> supplier" where
  "attach_supplier signals_drop =
     \<lparr>su_heap = [], su_servings = [], su_drop_on = signals_drop, su_cancel = None, su_attempt = 0, su_helloed = False,
      su_detached = False, su_hellos = 0, su_fresh = 0, su_hooks = [], su_timers = [], su_tasks = []\<rparr>"

text \<open>\<open>this.reqOff?.()\<close>: the registration is removed from the session.\<close>

definition call_off :: "nat option \<Rightarrow> supplier \<Rightarrow> supplier" where
  "call_off off s = (case off of None \<Rightarrow> s | Some h \<Rightarrow> s\<lparr>su_hooks := filter (\<lambda>k. hk_id k \<noteq> h) (su_hooks s)\<rparr>)"

definition set_serving :: "nat \<Rightarrow> (serving \<Rightarrow> serving) \<Rightarrow> supplier \<Rightarrow> supplier" where
  "set_serving a f s = s\<lparr>su_heap := (su_heap s)[a := f (su_heap s ! a)]\<rparr>"

subsection \<open>Exchange servings\<close>

text \<open>
  \<open>attach\<close> up to its \<open>await\<close>: \<open>None\<close> when it returns at once, else the generation it took.
  What the \<open>await\<close> and the calls after it do is the outcome with which \<open>exchange_attached\<close>
  goes on; its flag says whether the promise of \<open>attach\<close> resolves.
\<close>

datatype attach_outcome = Subscribed | SubscribeFailed | HookThrows | ServeThrows

definition exchange_attach :: "nat \<Rightarrow> supplier \<Rightarrow> supplier \<times> nat option" where
  "exchange_attach a s =
     (let sv = su_heap s ! a in
      if sv_detached sv then (s, None)
      else let generation = sv_generation sv + 1 in
        (set_serving a (\<lambda>sv. sv\<lparr>sv_generation := generation, sv_off := None\<rparr>) (call_off (sv_off sv) s), Some generation))"

definition exchange_attached :: "nat \<Rightarrow> nat \<Rightarrow> attach_outcome \<Rightarrow> supplier \<Rightarrow> supplier \<times> bool" where
  "exchange_attached a generation out s =
     (let sv = su_heap s ! a; stale = (sv_detached sv \<or> generation \<noteq> sv_generation sv) in
      if out = SubscribeFailed then (s, stale)
      else if stale then (s, True)
      else if out = HookThrows then (s, False)
      else (set_serving a (\<lambda>sv. sv\<lparr>sv_off := Some (su_fresh s)\<rparr>)
              (s\<lparr>su_hooks := su_hooks s @ [\<lparr>hk_id = su_fresh s, hk_serving = a, hk_generation = generation\<rparr>], su_fresh := su_fresh s + 1\<rparr>), True))"

definition exchange_accepts :: "supplier_surface \<Rightarrow> exchange_request \<Rightarrow> bool" where
  "exchange_accepts sf rq \<longleftrightarrow> xq_share rq = sf_share sf \<and> xq_glade_id rq = sf_glade_id sf"

definition exchange_mark_dropped :: "nat \<Rightarrow> supplier \<Rightarrow> supplier" where
  "exchange_mark_dropped a s = set_serving a (\<lambda>sv. sv\<lparr>sv_generation := sv_generation sv + 1, sv_off := None\<rparr>) s"

definition exchange_detach :: "nat \<Rightarrow> supplier \<Rightarrow> supplier" where
  "exchange_detach a s =
     set_serving a (\<lambda>sv. sv\<lparr>sv_detached := True, sv_generation := sv_generation sv + 1, sv_off := None\<rparr>)
       (call_off (sv_off (su_heap s ! a)) s)"

subsection \<open>Share servings\<close>

definition share_attach :: "nat \<Rightarrow> supplier \<Rightarrow> supplier \<times> nat option" where
  "share_attach a s =
     (let sv = su_heap s ! a in
      if sv_detached sv then (s, None)
      else let generation = sv_generation sv + 1 in
        (set_serving a (\<lambda>sv. sv\<lparr>sv_generation := generation, sv_off := None\<rparr>) (call_off (sv_off sv) s), Some generation))"

definition share_attached :: "nat \<Rightarrow> nat \<Rightarrow> attach_outcome \<Rightarrow> supplier \<Rightarrow> supplier \<times> bool" where
  "share_attached a generation out s =
     (let sv = su_heap s ! a; stale = (sv_detached sv \<or> generation \<noteq> sv_generation sv) in
      if out = SubscribeFailed then (s, stale)
      else if stale then (s, True)
      else if out = HookThrows then (s, False)
      else (set_serving a (\<lambda>sv. sv\<lparr>sv_off := Some (su_fresh s)\<rparr>)
              (s\<lparr>su_hooks := su_hooks s @ [\<lparr>hk_id = su_fresh s, hk_serving = a, hk_generation = generation\<rparr>], su_fresh := su_fresh s + 1\<rparr>),
            out \<noteq> ServeThrows))"

definition share_ops :: "supplier_surface \<Rightarrow> supplier_op list \<Rightarrow> supplier_op list" where
  "share_ops sf ops =
     (let want_key = default_to [] (sf_key sf) in
      filter (\<lambda>op. so_share op = sf_share sf \<and> so_glade_id op = sf_glade_id sf \<and> bytes_eq (default_to [] (so_key op)) want_key) ops)"

definition share_mark_dropped :: "nat \<Rightarrow> supplier \<Rightarrow> supplier" where
  "share_mark_dropped a s = set_serving a (\<lambda>sv. sv\<lparr>sv_generation := sv_generation sv + 1, sv_off := None\<rparr>) s"

definition share_detach :: "nat \<Rightarrow> supplier \<Rightarrow> supplier" where
  "share_detach a s =
     set_serving a (\<lambda>sv. sv\<lparr>sv_detached := True, sv_generation := sv_generation sv + 1, sv_off := None\<rparr>)
       (call_off (sv_off (su_heap s ! a)) s)"

text \<open>The controller: an append to the session, or the error that refuses it.\<close>

record session_append =
  sa_share :: jstr
  sa_glade_id :: jstr
  sa_shape :: jstr
  sa_payload :: bytes
  sa_key :: "bytes option"

datatype supplier_error = Unsupported unsupported_shape | SetOnLog jstr | AppendOnValue jstr | ServingDetached jstr

definition share_publish :: "serving \<Rightarrow> bytes \<Rightarrow> supplier_error + session_append" where
  "share_publish sv payload =
     (let sf = sv_surface sv in
      if sv_detached sv then Inl (ServingDetached (sf_glade_id sf))
      else Inr \<lparr>sa_share = sf_share sf, sa_glade_id = sf_glade_id sf, sa_shape = sf_shape sf, sa_payload = payload, sa_key = surface_key sf\<rparr>)"

definition share_set :: "shape_adapter \<Rightarrow> serving \<Rightarrow> bytes \<Rightarrow> supplier_error + session_append" where
  "share_set adapter sv payload =
     (if ad_shape adapter \<noteq> Value then Inl (SetOnLog (sf_glade_id (sv_surface sv))) else share_publish sv payload)"

definition share_append :: "shape_adapter \<Rightarrow> serving \<Rightarrow> bytes \<Rightarrow> supplier_error + session_append" where
  "share_append adapter sv payload =
     (if ad_shape adapter \<noteq> Log then Inl (AppendOnValue (sf_glade_id (sv_surface sv))) else share_publish sv payload)"

subsection \<open>The supplier\<close>

text \<open>Calls through the \<open>InternalServing\<close> interface.\<close>

definition serving_attach :: "nat \<Rightarrow> supplier \<Rightarrow> supplier \<times> nat option" where
  "serving_attach a s = (case sv_kind (su_heap s ! a) of ExchangeServing \<Rightarrow> exchange_attach a s | ShareServing _ \<Rightarrow> share_attach a s)"

definition serving_attached :: "nat \<Rightarrow> nat \<Rightarrow> attach_outcome \<Rightarrow> supplier \<Rightarrow> supplier \<times> bool" where
  "serving_attached a g out s = (case sv_kind (su_heap s ! a) of ExchangeServing \<Rightarrow> exchange_attached a g out s | ShareServing _ \<Rightarrow> share_attached a g out s)"

definition serving_mark_dropped :: "nat \<Rightarrow> supplier \<Rightarrow> supplier" where
  "serving_mark_dropped a s = (case sv_kind (su_heap s ! a) of ExchangeServing \<Rightarrow> exchange_mark_dropped a s | ShareServing _ \<Rightarrow> share_mark_dropped a s)"

definition serving_detach :: "nat \<Rightarrow> supplier \<Rightarrow> supplier" where
  "serving_detach a s = (case sv_kind (su_heap s ! a) of ExchangeServing \<Rightarrow> exchange_detach a s | ShareServing _ \<Rightarrow> share_detach a s)"

definition ensure_hello :: "supplier_config \<Rightarrow> supplier \<Rightarrow> supplier" where
  "ensure_hello C s =
     (if su_helloed s then s
      else s\<lparr>su_helloed := True, su_hellos := su_hellos s + (if cf_says_hello C then 1 else 0)\<rparr>)"

definition schedule_reattach :: "supplier_config \<Rightarrow> supplier \<Rightarrow> supplier" where
  "schedule_reattach C s =
     (if su_detached s then s
      else s\<lparr>su_timers := su_timers s @ [(su_fresh s, backoff_ms (cf_backoff C) (su_attempt s))],
             su_cancel := Some (su_fresh s), su_fresh := su_fresh s + 1\<rparr>)"

definition start_task :: "task \<Rightarrow> supplier \<Rightarrow> supplier" where
  "start_task t s = s\<lparr>su_tasks := su_tasks s @ [t]\<rparr>"

definition register :: "supplier_config \<Rightarrow> serving \<Rightarrow> supplier \<Rightarrow> supplier \<times> nat" where
  "register C sv s =
     (let a = length (su_heap s)
      in (start_task (AttachOne a AwaitHello)
            (ensure_hello C (s\<lparr>su_heap := su_heap s @ [sv], su_servings := js_add a (su_servings s)\<rparr>)), a))"

definition new_serving :: "serving_kind \<Rightarrow> supplier_surface \<Rightarrow> serving" where
  "new_serving kind sf = \<lparr>sv_kind = kind, sv_surface = sf, sv_off = None, sv_detached = False, sv_generation = 0\<rparr>"

definition serve_exchange :: "supplier_config \<Rightarrow> supplier_surface \<Rightarrow> supplier \<Rightarrow> supplier \<times> (supplier_error + nat)" where
  "serve_exchange C sf s =
     (case require_exchange_shape (sf_shape sf) (jlit ''serveExchange'') of
        Inl e \<Rightarrow> (s, Inl (Unsupported e))
      | Inr u \<Rightarrow> (let (s', a) = register C (new_serving ExchangeServing sf) s in (s', Inr a)))"

definition serve_share :: "supplier_config \<Rightarrow> supplier_surface \<Rightarrow> supplier \<Rightarrow> supplier \<times> (supplier_error + nat)" where
  "serve_share C sf s =
     (case require_fold_shape_adapter (sf_shape sf) (jlit ''serveShare'') of
        Inl e \<Rightarrow> (s, Inl (Unsupported e))
      | Inr adapter \<Rightarrow> (let (s', a) = register C (new_serving (ShareServing adapter) sf) s in (s', Inr a)))"

text \<open>The \<open>detach\<close> of the handle that \<open>register\<close> returns.\<close>

definition detach_handle :: "nat \<Rightarrow> supplier \<Rightarrow> supplier" where
  "detach_handle a s = serving_detach a (s\<lparr>su_servings := js_remove a (su_servings s)\<rparr>)"

definition detach_all :: "supplier \<Rightarrow> supplier" where
  "detach_all s =
     (let s1 = s\<lparr>su_detached := True\<rparr>;
          s2 = (case su_cancel s1 of None \<Rightarrow> s1 | Some t \<Rightarrow> s1\<lparr>su_timers := filter (\<lambda>(i, ms). i \<noteq> t) (su_timers s1)\<rparr>);
          s3 = s2\<lparr>su_cancel := None, su_drop_on := False\<rparr>
      in (fold serving_detach (su_servings s3) s3)\<lparr>su_servings := []\<rparr>)"

definition on_drop :: "supplier_config \<Rightarrow> supplier \<Rightarrow> supplier" where
  "on_drop C s =
     (if su_detached s then s
      else schedule_reattach C ((fold serving_mark_dropped (su_servings s) s)\<lparr>su_helloed := False, su_attempt := 0\<rparr>))"

text \<open>\<open>s.attach()\<close> called by one of the two loops, which then awaits it.\<close>

definition call_attach :: "nat \<Rightarrow> supplier \<Rightarrow> supplier \<times> attach_phase" where
  "call_attach a s = (case serving_attach a s of (s', None) \<Rightarrow> (s', AwaitAttach a True) | (s', Some g) \<Rightarrow> (s', AwaitSubscribe a g))"

text \<open>The next serving of the iteration: a set is iterated in insertion order, with what was added meanwhile.\<close>

definition reattach_next :: "nat list \<Rightarrow> supplier \<Rightarrow> supplier \<times> task option" where
  "reattach_next reached s =
     (case find (\<lambda>a. a \<notin> set reached) (su_servings s) of
        None \<Rightarrow> (s\<lparr>su_attempt := 0\<rparr>, None)
      | Some a \<Rightarrow> (let (s', ph) = call_attach a s in (s', Some (ReattachAll (reached @ [a]) ph))))"

definition attach_one :: "supplier_config \<Rightarrow> nat \<Rightarrow> attach_phase \<Rightarrow> attach_outcome \<Rightarrow> supplier \<Rightarrow> supplier \<times> task option" where
  "attach_one C a ph out s =
     (case ph of
        AwaitHello \<Rightarrow> (let (s', ph') = call_attach a s in (s', Some (AttachOne a ph')))
      | AwaitSubscribe b g \<Rightarrow> (let (s', ok) = serving_attached b g out s in (s', Some (AttachOne a (AwaitAttach b ok))))
      | AwaitAttach b ok \<Rightarrow>
          if ok then (s\<lparr>su_attempt := 0\<rparr>, None)
          else (if a \<in> set (su_servings s) then schedule_reattach C s else s, None))"

definition reattach_all :: "supplier_config \<Rightarrow> nat list \<Rightarrow> attach_phase \<Rightarrow> attach_outcome \<Rightarrow> supplier \<Rightarrow> supplier \<times> task option" where
  "reattach_all C reached ph out s =
     (case ph of
        AwaitHello \<Rightarrow> reattach_next reached s
      | AwaitSubscribe b g \<Rightarrow> (let (s', ok) = serving_attached b g out s in (s', Some (ReattachAll reached (AwaitAttach b ok))))
      | AwaitAttach b ok \<Rightarrow>
          if ok then reattach_next reached s
          else (schedule_reattach C (s\<lparr>su_attempt := su_attempt s + 1, su_helloed := False\<rparr>), None))"

text \<open>A suspended function goes on, and a timer fires.\<close>

definition resume :: "supplier_config \<Rightarrow> nat \<Rightarrow> attach_outcome \<Rightarrow> supplier \<Rightarrow> supplier" where
  "resume C i out s =
     (let s0 = s\<lparr>su_tasks := take i (su_tasks s) @ drop (Suc i) (su_tasks s)\<rparr>;
          (s', t) = (case su_tasks s ! i of AttachOne a ph \<Rightarrow> attach_one C a ph out s0 | ReattachAll reached ph \<Rightarrow> reattach_all C reached ph out s0)
      in case t of None \<Rightarrow> s' | Some t' \<Rightarrow> start_task t' s')"

definition fire :: "supplier_config \<Rightarrow> nat \<Rightarrow> supplier \<Rightarrow> supplier" where
  "fire C t s =
     (let s1 = s\<lparr>su_timers := filter (\<lambda>(i, ms). i \<noteq> t) (su_timers s)\<rparr>
      in if su_detached s1 then s1 else start_task (ReattachAll [] AwaitHello) (ensure_hello C s1))"

text \<open>
  What the handlers registered with the session do with a request or a batch of operations: the
  servings that take the request, and the operations handed to each source.
\<close>

definition hook_live :: "supplier \<Rightarrow> hook \<Rightarrow> bool" where
  "hook_live s k \<longleftrightarrow> (let sv = su_heap s ! hk_serving k in \<not> sv_detached sv \<and> hk_generation k = sv_generation sv)"

definition deliver_request :: "exchange_request \<Rightarrow> supplier \<Rightarrow> nat list" where
  "deliver_request rq s =
     map hk_serving (filter (\<lambda>k. sv_kind (su_heap s ! hk_serving k) = ExchangeServing \<and> hook_live s k
        \<and> exchange_accepts (sv_surface (su_heap s ! hk_serving k)) rq) (su_hooks s))"

definition deliver_ops :: "supplier_op list \<Rightarrow> supplier \<Rightarrow> (nat \<times> supplier_op list) list" where
  "deliver_ops ops s =
     map (\<lambda>k. (hk_serving k, share_ops (sv_surface (su_heap s ! hk_serving k)) ops))
       (filter (\<lambda>k. sv_kind (su_heap s ! hk_serving k) \<noteq> ExchangeServing \<and> hook_live s k) (su_hooks s))"

subsection \<open>Runs\<close>

datatype supplier_label = ServeExchange supplier_surface | ServeShare supplier_surface | Detach nat | DetachAll
  | LinkDrops | TimerFires nat | TaskResumes nat attach_outcome

inductive supplier_step :: "supplier_config \<Rightarrow> supplier \<Rightarrow> supplier_label \<Rightarrow> supplier \<Rightarrow> bool" for C where
  step_exchange: "supplier_step C s (ServeExchange sf) (fst (serve_exchange C sf s))"
| step_share: "supplier_step C s (ServeShare sf) (fst (serve_share C sf s))"
| step_detach: "a < length (su_heap s) \<Longrightarrow> supplier_step C s (Detach a) (detach_handle a s)"
| step_detach_all: "supplier_step C s DetachAll (detach_all s)"
| step_drop: "su_drop_on s \<Longrightarrow> supplier_step C s LinkDrops (on_drop C s)"
| step_fire: "(t, ms) \<in> set (su_timers s) \<Longrightarrow> supplier_step C s (TimerFires t) (fire C t s)"
| step_resume: "i < length (su_tasks s) \<Longrightarrow> supplier_step C s (TaskResumes i out) (resume C i out s)"

inductive_cases supplier_stepE: "supplier_step C s l s'"

subsection \<open>Generations fence the handlers\<close>

text \<open>Both kinds of serving move through the same generations.\<close>

lemma share_as_exchange:
  "share_attach = exchange_attach" "share_mark_dropped = exchange_mark_dropped" "share_detach = exchange_detach"
  by (simp_all add: fun_eq_iff share_attach_def exchange_attach_def share_mark_dropped_def exchange_mark_dropped_def
      share_detach_def exchange_detach_def)

lemma serving_calls:
  "serving_attach = exchange_attach" "serving_mark_dropped = exchange_mark_dropped" "serving_detach = exchange_detach"
  by (simp_all add: fun_eq_iff serving_attach_def serving_mark_dropped_def serving_detach_def share_as_exchange split: serving_kind.split)

abbreviation generation_of :: "supplier \<Rightarrow> nat \<Rightarrow> nat" where
  "generation_of s a \<equiv> sv_generation (su_heap s ! a)"

abbreviation off_of :: "supplier \<Rightarrow> nat \<Rightarrow> nat option" where
  "off_of s a \<equiv> sv_off (su_heap s ! a)"

abbreviation detached_of :: "supplier \<Rightarrow> nat \<Rightarrow> bool" where
  "detached_of s a \<equiv> sv_detached (su_heap s ! a)"

text \<open>The subscriptions that a task waits for.\<close>

fun phase_awaits :: "attach_phase \<Rightarrow> (nat \<times> nat) list" where
  "phase_awaits (AwaitSubscribe a g) = [(a, g)]"
| "phase_awaits _ = []"

fun task_awaits :: "task \<Rightarrow> (nat \<times> nat) list" where
  "task_awaits (AttachOne a ph) = phase_awaits ph"
| "task_awaits (ReattachAll reached ph) = phase_awaits ph"

definition awaits :: "task list \<Rightarrow> (nat \<times> nat) list" where
  "awaits ts = concat (map task_awaits ts)"

lemma awaits_simps [simp]: "awaits [] = []" "awaits (t # ts) = task_awaits t @ awaits ts" "awaits (ts @ us) = awaits ts @ awaits us"
  by (simp_all add: awaits_def)

text \<open>
  The invariant of handlers and generations, for a supplier and the tasks under way (in whatever order): a
  live handler is the one that its serving remembers, and a task that waits with the current
  generation of a serving is the only claim to it.
\<close>

definition hooks_wf :: "supplier \<Rightarrow> bool" where
  "hooks_wf s \<longleftrightarrow> distinct (map hk_id (su_hooks s))
     \<and> (\<forall>k \<in> set (su_hooks s). hk_id k < su_fresh s \<and> hk_serving k < length (su_heap s) \<and> hk_generation k \<le> generation_of s (hk_serving k)
          \<and> (hook_live s k \<longrightarrow> off_of s (hk_serving k) = Some (hk_id k)))
     \<and> (\<forall>a < length (su_heap s). \<forall>h. off_of s a = Some h \<longrightarrow>
          (\<exists>k \<in> set (su_hooks s). hk_id k = h \<and> hk_serving k = a \<and> hk_generation k = generation_of s a))"

definition awaits_wf :: "supplier \<Rightarrow> task list \<Rightarrow> bool" where
  "awaits_wf s ts \<longleftrightarrow> distinct (awaits ts)
     \<and> (\<forall>(a, g) \<in> set (awaits ts). a < length (su_heap s) \<and> g \<le> generation_of s a \<and> (g = generation_of s a \<longrightarrow> off_of s a = None))"

definition servings_wf :: "supplier \<Rightarrow> bool" where
  "servings_wf s \<longleftrightarrow> distinct (su_servings s) \<and> (\<forall>a. a \<in> set (su_servings s) \<longleftrightarrow> a < length (su_heap s) \<and> \<not> detached_of s a)"

text \<open>Attach, drop and detach all start a new generation of the serving.\<close>

definition next_generation :: "nat \<Rightarrow> bool \<Rightarrow> (hook \<Rightarrow> bool) \<Rightarrow> supplier \<Rightarrow> supplier" where
  "next_generation a d P s =
     s\<lparr>su_heap := (su_heap s)[a := (su_heap s ! a)\<lparr>sv_detached := d, sv_generation := generation_of s a + 1, sv_off := None\<rparr>],
       su_hooks := filter P (su_hooks s)\<rparr>"

lemma call_off_filter: "call_off off s = s\<lparr>su_hooks := filter (\<lambda>k. off \<noteq> Some (hk_id k)) (su_hooks s)\<rparr>"
  by (auto simp: call_off_def intro!: supplier.equality filter_cong split: option.split)

lemma keep_detached: "sv_detached sv = d \<Longrightarrow> (sv :: serving)\<lparr>sv_detached := d, sv_generation := g, sv_off := h\<rparr> = sv\<lparr>sv_generation := g, sv_off := h\<rparr>"
  by (cases sv) simp

lemma attach_next_generation: "\<not> detached_of s a \<Longrightarrow> exchange_attach a s =
    (next_generation a (detached_of s a) (\<lambda>k. off_of s a \<noteq> Some (hk_id k)) s, Some (generation_of s a + 1))"
  by (simp add: exchange_attach_def next_generation_def set_serving_def call_off_filter Let_def keep_detached)

lemma drop_next_generation: "exchange_mark_dropped a s = next_generation a (detached_of s a) (\<lambda>k. True) s"
  by (simp add: exchange_mark_dropped_def next_generation_def set_serving_def)

lemma detach_next_generation: "exchange_detach a s = next_generation a True (\<lambda>k. off_of s a \<noteq> Some (hk_id k)) s"
  by (simp add: exchange_detach_def next_generation_def set_serving_def call_off_filter)

lemma next_generation_simps [simp]:
  "length (su_heap (next_generation a d P s)) = length (su_heap s)" "su_servings (next_generation a d P s) = su_servings s"
  "su_hooks (next_generation a d P s) = filter P (su_hooks s)" "su_fresh (next_generation a d P s) = su_fresh s"
  "su_detached (next_generation a d P s) = su_detached s" "su_timers (next_generation a d P s) = su_timers s"
  "su_tasks (next_generation a d P s) = su_tasks s" "su_cancel (next_generation a d P s) = su_cancel s"
  by (simp_all add: next_generation_def)

lemma next_generation_at:
  "a < length (su_heap s) \<Longrightarrow> generation_of (next_generation a d P s) b = (if b = a then Suc (generation_of s a) else generation_of s b)"
  "a < length (su_heap s) \<Longrightarrow> off_of (next_generation a d P s) b = (if b = a then None else off_of s b)"
  "a < length (su_heap s) \<Longrightarrow> detached_of (next_generation a d P s) b = (if b = a then d else detached_of s b)"
  by (simp_all add: next_generation_def)

lemma next_generation_hooks:
  assumes wf: "hooks_wf s" and a: "a < length (su_heap s)" and P: "\<And>k. k \<in> set (su_hooks s) \<Longrightarrow> hk_serving k \<noteq> a \<Longrightarrow> P k"
  shows "hooks_wf (next_generation a d P s)"
proof -
  let ?s = "next_generation a d P s"
  have "hk_id k < su_fresh ?s \<and> hk_serving k < length (su_heap ?s) \<and> hk_generation k \<le> generation_of ?s (hk_serving k)
      \<and> (hook_live ?s k \<longrightarrow> off_of ?s (hk_serving k) = Some (hk_id k))" if "k \<in> set (su_hooks ?s)" for k
  proof -
    have k: "k \<in> set (su_hooks s)" using that by simp
    then have "hk_id k < su_fresh s" "hk_serving k < length (su_heap s)" "hk_generation k \<le> generation_of s (hk_serving k)"
        "hook_live s k \<longrightarrow> off_of s (hk_serving k) = Some (hk_id k)"
      using wf by (simp_all add: hooks_wf_def)
    then show ?thesis by (auto simp: next_generation_at [OF a] hook_live_def Let_def)
  qed
  moreover have "\<exists>k \<in> set (su_hooks ?s). hk_id k = h \<and> hk_serving k = b \<and> hk_generation k = generation_of ?s b"
    if "b < length (su_heap ?s)" "off_of ?s b = Some h" for b h
  proof -
    have ba: "b \<noteq> a" and off: "off_of s b = Some h" using that(2) by (auto simp: next_generation_at [OF a] split: if_splits)
    have "b < length (su_heap s)" using that(1) by simp
    with off wf obtain k where k: "k \<in> set (su_hooks s)" "hk_id k = h" "hk_serving k = b" "hk_generation k = generation_of s b"
      unfolding hooks_wf_def by blast
    have "P k" using P [OF k(1)] k(3) ba by blast
    with k ba show ?thesis by (auto simp: next_generation_at [OF a])
  qed
  moreover have "distinct (map hk_id (su_hooks ?s))" using wf by (simp add: hooks_wf_def distinct_map_filter)
  ultimately show ?thesis unfolding hooks_wf_def by blast
qed

lemma next_generation_awaits:
  assumes "awaits_wf s ts" "a < length (su_heap s)"
  shows "awaits_wf (next_generation a d P s) ts"
  using assms(1) by (force simp: awaits_wf_def next_generation_at [OF assms(2)])

text \<open>The handlers that a serving calls off are its own.\<close>

lemma off_is_own: "hooks_wf s \<Longrightarrow> k \<in> set (su_hooks s) \<Longrightarrow> a < length (su_heap s) \<Longrightarrow> off_of s a = Some (hk_id k) \<Longrightarrow> hk_serving k = a"
proof -
  assume wf: "hooks_wf s" and k: "k \<in> set (su_hooks s)" and "a < length (su_heap s)" "off_of s a = Some (hk_id k)"
  then obtain k' where k': "k' \<in> set (su_hooks s)" "hk_id k' = hk_id k" "hk_serving k' = a" unfolding hooks_wf_def by blast
  from wf have "inj_on hk_id (set (su_hooks s))" by (simp add: hooks_wf_def distinct_map)
  with k k' show ?thesis by (auto dest: inj_onD)
qed

text \<open>Attach registers its handler.\<close>

lemma attached_hooks:
  assumes wf: "hooks_wf s" and aw: "awaits_wf s (t # ts)" and t: "task_awaits t = [(a, g)]"
    and cur: "g = generation_of s a" and live: "\<not> detached_of s a"
    and s': "s' = set_serving a (\<lambda>sv. sv\<lparr>sv_off := Some (su_fresh s)\<rparr>)
      (s\<lparr>su_hooks := su_hooks s @ [\<lparr>hk_id = su_fresh s, hk_serving = a, hk_generation = g\<rparr>], su_fresh := su_fresh s + 1\<rparr>)"
  shows "hooks_wf s' \<and> awaits_wf s' ts"
proof -
  have a: "a < length (su_heap s)" "off_of s a = None" using aw t cur by (auto simp: awaits_wf_def)
  have at: "generation_of s' b = generation_of s b" "detached_of s' b = detached_of s b"
      "off_of s' b = (if b = a then Some (su_fresh s) else off_of s b)" for b
    using a(1) by (cases "b = a"; simp add: s' set_serving_def)+
  have len: "length (su_heap s') = length (su_heap s)" by (simp add: s' set_serving_def)
  have hooks: "su_hooks s' = su_hooks s @ [\<lparr>hk_id = su_fresh s, hk_serving = a, hk_generation = g\<rparr>]" "su_fresh s' = su_fresh s + 1"
    by (simp_all add: s' set_serving_def)
  have old: "hk_id k < su_fresh s" "hk_serving k < length (su_heap s)" "hk_generation k \<le> generation_of s (hk_serving k)"
      "hook_live s k \<Longrightarrow> off_of s (hk_serving k) = Some (hk_id k)" if "k \<in> set (su_hooks s)" for k
    using wf that by (auto simp: hooks_wf_def)
  have same: "hook_live s' k = hook_live s k" for k by (simp add: hook_live_def at Let_def)
  have "hk_id k < su_fresh s' \<and> hk_serving k < length (su_heap s') \<and> hk_generation k \<le> generation_of s' (hk_serving k)
      \<and> (hook_live s' k \<longrightarrow> off_of s' (hk_serving k) = Some (hk_id k))" if "k \<in> set (su_hooks s')" for k
  proof (cases "k \<in> set (su_hooks s)")
    case True
    with old [OF True] a show ?thesis by (auto simp: hooks(2) len at same)
  next
    case False
    with that show ?thesis by (auto simp: hooks len at a cur)
  qed
  moreover have "\<exists>k \<in> set (su_hooks s'). hk_id k = h \<and> hk_serving k = b \<and> hk_generation k = generation_of s' b"
    if "b < length (su_heap s')" "off_of s' b = Some h" for b h
  proof (cases "b = a")
    case True
    with that show ?thesis by (auto simp: at hooks cur)
  next
    case False
    with that wf show ?thesis unfolding hooks_wf_def at hooks len by (metis UnCI set_append)
  qed
  moreover have "distinct (map hk_id (su_hooks s'))"
    using wf old(1) by (fastforce simp: hooks hooks_wf_def)
  ultimately have "hooks_wf s'" unfolding hooks_wf_def by blast
  moreover have "awaits_wf s' ts" using aw t cur by (fastforce simp: awaits_wf_def at len)
  ultimately show ?thesis by blast
qed

lemma serving_attached_cases:
  obtains (unchanged) ok where "serving_attached a g out s = (s, ok)"
      "out = SubscribeFailed \<longrightarrow> ok = (detached_of s a \<or> g \<noteq> generation_of s a)"
      "out \<noteq> SubscribeFailed \<longrightarrow> ok \<longrightarrow> detached_of s a \<or> g \<noteq> generation_of s a"
  | (registered) ok where "\<not> detached_of s a" "g = generation_of s a" "serving_attached a g out s =
      (set_serving a (\<lambda>sv. sv\<lparr>sv_off := Some (su_fresh s)\<rparr>)
        (s\<lparr>su_hooks := su_hooks s @ [\<lparr>hk_id = su_fresh s, hk_serving = a, hk_generation = g\<rparr>], su_fresh := su_fresh s + 1\<rparr>), ok)"
proof (cases "out = SubscribeFailed \<or> detached_of s a \<or> g \<noteq> generation_of s a \<or> out = HookThrows")
  case True
  then have "fst (serving_attached a g out s) = s"
    by (auto simp: serving_attached_def exchange_attached_def share_attached_def Let_def split: serving_kind.split)
  moreover have "out = SubscribeFailed \<longrightarrow> snd (serving_attached a g out s) = (detached_of s a \<or> g \<noteq> generation_of s a)"
      "out \<noteq> SubscribeFailed \<longrightarrow> snd (serving_attached a g out s) \<longrightarrow> detached_of s a \<or> g \<noteq> generation_of s a"
    using True by (auto simp: serving_attached_def exchange_attached_def share_attached_def Let_def split: serving_kind.splits)
  ultimately show ?thesis by (intro unchanged [of "snd (serving_attached a g out s)"]) (auto simp: prod_eq_iff)
next
  case False
  then show ?thesis
    by (intro registered [of "snd (serving_attached a g out s)"])
      (auto simp: serving_attached_def exchange_attached_def share_attached_def Let_def split: serving_kind.split)
qed

subsection \<open>Nothing is stranded\<close>

text \<open>
  A task under way takes care of a serving when it will attach it, waits for its subscription with the
  current generation, or has failed to attach it and is about to schedule another try.
\<close>

fun covers :: "supplier \<Rightarrow> task \<Rightarrow> nat \<Rightarrow> bool" where
  "covers s (AttachOne b ph) a \<longleftrightarrow> a = b \<and> (case ph of
     AwaitHello \<Rightarrow> True | AwaitSubscribe c g \<Rightarrow> g = generation_of s a | AwaitAttach c ok \<Rightarrow> \<not> ok)"
| "covers s (ReattachAll reached ph) a \<longleftrightarrow> (case ph of
     AwaitHello \<Rightarrow> a \<notin> set reached | AwaitSubscribe c g \<Rightarrow> a \<notin> set reached \<or> a = c \<and> g = generation_of s a
   | AwaitAttach c ok \<Rightarrow> a \<notin> set reached \<or> \<not> ok)"

fun task_wf :: "task \<Rightarrow> bool" where
  "task_wf (AttachOne a ph) \<longleftrightarrow> (case ph of AwaitHello \<Rightarrow> True | AwaitSubscribe b g \<Rightarrow> b = a | AwaitAttach b ok \<Rightarrow> b = a)"
| "task_wf (ReattachAll reached ph) \<longleftrightarrow> (case ph of AwaitHello \<Rightarrow> True | AwaitSubscribe b g \<Rightarrow> b \<in> set reached | AwaitAttach b ok \<Rightarrow> b \<in> set reached)"

definition covered :: "supplier \<Rightarrow> task list \<Rightarrow> bool" where
  "covered s ts \<longleftrightarrow> su_detached s \<or> su_timers s \<noteq> []
     \<or> (\<forall>a \<in> set (su_servings s). off_of s a \<noteq> None \<or> (\<exists>t \<in> set ts. covers s t a))"

definition tasks_inv :: "supplier \<Rightarrow> task list \<Rightarrow> bool" where
  "tasks_inv s ts \<longleftrightarrow> hooks_wf s \<and> awaits_wf s ts \<and> servings_wf s \<and> (\<forall>t \<in> set ts. task_wf t) \<and> covered s ts"

definition supplier_inv :: "supplier \<Rightarrow> bool" where
  "supplier_inv s \<longleftrightarrow> tasks_inv s (su_tasks s)"

text \<open>Only what the servings look like matters, and the order of the tasks does not.\<close>

lemma tasks_inv_frame:
  assumes "su_heap s' = su_heap s" "su_hooks s' = su_hooks s" "su_servings s' = su_servings s" "su_fresh s \<le> su_fresh s'"
    and "su_detached s \<or> su_timers s \<noteq> [] \<Longrightarrow> su_detached s' \<or> su_timers s' \<noteq> []" "tasks_inv s ts"
  shows "tasks_inv s' ts"
proof -
  have "hook_live s' = hook_live s" using assms(1) by (simp add: fun_eq_iff hook_live_def Let_def)
  moreover have "covers s' t a = covers s t a" for t a by (cases t) (simp_all add: assms(1) split: attach_phase.split)
  ultimately show ?thesis using assms unfolding tasks_inv_def hooks_wf_def awaits_wf_def servings_wf_def covered_def
    by (auto dest: order_less_le_trans)
qed

lemma tasks_inv_perm: "mset ts = mset us \<Longrightarrow> tasks_inv s ts = tasks_inv s us"
proof -
  assume eq: "mset ts = mset us"
  have "mset (awaits xs) = (\<Sum>t\<in>#mset xs. mset (task_awaits t))" for xs by (induction xs) auto
  then have "mset (awaits ts) = mset (awaits us)" by (simp add: eq)
  then have "distinct (awaits ts) = distinct (awaits us)" "set (awaits ts) = set (awaits us)"
    by (metis mset_eq_imp_distinct_iff) (metis \<open>mset (awaits ts) = mset (awaits us)\<close> set_mset_mset)
  moreover have "set ts = set us" using eq by (metis set_mset_mset)
  ultimately show ?thesis by (simp add: tasks_inv_def awaits_wf_def covered_def)
qed

text \<open>A task that no longer waits and covers nothing more than it has to can be dropped.\<close>

lemma tasks_inv_drop:
  assumes "tasks_inv s (t # ts)" "su_detached s \<or> su_timers s \<noteq> [] \<or> (\<forall>a \<in> set (su_servings s). covers s t a \<longrightarrow> off_of s a \<noteq> None)"
  shows "tasks_inv s ts"
  using assms by (auto simp: tasks_inv_def awaits_wf_def covered_def)

lemma tasks_inv_replace:
  assumes "tasks_inv s (t # ts)" "task_awaits t' = []" "task_wf t'" "\<And>a. a \<in> set (su_servings s) \<Longrightarrow> covers s t a \<Longrightarrow> covers s t' a"
  shows "tasks_inv s (t' # ts)"
  using assms by (auto simp: tasks_inv_def awaits_wf_def covered_def)

lemma covers_apart: "generation_of s' b = generation_of s b \<Longrightarrow> covers s' t b = covers s t b"
  by (cases t) (auto split: attach_phase.split)

lemma servings_wf_next: "servings_wf s \<Longrightarrow> a < length (su_heap s) \<Longrightarrow> servings_wf (next_generation a (detached_of s a) P s)"
  by (simp add: servings_wf_def next_generation_at)

lemma call_attach_inv:
  assumes inv: "tasks_inv s (t # ts)" and a: "a < length (su_heap s)" and t: "task_awaits t = []" and call: "call_attach a s = (s', ph)"
    and T: "\<And>ph. task_awaits (T ph) = phase_awaits ph" "task_wf (T ph)" "\<And>s g. g = generation_of s a \<Longrightarrow> covers s (T (AwaitSubscribe a g)) a"
    and cov: "\<And>b s'. b \<noteq> a \<Longrightarrow> covers s t b \<Longrightarrow> covers s' (T ph) b"
  shows "tasks_inv s' (T ph # ts)"
proof (cases "detached_of s a")
  case True
  then have same: "s' = s" "ph = AwaitAttach a True" using call by (simp_all add: call_attach_def serving_calls exchange_attach_def Let_def)
  have "b \<noteq> a" if "b \<in> set (su_servings s)" for b using that True inv by (auto simp: tasks_inv_def servings_wf_def)
  then show ?thesis unfolding same(1) using cov T by (intro tasks_inv_replace [OF inv]) (simp_all add: same(2))
next
  case False
  let ?P = "\<lambda>k. off_of s a \<noteq> Some (hk_id k)"
  have s': "s' = next_generation a (detached_of s a) ?P s" and ph: "ph = AwaitSubscribe a (generation_of s a + 1)"
    using call False by (simp_all add: call_attach_def serving_calls attach_next_generation)
  have hw: "hooks_wf s" and aw: "awaits_wf s ts" using inv t by (simp_all add: tasks_inv_def awaits_wf_def)
  have hooks: "hooks_wf s'"
    unfolding s' using off_is_own [OF hw _ a] by (intro next_generation_hooks [OF hw a]) blast
  have "awaits_wf s' ts" unfolding s' by (rule next_generation_awaits [OF aw a])
  moreover have "(a, generation_of s a + 1) \<notin> set (awaits ts)" using aw by (auto simp: awaits_wf_def)
  ultimately have awaits: "awaits_wf s' (T ph # ts)" using a by (simp add: awaits_wf_def T(1) ph s' next_generation_at [OF a])
  have "covered s' (T ph # ts)"
  proof -
    have "off_of s' b \<noteq> None \<or> (\<exists>u \<in> set (T ph # ts). covers s' u b)"
      if b: "b \<in> set (su_servings s)" and old: "off_of s b \<noteq> None \<or> (\<exists>u \<in> set (t # ts). covers s u b)" for b
    proof (cases "b = a")
      case True
      have "covers s' (T ph) a" unfolding ph by (rule T(3)) (simp add: s' next_generation_at [OF a])
      with True show ?thesis by simp
    next
      case False
      then have "generation_of s' b = generation_of s b" "off_of s' b = off_of s b" by (simp_all add: s' next_generation_at [OF a])
      with old False cov covers_apart show ?thesis by (metis list.set_intros set_ConsD)
    qed
    moreover have "su_detached s' = su_detached s" "su_timers s' = su_timers s" "su_servings s' = su_servings s" by (simp_all add: s')
    ultimately show ?thesis using inv unfolding tasks_inv_def covered_def by (simp only:) blast
  qed
  moreover have "servings_wf s'" unfolding s' using inv a by (intro servings_wf_next) (simp_all add: tasks_inv_def)
  ultimately show ?thesis using hooks awaits inv T(2) by (simp add: tasks_inv_def)
qed

lemma attached_inv:
  assumes inv: "tasks_inv s (t # ts)" and t: "task_awaits t = [(a, g)]" and res: "serving_attached a g out s = (s', ok)"
    and t': "task_awaits t' = []" "task_wf t'"
    and cov: "\<And>b s'. b \<noteq> a \<Longrightarrow> covers s t b \<Longrightarrow> covers s' t' b" "\<And>s. covers s t a \<Longrightarrow> g \<noteq> generation_of s a \<Longrightarrow> covers s t' a" "\<And>s. \<not> ok \<Longrightarrow> covers s t' a"
  shows "tasks_inv s' (t' # ts)"
proof (rule serving_attached_cases [of a g out s])
  fix ok'
  assume r: "serving_attached a g out s = (s, ok')" and u: "out = SubscribeFailed \<longrightarrow> ok' = (detached_of s a \<or> g \<noteq> generation_of s a)"
      "out \<noteq> SubscribeFailed \<longrightarrow> ok' \<longrightarrow> detached_of s a \<or> g \<noteq> generation_of s a"
  have "covers s t' b" if "b \<in> set (su_servings s)" "covers s t b" for b
  proof (cases "b = a")
    case True
    with that(1) inv have "\<not> detached_of s a" by (simp add: tasks_inv_def servings_wf_def)
    with u r res have "ok \<longrightarrow> g \<noteq> generation_of s a" by auto
    with cov(2,3) that(2) True show ?thesis by blast
  next
    case False
    with cov(1) that(2) show ?thesis by blast
  qed
  then show ?thesis using r res by (auto intro: tasks_inv_replace [OF inv t'])
next
  fix ok'
  assume live: "\<not> detached_of s a" and g: "g = generation_of s a" and r: "serving_attached a g out s =
      (set_serving a (\<lambda>sv. sv\<lparr>sv_off := Some (su_fresh s)\<rparr>)
        (s\<lparr>su_hooks := su_hooks s @ [\<lparr>hk_id = su_fresh s, hk_serving = a, hk_generation = g\<rparr>], su_fresh := su_fresh s + 1\<rparr>), ok')"
  have s': "s' = set_serving a (\<lambda>sv. sv\<lparr>sv_off := Some (su_fresh s)\<rparr>)
        (s\<lparr>su_hooks := su_hooks s @ [\<lparr>hk_id = su_fresh s, hk_serving = a, hk_generation = g\<rparr>], su_fresh := su_fresh s + 1\<rparr>)"
    using r res by simp
  have wf: "hooks_wf s' \<and> awaits_wf s' ts"
    using inv by (intro attached_hooks [OF _ _ t g live s']) (simp_all add: tasks_inv_def)
  have a: "a < length (su_heap s)" using inv t by (auto simp: tasks_inv_def awaits_wf_def)
  have at: "generation_of s' b = generation_of s b" "detached_of s' b = detached_of s b"
      "off_of s' b = (if b = a then Some (su_fresh s) else off_of s b)" for b
    using a by (cases "b = a"; simp add: s' set_serving_def)+
  have frame: "su_servings s' = su_servings s" "su_timers s' = su_timers s" "su_detached s' = su_detached s" "length (su_heap s') = length (su_heap s)"
    by (simp_all add: s' set_serving_def)
  have "off_of s' b \<noteq> None \<or> (\<exists>u \<in> set (t' # ts). covers s' u b)"
    if old: "off_of s b \<noteq> None \<or> (\<exists>u \<in> set (t # ts). covers s u b)" for b
  proof (cases "b = a")
    case False
    with old cov(1) covers_apart [OF at(1)] show ?thesis by (metis at(3) list.set_intros set_ConsD)
  qed (simp add: at)
  then have "covered s' (t' # ts)" using inv unfolding tasks_inv_def covered_def frame by blast
  moreover have "servings_wf s'" using inv by (simp add: tasks_inv_def servings_wf_def frame at)
  ultimately show ?thesis using wf inv t' by (simp add: tasks_inv_def awaits_wf_def)
qed

lemma schedule_inv:
  assumes "tasks_inv s (t # ts)"
  shows "tasks_inv (schedule_reattach C s) ts"
proof (rule tasks_inv_drop [of _ t])
  show "tasks_inv (schedule_reattach C s) (t # ts)"
    by (rule tasks_inv_frame [OF _ _ _ _ _ assms]) (auto simp: schedule_reattach_def)
  show "su_detached (schedule_reattach C s) \<or> su_timers (schedule_reattach C s) \<noteq> []
      \<or> (\<forall>a \<in> set (su_servings (schedule_reattach C s)). covers (schedule_reattach C s) t a \<longrightarrow> off_of (schedule_reattach C s) a \<noteq> None)"
    by (simp add: schedule_reattach_def)
qed

lemma attach_one_inv:
  assumes inv: "tasks_inv s (AttachOne a ph # ts)" and a: "a < length (su_heap s)" and res: "attach_one C a ph out s = (s', t')"
  shows "tasks_inv s' (case t' of None \<Rightarrow> ts | Some u \<Rightarrow> u # ts)"
proof (cases ph)
  case AwaitHello
  obtain s1 ph1 where c: "call_attach a s = (s1, ph1)" by fastforce
  have "tasks_inv s1 (AttachOne a ph1 # ts)"
  proof (rule call_attach_inv [OF inv a _ c])
    show "task_wf (AttachOne a ph1)" using c by (auto simp: call_attach_def split: prod.splits option.splits)
  qed (simp_all add: AwaitHello)
  with res c AwaitHello show ?thesis by (auto simp: attach_one_def)
next
  case (AwaitSubscribe b g)
  then have b: "b = a" using inv by (simp add: tasks_inv_def)
  obtain s1 ok where c: "serving_attached a g out s = (s1, ok)" by fastforce
  have "tasks_inv s1 (AttachOne a (AwaitAttach a ok) # ts)"
    by (rule attached_inv [OF inv _ c]) (auto simp: AwaitSubscribe b)
  with res c b AwaitSubscribe show ?thesis by (auto simp: attach_one_def)
next
  case (AwaitAttach b ok)
  show ?thesis
  proof (cases "\<not> ok \<and> a \<in> set (su_servings s)")
    case True
    with schedule_inv [OF inv] res AwaitAttach show ?thesis by (auto simp: attach_one_def)
  next
    case False
    then have "tasks_inv s ts" by (intro tasks_inv_drop [OF inv]) (auto simp: AwaitAttach)
    then have "tasks_inv (s\<lparr>su_attempt := n\<rparr>) ts" for n by (rule tasks_inv_frame [rotated -1]) simp_all
    with False \<open>tasks_inv s ts\<close> res AwaitAttach show ?thesis by (auto simp: attach_one_def split: if_splits)
  qed
qed

lemma reattach_next_inv:
  assumes inv: "tasks_inv s (t # ts)" and t: "task_awaits t = []" "\<And>b s'. covers s' t b \<longleftrightarrow> b \<notin> set reached"
    and res: "reattach_next reached s = (s', t')"
  shows "tasks_inv s' (case t' of None \<Rightarrow> ts | Some u \<Rightarrow> u # ts)"
proof (cases "find (\<lambda>a. a \<notin> set reached) (su_servings s)")
  case None
  then have "tasks_inv s ts" using t(2) by (intro tasks_inv_drop [OF inv]) (auto simp: find_None_iff)
  then have "tasks_inv (s\<lparr>su_attempt := 0\<rparr>) ts" by (rule tasks_inv_frame [rotated -1]) simp_all
  with None res show ?thesis by (auto simp: reattach_next_def)
next
  case (Some a)
  then have "a \<in> set (su_servings s)" "a \<notin> set reached" by (auto simp: find_Some_iff)
  then have a: "a < length (su_heap s)" using inv by (simp add: tasks_inv_def servings_wf_def)
  obtain s1 ph1 where c: "call_attach a s = (s1, ph1)" by fastforce
  have ph1: "ph1 = AwaitAttach a True \<or> (\<exists>g. ph1 = AwaitSubscribe a g)"
    using c by (auto simp: call_attach_def split: prod.splits option.splits)
  have "tasks_inv s1 (ReattachAll (reached @ [a]) ph1 # ts)"
    by (rule call_attach_inv [OF inv a t(1) c]) (use ph1 in \<open>auto simp: t(2)\<close>)
  with Some res c show ?thesis by (auto simp: reattach_next_def)
qed

lemma reattach_all_inv:
  assumes inv: "tasks_inv s (ReattachAll reached ph # ts)" and res: "reattach_all C reached ph out s = (s', t')"
  shows "tasks_inv s' (case t' of None \<Rightarrow> ts | Some u \<Rightarrow> u # ts)"
proof (cases ph)
  case AwaitHello
  with res show ?thesis by (intro reattach_next_inv [OF inv]) (simp_all add: reattach_all_def)
next
  case (AwaitSubscribe b g)
  then have b: "b \<in> set reached" using inv by (simp add: tasks_inv_def)
  obtain s1 ok where c: "serving_attached b g out s = (s1, ok)" by fastforce
  have "tasks_inv s1 (ReattachAll reached (AwaitAttach b ok) # ts)"
    by (rule attached_inv [OF inv _ c]) (auto simp: AwaitSubscribe b)
  with res c AwaitSubscribe show ?thesis by (auto simp: reattach_all_def)
next
  case (AwaitAttach b ok)
  show ?thesis
  proof (cases ok)
    case True
    with res AwaitAttach show ?thesis by (intro reattach_next_inv [OF inv]) (simp_all add: reattach_all_def)
  next
    case False
    have "tasks_inv (s\<lparr>su_attempt := su_attempt s + 1, su_helloed := False\<rparr>) (ReattachAll reached ph # ts)"
      by (rule tasks_inv_frame [OF _ _ _ _ _ inv]) simp_all
    from schedule_inv [OF this] False res AwaitAttach show ?thesis by (auto simp: reattach_all_def)
  qed
qed

text \<open>What attaching leaves alone.\<close>

definition faces :: "supplier \<Rightarrow> (serving_kind \<times> supplier_surface) list" where
  "faces s = map (\<lambda>sv. (sv_kind sv, sv_surface sv)) (su_heap s)"

lemma map_update_same: "f y = f (xs ! a) \<Longrightarrow> map f (xs[a := y]) = map f xs"
  by (cases "a < length xs") (simp_all add: map_update list_update_same_conv list_update_beyond)

lemma faces_simps [simp]: "faces (next_generation a d P s) = faces s" "faces (set_serving a (\<lambda>sv. sv\<lparr>sv_off := h\<rparr>) s) = faces s"
  by (simp_all add: faces_def next_generation_def set_serving_def map_update_same)

lemma faces_cong: "su_heap s' = su_heap s \<Longrightarrow> faces s' = faces s"
  by (simp add: faces_def)

lemma faces_at: "faces s' = faces s \<Longrightarrow> a < length (su_heap s) \<Longrightarrow>
    sv_kind (su_heap s' ! a) = sv_kind (su_heap s ! a) \<and> sv_surface (su_heap s' ! a) = sv_surface (su_heap s ! a)"
proof -
  assume eq: "faces s' = faces s" and a: "a < length (su_heap s)"
  from eq have "length (su_heap s') = length (su_heap s)" unfolding faces_def by (rule map_eq_imp_length_eq)
  with a arg_cong [OF eq, of "\<lambda>f. f ! a"] show ?thesis by (simp add: faces_def)
qed

definition same_frame :: "supplier \<Rightarrow> supplier \<Rightarrow> bool" where
  "same_frame s s' \<longleftrightarrow> su_tasks s' = su_tasks s \<and> length (su_heap s') = length (su_heap s) \<and> su_servings s' = su_servings s \<and> su_detached s' = su_detached s
     \<and> faces s' = faces s"

lemma same_frame_refl [simp]: "same_frame s s"
  by (simp add: same_frame_def)

lemma schedule_frame: "same_frame s (schedule_reattach C s)"
  by (simp add: same_frame_def schedule_reattach_def faces_def)

lemma call_attach_frame: "same_frame s (fst (call_attach a s))"
  by (cases "detached_of s a") (simp_all add: call_attach_def serving_calls attach_next_generation same_frame_def, simp add: exchange_attach_def Let_def)

lemma attached_frame: "same_frame s (fst (serving_attached a g out s))"
proof (rule serving_attached_cases [of a g out s], goal_cases)
  case (2 ok)
  moreover have "faces (s\<lparr>su_hooks := hs, su_fresh := n\<rparr>) = faces s" for hs n by (simp add: faces_def)
  ultimately show ?case by (simp add: same_frame_def) (simp add: set_serving_def)
qed simp

lemma reattach_next_frame: "same_frame s (fst (reattach_next reached s))"
proof (cases "find (\<lambda>a. a \<notin> set reached) (su_servings s)")
  case (Some a)
  with call_attach_frame [of s a] show ?thesis by (simp add: reattach_next_def split_beta)
qed (simp add: reattach_next_def same_frame_def faces_def)

lemma attach_one_frame: "same_frame s (fst (attach_one C a ph out s))"
  using call_attach_frame [of s a] attached_frame [of s] schedule_frame [of s C]
  by (simp add: attach_one_def split_beta split: attach_phase.split) (simp add: same_frame_def faces_def)

lemma reattach_all_frame: "same_frame s (fst (reattach_all C reached ph out s))"
  using reattach_next_frame [of s reached] attached_frame [of s] schedule_frame [of "s\<lparr>su_attempt := su_attempt s + 1, su_helloed := False\<rparr>" C]
  by (simp add: reattach_all_def split_beta split: attach_phase.split) (simp add: same_frame_def faces_def)

fun task_in_heap :: "supplier \<Rightarrow> task \<Rightarrow> bool" where
  "task_in_heap s (AttachOne a ph) \<longleftrightarrow> a < length (su_heap s)"
| "task_in_heap s (ReattachAll reached ph) \<longleftrightarrow> True"

definition supplier_ok :: "supplier \<Rightarrow> bool" where
  "supplier_ok s \<longleftrightarrow> supplier_inv s \<and> (\<forall>t \<in> set (su_tasks s). task_in_heap s t)"

lemma task_in_heap_mono: "length (su_heap s) \<le> length (su_heap s') \<Longrightarrow> task_in_heap s t \<Longrightarrow> task_in_heap s' t"
  by (cases t) simp_all

lemma resume_result:
  assumes res: "(s', t') = (case t of AttachOne a ph \<Rightarrow> attach_one C a ph out s | ReattachAll reached ph \<Rightarrow> reattach_all C reached ph out s)"
    and inv: "tasks_inv s (t # ts)" and heap: "task_in_heap s t"
  shows "tasks_inv s' (case t' of None \<Rightarrow> ts | Some u \<Rightarrow> u # ts) \<and> same_frame s s' \<and> (\<forall>u. t' = Some u \<longrightarrow> task_in_heap s' u)"
proof (cases t)
  case (AttachOne a ph)
  then have r: "attach_one C a ph out s = (s', t')" using res by simp
  have "\<forall>u. t' = Some u \<longrightarrow> (\<exists>ph'. u = AttachOne a ph')"
    using r by (auto simp: attach_one_def split: attach_phase.splits prod.splits if_splits)
  with attach_one_inv [OF inv [unfolded AttachOne] _ r] attach_one_frame [of s C a ph out] heap r AttachOne show ?thesis
    by (auto simp: same_frame_def)
next
  case (ReattachAll reached ph)
  then have r: "reattach_all C reached ph out s = (s', t')" using res by simp
  have "\<forall>u. t' = Some u \<longrightarrow> (\<exists>reached' ph'. u = ReattachAll reached' ph')"
    using r by (auto simp: reattach_all_def reattach_next_def split: attach_phase.splits prod.splits if_splits option.splits)
  with reattach_all_inv [OF inv [unfolded ReattachAll] r] reattach_all_frame [of s C reached ph out] r show ?thesis by auto
qed

lemma resume_ok:
  assumes ok: "supplier_ok s" and i: "i < length (su_tasks s)"
  shows "supplier_ok (resume C i out s)"
proof -
  let ?t = "su_tasks s ! i" and ?ts = "take i (su_tasks s) @ drop (Suc i) (su_tasks s)"
  let ?s0 = "s\<lparr>su_tasks := ?ts\<rparr>"
  have split: "su_tasks s = take i (su_tasks s) @ ?t # drop (Suc i) (su_tasks s)" using i by (rule id_take_nth_drop)
  then have "mset (su_tasks s) = mset (?t # ?ts)" by (metis mset.simps(2) mset_append union_mset_add_mset_right)
  then have "tasks_inv s (?t # ?ts)" using ok tasks_inv_perm by (metis supplier_inv_def supplier_ok_def)
  then have inv0: "tasks_inv ?s0 (?t # ?ts)" by (rule tasks_inv_frame [rotated -1]) simp_all
  have heap: "\<forall>u \<in> set (?t # ?ts). task_in_heap s u" using ok i by (auto simp: supplier_ok_def dest: in_set_takeD in_set_dropD)
  then have h0: "\<forall>u \<in> set (?t # ?ts). task_in_heap ?s0 u" using task_in_heap_mono [of s ?s0] by simp
  obtain s' t' where res: "(s', t') = (case ?t of AttachOne a ph \<Rightarrow> attach_one C a ph out ?s0 | ReattachAll reached ph \<Rightarrow> reattach_all C reached ph out ?s0)"
    by (metis surj_pair)
  note R = resume_result [OF res inv0]
  have end_state: "resume C i out s = (case t' of None \<Rightarrow> s' | Some u \<Rightarrow> start_task u s')"
    unfolding resume_def Let_def using res by (metis (no_types, lifting) case_prod_conv)
  have ts: "su_tasks s' = ?ts" and len: "length (su_heap s') = length (su_heap ?s0)" using R h0 by (simp_all add: same_frame_def)
  have h1: "\<forall>u \<in> set ?ts. task_in_heap s' u" using h0 task_in_heap_mono [of ?s0 s'] len by simp
  show ?thesis
  proof (cases t')
    case None
    with R h0 h1 ts end_state show ?thesis by (simp add: supplier_ok_def supplier_inv_def)
  next
    case (Some u)
    have "tasks_inv (start_task u s') (u # ?ts)"
      using R h0 Some by (intro tasks_inv_frame [of "start_task u s'" s']) (simp_all add: start_task_def)
    then have "tasks_inv (start_task u s') (?ts @ [u])" by (subst tasks_inv_perm [of _ "u # ?ts"]) simp_all
    moreover have "task_in_heap (start_task u s') v = task_in_heap s' v" for v by (cases v) (simp_all add: start_task_def)
    ultimately show ?thesis using Some end_state h1 ts R h0 by (auto simp: supplier_ok_def supplier_inv_def start_task_def)
  qed
qed

text \<open>The other steps.\<close>

lemma register_ok:
  assumes ok: "supplier_ok s" and new: "sv_off sv = None" "\<not> sv_detached sv"
  shows "supplier_ok (fst (register C sv s))"
proof -
  let ?a = "length (su_heap s)"
  let ?s1 = "s\<lparr>su_heap := su_heap s @ [sv], su_servings := js_add ?a (su_servings s)\<rparr>"
  have inv: "tasks_inv s (su_tasks s)" using ok by (simp add: supplier_ok_def supplier_inv_def)
  then have fresh: "?a \<notin> set (su_servings s)" by (simp add: tasks_inv_def servings_wf_def)
  have at: "su_heap ?s1 ! b = su_heap s ! b" if "b < ?a" for b using that by (simp add: nth_append)
  have hooks: "hooks_wf ?s1"
    using inv new unfolding tasks_inv_def hooks_wf_def by (auto simp: nth_append hook_live_def Let_def less_Suc_eq)
  have awaits: "awaits_wf ?s1 (AttachOne ?a AwaitHello # su_tasks s)"
    using inv by (force simp: tasks_inv_def awaits_wf_def nth_append)
  have servings: "servings_wf ?s1"
    using inv new by (auto simp: tasks_inv_def servings_wf_def nth_append js_add_def less_Suc_eq)
  have "off_of ?s1 b \<noteq> None \<or> (\<exists>u \<in> set (AttachOne ?a AwaitHello # su_tasks s). covers ?s1 u b)"
    if "b \<in> set (su_servings ?s1)" "b \<noteq> ?a \<Longrightarrow> off_of s b \<noteq> None \<or> (\<exists>u \<in> set (su_tasks s). covers s u b)" for b
  proof (cases "b = ?a")
    case False
    with that(1) have "b \<in> set (su_servings s)" by simp
    with inv have b: "b < ?a" by (simp add: tasks_inv_def servings_wf_def)
    with that(2) False covers_apart [of ?s1 b s] show ?thesis by (metis at list.set_intros(2))
  qed simp
  moreover have "su_detached ?s1 = su_detached s" "su_timers ?s1 = su_timers s" "set (su_servings ?s1) = insert ?a (set (su_servings s))" by simp_all
  ultimately have "covered ?s1 (AttachOne ?a AwaitHello # su_tasks s)"
    using inv unfolding tasks_inv_def covered_def by (simp only:) blast
  with hooks awaits servings inv have "tasks_inv ?s1 (AttachOne ?a AwaitHello # su_tasks s)" by (simp add: tasks_inv_def)
  then have "tasks_inv ?s1 (su_tasks s @ [AttachOne ?a AwaitHello])" by (subst tasks_inv_perm [of _ "AttachOne ?a AwaitHello # su_tasks s"]) simp_all
  then have "tasks_inv (fst (register C sv s)) (su_tasks s @ [AttachOne ?a AwaitHello])"
    by (rule tasks_inv_frame [rotated -1]) (simp_all add: register_def ensure_hello_def start_task_def Let_def)
  moreover have "task_in_heap (fst (register C sv s)) u" if "task_in_heap s u" for u
    by (rule task_in_heap_mono [OF _ that]) (simp add: register_def ensure_hello_def start_task_def Let_def)
  ultimately show ?thesis using ok
    by (auto simp: supplier_ok_def supplier_inv_def) (auto simp: register_def ensure_hello_def start_task_def Let_def split: if_splits)
qed

lemma detach_handle_ok:
  assumes ok: "supplier_ok s" and a: "a < length (su_heap s)"
  shows "supplier_ok (detach_handle a s)"
proof -
  let ?s1 = "s\<lparr>su_servings := js_remove a (su_servings s)\<rparr>"
  let ?P = "\<lambda>k. off_of s a \<noteq> Some (hk_id k)"
  have inv: "tasks_inv s (su_tasks s)" using ok by (simp add: supplier_ok_def supplier_inv_def)
  have res: "detach_handle a s = next_generation a True ?P ?s1" by (simp add: detach_handle_def serving_calls detach_next_generation)
  have hw: "hooks_wf s" and aw: "awaits_wf s (su_tasks s)" using inv by (simp_all add: tasks_inv_def)
  have hw1: "hooks_wf ?s1" and aw1: "awaits_wf ?s1 (su_tasks s)"
    using hw aw by (simp_all add: hooks_wf_def hook_live_def awaits_wf_def)
  have a1: "a < length (su_heap ?s1)" using a by simp
  have "hooks_wf (detach_handle a s)"
    unfolding res using off_is_own [OF hw _ a] by (intro next_generation_hooks [OF hw1 a1]) auto
  moreover have "awaits_wf (detach_handle a s) (su_tasks s)" unfolding res by (rule next_generation_awaits [OF aw1 a1])
  moreover have "servings_wf (detach_handle a s)"
    unfolding res using inv by (auto simp: tasks_inv_def servings_wf_def next_generation_at [OF a1])
  moreover have "covered (detach_handle a s) (su_tasks s)"
  proof -
    have "off_of (detach_handle a s) b = off_of s b" "covers (detach_handle a s) u b = covers s u b" if "b \<noteq> a" for b u
      using that by (auto simp: res next_generation_at [OF a1] intro!: covers_apart)
    then show ?thesis using inv by (auto simp: tasks_inv_def covered_def) (auto simp: res)
  qed
  ultimately have "tasks_inv (detach_handle a s) (su_tasks s)" using inv by (simp add: tasks_inv_def)
  moreover have "task_in_heap (detach_handle a s) u" if "task_in_heap s u" for u
    by (rule task_in_heap_mono [OF _ that]) (simp add: res)
  ultimately show ?thesis using ok by (simp add: supplier_ok_def supplier_inv_def res)
qed

lemma fold_generations:
  assumes step: "\<And>a s. f a s = next_generation a (d (detached_of s a)) (P s a) s" and idem: "\<And>x. d (d x) = d x"
    and own: "\<And>s a k. hooks_wf s \<Longrightarrow> a < length (su_heap s) \<Longrightarrow> k \<in> set (su_hooks s) \<Longrightarrow> hk_serving k \<noteq> a \<Longrightarrow> P s a k"
    and "hooks_wf s" "awaits_wf s ts" "\<forall>a \<in> set as. a < length (su_heap s)"
  shows "hooks_wf (fold f as s) \<and> awaits_wf (fold f as s) ts \<and> same_frame s (fold f as s) \<and> su_timers (fold f as s) = su_timers s
    \<and> (\<forall>b. detached_of (fold f as s) b = (if b \<in> set as then d (detached_of s b) else detached_of s b))"
  using assms(4-)
proof (induction as arbitrary: s)
  case (Cons a as)
  have a: "a < length (su_heap s)" using Cons.prems by simp
  have s1: "f a s = next_generation a (d (detached_of s a)) (P s a) s" by (rule step)
  have "hooks_wf (f a s)" unfolding s1 using own [OF Cons.prems(1) a] by (rule next_generation_hooks [OF Cons.prems(1) a])
  moreover have "awaits_wf (f a s) ts" unfolding s1 by (rule next_generation_awaits [OF Cons.prems(2) a])
  moreover have "\<forall>b \<in> set as. b < length (su_heap (f a s))" using Cons.prems(3) by (simp add: s1)
  ultimately have ih: "hooks_wf (fold f as (f a s)) \<and> awaits_wf (fold f as (f a s)) ts \<and> same_frame (f a s) (fold f as (f a s))
    \<and> su_timers (fold f as (f a s)) = su_timers (f a s)
    \<and> (\<forall>b. detached_of (fold f as (f a s)) b = (if b \<in> set as then d (detached_of (f a s) b) else detached_of (f a s) b))"
    by (rule Cons.IH)
  have "detached_of (f a s) b = (if b = a then d (detached_of s a) else detached_of s b)" for b
    by (simp add: s1 next_generation_at [OF a])
  moreover have "same_frame s (f a s)" "su_timers (f a s) = su_timers s" by (simp_all add: s1 same_frame_def)
  ultimately show ?case using ih by (simp add: same_frame_def idem)
qed simp

lemma detach_all_ok:
  assumes ok: "supplier_ok s"
  shows "supplier_ok (detach_all s) \<and> su_detached (detach_all s)"
proof -
  define s3 where "s3 = (let s1 = s\<lparr>su_detached := True\<rparr>;
          s2 = (case su_cancel s1 of None \<Rightarrow> s1 | Some t \<Rightarrow> s1\<lparr>su_timers := filter (\<lambda>(i, ms). i \<noteq> t) (su_timers s1)\<rparr>)
      in s2\<lparr>su_cancel := None, su_drop_on := False\<rparr>)"
  have s3: "su_heap s3 = su_heap s" "su_servings s3 = su_servings s" "su_hooks s3 = su_hooks s" "su_fresh s3 = su_fresh s"
      "su_tasks s3 = su_tasks s" "su_detached s3"
    by (simp_all add: s3_def Let_def split: option.split)
  define s4 where "s4 = fold serving_detach (su_servings s3) s3"
  have res: "detach_all s = s4\<lparr>su_servings := []\<rparr>" by (simp add: detach_all_def s4_def s3_def Let_def)
  have inv: "tasks_inv s (su_tasks s)" using ok by (simp add: supplier_ok_def supplier_inv_def)
  then have inv3: "tasks_inv s3 (su_tasks s)" by (rule tasks_inv_frame [rotated -1]) (simp_all add: s3)
  have F: "hooks_wf s4 \<and> awaits_wf s4 (su_tasks s) \<and> same_frame s3 s4 \<and> su_timers s4 = su_timers s3
    \<and> (\<forall>b. detached_of s4 b = (if b \<in> set (su_servings s3) then True else detached_of s3 b))"
    unfolding s4_def serving_calls
  proof (rule fold_generations [where d = "\<lambda>_. True" and P = "\<lambda>s a k. off_of s a \<noteq> Some (hk_id k)"])
    show "exchange_detach a s = next_generation a True (\<lambda>k. off_of s a \<noteq> Some (hk_id k)) s" for a s by (rule detach_next_generation)
    show "off_of s a \<noteq> Some (hk_id k)" if "hooks_wf s" "a < length (su_heap s)" "k \<in> set (su_hooks s)" "hk_serving k \<noteq> a" for s a k
      using off_is_own [OF that(1,3,2)] that(4) by blast
  qed (use inv3 in \<open>simp_all add: tasks_inv_def servings_wf_def\<close>)
  have det: "detached_of s4 b = (detached_of s3 b \<or> b \<in> set (su_servings s3))" for b using F by simp
  have len: "length (su_heap s4) = length (su_heap s)" using F by (simp add: same_frame_def s3)
  have "hooks_wf (detach_all s)" using F by (simp add: res hooks_wf_def hook_live_def Let_def)
  moreover have "awaits_wf (detach_all s) (su_tasks s)" using F by (simp add: res awaits_wf_def)
  moreover have "servings_wf (detach_all s)"
    using inv3 len unfolding tasks_inv_def servings_wf_def by (auto simp: res det s3)
  moreover have detached: "su_detached (detach_all s)" using F by (simp add: res same_frame_def s3)
  moreover have "su_tasks (detach_all s) = su_tasks s" using F by (simp add: res same_frame_def s3)
  moreover have "task_in_heap (detach_all s) u" if "task_in_heap s u" for u
    by (rule task_in_heap_mono [OF _ that]) (simp add: res len)
  ultimately show ?thesis using ok by (simp add: supplier_ok_def supplier_inv_def tasks_inv_def covered_def)
qed

lemma on_drop_ok:
  assumes ok: "supplier_ok s"
  shows "supplier_ok (on_drop C s)"
proof (cases "su_detached s")
  case False
  define s1 where "s1 = fold serving_mark_dropped (su_servings s) s"
  define s2 where "s2 = s1\<lparr>su_helloed := False, su_attempt := 0\<rparr>"
  have res: "on_drop C s = schedule_reattach C s2" using False by (simp add: on_drop_def s1_def s2_def)
  have inv: "tasks_inv s (su_tasks s)" using ok by (simp add: supplier_ok_def supplier_inv_def)
  have F: "hooks_wf s1 \<and> awaits_wf s1 (su_tasks s) \<and> same_frame s s1 \<and> su_timers s1 = su_timers s
    \<and> (\<forall>b. detached_of s1 b = (if b \<in> set (su_servings s) then detached_of s b else detached_of s b))"
    unfolding s1_def serving_calls
  proof (rule fold_generations [where d = "\<lambda>x. x" and P = "\<lambda>s a k. True"])
    show "exchange_mark_dropped a s = next_generation a (detached_of s a) (\<lambda>k. True) s" for a s by (rule drop_next_generation)
  qed (use inv in \<open>simp_all add: tasks_inv_def servings_wf_def\<close>)
  then have frame: "su_tasks s1 = su_tasks s" "length (su_heap s1) = length (su_heap s)" "su_servings s1 = su_servings s" "su_detached s1 = su_detached s"
    by (simp_all add: same_frame_def)
  let ?s = "schedule_reattach C s2"
  have "hooks_wf ?s" using F by (simp add: schedule_reattach_def s2_def hooks_wf_def hook_live_def Let_def less_Suc_eq)
  moreover have "awaits_wf ?s (su_tasks s)" using F by (simp add: schedule_reattach_def s2_def awaits_wf_def)
  moreover have "servings_wf ?s" using inv F by (simp add: schedule_reattach_def s2_def tasks_inv_def servings_wf_def frame)
  moreover have "covered ?s (su_tasks s)" by (simp add: covered_def schedule_reattach_def)
  moreover have "su_tasks ?s = su_tasks s" by (simp add: schedule_reattach_def s2_def frame)
  moreover have "task_in_heap ?s u" if "task_in_heap s u" for u
    by (rule task_in_heap_mono [OF _ that]) (simp add: schedule_reattach_def s2_def frame)
  ultimately show ?thesis using ok by (simp add: supplier_ok_def supplier_inv_def tasks_inv_def res)
qed (use ok in \<open>simp add: on_drop_def\<close>)

lemma fire_ok:
  assumes ok: "supplier_ok s"
  shows "supplier_ok (fire C t s)"
proof -
  let ?s1 = "s\<lparr>su_timers := filter (\<lambda>(i, ms). i \<noteq> t) (su_timers s)\<rparr>"
  let ?R = "ReattachAll [] AwaitHello"
  have inv: "tasks_inv s (su_tasks s)" using ok by (simp add: supplier_ok_def supplier_inv_def)
  have same: "task_in_heap (fire C t s) u = task_in_heap s u" for u
    by (cases u) (simp_all add: fire_def start_task_def ensure_hello_def Let_def)
  show ?thesis
  proof (cases "su_detached s")
    case True
    then have "fire C t s = ?s1" by (simp add: fire_def)
    moreover have "tasks_inv ?s1 (su_tasks s)" using inv True by (intro tasks_inv_frame [OF _ _ _ _ _ inv]) simp_all
    ultimately show ?thesis using ok same by (simp add: supplier_ok_def supplier_inv_def)
  next
    case False
    have tasks: "su_tasks (fire C t s) = su_tasks s @ [?R]"
      using False by (simp add: fire_def start_task_def ensure_hello_def Let_def)
    have "hooks_wf (fire C t s)" "awaits_wf (fire C t s) (su_tasks s @ [?R])" "servings_wf (fire C t s)"
      using inv False by (simp_all add: fire_def start_task_def ensure_hello_def Let_def tasks_inv_def hooks_wf_def hook_live_def awaits_wf_def servings_wf_def)
    moreover have "covered (fire C t s) (su_tasks s @ [?R])" by (auto simp: covered_def)
    ultimately have "tasks_inv (fire C t s) (su_tasks s @ [?R])" using inv by (simp add: tasks_inv_def)
    moreover have "\<forall>u \<in> set (su_tasks s @ [?R]). task_in_heap (fire C t s) u" using ok by (simp add: same supplier_ok_def)
    ultimately show ?thesis unfolding supplier_ok_def supplier_inv_def tasks by blast
  qed
qed

lemma serve_ok:
  assumes "supplier_ok s"
  shows "supplier_ok (fst (serve_exchange C sf s))" "supplier_ok (fst (serve_share C sf s))"
  using assms register_ok [OF assms, of "new_serving k sf" C for k]
  by (auto simp: serve_exchange_def serve_share_def new_serving_def split_beta split: sum.split)

lemma supplier_step_ok: "supplier_step C s l s' \<Longrightarrow> supplier_ok s \<Longrightarrow> supplier_ok s'"
  by (induction rule: supplier_step.induct)
    (simp_all add: serve_ok detach_handle_ok detach_all_ok on_drop_ok fire_ok resume_ok)

lemma attach_supplier_ok: "supplier_ok (attach_supplier b)"
  by (simp add: supplier_ok_def supplier_inv_def tasks_inv_def hooks_wf_def awaits_wf_def servings_wf_def covered_def attach_supplier_def)

lemma supplier_run_ok: "steps (supplier_step C) (attach_supplier b) ls s \<Longrightarrow> supplier_ok s"
  by (erule steps_invariant [where I = supplier_ok]) (simp_all add: attach_supplier_ok supplier_step_ok)

subsection \<open>Who is served\<close>

lemma live_registered:
  assumes ok: "supplier_ok s" and k: "k \<in> set (su_hooks s)" "hook_live s k"
  shows "hk_serving k \<in> set (su_servings s) \<and> off_of s (hk_serving k) = Some (hk_id k)"
  using assms by (auto simp: supplier_ok_def supplier_inv_def tasks_inv_def hooks_wf_def servings_wf_def hook_live_def Let_def)

lemma live_distinct:
  assumes ok: "supplier_ok s"
  shows "distinct (map hk_serving (filter (\<lambda>k. Q k \<and> hook_live s k) (su_hooks s)))"
proof -
  have wf: "hooks_wf s" using ok by (simp add: supplier_ok_def supplier_inv_def tasks_inv_def)
  have "k = k'" if "k \<in> set (su_hooks s)" "hook_live s k" "k' \<in> set (su_hooks s)" "hook_live s k'" "hk_serving k = hk_serving k'" for k k'
  proof -
    have "hk_id k = hk_id k'" using live_registered [OF ok that(1,2)] live_registered [OF ok that(3,4)] that(5) by simp
    with wf that(1,3) show ?thesis by (auto simp: hooks_wf_def distinct_map dest: inj_onD)
  qed
  with wf show ?thesis by (auto simp: hooks_wf_def distinct_map inj_on_def)
qed

text \<open>A serving with a registration of its current generation.\<close>

lemma attached_live:
  assumes ok: "supplier_ok s" and a: "a \<in> set (su_servings s)" and off: "off_of s a \<noteq> None"
  shows "\<exists>k \<in> set (su_hooks s). hk_serving k = a \<and> hook_live s k"
proof -
  have "a < length (su_heap s)" "\<not> detached_of s a" "hooks_wf s"
    using ok a by (simp_all add: supplier_ok_def supplier_inv_def tasks_inv_def servings_wf_def)
  with off show ?thesis unfolding hooks_wf_def hook_live_def Let_def by (metis not_None_eq)
qed

definition quiet :: "supplier \<Rightarrow> bool" where
  "quiet s \<longleftrightarrow> su_tasks s = [] \<and> su_timers s = []"

lemma quiet_attached: "supplier_ok s \<Longrightarrow> \<not> su_detached s \<Longrightarrow> quiet s \<Longrightarrow> a \<in> set (su_servings s) \<Longrightarrow> off_of s a \<noteq> None"
  by (auto simp: supplier_ok_def supplier_inv_def tasks_inv_def covered_def quiet_def)

lemma quiet_requests:
  assumes "supplier_ok s" "\<not> su_detached s" "quiet s"
  shows "set (deliver_request rq s) =
    {a \<in> set (su_servings s). sv_kind (su_heap s ! a) = ExchangeServing \<and> exchange_accepts (sv_surface (su_heap s ! a)) rq}"
  using live_registered [OF assms(1)] attached_live [OF assms(1)] quiet_attached [OF assms]
  by (fastforce simp: deliver_request_def)

lemma quiet_ops:
  assumes "supplier_ok s" "\<not> su_detached s" "quiet s"
  shows "set (deliver_ops ops s) =
    {(a, share_ops (sv_surface (su_heap s ! a)) ops) | a. a \<in> set (su_servings s) \<and> sv_kind (su_heap s ! a) \<noteq> ExchangeServing}"
  using live_registered [OF assms(1)] attached_live [OF assms(1)] quiet_attached [OF assms]
  by (fastforce simp: deliver_ops_def)

subsection \<open>Recovery\<close>

text \<open>
  Steps of a healthy link: a suspended function goes on with its promise resolved, or a timer fires. What is
  left to do shrinks with every such step.
\<close>

fun task_weight :: "nat list \<Rightarrow> task \<Rightarrow> nat" where
  "task_weight as (AttachOne a ph) = (case ph of AwaitHello \<Rightarrow> 3 | AwaitSubscribe b g \<Rightarrow> 2
     | AwaitAttach b ok \<Rightarrow> if ok then 1 else 2 * length as + 3)"
| "task_weight as (ReattachAll reached ph) = (let u = length (filter (\<lambda>a. a \<notin> set reached) as) in
     case ph of AwaitHello \<Rightarrow> 2 * u + 1 | AwaitSubscribe b g \<Rightarrow> 2 * u + 2 | AwaitAttach b ok \<Rightarrow> if ok then 2 * u + 1 else 2 * length as + 3)"

definition work_left :: "supplier \<Rightarrow> nat" where
  "work_left s = (2 * length (su_servings s) + 2) * length (su_timers s) + sum_list (map (task_weight (su_servings s)) (su_tasks s))"

lemma subscribed_resolves: "snd (serving_attached a g Subscribed s) = True"
  by (simp add: serving_attached_def exchange_attached_def share_attached_def Let_def split: serving_kind.split)

lemma attach_timers [simp]: "su_timers (fst (call_attach a s)) = su_timers s" "su_timers (fst (serving_attached a g out s)) = su_timers s"
proof -
  show "su_timers (fst (call_attach a s)) = su_timers s"
    by (cases "detached_of s a") (simp_all add: call_attach_def serving_calls attach_next_generation, simp add: exchange_attach_def Let_def)
  show "su_timers (fst (serving_attached a g out s)) = su_timers s"
    by (rule serving_attached_cases [of a g out s]) (auto simp: set_serving_def)
qed

lemma call_attach_phase: "snd (call_attach a s) = AwaitAttach a True \<or> (\<exists>g. snd (call_attach a s) = AwaitSubscribe a g)"
  by (auto simp: call_attach_def split: prod.split option.split)

lemma unreached_less:
  "find (\<lambda>a. a \<notin> set reached) as = Some a \<Longrightarrow> length (filter (\<lambda>b. b \<notin> set (reached @ [a])) as) < length (filter (\<lambda>b. b \<notin> set reached) as)"
proof -
  assume "find (\<lambda>a. a \<notin> set reached) as = Some a"
  then have a: "a \<in> set as" "a \<notin> set reached" by (auto simp: find_Some_iff)
  have "filter (\<lambda>b. b \<notin> set (reached @ [a])) as = filter (\<lambda>b. b \<noteq> a) (filter (\<lambda>b. b \<notin> set reached) as)"
    by (auto intro!: filter_cong)
  moreover have "length (filter (\<lambda>b. b \<noteq> a) (filter (\<lambda>b. b \<notin> set reached) as)) < length (filter (\<lambda>b. b \<notin> set reached) as)"
    using a by (intro length_filter_less [of a]) auto
  ultimately show ?thesis by simp
qed

lemma reattach_next_work:
  "su_timers (fst (reattach_next reached s)) = su_timers s
    \<and> (case snd (reattach_next reached s) of None \<Rightarrow> 0 | Some u \<Rightarrow> task_weight (su_servings s) u)
      < 2 * length (filter (\<lambda>a. a \<notin> set reached) (su_servings s)) + 1"
proof (cases "find (\<lambda>a. a \<notin> set reached) (su_servings s)")
  case (Some a)
  with unreached_less [OF Some] call_attach_phase [of a s] show ?thesis by (auto simp: reattach_next_def split_beta Let_def)
qed (simp add: reattach_next_def)

definition task_result :: "supplier_config \<Rightarrow> task \<Rightarrow> attach_outcome \<Rightarrow> supplier \<Rightarrow> supplier \<times> task option" where
  "task_result C t out s = (case t of AttachOne a ph \<Rightarrow> attach_one C a ph out s | ReattachAll reached ph \<Rightarrow> reattach_all C reached ph out s)"

lemma task_result_work:
  "(2 * length (su_servings s) + 2) * length (su_timers (fst (task_result C t Subscribed s)))
     + (case snd (task_result C t Subscribed s) of None \<Rightarrow> 0 | Some u \<Rightarrow> task_weight (su_servings s) u)
   < (2 * length (su_servings s) + 2) * length (su_timers s) + task_weight (su_servings s) t"
proof (cases t)
  case (AttachOne a ph)
  then show ?thesis using call_attach_phase [of a s]
    by (auto simp: task_result_def attach_one_def split_beta subscribed_resolves schedule_reattach_def split: attach_phase.split)
next
  case (ReattachAll reached ph)
  then show ?thesis using reattach_next_work [of reached s]
    by (auto simp: task_result_def reattach_all_def split_beta subscribed_resolves schedule_reattach_def Let_def split: attach_phase.split)
qed

text \<open>What a step of a healthy link keeps.\<close>

definition same_service :: "supplier \<Rightarrow> supplier \<Rightarrow> bool" where
  "same_service s s' \<longleftrightarrow> su_servings s' = su_servings s \<and> su_detached s' = su_detached s \<and> faces s' = faces s"

lemma same_service_simps: "same_service s s" "same_service s t \<Longrightarrow> same_service t u \<Longrightarrow> same_service s u"
  by (simp_all add: same_service_def)

lemma resume_progress:
  assumes i: "i < length (su_tasks s)"
  shows "work_left (resume C i Subscribed s) < work_left s \<and> same_service s (resume C i Subscribed s)"
proof -
  let ?t = "su_tasks s ! i" and ?ts = "take i (su_tasks s) @ drop (Suc i) (su_tasks s)"
  let ?s0 = "s\<lparr>su_tasks := ?ts\<rparr>"
  obtain s' t' where res: "task_result C ?t Subscribed ?s0 = (s', t')" by fastforce
  have frame: "same_frame ?s0 s'"
    using res attach_one_frame [of ?s0 C] reattach_all_frame [of ?s0 C] by (simp add: task_result_def split: task.splits) (metis fst_conv)+
  have end_state: "resume C i Subscribed s = (case t' of None \<Rightarrow> s' | Some u \<Rightarrow> start_task u s')"
    using res by (simp add: resume_def task_result_def Let_def)
  have split: "su_tasks s = take i (su_tasks s) @ ?t # drop (Suc i) (su_tasks s)" using i by (rule id_take_nth_drop)
  have sum: "sum_list (map f (su_tasks s)) = f ?t + sum_list (map f ?ts)" for f :: "task \<Rightarrow> nat"
    using arg_cong [OF split, of "\<lambda>ts. sum_list (map f ts)"] by simp
  have tasks: "su_tasks s' = ?ts" "su_servings s' = su_servings s" using frame by (simp_all add: same_frame_def)
  have "work_left (resume C i Subscribed s) < work_left s"
    using task_result_work [of ?s0 C ?t]
    by (cases t') (simp_all add: work_left_def end_state start_task_def tasks sum res)
  moreover have "same_service s (resume C i Subscribed s)"
    using frame by (cases t') (simp_all add: end_state start_task_def same_service_def same_frame_def faces_def)
  ultimately show ?thesis by blast
qed

lemma fire_progress:
  assumes t: "(t, ms) \<in> set (su_timers s)" and live: "\<not> su_detached s"
  shows "work_left (fire C t s) < work_left s \<and> same_service s (fire C t s)"
proof -
  have less: "length (filter (\<lambda>(i, ms). i \<noteq> t) (su_timers s)) < length (su_timers s)"
    using t by (intro length_filter_less) auto
  have "(2 * length (su_servings s) + 2) * length (filter (\<lambda>(i, ms). i \<noteq> t) (su_timers s)) + (2 * length (su_servings s) + 2)
      \<le> (2 * length (su_servings s) + 2) * length (su_timers s)"
    using mult_le_mono2 [of "Suc (length (filter (\<lambda>(i, ms). i \<noteq> t) (su_timers s)))" "length (su_timers s)" "2 * length (su_servings s) + 2"] less
    by simp
  with live show ?thesis by (simp add: fire_def Let_def work_left_def start_task_def ensure_hello_def same_service_def faces_def)
qed

definition healthy :: "supplier_label \<Rightarrow> bool" where
  "healthy l \<longleftrightarrow> (case l of TaskResumes i out \<Rightarrow> out = Subscribed | TimerFires t \<Rightarrow> True | _ \<Rightarrow> False)"

lemma recovers:
  assumes "supplier_ok s" "\<not> su_detached s"
  shows "\<exists>ls s'. (\<forall>l \<in> set ls. healthy l) \<and> steps (supplier_step C) s ls s' \<and> quiet s' \<and> supplier_ok s' \<and> same_service s s'"
  using assms
proof (induction "work_left s" arbitrary: s rule: less_induct)
  case less
  show ?case
  proof (cases "quiet s")
    case True
    with less.prems show ?thesis by (intro exI [of _ "[]"] exI [of _ s]) (simp add: same_service_simps)
  next
    case False
    then obtain l s1 where l: "healthy l" "supplier_step C s l s1" "work_left s1 < work_left s" "same_service s s1"
    proof (cases "su_tasks s")
      case Nil
      with False have "hd (su_timers s) \<in> set (su_timers s)" by (simp add: quiet_def)
      then obtain t ms where t: "(t, ms) \<in> set (su_timers s)" by (metis surj_pair)
      with that [of "TimerFires t" "fire C t s"] fire_progress [OF t less.prems(2)] show ?thesis by (simp add: healthy_def step_fire)
    next
      case (Cons u us)
      with that [of "TaskResumes 0 Subscribed" "resume C 0 Subscribed s"] resume_progress [of 0 s C] show ?thesis
        by (simp add: healthy_def step_resume)
    qed
    have "supplier_ok s1" "\<not> su_detached s1" using l less.prems by (simp_all add: supplier_step_ok same_service_def)
    then obtain ls s' where "\<forall>l \<in> set ls. healthy l" "steps (supplier_step C) s1 ls s'" "quiet s'" "supplier_ok s'" "same_service s1 s'"
      using less.hyps [OF l(3)] by blast
    with l show ?thesis by (intro exI [of _ "l # ls"] exI [of _ s']) (auto intro: same_service_simps)
  qed
qed

subsection \<open>Kinds and shapes\<close>

text \<open>A serving has the kind that its declared shape allows, for as long as it exists.\<close>

definition faces_wf :: "supplier \<Rightarrow> bool" where
  "faces_wf s \<longleftrightarrow> (\<forall>(kind, sf) \<in> set (faces s). case kind of
     ExchangeServing \<Rightarrow> sf_shape sf = jlit ''exchange''
   | ShareServing adapter \<Rightarrow> require_fold_shape_adapter (sf_shape sf) (jlit ''serveShare'') = Inr adapter)"

lemma register_faces: "faces (fst (register C sv s)) = faces s @ [(sv_kind sv, sv_surface sv)]"
  by (simp add: register_def start_task_def ensure_hello_def Let_def faces_def)

lemma fold_faces: "(\<And>a s. faces (f a s) = faces s) \<Longrightarrow> faces (fold f as s) = faces s"
  by (induction as arbitrary: s) simp_all

lemma detach_faces: "faces (serving_detach a s) = faces s" "faces (serving_mark_dropped a s) = faces s"
  by (simp_all add: serving_calls detach_next_generation drop_next_generation)

lemma resume_faces: "i < length (su_tasks s) \<Longrightarrow> faces (resume C i out s) = faces s"
  using attach_one_frame [of "s\<lparr>su_tasks := ts\<rparr>" C for ts] reattach_all_frame [of "s\<lparr>su_tasks := ts\<rparr>" C for ts]
  by (auto simp: resume_def Let_def start_task_def same_frame_def faces_def split_beta split: task.splits option.splits)

lemma step_faces: "supplier_step C s l s' \<Longrightarrow> faces_wf s \<Longrightarrow> faces_wf s'"
proof (induction rule: supplier_step.induct)
  case (step_exchange s sf)
  then show ?case
    by (auto simp: serve_exchange_def require_exchange_shape_def split_beta faces_wf_def register_faces new_serving_def)
next
  case (step_share s sf)
  then show ?case
    by (auto simp: serve_share_def split_beta faces_wf_def register_faces new_serving_def split: sum.split)
next
  case (step_detach a s)
  moreover have "faces (detach_handle a s) = faces s" by (simp add: detach_handle_def detach_faces) (simp add: faces_def)
  ultimately show ?case by (simp add: faces_wf_def)
next
  case (step_detach_all s)
  moreover have "faces (detach_all s) = faces s"
  proof -
    have f: "faces (x\<lparr>su_servings := []\<rparr>) = faces x" for x :: supplier by (simp add: faces_def)
    show ?thesis unfolding detach_all_def Let_def f
      by (simp add: fold_faces [of serving_detach, OF detach_faces(1)]) (simp add: faces_def split: option.split)
  qed
  ultimately show ?case by (simp add: faces_wf_def)
next
  case (step_drop s)
  moreover have "faces (on_drop C s) = faces s"
    using fold_faces [of serving_mark_dropped, OF detach_faces(2)] by (simp add: on_drop_def schedule_reattach_def faces_def)
  ultimately show ?case by (simp add: faces_wf_def)
next
  case (step_fire t ms s)
  moreover have "faces (fire C t s) = faces s" by (simp add: fire_def Let_def start_task_def ensure_hello_def faces_def)
  ultimately show ?case by (simp add: faces_wf_def)
next
  case (step_resume i s out)
  then show ?case by (simp add: faces_wf_def resume_faces)
qed

lemma run_faces: "steps (supplier_step C) (attach_supplier b) ls s \<Longrightarrow> faces_wf s"
  by (erule steps_invariant) (simp add: faces_wf_def faces_def attach_supplier_def, rule step_faces)

lemma run_share_kind:
  assumes "steps (supplier_step C) (attach_supplier b) ls s" "a < length (su_heap s)" "sv_kind (su_heap s ! a) = ShareServing adapter"
  shows "sf_shape (sv_surface (su_heap s ! a)) = shape_name (ad_shape adapter) \<and> ad_shape adapter \<in> {Value, Log}"
proof -
  have "(ShareServing adapter, sv_surface (su_heap s ! a)) \<in> set (faces s)"
    using assms(2,3) by (force simp: faces_def)
  with run_faces [OF assms(1)] have "require_fold_shape_adapter (sf_shape (sv_surface (su_heap s ! a))) (jlit ''serveShare'') = Inr adapter"
    by (auto simp: faces_wf_def)
  then show ?thesis by (simp add: require_fold_Inr)
qed

subsection \<open>Delays and answers\<close>

lemma backoff_bounds:
  assumes "0 \<le> default_to 250 (Option.bind cfg bk_initial_ms)" "1 \<le> default_to 2 (Option.bind cfg bk_factor)" "m \<le> n"
  shows "backoff_ms cfg m \<le> backoff_ms cfg n \<and> backoff_ms cfg n \<le> default_to 10000 (Option.bind cfg bk_max_ms)"
proof -
  have "default_to 2 (Option.bind cfg bk_factor) ^ m \<le> default_to 2 (Option.bind cfg bk_factor) ^ n"
    using assms(2,3) by (rule power_increasing [rotated])
  then show ?thesis using assms(1) by (auto simp: backoff_ms_def Let_def mult_left_mono intro: min.coboundedI2)
qed

lemma answer_request_corr:
  "answer_request rq outcome thr \<noteq> [] \<and> (\<forall>r \<in> set (answer_request rq outcome thr). xr_corr r = xq_corr rq)
    \<and> (thr = None \<or> isl outcome \<longrightarrow> length (answer_request rq outcome thr) = 1)
    \<and> (isl outcome \<longrightarrow> \<not> xr_ok (hd (answer_request rq outcome thr)))"
  by (auto simp: answer_request_def Let_def split: sum.split option.split)

subsection \<open>Properties\<close>

text \<open>C8. Fencing: after any run of serving, attaching, drops, timers and detaching in any order, a
  request is taken at most once by each serving and a batch of operations is handed at most once to each
  source; whoever takes it is a serving that is still registered, of the right kind, on the
  request's surface, and a source gets exactly the operations of its surface in order. Once nothing is
  under way and the supplier is not detached, every registered serving takes part.\<close>

theorem supplier_delivers_once:
  assumes "steps (supplier_step C) (attach_supplier b) ls s"
  shows "distinct (deliver_request rq s) \<and> distinct (map fst (deliver_ops ops s))
    \<and> set (deliver_request rq s) \<subseteq> {a \<in> set (su_servings s). sv_kind (su_heap s ! a) = ExchangeServing
          \<and> xq_share rq = sf_share (sv_surface (su_heap s ! a)) \<and> xq_glade_id rq = sf_glade_id (sv_surface (su_heap s ! a))}
    \<and> set (deliver_ops ops s) \<subseteq> {(a, share_ops (sv_surface (su_heap s ! a)) ops) | a.
          a \<in> set (su_servings s) \<and> sv_kind (su_heap s ! a) \<noteq> ExchangeServing}
    \<and> (su_tasks s = [] \<and> su_timers s = [] \<and> \<not> su_detached s \<longrightarrow>
         set (map fst (deliver_ops ops s)) = {a \<in> set (su_servings s). sv_kind (su_heap s ! a) \<noteq> ExchangeServing}
         \<and> set (deliver_request rq s) = {a \<in> set (su_servings s). sv_kind (su_heap s ! a) = ExchangeServing
              \<and> exchange_accepts (sv_surface (su_heap s ! a)) rq})"
proof -
  have ok: "supplier_ok s" using assms by (rule supplier_run_ok)
  have "distinct (deliver_request rq s)"
    using live_distinct [OF ok, of "\<lambda>k. sv_kind (su_heap s ! hk_serving k) = ExchangeServing \<and> exchange_accepts (sv_surface (su_heap s ! hk_serving k)) rq"]
    by (simp add: deliver_request_def conj_ac)
  moreover have "distinct (map fst (deliver_ops ops s))"
    using live_distinct [OF ok] by (simp add: deliver_ops_def comp_def)
  moreover have "set (deliver_request rq s) \<subseteq> {a \<in> set (su_servings s). sv_kind (su_heap s ! a) = ExchangeServing
      \<and> xq_share rq = sf_share (sv_surface (su_heap s ! a)) \<and> xq_glade_id rq = sf_glade_id (sv_surface (su_heap s ! a))}"
    using live_registered [OF ok] by (auto simp: deliver_request_def exchange_accepts_def)
  moreover have "set (deliver_ops ops s) \<subseteq> {(a, share_ops (sv_surface (su_heap s ! a)) ops) | a.
      a \<in> set (su_servings s) \<and> sv_kind (su_heap s ! a) \<noteq> ExchangeServing}"
    using live_registered [OF ok] by (auto simp: deliver_ops_def)
  moreover have "set (map fst (deliver_ops ops s)) = {a \<in> set (su_servings s). sv_kind (su_heap s ! a) \<noteq> ExchangeServing}"
    if "\<not> su_detached s" "quiet s"
    unfolding set_map quiet_ops [OF ok that] by force
  ultimately show ?thesis using quiet_requests [OF ok, of rq] unfolding quiet_def by blast
qed

text \<open>C4. Recovery: from any reachable state of a supplier that is not detached, promises that resolve and
  timers that fire lead to a state in which nothing is under way and exactly the registered
  servings are attached: every request and every operation for one of them is delivered.\<close>

theorem supplier_recovers:
  assumes "steps (supplier_step C) (attach_supplier b) ls s" "\<not> su_detached s"
  shows "\<exists>ms s'. (\<forall>l \<in> set ms. healthy l) \<and> steps (supplier_step C) s ms s' \<and> su_tasks s' = [] \<and> su_timers s' = []
    \<and> su_servings s' = su_servings s
    \<and> (\<forall>rq. set (deliver_request rq s') = {a \<in> set (su_servings s). sv_kind (su_heap s ! a) = ExchangeServing
          \<and> exchange_accepts (sv_surface (su_heap s ! a)) rq})
    \<and> (\<forall>ops. set (deliver_ops ops s') = {(a, share_ops (sv_surface (su_heap s ! a)) ops) | a.
          a \<in> set (su_servings s) \<and> sv_kind (su_heap s ! a) \<noteq> ExchangeServing})"
proof -
  have ok: "supplier_ok s" using assms(1) by (rule supplier_run_ok)
  from recovers [OF ok assms(2), of C] obtain ms s' where ms: "\<forall>l \<in> set ms. healthy l" "steps (supplier_step C) s ms s'"
    and q: "quiet s'" "supplier_ok s'" "same_service s s'" by blast
  have "a < length (su_heap s)" if "a \<in> set (su_servings s)" for a
    using that ok by (simp add: supplier_ok_def supplier_inv_def tasks_inv_def servings_wf_def)
  then have same: "sv_kind (su_heap s' ! a) = sv_kind (su_heap s ! a) \<and> sv_surface (su_heap s' ! a) = sv_surface (su_heap s ! a)"
    if "a \<in> set (su_servings s)" for a
    using that faces_at [of s' s a] q(3) by (simp add: same_service_def)
  have "\<not> su_detached s'" and servings: "su_servings s' = su_servings s" using q(3) assms(2) by (simp_all add: same_service_def)
  note Q = quiet_requests [OF q(2) this(1) q(1)] quiet_ops [OF q(2) this(1) q(1)]
  have "set (deliver_request rq s') = {a \<in> set (su_servings s). sv_kind (su_heap s ! a) = ExchangeServing
      \<and> exchange_accepts (sv_surface (su_heap s ! a)) rq}" for rq
    unfolding Q(1) servings using same by auto
  moreover have "set (deliver_ops ops s') = {(a, share_ops (sv_surface (su_heap s ! a)) ops) | a.
      a \<in> set (su_servings s) \<and> sv_kind (su_heap s ! a) \<noteq> ExchangeServing}" for ops
    unfolding Q(2) servings using same by auto
  ultimately show ?thesis using ms q(1) servings unfolding quiet_def by blast
qed

text \<open>C40. A share serving publishes what its declared shape allows and nothing after it is detached: \<open>set\<close>
  appends to the surface exactly for a registered value surface, \<open>append\<close> exactly for a registered log surface.\<close>

theorem share_controller_typed:
  assumes "steps (supplier_step C) (attach_supplier b) ls s" "a < length (su_heap s)" "sv_kind (su_heap s ! a) = ShareServing adapter"
    and "sf = sv_surface (su_heap s ! a)"
    and "sent = \<lparr>sa_share = sf_share sf, sa_glade_id = sf_glade_id sf, sa_shape = sf_shape sf, sa_payload = payload, sa_key = surface_key sf\<rparr>"
  shows "(share_set adapter (su_heap s ! a) payload = Inr r \<longleftrightarrow> sf_shape sf = jlit ''value'' \<and> a \<in> set (su_servings s) \<and> r = sent)
    \<and> (share_append adapter (su_heap s ! a) payload = Inr r \<longleftrightarrow> sf_shape sf = jlit ''log'' \<and> a \<in> set (su_servings s) \<and> r = sent)
    \<and> (a \<in> set (su_servings s) \<longrightarrow> isl (share_set adapter (su_heap s ! a) payload) \<noteq> isl (share_append adapter (su_heap s ! a) payload))"
proof -
  have "supplier_ok s" using assms(1) by (rule supplier_run_ok)
  then have reg: "a \<in> set (su_servings s) \<longleftrightarrow> \<not> detached_of s a"
    using assms(2) by (simp add: supplier_ok_def supplier_inv_def tasks_inv_def servings_wf_def)
  have "sf_shape sf = shape_name (ad_shape adapter)" "ad_shape adapter \<in> {Value, Log}"
    using run_share_kind [OF assms(1-3)] assms(4) by simp_all
  moreover from this have "ad_shape adapter = Value \<longleftrightarrow> sf_shape sf = jlit ''value''" "ad_shape adapter = Log \<longleftrightarrow> sf_shape sf = jlit ''log''"
    by (auto simp: shape_name_def)
  ultimately show ?thesis using assms(4,5)
    by (auto simp: share_set_def share_append_def share_publish_def Let_def reg)
qed

text \<open>A run for the witnesses: an exchange served and attached, a link drop, and the timer.\<close>

definition sample_surface :: "string \<Rightarrow> supplier_surface" where
  "sample_surface shape = \<lparr>sf_glade_id = [1], sf_shape = jlit shape, sf_share = [2], sf_key = None\<rparr>"

definition sample_config :: supplier_config where
  "sample_config = \<lparr>cf_says_hello = True, cf_backoff = None\<rparr>"

definition sample_request :: exchange_request where
  "sample_request = \<lparr>xq_share = [2], xq_glade_id = [1], xq_corr = [3], xq_payload = []\<rparr>"

definition sample_served :: "supplier_surface \<Rightarrow> supplier" where
  "sample_served sf =
     (let s1 = fst (if sf_shape sf = jlit ''exchange'' then serve_exchange sample_config sf (attach_supplier True) else serve_share sample_config sf (attach_supplier True))
      in resume sample_config 0 Subscribed (resume sample_config 0 Subscribed (resume sample_config 0 Subscribed s1)))"

lemma sample_served_eq:
  "sample_served (sample_surface ''exchange'') =
     \<lparr>su_heap = [\<lparr>sv_kind = ExchangeServing, sv_surface = sample_surface ''exchange'', sv_off = Some 0, sv_detached = False, sv_generation = 1\<rparr>],
      su_servings = [0], su_drop_on = True, su_cancel = None, su_attempt = 0, su_helloed = True, su_detached = False, su_hellos = 1,
      su_fresh = 1, su_hooks = [\<lparr>hk_id = 0, hk_serving = 0, hk_generation = 1\<rparr>], su_timers = [], su_tasks = []\<rparr>"
  by (simp add: sample_served_def sample_surface_def serve_exchange_def require_exchange_shape_def register_def new_serving_def
      attach_supplier_def start_task_def ensure_hello_def sample_config_def js_add_def resume_def attach_one_def call_attach_def
      serving_attach_def exchange_attach_def call_off_def set_serving_def serving_attached_def exchange_attached_def Let_def)

lemma supplier_sample_run:
  "steps (supplier_step sample_config) (attach_supplier True)
     [ServeExchange (sample_surface ''exchange''), TaskResumes 0 Subscribed, TaskResumes 0 Subscribed, TaskResumes 0 Subscribed]
     (sample_served (sample_surface ''exchange''))"
proof -
  let ?s1 = "fst (serve_exchange sample_config (sample_surface ''exchange'') (attach_supplier True))"
  let ?r = "resume sample_config 0 Subscribed"
  have t: "su_tasks ?s1 \<noteq> []" "su_tasks (?r ?s1) \<noteq> []" "su_tasks (?r (?r ?s1)) \<noteq> []"
    by (simp_all add: sample_surface_def serve_exchange_def require_exchange_shape_def register_def new_serving_def
      attach_supplier_def start_task_def ensure_hello_def sample_config_def js_add_def resume_def attach_one_def call_attach_def
      serving_attach_def exchange_attach_def call_off_def set_serving_def serving_attached_def exchange_attached_def Let_def)
  have "sample_served (sample_surface ''exchange'') = ?r (?r (?r ?s1))" by (simp add: sample_served_def sample_surface_def Let_def)
  with t show ?thesis by (auto intro!: steps.intros supplier_step.intros)
qed

lemma sample_shape: "sf_shape (sample_surface shape) = jlit shape"
  by (simp add: sample_surface_def)

lemma sample_accepts: "exchange_accepts (sample_surface shape) sample_request"
  by (simp add: exchange_accepts_def sample_request_def sample_surface_def)

theorem supplier_delivers_once_witness:
  "set (deliver_request sample_request (sample_served (sample_surface ''exchange''))) = {0}"
proof -
  let ?s = "sample_served (sample_surface ''exchange'')"
  have q: "su_tasks ?s = [] \<and> su_timers ?s = [] \<and> \<not> su_detached ?s" by (simp add: sample_served_eq)
  note T = supplier_delivers_once [OF supplier_sample_run, of sample_request "[]", THEN conjunct2, THEN conjunct2, THEN conjunct2, THEN conjunct2, THEN mp, OF q, THEN conjunct2]
  show ?thesis unfolding T by (auto simp: sample_served_eq sample_accepts)
qed

definition sample_dropped :: supplier where
  "sample_dropped = on_drop sample_config (sample_served (sample_surface ''exchange''))"

lemma sample_dropped_eq:
  "sample_dropped =
     \<lparr>su_heap = [\<lparr>sv_kind = ExchangeServing, sv_surface = sample_surface ''exchange'', sv_off = None, sv_detached = False, sv_generation = 2\<rparr>],
      su_servings = [0], su_drop_on = True, su_cancel = Some 1, su_attempt = 0, su_helloed = False, su_detached = False, su_hellos = 1,
      su_fresh = 2, su_hooks = [\<lparr>hk_id = 0, hk_serving = 0, hk_generation = 1\<rparr>], su_timers = [(1, backoff_ms None 0)], su_tasks = []\<rparr>"
  unfolding sample_dropped_def sample_served_eq
  by (simp add: on_drop_def serving_mark_dropped_def exchange_mark_dropped_def set_serving_def schedule_reattach_def sample_config_def)

lemma sample_dropped_run:
  "steps (supplier_step sample_config) (attach_supplier True)
     [ServeExchange (sample_surface ''exchange''), TaskResumes 0 Subscribed, TaskResumes 0 Subscribed, TaskResumes 0 Subscribed, LinkDrops] sample_dropped"
proof -
  have "supplier_step sample_config (sample_served (sample_surface ''exchange'')) LinkDrops sample_dropped"
    unfolding sample_dropped_def by (rule step_drop) (simp add: sample_served_eq)
  then have "steps (supplier_step sample_config) (sample_served (sample_surface ''exchange'')) [LinkDrops] sample_dropped" by simp
  with supplier_sample_run show ?thesis
    using steps_append_iff [of "supplier_step sample_config" "attach_supplier True"
        "[ServeExchange (sample_surface ''exchange''), TaskResumes 0 Subscribed, TaskResumes 0 Subscribed, TaskResumes 0 Subscribed]" "[LinkDrops]"]
    by (metis append_Cons append_Nil)
qed

theorem supplier_recovers_witness:
  "deliver_request sample_request sample_dropped = []
    \<and> (\<exists>ms s'. steps (supplier_step sample_config) sample_dropped ms s' \<and> set (deliver_request sample_request s') = {0})"
proof
  show "deliver_request sample_request sample_dropped = []"
    by (simp add: sample_dropped_eq deliver_request_def hook_live_def)
  have "{a \<in> set (su_servings sample_dropped). sv_kind (su_heap sample_dropped ! a) = ExchangeServing
      \<and> exchange_accepts (sv_surface (su_heap sample_dropped ! a)) sample_request} = {0}"
    by (auto simp: sample_dropped_eq sample_accepts)
  moreover have "\<not> su_detached sample_dropped" by (simp add: sample_dropped_eq)
  ultimately show "\<exists>ms s'. steps (supplier_step sample_config) sample_dropped ms s' \<and> set (deliver_request sample_request s') = {0}"
    using supplier_recovers [OF sample_dropped_run] by metis
qed

theorem share_controller_typed_witness:
  "let s = fst (serve_share sample_config (sample_surface ''value'') (attach_supplier True)) in
     \<exists>adapter r. sv_kind (su_heap s ! 0) = ShareServing adapter \<and> share_set adapter (su_heap s ! 0) [7] = Inr r \<and> isl (share_append adapter (su_heap s ! 0) [7])"
proof -
  let ?s = "fst (serve_share sample_config (sample_surface ''value'') (attach_supplier True))"
  obtain adapter where "require_fold_shape_adapter (jlit ''value'') (jlit ''serveShare'') = Inr adapter"
    by (auto simp: require_fold_shape_adapter_def gate_def adapters_def)
  then have h: "su_heap ?s = [new_serving (ShareServing adapter) (sample_surface ''value'')]" "su_servings ?s = [0]"
    by (simp_all add: serve_share_def sample_surface_def register_def attach_supplier_def start_task_def ensure_hello_def js_add_def Let_def)
  have run: "steps (supplier_step sample_config) (attach_supplier True) [ServeShare (sample_surface ''value'')] ?s"
    by (auto intro!: steps.intros supplier_step.intros)
  have k: "0 < length (su_heap ?s)" "sv_kind (su_heap ?s ! 0) = ShareServing adapter" by (simp_all add: h new_serving_def)
  have reg: "0 \<in> set (su_servings ?s)" "sf_shape (sv_surface (su_heap ?s ! 0)) = jlit ''value''"
    by (simp_all add: h new_serving_def sample_shape)
  note T = share_controller_typed [OF run k refl refl, of "[7]"]
  from T [THEN conjunct1] reg obtain r where r: "share_set adapter (su_heap ?s ! 0) [7] = Inr r" by blast
  moreover from T [THEN conjunct2, THEN conjunct2] reg(1) r have "isl (share_append adapter (su_heap ?s ! 0) [7])" by simp
  ultimately show ?thesis using k(2) by (auto simp: Let_def)
qed

end
