(* ===== verification/Js_Write.thy ===== *)
theory Js_Write
  imports Js_Stringify Text_Edit
begin

text \<open>
  \<open>JSON.stringify\<close> on values: what the code writes as JSON (null, booleans, numbers, strings,
  arrays and objects) is text that \<open>JSON.parse\<close> reads back to the same value. A number of the model
  is its literal; the code's own are decimal integers.
\<close>

fun json_stringify :: "json \<Rightarrow> jstr" where
  "json_stringify JNull = jlit ''null''"
| "json_stringify (JBool b) = jlit (if b then ''true'' else ''false'')"
| "json_stringify (JNum l) = l"
| "json_stringify (JStr s) = json_quote s"
| "json_stringify (JArr vs) = 0x5B # join_comma (map json_stringify vs) @ [0x5D]"
| "json_stringify (JObj ms) = 0x7B # join_comma (map (\<lambda>(k, v). json_quote k @ 0x3A # json_stringify v) ms) @ [0x7D]"

fun json_plain :: "json \<Rightarrow> bool" where
  "json_plain (JNum l) \<longleftrightarrow> (\<exists>n. l = dec_int n)"
| "json_plain (JArr vs) \<longleftrightarrow> (\<forall>v \<in> set vs. json_plain v)"
| "json_plain (JObj ms) \<longleftrightarrow> distinct (jm_keys ms) \<and> (\<forall>(k, v) \<in> set ms. json_plain v)"
| "json_plain _ \<longleftrightarrow> True"

subsection \<open>Numbers\<close>

text \<open>What may follow a value inside a text.\<close>

definition json_end :: "jstr \<Rightarrow> bool" where
  "json_end r \<longleftrightarrow> (case r of [] \<Rightarrow> True | c # cs \<Rightarrow> c = 0x2C \<or> c = 0x5D \<or> c = 0x7D)"

lemma json_end_simps [simp]: "json_end []" "json_end (0x2C # r)" "json_end (0x5D # r)" "json_end (0x7D # r)"
  by (simp_all add: json_end_def)

lemma not_is_digit [simp]: "\<not> is_digit 0x2C" "\<not> is_digit 0x5D" "\<not> is_digit 0x7D" "\<not> is_digit 0x2D" "\<not> is_digit 0x22" "\<not> is_digit 0x5B" "\<not> is_digit 0x7B"
  by (simp_all add: is_digit_def)

lemma dec_nat_unit_digit: "c \<in> set (dec_nat n) \<Longrightarrow> is_digit c"
  using dec_nat_digits by (simp add: is_digit_def)

lemma dec_nat_head: "0 < n \<Longrightarrow> hd (dec_nat n) \<noteq> 48"
proof (induction n rule: dec_nat.induct)
  case (1 n)
  show ?case
  proof (cases "n < 10")
    case True
    then have "unat (digit n) = 48 + n" by (rule unat_digit)
    with 1(2) have "digit n \<noteq> 48" by auto
    with True show ?thesis by (simp add: dec_nat.simps [of n])
  next
    case False
    with 1 have "hd (dec_nat (n div 10)) \<noteq> 48" by simp
    with False show ?thesis by (simp add: dec_nat.simps [of n] hd_append)
  qed
qed

lemma digits_take:
  assumes "\<forall>c \<in> set ds. is_digit c" "json_end r"
  shows "parse_digits (ds @ r) = (ds, r)"
proof -
  have "takeWhile is_digit r = []" "dropWhile is_digit r = r"
    using assms(2) by (cases r; auto simp: json_end_def)+
  with assms(1) show ?thesis by (simp add: parse_digits_def takeWhile_append dropWhile_append)
qed

lemma parse_int_part_dec: "json_end r \<Longrightarrow> parse_int_part (dec_nat n @ r) = Some (dec_nat n, r)"
proof (cases "n = 0")
  case True
  then show ?thesis by (simp add: parse_int_part_def dec_nat.simps [of 0] digit_def)
next
  case False
  assume r: "json_end r"
  obtain d ds where d: "dec_nat n = d # ds" by (meson dec_nat_neq_Nil list.exhaust)
  then have "d \<noteq> 48" using dec_nat_head [of n] False by simp
  moreover have "is_digit d" using dec_nat_unit_digit [of d n] d by simp
  moreover have "parse_digits (dec_nat n @ r) = (dec_nat n, r)" by (rule digits_take [OF _ r]) (auto intro: dec_nat_unit_digit)
  ultimately show ?thesis by (simp add: parse_int_part_def d)
qed

lemma parse_rest: "json_end r \<Longrightarrow> parse_frac r = Some ([], r) \<and> parse_exp r = Some ([], r)"
  by (auto simp: parse_frac_def parse_exp_def json_end_def split: list.splits)

lemma parse_number_dec: "json_end r \<Longrightarrow> parse_number (dec_int n @ r) = Some (dec_int n, r)"
proof -
  assume r: "json_end r"
  have "parse_minus (dec_nat k @ r) = ([], dec_nat k @ r)" for k
  proof -
    obtain d ds where d: "dec_nat k = d # ds" by (meson dec_nat_neq_Nil list.exhaust)
    then have "d \<noteq> 0x2D" using dec_nat_unit_digit [of d k] by auto
    then show ?thesis by (simp add: parse_minus_def d)
  qed
  with parse_int_part_dec [OF r] parse_rest [OF r] show ?thesis
    by (simp add: dec_int_def parse_number_def) (simp add: parse_minus_def)
qed

subsection \<open>The text of a value is read back\<close>

lemma skip_ws_cons [simp]: "\<not> is_ws c \<Longrightarrow> skip_ws (c # cs) = c # cs"
  by (simp add: skip_ws_def)

lemma not_ws [simp]: "\<not> is_ws 0x2C" "\<not> is_ws 0x5D" "\<not> is_ws 0x7D" "\<not> is_ws 0x22" "\<not> is_ws 0x5B" "\<not> is_ws 0x7B" "\<not> is_ws 0x3A"
  by (simp_all add: is_ws_def)

lemma skip_ws_end [simp]: "json_end r \<Longrightarrow> skip_ws r = r"
  by (cases r) (auto simp: json_end_def skip_ws_def)

lemma literal_units:
  "jlit ''null'' = [0x6E, 0x75, 0x6C, 0x6C]" "jlit ''true'' = [0x74, 0x72, 0x75, 0x65]" "jlit ''false'' = [0x66, 0x61, 0x6C, 0x73, 0x65]"
  by (simp_all add: jlit_def)

lemma digit_not_ws: "is_digit c \<Longrightarrow> \<not> is_ws c \<and> c \<noteq> 0x22 \<and> c \<noteq> 0x5B \<and> c \<noteq> 0x7B \<and> c \<noteq> 0x5D \<and> c \<noteq> 0x7D"
  by (auto simp: is_digit_def is_ws_def)

lemma dec_int_head:
  obtains c cs where "dec_int n = c # cs" "c = 0x2D \<or> is_digit c"
proof -
  obtain d ds where d: "dec_nat (nat \<bar>n\<bar>) = d # ds" by (meson dec_nat_neq_Nil list.exhaust)
  moreover have "is_digit d" using dec_nat_unit_digit [of d "nat \<bar>n\<bar>"] d by simp
  ultimately show thesis using that by (cases "n < 0") (auto simp: dec_int_def)
qed

text \<open>A value's text starts with a character that opens no bracket's end and is not white space.\<close>

lemma stringify_head:
  assumes "json_plain v"
  obtains c cs where "json_stringify v = c # cs" "\<not> is_ws c" "c \<noteq> 0x5D" "c \<noteq> 0x7D" "c \<noteq> 0xFEFF"
proof (cases v)
  case (JBool b)
  with that show thesis by (cases b) (simp_all add: literal_units is_ws_def)
next
  case (JNum l)
  with assms obtain n where "l = dec_int n" by auto
  moreover obtain c cs where "dec_int n = c # cs" "c = 0x2D \<or> is_digit c" by (rule dec_int_head)
  moreover from this have "\<not> is_ws c" "c \<noteq> 0x5D" "c \<noteq> 0x7D" "c \<noteq> 0xFEFF" by (auto simp: is_digit_def is_ws_def)
  ultimately show thesis using that JNum by simp
qed (use that in \<open>simp_all add: json_quote_def literal_units is_ws_def\<close>)

lemma join_comma_cons: "xs \<noteq> [] \<Longrightarrow> join_comma (x # xs) = x @ 0x2C # join_comma xs"
  by (cases xs) auto

lemma make_obj_distinct: "distinct (jm_keys ms) \<Longrightarrow> make_obj ms = JObj ms"
proof -
  have "distinct (jm_keys (acc @ ms)) \<Longrightarrow> foldl (\<lambda>m (k, v). jm_set k v m) acc ms = acc @ ms" for acc
  proof (induction ms arbitrary: acc)
    case (Cons a ms)
    obtain k v where a: "a = (k, v)" by (cases a)
    with Cons.prems have "jm_get acc k = None" by (auto simp: map_of_eq_None_iff)
    then have "jm_set k v acc = acc @ [(k, v)]" by (rule jm_set_fresh)
    with Cons a show ?case by simp
  qed simp
  then show "distinct (jm_keys ms) \<Longrightarrow> make_obj ms = JObj ms" by (simp add: make_obj_def)
qed

lemma member_head_quote: "member_head (json_quote k @ 0x3A # r) = Some (k, r)"
  by (simp add: member_head_def json_quote_def parse_chars_quote)

abbreviation member_text :: "jstr \<times> json \<Rightarrow> jstr" where
  "member_text \<equiv> \<lambda>(k, v). json_quote k @ 0x3A # json_stringify v"

definition reads_back :: "json \<Rightarrow> bool" where
  "reads_back v \<longleftrightarrow> (\<forall>n r. length (json_stringify v) \<le> n \<longrightarrow> json_end r \<longrightarrow> json_value n (json_stringify v @ r) = Some (v, r))"

lemma elements_read_back:
  assumes "\<forall>v \<in> set vs. reads_back v" "vs \<noteq> []" "length (join_comma (map json_stringify vs)) < n"
  shows "json_elements n (join_comma (map json_stringify vs) @ 0x5D # r) = Some (vs, r)"
  using assms
proof (induction vs arbitrary: n)
  case (Cons v vs)
  obtain m where n: "n = Suc m" using Cons.prems(3) by (cases n) auto
  show ?case
  proof (cases "vs = []")
    case True
    then have "json_value m (json_stringify v @ 0x5D # r) = Some (v, 0x5D # r)"
      using Cons.prems unfolding reads_back_def by (simp add: n)
    with True show ?thesis by (simp add: n)
  next
    case False
    then have j: "join_comma (map json_stringify (v # vs)) = json_stringify v @ 0x2C # join_comma (map json_stringify vs)"
      by (simp add: join_comma_cons)
    have "json_value m (json_stringify v @ 0x2C # join_comma (map json_stringify vs) @ 0x5D # r) = Some (v, 0x2C # join_comma (map json_stringify vs) @ 0x5D # r)"
      using Cons.prems unfolding reads_back_def j n by simp
    moreover have "json_elements m (join_comma (map json_stringify vs) @ 0x5D # r) = Some (vs, r)"
      using Cons False unfolding j n by simp
    ultimately show ?thesis unfolding j n by simp
  qed
qed simp

lemma members_read_back:
  assumes "\<forall>(k, v) \<in> set ms. reads_back v" "ms \<noteq> []" "length (join_comma (map member_text ms)) < n"
  shows "json_members n (join_comma (map member_text ms) @ 0x7D # r) = Some (ms, r)"
  using assms
proof (induction ms arbitrary: n)
  case (Cons kv ms)
  obtain m where n: "n = Suc m" using Cons.prems(3) by (cases n) auto
  obtain k v where kv: "kv = (k, v)" by (cases kv)
  have head: "member_head (json_quote k @ 0x3A # r') = Some (k, r')" for r' by (rule member_head_quote)
  show ?case
  proof (cases "ms = []")
    case True
    then have "json_value m (json_stringify v @ 0x7D # r) = Some (v, 0x7D # r)"
      using Cons.prems unfolding reads_back_def by (simp add: n kv)
    with True show ?thesis by (simp add: n kv head)
  next
    case False
    then have j: "join_comma (map member_text (kv # ms)) = json_quote k @ 0x3A # json_stringify v @ 0x2C # join_comma (map member_text ms)"
      by (simp add: join_comma_cons kv)
    have "json_value m (json_stringify v @ 0x2C # join_comma (map member_text ms) @ 0x7D # r) = Some (v, 0x2C # join_comma (map member_text ms) @ 0x7D # r)"
      using Cons.prems(1,3) unfolding j n by (simp add: reads_back_def kv)
    moreover have "json_members m (join_comma (map member_text ms) @ 0x7D # r) = Some (ms, r)"
      using Cons False unfolding j n by simp
    ultimately show ?thesis unfolding j n by (simp add: kv head)
  qed
qed simp

lemma stringify_reads_back: "json_plain v \<Longrightarrow> reads_back v"
proof (induction v)
  case JNull
  then show ?case by (auto simp: reads_back_def Suc_le_eq literal_units parse_literal_def is_ws_def is_digit_def dest!: less_imp_Suc_add split: nat.splits)
next
  case (JBool b)
  have "json_value (Suc m) (json_stringify (JBool b) @ r) = Some (JBool b, r)" for m r
    by (cases b) (simp_all add: literal_units parse_literal_def is_ws_def is_digit_def)
  then show ?case by (cases b) (auto simp: reads_back_def literal_units Suc_le_eq dest!: less_imp_Suc_add)
next
  case (JNum l)
  then obtain k where l: "l = dec_int k" by auto
  obtain c cs where c: "dec_int k = c # cs" "c = 0x2D \<or> is_digit c" by (rule dec_int_head)
  have "json_value (Suc m) (dec_int k @ r) = Some (JNum (dec_int k), r)" if "json_end r" for m r
    using c parse_number_dec [OF that, of k] digit_not_ws [of c] by (auto simp: is_ws_def)
  then show ?case by (auto simp: reads_back_def l c(1) Suc_le_eq dest!: less_imp_Suc_add)
next
  case (JStr x)
  have "json_value (Suc m) (json_quote x @ r) = Some (JStr x, r)" for m r
    by (simp add: json_quote_def parse_chars_quote)
  then show ?case by (auto simp: reads_back_def json_quote_def Suc_le_eq dest!: less_imp_Suc_add)
next
  case (JArr vs)
  then have vs: "\<forall>v \<in> set vs. reads_back v" by simp
  show ?case
    unfolding reads_back_def
  proof (intro allI impI)
    fix n r assume n: "length (json_stringify (JArr vs)) \<le> n" "json_end r"
    then obtain m where m: "n = Suc m" by (cases n) auto
    show "json_value n (json_stringify (JArr vs) @ r) = Some (JArr vs, r)"
    proof (cases "vs = []")
      case False
      then obtain v vs' where v: "vs = v # vs'" by (cases vs) auto
      with JArr.prems have "json_plain v" by simp
      then obtain c cs where "json_stringify v = c # cs" "\<not> is_ws c" "c \<noteq> 0x5D" by (rule stringify_head)
      then obtain cs' where c: "join_comma (map json_stringify vs) = c # cs'" "\<not> is_ws c" "c \<noteq> 0x5D"
        by (cases vs') (auto simp: v)
      from elements_read_back [OF vs False, of m r] n(1) show ?thesis by (simp add: m c)
    qed (simp add: m)
  qed
next
  case (JObj ms)
  then have ms: "\<forall>(k, v) \<in> set ms. reads_back v" by fastforce
  show ?case
    unfolding reads_back_def
  proof (intro allI impI)
    fix n r assume n: "length (json_stringify (JObj ms)) \<le> n" "json_end r"
    then obtain m where m: "n = Suc m" by (cases n) auto
    show "json_value n (json_stringify (JObj ms) @ r) = Some (JObj ms, r)"
    proof (cases "ms = []")
      case False
      then obtain k v ms' where v: "ms = (k, v) # ms'" by (cases ms) auto
      obtain cs' where c: "join_comma (map member_text ms) = 0x22 # cs'"
        by (cases ms') (auto simp: v json_quote_def)
      from members_read_back [OF ms False, of m r] n(1) JObj.prems show ?thesis by (simp add: m c make_obj_distinct)
    qed (simp add: m)
  qed
qed

lemma json_parse_stringify:
  assumes "json_plain v"
  shows "json_parse (json_stringify v) = Some v"
proof -
  have "length (json_stringify v) \<le> json_fuel (json_stringify v)" by (simp add: json_fuel_def)
  then have "json_value (json_fuel (json_stringify v)) (json_stringify v) = Some (v, [])"
    using stringify_reads_back [OF assms] unfolding reads_back_def by (metis append_Nil2 json_end_simps(1))
  then show ?thesis by (simp add: json_parse_def)
qed

subsection \<open>The text is well-formed\<close>

lemma hex_low_plain: "n < 16 \<Longrightarrow> \<not> is_high (hex_low n) \<and> \<not> is_low (hex_low n)"
  by (auto simp: hex_low_def is_high_def is_low_def unat_of_nat_16 simp del: of_nat_add)

definition bmp_plain :: "jstr \<Rightarrow> bool" where
  "bmp_plain s \<longleftrightarrow> (\<forall>c \<in> set s. \<not> is_high c \<and> \<not> is_low c)"

lemma bmp_wf: "bmp_plain s \<Longrightarrow> wf_utf16 s"
  by (induction s rule: wf_utf16.induct) (auto simp: bmp_plain_def)

lemma escape_plain: "bmp_plain (quote_unit c)"
proof -
  have d: "unat c < 65536" by simp
  then have "unat c div 4096 < 16" by (simp add: less_mult_imp_div_less)
  moreover have "\<not> is_high 0x5C" "\<not> is_low 0x5C" "\<not> is_high 0x75" "\<not> is_low 0x75" by (simp_all add: is_high_def is_low_def)
  ultimately have "bmp_plain (unicode_escape c)"
    by (simp add: bmp_plain_def unicode_escape_def Let_def hex_low_plain)
  moreover have "short_escape c = Some e \<Longrightarrow> bmp_plain [0x5C, e]" for e
    by (auto simp: short_escape_def bmp_plain_def is_high_def is_low_def split: if_splits)
  ultimately show ?thesis by (simp add: quote_unit_def bmp_plain_def split: option.split)
qed

lemma quote_chars_wf: "wf_utf16 (quote_chars s)"
proof (induction s rule: quote_chars.induct)
  case (3 c d s)
  then show ?case
    using wf_utf16_append [OF bmp_wf [OF escape_plain [of c]]] by auto
qed (simp_all add: bmp_wf escape_plain)

lemma wf_utf16_cons: "\<not> is_high c \<Longrightarrow> \<not> is_low c \<Longrightarrow> wf_utf16 (c # s) \<longleftrightarrow> wf_utf16 s"
  using wf_utf16_append [of "[c]" s] by simp

lemma plain_units [simp]: "\<not> is_high 0x22" "\<not> is_low 0x22" "\<not> is_high 0x2C" "\<not> is_low 0x2C" "\<not> is_high 0x3A" "\<not> is_low 0x3A"
  "\<not> is_high 0x5B" "\<not> is_low 0x5B" "\<not> is_high 0x5D" "\<not> is_low 0x5D" "\<not> is_high 0x7B" "\<not> is_low 0x7B" "\<not> is_high 0x7D" "\<not> is_low 0x7D"
  by (simp_all add: is_high_def is_low_def)

lemma json_quote_wf: "wf_utf16 (json_quote s)"
  by (simp add: json_quote_def wf_utf16_cons wf_utf16_append quote_chars_wf)

lemma join_comma_wf: "\<forall>s \<in> set ss. wf_utf16 s \<Longrightarrow> wf_utf16 (join_comma ss)"
  by (induction ss rule: join_comma.induct) (auto simp: wf_utf16_append wf_utf16_cons)

lemma dec_int_wf: "wf_utf16 (dec_int n)"
  by (rule bmp_wf) (auto simp: bmp_plain_def is_high_def is_low_def dest!: dec_int_units)

lemma stringify_wf: "json_plain v \<Longrightarrow> wf_utf16 (json_stringify v)"
proof (induction v)
  case (JArr vs)
  then show ?case by (simp add: wf_utf16_cons wf_utf16_append join_comma_wf)
next
  case (JObj ms)
  then have "\<forall>s \<in> set (map member_text ms). wf_utf16 s"
    by (fastforce simp: wf_utf16_append json_quote_wf wf_utf16_cons)
  then show ?case by (simp add: wf_utf16_cons wf_utf16_append join_comma_wf)
qed (auto simp: literal_units is_high_def is_low_def json_quote_wf dec_int_wf)

lemma from_utf8_stringify: "json_plain v \<Longrightarrow> json_parse (text_decode (text_encode (json_stringify v))) = Some v"
proof -
  assume v: "json_plain v"
  obtain c cs where "json_stringify v = c # cs" "c \<noteq> 0xFEFF" using stringify_head [OF v] by metis
  then have "text_decode (text_encode (json_stringify v)) = json_stringify v"
    by (intro text_decode_encode(1) [OF stringify_wf [OF v]]) auto
  then show ?thesis by (simp add: json_parse_stringify v)
qed

end
