(* ===== verification/Assistance_Wire.thy ===== *)
theory Assistance_Wire
  imports Js_Write Bytes
begin

text \<open>
  The messages of the assistance protocol in \<open>src/assistance/index.ts\<close> and their helpers:
  identities, requests and results (the record types of the declaration package, of which the code
  reads these fields), JSON payloads, and the keyed proofs of the resume handshake.

  A JavaScript value that is written as JSON is a \<open>json\<close> tree whose numbers are their literals.
  Times are integers in milliseconds, as \<open>Date.now\<close> gives them, and so are the \<open>bigint\<close>s.
\<close>

subsection \<open>JSON\<close>

definition json_bytes :: "json \<Rightarrow> bytes" where
  "json_bytes v = utf8 (json_stringify v)"

lemma json_bytes_back: "json_plain v \<Longrightarrow> json_parse (from_utf8 (json_bytes v)) = Some v"
  by (simp add: json_bytes_def from_utf8_def utf8_def from_utf8_stringify)

abbreviation member :: "string \<Rightarrow> json \<Rightarrow> json option" where
  "member k v \<equiv> json_member v (jlit k)"

abbreviation json_int :: "int \<Rightarrow> json" where
  "json_int n \<equiv> JNum (dec_int n)"

abbreviation object :: "(string \<times> json) list \<Rightarrow> json" where
  "object ms \<equiv> JObj (map (\<lambda>(k, v). (jlit k, v)) ms)"

subsection \<open>Identities, requests and results\<close>

record assistance_identity =
  ai_application :: jstr
  ai_workspace :: jstr
  ai_supplier :: jstr
  ai_generation :: jstr

record assistance_request =
  aq_version :: int
  aq_identity :: assistance_identity
  aq_consumer :: jstr
  aq_operation :: jstr
  aq_deadline :: int
  aq_token :: "jstr option"
  aq_epoch :: "int option"
  aq_payload :: bytes

record assistance_result =
  ar_status :: jstr
  ar_token :: "jstr option"
  ar_epoch :: "int option"
  ar_expires :: "int option"
  ar_reason :: "jstr option"
  ar_payload :: bytes

definition assist_result :: "string \<Rightarrow> json \<Rightarrow> assistance_result" where
  "assist_result status payload =
     \<lparr>ar_status = jlit status, ar_token = None, ar_epoch = None, ar_expires = None, ar_reason = None, ar_payload = json_bytes payload\<rparr>"

text \<open>A result whose \<open>extra\<close> is a reason.\<close>

definition assist_reason :: "string \<Rightarrow> jstr \<Rightarrow> assistance_result" where
  "assist_reason status reason = (assist_result status JNull)\<lparr>ar_reason := Some reason\<rparr>"

text \<open>\<open>value(r)\<close>: \<open>None\<close> when it throws.\<close>

definition result_value :: "assistance_result \<Rightarrow> json option" where
  "result_value r = json_parse (from_utf8 (ar_payload r))"

definition same_identity :: "assistance_identity \<Rightarrow> assistance_identity \<Rightarrow> bool" where
  "same_identity a b \<longleftrightarrow> ai_application a = ai_application b \<and> ai_workspace a = ai_workspace b
     \<and> ai_supplier a = ai_supplier b \<and> ai_generation a = ai_generation b"

lemma same_identity_eq: "same_identity a b \<longleftrightarrow> a = b"
  by (cases a; cases b) (auto simp: same_identity_def)

lemma assist_status [simp]:
  "ar_status (assist_result status payload) = jlit status" "ar_status (assist_reason status reason) = jlit status"
  by (simp_all add: assist_result_def assist_reason_def)

subsection \<open>Resume authority\<close>

record resume_authority =
  ra_application :: jstr
  ra_workspace :: jstr
  ra_supplier :: jstr
  ra_consumer :: jstr
  ra_expires :: int
  ra_scope :: jstr
  ra_secret :: jstr

definition authority_json :: "resume_authority \<Rightarrow> json" where
  "authority_json r = object [(''application'', JStr (ra_application r)), (''workspace'', JStr (ra_workspace r)),
     (''supplier'', JStr (ra_supplier r)), (''consumer'', JStr (ra_consumer r)), (''expires'', json_int (ra_expires r)),
     (''scope'', JStr (ra_scope r)), (''secret'', JStr (ra_secret r))]"

text \<open>
  \<open>proof\<close>: the signature \<open>hmac key message\<close> of the platform's WebCrypto (HMAC with SHA-256) is
  a parameter; the key and message are JSON texts and the signature is written in hexadecimal.
\<close>

definition hex_byte :: "byte \<Rightarrow> jstr" where
  "hex_byte b = [hex_low (unat b div 16), hex_low (unat b mod 16)]"

definition resume_proof :: "(bytes \<Rightarrow> bytes \<Rightarrow> bytes) \<Rightarrow> jstr \<Rightarrow> string \<Rightarrow> assistance_identity \<Rightarrow> jstr \<Rightarrow> jstr \<Rightarrow> jstr" where
  "resume_proof hmac secret direction i consumer nonce =
     concat (map hex_byte (hmac (json_bytes (JStr secret))
       (json_bytes (JArr (map JStr [jlit direction, ai_application i, ai_workspace i, ai_supplier i, ai_generation i, consumer, nonce])))))"

text \<open>\<open>signResumeLineage\<close>: the proof of the lineage, or \<open>None\<close> when it throws.\<close>

definition sign_resume_lineage :: "(bytes \<Rightarrow> bytes \<Rightarrow> bytes) \<Rightarrow> resume_authority \<Rightarrow> assistance_identity \<Rightarrow> int \<Rightarrow> (int \<times> jstr) option" where
  "sign_resume_lineage hmac r i sequence =
     (if \<not> is_safe_integer sequence \<or> sequence < 1 \<or> ra_application r \<noteq> ai_application i \<or> ra_workspace r \<noteq> ai_workspace i
        \<or> ra_supplier r \<noteq> ai_supplier i then None
      else Some (sequence, resume_proof hmac (ra_secret r) ''lineage'' i (ra_consumer r)
        (json_stringify (JArr [json_int sequence, json_int (ra_expires r), JStr (ra_scope r)]))))"

end
