(* ===== verification/Assistance.thy ===== *)
theory Assistance
  imports Assistance_Wire Steps
begin

text \<open>
  The supplier side of assistance, \<open>AssistanceSupplier\<close> of \<open>src/assistance/index.ts\<close>: a host
  lets a remote consumer read its state and invoke its actions, under a grant that the operator
  accepts and that a deadline, a disconnect or either side ends.

  \<open>receive\<close> is asynchronous. The model keeps the suspended calls with the point of the code they
  wait at, and each resumption is a step whose label says how the awaited promise settled, so that
  operators, clocks and other requests act between the parts of one call in any order. Each step
  reads the clock once. An offer is named by its token: \<open>runtime.id()\<close> is taken to give a token
  that no retained offer has. A retained authority is compared by identity, so it carries a number
  that no other assignment has. The callbacks \<open>changed\<close> and \<open>saveResume\<close> are taken to return
  without calling back.
\<close>

subsection \<open>The provider and the state\<close>

record observation =
  ob_revision :: jstr
  ob_sequence :: jstr
  ob_state :: "json option"

definition observation_json :: "observation \<Rightarrow> json" where
  "observation_json ob = object ([(''revision'', JStr (ob_revision ob)), (''sequence'', JNum (ob_sequence ob))]
     @ (case ob_state ob of None \<Rightarrow> [] | Some v \<Rightarrow> [(''state'', v)]))"

text \<open>
  What the supplier is built from. \<open>sc_read\<close> is the provider's projection for an access
  (token and epoch), or the message of the error it throws; \<open>sc_number\<close> gives the canonical literal
  of the number that a JSON literal denotes.
\<close>

record 'p assist_config =
  sc_identity :: assistance_identity
  sc_capabilities :: json
  sc_read :: "'p \<Rightarrow> jstr \<times> int \<Rightarrow> jstr option + observation"
  sc_grant_ms :: "int option"
  sc_resume_scope :: "jstr option"
  sc_resume :: "resume_authority option"
  sc_saves :: bool
  sc_hmac :: "bytes \<Rightarrow> bytes \<Rightarrow> bytes"
  sc_number :: "jstr \<Rightarrow> jstr"

datatype offer_status = Pending | Accepted | Ended

record offer =
  of_consumer :: jstr
  of_deadline :: int
  of_epoch :: int
  of_status :: offer_status
  of_reason :: "jstr option"

text \<open>
  Where a call of \<open>receive\<close> is suspended: at the two proofs of a probe or of a resume, with the
  authority (and its number), the nonce and the proof it captured, or at \<open>prepare\<close> with the token
  of its offer.
\<close>

datatype await_point =
  ProbeRequested nat resume_authority jstr "json option"
| ProbeProved nat resume_authority jstr
| ResumeRequested nat resume_authority jstr "json option"
| ResumeProved nat resume_authority jstr
| Preparing jstr

datatype assist_reply = Answers assistance_result | Throws

record 'p assist_supplier =
  ap_enabled :: bool
  ap_ready :: bool
  ap_epoch :: int
  ap_active :: "jstr option"
  ap_offers :: "(jstr \<times> offer) list"
  ap_committing :: bool
  ap_authority :: "(nat \<times> resume_authority) option"
  ap_resuming :: bool
  ap_saved :: "resume_authority option list"
  ap_changes :: nat
  ap_fresh :: nat
  ap_now :: int
  ap_app :: 'p
  ap_calls :: "(nat \<times> assistance_request \<times> await_point) list"
  ap_replies :: "(nat \<times> assist_reply) list"

definition resume_scope :: "'p assist_config \<Rightarrow> jstr" where
  "resume_scope C = json_stringify (JArr [sc_capabilities C, JStr (case sc_resume_scope C of None \<Rightarrow> [] | Some s \<Rightarrow> s)])"

definition initial_authority :: "'p assist_config \<Rightarrow> int \<Rightarrow> (nat \<times> resume_authority) option" where
  "initial_authority C now =
     (case sc_resume C of
        None \<Rightarrow> None
      | Some r \<Rightarrow> if ra_application r = ai_application (sc_identity C) \<and> ra_workspace r = ai_workspace (sc_identity C)
                    \<and> ra_supplier r = ai_supplier (sc_identity C) \<and> ra_scope r = resume_scope C \<and> ra_expires r > now
                  then Some (0, r) else None)"

definition new_supplier :: "'p assist_config \<Rightarrow> 'p \<Rightarrow> int \<Rightarrow> 'p assist_supplier" where
  "new_supplier C p now =
     \<lparr>ap_enabled = False, ap_ready = False, ap_epoch = 0, ap_active = None, ap_offers = [], ap_committing = False,
      ap_authority = initial_authority C now, ap_resuming = False, ap_saved = [], ap_changes = 0, ap_fresh = 1, ap_now = now,
      ap_app = p, ap_calls = [], ap_replies = []\<rparr>"

subsection \<open>Offers\<close>

definition changed :: "'p assist_supplier \<Rightarrow> 'p assist_supplier" where
  "changed s = s\<lparr>ap_changes := ap_changes s + 1\<rparr>"

definition save_resume :: "'p assist_config \<Rightarrow> resume_authority option \<Rightarrow> 'p assist_supplier \<Rightarrow> 'p assist_supplier" where
  "save_resume C a s =
     s\<lparr>ap_authority := map_option (\<lambda>r. (ap_fresh s, r)) a, ap_fresh := ap_fresh s + 1,
       ap_saved := (if sc_saves C then ap_saved s @ [a] else ap_saved s)\<rparr>"

definition finish :: "'p assist_config \<Rightarrow> jstr \<Rightarrow> jstr \<Rightarrow> 'p assist_supplier \<Rightarrow> 'p assist_supplier" where
  "finish C reason tok s =
     (case jm_get (ap_offers s) tok of
        None \<Rightarrow> s
      | Some ofr \<Rightarrow>
          if of_status ofr = Ended then s
          else let s = s\<lparr>ap_offers := jm_set tok (ofr\<lparr>of_status := Ended, of_reason := Some reason\<rparr>) (ap_offers s)\<rparr>
               in changed (if ap_active s = Some tok then save_resume C None (s\<lparr>ap_active := None\<rparr>) else s))"

definition expire_offer :: "'p assist_config \<Rightarrow> jstr \<Rightarrow> 'p assist_supplier \<Rightarrow> 'p assist_supplier" where
  "expire_offer C tok s =
     (case jm_get (ap_offers s) tok of
        None \<Rightarrow> s
      | Some ofr \<Rightarrow> if of_status ofr \<noteq> Ended \<and> ap_now s \<ge> of_deadline ofr then finish C (jlit ''expired'') tok s else s)"

definition expire :: "'p assist_config \<Rightarrow> 'p assist_supplier \<Rightarrow> 'p assist_supplier" where
  "expire C s = fold (expire_offer C) (jm_keys (ap_offers s)) s"

definition end_all :: "'p assist_config \<Rightarrow> jstr \<Rightarrow> 'p assist_supplier \<Rightarrow> 'p assist_supplier" where
  "end_all C reason s = save_resume C None (fold (finish C reason) (jm_keys (ap_offers s)) s)"

definition enable :: "'p assist_config \<Rightarrow> bool \<Rightarrow> 'p assist_supplier \<Rightarrow> 'p assist_supplier" where
  "enable C b s = (let s = s\<lparr>ap_enabled := b\<rparr> in changed (if \<not> b then end_all C (jlit ''disabled'') s else s))"

definition set_ready :: "'p assist_config \<Rightarrow> bool \<Rightarrow> 'p assist_supplier \<Rightarrow> 'p assist_supplier" where
  "set_ready C b s = (let s = s\<lparr>ap_ready := b\<rparr> in changed (if \<not> b then end_all C (jlit ''disconnected'') s else s))"

definition pending :: "'p assist_config \<Rightarrow> 'p assist_supplier \<Rightarrow> 'p assist_supplier \<times> (jstr \<times> jstr) list" where
  "pending C s = (let s = expire C s in
     (s, map (\<lambda>(tok, ofr). (tok, of_consumer ofr)) (filter (\<lambda>(tok, ofr). of_status ofr = Pending) (ap_offers s))))"

definition is_paired :: "'p assist_config \<Rightarrow> 'p assist_supplier \<Rightarrow> 'p assist_supplier \<times> bool" where
  "is_paired C s = (let s = expire C s in (s, ap_active s \<noteq> None))"

definition remember :: "'p assist_config \<Rightarrow> jstr \<Rightarrow> offer \<Rightarrow> 'p assist_supplier \<Rightarrow> 'p assist_supplier" where
  "remember C secret ofr s =
     (if sc_saves C
      then save_resume C (Some \<lparr>ra_application = ai_application (sc_identity C), ra_workspace = ai_workspace (sc_identity C),
             ra_supplier = ai_supplier (sc_identity C), ra_consumer = of_consumer ofr, ra_expires = of_deadline ofr,
             ra_scope = resume_scope C, ra_secret = secret\<rparr>) s
      else s)"

definition decline :: "'p assist_config \<Rightarrow> jstr \<Rightarrow> 'p assist_supplier \<Rightarrow> 'p assist_supplier" where
  "decline C tok s = finish C (jlit ''declined'') tok s"

definition busy_other :: "'p assist_config \<Rightarrow> jstr \<Rightarrow> jstr \<Rightarrow> 'p assist_supplier \<Rightarrow> 'p assist_supplier" where
  "busy_other C tok t s =
     (case jm_get (ap_offers s) t of
        None \<Rightarrow> s
      | Some other \<Rightarrow> if t \<noteq> tok \<and> of_status other = Pending then finish C (jlit ''busy'') t s else s)"

text \<open>\<open>secret\<close> is what \<open>crypto.randomUUID\<close> gives to \<open>remember\<close>.\<close>

definition accept_offer :: "'p assist_config \<Rightarrow> jstr \<Rightarrow> jstr \<Rightarrow> 'p assist_supplier \<Rightarrow> 'p assist_supplier" where
  "accept_offer C secret tok s =
     (let s = expire C s in
      case jm_get (ap_offers s) tok of
        None \<Rightarrow> s
      | Some ofr \<Rightarrow>
          if of_status ofr \<noteq> Pending \<or> \<not> ap_enabled s \<or> \<not> ap_ready s \<or> ap_active s \<noteq> None then s
          else let epoch = ap_epoch s + 1;
                   ofr = ofr\<lparr>of_status := Accepted, of_epoch := epoch,
                     of_deadline := ap_now s + (case sc_grant_ms C of None \<Rightarrow> 300000 | Some ms \<Rightarrow> ms)\<rparr>;
                   s = remember C secret ofr (s\<lparr>ap_epoch := epoch, ap_offers := jm_set tok ofr (ap_offers s), ap_active := Some tok\<rparr>)
               in changed (fold (busy_other C tok) (jm_keys (ap_offers s)) s))"

definition status_result :: "'p assist_config \<Rightarrow> jstr \<Rightarrow> offer \<Rightarrow> 'p assist_supplier \<Rightarrow> assistance_result" where
  "status_result C tok ofr s =
     (if of_status ofr = Ended
      then (assist_result ''ended'' JNull)\<lparr>ar_token := Some tok, ar_reason := of_reason ofr\<rparr>
      else (assist_result (if of_status ofr = Pending then ''pending'' else ''accepted'')
              (object ((''capabilities'', sc_capabilities C)
                 # (case ap_authority s of
                      Some (n, r) \<Rightarrow> if ap_active s = Some tok then [(''resume'', authority_json r)] else []
                    | None \<Rightarrow> []))))
           \<lparr>ar_token := Some tok, ar_epoch := Some (of_epoch ofr), ar_expires := Some (of_deadline ofr)\<rparr>)"

definition permitted :: "'p assist_config \<Rightarrow> jstr \<Rightarrow> assistance_request \<Rightarrow> 'p assist_supplier \<Rightarrow> 'p assist_supplier \<times> bool" where
  "permitted C tok q s =
     (let s = expire C s in
      (s, ap_enabled s \<and> ap_ready s \<and> ap_active s = Some tok
          \<and> (case jm_get (ap_offers s) tok of None \<Rightarrow> False | Some ofr \<Rightarrow> of_status ofr = Accepted \<and> aq_epoch q = Some (of_epoch ofr))
          \<and> ap_now s < aq_deadline q))"

subsection \<open>Requests\<close>

definition refused :: assist_reply where
  "refused = Answers (assist_result ''refused'' JNull)"

text \<open>The nonce and the proof of a probe's or a resume's payload; \<open>None\<close> when it is refused.\<close>

definition resume_input :: "assistance_request \<Rightarrow> (jstr \<times> json option) option" where
  "resume_input q =
     (case json_parse (from_utf8 (aq_payload q)) of
        None \<Rightarrow> None
      | Some v \<Rightarrow> (case as_string (member ''nonce'' v) of
            None \<Rightarrow> None
          | Some nonce \<Rightarrow> if length nonce > 128 then None else Some (nonce, member ''proof'' v)))"

text \<open>
  The parts of \<open>receive\<close> up to an \<open>await\<close> or a \<open>return\<close>: the state, and the reply or the point
  where the call waits.
\<close>

definition begin_probe :: "assistance_request \<Rightarrow> 'p assist_supplier \<Rightarrow> 'p assist_supplier \<times> (assist_reply + await_point)" where
  "begin_probe q s =
     (s, case ap_authority s of
           None \<Rightarrow> Inl refused
         | Some (n, r) \<Rightarrow>
             if \<not> ap_enabled s \<or> \<not> ap_ready s \<or> ap_active s \<noteq> None \<or> ra_consumer r \<noteq> aq_consumer q \<or> ra_expires r \<le> ap_now s
             then Inl refused
             else (case resume_input q of None \<Rightarrow> Inl refused | Some (nonce, given) \<Rightarrow> Inr (ProbeRequested n r nonce given)))"

definition begin_resume :: "assistance_request \<Rightarrow> 'p assist_supplier \<Rightarrow> 'p assist_supplier \<times> (assist_reply + await_point)" where
  "begin_resume q s =
     (case ap_authority s of
        None \<Rightarrow> (s, Inl refused)
      | Some (n, r) \<Rightarrow>
          if \<not> ap_enabled s \<or> \<not> ap_ready s \<or> ap_active s \<noteq> None \<or> ap_resuming s \<or> ra_consumer r \<noteq> aq_consumer q \<or> ra_expires r \<le> ap_now s
          then (s, Inl refused)
          else (case resume_input q of
                  None \<Rightarrow> (s\<lparr>ap_resuming := False\<rparr>, Inl refused)
                | Some (nonce, given) \<Rightarrow> (s\<lparr>ap_resuming := True\<rparr>, Inr (ResumeRequested n r nonce given))))"

definition receive_offer :: "'p assist_config \<Rightarrow> jstr \<Rightarrow> assistance_request \<Rightarrow> 'p assist_supplier \<Rightarrow> 'p assist_supplier \<times> assist_reply" where
  "receive_offer C tok q s =
     (if \<not> ap_enabled s \<or> \<not> ap_ready s then (s, Answers (assist_result ''unavailable'' JNull))
      else if ap_active s \<noteq> None then (s, Answers (assist_result ''busy'' JNull))
      else if length (ap_offers s) \<ge> 128
      then (s, Answers (assist_reason ''unavailable'' (jlit ''pairing capacity reached; restart supplier with fresh generation'')))
      else let ofr = \<lparr>of_consumer = aq_consumer q, of_deadline = min (aq_deadline q) (ap_now s + 60000), of_epoch = 0,
                      of_status = Pending, of_reason = None\<rparr>;
               s = changed (s\<lparr>ap_offers := jm_set tok ofr (ap_offers s)\<rparr>)
           in (s, Answers (status_result C tok ofr s)))"

definition read_reply :: "'p assist_config \<Rightarrow> jstr \<times> int \<Rightarrow> 'p assist_supplier \<Rightarrow> assist_reply" where
  "read_reply C access s =
     (case sc_read C (ap_app s) access of
        Inr ob \<Rightarrow> Answers (assist_result ''observed'' (observation_json ob))
      | Inl m \<Rightarrow> Answers (assist_reason ''refused'' (jlit ''State projection failed: '' @ (case m of None \<Rightarrow> jlit ''unknown error'' | Some t \<Rightarrow> t))))"

text \<open>An invocation's action, when the payload names one that the capabilities hold.\<close>

definition capability_actions :: "'p assist_config \<Rightarrow> jstr list" where
  "capability_actions C = (case member ''actions'' (sc_capabilities C) of Some (JObj ms) \<Rightarrow> jm_keys ms | _ \<Rightarrow> [])"

definition input_action :: "'p assist_config \<Rightarrow> json \<Rightarrow> jstr option" where
  "input_action C input =
     (case as_string (member ''action'' input) of None \<Rightarrow> None | Some a \<Rightarrow> if a \<in> set (capability_actions C) then Some a else None)"

text \<open>\<open>current()\<close> for an observation that was read: strict equality of a number and a string.\<close>

definition still_current :: "'p assist_config \<Rightarrow> json \<Rightarrow> observation \<Rightarrow> bool" where
  "still_current C input ob =
     (case member ''expected'' input of
        None \<Rightarrow> False
      | Some e \<Rightarrow> (case member ''sequence'' e of Some (JNum l) \<Rightarrow> sc_number C l = ob_sequence ob | _ \<Rightarrow> False)
               \<and> member ''revision'' e = Some (JStr (ob_revision ob)))"

definition begin_invoke :: "'p assist_config \<Rightarrow> jstr \<Rightarrow> offer \<Rightarrow> assistance_request \<Rightarrow> 'p assist_supplier \<Rightarrow> 'p assist_supplier \<times> (assist_reply + await_point)" where
  "begin_invoke C tok ofr q s =
     (if ap_committing s then (s, Inl (Answers (assist_result ''busy'' JNull)))
      else case json_parse (from_utf8 (aq_payload q)) of
        None \<Rightarrow> (s, Inl (Answers (assist_result ''invalid'' JNull)))
      | Some input \<Rightarrow>
          if input_action C input = None then (s, Inl (Answers (assist_result ''unsupported'' JNull)))
          else (case sc_read C (ap_app s) (tok, of_epoch ofr) of
              Inl m \<Rightarrow> (s, Inl Throws)
            | Inr ob \<Rightarrow> if \<not> still_current C input ob then (s, Inl (Answers (assist_result ''conflict'' JNull)))
                        else (s\<lparr>ap_committing := True\<rparr>, Inr (Preparing tok))))"

definition receive_granted :: "'p assist_config \<Rightarrow> jstr \<Rightarrow> offer \<Rightarrow> assistance_request \<Rightarrow> 'p assist_supplier \<Rightarrow> 'p assist_supplier \<times> (assist_reply + await_point)" where
  "receive_granted C tok ofr q s =
     (case permitted C tok q s of
        (s, ok) \<Rightarrow>
          if \<not> ok then (s, Inl refused)
          else if aq_operation q = jlit ''read'' then (s, Inl (read_reply C (tok, of_epoch ofr) s))
          else if aq_operation q \<noteq> jlit ''invoke'' then (s, Inl (Answers (assist_result ''unsupported'' JNull)))
          else begin_invoke C tok ofr q s)"

definition receive_for :: "'p assist_config \<Rightarrow> jstr \<Rightarrow> assistance_request \<Rightarrow> 'p assist_supplier \<Rightarrow> 'p assist_supplier \<times> (assist_reply + await_point)" where
  "receive_for C tok q s =
     (case jm_get (ap_offers s) tok of
        None \<Rightarrow> (s, Inl refused)
      | Some ofr \<Rightarrow>
          if of_consumer ofr \<noteq> aq_consumer q then (s, Inl refused)
          else if aq_operation q = jlit ''end''
          then (let s = finish C (jlit ''consumer ended'') tok s
                in (s, Inl (Answers (status_result C tok (the (jm_get (ap_offers s) tok)) s))))
          else if aq_operation q = jlit ''status'' \<or> of_status ofr = Ended then (s, Inl (Answers (status_result C tok ofr s)))
          else receive_granted C tok ofr q s)"

text \<open>\<open>receive\<close> up to its first \<open>await\<close>; \<open>fresh\<close> is the token that \<open>runtime.id()\<close> would give.\<close>

definition receive :: "'p assist_config \<Rightarrow> jstr \<Rightarrow> assistance_request \<Rightarrow> 'p assist_supplier \<Rightarrow> 'p assist_supplier \<times> (assist_reply + await_point)" where
  "receive C fresh q s =
     (let s = expire C s in
      if aq_version q \<noteq> 1 \<or> \<not> same_identity (aq_identity q) (sc_identity C) \<or> aq_consumer q = []
      then (s, Inl (Answers (assist_reason ''refused'' (jlit ''identity or version mismatch''))))
      else if ap_now s \<ge> aq_deadline q then (s, Inl (Answers (assist_result ''expired'' JNull)))
      else if aq_operation q = jlit ''probeResume'' then begin_probe q s
      else if aq_operation q = jlit ''resume'' then begin_resume q s
      else if aq_operation q = jlit ''offer'' then (let (s, r) = receive_offer C fresh q s in (s, Inl r))
      else receive_for C (case aq_token q of None \<Rightarrow> [] | Some t \<Rightarrow> t) q s)"

subsection \<open>Resumptions\<close>

text \<open>
  The grant that a resume makes: \<open>fresh\<close> is the token of \<open>runtime.id()\<close> and \<open>secret\<close> what
  \<open>remember\<close> draws. The value of a status result is an object.
\<close>

definition grant_resumed :: "'p assist_config \<Rightarrow> jstr \<Rightarrow> jstr \<Rightarrow> assistance_request \<Rightarrow> resume_authority \<Rightarrow> jstr \<Rightarrow> 'p assist_supplier \<Rightarrow> 'p assist_supplier \<times> assist_reply" where
  "grant_resumed C fresh secret q r nonce s =
     (let ofr = \<lparr>of_consumer = aq_consumer q, of_deadline = ra_expires r, of_epoch = ap_epoch s + 1, of_status = Accepted, of_reason = None\<rparr>;
          s = changed (remember C secret ofr (s\<lparr>ap_epoch := ap_epoch s + 1, ap_offers := jm_set fresh ofr (ap_offers s), ap_active := Some fresh\<rparr>));
          out = status_result C fresh ofr s
      in (s, case result_value out of
               Some (JObj ms) \<Rightarrow> Answers (out\<lparr>ar_payload := json_bytes (JObj (jm_set (jlit ''proof'')
                   (JStr (resume_proof (sc_hmac C) (ra_secret r) ''response'' (sc_identity C) (aq_consumer q) nonce)) ms))\<rparr>)
             | _ \<Rightarrow> refused))"

text \<open>The code after an \<open>await proof(\<dots>)\<close>; \<open>ok\<close> says whether the promise resolved.\<close>

definition crypto_settles :: "'p assist_config \<Rightarrow> bool \<Rightarrow> jstr \<Rightarrow> jstr \<Rightarrow> assistance_request \<Rightarrow> await_point \<Rightarrow> 'p assist_supplier \<Rightarrow> 'p assist_supplier \<times> (assist_reply + await_point)" where
  "crypto_settles C ok fresh secret q point s =
     (case point of
        ProbeRequested n r nonce given \<Rightarrow>
          (s, if \<not> ok \<or> given \<noteq> Some (JStr (resume_proof (sc_hmac C) (ra_secret r) ''probe-request'' (sc_identity C) (aq_consumer q) nonce))
              then Inl refused else Inr (ProbeProved n r nonce))
      | ProbeProved n r nonce \<Rightarrow>
          (s, if \<not> ok \<or> \<not> ap_enabled s \<or> \<not> ap_ready s \<or> ap_active s \<noteq> None \<or> map_option fst (ap_authority s) \<noteq> Some n
                \<or> ra_expires r \<le> ap_now s \<or> ap_now s \<ge> aq_deadline q
              then Inl refused
              else Inl (Answers (assist_result ''available''
                (object [(''proof'', JStr (resume_proof (sc_hmac C) (ra_secret r) ''probe-response'' (sc_identity C) (aq_consumer q) nonce))]))))
      | ResumeRequested n r nonce given \<Rightarrow>
          if \<not> ok \<or> given \<noteq> Some (JStr (resume_proof (sc_hmac C) (ra_secret r) ''request'' (sc_identity C) (aq_consumer q) nonce))
          then (s\<lparr>ap_resuming := False\<rparr>, Inl refused)
          else (s, Inr (ResumeProved n r nonce))
      | ResumeProved n r nonce \<Rightarrow>
          if \<not> ok \<or> \<not> ap_enabled s \<or> \<not> ap_ready s \<or> map_option fst (ap_authority s) \<noteq> Some n
             \<or> ra_expires r \<le> ap_now s \<or> ap_now s \<ge> aq_deadline q
          then (s\<lparr>ap_resuming := False\<rparr>, Inl refused)
          else (let (s, reply) = grant_resumed C fresh secret q r nonce s in (s\<lparr>ap_resuming := False\<rparr>, Inl reply))
      | Preparing tok \<Rightarrow> (s, Inr point))"

text \<open>
  How \<open>prepare\<close> settles: it fails with an error's message, or gives the commit, which changes the
  application's state and may throw.
\<close>

datatype 'p prepared = Prepared "'p \<Rightarrow> 'p \<times> jstr option option" | PrepareFails "jstr option"

definition message_or :: "string \<Rightarrow> jstr option \<Rightarrow> jstr" where
  "message_or d m = (case m of None \<Rightarrow> jlit d | Some t \<Rightarrow> t)"

definition commit_prepared :: "'p assist_config \<Rightarrow> jstr \<Rightarrow> json \<Rightarrow> assistance_request \<Rightarrow> ('p \<Rightarrow> 'p \<times> jstr option option) \<Rightarrow> 'p assist_supplier \<Rightarrow> 'p assist_supplier \<times> assistance_result" where
  "commit_prepared C tok input q commit s =
     (let (s, ok) = permitted C tok q s; ofr = the (jm_get (ap_offers s) tok) in
      if \<not> ok then (s, if of_status ofr = Ended then status_result C tok ofr s else assist_result ''expired'' JNull)
      else case sc_read C (ap_app s) (tok, of_epoch ofr) of
        Inl m \<Rightarrow> (s, assist_reason ''unknown'' (message_or ''application outcome unknown'' m))
      | Inr ob \<Rightarrow>
          if \<not> still_current C input ob then (s, assist_result ''conflict'' JNull)
          else (case commit (ap_app s) of
              (p, None) \<Rightarrow> (s\<lparr>ap_app := p\<rparr>, assist_result ''applied'' JNull)
            | (p, Some m) \<Rightarrow> (s\<lparr>ap_app := p\<rparr>, assist_reason ''unknown'' (message_or ''application outcome unknown'' m))))"

definition prepare_settles :: "'p assist_config \<Rightarrow> 'p prepared \<Rightarrow> assistance_request \<Rightarrow> jstr \<Rightarrow> 'p assist_supplier \<Rightarrow> 'p assist_supplier \<times> assist_reply" where
  "prepare_settles C outcome q tok s =
     (case outcome of
        PrepareFails m \<Rightarrow> (s\<lparr>ap_committing := False\<rparr>, Answers (assist_reason ''invalid'' (message_or ''invalid action'' m)))
      | Prepared commit \<Rightarrow>
          (let (s, reply) = commit_prepared C tok (the (json_parse (from_utf8 (aq_payload q)))) q commit s
           in (s\<lparr>ap_committing := False\<rparr>, Answers reply)))"

subsection \<open>Steps\<close>

text \<open>A call goes on to its next point or is answered.\<close>

definition proceed :: "nat \<Rightarrow> assistance_request \<Rightarrow> 'p assist_supplier \<times> (assist_reply + await_point) \<Rightarrow> 'p assist_supplier" where
  "proceed i q r =
     (case r of
        (s, Inl reply) \<Rightarrow> s\<lparr>ap_calls := jm_delete i (ap_calls s), ap_replies := ap_replies s @ [(i, reply)]\<rparr>
      | (s, Inr point) \<Rightarrow> s\<lparr>ap_calls := jm_set i (q, point) (ap_calls s)\<rparr>)"

definition receive_call :: "'p assist_config \<Rightarrow> jstr \<Rightarrow> assistance_request \<Rightarrow> 'p assist_supplier \<Rightarrow> 'p assist_supplier" where
  "receive_call C fresh q s = (let i = ap_fresh s in proceed i q (receive C fresh q (s\<lparr>ap_fresh := i + 1\<rparr>)))"

datatype 'p assist_label =
  Enables bool | SetsReady bool | EndsAll jstr | Declines jstr | Accepts jstr jstr | Inspects
| ClockShows int | AppMoves 'p
| Receives assistance_request jstr
| CryptoSettles nat bool jstr jstr
| PrepareSettles nat "'p prepared"

inductive assist_step :: "'p assist_config \<Rightarrow> 'p assist_supplier \<Rightarrow> 'p assist_label \<Rightarrow> 'p assist_supplier \<Rightarrow> bool" for C where
  step_enable: "assist_step C s (Enables b) (enable C b s)"
| step_ready: "assist_step C s (SetsReady b) (set_ready C b s)"
| step_end: "assist_step C s (EndsAll reason) (end_all C reason s)"
| step_decline: "assist_step C s (Declines tok) (decline C tok s)"
| step_accept: "assist_step C s (Accepts tok secret) (accept_offer C secret tok s)"
| step_inspect: "assist_step C s Inspects (fst (pending C s))"
| step_clock: "assist_step C s (ClockShows t) (s\<lparr>ap_now := t\<rparr>)"
| step_app: "assist_step C s (AppMoves p) (s\<lparr>ap_app := p\<rparr>)"
| step_receive: "jm_get (ap_offers s) fresh = None \<Longrightarrow> assist_step C s (Receives q fresh) (receive_call C fresh q s)"
| step_crypto: "jm_get (ap_calls s) i = Some (q, point) \<Longrightarrow> (\<And>tok. point \<noteq> Preparing tok) \<Longrightarrow> jm_get (ap_offers s) fresh = None
    \<Longrightarrow> assist_step C s (CryptoSettles i ok fresh secret) (proceed i q (crypto_settles C ok fresh secret q point s))"
| step_prepare: "jm_get (ap_calls s) i = Some (q, Preparing tok)
    \<Longrightarrow> assist_step C s (PrepareSettles i outcome)
      (case prepare_settles C outcome q tok s of (s, reply) \<Rightarrow> proceed i q (s, Inl reply))"

inductive_cases assist_step_cases: "assist_step C s l t"

end
