(* ===== verification/Assistance_Grants.thy ===== *)
theory Assistance_Grants
  imports Assistance
begin

text \<open>
  What the assistance supplier of \<open>Assistance\<close> guarantees: offers that end stay ended, at most one
  grant is in force and only while the host is enabled and ready, only a request of that grant's
  consumer commits an action, and every call is answered once.
\<close>

subsection \<open>What ending offers leaves alone\<close>

definition kept :: "'p assist_supplier \<Rightarrow> _" where
  "kept s = (ap_enabled s, ap_ready s, ap_epoch s, ap_committing s, ap_resuming s, ap_now s, ap_app s, ap_calls s, ap_replies s, jm_keys (ap_offers s))"

text \<open>
  \<open>winds s t\<close>: \<open>t\<close> is \<open>s\<close> after some of its offers ended, the active one included or not.
\<close>

definition winds :: "'p assist_supplier \<Rightarrow> 'p assist_supplier \<Rightarrow> bool" where
  "winds s t \<longleftrightarrow> kept t = kept s \<and> ap_fresh s \<le> ap_fresh t
     \<and> (\<forall>tok ofr. jm_get (ap_offers t) tok = Some ofr \<longrightarrow> jm_get (ap_offers s) tok = Some ofr
          \<or> (\<exists>old reason. jm_get (ap_offers s) tok = Some old \<and> of_status old \<noteq> Ended \<and> ofr = old\<lparr>of_status := Ended, of_reason := Some reason\<rparr>))
     \<and> (ap_active t = ap_active s \<and> ap_authority t = ap_authority s \<and> (\<forall>tok. ap_active s = Some tok \<longrightarrow> jm_get (ap_offers t) tok = jm_get (ap_offers s) tok)
        \<or> ap_active t = None \<and> ap_authority t = None \<and> (\<forall>tok. ap_active s = Some tok \<longrightarrow> (\<exists>ofr. jm_get (ap_offers t) tok = Some ofr \<and> of_status ofr = Ended)))"

lemma winds_refl [simp]: "winds s s"
  by (simp add: winds_def)

lemma winds_keptD: "winds s t \<Longrightarrow> kept t = kept s"
  by (simp add: winds_def)

lemma winds_offer:
  assumes "winds s t" "jm_get (ap_offers t) tok = Some ofr"
  shows "jm_get (ap_offers s) tok = Some ofr
    \<or> (\<exists>old reason. jm_get (ap_offers s) tok = Some old \<and> of_status old \<noteq> Ended \<and> ofr = old\<lparr>of_status := Ended, of_reason := Some reason\<rparr>)"
  using assms unfolding winds_def by blast

lemma winds_live: "winds s t \<Longrightarrow> jm_get (ap_offers t) tok = Some ofr \<Longrightarrow> of_status ofr \<noteq> Ended \<Longrightarrow> jm_get (ap_offers s) tok = Some ofr"
  by (drule (1) winds_offer) auto

lemma winds_keys: "winds s t \<Longrightarrow> jm_keys (ap_offers t) = jm_keys (ap_offers s)"
  by (drule winds_keptD) (simp add: kept_def)

lemma winds_dom: "winds s t \<Longrightarrow> jm_get (ap_offers t) tok = None \<longleftrightarrow> jm_get (ap_offers s) tok = None"
  by (drule winds_keys) (metis list.set_map map_of_eq_None_iff)

lemma winds_ended:
  assumes "winds s t" "jm_get (ap_offers s) tok = Some ofr" "of_status ofr = Ended"
  shows "jm_get (ap_offers t) tok = Some ofr"
proof -
  obtain ofr' where t: "jm_get (ap_offers t) tok = Some ofr'"
    using assms(2) winds_dom [OF assms(1)] by (metis not_None_eq)
  from winds_offer [OF assms(1) t] assms(2,3) t show ?thesis by auto
qed

lemma winds_active:
  "winds s t \<Longrightarrow> ap_active t = Some tok \<Longrightarrow> ap_active s = Some tok \<and> jm_get (ap_offers t) tok = jm_get (ap_offers s) tok \<and> ap_authority t = ap_authority s"
  unfolding winds_def by auto

lemma winds_trans:
  assumes "winds s t" "winds t u"
  shows "winds s u"
  unfolding winds_def
proof (intro conjI)
  show "kept u = kept s" using assms [THEN winds_keptD] by simp
  show "ap_fresh s \<le> ap_fresh u" using assms by (simp add: winds_def)
  show "\<forall>tok ofr. jm_get (ap_offers u) tok = Some ofr \<longrightarrow> jm_get (ap_offers s) tok = Some ofr
      \<or> (\<exists>old reason. jm_get (ap_offers s) tok = Some old \<and> of_status old \<noteq> Ended \<and> ofr = old\<lparr>of_status := Ended, of_reason := Some reason\<rparr>)"
  proof (intro allI impI)
    fix tok ofr assume u: "jm_get (ap_offers u) tok = Some ofr"
    from winds_offer [OF assms(2) u] show "jm_get (ap_offers s) tok = Some ofr
      \<or> (\<exists>old reason. jm_get (ap_offers s) tok = Some old \<and> of_status old \<noteq> Ended \<and> ofr = old\<lparr>of_status := Ended, of_reason := Some reason\<rparr>)"
      using winds_offer [OF assms(1), of tok] winds_live [OF assms(1), of tok] by blast
  qed
  show "ap_active u = ap_active s \<and> ap_authority u = ap_authority s \<and> (\<forall>tok. ap_active s = Some tok \<longrightarrow> jm_get (ap_offers u) tok = jm_get (ap_offers s) tok)
      \<or> ap_active u = None \<and> ap_authority u = None \<and> (\<forall>tok. ap_active s = Some tok \<longrightarrow> (\<exists>ofr. jm_get (ap_offers u) tok = Some ofr \<and> of_status ofr = Ended))"
    using assms(1)
    apply (subst (asm) winds_def)
    using assms(2) winds_ended [OF assms(2)]
    apply (subst (asm) winds_def)
    by (metis option.distinct(1))
qed

lemma winds_fold:
  assumes "\<And>x s. winds s (f x s)"
  shows "winds s (fold f xs s)"
  by (induction xs arbitrary: s) (auto intro: winds_trans assms)

lemma keys_jm_set_present: "jm_get m k = Some v \<Longrightarrow> jm_keys (jm_set k w m) = jm_keys m"
  by (simp add: jm_set_present)

lemma finish_winds: "winds s (finish C reason tok s)"
proof (cases "jm_get (ap_offers s) tok")
  case (Some ofr)
  then show ?thesis
    by (auto simp: winds_def kept_def finish_def changed_def save_resume_def Let_def jm_get_set keys_jm_set_present split: if_splits)
qed (simp add: finish_def)

lemma expire_offer_winds: "winds s (expire_offer C tok s)"
  by (simp add: expire_offer_def finish_winds split: option.split)

lemma busy_other_winds: "winds s (busy_other C tok t s)"
  by (simp add: busy_other_def finish_winds split: option.split)

lemma expire_winds: "winds s (expire C s)"
  unfolding expire_def by (rule winds_fold) (rule expire_offer_winds)

lemma finish_all_winds: "winds s (fold (finish C reason) ks s)"
  by (rule winds_fold) (rule finish_winds)

lemma expire_kept [simp]:
  "ap_enabled (expire C s) = ap_enabled s" "ap_ready (expire C s) = ap_ready s" "ap_epoch (expire C s) = ap_epoch s"
  "ap_committing (expire C s) = ap_committing s" "ap_resuming (expire C s) = ap_resuming s" "ap_now (expire C s) = ap_now s"
  "ap_app (expire C s) = ap_app s" "ap_calls (expire C s) = ap_calls s" "ap_replies (expire C s) = ap_replies s"
  using winds_keptD [OF expire_winds, of C s] by (simp_all add: kept_def)

lemma finish_kept [simp]:
  "ap_enabled (finish C r t s) = ap_enabled s" "ap_ready (finish C r t s) = ap_ready s" "ap_epoch (finish C r t s) = ap_epoch s"
  "ap_committing (finish C r t s) = ap_committing s" "ap_resuming (finish C r t s) = ap_resuming s" "ap_now (finish C r t s) = ap_now s"
  "ap_app (finish C r t s) = ap_app s" "ap_calls (finish C r t s) = ap_calls s" "ap_replies (finish C r t s) = ap_replies s"
  using winds_keptD [OF finish_winds, of C r t s] by (simp_all add: kept_def)

lemma expire_live:
  assumes "jm_get (ap_offers (expire C s)) tok = Some ofr" "of_status ofr \<noteq> Ended"
  shows "ap_now s < of_deadline ofr"
proof -
  have step: "ap_now u < of_deadline ofr" if "jm_get (ap_offers (expire_offer C tok u)) tok = Some ofr" for u
  proof (rule ccontr)
    assume late: "\<not> ap_now u < of_deadline ofr"
    have "jm_get (ap_offers u) tok = Some ofr" using winds_live [OF expire_offer_winds that assms(2)] .
    moreover have "of_status (ofr\<lparr>of_status := Ended, of_reason := reason\<rparr>) \<noteq> of_status ofr" for reason
      using assms(2) by simp
    ultimately show False using that late assms(2)
      by (auto simp: expire_offer_def finish_def changed_def save_resume_def Let_def jm_get_set split: if_splits dest: arg_cong [where f = of_status])
  qed
  have "ap_now u < of_deadline ofr" if "tok \<in> set ks" "jm_get (ap_offers (fold (expire_offer C) ks u)) tok = Some ofr" for ks u
    using that
  proof (induction ks arbitrary: u)
    case (Cons k ks)
    have now: "ap_now (expire_offer C k u) = ap_now u"
      using winds_keptD [OF expire_offer_winds, of C k u] by (simp add: kept_def)
    show ?case
    proof (cases "tok \<in> set ks")
      case True
      with Cons now show ?thesis by fastforce
    next
      case False
      with Cons.prems have k: "k = tok" by simp
      have "winds (expire_offer C k u) (fold (expire_offer C) ks (expire_offer C k u))"
        by (rule winds_fold) (rule expire_offer_winds)
      from winds_live [OF this] Cons.prems(2) assms(2) show ?thesis by (simp add: k step)
    qed
  qed simp
  moreover have "tok \<in> set (jm_keys (ap_offers s))"
    using assms(1) winds_keys [OF expire_winds, of C s] by (metis map_of_eq_None_iff option.distinct(1) list.set_map)
  ultimately show ?thesis using assms(1) unfolding expire_def by blast
qed

subsection \<open>The life of an offer\<close>

text \<open>What one step can make of an offer, and of the offers of a state.\<close>

definition offer_moves :: "offer \<Rightarrow> offer \<Rightarrow> bool" where
  "offer_moves ofr ofr' \<longleftrightarrow> ofr' = ofr
     \<or> of_status ofr \<noteq> Ended \<and> (\<exists>reason. ofr' = ofr\<lparr>of_status := Ended, of_reason := Some reason\<rparr>)
     \<or> of_status ofr = Pending \<and> (\<exists>e d. ofr' = ofr\<lparr>of_status := Accepted, of_epoch := e, of_deadline := d\<rparr>)"

definition offers_move :: "'p assist_supplier \<Rightarrow> 'p assist_supplier \<Rightarrow> bool" where
  "offers_move s t \<longleftrightarrow> (\<forall>tok ofr. jm_get (ap_offers s) tok = Some ofr \<longrightarrow> (\<exists>ofr'. jm_get (ap_offers t) tok = Some ofr' \<and> offer_moves ofr ofr'))"

lemma offer_moves_refl [simp]: "offer_moves ofr ofr"
  by (simp add: offer_moves_def)

lemma offers_move_same: "ap_offers t = ap_offers s \<Longrightarrow> offers_move s t"
  by (simp add: offers_move_def)

lemma offers_move_winds: "winds s t \<Longrightarrow> offers_move s t"
  unfolding offers_move_def
proof (intro allI impI)
  fix tok ofr assume w: "winds s t" and s: "jm_get (ap_offers s) tok = Some ofr"
  obtain ofr' where t: "jm_get (ap_offers t) tok = Some ofr'"
    using s winds_dom [OF w] by (metis not_None_eq)
  from winds_offer [OF w t] s t show "\<exists>ofr'. jm_get (ap_offers t) tok = Some ofr' \<and> offer_moves ofr ofr'"
    by (auto simp: offer_moves_def)
qed

lemma offers_move_fresh:
  "jm_get (ap_offers s) fresh = None \<Longrightarrow> ap_offers t = jm_set fresh ofr (ap_offers s) \<Longrightarrow> offers_move s t"
  by (auto simp: offers_move_def jm_get_set)

lemma save_resume_offers [simp]: "ap_offers (save_resume C a s) = ap_offers s" "ap_offers (remember C secret ofr s) = ap_offers s"
  by (simp_all add: save_resume_def remember_def)

lemma changed_offers [simp]: "ap_offers (changed s) = ap_offers s"
  by (simp add: changed_def)

lemma end_all_moves: "offers_move s (end_all C reason s)"
  using offers_move_winds [OF finish_all_winds, of s C reason] by (simp add: offers_move_def end_all_def)

text \<open>\<open>accept\<close> either only lets offers expire or grants the offer and ends the other pending ones.\<close>

definition granted_offer :: "'p assist_config \<Rightarrow> 'p assist_supplier \<Rightarrow> offer \<Rightarrow> offer" where
  "granted_offer C s ofr = ofr\<lparr>of_status := Accepted, of_epoch := ap_epoch s + 1,
     of_deadline := ap_now s + (case sc_grant_ms C of None \<Rightarrow> 300000 | Some ms \<Rightarrow> ms)\<rparr>"

definition granted_state :: "'p assist_config \<Rightarrow> jstr \<Rightarrow> jstr \<Rightarrow> offer \<Rightarrow> 'p assist_supplier \<Rightarrow> 'p assist_supplier" where
  "granted_state C secret tok ofr s =
     (let s' = expire C s in remember C secret (granted_offer C s ofr)
        (s'\<lparr>ap_epoch := ap_epoch s + 1, ap_offers := jm_set tok (granted_offer C s ofr) (ap_offers s'), ap_active := Some tok\<rparr>))"

lemma busy_others_keep:
  "ap_active x = Some tok \<Longrightarrow> ap_active (fold (busy_other C tok) ks x) = Some tok
     \<and> jm_get (ap_offers (fold (busy_other C tok) ks x)) tok = jm_get (ap_offers x) tok"
  by (induction ks arbitrary: x)
    (auto simp: busy_other_def finish_def Let_def jm_get_set changed_def save_resume_def split: option.splits)

lemma remember_kept [simp]:
  "ap_active (remember C secret ofr s) = ap_active s" "ap_enabled (remember C secret ofr s) = ap_enabled s"
  "ap_ready (remember C secret ofr s) = ap_ready s" "ap_epoch (remember C secret ofr s) = ap_epoch s"
  "ap_committing (remember C secret ofr s) = ap_committing s" "ap_resuming (remember C secret ofr s) = ap_resuming s"
  "ap_now (remember C secret ofr s) = ap_now s" "ap_app (remember C secret ofr s) = ap_app s"
  "ap_calls (remember C secret ofr s) = ap_calls s" "ap_replies (remember C secret ofr s) = ap_replies s"
  by (simp_all add: remember_def save_resume_def)

lemma accept_offerE:
  obtains (none) "accept_offer C secret tok s = expire C s"
  | (grants) ofr v where "jm_get (ap_offers s) tok = Some ofr" "of_status ofr = Pending" "ap_enabled s" "ap_ready s"
      "ap_active (expire C s) = None" "ap_now s < of_deadline ofr" "winds (granted_state C secret tok ofr s) v"
      "ap_active v = Some tok" "jm_get (ap_offers v) tok = Some (granted_offer C s ofr)"
      "ap_authority v = ap_authority (granted_state C secret tok ofr s)" "accept_offer C secret tok s = changed v"
proof (cases "\<exists>ofr. jm_get (ap_offers (expire C s)) tok = Some ofr \<and> of_status ofr = Pending \<and> ap_enabled s \<and> ap_ready s \<and> ap_active (expire C s) = None")
  case True
  then obtain ofr where ofr: "jm_get (ap_offers (expire C s)) tok = Some ofr" "of_status ofr = Pending" "ap_enabled s" "ap_ready s" "ap_active (expire C s) = None"
    by blast
  let ?u = "granted_state C secret tok ofr s"
  let ?v = "fold (busy_other C tok) (jm_keys (ap_offers ?u)) ?u"
  have a: "ap_active ?u = Some tok" "jm_get (ap_offers ?u) tok = Some (granted_offer C s ofr)"
    by (simp_all add: granted_state_def Let_def jm_get_set)
  have w: "winds ?u ?v" by (rule winds_fold) (rule busy_other_winds)
  have v: "ap_active ?v = Some tok" "jm_get (ap_offers ?v) tok = Some (granted_offer C s ofr)"
    using busy_others_keep [OF a(1), of C "jm_keys (ap_offers ?u)"] a(2) by simp_all
  have "accept_offer C secret tok s = changed ?v"
    using ofr by (simp add: accept_offer_def Let_def granted_state_def granted_offer_def)
  with ofr v show thesis
    using grants [OF winds_live [OF expire_winds ofr(1)], of ?v] w winds_active [OF w v(1)] expire_live [OF ofr(1)]
    by simp
next
  case False
  then have "accept_offer C secret tok s = expire C s"
    by (auto simp: accept_offer_def Let_def split: option.splits)
  then show thesis by (rule none)
qed

lemma accept_moves: "offers_move s (accept_offer C secret tok s)"
proof (cases rule: accept_offerE [of C secret tok s])
  case none
  then show ?thesis using offers_move_winds [OF expire_winds] by simp
next
  case (grants ofr v)
  show ?thesis
    unfolding offers_move_def
  proof (intro allI impI)
    fix k old assume k: "jm_get (ap_offers s) k = Some old"
    obtain mid where mid: "jm_get (ap_offers (expire C s)) k = Some mid" "offer_moves old mid"
      using k offers_move_winds [OF expire_winds, of s C] unfolding offers_move_def by blast
    obtain new where new: "jm_get (ap_offers v) k = Some new"
      using winds_dom [OF grants(7), of k] mid(1)
      by (cases "k = tok") (auto simp: granted_state_def Let_def jm_get_set)
    show "\<exists>new. jm_get (ap_offers (accept_offer C secret tok s)) k = Some new \<and> offer_moves old new"
    proof (cases "k = tok")
      case True
      with k grants show ?thesis by (auto simp: offer_moves_def granted_offer_def)
    next
      case False
      then have u: "jm_get (ap_offers (granted_state C secret tok ofr s)) k = jm_get (ap_offers (expire C s)) k"
        by (simp add: granted_state_def Let_def jm_get_set)
      from winds_offer [OF grants(7) new] winds_offer [OF expire_winds mid(1)] k mid(1) u new show ?thesis
        by (auto simp: offer_moves_def grants(11))
    qed
  qed
qed

lemma receive_for_offers:
  "ap_offers (fst (receive_for C tok q s)) \<in> {ap_offers s, ap_offers (finish C (jlit ''consumer ended'') tok s), ap_offers (expire C s)}"
  by (simp add: receive_for_def receive_granted_def permitted_def begin_invoke_def Let_def split: option.split sum.split)

lemma receive_moves:
  assumes "jm_get (ap_offers s) fresh = None"
  shows "offers_move s (fst (receive C fresh q s))"
proof -
  let ?s = "expire C s"
  have by_winds: "offers_move s t" if "ap_offers t = ap_offers u" "winds s u" for t u :: "'a assist_supplier"
    using offers_move_winds [OF that(2)] that(1) by (simp add: offers_move_def)
  note W = expire_winds [of s C]
  have "offers_move s (fst (receive_for C tok q ?s))" for tok
    using receive_for_offers [of C tok q ?s] by_winds [OF _ W] by_winds [OF _ winds_trans [OF W finish_winds]]
      by_winds [OF _ winds_trans [OF W expire_winds]] by blast
  moreover have "offers_move s (fst (receive_offer C fresh q ?s))"
  proof (cases "ap_offers (fst (receive_offer C fresh q ?s)) = ap_offers ?s")
    case True
    then show ?thesis by (rule by_winds [OF _ W])
  next
    case False
    then obtain ofr where new: "ap_offers (fst (receive_offer C fresh q ?s)) = jm_set fresh ofr (ap_offers ?s)"
      by (auto simp: receive_offer_def Let_def split: if_splits)
    show ?thesis
      using offers_move_winds [OF W] assms by (auto simp: offers_move_def new jm_get_set)
  qed
  moreover have "offers_move s (fst (begin_probe q ?s))" "offers_move s (fst (begin_resume q ?s))"
    using by_winds [OF _ W] by (simp_all add: begin_probe_def begin_resume_def split: option.split)
  moreover have "offers_move s ?s" by (rule offers_move_winds [OF W])
  ultimately show ?thesis
    by (cases "receive_offer C fresh q ?s") (simp add: receive_def Let_def)
qed

lemma commit_winds: "winds s (fst (permitted C tok q s))"
  by (simp add: permitted_def expire_winds Let_def)

lemma prepare_moves: "offers_move s (fst (prepare_settles C outcome q tok s))"
  using offers_move_winds [OF expire_winds, of s C]
  by (auto simp: prepare_settles_def commit_prepared_def permitted_def Let_def offers_move_def split: prepared.split sum.split prod.split option.split)

lemma crypto_moves:
  assumes "jm_get (ap_offers s) fresh = None"
  shows "offers_move s (fst (crypto_settles C ok fresh secret q point s))"
  using assms
  by (auto simp: crypto_settles_def grant_resumed_def Let_def offers_move_def jm_get_set split: await_point.split)

lemma proceed_offers [simp]: "ap_offers (proceed i q (s, r)) = ap_offers s"
  by (simp add: proceed_def split: sum.split)

lemma proceed_fst_offers [simp]: "ap_offers (proceed i q p) = ap_offers (fst p)"
  by (cases p) simp

lemma assist_step_moves: "assist_step C s l t \<Longrightarrow> offers_move s t"
proof (induction rule: assist_step.induct)
  case (step_enable s b)
  show ?case using end_all_moves [of "s\<lparr>ap_enabled := False\<rparr>" C "jlit ''disabled''"] by (cases b) (simp_all add: enable_def Let_def offers_move_def)
next
  case (step_ready s b)
  show ?case using end_all_moves [of "s\<lparr>ap_ready := False\<rparr>" C "jlit ''disconnected''"] by (cases b) (simp_all add: set_ready_def Let_def offers_move_def)
next
  case (step_receive s fresh q)
  then show ?case using receive_moves [of "s\<lparr>ap_fresh := ap_fresh s + 1\<rparr>" fresh C q] by (simp add: receive_call_def Let_def offers_move_def)
next
  case (step_crypto s i q point fresh ok secret)
  then show ?case using crypto_moves [of s fresh C ok secret q point] by (simp add: offers_move_def)
next
  case (step_prepare s i q tok outcome)
  then show ?case using prepare_moves [of s C outcome q tok] by (cases "prepare_settles C outcome q tok s") (simp add: offers_move_def)
qed (simp_all add: end_all_moves accept_moves offers_move_winds [OF finish_winds] offers_move_winds [OF expire_winds] decline_def pending_def Let_def offers_move_same)

subsection \<open>One grant at a time\<close>

text \<open>The number of the authority that a suspended resume captured.\<close>

fun resume_mark :: "await_point \<Rightarrow> nat option" where
  "resume_mark (ResumeRequested n r nonce given) = Some n"
| "resume_mark (ResumeProved n r nonce) = Some n"
| "resume_mark _ = None"

definition marks :: "'p assist_supplier \<Rightarrow> nat set" where
  "marks s = {n. \<exists>i q p. jm_get (ap_calls s) i = Some (q, p) \<and> resume_mark p = Some n}"

definition grants_ok :: "'p assist_config \<Rightarrow> 'p assist_supplier \<Rightarrow> bool" where
  "grants_ok C s \<longleftrightarrow>
     (\<forall>tok. ap_active s = Some tok \<longrightarrow> ap_enabled s \<and> ap_ready s \<and> (\<exists>ofr. jm_get (ap_offers s) tok = Some ofr \<and> of_status ofr = Accepted))
     \<and> (\<forall>tok ofr. jm_get (ap_offers s) tok = Some ofr \<longrightarrow> of_epoch ofr \<le> ap_epoch s \<and> (of_status ofr = Accepted \<longrightarrow> ap_active s = Some tok))
     \<and> (\<forall>n r. ap_authority s = Some (n, r) \<longrightarrow> n < ap_fresh s \<and> sc_saves C \<and> (ap_active s \<noteq> None \<longrightarrow> n \<notin> marks s))
     \<and> (\<forall>n \<in> marks s. n < ap_fresh s) \<and> 0 \<le> ap_epoch s"

definition core :: "'p assist_supplier \<Rightarrow> _" where
  "core s = (ap_enabled s, ap_ready s, ap_epoch s, ap_active s, ap_offers s, ap_authority s, ap_fresh s)"

lemma grants_ok_core: "core t = core s \<Longrightarrow> marks t \<subseteq> marks s \<Longrightarrow> grants_ok C s \<Longrightarrow> grants_ok C t"
  by (simp add: grants_ok_def core_def) blast

lemma grants_ok_changed [simp]: "grants_ok C (changed s) = grants_ok C s"
  by (simp add: grants_ok_def changed_def marks_def)

lemma marks_same: "ap_calls t = ap_calls s \<Longrightarrow> marks t = marks s"
  by (simp add: marks_def)

lemma winds_marks: "winds s t \<Longrightarrow> marks t = marks s"
  by (drule winds_keptD) (simp add: kept_def marks_def)

lemma grants_ok_winds:
  assumes ok: "grants_ok C s" and w: "winds s t"
  shows "grants_ok C t"
proof -
  have k: "ap_enabled t = ap_enabled s" "ap_ready t = ap_ready s" "ap_epoch t = ap_epoch s" "marks t = marks s" "ap_fresh s \<le> ap_fresh t"
    using winds_keptD [OF w] winds_marks [OF w] w by (simp_all add: kept_def winds_def)
  have "of_epoch ofr \<le> ap_epoch t \<and> (of_status ofr = Accepted \<longrightarrow> ap_active t = Some tok)"
    if t: "jm_get (ap_offers t) tok = Some ofr" for tok ofr
  proof -
    from winds_offer [OF w t] obtain old where old: "jm_get (ap_offers s) tok = Some old" "of_epoch ofr = of_epoch old"
      "of_status ofr = Accepted \<longrightarrow> ofr = old" by auto
    then have "of_epoch ofr \<le> ap_epoch t" "of_status ofr = Accepted \<longrightarrow> ap_active s = Some tok"
      using ok k(3) unfolding grants_ok_def by auto
    moreover have "ap_active s = Some tok \<Longrightarrow> of_status ofr = Accepted \<Longrightarrow> ap_active t = Some tok"
      using w t by (auto simp: winds_def)
    ultimately show ?thesis by blast
  qed
  moreover have "ap_active t = Some tok \<longrightarrow> ap_enabled t \<and> ap_ready t \<and> (\<exists>ofr. jm_get (ap_offers t) tok = Some ofr \<and> of_status ofr = Accepted)" for tok
    using winds_active [OF w] ok k(1,2) unfolding grants_ok_def by metis
  moreover have "n < ap_fresh t \<and> sc_saves C \<and> (ap_active t \<noteq> None \<longrightarrow> n \<notin> marks t)" if "ap_authority t = Some (n, r)" for n r
  proof -
    have "ap_authority s = Some (n, r)" using that w by (auto simp: winds_def)
    moreover have "ap_active t \<noteq> None \<Longrightarrow> ap_active s \<noteq> None" using winds_active [OF w] by auto
    ultimately show ?thesis using ok k unfolding grants_ok_def by fastforce
  qed
  ultimately show ?thesis using ok k unfolding grants_ok_def by fastforce
qed

lemma finish_all_ended:
  assumes "tok \<in> set ks" "jm_get (ap_offers (fold (finish C reason) ks s)) tok = Some ofr"
  shows "of_status ofr = Ended"
  using assms
proof (induction ks arbitrary: s)
  case (Cons k ks)
  show ?case
  proof (cases "tok \<in> set ks")
    case True
    with Cons show ?thesis by simp
  next
    case False
    with Cons.prems have k: "k = tok" by simp
    have "of_status o' = Ended" if "jm_get (ap_offers (finish C reason tok s)) tok = Some o'" for o'
      using that by (auto simp: finish_def changed_def Let_def save_resume_def jm_get_set split: option.splits if_splits)
    with winds_offer [OF finish_all_winds] Cons.prems(2) show ?thesis by (fastforce simp: k)
  qed
qed simp

lemma end_all_ended: "jm_get (ap_offers (end_all C reason s)) tok = Some ofr \<Longrightarrow> of_status ofr = Ended"
  using finish_all_ended [of tok "jm_keys (ap_offers s)" C reason s ofr]
    winds_dom [of s "fold (finish C reason) (jm_keys (ap_offers s)) s" tok, OF finish_all_winds]
  by (force simp: end_all_def map_of_eq_None_iff)

lemma end_all_inactive:
  assumes "\<forall>tok. ap_active s = Some tok \<longrightarrow> (\<exists>ofr. jm_get (ap_offers s) tok = Some ofr \<and> of_status ofr \<noteq> Ended)"
  shows "ap_active (end_all C reason s) = None"
proof (rule ccontr)
  let ?t = "fold (finish C reason) (jm_keys (ap_offers s)) s"
  assume "\<not> ?thesis"
  then obtain tok where t: "ap_active ?t = Some tok" by (auto simp: end_all_def save_resume_def)
  from winds_active [OF finish_all_winds t] assms obtain ofr where
    "jm_get (ap_offers (end_all C reason s)) tok = Some ofr" "of_status ofr \<noteq> Ended"
    by (auto simp: end_all_def save_resume_def)
  with end_all_ended show False by blast
qed

lemma end_all_kept:
  "marks (end_all C reason s) = marks s" "ap_epoch (end_all C reason s) = ap_epoch s" "ap_authority (end_all C reason s) = None"
  "ap_fresh s \<le> ap_fresh (end_all C reason s)"
  using finish_all_winds [of s C reason "jm_keys (ap_offers s)"]
  by (simp_all add: end_all_def save_resume_def winds_def kept_def marks_def)

text \<open>Whatever \<open>enabled\<close> and \<open>ready\<close> became, the state after \<open>end\<close> has no grant.\<close>

lemma grants_ok_end_all:
  assumes ok: "grants_ok C s" and t: "ap_offers t = ap_offers s" "ap_active t = ap_active s" "ap_calls t = ap_calls s"
    "ap_epoch t = ap_epoch s" "ap_fresh t = ap_fresh s"
  shows "grants_ok C (end_all C reason t)"
proof -
  have a: "ap_active (end_all C reason t) = None"
  proof (rule end_all_inactive, intro allI impI)
    fix tok assume "ap_active t = Some tok"
    then obtain ofr where "jm_get (ap_offers s) tok = Some ofr" "of_status ofr = Accepted"
      using ok t(2) unfolding grants_ok_def by auto
    then show "\<exists>ofr. jm_get (ap_offers t) tok = Some ofr \<and> of_status ofr \<noteq> Ended" by (simp add: t(1))
  qed
  have "of_epoch ofr \<le> ap_epoch s" if "jm_get (ap_offers (end_all C reason t)) tok = Some ofr" for tok ofr
  proof -
    have "jm_get (ap_offers (fold (finish C reason) (jm_keys (ap_offers t)) t)) tok = Some ofr" using that by (simp add: end_all_def)
    from winds_offer [OF finish_all_winds this] obtain old where "jm_get (ap_offers s) tok = Some old" "of_epoch ofr = of_epoch old"
      by (auto simp: t(1))
    with ok show ?thesis unfolding grants_ok_def by auto
  qed
  moreover have "marks t = marks s" using t(3) by (rule marks_same)
  ultimately show ?thesis
    using ok end_all_ended [of C reason t] end_all_kept [where C = C and reason = reason and s = t] t a
    unfolding grants_ok_def by fastforce
qed

text \<open>A new grant, when nothing is active and no suspended resume knows the authority it sets.\<close>

lemma grants_ok_granted:
  assumes ok: "grants_ok C s" and idle: "ap_active s = None" and live: "ap_enabled s" "ap_ready s"
    and ofr: "of_status ofr = Accepted" "of_epoch ofr = ap_epoch s + 1"
  shows "grants_ok C (remember C secret ofr (s\<lparr>ap_epoch := ap_epoch s + 1, ap_offers := jm_set tok ofr (ap_offers s), ap_active := Some tok\<rparr>))"
    (is "grants_ok C ?t")
proof -
  have old: "of_epoch o' \<le> ap_epoch s + 1" "of_status o' \<noteq> Accepted" if "jm_get (ap_offers s) k = Some o'" for k o'
    using ok idle that unfolding grants_ok_def by (metis add.commute add_increasing zero_le_one, metis option.distinct(1))
  have m: "marks ?t = marks s" by (simp add: marks_def)
  have fence: "n < ap_fresh ?t \<and> sc_saves C \<and> n \<notin> marks s" if "ap_authority ?t = Some (n, r)" for n r
    using that ok unfolding grants_ok_def by (auto simp: remember_def save_resume_def split: if_splits)
  have fresh: "ap_fresh s \<le> ap_fresh ?t" by (simp add: remember_def save_resume_def)
  then show ?thesis
    using ok live ofr old fence unfolding grants_ok_def m
    by (auto simp: jm_get_set order_less_le_trans split: if_splits intro: order_trans)
qed

lemma grants_ok_accept: "grants_ok C s \<Longrightarrow> grants_ok C (accept_offer C secret tok s)"
proof (cases rule: accept_offerE [of C secret tok s])
  case none
  then show "grants_ok C s \<Longrightarrow> ?thesis" by (simp add: grants_ok_winds [OF _ expire_winds])
next
  case (grants ofr v)
  assume "grants_ok C s"
  then have "grants_ok C (granted_state C secret tok ofr s)"
    using grants_ok_granted [where s = "expire C s" and ofr = "granted_offer C s ofr", OF grants_ok_winds [OF _ expire_winds]] grants
    by (simp add: granted_state_def granted_offer_def Let_def)
  then have "grants_ok C v" by (rule grants_ok_winds [OF _ grants(7)])
  then show ?thesis
    by (simp add: grants(11))
qed

lemma grants_ok_offer:
  assumes "grants_ok C s" "jm_get (ap_offers s) fresh = None"
    "core t = core (s\<lparr>ap_offers := jm_set fresh ofr (ap_offers s)\<rparr>)" "marks t = marks s"
    "of_status ofr = Pending" "of_epoch ofr = 0"
  shows "grants_ok C t"
proof -
  have "ap_active s \<noteq> Some fresh" using assms(1,2) unfolding grants_ok_def by auto
  with assms show ?thesis
    unfolding grants_ok_def core_def by (auto simp: jm_get_set)
qed

lemma receive_granted_core: "core (fst (receive_granted C tok ofr q s)) = core (expire C s)"
proof -
  have "core (fst (begin_invoke C tok ofr q u)) = core u" for u
    by (simp add: begin_invoke_def core_def split: option.split sum.split)
  then show ?thesis by (simp add: receive_granted_def permitted_def Let_def)
qed

lemma receive_for_winds: "\<exists>u. winds s u \<and> core (fst (receive_for C tok q s)) = core u"
proof -
  have "core (fst (receive_for C tok q s)) \<in> {core s, core (finish C (jlit ''consumer ended'') tok s), core (expire C s)}"
    by (simp add: receive_for_def receive_granted_core Let_def split: option.split)
  then show ?thesis
    using finish_winds [of s C _ tok] expire_winds [of s C] winds_refl [of s] by blast
qed

lemma receive_offer_core:
  "core (fst (receive_offer C fresh q s)) = core s
    \<or> (\<exists>ofr. core (fst (receive_offer C fresh q s)) = core (s\<lparr>ap_offers := jm_set fresh ofr (ap_offers s)\<rparr>)
          \<and> of_status ofr = Pending \<and> of_epoch ofr = 0 \<and> of_consumer ofr = aq_consumer q \<and> ap_active s = None \<and> length (ap_offers s) < 128)"
  by (auto simp: receive_offer_def core_def changed_def Let_def)

text \<open>The ways through \<open>receive\<close>.\<close>

definition request_valid :: "'p assist_config \<Rightarrow> assistance_request \<Rightarrow> int \<Rightarrow> bool" where
  "request_valid C q now \<longleftrightarrow> aq_version q = 1 \<and> aq_identity q = sc_identity C \<and> aq_consumer q \<noteq> [] \<and> now < aq_deadline q"

lemma receive_valid:
  "request_valid C q (ap_now s) \<Longrightarrow> receive C fresh q s =
     (let s = expire C s in
      if aq_operation q = jlit ''probeResume'' then begin_probe q s
      else if aq_operation q = jlit ''resume'' then begin_resume q s
      else if aq_operation q = jlit ''offer'' then (fst (receive_offer C fresh q s), Inl (snd (receive_offer C fresh q s)))
      else receive_for C (case aq_token q of None \<Rightarrow> [] | Some t \<Rightarrow> t) q s)"
  by (simp add: receive_def request_valid_def same_identity_eq Let_def case_prod_beta)

lemma receive_invalid: "\<not> request_valid C q (ap_now s) \<Longrightarrow> \<exists>reply. receive C fresh q s = (expire C s, Inl reply)"
  by (auto simp: receive_def request_valid_def same_identity_eq Let_def)

lemma receiveE:
  obtains (early) reply where "receive C fresh q s = (expire C s, Inl reply)"
  | (probe) "receive C fresh q s = begin_probe q (expire C s)"
  | (resume) "receive C fresh q s = begin_resume q (expire C s)"
  | (offer) "receive C fresh q s = (fst (receive_offer C fresh q (expire C s)), Inl (snd (receive_offer C fresh q (expire C s))))"
  | (token) tok where "receive C fresh q s = receive_for C tok q (expire C s)" "request_valid C q (ap_now s)"
proof (cases "request_valid C q (ap_now s)")
  case True
  have "receive C fresh q s \<in> {begin_probe q (expire C s), begin_resume q (expire C s),
      (fst (receive_offer C fresh q (expire C s)), Inl (snd (receive_offer C fresh q (expire C s)))),
      receive_for C (case aq_token q of None \<Rightarrow> [] | Some t \<Rightarrow> t) q (expire C s)}"
    unfolding receive_valid [OF True] Let_def by (cases "aq_operation q = jlit ''probeResume''"; cases "aq_operation q = jlit ''resume''"; cases "aq_operation q = jlit ''offer''") simp_all
  then show thesis using True probe resume offer token by blast
next
  case False
  then show thesis using receive_invalid early by blast
qed

lemma receive_core:
  obtains (winds) u where "winds s u" "core (fst (receive C fresh q s)) = core u"
  | (offers) ofr where "core (fst (receive C fresh q s)) = core ((expire C s)\<lparr>ap_offers := jm_set fresh ofr (ap_offers (expire C s))\<rparr>)"
      "of_status ofr = Pending" "of_epoch ofr = 0" "of_consumer ofr = aq_consumer q"
proof -
  let ?s = "expire C s"
  note W = expire_winds [of s C]
  have parts: "core (fst (begin_probe q ?s)) = core ?s" "core (fst (begin_resume q ?s)) = core ?s"
    by (simp_all add: begin_probe_def begin_resume_def core_def split: option.split)
  show thesis
  proof (cases rule: receiveE [where C = C and fresh = fresh and q = q and s = s])
    case offer
    then show ?thesis using receive_offer_core [of C fresh q ?s] winds [OF W] offers by auto
  next
    case (token tok)
    then show ?thesis using receive_for_winds [of ?s C tok q] winds winds_trans [OF W] by metis
  qed (use winds [OF W] parts in auto)
qed

lemma proceed_core [simp]: "core (proceed i q p) = core (fst p)"
  by (cases p) (simp add: proceed_def core_def split: sum.split)

lemma proceed_marks:
  "n \<in> marks (proceed i q p) \<Longrightarrow> n \<in> marks (fst p) \<or> (\<exists>point. snd p = Inr point \<and> resume_mark point = Some n)"
  by (cases p) (auto simp: proceed_def marks_def jm_get_set jm_get_delete split: sum.splits if_splits)

lemma grants_ok_proceed:
  assumes ok: "grants_ok C (fst p)"
    and new: "\<And>point n. snd p = Inr point \<Longrightarrow> resume_mark point = Some n \<Longrightarrow> n \<in> marks (fst p) \<or> n < ap_fresh (fst p) \<and> ap_active (fst p) = None"
  shows "grants_ok C (proceed i q p)"
proof -
  have m: "n \<in> marks (fst p) \<or> n < ap_fresh (fst p) \<and> ap_active (fst p) = None" if "n \<in> marks (proceed i q p)" for n
    using proceed_marks [OF that] new by blast
  have c: "ap_enabled (proceed i q p) = ap_enabled (fst p)" "ap_ready (proceed i q p) = ap_ready (fst p)" "ap_epoch (proceed i q p) = ap_epoch (fst p)"
    "ap_active (proceed i q p) = ap_active (fst p)" "ap_authority (proceed i q p) = ap_authority (fst p)" "ap_fresh (proceed i q p) = ap_fresh (fst p)"
    using proceed_core [of i q p] by (simp_all add: core_def)
  note o = ok [unfolded grants_ok_def]
  have "n \<notin> marks (proceed i q p)" if "ap_authority (fst p) = Some (n, r)" "ap_active (fst p) \<noteq> None" for n r
    using m [of n] o that by blast
  moreover have "n < ap_fresh (fst p)" if "n \<in> marks (proceed i q p)" for n
    using m [OF that] o by blast
  ultimately show ?thesis
    unfolding grants_ok_def c proceed_fst_offers using o by (intro conjI) (blast+)?
qed

lemma begin_invoke_mark: "snd (begin_invoke C tok ofr q s) = Inr point \<Longrightarrow> point = Preparing tok"
  by (auto simp: begin_invoke_def split: option.splits if_splits sum.splits)

lemma receive_granted_mark: "snd (receive_granted C tok ofr q s) = Inr point \<Longrightarrow> point = Preparing tok"
  by (auto simp: receive_granted_def begin_invoke_mark split: if_splits prod.splits)

lemma receive_for_mark: "snd (receive_for C tok q s) = Inr point \<Longrightarrow> point = Preparing tok"
  by (auto simp: receive_for_def receive_granted_mark Let_def split: option.splits if_splits)

lemma receive_mark:
  assumes "snd (receive C fresh q s) = Inr point" "resume_mark point = Some n"
  shows "ap_active (fst (receive C fresh q s)) = None \<and> (\<exists>r. ap_authority (fst (receive C fresh q s)) = Some (n, r))"
proof (cases rule: receiveE [where C = C and fresh = fresh and q = q and s = s])
  case probe
  with assms show ?thesis by (auto simp: begin_probe_def split: option.splits if_splits)
next
  case resume
  with assms show ?thesis by (auto simp: begin_resume_def split: option.splits if_splits)
next
  case (token tok)
  with assms receive_for_mark [of C tok q "expire C s" point] show ?thesis by simp
qed (use assms in simp_all)

lemma receive_fresh: "ap_fresh s \<le> ap_fresh (fst (receive C fresh q s))"
  using expire_winds [of s C]
  by (cases rule: receive_core [where C = C and fresh = fresh and q = q and s = s]) (auto simp: core_def winds_def)

lemma begin_invoke_calls: "ap_calls (fst (begin_invoke C tok ofr q s)) = ap_calls s"
  by (simp add: begin_invoke_def split: option.split sum.split)

lemma receive_for_calls: "ap_calls (fst (receive_for C tok q s)) = ap_calls s"
  by (simp add: receive_for_def receive_granted_def permitted_def begin_invoke_calls Let_def split: option.split)

lemma receive_calls: "ap_calls (fst (receive C fresh q s)) = ap_calls s"
  by (cases rule: receiveE [where C = C and fresh = fresh and q = q and s = s])
    (auto simp: receive_for_calls receive_offer_def begin_probe_def begin_resume_def changed_def Let_def split: option.split)

lemma receive_marks: "marks (fst (receive C fresh q s)) = marks s"
  using receive_calls by (rule marks_same)

lemma grants_ok_receive:
  assumes ok: "grants_ok C s" and fresh: "jm_get (ap_offers s) fresh = None"
  shows "grants_ok C (receive_call C fresh q s)"
proof -
  let ?s = "s\<lparr>ap_fresh := ap_fresh s + 1\<rparr>"
  let ?t = "fst (receive C fresh q ?s)"
  have s: "grants_ok C ?s" using ok unfolding grants_ok_def by (auto simp: marks_def less_Suc_eq)
  have t: "grants_ok C ?t"
  proof (cases rule: receive_core [where C = C and fresh = fresh and q = q and s = ?s])
    case (winds u)
    with s winds_marks [OF winds(1)] receive_marks [of C fresh q ?s] show ?thesis
      by (intro grants_ok_core [OF _ _ grants_ok_winds [OF s winds(1)]]) simp_all
  next
    case (offers ofr)
    then show ?thesis
      using grants_ok_offer [where t = ?t and fresh = fresh and ofr = ofr, OF grants_ok_winds [OF s expire_winds]] fresh
        winds_dom [of ?s "expire C ?s" fresh, OF expire_winds] receive_marks [of C fresh q ?s] winds_marks [of ?s "expire C ?s", OF expire_winds]
      by simp
  qed
  have "n < ap_fresh ?t \<and> ap_active ?t = None" if "snd (receive C fresh q ?s) = Inr point" "resume_mark point = Some n" for point n
    using receive_mark [OF that] t unfolding grants_ok_def by blast
  with t show ?thesis unfolding receive_call_def Let_def by (blast intro: grants_ok_proceed)
qed

lemma grants_ok_crypto:
  assumes ok: "grants_ok C s" and call: "jm_get (ap_calls s) i = Some (q, point)"
  shows "grants_ok C (proceed i q (crypto_settles C b fresh secret q point s))"
proof (rule grants_ok_proceed)
  let ?t = "fst (crypto_settles C b fresh secret q point s)"
  have marks_of: "n \<in> marks s" if "resume_mark point = Some n" for n
    using call that by (auto simp: marks_def)
  show "n \<in> marks ?t \<or> n < ap_fresh ?t \<and> ap_active ?t = None"
    if "snd (crypto_settles C b fresh secret q point s) = Inr point'" "resume_mark point' = Some n" for point' n
    using that marks_of by (auto simp: crypto_settles_def Let_def marks_def split: await_point.splits if_splits prod.splits)
  have same: "grants_ok C u" if "core u = core s" "ap_calls u = ap_calls s" for u
    using grants_ok_core [OF that(1) _ ok] marks_same [OF that(2)] by simp
  show "grants_ok C ?t"
  proof (cases "core ?t = core s \<and> ap_calls ?t = ap_calls s")
    case True
    then show ?thesis by (blast intro: same)
  next
    case False
    then obtain n r nonce where p: "point = ResumeProved n r nonce"
      and c: "b" "ap_enabled s" "ap_ready s" "map_option fst (ap_authority s) = Some n"
      "?t = (fst (grant_resumed C fresh secret q r nonce s))\<lparr>ap_resuming := False\<rparr>"
      by (cases point) (auto simp: crypto_settles_def core_def Let_def split: if_splits prod.split)
    have idle: "ap_active s = None"
      using marks_of [of n] c(4) ok p unfolding grants_ok_def by auto
    define ofr where "ofr = \<lparr>of_consumer = aq_consumer q, of_deadline = ra_expires r, of_epoch = ap_epoch s + 1, of_status = Accepted, of_reason = None\<rparr>"
    define u where "u = remember C secret ofr (s\<lparr>ap_epoch := ap_epoch s + 1, ap_offers := jm_set fresh ofr (ap_offers s), ap_active := Some fresh\<rparr>)"
    have "grants_ok C u" unfolding u_def by (rule grants_ok_granted [OF ok idle c(2,3)]) (simp_all add: ofr_def)
    moreover have "?t = (changed u)\<lparr>ap_resuming := False\<rparr>" by (simp add: c(5) grant_resumed_def u_def ofr_def Let_def)
    then have "core ?t = core u" "marks ?t = marks u" by (simp_all add: core_def changed_def marks_def)
    ultimately show ?thesis using grants_ok_core by blast
  qed
qed

lemma prepare_core:
  "core (fst (prepare_settles C outcome q tok s)) \<in> {core s, core (expire C s)} \<and> ap_calls (fst (prepare_settles C outcome q tok s)) = ap_calls s"
  by (auto simp: prepare_settles_def commit_prepared_def permitted_def Let_def core_def split: prepared.split sum.split prod.split option.split)

lemma grants_ok_prepare:
  assumes "grants_ok C s"
  shows "grants_ok C (fst (prepare_settles C outcome q tok s))"
  using prepare_core [of C outcome q tok s] grants_ok_core [OF _ _ assms] grants_ok_core [OF _ _ grants_ok_winds [OF assms expire_winds]]
  by (auto simp: marks_def)

lemma grants_ok_step: "assist_step C s l t \<Longrightarrow> grants_ok C s \<Longrightarrow> grants_ok C t"
proof (induction rule: assist_step.induct)
  case (step_enable s b)
  show ?case
  proof (cases b)
    case True
    with step_enable show ?thesis by (simp add: enable_def) (simp add: grants_ok_def marks_def)
  next
    case False
    with grants_ok_end_all [OF step_enable, of "s\<lparr>ap_enabled := False\<rparr>" "jlit ''disabled''"] show ?thesis
      by (simp add: enable_def Let_def)
  qed
next
  case (step_ready s b)
  show ?case
  proof (cases b)
    case True
    with step_ready show ?thesis by (simp add: set_ready_def) (simp add: grants_ok_def marks_def)
  next
    case False
    with grants_ok_end_all [OF step_ready, of "s\<lparr>ap_ready := False\<rparr>" "jlit ''disconnected''"] show ?thesis
      by (simp add: set_ready_def Let_def)
  qed
next
  case (step_prepare s i q tok outcome)
  obtain t reply where t: "prepare_settles C outcome q tok s = (t, reply)" by fastforce
  have "grants_ok C t" using grants_ok_prepare [OF step_prepare(2), of outcome q tok] by (simp add: t)
  then show ?case using grants_ok_proceed [of C "(t, Inl reply)" i q] by (simp add: t)
qed (auto intro: grants_ok_end_all grants_ok_winds finish_winds expire_winds grants_ok_accept grants_ok_receive grants_ok_crypto
      grants_ok_core [rotated 2] simp: decline_def pending_def Let_def core_def marks_def)

lemma grants_ok_new: "sc_saves C \<or> sc_resume C = None \<Longrightarrow> grants_ok C (new_supplier C p now)"
  by (auto simp: grants_ok_def new_supplier_def marks_def initial_authority_def split: option.splits if_splits)

lemma grants_ok_run:
  "steps (assist_step C) (new_supplier C p now) ls s \<Longrightarrow> sc_saves C \<or> sc_resume C = None \<Longrightarrow> grants_ok C s"
  by (erule steps_invariant [where I = "grants_ok C"]) (auto intro: grants_ok_new grants_ok_step)

end
