(* ===== verification/Assistance_Calls.thy ===== *)
theory Assistance_Calls
  imports Assistance_Grants
begin

text \<open>
  The suspended calls of the assistance supplier: what each of them has been checked for, that at
  most one prepares a commit and at most one resumes, and that every call is answered once.
\<close>

subsection \<open>Suspended calls\<close>

definition is_prep :: "await_point \<Rightarrow> bool" where
  "is_prep p \<longleftrightarrow> (\<exists>tok. p = Preparing tok)"

definition is_resume :: "await_point \<Rightarrow> bool" where
  "is_resume p \<longleftrightarrow> resume_mark p \<noteq> None"

definition waits_at :: "(await_point \<Rightarrow> bool) \<Rightarrow> (nat \<times> assistance_request \<times> await_point) list \<Rightarrow> nat \<Rightarrow> bool" where
  "waits_at P m i \<longleftrightarrow> (\<exists>q p. jm_get m i = Some (q, p) \<and> P p)"

text \<open>A flag of the supplier says that exactly one call waits at such a point.\<close>

definition call_flag :: "(await_point \<Rightarrow> bool) \<Rightarrow> bool \<Rightarrow> (nat \<times> assistance_request \<times> await_point) list \<Rightarrow> bool" where
  "call_flag P b m \<longleftrightarrow> (b \<longleftrightarrow> (\<exists>i. waits_at P m i)) \<and> (\<forall>i j. waits_at P m i \<longrightarrow> waits_at P m j \<longrightarrow> i = j)"

lemma waits_at_set: "waits_at P (jm_set i (q, p) m) j \<longleftrightarrow> (if j = i then P p else waits_at P m j)"
  by (auto simp: waits_at_def jm_get_set)

lemma waits_at_delete: "waits_at P (jm_delete i m) j \<longleftrightarrow> j \<noteq> i \<and> waits_at P m j"
  by (auto simp: waits_at_def jm_get_delete)

lemma call_flag_delete: "call_flag P b m \<Longrightarrow> call_flag P (b \<and> \<not> waits_at P m i) (jm_delete i m)"
  unfolding call_flag_def waits_at_delete by (cases "waits_at P m i") (blast, metis)

lemma call_flag_set:
  "call_flag P b m \<Longrightarrow> (P p \<Longrightarrow> waits_at P m i \<or> \<not> b) \<Longrightarrow> call_flag P (b \<and> \<not> waits_at P m i \<or> P p) (jm_set i (q, p) m)"
  unfolding call_flag_def waits_at_set by (cases "P p"; cases "waits_at P m i") auto

lemma keys_delete: "set (jm_keys (jm_delete i m)) = set (jm_keys m) - {i}"
  by (auto simp: AList.delete_eq)

lemma keys_set: "set (jm_keys (jm_set i v m)) = insert i (set (jm_keys m))"
  by (induction m) auto

text \<open>What a call was checked for before it was suspended.\<close>

definition point_ok :: "'p assist_config \<Rightarrow> assistance_request \<Rightarrow> await_point \<Rightarrow> bool" where
  "point_ok C q p \<longleftrightarrow> aq_version q = 1 \<and> aq_identity q = sc_identity C \<and> aq_consumer q \<noteq> []
     \<and> (case p of
          ProbeRequested n r nonce given \<Rightarrow> ra_consumer r = aq_consumer q \<and> resume_input q = Some (nonce, given)
        | ProbeProved n r nonce \<Rightarrow> ra_consumer r = aq_consumer q
            \<and> resume_input q = Some (nonce, Some (JStr (resume_proof (sc_hmac C) (ra_secret r) ''probe-request'' (sc_identity C) (aq_consumer q) nonce)))
        | ResumeRequested n r nonce given \<Rightarrow> aq_operation q = jlit ''resume'' \<and> ra_consumer r = aq_consumer q \<and> resume_input q = Some (nonce, given)
        | ResumeProved n r nonce \<Rightarrow> aq_operation q = jlit ''resume'' \<and> ra_consumer r = aq_consumer q
            \<and> resume_input q = Some (nonce, Some (JStr (resume_proof (sc_hmac C) (ra_secret r) ''request'' (sc_identity C) (aq_consumer q) nonce)))
        | Preparing tok \<Rightarrow> aq_operation q = jlit ''invoke'' \<and> tok = (case aq_token q of None \<Rightarrow> [] | Some t \<Rightarrow> t)
            \<and> (\<exists>input. json_parse (from_utf8 (aq_payload q)) = Some input \<and> input_action C input \<noteq> None))"

definition offer_of :: "assistance_request \<Rightarrow> jstr \<Rightarrow> 'p assist_supplier \<Rightarrow> bool" where
  "offer_of q tok s \<longleftrightarrow> (\<exists>ofr. jm_get (ap_offers s) tok = Some ofr \<and> of_consumer ofr = aq_consumer q)"

definition calls_ok :: "'p assist_config \<Rightarrow> 'p assist_supplier \<Rightarrow> bool" where
  "calls_ok C s \<longleftrightarrow> call_flag is_prep (ap_committing s) (ap_calls s) \<and> call_flag is_resume (ap_resuming s) (ap_calls s)
     \<and> distinct (jm_keys (ap_calls s) @ jm_keys (ap_replies s))
     \<and> (\<forall>i \<in> set (jm_keys (ap_calls s) @ jm_keys (ap_replies s)). i < ap_fresh s)
     \<and> (\<forall>i q p. jm_get (ap_calls s) i = Some (q, p) \<longrightarrow> point_ok C q p \<and> (\<forall>tok. p = Preparing tok \<longrightarrow> offer_of q tok s))"

lemma calls_okD:
  assumes "calls_ok C s" "jm_get (ap_calls s) i = Some (q, p)"
  shows "point_ok C q p" "p = Preparing tok \<Longrightarrow> offer_of q tok s"
  using assms unfolding calls_ok_def by blast+

lemma offer_moves_consumer: "offer_moves ofr ofr' \<Longrightarrow> of_consumer ofr' = of_consumer ofr"
  by (auto simp: offer_moves_def)

lemma offer_of_moves: "offers_move s t \<Longrightarrow> offer_of q tok s \<Longrightarrow> offer_of q tok t"
  unfolding offer_of_def offers_move_def using offer_moves_consumer by metis

subsection \<open>The invariant over a resumption\<close>

text \<open>
  A call \<open>i\<close>, new or suspended, goes on from \<open>s\<close> with the outcome \<open>(t, r)\<close>: the flags
  agree with the points it leaves and reaches.
\<close>

lemma calls_ok_proceed:
  assumes ok: "calls_ok C s" and t: "ap_calls t = ap_calls s" "ap_replies t = ap_replies s" "ap_fresh s \<le> ap_fresh t" "offers_move s t"
    and i: "i \<notin> set (jm_keys (ap_replies s))" "i < ap_fresh t"
    and c: "ap_committing t = (ap_committing s \<and> \<not> waits_at is_prep (ap_calls s) i \<or> (\<exists>p. r = Inr p \<and> is_prep p))"
      "\<And>p. r = Inr p \<Longrightarrow> is_prep p \<Longrightarrow> waits_at is_prep (ap_calls s) i \<or> \<not> ap_committing s"
    and u: "ap_resuming t = (ap_resuming s \<and> \<not> waits_at is_resume (ap_calls s) i \<or> (\<exists>p. r = Inr p \<and> is_resume p))"
      "\<And>p. r = Inr p \<Longrightarrow> is_resume p \<Longrightarrow> waits_at is_resume (ap_calls s) i \<or> \<not> ap_resuming s"
    and p: "\<And>p. r = Inr p \<Longrightarrow> point_ok C q p \<and> (\<forall>tok. p = Preparing tok \<longrightarrow> offer_of q tok t)"
  shows "calls_ok C (proceed i q (t, r))"
proof -
  note o = ok [unfolded calls_ok_def]
  have move: "offer_of q' tok s \<Longrightarrow> offer_of q' tok t" for q' tok by (rule offer_of_moves [OF t(4)])
  have offer: "offer_of q' tok (proceed i q (t, r)) = offer_of q' tok t" for q' tok by (simp add: offer_of_def)
  show ?thesis
  proof (cases r)
    case (Inl reply)
    let ?u = "proceed i q (t, r)"
    have s: "ap_calls ?u = jm_delete i (ap_calls s)" "ap_replies ?u = ap_replies s @ [(i, reply)]" "ap_fresh ?u = ap_fresh t"
      "ap_committing ?u = (ap_committing s \<and> \<not> waits_at is_prep (ap_calls s) i)" "ap_resuming ?u = (ap_resuming s \<and> \<not> waits_at is_resume (ap_calls s) i)"
      by (simp_all add: Inl proceed_def t c(1) u(1))
    have "distinct (jm_keys (jm_delete i (ap_calls s)))" using o by (simp add: AList.distinct_delete)
    then have d: "distinct (jm_keys (ap_calls ?u) @ jm_keys (ap_replies ?u))"
      "\<forall>j \<in> set (jm_keys (ap_calls ?u) @ jm_keys (ap_replies ?u)). j < ap_fresh ?u"
      unfolding s distinct_append set_append keys_delete using o i t(3) by (auto simp del: set_map intro: order_less_le_trans)
    have "point_ok C q' p' \<and> (\<forall>tok. p' = Preparing tok \<longrightarrow> offer_of q' tok ?u)" if "jm_get (ap_calls ?u) j = Some (q', p')" for j q' p'
      using that o move unfolding s jm_get_delete offer by (auto split: if_splits)
    with d show ?thesis
      unfolding calls_ok_def s(4,5) using o by (simp add: s(1) call_flag_delete)
  next
    case (Inr p')
    let ?u = "proceed i q (t, r)"
    have s: "ap_calls ?u = jm_set i (q, p') (ap_calls s)" "ap_replies ?u = ap_replies s" "ap_fresh ?u = ap_fresh t"
      "ap_committing ?u = (ap_committing s \<and> \<not> waits_at is_prep (ap_calls s) i \<or> is_prep p')"
      "ap_resuming ?u = (ap_resuming s \<and> \<not> waits_at is_resume (ap_calls s) i \<or> is_resume p')"
      by (simp_all add: Inr proceed_def t c(1) u(1))
    have "distinct (jm_keys (jm_set i (q, p') (ap_calls s)))" using o by (simp add: distinct_update)
    then have d: "distinct (jm_keys (ap_calls ?u) @ jm_keys (ap_replies ?u))"
      "\<forall>j \<in> set (jm_keys (ap_calls ?u) @ jm_keys (ap_replies ?u)). j < ap_fresh ?u"
      unfolding s distinct_append set_append keys_set using o i t(3) by (auto simp del: set_map intro: order_less_le_trans)
    have "point_ok C q' p'' \<and> (\<forall>tok. p'' = Preparing tok \<longrightarrow> offer_of q' tok ?u)" if "jm_get (ap_calls ?u) j = Some (q', p'')" for j q' p''
      using that o move p [OF Inr] unfolding s jm_get_set offer by (auto split: if_splits)
    with d show ?thesis
      unfolding calls_ok_def s(4,5) using o c(2) [OF Inr] u(2) [OF Inr] by (simp add: s(1) call_flag_set)
  qed
qed

subsection \<open>The invariant over a step\<close>

lemma calls_ok_kept:
  assumes "calls_ok C s" "ap_calls t = ap_calls s" "ap_replies t = ap_replies s" "ap_committing t = ap_committing s"
    "ap_resuming t = ap_resuming s" "ap_fresh s \<le> ap_fresh t" "offers_move s t"
  shows "calls_ok C t"
  using assms offer_of_moves [OF assms(7)] unfolding calls_ok_def by (simp del: set_map) (meson order_less_le_trans)

lemma calls_ok_winds: "calls_ok C s \<Longrightarrow> winds s t \<Longrightarrow> calls_ok C t"
  using offers_move_winds [of s t] by (intro calls_ok_kept [of C s t]) (simp_all add: winds_def kept_def)

lemma calls_ok_end_all:
  "calls_ok C s \<Longrightarrow> ap_calls t = ap_calls s \<Longrightarrow> ap_replies t = ap_replies s \<Longrightarrow> ap_committing t = ap_committing s
    \<Longrightarrow> ap_resuming t = ap_resuming s \<Longrightarrow> ap_fresh t = ap_fresh s \<Longrightarrow> ap_offers t = ap_offers s \<Longrightarrow> calls_ok C (end_all C reason t)"
proof (rule calls_ok_kept)
  have "kept (end_all C reason t) = kept t"
    using winds_keptD [OF finish_all_winds] by (simp add: end_all_def save_resume_def kept_def)
  then show "ap_calls t = ap_calls s \<Longrightarrow> ap_calls (end_all C reason t) = ap_calls s" "ap_replies t = ap_replies s \<Longrightarrow> ap_replies (end_all C reason t) = ap_replies s"
    "ap_committing t = ap_committing s \<Longrightarrow> ap_committing (end_all C reason t) = ap_committing s"
    "ap_resuming t = ap_resuming s \<Longrightarrow> ap_resuming (end_all C reason t) = ap_resuming s" by (simp_all add: kept_def)
  show "ap_fresh t = ap_fresh s \<Longrightarrow> ap_fresh s \<le> ap_fresh (end_all C reason t)" using end_all_kept(4) [where s = t and C = C and reason = reason] by simp
  show "ap_offers t = ap_offers s \<Longrightarrow> offers_move s (end_all C reason t)" using end_all_moves [where s = t and C = C and reason = reason] by (simp add: offers_move_def)
qed

lemma calls_ok_changed [simp]: "calls_ok C (changed s) = calls_ok C s"
  by (simp add: calls_ok_def changed_def offer_of_def)

lemma granted_state_kept:
  "ap_calls (granted_state C secret tok ofr s) = ap_calls s" "ap_replies (granted_state C secret tok ofr s) = ap_replies s"
  "ap_committing (granted_state C secret tok ofr s) = ap_committing s" "ap_resuming (granted_state C secret tok ofr s) = ap_resuming s"
  "ap_fresh s \<le> ap_fresh (granted_state C secret tok ofr s)"
  using expire_winds [where s = s and C = C] by (simp_all add: granted_state_def Let_def remember_def save_resume_def winds_def)

lemma calls_ok_accept:
  assumes "calls_ok C s"
  shows "calls_ok C (accept_offer C secret tok s)"
proof (rule calls_ok_kept [OF assms _ _ _ _ _ accept_moves])
  have "ap_calls (accept_offer C secret tok s) = ap_calls s \<and> ap_replies (accept_offer C secret tok s) = ap_replies s
    \<and> ap_committing (accept_offer C secret tok s) = ap_committing s \<and> ap_resuming (accept_offer C secret tok s) = ap_resuming s
    \<and> ap_fresh s \<le> ap_fresh (accept_offer C secret tok s)"
  proof (cases rule: accept_offerE [of C secret tok s])
    case none
    then show ?thesis using expire_winds [of s C] by (simp add: winds_def)
  next
    case (grants ofr v)
    then show ?thesis
      using winds_keptD [OF grants(7)] granted_state_kept [where C = C and secret = secret and tok = tok and ofr = ofr and s = s]
      by (simp add: changed_def kept_def winds_def)
  qed
  then show "ap_calls (accept_offer C secret tok s) = ap_calls s" "ap_replies (accept_offer C secret tok s) = ap_replies s"
    "ap_committing (accept_offer C secret tok s) = ap_committing s" "ap_resuming (accept_offer C secret tok s) = ap_resuming s"
    "ap_fresh s \<le> ap_fresh (accept_offer C secret tok s)" by blast+
qed

text \<open>The outcome of the parts of \<open>receive\<close> that may suspend the call.\<close>

definition suspends :: "'p assist_config \<Rightarrow> assistance_request \<Rightarrow> 'p assist_supplier \<Rightarrow> 'p assist_supplier \<times> (assist_reply + await_point) \<Rightarrow> bool" where
  "suspends C q s r \<longleftrightarrow>
     ap_committing (fst r) = (ap_committing s \<or> (\<exists>p. snd r = Inr p \<and> is_prep p))
     \<and> ap_resuming (fst r) = (ap_resuming s \<or> (\<exists>p. snd r = Inr p \<and> is_resume p))
     \<and> ap_replies (fst r) = ap_replies s
     \<and> (\<forall>p. snd r = Inr p \<longrightarrow> (is_prep p \<longrightarrow> \<not> ap_committing s) \<and> (is_resume p \<longrightarrow> \<not> ap_resuming s)
          \<and> point_ok C q p \<and> (\<forall>tok. p = Preparing tok \<longrightarrow> offer_of q tok (fst r)))"

lemma is_prep_simps [simp]: "is_prep (Preparing tok)" "\<not> is_prep (ProbeRequested n r x g)" "\<not> is_prep (ProbeProved n r x)"
  "\<not> is_prep (ResumeRequested n r x g)" "\<not> is_prep (ResumeProved n r x)"
  by (simp_all add: is_prep_def)

lemma is_resume_simps [simp]: "\<not> is_resume (Preparing tok)" "\<not> is_resume (ProbeRequested n r x g)" "\<not> is_resume (ProbeProved n r x)"
  "is_resume (ResumeRequested n r x g)" "is_resume (ResumeProved n r x)"
  by (simp_all add: is_resume_def)

lemma begin_probe_suspends:
  assumes "request_valid C q now"
  shows "suspends C q s (begin_probe q s)"
  using assms by (auto simp: begin_probe_def suspends_def point_ok_def request_valid_def split: option.split)

lemma begin_resume_suspends:
  assumes "request_valid C q now" "aq_operation q = jlit ''resume''"
  shows "suspends C q s (begin_resume q s)"
  using assms by (auto simp: begin_resume_def suspends_def point_ok_def request_valid_def split: option.split)

lemma suspends_answer:
  "ap_committing t = ap_committing s \<Longrightarrow> ap_resuming t = ap_resuming s \<Longrightarrow> ap_replies t = ap_replies s \<Longrightarrow> suspends C q s (t, Inl reply)"
  by (simp add: suspends_def)

lemma begin_invoke_suspends:
  assumes "request_valid C q now" "aq_operation q = jlit ''invoke''" "tok = (case aq_token q of None \<Rightarrow> [] | Some t \<Rightarrow> t)" "offer_of q tok s"
  shows "suspends C q s (begin_invoke C tok ofr q s)"
proof -
  let ?u = "s\<lparr>ap_committing := True\<rparr>"
  have "offer_of q tok ?u" using assms(4) by (simp add: offer_of_def)
  then have "suspends C q s (?u, Inr (Preparing tok))"
    if "\<not> ap_committing s" "json_parse (from_utf8 (aq_payload q)) = Some input" "input_action C input \<noteq> None" for input
    using assms(1-3) that by (auto simp: suspends_def point_ok_def request_valid_def)
  then show ?thesis
    by (auto simp: begin_invoke_def intro: suspends_answer split: option.split sum.split)
qed

lemma suspends_kept:
  "suspends C q s r \<Longrightarrow> ap_committing s = ap_committing u \<Longrightarrow> ap_resuming s = ap_resuming u \<Longrightarrow> ap_replies s = ap_replies u \<Longrightarrow> suspends C q u r"
  by (simp add: suspends_def)

lemma receive_granted_suspends:
  assumes "request_valid C q now" "tok = (case aq_token q of None \<Rightarrow> [] | Some t \<Rightarrow> t)" "offer_of q tok s"
  shows "suspends C q s (receive_granted C tok ofr q s)"
proof -
  have "offer_of q tok (expire C s)" using offer_of_moves [OF offers_move_winds [OF expire_winds] assms(3)] .
  then have "suspends C q s (begin_invoke C tok ofr q (expire C s))" if "aq_operation q = jlit ''invoke''"
    using suspends_kept [OF begin_invoke_suspends [OF assms(1) that assms(2)]] by simp
  then show ?thesis by (auto simp: receive_granted_def permitted_def Let_def intro: suspends_answer)
qed

lemma receive_for_suspends:
  assumes "request_valid C q now" "tok = (case aq_token q of None \<Rightarrow> [] | Some t \<Rightarrow> t)"
  shows "suspends C q s (receive_for C tok q s)"
proof (cases "jm_get (ap_offers s) tok")
  case (Some ofr)
  then have "of_consumer ofr = aq_consumer q \<Longrightarrow> suspends C q s (receive_granted C tok ofr q s)"
    by (intro receive_granted_suspends [OF assms]) (simp add: offer_of_def)
  with Some show ?thesis by (auto simp: receive_for_def Let_def intro: suspends_answer)
qed (simp add: receive_for_def suspends_answer)

lemma receive_suspends: "suspends C q s (receive C fresh q s)"
proof (cases "request_valid C q (ap_now s)")
  case True
  have "suspends C q s (begin_probe q (expire C s))" using suspends_kept [OF begin_probe_suspends [OF True]] by simp
  moreover have "suspends C q s (begin_resume q (expire C s))" if "aq_operation q = jlit ''resume''"
    using suspends_kept [OF begin_resume_suspends [OF True that]] by simp
  moreover have "suspends C q s (receive_for C (case aq_token q of None \<Rightarrow> [] | Some t \<Rightarrow> t) q (expire C s))"
    using suspends_kept [OF receive_for_suspends [OF True refl]] by simp
  moreover have "suspends C q s (fst (receive_offer C fresh q (expire C s)), Inl (snd (receive_offer C fresh q (expire C s))))"
    by (rule suspends_answer) (simp_all add: receive_offer_def changed_def Let_def)
  ultimately show ?thesis unfolding receive_valid [OF True] Let_def by simp
next
  case False
  then obtain reply where "receive C fresh q s = (expire C s, Inl reply)" using receive_invalid by blast
  then show ?thesis by (simp add: suspends_answer)
qed

lemma calls_ok_receive:
  assumes ok: "calls_ok C s" and fresh: "jm_get (ap_offers s) fresh = None"
  shows "calls_ok C (receive_call C fresh q s)"
proof -
  let ?s = "s\<lparr>ap_fresh := Suc (ap_fresh s)\<rparr>"
  have s: "calls_ok C ?s" by (rule calls_ok_kept [OF ok]) (simp_all add: offers_move_same)
  have i: "ap_fresh s \<notin> set (jm_keys (ap_calls s) @ jm_keys (ap_replies s))" using ok unfolding calls_ok_def by blast
  then have w: "\<not> waits_at P (ap_calls s) (ap_fresh s)" for P
    by (force simp: waits_at_def dest!: jm_get_in)
  obtain t r where tr: "receive C fresh q ?s = (t, r)" by fastforce
  note S = receive_suspends [of C q ?s fresh, unfolded tr suspends_def fst_conv snd_conv]
  have "calls_ok C (proceed (ap_fresh s) q (t, r))"
  proof (rule calls_ok_proceed [OF s])
    show "ap_calls t = ap_calls ?s" using receive_calls [of C fresh q ?s] by (simp add: tr)
    show "ap_fresh ?s \<le> ap_fresh t" using receive_fresh [of ?s C fresh q] by (simp add: tr)
    then show "ap_fresh s < ap_fresh t" by simp
    show "offers_move ?s t" using receive_moves [of ?s fresh C q] fresh by (simp add: tr)
  qed (use S i w in auto)
  then show ?thesis by (simp add: receive_call_def Let_def tr)
qed

lemma crypto_outcome:
  assumes "\<And>tok. point \<noteq> Preparing tok" "point_ok C q point"
  shows "ap_calls (fst (crypto_settles C b fresh secret q point s)) = ap_calls s"
    "ap_replies (fst (crypto_settles C b fresh secret q point s)) = ap_replies s"
    "ap_fresh s \<le> ap_fresh (fst (crypto_settles C b fresh secret q point s))"
    "ap_committing (fst (crypto_settles C b fresh secret q point s)) = ap_committing s"
    "ap_resuming (fst (crypto_settles C b fresh secret q point s))
       = (ap_resuming s \<and> \<not> is_resume point \<or> (ap_resuming s \<and> (\<exists>p. snd (crypto_settles C b fresh secret q point s) = Inr p \<and> is_resume p)))"
    "snd (crypto_settles C b fresh secret q point s) = Inr p \<Longrightarrow> \<not> is_prep p \<and> (is_resume p \<longleftrightarrow> is_resume point) \<and> point_ok C q p"
  using assms
  by (auto simp: crypto_settles_def grant_resumed_def remember_def save_resume_def changed_def Let_def point_ok_def split: await_point.splits if_splits)

lemma calls_ok_crypto:
  assumes ok: "calls_ok C s" and call: "jm_get (ap_calls s) i = Some (q, point)" and kind: "\<And>tok. point \<noteq> Preparing tok"
    and fresh: "jm_get (ap_offers s) fresh = None"
  shows "calls_ok C (proceed i q (crypto_settles C b fresh secret q point s))"
proof -
  obtain t r where tr: "crypto_settles C b fresh secret q point s = (t, r)" by fastforce
  note K = crypto_outcome [OF kind calls_okD(1) [OF ok call], where b = b and fresh = fresh and secret = secret and s = s, unfolded tr fst_conv snd_conv]
  have w: "waits_at P (ap_calls s) i \<longleftrightarrow> P point" for P using call by (simp add: waits_at_def)
  have np: "\<not> is_prep point" using kind by (simp add: is_prep_def)
  have "i \<in> set (jm_keys (ap_calls s))" using call by (metis map_of_eq_None_iff option.distinct(1) list.set_map)
  then have i: "i \<notin> set (jm_keys (ap_replies s))" "i < ap_fresh s" using ok unfolding calls_ok_def by auto
  have res: "is_resume point \<Longrightarrow> ap_resuming s" using ok call unfolding calls_ok_def call_flag_def waits_at_def by blast
  show ?thesis
    unfolding tr
  proof (rule calls_ok_proceed [OF ok K(1-3)])
    show "offers_move s t" using crypto_moves [OF fresh, of C b secret q point] by (simp add: tr)
    show "i < ap_fresh t" using i(2) K(3) by simp
    show "ap_committing t = (ap_committing s \<and> \<not> waits_at is_prep (ap_calls s) i \<or> (\<exists>p. r = Inr p \<and> is_prep p))"
      using K(4,6) by (auto simp: w np)
    show "ap_resuming t = (ap_resuming s \<and> \<not> waits_at is_resume (ap_calls s) i \<or> (\<exists>p. r = Inr p \<and> is_resume p))"
      using K(5,6) res by (auto simp: w)
    show "point_ok C q p \<and> (\<forall>tok. p = Preparing tok \<longrightarrow> offer_of q tok t)" if "r = Inr p" for p
      using K(6) [OF that] by auto
  qed (use i K(6) in \<open>auto simp: w\<close>)
qed

lemma commit_prepared_kept:
  "ap_calls (fst (commit_prepared C tok input q commit s)) = ap_calls s" "ap_replies (fst (commit_prepared C tok input q commit s)) = ap_replies s"
  "ap_resuming (fst (commit_prepared C tok input q commit s)) = ap_resuming s"
  "ap_fresh s \<le> ap_fresh (fst (commit_prepared C tok input q commit s))"
  "ap_offers (fst (commit_prepared C tok input q commit s)) = ap_offers (expire C s)"
  using expire_winds [of s C]
  by (auto simp: commit_prepared_def permitted_def Let_def winds_def split: sum.split prod.split option.split)

lemma prepare_settles_kept:
  "ap_calls (fst (prepare_settles C outcome q tok s)) = ap_calls s" "ap_replies (fst (prepare_settles C outcome q tok s)) = ap_replies s"
  "ap_resuming (fst (prepare_settles C outcome q tok s)) = ap_resuming s" "\<not> ap_committing (fst (prepare_settles C outcome q tok s))"
  "ap_fresh s \<le> ap_fresh (fst (prepare_settles C outcome q tok s))"
  using commit_prepared_kept [where C = C and tok = tok and input = "the (json_parse (from_utf8 (aq_payload q)))" and q = q and s = s]
  by (auto simp: prepare_settles_def case_prod_beta Let_def split: prepared.split)

lemma calls_ok_prepare:
  assumes ok: "calls_ok C s" and call: "jm_get (ap_calls s) i = Some (q, Preparing tok)"
  shows "calls_ok C (case prepare_settles C outcome q tok s of (s, reply) \<Rightarrow> proceed i q (s, Inl reply))"
proof -
  obtain t reply where t: "prepare_settles C outcome q tok s = (t, reply)" by fastforce
  note K = prepare_settles_kept [where C = C and outcome = outcome and q = q and tok = tok and s = s, unfolded t fst_conv]
  have w: "waits_at P (ap_calls s) i \<longleftrightarrow> P (Preparing tok)" for P using call by (simp add: waits_at_def)
  have "i \<in> set (jm_keys (ap_calls s))" using call by (metis map_of_eq_None_iff option.distinct(1) list.set_map)
  then have i: "i \<notin> set (jm_keys (ap_replies s))" "i < ap_fresh s" using ok unfolding calls_ok_def by auto
  have "calls_ok C (proceed i q (t, Inl reply))"
  proof (rule calls_ok_proceed [OF ok K(1,2,5)])
    show "offers_move s t" using prepare_moves [of s C outcome q tok] by (simp add: t)
  qed (use i K in \<open>auto simp: w\<close>)
  then show ?thesis by (simp add: t)
qed

lemma calls_ok_step: "assist_step C s l t \<Longrightarrow> calls_ok C s \<Longrightarrow> calls_ok C t"
proof (induction rule: assist_step.induct)
  case (step_enable s b)
  have "calls_ok C (s\<lparr>ap_enabled := b\<rparr>)" by (rule calls_ok_kept [OF step_enable]) (simp_all add: offers_move_same)
  then show ?case using calls_ok_end_all [OF step_enable, of "s\<lparr>ap_enabled := False\<rparr>"] by (cases b) (simp_all add: enable_def Let_def)
next
  case (step_ready s b)
  have "calls_ok C (s\<lparr>ap_ready := b\<rparr>)" by (rule calls_ok_kept [OF step_ready]) (simp_all add: offers_move_same)
  then show ?case using calls_ok_end_all [OF step_ready, of "s\<lparr>ap_ready := False\<rparr>"] by (cases b) (simp_all add: set_ready_def Let_def)
next
  case (step_end s reason)
  then show ?case by (simp add: calls_ok_end_all)
next
  case (step_clock s t)
  then show ?case by (rule calls_ok_kept) (simp_all add: offers_move_same)
next
  case (step_app s p)
  then show ?case by (rule calls_ok_kept) (simp_all add: offers_move_same)
qed (auto intro: calls_ok_winds [OF _ finish_winds] calls_ok_winds [OF _ expire_winds] calls_ok_accept calls_ok_receive calls_ok_crypto calls_ok_prepare
      simp: decline_def pending_def Let_def)

lemma calls_ok_new: "calls_ok C (new_supplier C p now)"
  by (auto simp: calls_ok_def new_supplier_def call_flag_def waits_at_def)

lemma calls_ok_run: "steps (assist_step C) (new_supplier C p now) ls s \<Longrightarrow> calls_ok C s"
  by (erule steps_invariant [where I = "calls_ok C"]) (auto intro: calls_ok_new calls_ok_step)

end
