(* ===== verification/Assistance_Safety.thy ===== *)
theory Assistance_Safety
  imports Assistance_Calls
begin

text \<open>
  The guarantees of the assistance supplier over its runs, from the invariants of
  \<open>Assistance_Grants\<close> and \<open>Assistance_Calls\<close>, with a run that shows they are not empty.
\<close>

subsection \<open>Who commits\<close>

text \<open>
  What has to hold when a prepared action is committed: the call is the only one preparing, its
  request is for this supplier and in time, its grant is the active one, belongs to the consumer,
  has the request's epoch and has not run out, and the state that the provider projects is the one
  the consumer saw.
\<close>

definition commit_allowed :: "'p assist_config \<Rightarrow> 'p assist_supplier \<Rightarrow> nat \<Rightarrow> bool" where
  "commit_allowed C s i \<longleftrightarrow> (\<exists>q tok ofr input ob.
     jm_get (ap_calls s) i = Some (q, Preparing tok) \<and> (\<forall>j. waits_at is_prep (ap_calls s) j \<longrightarrow> j = i)
     \<and> request_valid C q (ap_now s) \<and> aq_operation q = jlit ''invoke'' \<and> tok = (case aq_token q of None \<Rightarrow> [] | Some t \<Rightarrow> t)
     \<and> ap_enabled s \<and> ap_ready s \<and> ap_active s = Some tok
     \<and> jm_get (ap_offers s) tok = Some ofr \<and> of_status ofr = Accepted \<and> of_consumer ofr = aq_consumer q
     \<and> aq_epoch q = Some (of_epoch ofr) \<and> ap_now s < of_deadline ofr
     \<and> json_parse (from_utf8 (aq_payload q)) = Some input \<and> input_action C input \<noteq> None
     \<and> sc_read C (ap_app s) (tok, of_epoch ofr) = Inr ob \<and> still_current C input ob)"

definition committed_by :: "'p assist_config \<Rightarrow> 'p assist_supplier \<Rightarrow> 'p assist_label \<Rightarrow> 'p assist_supplier \<Rightarrow> nat \<Rightarrow> bool" where
  "committed_by C s l t i \<longleftrightarrow> (\<exists>commit. l = PrepareSettles i (Prepared commit) \<and> commit_allowed C s i \<and> ap_app t = fst (commit (ap_app s)))"

lemma permitted_allowed:
  assumes "permitted C tok q s = (u, True)"
  obtains ofr where "u = expire C s" "ap_enabled s" "ap_ready s" "ap_active s = Some tok" "jm_get (ap_offers s) tok = Some ofr"
    "jm_get (ap_offers u) tok = Some ofr" "of_status ofr = Accepted" "aq_epoch q = Some (of_epoch ofr)" "ap_now s < of_deadline ofr" "ap_now s < aq_deadline q"
proof -
  from assms obtain ofr where u: "u = expire C s" "ap_enabled s" "ap_ready s" "ap_active (expire C s) = Some tok"
    "jm_get (ap_offers (expire C s)) tok = Some ofr" "of_status ofr = Accepted" "aq_epoch q = Some (of_epoch ofr)" "ap_now s < aq_deadline q"
    by (auto simp: permitted_def Let_def split: option.splits)
  moreover have "ap_active s = Some tok" "jm_get (ap_offers s) tok = Some ofr" using winds_active [OF expire_winds u(4)] u(5) by simp_all
  ultimately show thesis using that [of ofr] expire_live [OF u(5)] by simp
qed

lemma commit_prepared_cases:
  obtains (refuses) "ap_app (fst (commit_prepared C tok input q commit s)) = ap_app s"
      "ar_status (snd (commit_prepared C tok input q commit s)) \<noteq> jlit ''applied''"
  | (commits) ofr ob where "ap_enabled s" "ap_ready s" "ap_active s = Some tok" "jm_get (ap_offers s) tok = Some ofr" "of_status ofr = Accepted"
      "aq_epoch q = Some (of_epoch ofr)" "ap_now s < of_deadline ofr" "ap_now s < aq_deadline q" "sc_read C (ap_app s) (tok, of_epoch ofr) = Inr ob"
      "still_current C input ob" "ap_app (fst (commit_prepared C tok input q commit s)) = fst (commit (ap_app s))"
proof (cases "snd (permitted C tok q s)")
  case True
  then obtain u where "permitted C tok q s = (u, True)" by (cases "permitted C tok q s") simp
  then obtain ofr where p: "permitted C tok q s = (expire C s, True)" and o: "ap_enabled s" "ap_ready s" "ap_active s = Some tok" "jm_get (ap_offers s) tok = Some ofr"
    "jm_get (ap_offers (expire C s)) tok = Some ofr" "of_status ofr = Accepted" "aq_epoch q = Some (of_epoch ofr)" "ap_now s < of_deadline ofr" "ap_now s < aq_deadline q"
    by (metis permitted_allowed)
  show thesis
  proof (cases "\<exists>ob. sc_read C (ap_app s) (tok, of_epoch ofr) = Inr ob \<and> still_current C input ob")
    case True
    then obtain ob where ob: "sc_read C (ap_app s) (tok, of_epoch ofr) = Inr ob" "still_current C input ob" by blast
    then have "ap_app (fst (commit_prepared C tok input q commit s)) = fst (commit (ap_app s))"
      by (simp add: commit_prepared_def p o(5) split: prod.split option.split)
    with o ob commits show thesis by blast
  next
    case False
    then show thesis
      by (intro refuses) (auto simp: commit_prepared_def p o(5) split: sum.split)
  qed
next
  case False
  then have "permitted C tok q s = (expire C s, False)" by (simp add: permitted_def Let_def)
  then show thesis by (intro refuses) (simp_all add: commit_prepared_def status_result_def Let_def)
qed

text \<open>Nothing else touches the application, and no other reply says \<open>applied\<close>.\<close>

definition not_applied :: "assist_reply + await_point \<Rightarrow> bool" where
  "not_applied r \<longleftrightarrow> (\<forall>a. r = Inl (Answers a) \<longrightarrow> ar_status a \<noteq> jlit ''applied'')"

lemma not_applied_simps [simp]: "not_applied (Inr p)" "not_applied (Inl Throws)" "not_applied (Inl refused)"
  "not_applied (Inl (Answers a)) \<longleftrightarrow> ar_status a \<noteq> jlit ''applied''"
  by (simp_all add: not_applied_def refused_def)

lemma status_not_applied [simp]: "ar_status (status_result C tok ofr s) \<noteq> jlit ''applied''"
  by (simp add: status_result_def)

lemma receive_for_quiet: "ap_app (fst (receive_for C tok q s)) = ap_app s \<and> not_applied (snd (receive_for C tok q s))"
proof -
  have i: "ap_app (fst (begin_invoke C tok ofr q u)) = ap_app u \<and> not_applied (snd (begin_invoke C tok ofr q u))" for ofr u
    by (simp add: begin_invoke_def split: option.split sum.split)
  have r: "not_applied (Inl (read_reply C access u))" for access u
    by (simp add: read_reply_def split: sum.split)
  have "ap_app (fst (receive_granted C tok ofr q s)) = ap_app s \<and> not_applied (snd (receive_granted C tok ofr q s))" for ofr
    by (simp add: receive_granted_def permitted_def Let_def i r)
  then show ?thesis by (simp add: receive_for_def Let_def split: option.split)
qed

lemma receive_quiet: "ap_app (fst (receive C fresh q s)) = ap_app s \<and> not_applied (snd (receive C fresh q s))"
proof (cases "request_valid C q (ap_now s)")
  case True
  have "ap_app (fst (begin_probe q u)) = ap_app u \<and> not_applied (snd (begin_probe q u))" "ap_app (fst (begin_resume q u)) = ap_app u \<and> not_applied (snd (begin_resume q u))"
    "ap_app (fst (receive_offer C fresh q u)) = ap_app u \<and> not_applied (Inl (snd (receive_offer C fresh q u)))" for u :: "'a assist_supplier"
    by (simp_all add: begin_probe_def begin_resume_def receive_offer_def changed_def Let_def split: option.split)
  then show ?thesis by (simp add: receive_valid [OF True] Let_def receive_for_quiet)
next
  case False
  then show ?thesis by (auto simp: receive_def request_valid_def same_identity_eq Let_def)
qed

lemma crypto_quiet: "ap_app (fst (crypto_settles C b fresh secret q point s)) = ap_app s \<and> not_applied (snd (crypto_settles C b fresh secret q point s))"
proof -
  have "ap_app (fst (grant_resumed C fresh secret q r nonce s)) = ap_app s \<and> not_applied (Inl (snd (grant_resumed C fresh secret q r nonce s)))" for r nonce
    by (simp add: grant_resumed_def changed_def status_result_def refused_def Let_def split: option.split json.split)
  then show ?thesis
    by (simp add: crypto_settles_def case_prod_beta Let_def split: await_point.split)
qed

lemma proceed_quiet:
  "ap_app (proceed i q r) = ap_app (fst r)"
  "not_applied (snd r) \<Longrightarrow> (j, Answers a) \<in> set (ap_replies (proceed i q r)) \<Longrightarrow> ar_status a = jlit ''applied'' \<Longrightarrow> (j, Answers a) \<in> set (ap_replies (fst r))"
  by (cases r; auto simp: proceed_def split: sum.splits)+

lemma end_all_kept_more: "ap_app (end_all C reason s) = ap_app s" "ap_replies (end_all C reason s) = ap_replies s"
  using winds_keptD [OF finish_all_winds, of C reason "jm_keys (ap_offers s)" s]
  by (simp_all add: end_all_def save_resume_def kept_def)

lemma accept_kept_more: "ap_app (accept_offer C secret tok s) = ap_app s" "ap_replies (accept_offer C secret tok s) = ap_replies s"
proof -
  have "ap_app (accept_offer C secret tok s) = ap_app s \<and> ap_replies (accept_offer C secret tok s) = ap_replies s"
  proof (cases rule: accept_offerE [of C secret tok s])
    case (grants ofr v)
    then show ?thesis using winds_keptD [OF grants(7)]
      by (simp add: changed_def kept_def granted_state_def Let_def)
  qed simp
  then show "ap_app (accept_offer C secret tok s) = ap_app s" "ap_replies (accept_offer C secret tok s) = ap_replies s" by blast+
qed

lemma prepare_commits:
  assumes ok: "calls_ok C s" and call: "jm_get (ap_calls s) i = Some (q, Preparing tok)"
    and r: "prepare_settles C outcome q tok s = (t, reply)"
    and changed: "ap_app t \<noteq> ap_app s \<or> \<not> not_applied (Inl reply)"
  shows "\<exists>commit. outcome = Prepared commit \<and> commit_allowed C s i \<and> ap_app t = fst (commit (ap_app s))"
proof -
  obtain commit where c: "outcome = Prepared commit"
    using r changed by (cases outcome) (auto simp: prepare_settles_def message_or_def)
  let ?input = "the (json_parse (from_utf8 (aq_payload q)))"
  let ?p = "commit_prepared C tok ?input q commit s"
  have t: "ap_app t = ap_app (fst ?p)" "reply = Answers (snd ?p)" using r by (auto simp: c prepare_settles_def case_prod_beta)
  have "point_ok C q (Preparing tok)" by (rule calls_okD(1) [OF ok call])
  then obtain input where q: "aq_version q = 1" "aq_identity q = sc_identity C" "aq_consumer q \<noteq> []" "aq_operation q = jlit ''invoke''"
    "tok = (case aq_token q of None \<Rightarrow> [] | Some t \<Rightarrow> t)" "json_parse (from_utf8 (aq_payload q)) = Some input" "input_action C input \<noteq> None"
    by (auto simp: point_ok_def)
  have one: "waits_at is_prep (ap_calls s) j \<Longrightarrow> j = i" for j
    using ok call unfolding calls_ok_def call_flag_def waits_at_def by (metis is_prep_simps(1))
  show ?thesis
  proof (cases rule: commit_prepared_cases [where C = C and tok = tok and input = ?input and q = q and commit = commit and s = s])
    case refuses
    with changed show ?thesis by (simp add: t)
  next
    case (commits ofr ob)
    moreover have "of_consumer ofr = aq_consumer q"
      using calls_okD(2) [OF ok call refl] commits(4) by (simp add: offer_of_def)
    ultimately have "commit_allowed C s i"
      unfolding commit_allowed_def request_valid_def using call one q by auto
    with c commits(11) show ?thesis by (simp add: t)
  qed
qed

text \<open>C1. Whatever operators, clocks, requests and promises do, the application's state changes on
  behalf of a consumer only by the commit of an action that was prepared for the active, accepted,
  unexpired grant of that consumer, at its epoch, before the request's deadline, on the state the
  consumer saw, with no other action in preparation; and no call is answered \<open>applied\<close> without it.\<close>

theorem assistance_commit_allowed:
  assumes "steps (assist_step C) (new_supplier C p now) ls s" "assist_step C s l t" "\<forall>p. l \<noteq> AppMoves p"
  shows "(ap_app t \<noteq> ap_app s \<longrightarrow> (\<exists>i. committed_by C s l t i))
    \<and> (\<forall>i a. (i, Answers a) \<in> set (ap_replies t) - set (ap_replies s) \<longrightarrow> ar_status a = jlit ''applied'' \<longrightarrow> committed_by C s l t i)"
  using assms(2,3)
proof (cases rule: assist_step.cases)
  case (step_receive fresh q)
  have "ap_app (receive_call C fresh q s) = ap_app s"
    using receive_quiet [of C fresh q "s\<lparr>ap_fresh := ap_fresh s + 1\<rparr>"] by (simp add: receive_call_def Let_def proceed_quiet(1))
  moreover have "(j, Answers a) \<in> set (ap_replies s)" if "(j, Answers a) \<in> set (ap_replies (receive_call C fresh q s))" "ar_status a = jlit ''applied''" for j a
    using proceed_quiet(2) [of "receive C fresh q (s\<lparr>ap_fresh := ap_fresh s + 1\<rparr>)", OF receive_quiet [THEN conjunct2] that(1) [unfolded receive_call_def Let_def] that(2)]
      receive_suspends [of C q "s\<lparr>ap_fresh := ap_fresh s + 1\<rparr>" fresh] by (simp add: suspends_def)
  ultimately show ?thesis by (auto simp: step_receive)
next
  case (step_crypto i q point fresh b secret)
  note K = crypto_outcome(2) [OF step_crypto(4) calls_okD(1) [OF calls_ok_run [OF assms(1)] step_crypto(3)], where b = b and fresh = fresh and secret = secret and s = s]
  note Q = crypto_quiet [of C b fresh secret q point s]
  have "(j, Answers a) \<in> set (ap_replies s)" if "(j, Answers a) \<in> set (ap_replies t)" "ar_status a = jlit ''applied''" for j a
    using proceed_quiet(2) [OF Q [THEN conjunct2] that(1) [unfolded step_crypto(2)] that(2)] K by simp
  moreover have "ap_app t = ap_app s" using Q by (simp add: step_crypto(2) proceed_quiet(1))
  ultimately show ?thesis by auto
next
  case (step_prepare i q tok outcome)
  obtain u reply where u: "prepare_settles C outcome q tok s = (u, reply)" by fastforce
  note ok = calls_ok_run [OF assms(1)]
  have t: "t = proceed i q (u, Inl reply)" by (simp add: step_prepare(2) u)
  have r: "ap_replies t = ap_replies s @ [(i, reply)]" "ap_app t = ap_app u"
    using prepare_settles_kept [where C = C and outcome = outcome and q = q and tok = tok and s = s] by (simp_all add: t proceed_def u)
  have "committed_by C s l t i" if "ap_app u \<noteq> ap_app s \<or> \<not> not_applied (Inl reply)"
    using prepare_commits [OF ok step_prepare(3) u that] by (auto simp: committed_by_def step_prepare(1) r(2))
  then show ?thesis by (auto simp: r)
qed (simp_all add: enable_def set_ready_def end_all_kept_more accept_kept_more decline_def pending_def Let_def changed_def)

text \<open>C12. At most one grant is in force: when the host keeps its resume authority through
  \<open>saveResume\<close>, or starts without one, every accepted offer of a reachable state is the active one,
  and while there is an active one the host is enabled and ready.\<close>

theorem assistance_single_grant:
  assumes "steps (assist_step C) (new_supplier C p now) ls s" "sc_saves C \<or> sc_resume C = None"
  shows "(\<forall>tok ofr. jm_get (ap_offers s) tok = Some ofr \<longrightarrow> of_status ofr = Accepted \<longrightarrow> ap_active s = Some tok)
    \<and> (\<forall>tok. ap_active s = Some tok \<longrightarrow> ap_enabled s \<and> ap_ready s
          \<and> (\<exists>ofr. jm_get (ap_offers s) tok = Some ofr \<and> of_status ofr = Accepted \<and> of_epoch ofr \<le> ap_epoch s))"
  using grants_ok_run [OF assms] unfolding grants_ok_def by blast

lemma offers_ended_run:
  assumes "steps (assist_step C) s ls t" "jm_get (ap_offers s) tok = Some ofr" "of_status ofr = Ended"
  shows "jm_get (ap_offers t) tok = Some ofr"
  using assms(1,2)
proof (rule steps_invariant [where I = "\<lambda>s. jm_get (ap_offers s) tok = Some ofr"])
  show "assist_step C u l v \<Longrightarrow> jm_get (ap_offers u) tok = Some ofr \<Longrightarrow> jm_get (ap_offers v) tok = Some ofr" for u l v
    using assist_step_moves [of C u l v] assms(3) unfolding offers_move_def offer_moves_def by fastforce
qed

text \<open>An offer that has ended, however it did, never changes again, and every later request of
  its consumer under its token is answered \<open>ended\<close> with the first reason.\<close>

theorem assistance_ended_is_final:
  assumes "steps (assist_step C) s ls t" "jm_get (ap_offers s) tok = Some ofr" "of_status ofr = Ended"
  shows "jm_get (ap_offers t) tok = Some ofr
    \<and> (\<forall>q fresh. request_valid C q (ap_now t) \<longrightarrow> aq_token q = Some tok \<longrightarrow> aq_consumer q = of_consumer ofr
         \<longrightarrow> aq_operation q \<notin> {jlit ''probeResume'', jlit ''resume'', jlit ''offer''}
         \<longrightarrow> snd (receive C fresh q t) = Inl (Answers ((assist_result ''ended'' JNull)\<lparr>ar_token := Some tok, ar_reason := of_reason ofr\<rparr>)))"
proof -
  have t: "jm_get (ap_offers t) tok = Some ofr" by (rule offers_ended_run [OF assms])
  then have e: "jm_get (ap_offers (expire C t)) tok = Some ofr" by (rule winds_ended [OF expire_winds _ assms(3)])
  then have f: "jm_get (ap_offers (finish C r tok (expire C t))) tok = Some ofr" for r by (rule winds_ended [OF finish_winds _ assms(3)])
  from t e f assms(3) show ?thesis
    by (auto simp: receive_valid Let_def receive_for_def status_result_def)
qed

subsection \<open>Every call is answered once\<close>

fun settled :: "'p assist_label \<Rightarrow> nat option" where
  "settled (CryptoSettles i b fresh secret) = Some i"
| "settled (PrepareSettles i outcome) = Some i"
| "settled _ = None"

fun is_receive :: "'p assist_label \<Rightarrow> bool" where
  "is_receive (Receives q fresh) = True"
| "is_receive _ = False"

definition settlements :: "nat \<Rightarrow> 'p assist_label list \<Rightarrow> nat" where
  "settlements i ls = length (filter (\<lambda>l. settled l = Some i) ls)"

text \<open>How many promises the call still waits for at most.\<close>

fun awaits :: "await_point \<Rightarrow> nat" where
  "awaits (ProbeRequested n r nonce given) = 2"
| "awaits (ResumeRequested n r nonce given) = 2"
| "awaits _ = 1"

lemma length_delete:
  assumes "distinct (jm_keys m)"
  shows "length (jm_delete i m) = (if i \<in> set (jm_keys m) then length m - 1 else length m)"
proof -
  have "length (jm_delete i m) = length (removeAll i (jm_keys m))" by (metis delete_keys length_map)
  also have "\<dots> = length (remove1 i (jm_keys m))" by (simp add: distinct_remove1_removeAll assms)
  finally show ?thesis by (simp add: length_remove1)
qed

lemma length_set: "length (jm_set i v m) = (if i \<in> set (jm_keys m) then length m else length m + 1)"
proof -
  have "length (jm_set i v m) = length (jm_keys (jm_set i v m))" by simp
  then show ?thesis by (simp only: update_keys) simp
qed

lemma proceed_size:
  assumes "distinct (jm_keys (ap_calls (fst r)))"
  shows "length (ap_calls (proceed i q r)) + length (ap_replies (proceed i q r))
    = length (ap_calls (fst r)) + length (ap_replies (fst r)) + (if i \<in> set (jm_keys (ap_calls (fst r))) then 0 else 1)"
proof -
  have "0 < length (ap_calls (fst r))" if "i \<in> set (jm_keys (ap_calls (fst r)))" using that by (cases "ap_calls (fst r)") auto
  then show ?thesis
    using length_delete [OF assms, of i] length_set [of i _ "ap_calls (fst r)"]
    by (cases r; cases "snd r") (auto simp: proceed_def simp del: set_map)
qed

text \<open>What a step does to the suspended calls.\<close>

lemma proceed_get:
  "jm_get (ap_calls (proceed i q r)) j =
     (if j = i then (case snd r of Inl reply \<Rightarrow> None | Inr p \<Rightarrow> Some (q, p)) else jm_get (ap_calls (fst r)) j)"
  by (cases r) (simp add: proceed_def jm_get_set jm_get_delete split: sum.split)

lemma crypto_awaits:
  assumes "\<And>tok. point \<noteq> Preparing tok" "snd (crypto_settles C b fresh secret q point s) = Inr p"
  shows "awaits point = 2 \<and> awaits p = 1"
  using assms by (auto simp: crypto_settles_def case_prod_beta Let_def split: await_point.splits if_splits)

definition one_settles :: "'p assist_supplier \<Rightarrow> 'p assist_label \<Rightarrow> 'p assist_supplier \<Rightarrow> bool" where
  "one_settles s l t \<longleftrightarrow>
     (\<forall>j. settled l \<noteq> Some j \<longrightarrow> (jm_get (ap_calls t) j = jm_get (ap_calls s) j \<or> is_receive l \<and> j = ap_fresh s))
     \<and> (\<forall>j. settled l = Some j \<longrightarrow> (\<exists>q p. jm_get (ap_calls s) j = Some (q, p)
          \<and> (jm_get (ap_calls t) j = None \<or> (\<exists>p'. jm_get (ap_calls t) j = Some (q, p') \<and> awaits p' < awaits p))))
     \<and> length (ap_calls t) + length (ap_replies t) = length (ap_calls s) + length (ap_replies s) + (if is_receive l then 1 else 0)
     \<and> ap_fresh s \<le> ap_fresh t \<and> (is_receive l \<longrightarrow> ap_fresh s < ap_fresh t)"

lemma one_settles_kept:
  "\<not> is_receive l \<Longrightarrow> settled l = None \<Longrightarrow> ap_calls t = ap_calls s \<Longrightarrow> ap_replies t = ap_replies s \<Longrightarrow> ap_fresh s \<le> ap_fresh t \<Longrightarrow> one_settles s l t"
  by (simp add: one_settles_def)

lemma one_settles_winds: "\<not> is_receive l \<Longrightarrow> settled l = None \<Longrightarrow> winds s t \<Longrightarrow> one_settles s l t"
  by (rule one_settles_kept) (simp_all add: winds_def kept_def)

lemma end_all_calls: "ap_calls (end_all C reason s) = ap_calls s"
  using winds_keptD [OF finish_all_winds, of C reason "jm_keys (ap_offers s)" s] by (simp add: end_all_def save_resume_def kept_def)

lemma one_settles_end_all:
  "\<not> is_receive l \<Longrightarrow> settled l = None \<Longrightarrow> ap_calls u = ap_calls s \<Longrightarrow> ap_replies u = ap_replies s \<Longrightarrow> ap_fresh u = ap_fresh s
    \<Longrightarrow> one_settles s l (end_all C reason u)"
  using end_all_kept(4) [where s = u and C = C and reason = reason]
  by (intro one_settles_kept) (simp_all add: end_all_calls end_all_kept_more)

lemma one_settles_changed [simp]: "one_settles s l (changed t) = one_settles s l t"
  by (simp add: one_settles_def changed_def)

lemma accept_calls: "ap_calls (accept_offer C secret tok s) = ap_calls s" "ap_fresh s \<le> ap_fresh (accept_offer C secret tok s)"
proof -
  have "ap_calls (accept_offer C secret tok s) = ap_calls s \<and> ap_fresh s \<le> ap_fresh (accept_offer C secret tok s)"
  proof (cases rule: accept_offerE [of C secret tok s])
    case none
    then show ?thesis using expire_winds [of s C] by (simp add: winds_def)
  next
    case (grants ofr v)
    then show ?thesis
      using winds_keptD [OF grants(7)] granted_state_kept [where C = C and secret = secret and tok = tok and ofr = ofr and s = s]
      by (simp add: changed_def kept_def winds_def)
  qed
  then show "ap_calls (accept_offer C secret tok s) = ap_calls s" "ap_fresh s \<le> ap_fresh (accept_offer C secret tok s)" by blast+
qed

lemma proceed_fresh [simp]: "ap_fresh (proceed i q r) = ap_fresh (fst r)"
  by (cases r) (simp add: proceed_def split: sum.split)

text \<open>A resumption settles the one call, and either answers it or lowers what it still waits for.\<close>

lemma one_settles_proceed:
  assumes ok: "calls_ok C s" and call: "jm_get (ap_calls s) i = Some (q, point)" and l: "settled l = Some i" "\<not> is_receive l"
    and r: "ap_calls (fst r) = ap_calls s" "ap_replies (fst r) = ap_replies s" "ap_fresh s \<le> ap_fresh (fst r)"
    and a: "\<And>p. snd r = Inr p \<Longrightarrow> awaits p < awaits point"
  shows "one_settles s l (proceed i q r)"
proof -
  have i: "i \<in> set (jm_keys (ap_calls s))" using call by (metis map_of_eq_None_iff option.distinct(1) list.set_map)
  have "distinct (jm_keys (ap_calls (fst r)))" using ok r(1) unfolding calls_ok_def by simp
  from proceed_size [OF this, of i q] i r show ?thesis
    using call l a by (auto simp: one_settles_def proceed_get split: sum.split simp del: set_map)
qed

lemma assist_step_settles: "assist_step C s l t \<Longrightarrow> calls_ok C s \<Longrightarrow> one_settles s l t"
proof (induction rule: assist_step.induct)
  case (step_enable s b)
  show ?case by (cases b) (simp_all add: enable_def Let_def one_settles_end_all one_settles_kept)
next
  case (step_ready s b)
  show ?case by (cases b) (simp_all add: set_ready_def Let_def one_settles_end_all one_settles_kept)
next
  case (step_receive s fresh q)
  let ?s = "s\<lparr>ap_fresh := Suc (ap_fresh s)\<rparr>"
  let ?r = "receive C fresh q ?s"
  have "ap_replies (fst ?r) = ap_replies s" using receive_suspends [of C q ?s fresh] by (simp add: suspends_def)
  moreover have c: "ap_calls (fst ?r) = ap_calls s" using receive_calls [of C fresh q ?s] by simp
  moreover have "ap_fresh s \<notin> set (jm_keys (ap_calls s))" "distinct (jm_keys (ap_calls s))"
    using step_receive(2) unfolding calls_ok_def by auto
  ultimately show ?case
    using proceed_size [of ?r "ap_fresh s" q] receive_fresh [of ?s C fresh q]
    by (auto simp: receive_call_def Let_def one_settles_def proceed_get simp del: set_map)
next
  case (step_crypto s i q point fresh b secret)
  note K = crypto_outcome(1-3) [OF step_crypto(2) calls_okD(1) [OF step_crypto(4,1)], where b = b and fresh = fresh and secret = secret and s = s]
  show ?case
    by (rule one_settles_proceed [OF step_crypto(4,1) _ _ K]) (use crypto_awaits [OF step_crypto(2)] in fastforce)+
next
  case (step_prepare s i q tok outcome)
  obtain u reply where u: "prepare_settles C outcome q tok s = (u, reply)" by fastforce
  note K = prepare_settles_kept(1,2,5) [where C = C and outcome = outcome and q = q and tok = tok and s = s, unfolded u fst_conv]
  have "one_settles s (PrepareSettles i outcome) (proceed i q (u, Inl reply))"
    by (rule one_settles_proceed [OF step_prepare(2,1)]) (use K in simp_all)
  then show ?case by (simp add: u)
qed (auto intro: one_settles_kept one_settles_winds finish_winds expire_winds one_settles_end_all accept_calls
      simp: decline_def pending_def Let_def accept_calls accept_kept_more)

lemma settlements_snoc: "settlements i (ls @ [l]) = settlements i ls + (if settled l = Some i then 1 else 0)"
  by (simp add: settlements_def)

definition answer_count_ok :: "'p assist_label list \<Rightarrow> 'p assist_supplier \<Rightarrow> bool" where
  "answer_count_ok ls t \<longleftrightarrow> length (ap_calls t) + length (ap_replies t) = length (filter is_receive ls)
     \<and> (\<forall>i. settlements i ls + (case jm_get (ap_calls t) i of None \<Rightarrow> 0 | Some (q, p) \<Rightarrow> awaits p) \<le> 2)
     \<and> (\<forall>i \<ge> ap_fresh t. settlements i ls = 0)"

lemma awaits_le: "awaits p \<le> 2"
  by (cases p) auto

lemma answer_count_step:
  assumes o: "one_settles s l t" and ok: "calls_ok C s" and c: "answer_count_ok ls s"
  shows "answer_count_ok (ls @ [l]) t"
proof -
  note c = c [unfolded answer_count_ok_def] and o = o [unfolded one_settles_def]
  have settled_old: "j < ap_fresh s" if sl: "settled l = Some j" for j
  proof -
    obtain q p where "jm_get (ap_calls s) j = Some (q, p)" using o [THEN conjunct2, THEN conjunct1] sl by blast
    then have "j \<in> set (jm_keys (ap_calls s))" by (metis map_of_eq_None_iff option.distinct(1) list.set_map)
    then show ?thesis using ok unfolding calls_ok_def set_append by blast
  qed
  have "settlements i (ls @ [l]) + (case jm_get (ap_calls t) i of None \<Rightarrow> 0 | Some (q, p) \<Rightarrow> awaits p) \<le> 2" for i
  proof (cases "settled l = Some i")
    case True
    then obtain q p where p: "jm_get (ap_calls s) i = Some (q, p)"
      "jm_get (ap_calls t) i = None \<or> (\<exists>p'. jm_get (ap_calls t) i = Some (q, p') \<and> awaits p' < awaits p)"
      using o by blast
    moreover have "awaits p > 0" by (cases p) auto
    ultimately have "(case jm_get (ap_calls t) i of None \<Rightarrow> 0 | Some (q, p) \<Rightarrow> awaits p) < awaits p" by auto
    moreover have "settlements i ls + awaits p \<le> 2" using c p(1) by (metis (no_types, lifting) case_prod_conv option.simps(5))
    ultimately show ?thesis by (simp add: settlements_snoc True)
  next
    case False
    then consider "jm_get (ap_calls t) i = jm_get (ap_calls s) i" | "i = ap_fresh s" using o by blast
    then show ?thesis
    proof cases
      case 1
      then show ?thesis using c False by (simp add: settlements_snoc)
    next
      case 2
      then have "settlements i (ls @ [l]) = 0" using c False by (simp add: settlements_snoc)
      then show ?thesis using awaits_le by (simp split: option.split prod.split)
    qed
  qed
  moreover have "settlements i (ls @ [l]) = 0" if "ap_fresh t \<le> i" for i
    using that o c settled_old [of i] by (auto simp: settlements_snoc)
  moreover have "length (ap_calls t) + length (ap_replies t) = length (filter is_receive (ls @ [l]))" using o c by simp
  ultimately show ?thesis unfolding answer_count_ok_def by blast
qed

lemma answer_count_run: "steps (assist_step C) (new_supplier C p now) ls t \<Longrightarrow> answer_count_ok ls t"
proof (induction ls arbitrary: t rule: rev_induct)
  case Nil
  then show ?case by (auto simp: answer_count_ok_def new_supplier_def settlements_def)
next
  case (snoc l ls)
  then obtain s where s: "steps (assist_step C) (new_supplier C p now) ls s" "assist_step C s l t"
    by (auto simp: steps_append_iff)
  then show ?case
    by (blast intro: answer_count_step assist_step_settles calls_ok_run snoc.IH)
qed

text \<open>C11. Every call of \<open>receive\<close> is answered exactly once: after any run, the calls made are those
  answered and those suspended, without repetition; a suspended call can always be resumed, has
  seen at most one promise settle and is answered by the second at the latest, the invocation's by
  the first; and the flags \<open>committing\<close> and \<open>resuming\<close> are up exactly while a call of their kind is
  suspended, of which there is one at most.\<close>

theorem assistance_answers_once:
  assumes "steps (assist_step C) (new_supplier C p now) ls t"
  shows "length (ap_calls t) + length (ap_replies t) = length (filter is_receive ls)
    \<and> distinct (jm_keys (ap_calls t) @ jm_keys (ap_replies t))
    \<and> (\<forall>i q point. jm_get (ap_calls t) i = Some (q, point) \<longrightarrow> settlements i ls + awaits point \<le> 2 \<and> (\<exists>l u. settled l = Some i \<and> assist_step C t l u))
    \<and> (\<forall>i. settlements i ls \<le> 2)
    \<and> call_flag is_prep (ap_committing t) (ap_calls t) \<and> call_flag is_resume (ap_resuming t) (ap_calls t)"
proof -
  note c = answer_count_run [OF assms, unfolded answer_count_ok_def] and ok = calls_ok_run [OF assms, unfolded calls_ok_def]
  have "\<exists>l u. settled l = Some i \<and> assist_step C t l u" if call: "jm_get (ap_calls t) i = Some (q, point)" for i q point
  proof (cases "\<exists>tok. point = Preparing tok")
    case True
    then obtain tok where "point = Preparing tok" by blast
    with call have "assist_step C t (PrepareSettles i (PrepareFails None)) (case prepare_settles C (PrepareFails None) q tok t of (s, reply) \<Rightarrow> proceed i q (s, Inl reply))"
      by (intro step_prepare) simp
    then show ?thesis by (meson settled.simps(2))
  next
    case False
    have "infinite (UNIV :: jstr set)" by (rule infinite_UNIV_listI)
    then obtain fresh :: jstr where "fresh \<notin> set (jm_keys (ap_offers t))" using ex_new_if_finite by blast
    then have "jm_get (ap_offers t) fresh = None" by (metis map_of_eq_None_iff list.set_map)
    with call False have "assist_step C t (CryptoSettles i True fresh []) (proceed i q (crypto_settles C True fresh [] q point t))"
      by (intro step_crypto) auto
    then show ?thesis by (meson settled.simps(1))
  qed
  moreover have "settlements i ls + awaits point \<le> 2" if "jm_get (ap_calls t) i = Some (q, point)" for i q point
    using c that by (metis (no_types, lifting) case_prod_conv option.simps(5))
  moreover have "settlements i ls \<le> 2" for i using c by (meson add_leD1)
  ultimately show ?thesis using c [THEN conjunct1] ok by (intro conjI allI impI) simp_all
qed

subsection \<open>A run\<close>

text \<open>A host whose state is a counter, paired with a consumer that invokes its action.\<close>

definition host_config :: "int assist_config" where
  "host_config = \<lparr>sc_identity = \<lparr>ai_application = jlit ''app'', ai_workspace = jlit ''w'', ai_supplier = jlit ''A'', ai_generation = jlit ''g1''\<rparr>,
     sc_capabilities = object [(''version'', JStr (jlit ''1'')), (''actions'', object [(''bump'', JNull)])],
     sc_read = (\<lambda>p access. Inr \<lparr>ob_revision = jlit ''r'', ob_sequence = dec_int p, ob_state = None\<rparr>),
     sc_grant_ms = None, sc_resume_scope = None, sc_resume = None, sc_saves = True, sc_hmac = (\<lambda>k m. m), sc_number = (\<lambda>l. l)\<rparr>"

definition host_request :: "string \<Rightarrow> jstr option \<Rightarrow> int option \<Rightarrow> json \<Rightarrow> assistance_request" where
  "host_request operation token epoch payload = \<lparr>aq_version = 1, aq_identity = sc_identity host_config, aq_consumer = jlit ''C'',
     aq_operation = jlit operation, aq_deadline = 1000, aq_token = token, aq_epoch = epoch, aq_payload = json_bytes payload\<rparr>"

definition bump_request :: assistance_request where
  "bump_request = host_request ''invoke'' (Some (jlit ''t'')) (Some 1)
     (object [(''action'', JStr (jlit ''bump'')), (''expected'', object [(''sequence'', json_int 7), (''revision'', JStr (jlit ''r''))])])"

definition host_labels :: "int assist_label list" where
  "host_labels = [Enables True, SetsReady True, Receives (host_request ''offer'' None None JNull) (jlit ''t''), Accepts (jlit ''t'') (jlit ''s''),
     Receives bump_request (jlit ''u'')]"

definition host_offered :: "int assist_supplier" where
  "host_offered = receive_call host_config (jlit ''t'') (host_request ''offer'' None None JNull)
     (set_ready host_config True (enable host_config True (new_supplier host_config 7 0)))"

definition host_preparing :: "int assist_supplier" where
  "host_preparing = receive_call host_config (jlit ''u'') bump_request (accept_offer host_config (jlit ''s'') (jlit ''t'') host_offered)"

lemma bump_parsed:
  "json_parse (from_utf8 (aq_payload bump_request)) =
     Some (object [(''action'', JStr (jlit ''bump'')), (''expected'', object [(''sequence'', json_int 7), (''revision'', JStr (jlit ''r''))])])"
  unfolding bump_request_def host_request_def by (simp add: json_bytes_back)

lemmas host_eval = host_config_def host_request_def receive_call_def receive_valid request_valid_def receive_offer_def proceed_def Let_def
  changed_def expire_def expire_offer_def accept_offer_def remember_def save_resume_def busy_other_def enable_def set_ready_def
  new_supplier_def initial_authority_def finish_def

lemma host_offered_eq:
  "host_offered = \<lparr>ap_enabled = True, ap_ready = True, ap_epoch = 0, ap_active = None,
     ap_offers = [(jlit ''t'', \<lparr>of_consumer = jlit ''C'', of_deadline = 1000, of_epoch = 0, of_status = Pending, of_reason = None\<rparr>)],
     ap_committing = False, ap_authority = None, ap_resuming = False, ap_saved = [], ap_changes = 3, ap_fresh = 2, ap_now = 0, ap_app = 7,
     ap_calls = [], ap_replies = ap_replies host_offered\<rparr>"
  by (simp add: host_offered_def host_eval)

lemma host_preparing_eq:
  "ap_app host_preparing = 7" "ap_now host_preparing = 0" "ap_enabled host_preparing" "ap_ready host_preparing" "ap_active host_preparing = Some (jlit ''t'')"
  "ap_offers host_preparing = [(jlit ''t'', \<lparr>of_consumer = jlit ''C'', of_deadline = 300000, of_epoch = 1, of_status = Accepted, of_reason = None\<rparr>)]"
  "ap_calls host_preparing = [(3, bump_request, Preparing (jlit ''t''))]" "ap_committing host_preparing"
proof -
  define g where "g = accept_offer host_config (jlit ''s'') (jlit ''t'') host_offered"
  have g: "ap_app g = 7" "ap_now g = 0" "ap_enabled g" "ap_ready g" "ap_active g = Some (jlit ''t'')" "\<not> ap_committing g" "ap_fresh g = 3" "ap_calls g = []"
    "ap_offers g = [(jlit ''t'', \<lparr>of_consumer = jlit ''C'', of_deadline = 300000, of_epoch = 1, of_status = Accepted, of_reason = None\<rparr>)]"
    by (subst g_def, subst host_offered_eq, simp add: host_eval)+
  have e: "expire host_config (g\<lparr>ap_fresh := k\<rparr>) = g\<lparr>ap_fresh := k\<rparr>" for k
    by (simp add: expire_def expire_offer_def g)
  have q: "request_valid host_config bump_request 0" "aq_operation bump_request = jlit ''invoke''" "aq_token bump_request = Some (jlit ''t'')"
    "aq_consumer bump_request = jlit ''C''" "aq_epoch bump_request = Some 1" "aq_deadline bump_request = 1000"
    by (simp_all add: bump_request_def host_request_def request_valid_def)
  have a: "input_action host_config (object [(''action'', JStr (jlit ''bump'')), (''expected'', e)]) = Some (jlit ''bump'')" for e
    by (simp add: input_action_def as_string_def capability_actions_def host_config_def)
  have rd: "sc_read host_config k access = Inr \<lparr>ob_revision = jlit ''r'', ob_sequence = dec_int k, ob_state = None\<rparr>" "sc_number host_config x = x" for k access x
    by (simp_all add: host_config_def)
  have r: "receive host_config (jlit ''u'') bump_request (g\<lparr>ap_fresh := 4\<rparr>) = (g\<lparr>ap_fresh := 4, ap_committing := True\<rparr>, Inr (Preparing (jlit ''t'')))"
    using q g bump_parsed a rd
    by (simp add: receive_valid e Let_def receive_for_def receive_granted_def permitted_def begin_invoke_def still_current_def)
  show "ap_app host_preparing = 7" "ap_now host_preparing = 0" "ap_enabled host_preparing" "ap_ready host_preparing" "ap_active host_preparing = Some (jlit ''t'')"
    "ap_offers host_preparing = [(jlit ''t'', \<lparr>of_consumer = jlit ''C'', of_deadline = 300000, of_epoch = 1, of_status = Accepted, of_reason = None\<rparr>)]"
    "ap_calls host_preparing = [(3, bump_request, Preparing (jlit ''t''))]" "ap_committing host_preparing"
    using g r by (simp_all add: host_preparing_def receive_call_def flip: g_def) (simp_all add: proceed_def g)
qed

lemma host_fresh: "jm_get (ap_offers (accept_offer host_config (jlit ''s'') (jlit ''t'') host_offered)) (jlit ''u'') = None"
  by (subst host_offered_eq) (simp add: host_eval)

lemma host_run: "steps (assist_step host_config) (new_supplier host_config 7 0) host_labels host_preparing"
proof -
  have "jm_get (ap_offers (set_ready host_config True (enable host_config True (new_supplier host_config 7 0)))) (jlit ''t'') = None"
    by (simp add: host_eval)
  with host_fresh show ?thesis
    by (auto simp: host_labels_def host_preparing_def host_offered_def intro!: steps.intros assist_step.intros)
qed

definition bump :: "int \<Rightarrow> int \<times> jstr option option" where
  "bump k = (k + 1, None)"

definition host_applied :: "int assist_supplier" where
  "host_applied = (case prepare_settles host_config (Prepared bump) bump_request (jlit ''t'') host_preparing of
     (s, reply) \<Rightarrow> proceed 3 bump_request (s, Inl reply))"

lemma host_commit: "assist_step host_config host_preparing (PrepareSettles 3 (Prepared bump)) host_applied"
  unfolding host_applied_def by (rule step_prepare) (simp add: host_preparing_eq)

lemma host_applied_app: "ap_app host_applied = 8"
proof -
  have e: "expire host_config host_preparing = host_preparing" by (simp add: expire_def expire_offer_def host_preparing_eq)
  have p: "permitted host_config (jlit ''t'') bump_request host_preparing = (host_preparing, True)"
    by (simp add: permitted_def e host_preparing_eq Let_def) (simp add: bump_request_def host_request_def)
  have "sc_read host_config k access = Inr \<lparr>ob_revision = jlit ''r'', ob_sequence = dec_int k, ob_state = None\<rparr>" "sc_number host_config x = x" for k access x
    by (simp_all add: host_config_def)
  then have "ap_app (fst (commit_prepared host_config (jlit ''t'') (the (json_parse (from_utf8 (aq_payload bump_request)))) bump_request bump host_preparing)) = 8"
    by (simp add: commit_prepared_def p bump_parsed still_current_def host_preparing_eq bump_def)
  then show ?thesis by (simp add: host_applied_def prepare_settles_def case_prod_beta proceed_quiet)
qed

theorem assistance_commit_allowed_witness:
  "committed_by host_config host_preparing (PrepareSettles 3 (Prepared bump)) host_applied 3 \<and> ap_app host_applied = 8"
proof -
  have "\<exists>i. committed_by host_config host_preparing (PrepareSettles 3 (Prepared bump)) host_applied i"
    using assistance_commit_allowed [OF host_run host_commit] by (simp add: host_applied_app host_preparing_eq)
  then show ?thesis using host_applied_app by (auto simp: committed_by_def)
qed

theorem assistance_single_grant_witness:
  "\<exists>ofr. jm_get (ap_offers host_preparing) (jlit ''t'') = Some ofr \<and> of_status ofr = Accepted \<and> of_epoch ofr \<le> ap_epoch host_preparing"
proof -
  have "sc_saves host_config" by (simp add: host_config_def)
  then show ?thesis using assistance_single_grant [OF host_run] host_preparing_eq(5) by blast
qed

definition host_ended :: "int assist_supplier" where
  "host_ended = end_all host_config (jlit ''operator stopped'') host_preparing"

lemma host_ended_offers:
  "ap_offers host_ended = [(jlit ''t'', \<lparr>of_consumer = jlit ''C'', of_deadline = 300000, of_epoch = 1, of_status = Ended, of_reason = Some (jlit ''operator stopped'')\<rparr>)]"
  by (simp add: host_ended_def end_all_def finish_def host_preparing_eq Let_def changed_def save_resume_def)

theorem assistance_ended_is_final_witness:
  "jm_get (ap_offers (host_ended\<lparr>ap_now := 500000\<rparr>)) (jlit ''t'') = jm_get (ap_offers host_ended) (jlit ''t'')
    \<and> snd (receive host_config (jlit ''v'') ((host_request ''read'' (Some (jlit ''t'')) (Some 1) JNull)\<lparr>aq_deadline := 600000\<rparr>) (host_ended\<lparr>ap_now := 500000\<rparr>))
        = Inl (Answers ((assist_result ''ended'' JNull)\<lparr>ar_token := Some (jlit ''t''), ar_reason := Some (jlit ''operator stopped'')\<rparr>))"
proof -
  have "steps (assist_step host_config) host_ended [ClockShows 500000] (host_ended\<lparr>ap_now := 500000\<rparr>)"
    by (auto intro: steps.intros assist_step.intros)
  from assistance_ended_is_final [OF this, of "jlit ''t''"] show ?thesis
    by (simp add: host_ended_offers request_valid_def host_request_def)
qed

theorem assistance_answers_once_witness:
  "length (ap_calls host_preparing) + length (ap_replies host_preparing) = 2 \<and> (\<exists>l u. settled l = Some 3 \<and> assist_step host_config host_preparing l u)"
  using assistance_answers_once [OF host_run] by (simp add: host_preparing_eq host_labels_def)

end
