(* ===== verification/Assistance_Resume.thy ===== *)
theory Assistance_Resume
  imports Assistance_Safety
begin

text \<open>
  Where the grants of the assistance supplier come from: the operator, or a consumer that proves
  it holds the secret of the authority the host has retained.
\<close>

subsection \<open>The authority a suspended call captured\<close>

fun captured :: "await_point \<Rightarrow> (nat \<times> resume_authority) option" where
  "captured (ProbeRequested n r nonce given) = Some (n, r)"
| "captured (ProbeProved n r nonce) = Some (n, r)"
| "captured (ResumeRequested n r nonce given) = Some (n, r)"
| "captured (ResumeProved n r nonce) = Some (n, r)"
| "captured (Preparing tok) = None"

definition captures :: "'p assist_supplier \<Rightarrow> (nat \<times> resume_authority) set" where
  "captures s = {a. \<exists>i q p. jm_get (ap_calls s) i = Some (q, p) \<and> captured p = Some a}"

text \<open>A number names one authority for good.\<close>

definition authority_ok :: "'p assist_supplier \<Rightarrow> bool" where
  "authority_ok s \<longleftrightarrow> (\<forall>n r. (n, r) \<in> set_option (ap_authority s) \<union> captures s \<longrightarrow> n < ap_fresh s)
     \<and> (\<forall>n r r'. ap_authority s = Some (n, r) \<longrightarrow> (n, r') \<in> captures s \<longrightarrow> r' = r)"

definition authority_moves :: "'p assist_supplier \<Rightarrow> 'p assist_supplier \<Rightarrow> bool" where
  "authority_moves s t \<longleftrightarrow> ap_fresh s \<le> ap_fresh t \<and> captures t \<subseteq> captures s \<union> set_option (ap_authority s)
     \<and> (\<forall>n r. ap_authority t = Some (n, r) \<longrightarrow> ap_authority s = Some (n, r) \<or> ap_fresh s \<le> n \<and> n < ap_fresh t)"

lemma authority_ok_moves:
  assumes ok: "authority_ok s" and m: "authority_moves s t"
  shows "authority_ok t"
  unfolding authority_ok_def
proof (intro conjI allI impI)
  note o = ok [unfolded authority_ok_def] and m = m [unfolded authority_moves_def]
  have old: "n < ap_fresh s" if "(n, r) \<in> captures t" for n r using o m that by blast
  show "n < ap_fresh t" if "(n, r) \<in> set_option (ap_authority t) \<union> captures t" for n r
    using that
  proof
    assume "(n, r) \<in> set_option (ap_authority t)"
    then have "ap_authority s = Some (n, r) \<or> n < ap_fresh t" using m by (simp add: elem_set) blast
    then show ?thesis using o m by (auto intro: order_less_le_trans)
  next
    assume "(n, r) \<in> captures t"
    from old [OF this] m show ?thesis by simp
  qed
  show "r' = r" if "ap_authority t = Some (n, r)" "(n, r') \<in> captures t" for n r r'
  proof -
    have "ap_authority s = Some (n, r)" using m that(1) old [OF that(2)] by (meson not_le)
    then show ?thesis using o m that(2) by auto
  qed
qed

lemma captures_same: "ap_calls t = ap_calls s \<Longrightarrow> captures t = captures s"
  by (simp add: captures_def)

lemma authority_moves_kept:
  "ap_calls t = ap_calls s \<Longrightarrow> ap_fresh s \<le> ap_fresh t \<Longrightarrow> ap_authority t = ap_authority s \<or> ap_authority t = None \<Longrightarrow> authority_moves s t"
  by (drule captures_same, elim disjE) (simp_all add: authority_moves_def)

lemma authority_moves_winds: "winds s t \<Longrightarrow> authority_moves s t"
  by (rule authority_moves_kept) (auto simp: winds_def kept_def)

lemma remember_authority:
  "ap_authority (remember C secret ofr s) = ap_authority s \<and> ap_fresh (remember C secret ofr s) = ap_fresh s
    \<or> (\<exists>r. ap_authority (remember C secret ofr s) = Some (ap_fresh s, r)) \<and> ap_fresh (remember C secret ofr s) = ap_fresh s + 1"
  by (simp add: remember_def save_resume_def)

lemma authority_moves_accept: "authority_moves s (accept_offer C secret tok s)"
proof (cases rule: accept_offerE [of C secret tok s])
  case none
  then show ?thesis by (simp add: authority_moves_winds [OF expire_winds])
next
  case (grants ofr v)
  have e: "ap_fresh s \<le> ap_fresh (expire C s)" "ap_authority (expire C s) = ap_authority s \<or> ap_authority (expire C s) = None"
    using expire_winds [of s C] by (auto simp: winds_def)
  have v: "ap_authority v = ap_authority (granted_state C secret tok ofr s)" "ap_fresh (granted_state C secret tok ofr s) \<le> ap_fresh v"
    "ap_calls v = ap_calls s"
    using grants(7,10) winds_keptD [OF grants(7)] by (simp_all add: winds_def kept_def granted_state_kept)
  define u where "u = (expire C s)\<lparr>ap_epoch := ap_epoch s + 1, ap_offers := jm_set tok (granted_offer C s ofr) (ap_offers (expire C s)), ap_active := Some tok\<rparr>"
  have g: "granted_state C secret tok ofr s = remember C secret (granted_offer C s ofr) u" by (simp add: granted_state_def u_def Let_def)
  have u: "ap_authority u = ap_authority (expire C s)" "ap_fresh u = ap_fresh (expire C s)" by (simp_all add: u_def)
  have "authority_moves s v"
    using remember_authority [of C secret "granted_offer C s ofr" u] e v(1,2) captures_same [OF v(3)] unfolding g u authority_moves_def
    by auto
  then show ?thesis by (simp add: grants(11) authority_moves_def changed_def captures_def)
qed

lemma proceed_captures:
  "captures (proceed i q r) \<subseteq> captures (fst r) \<union> {a. \<exists>p. snd r = Inr p \<and> captured p = Some a}"
  by (auto simp: captures_def proceed_get split: if_splits sum.splits)

lemma authority_moves_proceed:
  assumes "authority_moves s (fst r)" "\<And>p. snd r = Inr p \<Longrightarrow> set_option (captured p) \<subseteq> captures s \<union> set_option (ap_authority s)"
  shows "authority_moves s (proceed i q r)"
proof -
  have "ap_authority (proceed i q r) = ap_authority (fst r)" using proceed_core [of i q r] by (simp add: core_def)
  with assms proceed_captures [of i q r] show ?thesis
    unfolding authority_moves_def by (auto simp: elem_set)
qed

lemma receive_captured:
  assumes "snd (receive C fresh q s) = Inr p" "captured p = Some a"
  shows "ap_authority (expire C s) = Some a"
proof (cases rule: receiveE [where C = C and fresh = fresh and q = q and s = s])
  case probe
  with assms show ?thesis by (auto simp: begin_probe_def split: option.splits if_splits)
next
  case resume
  with assms show ?thesis by (auto simp: begin_resume_def split: option.splits if_splits)
next
  case (token tok)
  with assms receive_for_mark [of C tok q "expire C s" p] show ?thesis by simp
qed (use assms in simp_all)

lemma authority_moves_receive: "authority_moves s (receive_call C fresh q s)"
proof -
  let ?s = "s\<lparr>ap_fresh := ap_fresh s + 1\<rparr>"
  have W: "ap_authority (expire C ?s) = ap_authority s \<or> ap_authority (expire C ?s) = None"
    using expire_winds [of ?s C] by (auto simp: winds_def)
  have "ap_authority (fst (receive C fresh q ?s)) = ap_authority s \<or> ap_authority (fst (receive C fresh q ?s)) = None"
    using W by (cases rule: receive_core [where C = C and fresh = fresh and q = q and s = ?s]) (auto simp: core_def winds_def)
  then have "authority_moves s (fst (receive C fresh q ?s))"
    using receive_calls [of C fresh q ?s] receive_fresh [of ?s C fresh q] by (intro authority_moves_kept) simp_all
  then show ?thesis
    unfolding receive_call_def Let_def
  proof (rule authority_moves_proceed)
    show "set_option (captured p) \<subseteq> captures s \<union> set_option (ap_authority s)" if r: "snd (receive C fresh q ?s) = Inr p" for p
    proof (cases "captured p")
      case (Some a)
      from receive_captured [OF r Some] W show ?thesis by (auto simp: Some)
    qed simp
  qed
qed

lemma grant_resumed_core:
  "core (fst (grant_resumed C fresh secret q r nonce s)) =
     core (remember C secret \<lparr>of_consumer = aq_consumer q, of_deadline = ra_expires r, of_epoch = ap_epoch s + 1, of_status = Accepted, of_reason = None\<rparr>
       (s\<lparr>ap_epoch := ap_epoch s + 1, ap_offers := jm_set fresh \<lparr>of_consumer = aq_consumer q, of_deadline = ra_expires r, of_epoch = ap_epoch s + 1,
            of_status = Accepted, of_reason = None\<rparr> (ap_offers s), ap_active := Some fresh\<rparr>))"
  by (simp add: grant_resumed_def core_def changed_def Let_def)

text \<open>What settles a proof: nothing of the core changes, or the resume is granted.\<close>

definition resume_granted :: "'p assist_config \<Rightarrow> bool \<Rightarrow> assistance_request \<Rightarrow> await_point \<Rightarrow> 'p assist_supplier \<Rightarrow> bool" where
  "resume_granted C ok q point s \<longleftrightarrow> (\<exists>n r nonce. point = ResumeProved n r nonce \<and> ok \<and> ap_enabled s \<and> ap_ready s
     \<and> map_option fst (ap_authority s) = Some n \<and> ap_now s < ra_expires r \<and> ap_now s < aq_deadline q)"

lemma crypto_core:
  "core (fst (crypto_settles C ok fresh secret q point s)) =
     (if resume_granted C ok q point s
      then (case point of ResumeProved n r nonce \<Rightarrow> core (fst (grant_resumed C fresh secret q r nonce s)) | _ \<Rightarrow> core s) else core s)"
proof -
  have c: "core (x\<lparr>ap_resuming := b\<rparr>) = core x" for x :: "'a assist_supplier" and b by (simp add: core_def)
  show ?thesis by (cases point) (auto simp: crypto_settles_def resume_granted_def case_prod_beta c)
qed

lemma authority_moves_crypto:
  assumes call: "jm_get (ap_calls s) i = Some (q, point)" and kind: "\<And>tok. point \<noteq> Preparing tok" and ok: "point_ok C q point"
  shows "authority_moves s (proceed i q (crypto_settles C b fresh secret q point s))"
proof (rule authority_moves_proceed)
  let ?t = "fst (crypto_settles C b fresh secret q point s)"
  note K = crypto_outcome [OF kind ok, where b = b and fresh = fresh and secret = secret and s = s]
  have "ap_authority ?t = ap_authority s \<or> (\<exists>r. ap_authority ?t = Some (ap_fresh s, r) \<and> ap_fresh ?t = ap_fresh s + 1)"
  proof (cases "resume_granted C b q point s")
    case True
    then obtain n r nonce where p: "point = ResumeProved n r nonce" by (auto simp: resume_granted_def)
    define ofr where "ofr = \<lparr>of_consumer = aq_consumer q, of_deadline = ra_expires r, of_epoch = ap_epoch s + 1, of_status = Accepted, of_reason = None\<rparr>"
    define u where "u = s\<lparr>ap_epoch := ap_epoch s + 1, ap_offers := jm_set fresh ofr (ap_offers s), ap_active := Some fresh\<rparr>"
    have "core ?t = core (remember C secret ofr u)"
      using crypto_core [of C b fresh secret q point s] True unfolding p u_def ofr_def by (simp add: grant_resumed_core)
    moreover have "ap_authority u = ap_authority s" "ap_fresh u = ap_fresh s" by (simp_all add: u_def)
    ultimately show ?thesis using remember_authority [of C secret ofr u] K(3) by (auto simp: core_def)
  next
    case False
    then show ?thesis using crypto_core [of C b fresh secret q point s] by (simp add: core_def)
  qed
  then show "authority_moves s ?t"
    using K(3) captures_same [OF K(1)] unfolding authority_moves_def by auto
  show "set_option (captured p) \<subseteq> captures s \<union> set_option (ap_authority s)" if "snd (crypto_settles C b fresh secret q point s) = Inr p" for p
  proof -
    have "captured p = captured point"
      using that kind by (auto simp: crypto_settles_def case_prod_beta Let_def split: await_point.splits if_splits)
    then show ?thesis using call by (auto simp: captures_def elem_set)
  qed
qed

lemma authority_moves_changed [simp]: "authority_moves s (changed t) = authority_moves s t"
  by (simp add: authority_moves_def changed_def captures_def)

lemma authority_moves_end_all:
  "ap_calls u = ap_calls s \<Longrightarrow> ap_fresh u = ap_fresh s \<Longrightarrow> authority_moves s (end_all C reason u)"
  using end_all_kept(3,4) [where s = u and C = C and reason = reason]
  by (intro authority_moves_kept) (simp_all add: end_all_calls)

lemma authority_moves_step: "assist_step C s l t \<Longrightarrow> calls_ok C s \<Longrightarrow> authority_moves s t"
proof (induction rule: assist_step.induct)
  case (step_enable s b)
  show ?case by (cases b) (simp_all add: enable_def Let_def authority_moves_end_all authority_moves_kept)
next
  case (step_ready s b)
  show ?case by (cases b) (simp_all add: set_ready_def Let_def authority_moves_end_all authority_moves_kept)
next
  case (step_crypto s i q point fresh b secret)
  show ?case by (rule authority_moves_crypto [OF step_crypto(1,2) calls_okD(1) [OF step_crypto(4,1)]])
next
  case (step_prepare s i q tok outcome)
  obtain u reply where u: "prepare_settles C outcome q tok s = (u, reply)" by fastforce
  have c: "core u = core s \<or> core u = core (expire C s)" "ap_calls u = ap_calls s" using prepare_core [of C outcome q tok s] by (simp_all add: u)
  have "ap_fresh s \<le> ap_fresh (expire C s)" "ap_authority (expire C s) = ap_authority s \<or> ap_authority (expire C s) = None"
    using expire_winds [of s C] by (auto simp: winds_def)
  with c(1) have "ap_fresh s \<le> ap_fresh u" "ap_authority u = ap_authority s \<or> ap_authority u = None" by (auto simp: core_def)
  then have "authority_moves s u" by (rule authority_moves_kept [OF c(2)])
  then show ?case using authority_moves_proceed [of s "(u, Inl reply)" i q] by (simp add: u)
qed (auto intro: authority_moves_kept authority_moves_winds finish_winds expire_winds authority_moves_end_all authority_moves_accept authority_moves_receive
      simp: decline_def pending_def Let_def)

lemma authority_ok_run: "steps (assist_step C) (new_supplier C p now) ls s \<Longrightarrow> authority_ok s"
proof (induction ls arbitrary: s rule: rev_induct)
  case Nil
  then show ?case
    by (auto simp: authority_ok_def new_supplier_def captures_def initial_authority_def split: option.splits if_splits)
next
  case (snoc l ls)
  then obtain u where u: "steps (assist_step C) (new_supplier C p now) ls u" "assist_step C u l s"
    by (auto simp: steps_append_iff)
  from authority_ok_moves [OF snoc.IH [OF u(1)] authority_moves_step [OF u(2) calls_ok_run [OF u(1)]]] show ?case .
qed

lemma end_all_active: "ap_active (end_all C reason u) = Some tok \<Longrightarrow> ap_active u = Some tok"
  using winds_active [OF finish_all_winds, of C reason "jm_keys (ap_offers u)" u] by (simp add: end_all_def save_resume_def)

lemma core_active: "core t = core s \<Longrightarrow> ap_active t = ap_active s"
  by (simp add: core_def)

text \<open>The ways a token becomes the active one.\<close>

lemma active_from:
  assumes "assist_step C s l t" "ap_active t = Some tok" "ap_active s \<noteq> Some tok"
  obtains (accepted) secret where "l = Accepts tok secret" "t = accept_offer C secret tok s" "accept_offer C secret tok s \<noteq> expire C s"
  | (resumed) i q point secret where "l = CryptoSettles i True tok secret" "jm_get (ap_calls s) i = Some (q, point)" "\<And>tok. point \<noteq> Preparing tok"
      "resume_granted C True q point s" "t = proceed i q (crypto_settles C True tok secret q point s)"
  using assms
proof (cases rule: assist_step.cases)
  case (step_enable b)
  with assms(2,3) show thesis using end_all_active [of C _ "s\<lparr>ap_enabled := b\<rparr>" tok] by (cases b) (auto simp: enable_def Let_def changed_def)
next
  case (step_ready b)
  with assms(2,3) show thesis using end_all_active [of C _ "s\<lparr>ap_ready := b\<rparr>" tok] by (cases b) (auto simp: set_ready_def Let_def changed_def)
next
  case (step_end reason)
  with assms(2,3) show thesis using end_all_active by metis
next
  case (step_decline tok')
  with assms(2,3) show thesis using winds_active [OF finish_winds] by (metis decline_def)
next
  case (step_accept tok' secret)
  show thesis
  proof (cases rule: accept_offerE [of C secret tok' s])
    case none
    with step_accept assms(2,3) show thesis using winds_active [OF expire_winds, of C s tok] by simp
  next
    case (grants ofr v)
    then have "tok' = tok" using step_accept assms(2) by (simp add: changed_def)
    moreover have "accept_offer C secret tok' s \<noteq> expire C s" using grants(5,8,11) by (auto simp: changed_def dest: arg_cong [where f = ap_active])
    ultimately show thesis using accepted step_accept by blast
  qed
next
  case step_inspect
  with assms(2,3) show thesis using winds_active [OF expire_winds, of C s tok] by (simp add: pending_def Let_def)
next
  case (step_receive fresh q)
  let ?s = "s\<lparr>ap_fresh := ap_fresh s + 1\<rparr>"
  have t: "ap_active t = ap_active (fst (receive C fresh q ?s))"
    unfolding step_receive(2) receive_call_def Let_def by (rule core_active) simp
  have "ap_active (fst (receive C fresh q ?s)) = Some tok \<Longrightarrow> ap_active s = Some tok"
  proof (cases rule: receive_core [where C = C and fresh = fresh and q = q and s = ?s])
    case (winds u)
    then show "ap_active (fst (receive C fresh q ?s)) = Some tok \<Longrightarrow> ?thesis" using winds_active [OF winds(1), of tok] core_active [OF winds(2)] by simp
  next
    case (offers ofr)
    then show "ap_active (fst (receive C fresh q ?s)) = Some tok \<Longrightarrow> ?thesis" using winds_active [OF expire_winds, of C ?s tok] core_active [OF offers(1)] by simp
  qed
  with t assms(2,3) show thesis by simp
next
  case (step_crypto i q point fresh b secret)
  have t: "ap_active t = ap_active (fst (crypto_settles C b fresh secret q point s))"
    unfolding step_crypto(2) by (rule core_active) simp
  show thesis
  proof (cases "resume_granted C b q point s")
    case True
    then obtain n r nonce where p: "point = ResumeProved n r nonce" "b" by (auto simp: resume_granted_def)
    have "core (fst (crypto_settles C b fresh secret q point s)) = core (fst (grant_resumed C fresh secret q r nonce s))"
      using crypto_core [of C b fresh secret q point s] True by (simp add: p)
    then have "ap_active t = Some fresh" unfolding t using grant_resumed_core [of C fresh secret q r nonce s] by (simp add: core_def)
    with assms(2) p True step_crypto show thesis using resumed by auto
  next
    case False
    then have "ap_active t = ap_active s" unfolding t using crypto_core [of C b fresh secret q point s] by (simp add: core_def)
    with assms(2,3) show thesis by simp
  qed
next
  case (step_prepare i q tok' outcome)
  obtain u reply where u: "prepare_settles C outcome q tok' s = (u, reply)" by fastforce
  have "core t = core u" by (simp add: step_prepare(2) u)
  then have "core t \<in> {core s, core (expire C s)}" using prepare_core [of C outcome q tok' s] by (simp add: u)
  then show thesis
    using assms(2,3) winds_active [OF expire_winds, of C s tok] by (auto dest: core_active)
qed (use assms in simp_all)

text \<open>C13. A grant has one of two origins: the operator accepted a pending offer that had not run
  out, while the host was enabled and ready; or a resume was granted, for a request that carries the
  proof made with the secret of the authority the host still retains, from the consumer that
  authority names, before it expired and before the request's deadline, again while the host was
  enabled and ready, and the new grant ends when the authority would have.\<close>

theorem assistance_grant_origin:
  assumes "steps (assist_step C) (new_supplier C p now) ls s" "assist_step C s l t" "ap_active t = Some tok" "ap_active s \<noteq> Some tok"
  shows "ap_enabled s \<and> ap_ready s \<and>
    ((\<exists>secret ofr. l = Accepts tok secret \<and> jm_get (ap_offers s) tok = Some ofr \<and> of_status ofr = Pending \<and> ap_now s < of_deadline ofr)
     \<or> (\<exists>i secret q n r nonce ofr. l = CryptoSettles i True tok secret \<and> jm_get (ap_calls s) i = Some (q, ResumeProved n r nonce)
          \<and> ap_authority s = Some (n, r) \<and> ra_consumer r = aq_consumer q \<and> ap_now s < ra_expires r \<and> request_valid C q (ap_now s)
          \<and> resume_input q = Some (nonce, Some (JStr (resume_proof (sc_hmac C) (ra_secret r) ''request'' (sc_identity C) (aq_consumer q) nonce)))
          \<and> jm_get (ap_offers t) tok = Some ofr \<and> of_consumer ofr = aq_consumer q \<and> of_deadline ofr = ra_expires r))"
  using assms(2-4)
proof (cases rule: active_from)
  case (accepted secret)
  show ?thesis
  proof (cases rule: accept_offerE [of C secret tok s])
    case none
    with accepted show ?thesis by simp
  next
    case (grants ofr v)
    with accepted(1) show ?thesis by blast
  qed
next
  case (resumed i q point secret)
  then obtain n r nonce where p: "point = ResumeProved n r nonce" and g: "ap_enabled s" "ap_ready s" "map_option fst (ap_authority s) = Some n"
    "ap_now s < ra_expires r" "ap_now s < aq_deadline q" by (auto simp: resume_granted_def)
  have "point_ok C q point" using calls_okD(1) [OF calls_ok_run [OF assms(1)] resumed(2)] .
  then have q: "aq_version q = 1" "aq_identity q = sc_identity C" "aq_consumer q \<noteq> []" "ra_consumer r = aq_consumer q"
    "resume_input q = Some (nonce, Some (JStr (resume_proof (sc_hmac C) (ra_secret r) ''request'' (sc_identity C) (aq_consumer q) nonce)))"
    by (simp_all add: point_ok_def p)
  obtain r' where r': "ap_authority s = Some (n, r')" using g(3) by auto
  have "(n, r) \<in> captures s" using resumed(2) unfolding captures_def p by fastforce
  then have "r' = r" using authority_ok_run [OF assms(1)] r' unfolding authority_ok_def by metis
  moreover have "core t = core (fst (grant_resumed C tok secret q r nonce s))"
    using crypto_core [of C True tok secret q point s] resumed(4) unfolding resumed(5) proceed_core p by simp
  then have "jm_get (ap_offers t) tok = Some \<lparr>of_consumer = aq_consumer q, of_deadline = ra_expires r, of_epoch = ap_epoch s + 1, of_status = Accepted, of_reason = None\<rparr>"
    unfolding grant_resumed_core by (simp add: core_def jm_get_set)
  ultimately show ?thesis using resumed(1,2) p g q r' by (auto simp: request_valid_def)
qed

subsection \<open>A resume, and one that displaces a grant\<close>

text \<open>
  A host that starts with an authority but does not keep new ones (\<open>saveResume\<close> is not given). The
  first run resumes. In the second the operator accepts another consumer's offer while the resume
  waits for its proofs; the resume is granted all the same, the accepted grant stays accepted but
  is active no more. The final check of a resume does not look at \<open>active\<close>.
\<close>

definition old_authority :: resume_authority where
  "old_authority = \<lparr>ra_application = jlit ''app'', ra_workspace = jlit ''w'', ra_supplier = jlit ''A'', ra_consumer = jlit ''C'',
     ra_expires = 5000, ra_scope = resume_scope host_config, ra_secret = jlit ''k''\<rparr>"

definition stray_config :: "int assist_config" where
  "stray_config = host_config\<lparr>sc_resume := Some old_authority, sc_saves := False\<rparr>"

definition resume_request :: assistance_request where
  "resume_request = host_request ''resume'' None None (object [(''nonce'', JStr (jlit ''n'')),
     (''proof'', JStr (resume_proof (\<lambda>k m. m) (jlit ''k'') ''request'' (sc_identity host_config) (jlit ''C'') (jlit ''n'')))])"

definition other_offer :: assistance_request where
  "other_offer = (host_request ''offer'' None None JNull)\<lparr>aq_consumer := jlit ''D''\<rparr>"

definition stray_ready :: "int assist_supplier" where
  "stray_ready = receive_call stray_config (jlit ''x'') resume_request
     (receive_call stray_config (jlit ''d'') other_offer (set_ready stray_config True (enable stray_config True (new_supplier stray_config 7 0))))"

definition stray_asked :: "int assist_supplier" where
  "stray_asked = proceed 2 resume_request (crypto_settles stray_config True (jlit ''x'') [] resume_request
     (ResumeRequested 0 old_authority (jlit ''n'')
       (Some (JStr (resume_proof (\<lambda>k m. m) (jlit ''k'') ''request'' (sc_identity host_config) (jlit ''C'') (jlit ''n''))))) stray_ready)"

lemma resume_parsed: "resume_input resume_request = Some (jlit ''n'',
    Some (JStr (resume_proof (\<lambda>k m. m) (jlit ''k'') ''request'' (sc_identity host_config) (jlit ''C'') (jlit ''n''))))"
  by (simp add: resume_request_def host_request_def resume_input_def json_bytes_back as_string_def) (simp add: jlit_def)

lemma stray_ready_eq:
  "ap_enabled stray_ready" "ap_ready stray_ready" "ap_active stray_ready = None" "ap_authority stray_ready = Some (0, old_authority)"
  "ap_epoch stray_ready = 0" "ap_now stray_ready = 0" "ap_resuming stray_ready"
  "ap_offers stray_ready = [(jlit ''d'', \<lparr>of_consumer = jlit ''D'', of_deadline = 1000, of_epoch = 0, of_status = Pending, of_reason = None\<rparr>)]"
  "ap_calls stray_ready = [(2, resume_request, ResumeRequested 0 old_authority (jlit ''n'')
     (Some (JStr (resume_proof (\<lambda>k m. m) (jlit ''k'') ''request'' (sc_identity host_config) (jlit ''C'') (jlit ''n'')))))]"
proof -
  define u where "u = receive_call stray_config (jlit ''d'') other_offer (set_ready stray_config True (enable stray_config True (new_supplier stray_config 7 0)))"
  have i: "sc_identity stray_config = sc_identity host_config" "resume_scope stray_config = resume_scope host_config"
    by (simp_all add: stray_config_def resume_scope_def)
  have a: "initial_authority stray_config 0 = Some (0, old_authority)"
  proof -
    have "sc_resume stray_config = Some old_authority" by (simp add: stray_config_def)
    moreover have "ra_scope old_authority = resume_scope host_config" "ra_expires old_authority = 5000"
      "ra_application old_authority = jlit ''app''" "ra_workspace old_authority = jlit ''w''" "ra_supplier old_authority = jlit ''A''"
      by (simp_all add: old_authority_def)
    moreover have "ai_application (sc_identity host_config) = jlit ''app''" "ai_workspace (sc_identity host_config) = jlit ''w''"
      "ai_supplier (sc_identity host_config) = jlit ''A''" by (simp_all add: host_config_def)
    ultimately show ?thesis by (simp add: initial_authority_def i)
  qed
  have o: "request_valid stray_config other_offer 0" "aq_operation other_offer = jlit ''offer''" "aq_consumer other_offer = jlit ''D''" "aq_deadline other_offer = 1000"
    by (simp_all add: request_valid_def other_offer_def host_request_def i)
  have u: "ap_enabled u" "ap_ready u" "ap_active u = None" "ap_authority u = Some (0, old_authority)" "ap_epoch u = 0" "ap_now u = 0" "\<not> ap_resuming u"
    "ap_fresh u = 2" "ap_calls u = []"
    "ap_offers u = [(jlit ''d'', \<lparr>of_consumer = jlit ''D'', of_deadline = 1000, of_epoch = 0, of_status = Pending, of_reason = None\<rparr>)]"
    using o a by (simp_all add: u_def enable_def set_ready_def new_supplier_def receive_call_def receive_valid receive_offer_def proceed_def changed_def expire_def Let_def)
  have q: "request_valid stray_config resume_request 0" "aq_operation resume_request = jlit ''resume''" "aq_consumer resume_request = jlit ''C''"
    by (simp_all add: request_valid_def resume_request_def host_request_def i)
  have e: "expire stray_config (u\<lparr>ap_fresh := k\<rparr>) = u\<lparr>ap_fresh := k\<rparr>" for k by (simp add: expire_def expire_offer_def u)
  have "receive stray_config (jlit ''x'') resume_request (u\<lparr>ap_fresh := 3\<rparr>) = (u\<lparr>ap_fresh := 3, ap_resuming := True\<rparr>,
      Inr (ResumeRequested 0 old_authority (jlit ''n'') (Some (JStr (resume_proof (\<lambda>k m. m) (jlit ''k'') ''request'' (sc_identity host_config) (jlit ''C'') (jlit ''n''))))))"
    using q by (simp add: receive_valid u e Let_def begin_resume_def resume_parsed) (simp add: old_authority_def)
  moreover have "stray_ready = proceed 2 resume_request (receive stray_config (jlit ''x'') resume_request (u\<lparr>ap_fresh := 3\<rparr>))"
    unfolding stray_ready_def u_def [symmetric] by (simp add: receive_call_def u Let_def)
  ultimately have sr: "stray_ready = u\<lparr>ap_fresh := 3, ap_resuming := True, ap_calls := [(2, resume_request, ResumeRequested 0 old_authority (jlit ''n'')
      (Some (JStr (resume_proof (\<lambda>k m. m) (jlit ''k'') ''request'' (sc_identity host_config) (jlit ''C'') (jlit ''n'')))))]\<rparr>"
    using u by (simp add: proceed_def)
  show "ap_enabled stray_ready" "ap_ready stray_ready" "ap_active stray_ready = None" "ap_authority stray_ready = Some (0, old_authority)"
    "ap_epoch stray_ready = 0" "ap_now stray_ready = 0" "ap_resuming stray_ready"
    "ap_offers stray_ready = [(jlit ''d'', \<lparr>of_consumer = jlit ''D'', of_deadline = 1000, of_epoch = 0, of_status = Pending, of_reason = None\<rparr>)]"
    "ap_calls stray_ready = [(2, resume_request, ResumeRequested 0 old_authority (jlit ''n'')
     (Some (JStr (resume_proof (\<lambda>k m. m) (jlit ''k'') ''request'' (sc_identity host_config) (jlit ''C'') (jlit ''n'')))))]"
    unfolding sr using u by simp_all
qed

lemma stray_hmac: "sc_hmac stray_config = (\<lambda>k m. m)" "sc_identity stray_config = sc_identity host_config" "sc_saves stray_config = False"
  "sc_grant_ms stray_config = None" "aq_consumer resume_request = jlit ''C''" "aq_deadline resume_request = 1000" "ra_secret old_authority = jlit ''k''"
  "ra_expires old_authority = 5000"
  by (simp_all add: stray_config_def host_config_def resume_request_def host_request_def old_authority_def)

lemma stray_asked_eq: "stray_asked = stray_ready\<lparr>ap_calls := [(2, resume_request, ResumeProved 0 old_authority (jlit ''n''))]\<rparr>"
  by (simp add: stray_asked_def crypto_settles_def proceed_def stray_hmac stray_ready_eq)

definition stray_accepted :: "int assist_supplier" where
  "stray_accepted = accept_offer stray_config (jlit ''s'') (jlit ''d'') stray_asked"

lemma stray_accepted_eq:
  "ap_enabled stray_accepted" "ap_ready stray_accepted" "ap_active stray_accepted = Some (jlit ''d'')" "ap_authority stray_accepted = Some (0, old_authority)"
  "ap_now stray_accepted = 0"
  "ap_offers stray_accepted = [(jlit ''d'', \<lparr>of_consumer = jlit ''D'', of_deadline = 300000, of_epoch = 1, of_status = Accepted, of_reason = None\<rparr>)]"
  "ap_calls stray_accepted = [(2, resume_request, ResumeProved 0 old_authority (jlit ''n''))]"
proof -
  have "expire stray_config stray_asked = stray_asked" by (simp add: expire_def expire_offer_def stray_asked_eq stray_ready_eq)
  then show "ap_enabled stray_accepted" "ap_ready stray_accepted" "ap_active stray_accepted = Some (jlit ''d'')" "ap_authority stray_accepted = Some (0, old_authority)"
    "ap_now stray_accepted = 0"
    "ap_offers stray_accepted = [(jlit ''d'', \<lparr>of_consumer = jlit ''D'', of_deadline = 300000, of_epoch = 1, of_status = Accepted, of_reason = None\<rparr>)]"
    "ap_calls stray_accepted = [(2, resume_request, ResumeProved 0 old_authority (jlit ''n''))]"
    by (simp_all add: stray_accepted_def accept_offer_def stray_asked_eq stray_ready_eq Let_def remember_def stray_hmac changed_def busy_other_def)
qed

lemma resume_displaces_grant:
  "let t = proceed 2 resume_request (crypto_settles stray_config True (jlit ''x'') [] resume_request (ResumeProved 0 old_authority (jlit ''n'')) stray_accepted) in
     steps (assist_step stray_config) stray_accepted [CryptoSettles 2 True (jlit ''x'') []] t
     \<and> ap_active t = Some (jlit ''x'') \<and> map_option of_status (jm_get (ap_offers t) (jlit ''d'')) = Some Accepted"
proof -
  let ?t = "proceed 2 resume_request (crypto_settles stray_config True (jlit ''x'') [] resume_request (ResumeProved 0 old_authority (jlit ''n'')) stray_accepted)"
  have "steps (assist_step stray_config) stray_accepted [CryptoSettles 2 True (jlit ''x'') []] ?t"
    by (auto intro!: steps.intros step_crypto simp: stray_accepted_eq)
  moreover have "resume_granted stray_config True resume_request (ResumeProved 0 old_authority (jlit ''n'')) stray_accepted"
    by (simp add: resume_granted_def stray_accepted_eq stray_hmac)
  then have "core ?t = core (fst (grant_resumed stray_config (jlit ''x'') [] resume_request old_authority (jlit ''n'') stray_accepted))"
    unfolding proceed_core crypto_core by simp
  then have "ap_active ?t = Some (jlit ''x'')" "jm_get (ap_offers ?t) (jlit ''d'') = jm_get (ap_offers stray_accepted) (jlit ''d'')"
    unfolding grant_resumed_core by (simp_all add: core_def jm_get_set)
  ultimately show ?thesis by (simp add: Let_def stray_accepted_eq)
qed

theorem assistance_grant_origin_witness:
  "\<exists>ofr. jm_get (ap_offers host_offered) (jlit ''t'') = Some ofr \<and> of_status ofr = Pending \<and> ap_now host_offered < of_deadline ofr"
proof -
  let ?t = "accept_offer host_config (jlit ''s'') (jlit ''t'') host_offered"
  have "jm_get (ap_offers (set_ready host_config True (enable host_config True (new_supplier host_config 7 0)))) (jlit ''t'') = None"
    by (simp add: host_eval)
  then have run: "steps (assist_step host_config) (new_supplier host_config 7 0)
      [Enables True, SetsReady True, Receives (host_request ''offer'' None None JNull) (jlit ''t'')] host_offered"
    by (auto simp: host_offered_def intro!: steps.intros assist_step.intros)
  have "ap_active ?t = Some (jlit ''t'')" by (subst host_offered_eq) (simp add: host_eval)
  moreover have "ap_active host_offered \<noteq> Some (jlit ''t'')" by (subst host_offered_eq) simp
  ultimately show ?thesis
    using assistance_grant_origin [OF run step_accept [of host_config host_offered "jlit ''t''" "jlit ''s''"]] by blast
qed

end
