(* ===== verification/Assistance_Consumer.thy ===== *)
theory Assistance_Consumer
  imports Assistance_Wire Steps
begin

text \<open>
  The consumer side of assistance, \<open>AssistanceConsumer\<close> of \<open>src/assistance/index.ts\<close>: one pairing
  with a supplier. It asks for a grant, reads and invokes under it, ends it, and moves it to a new
  generation of the supplier by a resume.

  Its methods are asynchronous; like the supplier's they are steps that run to an \<open>await\<close>, and
  resumptions whose labels say how the promise settled. What is sent goes through a route, the
  function \<open>call\<close> that the consumer holds or is given, and is kept in \<open>cs_sent\<close>. The result that is the
  grant is compared by identity, so each adoption numbers it; a result is taken to be adopted once.
\<close>

subsection \<open>State\<close>

text \<open>\<open>cc_number\<close> reads a time from its JSON literal.\<close>

record consumer_config =
  cc_consumer :: jstr
  cc_hmac :: "bytes \<Rightarrow> bytes \<Rightarrow> bytes"
  cc_number :: "jstr \<Rightarrow> int"

datatype consumer_reply = Gives assistance_result | Verified bool | Rejects

text \<open>What a method does with the result of its request.\<close>

datatype request_kind = PlainRequest | StatusRequest | InvokeRequest

text \<open>
  Where a method waits: for a proof (of a lineage, to sign a probe or a resume, to check the
  answer), or for the answer to what it sent. \<open>Checking\<close> holds the proof that the answer gave.
\<close>

datatype 'c consumer_task =
  LineageChecking resume_authority assistance_identity int jstr
| ProbeSigning assistance_identity 'c resume_authority jstr
| ProbeCalling assistance_identity resume_authority jstr
| ProbeChecking assistance_identity resume_authority jstr "json option"
| ResumeSigning assistance_identity 'c resume_authority jstr "nat \<times> assistance_result"
| ResumeCalling assistance_identity 'c resume_authority jstr "nat \<times> assistance_result"
| ResumeChecking assistance_identity 'c resume_authority jstr "nat \<times> assistance_result" assistance_result "json option"
| ResumeEnding
| Requesting request_kind "jstr option"
| EndCalling jstr

record 'c consumer =
  cs_identity :: assistance_identity
  cs_route :: 'c
  cs_grant :: "(nat \<times> assistance_result) option"
  cs_ended :: "(jstr \<times> assistance_result) list"
  cs_unresolved :: bool
  cs_disconnected :: bool
  cs_resuming :: bool
  cs_resume_unresolved :: bool
  cs_attempted :: "jstr list"
  cs_now :: int
  cs_fresh :: nat
  cs_tasks :: "(nat \<times> 'c consumer_task) list"
  cs_sent :: "(nat \<times> 'c \<times> assistance_request) list"
  cs_replies :: "(nat \<times> consumer_reply) list"

definition new_consumer :: "assistance_identity \<Rightarrow> 'c \<Rightarrow> int \<Rightarrow> 'c consumer" where
  "new_consumer i route now = \<lparr>cs_identity = i, cs_route = route, cs_grant = None, cs_ended = [], cs_unresolved = False, cs_disconnected = False,
     cs_resuming = False, cs_resume_unresolved = False, cs_attempted = [], cs_now = now, cs_fresh = 0, cs_tasks = [], cs_sent = [], cs_replies = []\<rparr>"

subsection \<open>The grant\<close>

text \<open>
  The authority in a grant's payload. The result comes from the supplier, so a \<open>resume\<close> member is
  taken to be an authority with the members of its type, or to be absent.
\<close>

definition read_authority :: "consumer_config \<Rightarrow> json \<Rightarrow> resume_authority option" where
  "read_authority C v =
     (case (map (\<lambda>k. as_string (member k v)) [''application'', ''workspace'', ''supplier'', ''consumer'', ''scope'', ''secret''], member ''expires'' v) of
        ([Some a, Some w, Some s, Some c, Some sc, Some k], Some (JNum l)) \<Rightarrow>
          Some \<lparr>ra_application = a, ra_workspace = w, ra_supplier = s, ra_consumer = c, ra_expires = cc_number C l, ra_scope = sc, ra_secret = k\<rparr>
      | _ \<Rightarrow> None)"

text \<open>\<open>this.grant && value(this.grant).resume\<close>: \<open>Inl\<close> when it throws.\<close>

definition grant_authority :: "consumer_config \<Rightarrow> 'c consumer \<Rightarrow> unit + resume_authority option" where
  "grant_authority C s =
     (case cs_grant s of
        None \<Rightarrow> Inr None
      | Some (n, g) \<Rightarrow> (case result_value g of
            None \<Rightarrow> Inl ()
          | Some JNull \<Rightarrow> Inl ()
          | Some v \<Rightarrow> Inr (Option.bind (member ''resume'' v) (read_authority C))))"

definition authority_for :: "consumer_config \<Rightarrow> assistance_identity \<Rightarrow> resume_authority \<Rightarrow> 'c consumer \<Rightarrow> bool" where
  "authority_for C i r s \<longleftrightarrow> cs_now s < ra_expires r \<and> ra_consumer r = cc_consumer C
     \<and> ra_application r = ai_application i \<and> ra_workspace r = ai_workspace i \<and> ra_supplier r = ai_supplier i"

definition grant_token :: "'c consumer \<Rightarrow> jstr option" where
  "grant_token s = (case cs_grant s of None \<Rightarrow> None | Some (n, g) \<Rightarrow> ar_token g)"

definition grant_epoch :: "'c consumer \<Rightarrow> int option" where
  "grant_epoch s = (case cs_grant s of None \<Rightarrow> None | Some (n, g) \<Rightarrow> ar_epoch g)"

definition adopt :: "assistance_result \<Rightarrow> 'c consumer \<Rightarrow> 'c consumer" where
  "adopt g s =
     (case ar_token g of
        None \<Rightarrow> s
      | Some t \<Rightarrow> if ar_status g = jlit ''accepted'' \<and> t \<noteq> [] \<and> jm_get (cs_ended s) t = None
                  then s\<lparr>cs_grant := Some (cs_fresh s, g), cs_fresh := cs_fresh s + 1\<rparr> else s)"

definition ended_result :: "jstr option \<Rightarrow> string \<Rightarrow> assistance_result" where
  "ended_result tok reason = (assist_result ''ended'' (object [(''remoteConfirmed'', JBool False)]))\<lparr>ar_token := tok, ar_reason := Some (jlit reason)\<rparr>"

definition ended_at :: "jstr option \<Rightarrow> 'c consumer \<Rightarrow> assistance_result option" where
  "ended_at tok s = (case tok of None \<Rightarrow> None | Some t \<Rightarrow> if t = [] then None else jm_get (cs_ended s) t)"

subsection \<open>Starting, sending and answering\<close>

text \<open>A method call \<open>i\<close> is answered, or waits.\<close>

definition answers :: "nat \<Rightarrow> consumer_reply \<Rightarrow> 'c consumer \<Rightarrow> 'c consumer" where
  "answers i reply s = s\<lparr>cs_tasks := jm_delete i (cs_tasks s), cs_replies := cs_replies s @ [(i, reply)]\<rparr>"

definition waits :: "nat \<Rightarrow> 'c consumer_task \<Rightarrow> 'c consumer \<Rightarrow> 'c consumer" where
  "waits i task s = s\<lparr>cs_tasks := jm_set i task (cs_tasks s)\<rparr>"

definition send :: "nat \<Rightarrow> 'c \<Rightarrow> assistance_request \<Rightarrow> 'c consumer \<Rightarrow> 'c consumer" where
  "send i route q s = s\<lparr>cs_sent := cs_sent s @ [(i, route, q)]\<rparr>"

definition make_request :: "consumer_config \<Rightarrow> assistance_identity \<Rightarrow> string \<Rightarrow> int \<Rightarrow> jstr option \<Rightarrow> int option \<Rightarrow> json \<Rightarrow> 'c consumer \<Rightarrow> assistance_request" where
  "make_request C i operation wait tok epoch payload s =
     \<lparr>aq_version = 1, aq_identity = i, aq_consumer = cc_consumer C, aq_operation = jlit operation, aq_deadline = cs_now s + wait,
      aq_token = tok, aq_epoch = epoch, aq_payload = json_bytes payload\<rparr>"

text \<open>A result that \<open>request\<close> gives, passed on by the method that asked for it.\<close>

definition conclude :: "nat \<Rightarrow> request_kind \<Rightarrow> assistance_result \<Rightarrow> 'c consumer \<Rightarrow> 'c consumer" where
  "conclude i kind out s =
     answers i (Gives out)
       (case kind of
          PlainRequest \<Rightarrow> s
        | StatusRequest \<Rightarrow> adopt out s
        | InvokeRequest \<Rightarrow> if ar_status out \<noteq> jlit ''unknown'' then s\<lparr>cs_unresolved := False\<rparr> else s)"

definition request :: "consumer_config \<Rightarrow> nat \<Rightarrow> request_kind \<Rightarrow> string \<Rightarrow> json \<Rightarrow> jstr option \<Rightarrow> 'c consumer \<Rightarrow> 'c consumer" where
  "request C i kind operation payload tok s =
     (case ended_at tok s of
        Some e \<Rightarrow> conclude i kind e s
      | None \<Rightarrow>
          if cs_disconnected s then conclude i kind (ended_result tok ''disconnected'') s
          else waits i (Requesting kind tok)
            (send i (cs_route s) (make_request C (cs_identity s) operation (if operation = ''offer'' then 60000 else 10000) tok (grant_epoch s) payload s) s))"

text \<open>The code of \<open>request\<close> after its \<open>await\<close>; \<open>None\<close> for a call that rejects.\<close>

definition request_settles :: "nat \<Rightarrow> request_kind \<Rightarrow> jstr option \<Rightarrow> assistance_result option \<Rightarrow> 'c consumer \<Rightarrow> 'c consumer" where
  "request_settles i kind tok result s =
     (case result of
        None \<Rightarrow> conclude i kind (assist_reason ''unknown'' (jlit ''transport outcome unknown; manual handling required'')) s
      | Some out \<Rightarrow>
          (case ended_at tok s of
             Some e \<Rightarrow> conclude i kind e s
           | None \<Rightarrow>
               if cs_disconnected s then conclude i kind (ended_result tok ''disconnected'') s
               else conclude i kind out
                 (case tok of
                    Some t \<Rightarrow> if ar_status out = jlit ''ended'' \<and> t \<noteq> [] then s\<lparr>cs_ended := jm_set t out (cs_ended s), cs_grant := None\<rparr> else s
                  | None \<Rightarrow> s)))"

subsection \<open>Methods\<close>

definition consumer_offer :: "consumer_config \<Rightarrow> nat \<Rightarrow> 'c consumer \<Rightarrow> 'c consumer" where
  "consumer_offer C i s = request C i PlainRequest ''offer'' JNull (grant_token s) s"

definition consumer_status :: "consumer_config \<Rightarrow> nat \<Rightarrow> jstr \<Rightarrow> 'c consumer \<Rightarrow> 'c consumer" where
  "consumer_status C i tok s = request C i StatusRequest ''status'' JNull (Some tok) s"

definition consumer_read :: "consumer_config \<Rightarrow> nat \<Rightarrow> 'c consumer \<Rightarrow> 'c consumer" where
  "consumer_read C i s =
     (if cs_grant s \<noteq> None then request C i PlainRequest ''read'' JNull (grant_token s) s
      else answers i (Gives (assist_result ''ended'' JNull)) s)"

text \<open>An expected observation is its sequence and revision; the arguments are JSON.\<close>

definition consumer_invoke :: "consumer_config \<Rightarrow> nat \<Rightarrow> jstr \<Rightarrow> json \<Rightarrow> json \<Rightarrow> jstr \<Rightarrow> 'c consumer \<Rightarrow> 'c consumer" where
  "consumer_invoke C i action args sequence revision s =
     (if cs_grant s = None then answers i (Gives (assist_result ''ended'' JNull)) s
      else if cs_unresolved s
      then answers i (Gives (assist_reason ''unknown'' (jlit ''previous action unresolved; manually abandon or end pairing''))) s
      else request C i InvokeRequest ''invoke'' (object [(''action'', JStr action), (''args'', args),
             (''expected'', object [(''sequence'', sequence), (''revision'', JStr revision)])]) (grant_token s) (s\<lparr>cs_unresolved := True\<rparr>))"

definition abandon :: "'c consumer \<Rightarrow> 'c consumer" where
  "abandon s = s\<lparr>cs_unresolved := False\<rparr>"

definition disconnect :: "'c consumer \<Rightarrow> 'c consumer" where
  "disconnect s =
     (let s = s\<lparr>cs_disconnected := True\<rparr>;
          s = (case grant_token s of
                 Some t \<Rightarrow> if t \<noteq> [] then s\<lparr>cs_ended := jm_set t (ended_result (Some t) ''disconnected'') (cs_ended s)\<rparr> else s
               | None \<Rightarrow> s)
      in s\<lparr>cs_grant := None, cs_unresolved := False\<rparr>)"

definition consumer_end :: "consumer_config \<Rightarrow> nat \<Rightarrow> jstr \<Rightarrow> 'c consumer \<Rightarrow> 'c consumer" where
  "consumer_end C i tok s =
     (case jm_get (cs_ended s) tok of
        Some e \<Rightarrow> answers i (Gives e) s
      | None \<Rightarrow>
          (let q = make_request C (cs_identity s) ''end'' 10000 (Some tok) (grant_epoch s) JNull s
           in waits i (EndCalling tok) (send i (cs_route s) q
                (s\<lparr>cs_ended := jm_set tok (ended_result (Some tok) ''consumer ended'') (cs_ended s), cs_grant := None, cs_unresolved := False\<rparr>))))"

text \<open>\<open>ended\<close> is the object that the map holds.\<close>

definition end_settles :: "nat \<Rightarrow> jstr \<Rightarrow> assistance_result option \<Rightarrow> 'c consumer \<Rightarrow> 'c consumer" where
  "end_settles i tok result s =
     (let ended = the (jm_get (cs_ended s) tok);
          ended = (case result of None \<Rightarrow> ended
                   | Some remote \<Rightarrow> ended\<lparr>ar_payload := json_bytes (object [(''remoteConfirmed'', JBool (ar_status remote = jlit ''ended''))])\<rparr>)
      in answers i (Gives ended) (s\<lparr>cs_ended := jm_set tok ended (cs_ended s)\<rparr>))"

subsection \<open>Lineage and probe\<close>

text \<open>A claim that is not an integer sequence with a string proof is \<open>None\<close>.\<close>

definition verifies_lineage :: "consumer_config \<Rightarrow> nat \<Rightarrow> assistance_identity \<Rightarrow> (int \<times> jstr) option \<Rightarrow> 'c consumer \<Rightarrow> 'c consumer" where
  "verifies_lineage C i ident claim s =
     (case grant_authority C s of
        Inl _ \<Rightarrow> answers i Rejects s
      | Inr a \<Rightarrow>
          (case (a, claim) of
             (Some r, Some (sequence, given)) \<Rightarrow>
               if cs_disconnected s \<or> \<not> authority_for C ident r s \<or> \<not> is_safe_integer sequence \<or> sequence < 1
               then answers i (Verified False) s
               else waits i (LineageChecking r ident sequence given) s
           | _ \<Rightarrow> answers i (Verified False) s))"

definition lineage_checked :: "consumer_config \<Rightarrow> nat \<Rightarrow> bool \<Rightarrow> resume_authority \<Rightarrow> assistance_identity \<Rightarrow> int \<Rightarrow> jstr \<Rightarrow> 'c consumer \<Rightarrow> 'c consumer" where
  "lineage_checked C i ok r ident sequence given s =
     (case sign_resume_lineage (cc_hmac C) r ident sequence of
        None \<Rightarrow> answers i Rejects s
      | Some (n, signature) \<Rightarrow> if \<not> ok then answers i Rejects s else answers i (Verified (given = signature)) s)"

definition refuses :: "nat \<Rightarrow> 'c consumer \<Rightarrow> 'c consumer" where
  "refuses i s = answers i (Gives (assist_result ''refused'' JNull)) s"

definition proof_payload :: "jstr \<Rightarrow> jstr \<Rightarrow> json" where
  "proof_payload nonce signature = object [(''nonce'', JStr nonce), (''proof'', JStr signature)]"

text \<open>\<open>nonce\<close> is what \<open>crypto.randomUUID\<close> gives.\<close>

definition probe_resume :: "consumer_config \<Rightarrow> nat \<Rightarrow> assistance_identity \<Rightarrow> 'c \<Rightarrow> jstr \<Rightarrow> 'c consumer \<Rightarrow> 'c consumer" where
  "probe_resume C i ident route nonce s =
     (case grant_authority C s of
        Inl _ \<Rightarrow> answers i Rejects s
      | Inr None \<Rightarrow> refuses i s
      | Inr (Some r) \<Rightarrow> if cs_disconnected s \<or> \<not> authority_for C ident r s then refuses i s else waits i (ProbeSigning ident route r nonce) s)"

definition probe_unknown :: "nat \<Rightarrow> 'c consumer \<Rightarrow> 'c consumer" where
  "probe_unknown i s = answers i (Gives (assist_reason ''unknown'' (jlit ''resume probe outcome unknown''))) s"

definition probe_signed :: "consumer_config \<Rightarrow> nat \<Rightarrow> bool \<Rightarrow> assistance_identity \<Rightarrow> 'c \<Rightarrow> resume_authority \<Rightarrow> jstr \<Rightarrow> 'c consumer \<Rightarrow> 'c consumer" where
  "probe_signed C i ok ident route r nonce s =
     (if \<not> ok then probe_unknown i s
      else waits i (ProbeCalling ident r nonce) (send i route (make_request C ident ''probeResume'' 10000 None None
             (proof_payload nonce (resume_proof (cc_hmac C) (ra_secret r) ''probe-request'' ident (cc_consumer C) nonce)) s) s))"

definition no_provider :: "jstr option \<Rightarrow> bool" where
  "no_provider reason \<longleftrightarrow> (let p = jlit ''no authority provider attached for '' in take (length p) (case reason of None \<Rightarrow> [] | Some t \<Rightarrow> t) = p)"

definition probe_called :: "nat \<Rightarrow> assistance_result option \<Rightarrow> assistance_identity \<Rightarrow> resume_authority \<Rightarrow> jstr \<Rightarrow> 'c consumer \<Rightarrow> 'c consumer" where
  "probe_called i result ident r nonce s =
     (case result of
        None \<Rightarrow> probe_unknown i s
      | Some out \<Rightarrow>
          if ar_status out = jlit ''unknown'' \<and> no_provider (ar_reason out) then answers i (Gives (assist_result ''unavailable'' JNull)) s
          else if ar_status out = jlit ''unknown'' then answers i (Gives out) s
          else if ar_status out \<noteq> jlit ''available'' then refuses i s
          else (case result_value out of
                  None \<Rightarrow> probe_unknown i s
                | Some v \<Rightarrow> waits i (ProbeChecking ident r nonce (member ''proof'' v)) s))"

definition probe_checked :: "consumer_config \<Rightarrow> nat \<Rightarrow> bool \<Rightarrow> assistance_identity \<Rightarrow> resume_authority \<Rightarrow> jstr \<Rightarrow> json option \<Rightarrow> 'c consumer \<Rightarrow> 'c consumer" where
  "probe_checked C i ok ident r nonce given s =
     (if \<not> ok then probe_unknown i s
      else if given \<noteq> Some (JStr (resume_proof (cc_hmac C) (ra_secret r) ''probe-response'' ident (cc_consumer C) nonce)) then refuses i s
      else answers i (Gives (assist_result ''available'' JNull)) s)"

subsection \<open>Resume\<close>

definition resume_unknown :: "nat \<Rightarrow> 'c consumer \<Rightarrow> 'c consumer" where
  "resume_unknown i s = answers i (Gives (assist_reason ''unknown'' (jlit ''resume outcome unknown; explicit pairing required'')))
     (s\<lparr>cs_resume_unresolved := True, cs_resuming := False\<rparr>)"

definition consumer_resume :: "consumer_config \<Rightarrow> nat \<Rightarrow> assistance_identity \<Rightarrow> 'c \<Rightarrow> jstr \<Rightarrow> 'c consumer \<Rightarrow> 'c consumer" where
  "consumer_resume C i ident route nonce s =
     (case grant_authority C s of
        Inl _ \<Rightarrow> answers i Rejects s
      | Inr a \<Rightarrow>
          if cs_resume_unresolved s
          then answers i (Gives (assist_reason ''unknown'' (jlit ''previous resume outcome unknown; explicit pairing required''))) s
          else (case (a, cs_grant s) of
                  (Some r, Some original) \<Rightarrow>
                    if cs_disconnected s \<or> cs_resuming s \<or> ai_generation ident \<in> set (cs_attempted s) \<or> \<not> authority_for C ident r s
                       \<or> ai_generation ident = ai_generation (cs_identity s)
                    then refuses i s
                    else waits i (ResumeSigning ident route r nonce original)
                           (s\<lparr>cs_attempted := js_add (ai_generation ident) (cs_attempted s), cs_resuming := True\<rparr>)
                | _ \<Rightarrow> refuses i s))"

definition resume_signed :: "consumer_config \<Rightarrow> nat \<Rightarrow> bool \<Rightarrow> assistance_identity \<Rightarrow> 'c \<Rightarrow> resume_authority \<Rightarrow> jstr \<Rightarrow> nat \<times> assistance_result \<Rightarrow> 'c consumer \<Rightarrow> 'c consumer" where
  "resume_signed C i ok ident route r nonce original s =
     (if \<not> ok then resume_unknown i s
      else waits i (ResumeCalling ident route r nonce original) (send i route (make_request C ident ''resume'' 10000 None None
             (proof_payload nonce (resume_proof (cc_hmac C) (ra_secret r) ''request'' ident (cc_consumer C) nonce)) s) s))"

definition resume_called :: "nat \<Rightarrow> assistance_result option \<Rightarrow> assistance_identity \<Rightarrow> 'c \<Rightarrow> resume_authority \<Rightarrow> jstr \<Rightarrow> nat \<times> assistance_result \<Rightarrow> 'c consumer \<Rightarrow> 'c consumer" where
  "resume_called i result ident route r nonce original s =
     (case result of
        None \<Rightarrow> resume_unknown i s
      | Some out \<Rightarrow>
          if ar_status out = jlit ''unknown'' then answers i (Gives out) (s\<lparr>cs_resume_unresolved := True, cs_resuming := False\<rparr>)
          else if ar_status out \<noteq> jlit ''accepted'' \<or> ar_token out = None \<or> ar_token out = Some [] \<or> ar_expires out \<noteq> ar_expires (snd original)
          then refuses i (s\<lparr>cs_resuming := False\<rparr>)
          else (case result_value out of
                  None \<Rightarrow> resume_unknown i s
                | Some JNull \<Rightarrow> resume_unknown i s
                | Some v \<Rightarrow> waits i (ResumeChecking ident route r nonce original out (member ''proof'' v)) s))"

definition resume_checked :: "consumer_config \<Rightarrow> nat \<Rightarrow> bool \<Rightarrow> assistance_identity \<Rightarrow> 'c \<Rightarrow> resume_authority \<Rightarrow> jstr \<Rightarrow> nat \<times> assistance_result
    \<Rightarrow> assistance_result \<Rightarrow> json option \<Rightarrow> 'c consumer \<Rightarrow> 'c consumer" where
  "resume_checked C i ok ident route r nonce original out given s =
     (if \<not> ok then resume_unknown i s
      else if given \<noteq> Some (JStr (resume_proof (cc_hmac C) (ra_secret r) ''response'' ident (cc_consumer C) nonce))
      then refuses i (s\<lparr>cs_resuming := False\<rparr>)
      else if cs_disconnected s \<or> map_option fst (cs_grant s) \<noteq> Some (fst original)
      then waits i ResumeEnding (send i route (make_request C ident ''end'' 10000 (ar_token out) (ar_epoch out) JNull s) s)
      else answers i (Gives out) (adopt out (s\<lparr>cs_identity := ident, cs_route := route, cs_resuming := False\<rparr>)))"

definition resume_ended :: "nat \<Rightarrow> 'c consumer \<Rightarrow> 'c consumer" where
  "resume_ended i s = refuses i (s\<lparr>cs_resuming := False\<rparr>)"

subsection \<open>Steps\<close>

text \<open>The resumption of a task at a proof, and at an answer.\<close>

fun proof_settles :: "consumer_config \<Rightarrow> nat \<Rightarrow> bool \<Rightarrow> 'c consumer_task \<Rightarrow> ('c consumer \<Rightarrow> 'c consumer) option" where
  "proof_settles C i ok (LineageChecking r ident sequence given) = Some (lineage_checked C i ok r ident sequence given)"
| "proof_settles C i ok (ProbeSigning ident route r nonce) = Some (probe_signed C i ok ident route r nonce)"
| "proof_settles C i ok (ProbeChecking ident r nonce given) = Some (probe_checked C i ok ident r nonce given)"
| "proof_settles C i ok (ResumeSigning ident route r nonce original) = Some (resume_signed C i ok ident route r nonce original)"
| "proof_settles C i ok (ResumeChecking ident route r nonce original out given) = Some (resume_checked C i ok ident route r nonce original out given)"
| "proof_settles C i ok _ = None"

fun reply_settles :: "nat \<Rightarrow> assistance_result option \<Rightarrow> 'c consumer_task \<Rightarrow> ('c consumer \<Rightarrow> 'c consumer) option" where
  "reply_settles i result (ProbeCalling ident r nonce) = Some (probe_called i result ident r nonce)"
| "reply_settles i result (ResumeCalling ident route r nonce original) = Some (resume_called i result ident route r nonce original)"
| "reply_settles i result ResumeEnding = Some (resume_ended i)"
| "reply_settles i result (Requesting kind tok) = Some (request_settles i kind tok result)"
| "reply_settles i result (EndCalling tok) = Some (end_settles i tok result)"
| "reply_settles i result _ = None"

datatype 'c consumer_label =
  Offers | AsksStatus jstr | Reads | Invokes jstr json json jstr | EndsPairing jstr
| ChecksLineage assistance_identity "(int \<times> jstr) option"
| Probes assistance_identity 'c jstr | Resumes assistance_identity 'c jstr
| Adopts assistance_result | Abandons | Disconnects | TimePasses int
| ProofSettles nat bool | ReplyArrives nat "assistance_result option"

text \<open>The method that a label calls, as call \<open>i\<close>.\<close>

fun calls :: "consumer_config \<Rightarrow> nat \<Rightarrow> 'c consumer_label \<Rightarrow> ('c consumer \<Rightarrow> 'c consumer) option" where
  "calls C i Offers = Some (consumer_offer C i)"
| "calls C i (AsksStatus tok) = Some (consumer_status C i tok)"
| "calls C i Reads = Some (consumer_read C i)"
| "calls C i (Invokes action args sequence revision) = Some (consumer_invoke C i action args sequence revision)"
| "calls C i (EndsPairing tok) = Some (consumer_end C i tok)"
| "calls C i (ChecksLineage ident claim) = Some (verifies_lineage C i ident claim)"
| "calls C i (Probes ident route nonce) = Some (probe_resume C i ident route nonce)"
| "calls C i (Resumes ident route nonce) = Some (consumer_resume C i ident route nonce)"
| "calls C i _ = None"

inductive consumer_step :: "consumer_config \<Rightarrow> 'c consumer \<Rightarrow> 'c consumer_label \<Rightarrow> 'c consumer \<Rightarrow> bool" for C where
  step_call: "calls C (cs_fresh s) l = Some f \<Longrightarrow> consumer_step C s l (f (s\<lparr>cs_fresh := cs_fresh s + 1\<rparr>))"
| step_adopt: "consumer_step C s (Adopts g) (adopt g s)"
| step_abandon: "consumer_step C s Abandons (abandon s)"
| step_disconnect: "consumer_step C s Disconnects (disconnect s)"
| step_time: "consumer_step C s (TimePasses n) (s\<lparr>cs_now := n\<rparr>)"
| step_proof: "jm_get (cs_tasks s) i = Some task \<Longrightarrow> proof_settles C i ok task = Some f \<Longrightarrow> consumer_step C s (ProofSettles i ok) (f s)"
| step_reply: "jm_get (cs_tasks s) i = Some task \<Longrightarrow> reply_settles i result task = Some f \<Longrightarrow> consumer_step C s (ReplyArrives i result) (f s)"

end
