(* ===== verification/Consumer_Safety.thy ===== *)
theory Consumer_Safety
  imports Assistance_Consumer
begin

text \<open>
  What the assistance consumer guarantees: what it has ended or lost it never uses again, and it
  does not invoke while an earlier invocation's outcome is open.
\<close>

lemmas consumer_handlers =
  consumer_offer_def consumer_status_def consumer_read_def consumer_end_def end_settles_def
  verifies_lineage_def lineage_checked_def refuses_def probe_resume_def probe_unknown_def probe_signed_def probe_called_def
  probe_checked_def resume_unknown_def consumer_resume_def resume_signed_def resume_called_def resume_checked_def resume_ended_def

subsection \<open>Revocation\<close>

text \<open>The operations that use a pairing; a probe, a resume and an end do not.\<close>

definition uses_pairing :: "assistance_request \<Rightarrow> bool" where
  "uses_pairing q \<longleftrightarrow> aq_operation q \<in> {jlit ''offer'', jlit ''status'', jlit ''read'', jlit ''invoke''}"

definition polite :: "'c consumer \<Rightarrow> assistance_request \<Rightarrow> bool" where
  "polite s q \<longleftrightarrow> (uses_pairing q \<longrightarrow> \<not> cs_disconnected s \<and> ended_at (aq_token q) s = None)"

text \<open>From \<open>s\<close> to \<open>t\<close> nothing revoked comes back, and what is sent is polite in \<open>s\<close>.\<close>

definition grows :: "'c consumer \<Rightarrow> 'c consumer \<Rightarrow> bool" where
  "grows s t \<longleftrightarrow> (cs_disconnected s \<longrightarrow> cs_disconnected t) \<and> (\<forall>k. jm_get (cs_ended s) k \<noteq> None \<longrightarrow> jm_get (cs_ended t) k \<noteq> None)
     \<and> (\<exists>new. cs_sent t = cs_sent s @ new \<and> (\<forall>(i, route, q) \<in> set new. polite s q))"

named_theorems grows_intros \<open>steps of a handler along \<open>grows\<close>\<close>

lemma grows_refl [grows_intros]: "grows s s"
  by (simp add: grows_def)

lemma grows_frame:
  "grows s t \<Longrightarrow> cs_disconnected u = cs_disconnected t \<Longrightarrow> cs_ended u = cs_ended t \<Longrightarrow> cs_sent u = cs_sent t \<Longrightarrow> grows s u"
  by (simp add: grows_def)

lemma grows_answers [grows_intros]: "grows s t \<Longrightarrow> grows s (answers i r t)"
  by (erule grows_frame) (simp_all add: answers_def)

lemma grows_waits [grows_intros]: "grows s t \<Longrightarrow> grows s (waits i task t)"
  by (erule grows_frame) (simp_all add: waits_def)

lemma grows_send: "grows s t \<Longrightarrow> polite s q \<Longrightarrow> grows s (send i route q t)"
  by (auto simp: grows_def send_def)

lemma grows_adopt [grows_intros]: "grows s t \<Longrightarrow> grows s (adopt g t)"
  by (erule grows_frame) (simp_all add: adopt_def split: option.split)

lemma grows_updates [grows_intros]:
  assumes "grows s t"
  shows "grows s (t\<lparr>cs_unresolved := b\<rparr>)" "grows s (t\<lparr>cs_grant := g\<rparr>)" "grows s (t\<lparr>cs_resume_unresolved := b\<rparr>)"
    "grows s (t\<lparr>cs_resuming := b\<rparr>)" "grows s (t\<lparr>cs_attempted := m\<rparr>)" "grows s (t\<lparr>cs_identity := j\<rparr>)" "grows s (t\<lparr>cs_route := r\<rparr>)"
    "grows s (t\<lparr>cs_now := n\<rparr>)" "grows s (t\<lparr>cs_disconnected := True\<rparr>)"
  using assms by (auto simp: grows_def)

lemma grows_ended [grows_intros]: "grows s t \<Longrightarrow> grows s (t\<lparr>cs_ended := jm_set k e (cs_ended u)\<rparr>)" if "cs_ended u = cs_ended t"
  using that by (auto simp: grows_def jm_get_set)

lemma grows_fresh: "grows (s\<lparr>cs_fresh := n\<rparr>) t \<longleftrightarrow> grows s t"
proof -
  have "ended_at tok (s\<lparr>cs_fresh := n\<rparr>) = ended_at tok s" for tok by (simp add: ended_at_def split: option.split)
  then show ?thesis by (simp add: grows_def polite_def)
qed

lemma grows_conclude [grows_intros]: "grows s t \<Longrightarrow> grows s (conclude i kind out t)"
  by (auto simp: conclude_def intro!: grows_intros split: request_kind.split)

lemma polite_internal:
  "operation \<in> {''probeResume'', ''resume'', ''end''} \<Longrightarrow> polite s (make_request C ident operation wait tok epoch payload t)"
  by (auto simp: polite_def uses_pairing_def make_request_def)

lemma grows_request [grows_intros]: "s' = s \<or> s' = s\<lparr>cs_unresolved := b\<rparr> \<Longrightarrow> grows s (request C i kind operation payload tok s')"
proof -
  assume s': "s' = s \<or> s' = s\<lparr>cs_unresolved := b\<rparr>"
  then have g: "grows s s'" by (auto intro: grows_intros)
  have "ended_at tok s' = ended_at tok s" "cs_disconnected s' = cs_disconnected s" using s' by (auto simp: ended_at_def split: option.split)
  then have "ended_at tok s' = None \<Longrightarrow> \<not> cs_disconnected s' \<Longrightarrow> polite s (make_request C j operation n tok e payload s')" for j n e
    by (simp add: polite_def make_request_def)
  with g show ?thesis by (auto simp: request_def intro!: grows_intros grows_send split: option.split)
qed

lemma grows_request_settles: "grows s (request_settles i kind tok result s)"
  by (auto simp: request_settles_def intro!: grows_intros split: option.split)

lemma grows_invoke: "grows s (consumer_invoke C i action args sequence revision s)"
  unfolding consumer_invoke_def by (auto intro: grows_answers grows_refl grows_request)

lemma grows_calls: "calls C i l = Some f \<Longrightarrow> grows s (f s)"
  by (cases l) (auto simp: consumer_handlers Let_def grows_invoke grows_request polite_internal split: option.split sum.split
      intro!: grows_intros grows_send)

lemma grows_proofs: "proof_settles C i ok task = Some f \<Longrightarrow> grows s (f s)"
  by (cases task) (auto simp: consumer_handlers Let_def polite_internal split: option.split intro!: grows_intros grows_send)

lemma grows_replies: "reply_settles i result task = Some f \<Longrightarrow> grows s (f s)"
  by (cases task) (auto simp: consumer_handlers Let_def grows_request_settles split: option.split json.split intro!: grows_intros)

lemma grows_step: "consumer_step C s l t \<Longrightarrow> grows s t"
proof (induction rule: consumer_step.induct)
  case (step_call s l f)
  then show ?case by (metis grows_calls grows_fresh)
next
  case (step_disconnect s)
  show ?case by (auto simp: disconnect_def Let_def split: option.split intro!: grows_intros)
qed (auto simp: abandon_def intro: grows_intros grows_proofs grows_replies)

lemma grows_trans:
  assumes "grows s t" "grows t u"
  shows "grows s u"
proof -
  obtain m n where m: "cs_sent t = cs_sent s @ m" "\<forall>(i, route, q) \<in> set m. polite s q" and n: "cs_sent u = cs_sent t @ n" "\<forall>(i, route, q) \<in> set n. polite t q"
    using assms unfolding grows_def by blast
  have "polite s q" if "polite t q" for q
    using that assms(1) by (auto simp: polite_def grows_def ended_at_def split: option.splits if_splits)
  with m n have "\<forall>(i, route, q) \<in> set (m @ n). polite s q" "cs_sent u = cs_sent s @ m @ n" by fastforce+
  with assms show ?thesis unfolding grows_def by blast
qed

lemma grows_run: "steps (consumer_step C) s ls t \<Longrightarrow> grows s t"
  by (induction rule: steps.induct) (auto intro: grows_refl grows_trans grows_step)

text \<open>C22. A consumer that has been disconnected never sends an offer, a status request, a read or an
  invocation again, and a token that it has ended, or has been told is ended, is in none of them:
  whatever was in flight when it was revoked, and however the answers arrive.\<close>

theorem consumer_revocation_final:
  assumes "steps (consumer_step C) s ls t"
  shows "(cs_disconnected s \<longrightarrow> cs_disconnected t) \<and> (\<forall>k. jm_get (cs_ended s) k \<noteq> None \<longrightarrow> jm_get (cs_ended t) k \<noteq> None)
    \<and> (\<exists>new. cs_sent t = cs_sent s @ new \<and> (\<forall>(i, route, q) \<in> set new. uses_pairing q
          \<longrightarrow> \<not> cs_disconnected s \<and> (\<forall>k. aq_token q = Some k \<and> k \<noteq> [] \<longrightarrow> jm_get (cs_ended s) k = None)))"
proof -
  have *: "polite s = (\<lambda>q. uses_pairing q \<longrightarrow> \<not> cs_disconnected s \<and> (\<forall>k. aq_token q = Some k \<and> k \<noteq> [] \<longrightarrow> jm_get (cs_ended s) k = None))"
    by (rule ext) (auto simp: polite_def ended_at_def split: option.splits if_splits)
  show ?thesis using grows_run [OF assms] unfolding grows_def * .
qed

subsection \<open>The grant in force\<close>

text \<open>What is ending is recorded as ended, and so is no grant.\<close>

definition grant_live :: "'c consumer \<Rightarrow> bool" where
  "grant_live s \<longleftrightarrow> (\<forall>n g. cs_grant s = Some (n, g) \<longrightarrow> ar_status g = jlit ''accepted''
     \<and> (\<exists>t. ar_token g = Some t \<and> t \<noteq> [] \<and> jm_get (cs_ended s) t = None))"

definition live_ok :: "'c consumer \<Rightarrow> bool" where
  "live_ok s \<longleftrightarrow> grant_live s \<and> (\<forall>i t. jm_get (cs_tasks s) i = Some (EndCalling t) \<longrightarrow> jm_get (cs_ended s) t \<noteq> None)"

named_theorems live_intros \<open>steps of a handler that keep \<open>live_ok\<close>\<close>

lemma live_answers [live_intros]: "live_ok s \<Longrightarrow> live_ok (answers i r s)"
  by (auto simp: live_ok_def grant_live_def answers_def jm_get_delete)

lemma live_waits [live_intros]: "live_ok s \<Longrightarrow> (\<And>t. task = EndCalling t \<Longrightarrow> jm_get (cs_ended s) t \<noteq> None) \<Longrightarrow> live_ok (waits i task s)"
  by (auto simp: live_ok_def grant_live_def waits_def jm_get_set)

lemma live_send [live_intros]: "live_ok s \<Longrightarrow> live_ok (send i route q s)"
  by (simp add: live_ok_def grant_live_def send_def)

lemma send_ended [simp]: "cs_ended (send i route q s) = cs_ended s"
  by (simp add: send_def)

lemma live_adopt [live_intros]: "live_ok s \<Longrightarrow> live_ok (adopt g s)"
  by (auto simp: live_ok_def grant_live_def adopt_def split: option.split)

lemma live_updates [live_intros]:
  assumes "live_ok s"
  shows "live_ok (s\<lparr>cs_unresolved := b\<rparr>)" "live_ok (s\<lparr>cs_resume_unresolved := b\<rparr>)" "live_ok (s\<lparr>cs_resuming := b\<rparr>)" "live_ok (s\<lparr>cs_attempted := m\<rparr>)"
    "live_ok (s\<lparr>cs_identity := j\<rparr>)" "live_ok (s\<lparr>cs_route := r\<rparr>)" "live_ok (s\<lparr>cs_now := n\<rparr>)" "live_ok (s\<lparr>cs_fresh := k\<rparr>)" "live_ok (s\<lparr>cs_disconnected := b\<rparr>)"
  using assms by (auto simp: live_ok_def grant_live_def)

lemma live_ended [live_intros]: "live_ok s \<Longrightarrow> live_ok (s\<lparr>cs_ended := jm_set k e (cs_ended s), cs_grant := None\<rparr>)"
  by (auto simp: live_ok_def grant_live_def jm_get_set)

lemma live_ended_again:
  assumes "live_ok s" "jm_get (cs_ended s) k \<noteq> None"
  shows "live_ok (s\<lparr>cs_ended := jm_set k e (cs_ended s)\<rparr>)"
proof -
  have "(jm_get (jm_set k e (cs_ended s)) t = None) = (jm_get (cs_ended s) t = None)" for t using assms(2) by (auto simp: jm_get_set)
  with assms(1) show ?thesis unfolding live_ok_def grant_live_def by simp
qed

lemma live_conclude [live_intros]: "live_ok s \<Longrightarrow> live_ok (conclude i kind out s)"
  by (auto simp: conclude_def intro!: live_intros split: request_kind.split)

lemma live_request [live_intros]: "live_ok s \<Longrightarrow> live_ok (request C i kind operation payload tok s)"
  by (auto simp: request_def intro!: live_intros split: option.split)

lemma live_request_settles: "live_ok s \<Longrightarrow> live_ok (request_settles i kind tok result s)"
  by (auto simp: request_settles_def intro!: live_intros split: option.split)

lemma live_end: "live_ok s \<Longrightarrow> live_ok (consumer_end C i tok s)"
  by (auto simp: consumer_end_def Let_def jm_get_set intro!: live_intros split: option.split)

lemma live_calls: "calls C i l = Some f \<Longrightarrow> live_ok s \<Longrightarrow> live_ok (f s)"
  by (cases l) (auto simp: consumer_offer_def consumer_status_def consumer_read_def consumer_invoke_def live_end verifies_lineage_def
      probe_resume_def refuses_def consumer_resume_def split: option.split sum.split intro!: live_intros)

lemma live_proofs: "proof_settles C i ok task = Some f \<Longrightarrow> live_ok s \<Longrightarrow> live_ok (f s)"
  by (cases task) (auto simp: consumer_handlers split: option.split intro!: live_intros)

lemma live_replies:
  "reply_settles i result task = Some f \<Longrightarrow> jm_get (cs_tasks s) i = Some task \<Longrightarrow> live_ok s \<Longrightarrow> live_ok (f s)"
proof (cases task)
  case (EndCalling tok)
  moreover assume "reply_settles i result task = Some f" "jm_get (cs_tasks s) i = Some task" "live_ok s"
  moreover from calculation have "jm_get (cs_ended s) tok \<noteq> None" unfolding live_ok_def by blast
  ultimately show ?thesis by (auto simp: end_settles_def Let_def intro!: live_answers live_ended_again)
qed (auto simp: consumer_handlers live_request_settles split: option.split json.split intro!: live_intros)

lemma live_step: "consumer_step C s l t \<Longrightarrow> live_ok s \<Longrightarrow> live_ok t"
proof (induction rule: consumer_step.induct)
  case (step_disconnect s)
  then show ?case by (auto simp: disconnect_def Let_def live_ok_def grant_live_def jm_get_set split: option.split)
qed (auto simp: abandon_def intro: live_intros live_calls live_proofs live_replies)

text \<open>In every state that a consumer reaches, the grant it holds is an accepted result with a token
  that was never ended or disconnected, so that every request it makes under the grant is sent.\<close>

theorem consumer_grant_live:
  assumes "steps (consumer_step C) (new_consumer i route now) ls t" "cs_grant t = Some (n, g)"
  shows "ar_status g = jlit ''accepted'' \<and> (\<exists>k. ar_token g = Some k \<and> k \<noteq> [] \<and> jm_get (cs_ended t) k = None)"
proof -
  have "live_ok (new_consumer i route now)" by (simp add: live_ok_def grant_live_def new_consumer_def)
  with assms(1) have "live_ok t" by (rule steps_invariant) (rule live_step)
  with assms(2) show ?thesis by (simp add: live_ok_def grant_live_def)
qed

subsection \<open>One open invocation\<close>

text \<open>The calls whose invocation was sent, in order, and those with an answer that is not \<open>unknown\<close>.\<close>

definition invoked :: "'c consumer \<Rightarrow> nat list" where
  "invoked s = map fst (filter (\<lambda>(i, route, q). aq_operation q = jlit ''invoke'') (cs_sent s))"

definition outcome_known :: "'c consumer \<Rightarrow> nat \<Rightarrow> bool" where
  "outcome_known s i \<longleftrightarrow> (\<exists>r. (i, Gives r) \<in> set (cs_replies s) \<and> ar_status r \<noteq> jlit ''unknown'')"

definition latest_open :: "'c consumer \<Rightarrow> nat \<Rightarrow> bool" where
  "latest_open s i \<longleftrightarrow> cs_unresolved s \<and> invoked s \<noteq> [] \<and> i = last (invoked s)"

definition one_open :: "'c consumer \<Rightarrow> bool" where
  "one_open s \<longleftrightarrow> distinct (invoked s) \<and> (\<forall>i \<in> set (invoked s). i < cs_fresh s \<and> (outcome_known s i \<or> latest_open s i))
     \<and> (\<forall>i tok. jm_get (cs_tasks s) i = Some (Requesting InvokeRequest tok) \<longrightarrow> latest_open s i)"

named_theorems open_intros \<open>steps of a handler that keep \<open>one_open\<close>\<close>

lemma open_answers [open_intros]: "one_open s \<Longrightarrow> one_open (answers i r s)"
  by (fastforce simp: one_open_def outcome_known_def latest_open_def invoked_def answers_def jm_get_delete)

lemma open_waits [open_intros]: "one_open s \<Longrightarrow> (\<And>tok. task \<noteq> Requesting InvokeRequest tok) \<Longrightarrow> one_open (waits i task s)"
  by (auto simp: one_open_def outcome_known_def latest_open_def invoked_def waits_def jm_get_set)

lemma open_send [open_intros]: "one_open s \<Longrightarrow> aq_operation q \<noteq> jlit ''invoke'' \<Longrightarrow> one_open (send i route q s)"
  by (simp add: one_open_def outcome_known_def latest_open_def invoked_def send_def)

lemma open_updates [open_intros]:
  assumes "one_open s"
  shows "one_open (s\<lparr>cs_resume_unresolved := b\<rparr>)" "one_open (s\<lparr>cs_resuming := b\<rparr>)" "one_open (s\<lparr>cs_attempted := m\<rparr>)" "one_open (s\<lparr>cs_ended := e\<rparr>)"
    "one_open (s\<lparr>cs_identity := j\<rparr>)" "one_open (s\<lparr>cs_route := r\<rparr>)" "one_open (s\<lparr>cs_now := n\<rparr>)" "one_open (s\<lparr>cs_grant := g\<rparr>)"
    "one_open (s\<lparr>cs_unresolved := True\<rparr>)"
  using assms by (auto simp: one_open_def outcome_known_def latest_open_def invoked_def)

lemma open_fresh: "one_open s \<Longrightarrow> cs_fresh s \<le> k \<Longrightarrow> one_open (s\<lparr>cs_fresh := k\<rparr>)"
  by (fastforce simp: one_open_def outcome_known_def latest_open_def invoked_def)

lemma open_adopt [open_intros]: "one_open s \<Longrightarrow> one_open (adopt g s)"
proof -
  assume s: "one_open s"
  then have "one_open (s\<lparr>cs_grant := Some (cs_fresh s, g), cs_fresh := cs_fresh s + 1\<rparr>)"
    using open_fresh [of "s\<lparr>cs_grant := Some (cs_fresh s, g)\<rparr>" "cs_fresh s + 1"] by (auto intro: open_intros)
  with s show ?thesis by (auto simp: adopt_def split: option.split)
qed

lemma open_conclude [open_intros]: "one_open s \<Longrightarrow> kind \<noteq> InvokeRequest \<Longrightarrow> one_open (conclude i kind out s)"
  by (cases kind) (auto simp: conclude_def intro!: open_intros)

text \<open>An answer other than \<open>unknown\<close> to the open invocation closes it.\<close>

lemma open_conclude_invoke: "one_open s \<Longrightarrow> latest_open s i \<Longrightarrow> one_open (conclude i InvokeRequest out s)"
  by (fastforce simp: one_open_def outcome_known_def latest_open_def invoked_def conclude_def answers_def jm_get_delete)

text \<open>While none is open, one that is not sent leaves none open.\<close>

lemma none_open_conclude: "one_open s \<Longrightarrow> \<not> cs_unresolved s \<Longrightarrow> one_open (conclude i InvokeRequest out (s\<lparr>cs_unresolved := True\<rparr>))"
  by (fastforce simp: one_open_def outcome_known_def latest_open_def invoked_def conclude_def answers_def jm_get_delete)

lemma open_invoke:
  assumes "one_open s" "\<not> cs_unresolved s" "i < cs_fresh s" "i \<notin> set (invoked s)" "aq_operation q = jlit ''invoke''"
  shows "one_open (waits i (Requesting InvokeRequest tok) (send i route q (s\<lparr>cs_unresolved := True\<rparr>)))"
  using assms by (fastforce simp: one_open_def outcome_known_def latest_open_def invoked_def waits_def send_def jm_get_set)

lemma open_request [open_intros]:
  "one_open s \<Longrightarrow> kind \<noteq> InvokeRequest \<Longrightarrow> jlit operation \<noteq> jlit ''invoke'' \<Longrightarrow> one_open (request C i kind operation payload tok s)"
  by (auto simp: request_def make_request_def intro!: open_intros split: option.split)

lemma open_consumer_invoke:
  assumes "one_open s" "i < cs_fresh s" "i \<notin> set (invoked s)"
  shows "one_open (consumer_invoke C i action args sequence revision s)"
  using assms by (auto simp: consumer_invoke_def request_def none_open_conclude open_invoke make_request_def intro!: open_intros split: option.split)

lemma open_calls:
  "calls C i l = Some f \<Longrightarrow> (\<And>tok. l \<noteq> EndsPairing tok) \<Longrightarrow> one_open s \<Longrightarrow> i < cs_fresh s \<Longrightarrow> i \<notin> set (invoked s) \<Longrightarrow> one_open (f s)"
  by (cases l) (auto simp: consumer_offer_def consumer_status_def consumer_read_def open_consumer_invoke verifies_lineage_def
      probe_resume_def refuses_def consumer_resume_def jlit_eq_iff split: option.split sum.split intro!: open_intros)

lemma open_proofs: "proof_settles C i ok task = Some f \<Longrightarrow> one_open s \<Longrightarrow> one_open (f s)"
  by (cases task) (auto simp: consumer_handlers make_request_def jlit_eq_iff split: option.split intro!: open_intros)

lemma open_replies:
  "reply_settles i result task = Some f \<Longrightarrow> jm_get (cs_tasks s) i = Some task \<Longrightarrow> one_open s \<Longrightarrow> one_open (f s)"
proof (cases task)
  case (Requesting kind tok)
  moreover assume "reply_settles i result task = Some f" and task: "jm_get (cs_tasks s) i = Some task" and s: "one_open s"
  moreover have "latest_open s i" if "kind = InvokeRequest" using s task that Requesting by (simp add: one_open_def)
  then have "one_open (conclude i kind out s)" for out using s by (cases "kind = InvokeRequest") (auto intro: open_conclude_invoke open_conclude)
  moreover have "one_open (conclude i kind out (s\<lparr>cs_ended := e, cs_grant := None\<rparr>))" for out e
  proof (cases "kind = InvokeRequest")
    case True
    with s task Requesting have "latest_open s i" by (simp add: one_open_def)
    then have "latest_open (s\<lparr>cs_ended := e, cs_grant := None\<rparr>) i" by (simp add: latest_open_def invoked_def)
    with True s show ?thesis by (simp add: open_conclude_invoke open_updates)
  qed (use s in \<open>auto intro!: open_intros\<close>)
  ultimately show ?thesis by (auto simp: request_settles_def split: option.split)
qed (auto simp: consumer_handlers Let_def split: option.split json.split intro!: open_intros)

definition keeps_open :: "'c consumer_label \<Rightarrow> bool" where
  "keeps_open l \<longleftrightarrow> l \<noteq> Abandons \<and> l \<noteq> Disconnects \<and> (\<forall>tok. l \<noteq> EndsPairing tok)"

lemma open_step: "consumer_step C s l t \<Longrightarrow> keeps_open l \<Longrightarrow> one_open s \<Longrightarrow> one_open t"
proof (induction rule: consumer_step.induct)
  case (step_call s l f)
  have "cs_fresh s \<notin> set (invoked s)" using step_call.prems by (fastforce simp: one_open_def)
  then have "cs_fresh s \<notin> set (invoked (s\<lparr>cs_fresh := cs_fresh s + 1\<rparr>))" by (simp add: invoked_def)
  moreover have "one_open (s\<lparr>cs_fresh := cs_fresh s + 1\<rparr>)" using step_call.prems by (simp add: open_fresh)
  moreover have "l \<noteq> EndsPairing tok" for tok using step_call.prems by (simp add: keeps_open_def)
  ultimately show ?case by (intro open_calls [OF step_call.hyps]) simp_all
qed (auto simp: keeps_open_def intro: open_intros open_proofs open_replies)

text \<open>C21. Until the consumer abandons an invocation, disconnects or ends the pairing, it sends an
  invocation only when every earlier one was answered with an outcome other than \<open>unknown\<close>: an action
  whose outcome is not known is neither repeated nor overtaken.\<close>

theorem consumer_one_unresolved:
  assumes "steps (consumer_step C) (new_consumer i route now) ls t" "\<forall>l \<in> set ls. keeps_open l"
  shows "distinct (invoked t) \<and> (\<forall>i \<in> set (butlast (invoked t)). outcome_known t i)"
proof -
  have s: "one_open (new_consumer i route now)" by (simp add: one_open_def invoked_def new_consumer_def)
  have t: "one_open t" by (rule steps_invariant_if [where I = one_open, OF assms(1) s assms(2)]) (rule open_step)
  have "last (invoked t) \<notin> set (butlast (invoked t))"
    using t by (cases "invoked t" rule: rev_cases) (auto simp: one_open_def)
  with t show ?thesis by (auto simp: one_open_def latest_open_def dest: in_set_butlastD)
qed

text \<open>The status of an earlier token that has ended takes away the grant of a later one.\<close>

lemma stale_status_drops_grant:
  "cs_grant s = Some (n, g) \<Longrightarrow> jm_get (cs_ended s) k = None \<Longrightarrow> k \<noteq> [] \<Longrightarrow> ar_token g \<noteq> Some k \<Longrightarrow> \<not> cs_disconnected s
    \<Longrightarrow> cs_grant (request_settles i StatusRequest (Some k) (Some (assist_result ''ended'' JNull)) s) = None"
  by (simp add: request_settles_def ended_at_def conclude_def answers_def adopt_def assist_result_def)

subsection \<open>A sample run\<close>

definition pair_config :: consumer_config where
  "pair_config = \<lparr>cc_consumer = jlit ''C'', cc_hmac = (\<lambda>k m. m), cc_number = (\<lambda>l. 0)\<rparr>"

definition pair_start :: "unit consumer" where
  "pair_start = new_consumer \<lparr>ai_application = jlit ''app'', ai_workspace = jlit ''w'', ai_supplier = jlit ''A'', ai_generation = jlit ''g1''\<rparr> () 0"

definition pair_grant :: assistance_result where
  "pair_grant = (assist_result ''accepted'' JNull)\<lparr>ar_token := Some (jlit ''t''), ar_epoch := Some 1, ar_expires := Some 300000\<rparr>"

definition pair_bump :: "unit consumer_label" where
  "pair_bump = Invokes (jlit ''bump'') JNull (json_int 0) (jlit ''r'')"

definition pair_labels :: "unit consumer_label list" where
  "pair_labels = [Adopts pair_grant, pair_bump, ReplyArrives 1 (Some (assist_result ''applied'' JNull)), pair_bump]"

definition pair_granted :: "unit consumer" where
  "pair_granted = adopt pair_grant pair_start"

definition pair_invoked :: "unit consumer" where
  "pair_invoked = consumer_invoke pair_config 1 (jlit ''bump'') JNull (json_int 0) (jlit ''r'') (pair_granted\<lparr>cs_fresh := 2\<rparr>)"

definition pair_applied :: "unit consumer" where
  "pair_applied = request_settles 1 InvokeRequest (Some (jlit ''t'')) (Some (assist_result ''applied'' JNull)) pair_invoked"

definition pair_again :: "unit consumer" where
  "pair_again = consumer_invoke pair_config 2 (jlit ''bump'') JNull (json_int 0) (jlit ''r'') (pair_applied\<lparr>cs_fresh := 3\<rparr>)"

lemmas pair_eval = pair_start_def new_consumer_def pair_granted_def adopt_def pair_grant_def assist_result_def pair_invoked_def consumer_invoke_def
  request_def request_settles_def ended_at_def grant_token_def waits_def send_def make_request_def conclude_def answers_def

lemma pair_granted_eq: "pair_granted = pair_start\<lparr>cs_grant := Some (0, pair_grant), cs_fresh := 1\<rparr>"
  by (simp add: pair_eval)

lemma pair_invoked_eq:
  "cs_tasks pair_invoked = [(1, Requesting InvokeRequest (Some (jlit ''t'')))]" "cs_fresh pair_invoked = 2" "invoked pair_invoked = [1]"
  "cs_grant pair_invoked = Some (0, pair_grant)" "cs_ended pair_invoked = []" "\<not> cs_disconnected pair_invoked"
  by (simp_all add: pair_eval invoked_def)

lemma pair_applied_eq:
  "cs_tasks pair_applied = []" "cs_fresh pair_applied = 2" "invoked pair_applied = [1]"
  "cs_grant pair_applied = Some (0, pair_grant)" "cs_ended pair_applied = []" "\<not> cs_disconnected pair_applied" "\<not> cs_unresolved pair_applied"
  using pair_invoked_eq by (simp_all add: pair_applied_def request_settles_def ended_at_def conclude_def answers_def invoked_def)

lemma pair_again_invoked: "invoked pair_again = [1, 2]"
  using pair_applied_eq by (simp add: pair_again_def consumer_invoke_def request_def ended_at_def grant_token_def pair_grant_def
      waits_def send_def make_request_def conclude_def answers_def invoked_def)

lemma pair_run: "steps (consumer_step pair_config) pair_start pair_labels pair_again"
proof -
  have f: "cs_fresh pair_granted = 1" by (simp add: pair_granted_eq)
  have "consumer_step pair_config pair_start (Adopts pair_grant) pair_granted" unfolding pair_granted_def by (rule step_adopt)
  moreover have "consumer_step pair_config pair_granted pair_bump pair_invoked"
    using step_call [of pair_config pair_granted pair_bump] by (simp add: pair_bump_def pair_invoked_def f numeral_2_eq_2)
  moreover have "consumer_step pair_config pair_invoked (ReplyArrives 1 (Some (assist_result ''applied'' JNull))) pair_applied"
    using step_reply [of pair_invoked 1 "Requesting InvokeRequest (Some (jlit ''t''))" "Some (assist_result ''applied'' JNull)"]
    by (simp add: pair_applied_def pair_invoked_eq)
  moreover have "consumer_step pair_config pair_applied pair_bump pair_again"
    using step_call [of pair_config pair_applied pair_bump] by (simp add: pair_bump_def pair_again_def pair_applied_eq numeral_2_eq_2 numeral_3_eq_3)
  ultimately show ?thesis unfolding pair_labels_def by (auto intro: steps.intros)
qed

theorem consumer_one_unresolved_witness: "steps (consumer_step pair_config) pair_start pair_labels pair_again \<and> outcome_known pair_again 1"
proof -
  have "distinct (invoked pair_again) \<and> (\<forall>i \<in> set (butlast (invoked pair_again)). outcome_known pair_again i)"
    by (rule consumer_one_unresolved [OF pair_run [unfolded pair_start_def]]) (simp add: pair_labels_def pair_bump_def keeps_open_def)
  then show ?thesis using pair_run by (simp add: pair_again_invoked)
qed

theorem consumer_grant_live_witness: "\<exists>k. ar_token pair_grant = Some k \<and> k \<noteq> [] \<and> jm_get (cs_ended pair_granted) k = None"
proof -
  have run: "steps (consumer_step pair_config) pair_start [Adopts pair_grant] pair_granted"
    unfolding pair_granted_def by (auto intro: steps.intros step_adopt)
  show ?thesis using consumer_grant_live [OF run [unfolded pair_start_def], of 0 pair_grant] by (simp add: pair_granted_eq)
qed

theorem consumer_revocation_final_witness:
  "\<exists>u. steps (consumer_step pair_config) (disconnect pair_granted) [Offers] u \<and> cs_disconnected u \<and> cs_sent u = []"
proof -
  let ?s = "disconnect pair_granted"
  let ?u = "consumer_offer pair_config (cs_fresh ?s) (?s\<lparr>cs_fresh := cs_fresh ?s + 1\<rparr>)"
  have run: "steps (consumer_step pair_config) ?s [Offers] ?u"
    using step_call [of pair_config ?s Offers "consumer_offer pair_config (cs_fresh ?s)"] by (auto intro: steps.intros)
  have d: "cs_disconnected ?s" "cs_sent ?s = []" "cs_grant ?s = None"
    by (simp_all add: disconnect_def pair_granted_eq grant_token_def pair_grant_def pair_start_def new_consumer_def)
  then have "cs_sent ?u = []" by (simp add: consumer_offer_def request_def grant_token_def ended_at_def conclude_def answers_def)
  with consumer_revocation_final [OF run] d run show ?thesis by blast
qed

end
