(* ===== verification/Resume_Handshake.thy ===== *)
theory Resume_Handshake
  imports Consumer_Safety Assistance_Grants
begin

text \<open>
  The two sides of a resume together: what the consumer asks with the authority of its grant, a
  supplier of a new generation that retained the same authority accepts, and the consumer adopts
  the answer.
\<close>

subsection \<open>The authority on the wire\<close>

lemma authority_plain: "json_plain (authority_json r)"
  by (auto simp: authority_json_def)

lemma read_authority_back: "cc_number C (dec_int (ra_expires r)) = ra_expires r \<Longrightarrow> read_authority C (authority_json r) = Some r"
  by (simp add: read_authority_def authority_json_def as_string_def)

text \<open>The payload of the answer to a resume.\<close>

definition resumed_payload :: "'p assist_config \<Rightarrow> resume_authority \<Rightarrow> jstr \<Rightarrow> json" where
  "resumed_payload D r signature = object [(''capabilities'', sc_capabilities D), (''resume'', authority_json r), (''proof'', JStr signature)]"

lemma resumed_payload_plain: "json_plain (sc_capabilities D) \<Longrightarrow> json_plain (resumed_payload D r signature)"
  by (simp add: resumed_payload_def authority_plain)

lemma resumed_members:
  "member ''resume'' (resumed_payload D r signature) = Some (authority_json r)"
  "member ''proof'' (resumed_payload D r signature) = Some (JStr signature)"
  by (simp_all add: resumed_payload_def)

subsection \<open>The supplier's part\<close>

definition supplier_ready :: "resume_authority \<Rightarrow> 'p assist_supplier \<Rightarrow> bool" where
  "supplier_ready r S \<longleftrightarrow> ap_enabled S \<and> ap_ready S \<and> ap_active S = None \<and> \<not> ap_resuming S \<and> map_option snd (ap_authority S) = Some r
     \<and> ap_now S < ra_expires r \<and> (\<forall>(t, ofr) \<in> set (ap_offers S). of_status ofr = Ended \<or> ap_now S < of_deadline ofr)"

lemma nothing_expires:
  assumes "\<forall>(t, ofr) \<in> set (ap_offers S). of_status ofr = Ended \<or> ap_now S < of_deadline ofr"
  shows "expire D S = S"
proof -
  have "expire_offer D t S = S" for t using assms by (fastforce simp: expire_offer_def split: option.split dest: jm_get_in)
  then have "fold (expire_offer D) ts S = S" for ts by (induction ts) simp_all
  then show ?thesis by (simp add: expire_def)
qed

definition resume_request_for :: "'p assist_config \<Rightarrow> resume_authority \<Rightarrow> jstr \<Rightarrow> assistance_request \<Rightarrow> bool" where
  "resume_request_for D r nonce q \<longleftrightarrow> aq_version q = 1 \<and> aq_identity q = sc_identity D \<and> aq_consumer q = ra_consumer r \<and> ra_consumer r \<noteq> []
     \<and> aq_operation q = jlit ''resume''
     \<and> resume_input q = Some (nonce, Some (JStr (resume_proof (sc_hmac D) (ra_secret r) ''request'' (sc_identity D) (aq_consumer q) nonce)))"

text \<open>The authority that the new grant leaves: a new secret, when the host saves it, for the same consumer and time.\<close>

definition renewed :: "'p assist_config \<Rightarrow> jstr \<Rightarrow> resume_authority \<Rightarrow> resume_authority" where
  "renewed D secret r = (if sc_saves D then \<lparr>ra_application = ai_application (sc_identity D), ra_workspace = ai_workspace (sc_identity D),
     ra_supplier = ai_supplier (sc_identity D), ra_consumer = ra_consumer r, ra_expires = ra_expires r, ra_scope = resume_scope D, ra_secret = secret\<rparr> else r)"

definition resumed_result :: "'p assist_config \<Rightarrow> jstr \<Rightarrow> int \<Rightarrow> jstr \<Rightarrow> resume_authority \<Rightarrow> jstr \<Rightarrow> assistance_result" where
  "resumed_result D tok epoch secret r nonce =
     (assist_result ''accepted'' (resumed_payload D (renewed D secret r)
        (resume_proof (sc_hmac D) (ra_secret r) ''response'' (sc_identity D) (ra_consumer r) nonce)))
     \<lparr>ar_token := Some tok, ar_epoch := Some epoch, ar_expires := Some (ra_expires r)\<rparr>"

lemma grant_resumed_answers:
  assumes "json_plain (sc_capabilities D)" "aq_consumer q = ra_consumer r" "map_option snd (ap_authority S) = Some r"
  shows "snd (grant_resumed D tok secret q r nonce S) = Answers (resumed_result D tok (ap_epoch S + 1) secret r nonce)"
    "ap_active (fst (grant_resumed D tok secret q r nonce S)) = Some tok"
    "map_option snd (ap_authority (fst (grant_resumed D tok secret q r nonce S))) = Some (renewed D secret r)"
    "ap_replies (fst (grant_resumed D tok secret q r nonce S)) = ap_replies S"
proof -
  obtain n where n: "ap_authority S = Some (n, r)" using assms(3) by auto
  have "json_plain (object [(''capabilities'', sc_capabilities D), (''resume'', authority_json a)])" for a
    using assms(1) by (simp add: authority_plain)
  note stored = json_bytes_back [OF this]
  show "snd (grant_resumed D tok secret q r nonce S) = Answers (resumed_result D tok (ap_epoch S + 1) secret r nonce)"
    using stored n assms(2)
    by (simp add: grant_resumed_def Let_def status_result_def changed_def remember_def save_resume_def result_value_def assist_result_def
        resumed_result_def resumed_payload_def renewed_def)
  show "ap_active (fst (grant_resumed D tok secret q r nonce S)) = Some tok"
    "map_option snd (ap_authority (fst (grant_resumed D tok secret q r nonce S))) = Some (renewed D secret r)"
    "ap_replies (fst (grant_resumed D tok secret q r nonce S)) = ap_replies S"
    using n assms(2) by (simp_all add: grant_resumed_def Let_def changed_def remember_def save_resume_def renewed_def)
qed

lemma supplier_resumes:
  assumes S: "supplier_ready r S" and q: "resume_request_for D r nonce q" "ap_now S < aq_deadline q"
    and D: "json_plain (sc_capabilities D)" and tok: "jm_get (ap_offers S) tok = None"
  obtains S' where "steps (assist_step D) S [Receives q tok, CryptoSettles (ap_fresh S) True tok secret, CryptoSettles (ap_fresh S) True tok secret] S'"
    "ap_replies S' = ap_replies S @ [(ap_fresh S, Answers (resumed_result D tok (ap_epoch S + 1) secret r nonce))]"
    "ap_active S' = Some tok" "map_option snd (ap_authority S') = Some (renewed D secret r)"
proof -
  let ?i = "ap_fresh S"
  let ?S1 = "S\<lparr>ap_fresh := ?i + 1, ap_resuming := True\<rparr>"
  obtain n where n: "ap_authority S = Some (n, r)" using S by (auto simp: supplier_ready_def)
  define given where "given = Some (JStr (resume_proof (sc_hmac D) (ra_secret r) ''request'' (sc_identity D) (aq_consumer q) nonce))"
  define asked where "asked = ?S1\<lparr>ap_calls := jm_set ?i (q, ResumeRequested n r nonce given) (ap_calls S)\<rparr>"
  define proved where "proved = ?S1\<lparr>ap_calls := jm_set ?i (q, ResumeProved n r nonce) (jm_set ?i (q, ResumeRequested n r nonce given) (ap_calls S))\<rparr>"
  define granted where "granted = grant_resumed D tok secret q r nonce proved"
  define S' where "S' = (fst granted)\<lparr>ap_resuming := False, ap_calls := jm_delete ?i (ap_calls (fst granted)), ap_replies := ap_replies (fst granted) @ [(?i, snd granted)]\<rparr>"
  have "expire D (S\<lparr>ap_fresh := ?i + 1\<rparr>) = S\<lparr>ap_fresh := ?i + 1\<rparr>" using S by (intro nothing_expires) (simp add: supplier_ready_def)
  moreover have "request_valid D q (ap_now (S\<lparr>ap_fresh := ?i + 1\<rparr>))" "aq_operation q = jlit ''resume''" "ra_consumer r = aq_consumer q"
    using q by (simp_all add: request_valid_def resume_request_for_def)
  moreover have "resume_input q = Some (nonce, given)" using q by (simp add: resume_request_for_def given_def)
  ultimately have "receive D tok q (S\<lparr>ap_fresh := ?i + 1\<rparr>) = (?S1, Inr (ResumeRequested n r nonce given))"
    using S n by (simp add: receive_valid Let_def begin_resume_def supplier_ready_def)
  then have "receive_call D tok q S = asked" by (simp add: receive_call_def proceed_def asked_def Let_def)
  then have 1: "assist_step D S (Receives q tok) asked" using step_receive [OF tok, of D q] by simp
  have "proceed ?i q (crypto_settles D True tok secret q (ResumeRequested n r nonce given) asked) = proved"
    by (simp add: crypto_settles_def given_def proceed_def asked_def proved_def)
  then have 2: "assist_step D asked (CryptoSettles ?i True tok secret) proved"
    using step_crypto [of asked ?i q "ResumeRequested n r nonce given" tok D True secret] tok by (simp add: asked_def jm_get_set)
  have "crypto_settles D True tok secret q (ResumeProved n r nonce) proved = ((fst granted)\<lparr>ap_resuming := False\<rparr>, Inl (snd granted))"
    using S n q by (simp add: crypto_settles_def granted_def supplier_ready_def proved_def Let_def case_prod_beta)
  then have "proceed ?i q (crypto_settles D True tok secret q (ResumeProved n r nonce) proved) = S'"
    by (simp add: proceed_def S'_def)
  then have 3: "assist_step D proved (CryptoSettles ?i True tok secret) S'"
    using step_crypto [of proved ?i q "ResumeProved n r nonce" tok D True secret] tok by (simp add: proved_def jm_get_set)
  from 1 2 3 have run: "steps (assist_step D) S [Receives q tok, CryptoSettles ?i True tok secret, CryptoSettles ?i True tok secret] S'"
    by (auto intro: steps.intros)
  have "aq_consumer q = ra_consumer r" "map_option snd (ap_authority proved) = Some r" "ap_epoch proved = ap_epoch S" "ap_replies proved = ap_replies S"
    using q n by (simp_all add: resume_request_for_def proved_def)
  note granted = grant_resumed_answers [OF D this(1,2), of tok secret nonce, unfolded this(3,4), folded granted_def]
  show thesis by (rule that [OF run]) (simp_all add: S'_def granted)
qed

subsection \<open>The consumer's part\<close>

definition consumer_ready :: "consumer_config \<Rightarrow> resume_authority \<Rightarrow> assistance_identity \<Rightarrow> 'c consumer \<Rightarrow> bool" where
  "consumer_ready C r ident s \<longleftrightarrow> grant_authority C s = Inr (Some r) \<and> Option.bind (cs_grant s) (\<lambda>(n, g). ar_expires g) = Some (ra_expires r)
     \<and> \<not> cs_disconnected s \<and> \<not> cs_resuming s \<and> \<not> cs_resume_unresolved s \<and> ai_generation ident \<notin> set (cs_attempted s)
     \<and> ai_generation ident \<noteq> ai_generation (cs_identity s) \<and> authority_for C ident r s"

definition resume_message :: "consumer_config \<Rightarrow> resume_authority \<Rightarrow> assistance_identity \<Rightarrow> jstr \<Rightarrow> int \<Rightarrow> assistance_request" where
  "resume_message C r ident nonce now =
     \<lparr>aq_version = 1, aq_identity = ident, aq_consumer = cc_consumer C, aq_operation = jlit ''resume'', aq_deadline = now + 10000,
      aq_token = None, aq_epoch = None,
      aq_payload = json_bytes (proof_payload nonce (resume_proof (cc_hmac C) (ra_secret r) ''request'' ident (cc_consumer C) nonce))\<rparr>"

lemma consumer_asks:
  assumes "consumer_ready C r ident s" "cs_grant s = Some original"
  obtains s' where "steps (consumer_step C) s [Resumes ident route nonce, ProofSettles (cs_fresh s) True] s'"
    "cs_sent s' = cs_sent s @ [(cs_fresh s, route, resume_message C r ident nonce (cs_now s))]" "cs_replies s' = cs_replies s"
    "jm_get (cs_tasks s') (cs_fresh s) = Some (ResumeCalling ident route r nonce original)"
    "cs_grant s' = cs_grant s" "cs_ended s' = cs_ended s" "\<not> cs_disconnected s'"
proof -
  let ?i = "cs_fresh s"
  let ?s1 = "s\<lparr>cs_fresh := ?i + 1\<rparr>"
  define s1 where "s1 = consumer_resume C ?i ident route nonce ?s1"
  define s2 where "s2 = resume_signed C ?i True ident route r nonce original s1"
  have "grant_authority C ?s1 = Inr (Some r)" "authority_for C ident r ?s1"
    using assms by (simp_all add: consumer_ready_def grant_authority_def authority_for_def)
  then have s1: "s1 = waits ?i (ResumeSigning ident route r nonce original) (?s1\<lparr>cs_attempted := js_add (ai_generation ident) (cs_attempted s), cs_resuming := True\<rparr>)"
    using assms by (simp add: s1_def consumer_resume_def consumer_ready_def)
  have "consumer_step C s (Resumes ident route nonce) s1" using step_call [of C s "Resumes ident route nonce"] by (simp add: s1_def)
  moreover have "consumer_step C s1 (ProofSettles ?i True) s2"
    using step_proof [of s1 ?i "ResumeSigning ident route r nonce original" C True] by (simp add: s2_def s1 waits_def jm_get_set)
  ultimately have "steps (consumer_step C) s [Resumes ident route nonce, ProofSettles ?i True] s2" by (auto intro: steps.intros)
  then show thesis
    by (rule that) (use assms in \<open>simp_all add: s2_def s1 resume_signed_def waits_def send_def jm_get_set make_request_def resume_message_def consumer_ready_def\<close>)
qed

lemma consumer_adopts:
  assumes call: "jm_get (cs_tasks s) i = Some (ResumeCalling ident route r nonce original)" "cs_grant s = Some original"
      "\<not> cs_disconnected s" "ar_expires (snd original) = ar_expires out"
    and out: "ar_status out = jlit ''accepted''" "ar_token out = Some tok" "tok \<noteq> []" "jm_get (cs_ended s) tok = None" "result_value out = Some (JObj ms)"
      "member ''proof'' (JObj ms) = Some (JStr (resume_proof (cc_hmac C) (ra_secret r) ''response'' ident (cc_consumer C) nonce))"
  obtains t where "steps (consumer_step C) s [ReplyArrives i (Some out), ProofSettles i True] t" "cs_replies t = cs_replies s @ [(i, Gives out)]"
    "map_option snd (cs_grant t) = Some out" "cs_identity t = ident" "cs_route t = route" "\<not> cs_disconnected t" "\<not> cs_resuming t"
proof -
  define task where "task = ResumeChecking ident route r nonce original out (member ''proof'' (JObj ms))"
  define t where "t = resume_checked C i True ident route r nonce original out (member ''proof'' (JObj ms)) (waits i task s)"
  have "resume_called i (Some out) ident route r nonce original s = waits i task s"
    using call out by (simp add: resume_called_def task_def)
  then have "consumer_step C s (ReplyArrives i (Some out)) (waits i task s)"
    using step_reply [OF call(1), of "Some out" "resume_called i (Some out) ident route r nonce original" C] by simp
  moreover have "consumer_step C (waits i task s) (ProofSettles i True) t"
    using step_proof [of "waits i task s" i task C True] by (simp add: t_def task_def waits_def jm_get_set)
  ultimately have "steps (consumer_step C) s [ReplyArrives i (Some out), ProofSettles i True] t" by (auto intro: steps.intros)
  then show thesis
    by (rule that) (use call out in \<open>simp_all add: t_def resume_checked_def answers_def adopt_def waits_def\<close>)
qed

lemma renewed_expires: "ra_expires (renewed D secret r) = ra_expires r"
  by (simp add: renewed_def)

subsection \<open>The handshake\<close>

text \<open>C14. When a supplier of a new generation holds the authority of a consumer's grant, and both are
  ready, a resume succeeds: the request that the consumer sends is accepted, the answer passes the
  consumer's checks, and afterwards both hold the same grant, with the time of the first, and the same
  renewed authority.\<close>

theorem resume_handshake:
  fixes s :: "'c consumer" and S :: "'p assist_supplier"
  assumes s: "consumer_ready C r (sc_identity D) s" and S: "supplier_ready r S"
    and same: "cc_hmac C = sc_hmac D" and plain: "json_plain (sc_capabilities D)" and name: "cc_consumer C \<noteq> []"
    and nonce: "length nonce \<le> 128" and time: "ap_now S < cs_now s + 10000"
    and tok: "tok \<noteq> []" "jm_get (ap_offers S) tok = None" "jm_get (cs_ended s) tok = None"
    and number: "cc_number C (dec_int (ra_expires r)) = ra_expires r"
  shows "\<exists>s' q S' out t.
     steps (consumer_step C) s [Resumes (sc_identity D) route nonce, ProofSettles (cs_fresh s) True] s'
   \<and> cs_sent s' = cs_sent s @ [(cs_fresh s, route, q)]
   \<and> steps (assist_step D) S [Receives q tok, CryptoSettles (ap_fresh S) True tok secret, CryptoSettles (ap_fresh S) True tok secret] S'
   \<and> ap_replies S' = ap_replies S @ [(ap_fresh S, Answers out)]
   \<and> steps (consumer_step C) s' [ReplyArrives (cs_fresh s) (Some out), ProofSettles (cs_fresh s) True] t
   \<and> cs_replies t = cs_replies s @ [(cs_fresh s, Gives out)]
   \<and> cs_identity t = sc_identity D \<and> cs_route t = route \<and> map_option snd (cs_grant t) = Some out
   \<and> ar_token out = Some tok \<and> ap_active S' = Some tok \<and> ar_expires out = Some (ra_expires r)
   \<and> grant_authority C t = Inr (map_option snd (ap_authority S'))"
proof -
  define q where "q = resume_message C r (sc_identity D) nonce (cs_now s)"
  define out where "out = resumed_result D tok (ap_epoch S + 1) secret r nonce"
  have consumer: "ra_consumer r = cc_consumer C" using s by (simp add: consumer_ready_def authority_for_def)
  obtain original where original: "cs_grant s = Some original" "ar_expires (snd original) = Some (ra_expires r)"
    using s by (auto simp: consumer_ready_def bind_eq_Some_conv)
  obtain s' where s': "steps (consumer_step C) s [Resumes (sc_identity D) route nonce, ProofSettles (cs_fresh s) True] s'"
    "cs_sent s' = cs_sent s @ [(cs_fresh s, route, q)]" "cs_replies s' = cs_replies s"
    "jm_get (cs_tasks s') (cs_fresh s) = Some (ResumeCalling (sc_identity D) route r nonce original)"
    "cs_grant s' = cs_grant s" "cs_ended s' = cs_ended s" "\<not> cs_disconnected s'"
    using consumer_asks [OF s original(1)] unfolding q_def by metis
  have "resume_input q = Some (nonce, Some (JStr (resume_proof (sc_hmac D) (ra_secret r) ''request'' (sc_identity D) (cc_consumer C) nonce)))"
    using nonce same by (simp add: q_def resume_message_def resume_input_def proof_payload_def json_bytes_back as_string_def)
  then have "resume_request_for D r nonce q" "ap_now S < aq_deadline q"
    using name time consumer by (simp_all add: resume_request_for_def q_def resume_message_def)
  then obtain S' where S': "steps (assist_step D) S [Receives q tok, CryptoSettles (ap_fresh S) True tok secret, CryptoSettles (ap_fresh S) True tok secret] S'"
    "ap_replies S' = ap_replies S @ [(ap_fresh S, Answers out)]" "ap_active S' = Some tok" "map_option snd (ap_authority S') = Some (renewed D secret r)"
    using supplier_resumes [OF S _ _ plain tok(2)] unfolding out_def by metis
  define v where "v = resumed_payload D (renewed D secret r) (resume_proof (sc_hmac D) (ra_secret r) ''response'' (sc_identity D) (ra_consumer r) nonce)"
  obtain ms where ms: "v = JObj ms" by (simp add: v_def resumed_payload_def)
  have parsed: "result_value out = Some v"
    using plain by (simp add: out_def resumed_result_def result_value_def assist_result_def v_def json_bytes_back resumed_payload_plain)
  have members: "member ''proof'' v = Some (JStr (resume_proof (cc_hmac C) (ra_secret r) ''response'' (sc_identity D) (cc_consumer C) nonce))"
    "member ''resume'' v = Some (authority_json (renewed D secret r))"
    by (simp_all add: v_def resumed_members consumer same)
  have "ar_status out = jlit ''accepted''" "ar_token out = Some tok" "ar_expires (snd original) = ar_expires out"
    using original by (simp_all add: out_def resumed_result_def)
  then obtain t where t: "steps (consumer_step C) s' [ReplyArrives (cs_fresh s) (Some out), ProofSettles (cs_fresh s) True] t"
    "cs_replies t = cs_replies s' @ [(cs_fresh s, Gives out)]" "map_option snd (cs_grant t) = Some out" "cs_identity t = sc_identity D" "cs_route t = route"
    using consumer_adopts [OF s'(4), of out tok ms C] original s' tok parsed members unfolding ms by metis
  have "grant_authority C t = Inr (Some (renewed D secret r))"
    using t(3) parsed members(2) number by (auto simp: grant_authority_def ms read_authority_back renewed_expires)
  with s' S' t show ?thesis using out_def resumed_result_def by (intro exI conjI) (auto simp: out_def resumed_result_def)
qed

subsection \<open>A sample handshake\<close>

definition next_identity :: assistance_identity where
  "next_identity = \<lparr>ai_application = jlit ''app'', ai_workspace = jlit ''w'', ai_supplier = jlit ''A'', ai_generation = jlit ''g2''\<rparr>"

definition next_base :: "unit assist_config" where
  "next_base = \<lparr>sc_identity = next_identity, sc_capabilities = object [(''version'', JStr (jlit ''1'')), (''actions'', object [])],
     sc_read = (\<lambda>p access. Inl None), sc_grant_ms = None, sc_resume_scope = None, sc_resume = None, sc_saves = True,
     sc_hmac = (\<lambda>k m. m), sc_number = (\<lambda>x. x)\<rparr>"

definition kept_authority :: resume_authority where
  "kept_authority = \<lparr>ra_application = jlit ''app'', ra_workspace = jlit ''w'', ra_supplier = jlit ''A'', ra_consumer = jlit ''C'',
     ra_expires = 300000, ra_scope = resume_scope next_base, ra_secret = jlit ''k''\<rparr>"

definition next_config :: "unit assist_config" where
  "next_config = next_base\<lparr>sc_resume := Some kept_authority\<rparr>"

definition next_supplier :: "unit assist_supplier" where
  "next_supplier = set_ready next_config True (enable next_config True (new_supplier next_config () 1000))"

definition kept_config :: consumer_config where
  "kept_config = \<lparr>cc_consumer = jlit ''C'', cc_hmac = (\<lambda>k m. m), cc_number = (\<lambda>l. 300000)\<rparr>"

definition kept_consumer :: "bool consumer" where
  "kept_consumer = adopt (pair_grant\<lparr>ar_payload := json_bytes (object [(''resume'', authority_json kept_authority)])\<rparr>)
     (new_consumer (next_identity\<lparr>ai_generation := jlit ''g1''\<rparr>) False 2000)"

lemma kept_consumer_ready: "consumer_ready kept_config kept_authority next_identity kept_consumer"
proof -
  have "read_authority kept_config (authority_json kept_authority) = Some kept_authority"
    by (rule read_authority_back) (simp add: kept_config_def kept_authority_def)
  moreover have "json_plain (object [(''resume'', authority_json kept_authority)])" by (simp add: authority_plain)
  ultimately have "grant_authority kept_config kept_consumer = Inr (Some kept_authority)"
    by (simp add: grant_authority_def kept_consumer_def adopt_def pair_grant_def new_consumer_def result_value_def json_bytes_back assist_result_def)
  then show ?thesis
    by (simp add: consumer_ready_def kept_consumer_def adopt_def pair_grant_def new_consumer_def authority_for_def assist_result_def
        kept_authority_def next_identity_def kept_config_def)
qed

lemma next_supplier_ready: "supplier_ready kept_authority next_supplier" "jm_get (ap_offers next_supplier) k = None"
proof -
  have scope: "resume_scope next_config = resume_scope next_base" by (simp add: resume_scope_def next_config_def)
  have "initial_authority next_config 1000 = Some (0, kept_authority)"
  proof -
    have "sc_resume next_config = Some kept_authority" "sc_identity next_config = next_identity" by (simp_all add: next_config_def next_base_def)
    then show ?thesis by (simp add: initial_authority_def scope) (simp add: kept_authority_def next_identity_def)
  qed
  then show "supplier_ready kept_authority next_supplier" "jm_get (ap_offers next_supplier) k = None"
    by (simp_all add: supplier_ready_def next_supplier_def set_ready_def enable_def new_supplier_def changed_def Let_def) (simp add: kept_authority_def)
qed

theorem resume_handshake_witness:
  "\<exists>q S' out t. steps (assist_step next_config) next_supplier
        [Receives q (jlit ''u''), CryptoSettles (ap_fresh next_supplier) True (jlit ''u'') (jlit ''k2''), CryptoSettles (ap_fresh next_supplier) True (jlit ''u'') (jlit ''k2'')] S'
     \<and> ap_active S' = Some (jlit ''u'') \<and> map_option snd (cs_grant (t :: bool consumer)) = Some out \<and> cs_route t
     \<and> grant_authority kept_config t = Inr (map_option snd (ap_authority S'))"
proof -
  have config: "sc_identity next_config = next_identity" "cc_hmac kept_config = sc_hmac next_config" "json_plain (sc_capabilities next_config)"
    "cc_consumer kept_config \<noteq> []" "cc_number kept_config (dec_int (ra_expires kept_authority)) = ra_expires kept_authority"
    by (simp_all add: next_config_def next_base_def kept_config_def kept_authority_def)
  have state: "ap_now next_supplier = 1000" "cs_now kept_consumer = 2000" "cs_ended kept_consumer = []"
    by (simp_all add: next_supplier_def set_ready_def enable_def new_supplier_def changed_def Let_def kept_consumer_def adopt_def pair_grant_def
        new_consumer_def assist_result_def)
  show ?thesis
    using resume_handshake [of kept_config kept_authority next_config kept_consumer next_supplier "jlit ''n''" "jlit ''u''" True "jlit ''k2''"]
      kept_consumer_ready next_supplier_ready config state by (simp add: jlit_def) blast
qed

end
