(* ===== verification/Grip_Tap.thy ===== *)
theory Grip_Tap
  imports Binder Js_Write
begin

text \<open>
  The grip adapter of \<open>src/grip/index.ts\<close>: a tap that mounts a binding instance while it is attached,
  shows the projection of the instance's events, and writes to it.

  The engine of taps, grips and contexts (\<open>@owebeeone/grip-core\<close>) is not in the repository. What the
  adapter sees of it are the values of its parameter grips, which an operation that reads them is
  given, and what it hands over are the values it publishes, kept in \<open>tp_published\<close>. The application's
  codec and projection are taken to return. The taps of one registry are kept together, because what one
  of them writes reaches the others.
\<close>

subsection \<open>Fills\<close>

text \<open>A parameter grip is a number; its value, after \<open>String\<close>, is absent while it is undefined or null.\<close>

datatype fill_part = Literal jstr | Param nat

record fill_spec =
  fs_domain :: fill_part
  fs_zone :: "fill_part option"
  fs_key :: "fill_part option"

definition fill_param_grips :: "fill_spec \<Rightarrow> nat list" where
  "fill_param_grips spec =
     concat (map (\<lambda>part. case part of Some (Param g) \<Rightarrow> [g] | _ \<Rightarrow> []) [Some (fs_domain spec), fs_zone spec, fs_key spec])"

definition same_fill :: "fill \<Rightarrow> fill \<Rightarrow> bool" where
  "same_fill a b \<longleftrightarrow> fl_domain a = fl_domain b \<and> or_empty (fl_zone a) = or_empty (fl_zone b) \<and> or_empty (fl_key a) = or_empty (fl_key b)"

text \<open>\<open>partValue\<close>: \<open>None\<close> is the code's \<open>null\<close>, \<open>Some None\<close> its \<open>undefined\<close>.\<close>

definition part_value :: "(nat \<Rightarrow> jstr option) \<Rightarrow> fill_part option \<Rightarrow> jstr option option" where
  "part_value params part =
     (case part of
        None \<Rightarrow> Some None
      | Some (Literal s) \<Rightarrow> Some (Some s)
      | Some (Param g) \<Rightarrow> (case params g of None \<Rightarrow> None | Some s \<Rightarrow> Some (Some s)))"

definition derive_fill :: "fill_spec \<Rightarrow> (nat \<Rightarrow> jstr option) \<Rightarrow> fill option" where
  "derive_fill spec params =
     (case part_value params (Some (fs_domain spec)) of
        None \<Rightarrow> None
      | Some None \<Rightarrow> None
      | Some (Some domain) \<Rightarrow>
          (case part_value params (fs_zone spec) of
             None \<Rightarrow> None
           | Some zone \<Rightarrow>
               (case part_value params (fs_key spec) of
                  None \<Rightarrow> None
                | Some key \<Rightarrow> Some \<lparr>fl_domain = domain, fl_zone = zone, fl_key = key\<rparr>)))"

subsection \<open>The tap\<close>

text \<open>What a grip carries: a decoded whole, the decoded log, a text state, or what \<open>projectEvent\<close> makes.\<close>

datatype 'v tap_value = Decoded 'v | DecodedLog "'v list" | TextShown text_state | Projected 'v

record 'v tap_config =
  tc_decl :: binding_decl
  tc_fill :: fill_spec
  tc_encode :: "'v \<Rightarrow> bytes"
  tc_decode :: "bytes \<Rightarrow> 'v"
  tc_default :: "'v option"
  tc_text_profile :: bool
  tc_project :: "(instance_event \<Rightarrow> 'v option) option"
  tc_glade_for :: "fill \<Rightarrow> nat option"

record 'v tap =
  tp_config :: "'v tap_config"
  tp_adapter :: shape_adapter
  tp_mounted :: "nat option"
  tp_fill :: "fill option"
  tp_current :: "'v tap_value option"
  tp_listeners :: "nat list"
  tp_published :: "'v tap_value option list"

datatype tap_error = WrongShape string | WriteBeforeMount | BinderFails bind_error | InstanceFails inst_error

definition new_tap :: "'v tap_config \<Rightarrow> bind_error + 'v tap" where
  "new_tap C =
     (case require_mount_shape_adapter (bd_shape (tc_decl C)) (jlit ''grip adapter'') of
        Inl u \<Rightarrow> Inl (ShapeFail u)
      | Inr ad \<Rightarrow>
          if ad_shape ad = Crdt \<and> \<not> tc_text_profile C then Inl (ProfileFail ''crdtProfile text_crdt is required'')
          else Inr \<lparr>tp_config = C, tp_adapter = ad, tp_mounted = None, tp_fill = None, tp_current = None, tp_listeners = [], tp_published = []\<rparr>)"

text \<open>The default codec; decoding gives \<open>None\<close> when it throws.\<close>

definition json_codec_encode :: "json option \<Rightarrow> bytes" where
  "json_codec_encode v = utf8 (json_stringify (case v of None \<Rightarrow> JNull | Some w \<Rightarrow> w))"

definition json_codec_decode :: "bytes \<Rightarrow> json option" where
  "json_codec_decode b = json_parse (from_utf8 b)"

subsection \<open>Events\<close>

definition assemble :: "'v tap \<Rightarrow> instance_event \<Rightarrow> 'v tap_value option" where
  "assemble t e =
     (let C = tp_config t; shape = ad_shape (tp_adapter t); absent = map_option Decoded (tc_default C) in
      case tc_project C of
        Some project \<Rightarrow> map_option Projected (project e)
      | None \<Rightarrow>
          if shape = Log
          then Some (DecodedLog (map (\<lambda>r. tc_decode C (lr_payload r)) (case ie_records e of None \<Rightarrow> [] | Some rs \<Rightarrow> rs)))
          else if shape = Swmr
          then (case Option.bind (ie_swmr e) sa_value of None \<Rightarrow> absent | Some v \<Rightarrow> Some (Decoded (tc_decode C v)))
          else if shape = Crdt then map_option TextShown (ie_crdt e)
          else if ie_empty e then absent
          else (case ie_value e of None \<Rightarrow> absent | Some v \<Rightarrow> Some (Decoded (tc_decode C v))))"

definition produce :: "'v tap \<Rightarrow> 'v tap" where
  "produce t = t\<lparr>tp_published := tp_published t @ [tp_current t]\<rparr>"

definition on_instance_event :: "'v tap \<Rightarrow> instance_event \<Rightarrow> 'v tap" where
  "on_instance_event t e = produce (t\<lparr>tp_current := assemble t e\<rparr>)"

text \<open>
  Each mount passes a listener of its own that calls \<open>onInstanceEvent\<close>; the tap hears the events
  handed to any of them.
\<close>

definition heard :: "'v tap \<Rightarrow> (nat \<times> instance_event) list \<Rightarrow> instance_event list" where
  "heard t out = map snd (filter (\<lambda>(l, e). l \<in> set (tp_listeners t)) out)"

definition hear :: "(nat \<times> instance_event) list \<Rightarrow> 'v tap \<Rightarrow> 'v tap" where
  "hear out t = foldl on_instance_event t (heard t out)"

subsection \<open>Mounting\<close>

text \<open>
  The operations of a tap work on the tap, the registry and the number of the next listener. When
  the new mount fails, the tap keeps the handle of the old one, which it has released.
\<close>

type_synonym ('e, 'd, 'n, 'v) tap_state = "'v tap \<times> ('e, 'd, 'n) registry \<times> nat"

definition sync_mount :: "('e, 'd, 'n, 'k, 't, 'w) binder_env \<Rightarrow> (nat \<Rightarrow> jstr option) \<Rightarrow> ('e, 'd, 'n, 'v) tap_state
    \<Rightarrow> ('e, 'd, 'n, 'v) tap_state \<times> (tap_error + unit)" where
  "sync_mount B params s =
     (case s of (t, b, l) \<Rightarrow>
        (case derive_fill (tc_fill (tp_config t)) params of
           None \<Rightarrow> (s, Inr ())
         | Some fill \<Rightarrow>
             if (case tp_fill t of None \<Rightarrow> False | Some current \<Rightarrow> same_fill current fill) then (s, Inr ())
             else
               (case (case tp_mounted t of None \<Rightarrow> (b, Inr ()) | Some h \<Rightarrow> unmount B h b) of
                  (b1, Inl e) \<Rightarrow> ((t, b1, l), Inl (InstanceFails e))
                | (b1, Inr _) \<Rightarrow>
                    (let t1 = t\<lparr>tp_fill := Some fill, tp_listeners := tp_listeners t @ [l]\<rparr>;
                         config = \<lparr>mc_glade = tc_glade_for (tp_config t) fill, mc_text_profile = tc_text_profile (tp_config t)\<rparr> in
                     case mount_binding B (tc_decl (tp_config t)) fill (Some l) config b1 of
                       (b2, Inl e) \<Rightarrow> ((t1, b2, l + 1), Inl (BinderFails e))
                     | (b2, Inr h) \<Rightarrow> ((t1\<lparr>tp_mounted := Some h\<rparr>, b2, l + 1), Inr ())))))"

definition on_detach :: "('e, 'd, 'n, 'k, 't, 'w) binder_env \<Rightarrow> ('e, 'd, 'n, 'v) tap_state \<Rightarrow> ('e, 'd, 'n, 'v) tap_state \<times> (tap_error + unit)" where
  "on_detach B s =
     (case s of (t, b, l) \<Rightarrow>
        (case (case tp_mounted t of None \<Rightarrow> (b, Inr ()) | Some h \<Rightarrow> unmount B h b) of
           (b1, Inl e) \<Rightarrow> ((t, b1, l), Inl (InstanceFails e))
         | (b1, Inr _) \<Rightarrow> ((t\<lparr>tp_mounted := None, tp_fill := None, tp_current := None\<rparr>, b1, l), Inr ())))"

subsection \<open>Writing\<close>

text \<open>A call of a method of the mounted instance.\<close>

definition on_mounted :: "('e, 'd, 'n, 'k, 't, 'w) binder_env \<Rightarrow> (('e, 'd, 'n, 'k, 't, 'w) env \<Rightarrow> ('e, 'd, 'n, 'a) act) \<Rightarrow> ('e, 'd, 'n, 'v) tap_state
    \<Rightarrow> ('e, 'd, 'n, 'v) tap_state \<times> (tap_error + unit)" where
  "on_mounted B m s =
     (case s of (t, b, l) \<Rightarrow>
        (case tp_mounted t of
           None \<Rightarrow> (s, Inl WriteBeforeMount)
         | Some h \<Rightarrow>
             (let a = mt_inst (bn_mounts b ! h) in
              case call_at a (m (env_at B (he_dest (bn_heap b ! a)))) b of
                (b', Inl e) \<Rightarrow> ((t, b', l), Inl (InstanceFails e))
              | (b', Inr _) \<Rightarrow> ((t, b', l), Inr ()))))"

definition shape_is :: "delivery_shape \<Rightarrow> 'v tap \<Rightarrow> bool" where
  "shape_is shape t \<longleftrightarrow> ad_shape (tp_adapter t) = shape"

definition tap_set :: "('e, 'd, 'n, 'k, 't, 'w) binder_env \<Rightarrow> 'v \<Rightarrow> ('e, 'd, 'n, 'v) tap_state \<Rightarrow> ('e, 'd, 'n, 'v) tap_state \<times> (tap_error + unit)" where
  "tap_set B v s =
     (if \<not> shape_is Value (fst s) then (s, Inl (WrongShape ''set() is a value-shape op; use append() for a log''))
      else on_mounted B (\<lambda>V. write_payload V (tc_encode (tp_config (fst s)) v)) s)"

definition tap_append :: "('e, 'd, 'n, 'k, 't, 'w) binder_env \<Rightarrow> 'v \<Rightarrow> ('e, 'd, 'n, 'v) tap_state \<Rightarrow> ('e, 'd, 'n, 'v) tap_state \<times> (tap_error + unit)" where
  "tap_append B v s =
     (if \<not> shape_is Log (fst s) then (s, Inl (WrongShape ''append() is a log-shape op; use set() for a value''))
      else on_mounted B (\<lambda>V. write_payload V (tc_encode (tp_config (fst s)) v)) s)"

definition tap_write_swmr :: "('e, 'd, 'n, 'k, 't, 'w) binder_env \<Rightarrow> swmr_action \<Rightarrow> bytes \<Rightarrow> ('e, 'd, 'n, 'v) tap_state \<Rightarrow> ('e, 'd, 'n, 'v) tap_state \<times> (tap_error + unit)" where
  "tap_write_swmr B action payload s =
     (if \<not> shape_is Swmr (fst s) then (s, Inl (WrongShape ''is an swmr-shape op'')) else on_mounted B (\<lambda>V. write_swmr V action payload) s)"

definition tap_snapshot :: "('e, 'd, 'n, 'k, 't, 'w) binder_env \<Rightarrow> 'v \<Rightarrow> ('e, 'd, 'n, 'v) tap_state \<Rightarrow> ('e, 'd, 'n, 'v) tap_state \<times> (tap_error + unit)" where
  "tap_snapshot B v s = tap_write_swmr B Snapshot (tc_encode (tp_config (fst s)) v) s"

definition tap_delta :: "('e, 'd, 'n, 'k, 't, 'w) binder_env \<Rightarrow> 'v \<Rightarrow> ('e, 'd, 'n, 'v) tap_state \<Rightarrow> ('e, 'd, 'n, 'v) tap_state \<times> (tap_error + unit)" where
  "tap_delta B v s = tap_write_swmr B Delta (tc_encode (tp_config (fst s)) v) s"

definition tap_reset :: "('e, 'd, 'n, 'k, 't, 'w) binder_env \<Rightarrow> 'v option \<Rightarrow> ('e, 'd, 'n, 'v) tap_state \<Rightarrow> ('e, 'd, 'n, 'v) tap_state \<times> (tap_error + unit)" where
  "tap_reset B detail s = tap_write_swmr B Reset (case detail of None \<Rightarrow> [] | Some v \<Rightarrow> tc_encode (tp_config (fst s)) v) s"

definition tap_replace_text :: "('e, 'd, 'n, 'k, 't, 'w) binder_env \<Rightarrow> jstr \<Rightarrow> ('e, 'd, 'n, 'v) tap_state \<Rightarrow> ('e, 'd, 'n, 'v) tap_state \<times> (tap_error + unit)" where
  "tap_replace_text B next_text s =
     (if \<not> shape_is Crdt (fst s) \<or> \<not> tc_text_profile (tp_config (fst s))
      then (s, Inl (WrongShape ''replaceText() is a text_crdt profile operation'')) else on_mounted B (\<lambda>V. replace_text V next_text) s)"

subsection \<open>The taps of a registry\<close>

datatype 'v tap_call =
  Attach "nat \<Rightarrow> jstr option" | ParamsChange "nat \<Rightarrow> jstr option" | Detach
| SetValue 'v | AppendEntry 'v | SnapshotValue 'v | DeltaValue 'v | ResetValue "'v option" | ReplaceText jstr

fun call_tap :: "('e, 'd, 'n, 'k, 't, 'w) binder_env \<Rightarrow> 'v tap_call \<Rightarrow> ('e, 'd, 'n, 'v) tap_state \<Rightarrow> ('e, 'd, 'n, 'v) tap_state \<times> (tap_error + unit)" where
  "call_tap B (Attach params) = sync_mount B params"
| "call_tap B (ParamsChange params) = sync_mount B params"
| "call_tap B Detach = on_detach B"
| "call_tap B (SetValue v) = tap_set B v"
| "call_tap B (AppendEntry v) = tap_append B v"
| "call_tap B (SnapshotValue v) = tap_snapshot B v"
| "call_tap B (DeltaValue v) = tap_delta B v"
| "call_tap B (ResetValue detail) = tap_reset B detail"
| "call_tap B (ReplaceText s) = tap_replace_text B s"

record ('e, 'd, 'n, 'v) tap_host =
  th_registry :: "('e, 'd, 'n) registry"
  th_taps :: "'v tap list"
  th_next :: nat

text \<open>
  A call of a tap, or operations that a destination delivers to an instance. The taps hear what it
  handed out; the flag says whether the call returned.
\<close>

datatype 'v host_input = Calls nat "'v tap_call" | Delivers nat "stored_op list"

definition handed :: "('e, 'd, 'n) registry \<Rightarrow> ('e, 'd, 'n) registry \<Rightarrow> (nat \<times> instance_event) list" where
  "handed b b' = drop (length (bn_out b)) (bn_out b')"

fun host_step :: "('e, 'd, 'n, 'k, 't, 'w) binder_env \<Rightarrow> 'v host_input \<Rightarrow> ('e, 'd, 'n, 'v) tap_host \<Rightarrow> ('e, 'd, 'n, 'v) tap_host \<times> bool" where
  "host_step B (Calls k c) H =
     (if k < length (th_taps H)
      then (case call_tap B c (th_taps H ! k, th_registry H, th_next H) of
              ((t, b, l), r) \<Rightarrow>
                (\<lparr>th_registry = b, th_taps = map (hear (handed (th_registry H) b)) ((th_taps H)[k := t]), th_next = l\<rparr>, r = Inr ()))
      else (H, True))"
| "host_step B (Delivers a ops) H =
     (if a < length (bn_heap (th_registry H))
      then (case call_at a (ingest (env_at B (he_dest (bn_heap (th_registry H) ! a))) ops) (th_registry H) of
              (b, r) \<Rightarrow> (H\<lparr>th_registry := b, th_taps := map (hear (handed (th_registry H) b)) (th_taps H)\<rparr>, r = Inr ()))
      else (H, True))"

fun host_run :: "('e, 'd, 'n, 'k, 't, 'w) binder_env \<Rightarrow> 'v host_input list \<Rightarrow> ('e, 'd, 'n, 'v) tap_host \<Rightarrow> ('e, 'd, 'n, 'v) tap_host \<times> bool" where
  "host_run B [] H = (H, True)"
| "host_run B (i # ins) H =
     (case host_step B i H of (H1, ok1) \<Rightarrow> (case host_run B ins H1 of (H2, ok2) \<Rightarrow> (H2, ok1 \<and> ok2)))"

definition new_host :: "'e \<Rightarrow> 'd \<Rightarrow> 'v tap list \<Rightarrow> ('e, 'd, 'n, 'v) tap_host" where
  "new_host e d taps = \<lparr>th_registry = binder_new e d, th_taps = taps, th_next = 0\<rparr>"

end
