(* ===== verification/Tap_Mounts.thy ===== *)
theory Tap_Mounts
  imports Grip_Tap
begin

text \<open>
  What the taps of a registry keep: a tap that is given its parameters holds exactly one live mount,
  of the instance of its fill, a detached one holds none, and what a tap publishes are the
  projections of the events that its mounts were handed.
\<close>

subsection \<open>Writes\<close>

lemma keeps_echo_batches [keeps]: "keeps_count (echo_batches V steps)"
proof (induction steps)
  case (Cons p steps)
  then show ?case by (cases p) (simp add: keeps)
qed (simp add: keeps)

lemma keeps_sent [keeps]: "keeps_count (\<lambda>s. (s\<lparr>cx_dest := d\<rparr>, r))"
  by (simp add: keeps_count_def)

lemma keeps_glade_send [keeps]: "keeps_count (glade_send V payload)"
proof -
  have "keeps_count (andthen (echo_batches V steps) (\<lambda>_ s. (s\<lparr>cx_dest := d\<rparr>, r)))" for steps d and r :: "inst_error + stored_op"
    by (intro keeps)
  note * = keeps_countD [OF this] keeps_outD [OF this]
  show ?thesis by (simp add: keeps_count_def glade_send_def * split: prod.split)
qed

lemma keeps_land_op [keeps]: "keeps_count (land_op V op)"
  unfolding land_op_def by (intro keeps)

lemma keeps_preflight_write [keeps]: "keeps_count (preflight_write V payload)"
proof -
  have "keeps_count (andthen (store_all V) (\<lambda>ops. preflight_swmr V [mint_op (en_lc V) Swmr ops o' payload]))" for o'
    by (intro keeps)
  note * = keeps_countD [OF this] keeps_outD [OF this]
  show ?thesis by (simp add: keeps_count_def preflight_write_def Let_def * split: option.split)
qed

lemma keeps_write_payload [keeps]: "keeps_count (write_payload V payload)"
  unfolding write_payload_def by (intro keeps)

lemma keeps_write_swmr [keeps]: "keeps_count (write_swmr V action payload)"
  unfolding write_swmr_def by (intro keeps)

lemma keeps_replace_loop [keeps]: "keeps_count (replace_loop V edits sequence lamport heads)"
  by (induction edits arbitrary: sequence lamport heads) (simp_all add: keeps push_batch_def)

lemma keeps_run_batch [keeps]:
  assumes "keeps_count body"
  shows "keeps_count (run_batch V body)"
  unfolding keeps_count_def
proof
  fix s
  obtain s1 r where body: "body (s\<lparr>cx_inst := (cx_inst s)\<lparr>in_text_batch := Some []\<rparr>\<rparr>) = (s1, r)"
    by (cases "body (s\<lparr>cx_inst := (cx_inst s)\<lparr>in_text_batch := Some []\<rparr>\<rparr>)")
  let ?batch = "case in_text_batch (cx_inst s1) of None \<Rightarrow> [] | Some b \<Rightarrow> b" and ?s2 = "s1\<lparr>cx_inst := (cx_inst s1)\<lparr>in_text_batch := None\<rparr>\<rparr>"
  have 1: "in_refcount (cx_inst s1) = in_refcount (cx_inst s)" "extends (cx_out s) (cx_out s1)"
    using keeps_countD [OF assms, of "s\<lparr>cx_inst := (cx_inst s)\<lparr>in_text_batch := Some []\<rparr>\<rparr>"]
      keeps_outD [OF assms, of "s\<lparr>cx_inst := (cx_inst s)\<lparr>in_text_batch := Some []\<rparr>\<rparr>"] by (simp_all add: body)
  obtain s3 q where s3: "ingest V ?batch ?s2 = (s3, q)" by (cases "ingest V ?batch ?s2")
  have 2: "in_refcount (cx_inst s3) = in_refcount (cx_inst s1)" "extends (cx_out s1) (cx_out s3)"
    using keeps_countD [OF keeps_ingest, of V ?batch ?s2] keeps_outD [OF keeps_ingest, of ?s2 V ?batch] by (simp_all add: s3)
  have "fst (run_batch V body s) = (if ?batch = [] then ?s2 else s3)"
    by (cases q) (simp_all add: run_batch_def body Let_def s3)
  with 1 2 show "in_refcount (cx_inst (fst (run_batch V body s))) = in_refcount (cx_inst s) \<and> extends (cx_out s) (cx_out (fst (run_batch V body s)))"
    using extends_trans by auto
qed

lemma keeps_diagonal: "(\<And>s0. keeps_count (m s0)) \<Longrightarrow> keeps_count (\<lambda>s. m s s)"
  by (simp add: keeps_count_def)

lemma keeps_replace_text [keeps]: "keeps_count (replace_text V next_text)"
  unfolding replace_text_def Let_def by (rule keeps_diagonal) (intro keeps; simp)

subsection \<open>What a client sees of the registry\<close>

lemma call_at_out: "keeps_count m \<Longrightarrow> extends (bn_out b) (bn_out (fst (call_at a m b)))"
  using keeps_outD [of m "entry_ctx b (he_inst (bn_heap b ! a))"]
  by (cases "m (entry_ctx b (he_inst (bn_heap b ! a)))") (simp add: call_at_def entry_ctx_def)

lemma call_at_out_if: "keeps_count m \<Longrightarrow> bn_out b = out \<Longrightarrow> extends out (bn_out (fst (call_at a m b)))"
  using call_at_out by blast

lemma bump_out: "bn_out (fst (call_at a (bump k) b)) = bn_out b"
  by (simp add: call_at_def bump_def mod_inst_def entry_ctx_def)

lemma create_out: "create_instance B decl key profile b = (b', r) \<Longrightarrow> extends (bn_out b) (bn_out b')"
proof -
  assume c: "create_instance B decl key profile b = (b', r)"
  obtain e store where e: "ei_open (en_engine (be_env B)) key (bn_engine b) = (e, store)" by (cases "ei_open (en_engine (be_env B)) key (bn_engine b)")
  have "extends (bn_out b) (bn_out (fst (call_at a (hydrate (be_env B)) (b\<lparr>bn_engine := e, bn_heap := hs\<rparr>))))" for a hs
    using call_at_out [OF keeps_methods(1), of "b\<lparr>bn_engine := e, bn_heap := hs\<rparr>" a] by simp
  then show ?thesis using c
    by (auto simp: create_instance_def e Let_def split: sum.splits prod.splits) (metis fst_conv)+
qed

lemma attach_out: "extends (bn_out b) (bn_out (fst (attach_at B a n b)))"
  by (simp add: attach_at_def Let_def call_at_out_if keeps)

lemma finish_out:
  assumes "finish_mount B a key listener b = (b', r)"
  shows "extends (bn_out b) (bn_out b')"
proof -
  let ?b1 = "fst (call_at a (bump 1) b)"
  define V where "V = env_at B (he_dest (bn_heap ?b1 ! a))"
  define p where "p = (case listener of None \<Rightarrow> (?b1, Inr ()) | Some l \<Rightarrow> call_at a (subscribe V l) ?b1)"
  have "extends (bn_out b) (bn_out (fst p))" by (simp add: p_def call_at_out_if keeps bump_out split: option.split)
  moreover obtain b2 q where p: "p = (b2, q)" by fastforce
  have "bn_out b' = bn_out b2"
    using assms p unfolding p_def V_def by (cases q) (auto simp: finish_mount_def Let_def)
  ultimately show ?thesis by (simp add: p)
qed

lemma mount_out:
  assumes "mount_binding B decl fill listener config b = (b', r)"
  shows "extends (bn_out b) (bn_out b')"
proof -
  let ?key = "instance_key (bd_glade_id decl) fill"
  have opened: "extends (bn_out b) (bn_out b1)"
    if "(case jm_get (bn_instances b) ?key of Some a \<Rightarrow> (b, Inr a) | None \<Rightarrow> create_instance B decl ?key profile b) = (b1, q)" for profile b1 q
    using that create_out by (cases "jm_get (bn_instances b) ?key") auto
  have attached: "extends (bn_out b1) (bn_out b2)"
    if "(case mc_glade config of None \<Rightarrow> (b1, Inr ()) | Some n \<Rightarrow> attach_at B a n b1) = (b2, q)" for a b1 b2 q
  proof (cases "mc_glade config")
    case (Some n)
    with that attach_out [of b1 B a n] show ?thesis by simp
  qed (use that in simp)
  show ?thesis
    using assms by (auto simp: mount_binding_def Let_def split: sum.splits if_splits prod.splits
        dest!: opened attached finish_out intro: extends_trans)
qed

lemma unmount_out: "extends (bn_out b) (bn_out (fst (unmount B h b)))"
proof -
  let ?mt = "bn_mounts b ! h" and ?a = "mt_inst (bn_mounts b ! h)"
  define b1 where "b1 = b\<lparr>bn_mounts := (bn_mounts b)[h := ?mt\<lparr>mt_live := False\<rparr>]\<rparr>"
  define b2 where "b2 = (case mt_listener ?mt of None \<Rightarrow> b1 | Some l \<Rightarrow> fst (call_at ?a (unsubscribe l) b1))"
  define b3 where "b3 = fst (call_at ?a (bump (- 1)) b2)"
  have "extends (bn_out b) (bn_out b2)" by (simp add: b2_def b1_def call_at_out_if keeps split: option.split)
  then have 3: "extends (bn_out b) (bn_out b3)" by (simp add: b3_def bump_out)
  have "extends (bn_out b3) (bn_out (fst (tear_down B ?a key b3)))" for key
  proof -
    obtain c q where c: "call_at ?a (dispose (env_at B (he_dest (bn_heap b3 ! ?a)))) b3 = (c, q)" by fastforce
    then have "extends (bn_out b3) (bn_out c)" using call_at_out [OF keeps_methods(3), of b3 ?a] by (metis fst_conv)
    then show ?thesis by (cases q) (simp_all add: tear_down_def c)
  qed
  with 3 have "extends (bn_out b) (bn_out (fst (tear_down B ?a key b3)))" for key using extends_trans by blast
  with 3 show ?thesis
    by (simp add: unmount_def Let_def b1_def [symmetric] b2_def [symmetric] b3_def [symmetric])
qed

text \<open>A mount that succeeds adds its handle; one that fails adds none.\<close>

lemma finish_handle:
  assumes "finish_mount B a key listener b = (b', r)"
  shows "case r of Inl _ \<Rightarrow> bn_mounts b' = bn_mounts b
    | Inr h \<Rightarrow> h = length (bn_mounts b) \<and> bn_mounts b' = bn_mounts b @ [\<lparr>mt_inst = a, mt_key = key, mt_listener = listener, mt_live = True\<rparr>]"
proof -
  let ?b1 = "fst (call_at a (bump 1) b)"
  define p where "p = (case listener of None \<Rightarrow> (?b1, Inr ()) | Some l \<Rightarrow> call_at a (subscribe (env_at B (he_dest (bn_heap ?b1 ! a))) l) ?b1)"
  obtain b2 q where p: "p = (b2, q)" by fastforce
  have "same_counts ?b1 (fst p)" by (simp add: p_def call_at_counts keeps split: option.split)
  then have "bn_mounts b2 = bn_mounts b" by (simp add: p same_counts_def bump_counts(2))
  then show ?thesis using assms p unfolding p_def by (cases q) (auto simp: finish_mount_def Let_def)
qed

lemma mount_handle:
  assumes "registry_inv b" "mount_binding B decl fill listener config b = (b', r)"
  shows "case r of Inl _ \<Rightarrow> bn_mounts b' = bn_mounts b
    | Inr h \<Rightarrow> h = length (bn_mounts b) \<and> (\<exists>a. bn_mounts b' = bn_mounts b
        @ [\<lparr>mt_inst = a, mt_key = instance_key (bd_glade_id decl) fill, mt_listener = listener, mt_live = True\<rparr>])"
proof -
  let ?key = "instance_key (bd_glade_id decl) fill"
  have opened: "bn_mounts b1 = bn_mounts b"
    if "(case jm_get (bn_instances b) ?key of Some a \<Rightarrow> (b, Inr a) | None \<Rightarrow> create_instance B decl ?key profile b) = (b1, q)" for profile b1 q
  proof (cases "jm_get (bn_instances b) ?key")
    case None
    with that create_counts [OF assms(1) None, of B decl profile b1 q] show ?thesis by simp
  qed (use that in simp)
  have attached: "bn_mounts b2 = bn_mounts b1"
    if "(case mc_glade config of None \<Rightarrow> (b1, Inr ()) | Some n \<Rightarrow> attach_at B a n b1) = (b2, q)" for a b1 b2 q
  proof (cases "mc_glade config")
    case (Some n)
    with that attach_at_counts [of b1 B a n] show ?thesis by (simp add: same_counts_def)
  qed (use that in simp)
  show ?thesis
    using assms(2) by (auto simp: mount_binding_def Let_def split: sum.splits if_splits prod.splits dest!: opened attached finish_handle)
qed

text \<open>Unmounting a live handle marks it.\<close>

lemma unmount_handle:
  assumes "mt_live (bn_mounts b ! h)"
  shows "bn_mounts (fst (unmount B h b)) = (bn_mounts b)[h := (bn_mounts b ! h)\<lparr>mt_live := False\<rparr>]"
proof -
  let ?mt = "bn_mounts b ! h" and ?a = "mt_inst (bn_mounts b ! h)"
  define b1 where "b1 = b\<lparr>bn_mounts := (bn_mounts b)[h := ?mt\<lparr>mt_live := False\<rparr>]\<rparr>"
  define b2 where "b2 = (case mt_listener ?mt of None \<Rightarrow> b1 | Some l \<Rightarrow> fst (call_at ?a (unsubscribe l) b1))"
  define b3 where "b3 = fst (call_at ?a (bump (- 1)) b2)"
  have "same_counts b1 b2" by (simp add: b2_def call_at_counts keeps split: option.split)
  then have 3: "bn_mounts b3 = bn_mounts b1" by (simp add: b3_def bump_counts(2) same_counts_def)
  have "bn_mounts (fst (tear_down B ?a key b3)) = bn_mounts b3" for key
  proof -
    obtain c q where c: "call_at ?a (dispose (env_at B (he_dest (bn_heap b3 ! ?a)))) b3 = (c, q)" by fastforce
    then have "same_counts b3 c" using call_at_counts [OF keeps_methods(3), of b3 ?a] by (metis fst_conv)
    then show ?thesis by (cases q) (simp_all add: tear_down_def c same_counts_def)
  qed
  with 3 assms show ?thesis
    by (simp add: unmount_def Let_def b1_def [symmetric] b2_def [symmetric] b3_def [symmetric]) (simp add: b1_def)
qed

subsection \<open>Handles\<close>

text \<open>Each of \<open>n\<close> clients holds at most one handle, and the live mounts are the handles that are held.\<close>

definition handles_ok :: "mount list \<Rightarrow> nat \<Rightarrow> (nat \<Rightarrow> nat option) \<Rightarrow> bool" where
  "handles_ok ms n hs \<longleftrightarrow> (\<forall>k < n. \<forall>h. hs k = Some h \<longrightarrow> h < length ms \<and> mt_live (ms ! h))
     \<and> (\<forall>j < n. \<forall>k < n. \<forall>h. hs j = Some h \<longrightarrow> hs k = Some h \<longrightarrow> j = k)
     \<and> (\<forall>h < length ms. mt_live (ms ! h) \<longrightarrow> (\<exists>k < n. hs k = Some h))"

lemma handles_live: "handles_ok ms n hs \<Longrightarrow> k < n \<Longrightarrow> hs k = Some h \<Longrightarrow> h < length ms \<and> mt_live (ms ! h)"
  and handles_inj: "handles_ok ms n hs \<Longrightarrow> j < n \<Longrightarrow> k < n \<Longrightarrow> hs j = Some h \<Longrightarrow> hs k = Some h \<Longrightarrow> j = k"
  and handles_owner: "handles_ok ms n hs \<Longrightarrow> h < length ms \<Longrightarrow> mt_live (ms ! h) \<Longrightarrow> \<exists>k < n. hs k = Some h"
  by (simp_all add: handles_ok_def)

lemma handles_cong:
  assumes "handles_ok ms n hs" "\<And>k. k < n \<Longrightarrow> hs' k = hs k"
  shows "handles_ok ms n hs'"
  unfolding handles_ok_def using handles_live [OF assms(1)] handles_inj [OF assms(1)] handles_owner [OF assms(1)] assms(2) by simp metis

lemma handles_release:
  assumes "handles_ok ms n hs" "k < n" "hs k = Some h"
  shows "handles_ok (ms[h := (ms ! h)\<lparr>mt_live := False\<rparr>]) n (hs(k := None))"
  unfolding handles_ok_def
proof (intro conjI allI impI)
  fix j i assume j: "j < n" "(hs(k := None)) j = Some i"
  then have "j \<noteq> k" "hs j = Some i" by (auto split: if_splits)
  moreover from this have "i \<noteq> h" using handles_inj [OF assms(1) j(1) assms(2) _ assms(3)] by blast
  ultimately show "i < length (ms[h := (ms ! h)\<lparr>mt_live := False\<rparr>])" "mt_live (ms[h := (ms ! h)\<lparr>mt_live := False\<rparr>] ! i)"
    using handles_live [OF assms(1) j(1)] by simp_all
next
  fix i j x assume "i < n" "j < n" "(hs(k := None)) i = Some x" "(hs(k := None)) j = Some x"
  then show "i = j" using handles_inj [OF assms(1)] by (simp split: if_splits)
next
  fix i assume i: "i < length (ms[h := (ms ! h)\<lparr>mt_live := False\<rparr>])" "mt_live (ms[h := (ms ! h)\<lparr>mt_live := False\<rparr>] ! i)"
  then have "i \<noteq> h" by auto
  with i obtain j where "j < n" "hs j = Some i" using handles_owner [OF assms(1), of i] by auto
  with \<open>i \<noteq> h\<close> assms(3) show "\<exists>j < n. (hs(k := None)) j = Some i" by (intro exI [of _ j]) auto
qed

lemma handles_take:
  assumes "handles_ok ms n hs" "k < n" "hs k = None" "mt_live mt"
  shows "handles_ok (ms @ [mt]) n (hs(k := Some (length ms)))"
  unfolding handles_ok_def
proof (intro conjI allI impI)
  fix j i assume "j < n" "(hs(k := Some (length ms))) j = Some i"
  then show "i < length (ms @ [mt])" "mt_live ((ms @ [mt]) ! i)"
    using handles_live [OF assms(1), of j i] assms(4) by (auto simp: nth_append split: if_splits)
next
  fix i j x assume x: "i < n" "j < n" "(hs(k := Some (length ms))) i = Some x" "(hs(k := Some (length ms))) j = Some x"
  then show "i = j" using handles_inj [OF assms(1), of i j x] handles_live [OF assms(1), of i x] handles_live [OF assms(1), of j x]
    by (auto split: if_splits)
next
  fix i assume i: "i < length (ms @ [mt])" "mt_live ((ms @ [mt]) ! i)"
  show "\<exists>j < n. (hs(k := Some (length ms))) j = Some i"
  proof (cases "i = length ms")
    case False
    with i obtain j where "j < n" "hs j = Some i" using handles_owner [OF assms(1), of i] by (auto simp: nth_append)
    with assms(3) show ?thesis by (intro exI [of _ j]) auto
  qed (use assms(2) in auto)
qed

lemma handles_count:
  assumes "handles_ok ms n hs"
  shows "length (filter (\<lambda>mt. mt_live mt \<and> P mt) ms) = card {k. k < n \<and> (\<exists>h. hs k = Some h \<and> P (ms ! h))}"
proof -
  let ?K = "{k. k < n \<and> (\<exists>h. hs k = Some h \<and> P (ms ! h))}" and ?H = "{h. h < length ms \<and> mt_live (ms ! h) \<and> P (ms ! h)}"
  have "bij_betw (\<lambda>k. the (hs k)) ?K ?H"
    unfolding bij_betw_def
  proof (intro conjI equalityI subsetI)
    show "inj_on (\<lambda>k. the (hs k)) ?K" using handles_inj [OF assms] by (fastforce simp: inj_on_def)
    show "h \<in> ?H" if "h \<in> (\<lambda>k. the (hs k)) ` ?K" for h using that handles_live [OF assms] by force
    show "h \<in> (\<lambda>k. the (hs k)) ` ?K" if h: "h \<in> ?H" for h
    proof -
      obtain k where "k < n" "hs k = Some h" using handles_owner [OF assms, of h] h by blast
      with h show ?thesis by (intro image_eqI [of _ _ k]) auto
    qed
  qed
  then have "card ?K = card ?H" by (rule bij_betw_same_card)
  then show ?thesis by (simp add: length_filter_conv_card)
qed

subsection \<open>Fills and keys\<close>

lemma same_fill_key: "same_fill a b \<Longrightarrow> instance_key g a = instance_key g b"
  by (simp add: same_fill_def instance_key_def)

lemma nul_split: "0 \<notin> set a \<Longrightarrow> 0 \<notin> set b \<Longrightarrow> a @ (0::16 word) # x = b @ 0 # y \<Longrightarrow> a = b \<and> x = y"
proof (induction a arbitrary: b)
  case Nil
  then show ?case by (cases b) auto
next
  case (Cons c a)
  then show ?case by (cases b) auto
qed

text \<open>On fills without NUL, the fills that a tap takes for the same are those with the same instance.\<close>

lemma same_fill_iff_key:
  assumes "0 \<notin> set (fl_domain a)" "0 \<notin> set (fl_domain b)" "0 \<notin> set (or_empty (fl_zone a))" "0 \<notin> set (or_empty (fl_zone b))"
  shows "same_fill a b \<longleftrightarrow> instance_key g a = instance_key g b"
proof
  assume "instance_key g a = instance_key g b"
  then have "fl_domain a @ 0 # or_empty (fl_zone a) @ 0 # or_empty (fl_key a) = fl_domain b @ 0 # or_empty (fl_zone b) @ 0 # or_empty (fl_key b)"
    by (simp add: instance_key_def)
  from nul_split [OF assms(1,2) this] show "same_fill a b" using nul_split [OF assms(3,4)] unfolding same_fill_def by blast
qed (rule same_fill_key)

subsection \<open>The invariant\<close>

text \<open>The fill that the calls of a tap leave it with: the last that its parameters gave, since it was detached.\<close>

definition wants :: "fill_spec \<Rightarrow> nat \<Rightarrow> 'v host_input \<Rightarrow> fill option \<Rightarrow> fill option" where
  "wants spec k i w =
     (case i of
        Calls j (Attach params) \<Rightarrow> if j = k \<and> derive_fill spec params \<noteq> None then derive_fill spec params else w
      | Calls j (ParamsChange params) \<Rightarrow> if j = k \<and> derive_fill spec params \<noteq> None then derive_fill spec params else w
      | Calls j Detach \<Rightarrow> if j = k then None else w
      | _ \<Rightarrow> w)"

definition wanted :: "fill_spec \<Rightarrow> nat \<Rightarrow> 'v host_input list \<Rightarrow> fill option" where
  "wanted spec k ins = foldl (\<lambda>w i. wants spec k i w) None ins"

definition tap_holds :: "mount list \<Rightarrow> 'v tap \<Rightarrow> fill option \<Rightarrow> bool" where
  "tap_holds ms t w \<longleftrightarrow>
     (case w of
        None \<Rightarrow> tp_mounted t = None \<and> tp_fill t = None
      | Some f \<Rightarrow> (\<exists>h g. tp_mounted t = Some h \<and> mt_key (ms ! h) = instance_key (bd_glade_id (tc_decl (tp_config t))) f
          \<and> tp_fill t = Some g \<and> same_fill g f))"

definition host_ok :: "('e, 'd, 'n, 'v) tap_host \<Rightarrow> (nat \<Rightarrow> fill option) \<Rightarrow> bool" where
  "host_ok H w \<longleftrightarrow> registry_inv (th_registry H) \<and> registry_exact (th_registry H)
     \<and> handles_ok (bn_mounts (th_registry H)) (length (th_taps H)) (\<lambda>k. tp_mounted (th_taps H ! k))
     \<and> (\<forall>k < length (th_taps H). tap_holds (bn_mounts (th_registry H)) (th_taps H ! k) (w k))"

lemma same_fill_trans: "same_fill a b \<Longrightarrow> same_fill a c \<Longrightarrow> same_fill b c"
  by (simp add: same_fill_def)

definition keys_kept :: "mount list \<Rightarrow> mount list \<Rightarrow> bool" where
  "keys_kept ms ms' \<longleftrightarrow> length ms \<le> length ms' \<and> (\<forall>h < length ms. mt_key (ms' ! h) = mt_key (ms ! h))"

lemma keys_kept_simps [simp]: "keys_kept ms ms" "keys_kept ms (ms @ ns)" "keys_kept ms (ms[h := (ms ! h)\<lparr>mt_live := b\<rparr>])"
  by (simp_all add: keys_kept_def nth_append nth_update_sel [where f = mt_key])

lemma keys_kept_trans: "keys_kept ms ns \<Longrightarrow> keys_kept ns os \<Longrightarrow> keys_kept ms os"
  by (auto simp: keys_kept_def)

lemma tap_holds_kept:
  "tap_holds ms t w \<Longrightarrow> keys_kept ms ms' \<Longrightarrow> (\<And>h. tp_mounted t = Some h \<Longrightarrow> h < length ms) \<Longrightarrow> tap_holds ms' t w"
  by (fastforce simp: tap_holds_def keys_kept_def split: option.splits)

text \<open>What a call of tap \<open>k\<close> establishes.\<close>

definition kept_by :: "('e, 'd, 'n) registry \<Rightarrow> nat \<Rightarrow> (nat \<Rightarrow> nat option) \<Rightarrow> nat \<Rightarrow> fill option \<Rightarrow> 'v tap \<Rightarrow> ('e, 'd, 'n) registry \<Rightarrow> 'v tap \<Rightarrow> bool" where
  "kept_by b n hs k w t b' t' \<longleftrightarrow> registry_inv b' \<and> registry_exact b' \<and> handles_ok (bn_mounts b') n (hs(k := tp_mounted t'))
     \<and> tap_holds (bn_mounts b') t' w \<and> keys_kept (bn_mounts b) (bn_mounts b') \<and> tp_config t' = tp_config t"

lemma released:
  assumes "registry_inv b" "registry_exact b" "handles_ok (bn_mounts b) n hs" "k < n" "hs k = tp_mounted t"
    and "(case tp_mounted t of None \<Rightarrow> (b, Inr ()) | Some h \<Rightarrow> unmount B h b) = (b', Inr ())"
  shows "registry_inv b' \<and> registry_exact b' \<and> handles_ok (bn_mounts b') n (hs(k := None)) \<and> keys_kept (bn_mounts b) (bn_mounts b')"
proof (cases "tp_mounted t")
  case None
  with assms show ?thesis by (simp add: fun_upd_idem)
next
  case (Some h)
  with assms(3-5) have h: "h < length (bn_mounts b)" "mt_live (bn_mounts b ! h)" using handles_live by fastforce+
  from Some assms(6) have u: "unmount B h b = (b', Inr ())" by simp
  have ms: "bn_mounts b' = (bn_mounts b)[h := (bn_mounts b ! h)\<lparr>mt_live := False\<rparr>]" using unmount_handle [OF h(2), of B] by (simp add: u)
  from Some assms(5) have "hs k = Some h" by simp
  then show ?thesis using unmount_counts [OF assms(1) h(1) u] assms(2) handles_release [OF assms(3,4)] by (simp add: ms)
qed

lemma sync_mount_kept:
  assumes ok: "registry_inv b" "registry_exact b" "handles_ok (bn_mounts b) n hs" "k < n" "hs k = tp_mounted t" "tap_holds (bn_mounts b) t w"
    and sync: "sync_mount B params (t, b, l) = ((t', b', l'), Inr ())"
  shows "kept_by b n hs k (if derive_fill (tc_fill (tp_config t)) params = None then w else derive_fill (tc_fill (tp_config t)) params) t b' t'"
proof (cases "derive_fill (tc_fill (tp_config t)) params")
  case None
  with ok sync show ?thesis by (simp add: sync_mount_def kept_by_def fun_upd_idem)
next
  case (Some f)
  show ?thesis
  proof (cases "case tp_fill t of None \<Rightarrow> False | Some g \<Rightarrow> same_fill g f")
    case True
    then obtain g where g: "tp_fill t = Some g" "same_fill g f" by (auto split: option.splits)
    with ok(6) obtain f' where w: "w = Some f'" "same_fill g f'" by (auto simp: tap_holds_def split: option.splits)
    have "instance_key x f' = instance_key x f" for x using same_fill_trans [OF w(2) g(2)] by (rule same_fill_key)
    with ok(6) g w have "tap_holds (bn_mounts b) t (Some f)" by (simp add: tap_holds_def)
    with True Some ok sync show ?thesis by (simp add: sync_mount_def kept_by_def fun_upd_idem)
  next
    case False
    let ?config = "\<lparr>mc_glade = tc_glade_for (tp_config t) f, mc_text_profile = tc_text_profile (tp_config t)\<rparr>"
    obtain b1 q where u: "(case tp_mounted t of None \<Rightarrow> (b, Inr ()) | Some h \<Rightarrow> unmount B h b) = (b1, q)" by fastforce
    with False Some sync have q: "q = Inr ()" by (cases q) (simp_all add: sync_mount_def)
    obtain b2 r where m: "mount_binding B (tc_decl (tp_config t)) f (Some l) ?config b1 = (b2, r)" by fastforce
    with False Some sync u q obtain h where r: "r = Inr h" "b' = b2" "t' = t\<lparr>tp_fill := Some f, tp_listeners := tp_listeners t @ [l], tp_mounted := Some h\<rparr>"
      by (cases r) (auto simp: sync_mount_def Let_def)
    note rel = released [OF ok(1-5) u [unfolded q]]
    then have reg: "registry_inv b'" "registry_exact b'" using mount_counts [OF _ m] r by auto
    obtain a where h: "h = length (bn_mounts b1)" "bn_mounts b' = bn_mounts b1
        @ [\<lparr>mt_inst = a, mt_key = instance_key (bd_glade_id (tc_decl (tp_config t))) f, mt_listener = Some l, mt_live = True\<rparr>]"
      using mount_handle [OF _ m] rel r by auto
    have "handles_ok (bn_mounts b') n (hs(k := Some h))" using handles_take [of "bn_mounts b1" n "hs(k := None)" k] rel ok(4) by (simp add: h)
    moreover have "keys_kept (bn_mounts b) (bn_mounts b')" using rel keys_kept_trans by (auto simp: h)
    ultimately show ?thesis using reg Some by (simp add: kept_by_def r(3) tap_holds_def h same_fill_def)
  qed
qed

lemma on_detach_kept:
  assumes "registry_inv b" "registry_exact b" "handles_ok (bn_mounts b) n hs" "k < n" "hs k = tp_mounted t"
    and "on_detach B (t, b, l) = ((t', b', l'), Inr ())"
  shows "kept_by b n hs k None t b' t'"
proof -
  obtain b1 q where u: "(case tp_mounted t of None \<Rightarrow> (b, Inr ()) | Some h \<Rightarrow> unmount B h b) = (b1, q)" by fastforce
  with assms(6) have q: "q = Inr ()" "b' = b1" "t' = t\<lparr>tp_mounted := None, tp_fill := None, tp_current := None\<rparr>"
    by (cases q; simp add: on_detach_def)+
  from released [OF assms(1-5) u [unfolded q(1)]] show ?thesis by (simp add: kept_by_def q tap_holds_def)
qed

lemma same_counts_kept:
  assumes "registry_inv b" "registry_exact b" "handles_ok (bn_mounts b) n hs" "k < n" "hs k = tp_mounted t" "tap_holds (bn_mounts b) t w" "same_counts b b'"
  shows "kept_by b n hs k w t b' t"
proof -
  have "bn_mounts b' = bn_mounts b" using assms(7) by (simp add: same_counts_def)
  with assms same_counts_inv same_counts_exact show ?thesis by (auto simp: kept_by_def fun_upd_idem)
qed

lemma on_mounted_counts:
  assumes "\<And>V. keeps_count (m V)" "on_mounted B m (t, b, l) = ((t', b', l'), r)"
  shows "t' = t \<and> same_counts b b'"
proof (cases "tp_mounted t")
  case (Some h)
  let ?a = "mt_inst (bn_mounts b ! h)"
  obtain b1 q where c: "call_at ?a (m (env_at B (he_dest (bn_heap b ! ?a)))) b = (b1, q)" by fastforce
  have "same_counts b b1" using call_at_counts [OF assms(1), of b ?a] c by (metis fst_conv)
  with Some c assms(2) show ?thesis by (cases q) (simp_all add: on_mounted_def Let_def)
qed (use assms(2) in \<open>simp add: on_mounted_def\<close>)

lemma call_kept:
  assumes ok: "registry_inv b" "registry_exact b" "handles_ok (bn_mounts b) n hs" "k < n" "hs k = tp_mounted t" "tap_holds (bn_mounts b) t w"
    and "call_tap B c (t, b, l) = ((t', b', l'), Inr ())"
  shows "kept_by b n hs k (wants (tc_fill (tp_config t)) k (Calls k c) w) t b' t'"
proof -
  have writes: "kept_by b n hs k w t b' t'" if "on_mounted B (\<lambda>V. write_payload V p) (t, b, l) = ((t', b', l'), Inr ())" for p
    using on_mounted_counts [OF keeps_write_payload that] same_counts_kept [OF ok] by simp
  have swmrs: "kept_by b n hs k w t b' t'" if "on_mounted B (\<lambda>V. write_swmr V x p) (t, b, l) = ((t', b', l'), Inr ())" for x p
    using on_mounted_counts [OF keeps_write_swmr that] same_counts_kept [OF ok] by simp
  have texts: "kept_by b n hs k w t b' t'" if "on_mounted B (\<lambda>V. replace_text V x) (t, b, l) = ((t', b', l'), Inr ())" for x
    using on_mounted_counts [OF keeps_replace_text that] same_counts_kept [OF ok] by simp
  show ?thesis
    using assms(7) by (cases c) (auto dest: sync_mount_kept [OF ok] on_detach_kept [OF ok(1-5)] simp: wants_def tap_set_def tap_append_def tap_snapshot_def tap_delta_def tap_reset_def tap_write_swmr_def
        tap_replace_text_def writes swmrs texts split: if_splits)
qed

lemma hear_frame [simp]: "tp_mounted (hear out t) = tp_mounted t" "tp_fill (hear out t) = tp_fill t" "tp_config (hear out t) = tp_config t"
proof -
  have "tp_mounted (foldl on_instance_event t es) = tp_mounted t \<and> tp_fill (foldl on_instance_event t es) = tp_fill t
      \<and> tp_config (foldl on_instance_event t es) = tp_config t" for es
    by (induction es arbitrary: t) (simp_all add: on_instance_event_def produce_def)
  then show "tp_mounted (hear out t) = tp_mounted t" "tp_fill (hear out t) = tp_fill t" "tp_config (hear out t) = tp_config t"
    by (simp_all add: hear_def)
qed

lemma tap_holds_hear [simp]: "tap_holds ms (hear out t) w = tap_holds ms t w"
  by (cases w) (simp_all add: tap_holds_def)

lemma wants_other: "(\<And>c. i \<noteq> Calls k c) \<Longrightarrow> wants spec k i w = w"
  by (cases i) (auto simp: wants_def split: tap_call.split)

lemma host_step_kept:
  assumes ok: "host_ok H w" and s: "host_step B i H = (H', True)"
  shows "host_ok H' (\<lambda>k. wants (tc_fill (tp_config (th_taps H ! k))) k i (w k)) \<and> length (th_taps H') = length (th_taps H)
    \<and> (\<forall>k < length (th_taps H). tp_config (th_taps H' ! k) = tp_config (th_taps H ! k))"
proof -
  let ?b = "th_registry H" and ?n = "length (th_taps H)" and ?hs = "\<lambda>k. tp_mounted (th_taps H ! k)"
  have b: "registry_inv ?b" "registry_exact ?b" "handles_ok (bn_mounts ?b) ?n ?hs"
    and holds: "\<And>k. k < ?n \<Longrightarrow> tap_holds (bn_mounts ?b) (th_taps H ! k) (w k)"
    using ok by (auto simp: host_ok_def)
  show ?thesis
  proof (cases i)
    case (Calls k c)
    have other: "wants spec j i v = v" if "j \<noteq> k" for spec j v using that by (intro wants_other) (simp add: Calls)
    show ?thesis
    proof (cases "k < ?n")
      case False
      with s Calls have "H' = H" by simp
      with False b holds show ?thesis by (auto simp: host_ok_def other)
    next
      case True
      obtain t' b' l' r where c: "call_tap B c (th_taps H ! k, ?b, th_next H) = ((t', b', l'), r)" by (cases "call_tap B c (th_taps H ! k, ?b, th_next H)") auto
      with s Calls True have r: "r = Inr ()" and H': "th_registry H' = b'" "th_taps H' = map (hear (handed ?b b')) ((th_taps H)[k := t'])"
        by auto
      from call_kept [OF b True refl holds [OF True] c [unfolded r]]
      have kept: "kept_by ?b ?n ?hs k (wants (tc_fill (tp_config (th_taps H ! k))) k i (w k)) (th_taps H ! k) b' t'" by (simp add: Calls)
      have "tap_holds (bn_mounts b') (th_taps H ! j) (w j)" if "j < ?n" for j
        using tap_holds_kept [OF holds [OF that]] kept handles_live [OF b(3) that] by (auto simp: kept_by_def)
      moreover have "handles_ok (bn_mounts b') ?n (\<lambda>j. tp_mounted (map (hear (handed ?b b')) ((th_taps H)[k := t']) ! j))"
        by (rule handles_cong [of _ _ "?hs(k := tp_mounted t')"]) (use kept in \<open>simp_all add: kept_by_def nth_list_update\<close>)
      ultimately show ?thesis using kept True by (auto simp: host_ok_def H' kept_by_def nth_list_update other)
    qed
  next
    case (Delivers a ops)
    then have same: "wants spec k i v = v" for spec k v by (intro wants_other) simp
    show ?thesis
    proof (cases "a < length (bn_heap ?b)")
      case False
      with s Delivers have "H' = H" by simp
      with b holds show ?thesis by (auto simp: host_ok_def same)
    next
      case True
      obtain b' r where c: "call_at a (ingest (env_at B (he_dest (bn_heap ?b ! a))) ops) ?b = (b', r)" by fastforce
      have sc: "same_counts ?b b'" using call_at_counts [OF keeps_ingest] c by (metis fst_conv)
      have ms: "bn_mounts b' = bn_mounts ?b" using sc by (simp add: same_counts_def)
      have "handles_ok (bn_mounts b') ?n (\<lambda>j. tp_mounted (map (hear (handed ?b b')) (th_taps H) ! j))"
        by (rule handles_cong [of _ _ ?hs]) (simp_all add: ms b)
      moreover have "H' = H\<lparr>th_registry := b', th_taps := map (hear (handed ?b b')) (th_taps H)\<rparr>" using s Delivers True c by simp
      ultimately show ?thesis using same_counts_inv [OF sc b(1)] same_counts_exact [OF sc b(1,2)] holds by (simp add: host_ok_def same ms)
    qed
  qed
qed

lemma host_run_kept:
  "host_ok H w \<Longrightarrow> host_run B ins H = (H', True)
    \<Longrightarrow> host_ok H' (\<lambda>k. foldl (\<lambda>v i. wants (tc_fill (tp_config (th_taps H ! k))) k i v) (w k) ins) \<and> length (th_taps H') = length (th_taps H)
      \<and> (\<forall>k < length (th_taps H). tp_config (th_taps H' ! k) = tp_config (th_taps H ! k))"
proof (induction ins arbitrary: H w)
  case (Cons i ins)
  obtain H1 ok1 where 1: "host_step B i H = (H1, ok1)" by fastforce
  obtain H2 ok2 where 2: "host_run B ins H1 = (H2, ok2)" by fastforce
  from Cons.prems(2) 1 2 have ok: "ok1" "ok2" "H2 = H'" by auto
  let ?w = "\<lambda>k. wants (tc_fill (tp_config (th_taps H ! k))) k i (w k)"
  from host_step_kept [OF Cons.prems(1)] 1 ok have step: "host_ok H1 ?w" "length (th_taps H1) = length (th_taps H)"
    "\<And>k. k < length (th_taps H) \<Longrightarrow> tp_config (th_taps H1 ! k) = tp_config (th_taps H ! k)"
    by auto
  from Cons.IH [OF step(1)] 2 ok have "host_ok H' (\<lambda>k. foldl (\<lambda>v i. wants (tc_fill (tp_config (th_taps H1 ! k))) k i v) (?w k) ins)"
    "length (th_taps H') = length (th_taps H)" "\<forall>k < length (th_taps H). tp_config (th_taps H' ! k) = tp_config (th_taps H ! k)"
    using step(2,3) by auto
  then show ?case using step(2,3) by (auto simp: host_ok_def)
qed simp

lemma new_tap_fresh: "new_tap C = Inr t \<Longrightarrow> tp_mounted t = None \<and> tp_fill t = None \<and> tp_config t = C"
  by (auto simp: new_tap_def split: sum.splits if_splits)

text \<open>C10. The adapter neither leaks nor shares a mount. After any run of attaches, parameter changes,
  detaches, writes and deliveries in which nothing threw, a tap holds a live mount of the
  instance that its parameters last gave since it was detached, and none if they gave none; and the
  registry counts for each instance exactly the taps whose parameters give it.\<close>

theorem tap_mounts_exact:
  fixes taps :: "'v tap list" and decl :: binding_decl
  assumes fresh: "\<forall>t \<in> set taps. \<exists>C. new_tap C = Inr t" and run: "host_run B ins (new_host e d taps) = (H, True)"
  shows "(\<forall>k < length taps. case wanted (tc_fill (tp_config (taps ! k))) k ins of
        None \<Rightarrow> tp_mounted (th_taps H ! k) = None
      | Some f \<Rightarrow> \<exists>h < length (bn_mounts (th_registry H)). tp_mounted (th_taps H ! k) = Some h \<and> mt_live (bn_mounts (th_registry H) ! h)
          \<and> mt_key (bn_mounts (th_registry H) ! h) = instance_key (bd_glade_id (tc_decl (tp_config (taps ! k)))) f)
    \<and> refcount_of decl fill (th_registry H) = int (card {k. k < length taps \<and> (\<exists>f. wanted (tc_fill (tp_config (taps ! k))) k ins = Some f
          \<and> instance_key (bd_glade_id (tc_decl (tp_config (taps ! k)))) f = instance_key (bd_glade_id decl) fill)})"
proof -
  let ?b = "th_registry H" and ?key = "instance_key (bd_glade_id decl) fill" and ?w = "\<lambda>k. wanted (tc_fill (tp_config (taps ! k))) k ins"
    and ?gid = "\<lambda>k. bd_glade_id (tc_decl (tp_config (taps ! k)))"
  have new: "tp_mounted (taps ! k) = None \<and> tp_fill (taps ! k) = None" if "k < length taps" for k
    using fresh that new_tap_fresh nth_mem by blast
  then have "host_ok (new_host e d taps) (\<lambda>k. None)"
    by (auto simp: host_ok_def new_host_def binder_new_inv handles_ok_def tap_holds_def) (simp_all add: binder_new_def)
  from host_run_kept [OF this run] have ok: "host_ok H ?w" "length (th_taps H) = length taps"
    and config: "\<And>k. k < length taps \<Longrightarrow> tp_config (th_taps H ! k) = tp_config (taps ! k)"
    by (auto simp: new_host_def wanted_def)
  then have hs: "handles_ok (bn_mounts ?b) (length taps) (\<lambda>k. tp_mounted (th_taps H ! k))"
    and holds: "\<And>k. k < length taps \<Longrightarrow> tap_holds (bn_mounts ?b) (th_taps H ! k) (?w k)" and reg: "registry_inv ?b" "registry_exact ?b"
    by (simp_all add: host_ok_def)
  have k: "case ?w k of None \<Rightarrow> tp_mounted (th_taps H ! k) = None
      | Some f \<Rightarrow> \<exists>h < length (bn_mounts ?b). tp_mounted (th_taps H ! k) = Some h \<and> mt_live (bn_mounts ?b ! h)
          \<and> mt_key (bn_mounts ?b ! h) = instance_key (?gid k) f" if "k < length taps" for k
    using holds [OF that] config [OF that] handles_live [OF hs that] by (auto simp: tap_holds_def split: option.splits)
  have "(\<exists>h. tp_mounted (th_taps H ! k) = Some h \<and> mt_key (bn_mounts ?b ! h) = ?key) = (\<exists>f. ?w k = Some f \<and> instance_key (?gid k) f = ?key)"
    if "k < length taps" for k
    using k [OF that] by (cases "?w k") auto
  then have "{k. k < length taps \<and> (\<exists>h. tp_mounted (th_taps H ! k) = Some h \<and> mt_key (bn_mounts ?b ! h) = ?key)}
      = {k. k < length taps \<and> (\<exists>f. ?w k = Some f \<and> instance_key (?gid k) f = ?key)}" by blast
  then have "refcount_of decl fill ?b = int (card {k. k < length taps \<and> (\<exists>f. ?w k = Some f \<and> instance_key (?gid k) f = ?key)})"
    using refcount_exact [OF reg] handles_count [OF hs, of "\<lambda>mt. mt_key mt = ?key"] by (simp add: mounts_of_def)
  with k show ?thesis by simp
qed

subsection \<open>Errors\<close>

text \<open>
  A mount that fails leaves the tap with its new fill and the handle it has released: the same
  parameters are not tried again, and writes still go to the old instance.
\<close>

lemma failed_remount:
  assumes "sync_mount B params (t, b, l) = ((t', b', l'), Inl (BinderFails e))"
  shows "tp_mounted t' = tp_mounted t \<and> sync_mount B params (t', b', l') = ((t', b', l'), Inr ())"
proof (cases "derive_fill (tc_fill (tp_config t)) params")
  case (Some f)
  let ?config = "\<lparr>mc_glade = tc_glade_for (tp_config t) f, mc_text_profile = tc_text_profile (tp_config t)\<rparr>"
  have fill: "\<not> (case tp_fill t of None \<Rightarrow> False | Some g \<Rightarrow> same_fill g f)" using assms Some by (auto simp: sync_mount_def)
  obtain b1 q where u: "(case tp_mounted t of None \<Rightarrow> (b, Inr ()) | Some h \<Rightarrow> unmount B h b) = (b1, q)" by fastforce
  obtain b2 r where m: "mount_binding B (tc_decl (tp_config t)) f (Some l) ?config b1 = (b2, r)" by fastforce
  from assms Some fill u m have "t' = t\<lparr>tp_fill := Some f, tp_listeners := tp_listeners t @ [l]\<rparr>"
    by (cases q; cases r) (simp_all add: sync_mount_def Let_def)
  with Some show ?thesis by (simp add: sync_mount_def same_fill_def)
qed (use assms in \<open>simp add: sync_mount_def\<close>)

text \<open>A write of another shape, or before a mount, is refused and changes nothing.\<close>

lemma write_refused:
  assumes "c = SetValue v \<and> \<not> shape_is Value t \<or> c = AppendEntry v \<and> \<not> shape_is Log t
    \<or> c \<in> {SnapshotValue v, DeltaValue v, ResetValue detail} \<and> \<not> shape_is Swmr t \<or> c = ReplaceText s \<and> \<not> shape_is Crdt t
    \<or> tp_mounted t = None \<and> c \<in> {SetValue v, AppendEntry v, SnapshotValue v, DeltaValue v, ResetValue detail, ReplaceText s}"
  shows "\<exists>e. call_tap B c (t, b, l) = ((t, b, l), Inl e)"
  using assms by (auto simp: tap_set_def tap_append_def tap_snapshot_def tap_delta_def tap_reset_def tap_write_swmr_def tap_replace_text_def on_mounted_def)

text \<open>The default codec gives back what it encodes, and \<open>null\<close> for \<open>undefined\<close>.\<close>

lemma json_codec_back:
  "json_plain v \<Longrightarrow> json_codec_decode (json_codec_encode (Some v)) = Some v" "json_codec_decode (json_codec_encode None) = Some JNull"
  using from_utf8_stringify [of JNull] by (simp_all add: json_codec_decode_def json_codec_encode_def from_utf8_def utf8_def from_utf8_stringify)

subsection \<open>A sample run\<close>

definition sample_tap_config :: "bytes tap_config" where
  "sample_tap_config = \<lparr>tc_decl = sample_decl, tc_fill = \<lparr>fs_domain = Param 0, fs_zone = None, fs_key = None\<rparr>, tc_encode = (\<lambda>v. v),
     tc_decode = (\<lambda>b. b), tc_default = None, tc_text_profile = False, tc_project = None, tc_glade_for = (\<lambda>f. None)\<rparr>"

definition sample_tap :: "bytes tap" where
  "sample_tap = \<lparr>tp_config = sample_tap_config, tp_adapter = \<lparr>ad_shape = Log, ad_contract_version = jlit ''log.oracle/v0'',
     ad_operations = map jlit [''append'', ''read'', ''subscribe'']\<rparr>, tp_mounted = None, tp_fill = None, tp_current = None, tp_listeners = [], tp_published = []\<rparr>"

definition sample_calls :: "bytes host_input list" where
  "sample_calls = [Calls 0 (tap_call.Attach (\<lambda>g. Some [100])), Calls 0 (ParamsChange (\<lambda>g. Some [101]))]"

lemma sample_tap_new: "new_tap sample_tap_config = Inr sample_tap"
  by (simp add: new_tap_def sample_tap_config_def sample_decl_def gate_log sample_tap_def)

lemma sample_calls_run: "\<exists>H. host_run sample_binder sample_calls (new_host mem_engine_new () [sample_tap]) = (H, True)"
  unfolding sample_calls_def
  by (simp add: sample_tap_def sample_tap_config_def new_host_def sync_mount_def derive_fill_def part_value_def same_fill_def or_empty_def
     sample_decl_def mount_binding_def gate_log Let_def create_instance_def binder_new_def new_instance_def
     sample_binder_def sample_env_def mem_env_def mem_if_def mem_open_def mem_engine_new_def call_at_def entry_ctx_def hydrate_def act_simps held_def
     finish_mount_def bump_def subscribe_def refresh_event_def env_at_def shape_of_def unmount_def unsubscribe_def mem_all_def
     tear_down_def dispose_def save_text_checkpoint_def mem_drop_def)

theorem tap_mounts_exact_witness:
  "\<exists>H :: (mem_engine, unit, crdt_op list, bytes) tap_host. host_run sample_binder sample_calls (new_host mem_engine_new () [sample_tap]) = (H, True)
     \<and> refcount_of sample_decl \<lparr>fl_domain = [101], fl_zone = None, fl_key = None\<rparr> (th_registry H) = 1
     \<and> refcount_of sample_decl sample_fill (th_registry H) = 0"
proof -
  obtain H :: "(mem_engine, unit, crdt_op list, bytes) tap_host" where run: "host_run sample_binder sample_calls (new_host mem_engine_new () [sample_tap]) = (H, True)"
    using sample_calls_run by blast
  have w: "wanted (tc_fill (tp_config sample_tap)) 0 sample_calls = Some \<lparr>fl_domain = [101], fl_zone = None, fl_key = None\<rparr>"
    by (simp add: wanted_def sample_calls_def wants_def sample_tap_def sample_tap_config_def derive_fill_def part_value_def)
  have g: "bd_glade_id (tc_decl (tp_config sample_tap)) = [103]" "bd_glade_id sample_decl = [103]"
    by (simp_all add: sample_tap_def sample_tap_config_def sample_decl_def)
  have fresh: "\<forall>t \<in> set [sample_tap]. \<exists>C. new_tap C = Inr t" using sample_tap_new by auto
  have "refcount_of sample_decl fill (th_registry H)
      = int (card {k :: nat. k = 0 \<and> instance_key [103] \<lparr>fl_domain = [101], fl_zone = None, fl_key = None\<rparr> = instance_key [103] fill})" for fill
  proof -
    have *: "{k. k < length [sample_tap] \<and> (\<exists>f. wanted (tc_fill (tp_config ([sample_tap] ! k))) k sample_calls = Some f
          \<and> instance_key (bd_glade_id (tc_decl (tp_config ([sample_tap] ! k)))) f = instance_key (bd_glade_id sample_decl) fill)}
        = {k :: nat. k = 0 \<and> instance_key [103] \<lparr>fl_domain = [101], fl_zone = None, fl_key = None\<rparr> = instance_key [103] fill}"
      by (auto simp: w g)
    show ?thesis using tap_mounts_exact [OF fresh run, where decl = sample_decl and fill = fill, THEN conjunct2] unfolding * .
  qed
  with run show ?thesis by (intro exI [of _ H]) (simp add: instance_key_def sample_fill_def or_empty_def)
qed

end
