(* ===== verification/Grip_Assistance.thy ===== *)
theory Grip_Assistance
  imports Js_Write
begin

text \<open>
  The grip integration of assistance, \<open>src/assistance/grip.ts\<close>: discovery of the scalar leaves of the
  values that a grip graph publishes, and writes to the leaves that were discovered.

  The graph, its controllers and the application's options are local objects of the host. What the
  code reads of them in one synchronous call is an argument: a heap of JavaScript objects, the nodes
  in the order of the graph, and the options as functions of a location. Objects that are compared
  by identity (contexts, taps, grips, bindings, controllers, leaves) are numbers.
\<close>

subsection \<open>Runtime values\<close>

text \<open>
  A finite number is its literal. \<open>OtherValue\<close> holds the \<open>typeof\<close> of a value that is neither a scalar
  nor an object: undefined, a function, a symbol, a \<open>bigint\<close> or a number that is not finite.
\<close>

datatype js_scalar = SNull | SBool bool | SNum jstr | SStr jstr

datatype js_value = Scalar js_scalar | OtherValue string | Ref nat

text \<open>The own properties with string keys, in order, with whether they are enumerable.\<close>

datatype js_property = DataProperty bool js_value | AccessorProperty bool

datatype js_kind = PlainObject | ArrayObject | ExoticObject

record js_object =
  jo_kind :: js_kind
  jo_props :: "(jstr \<times> js_property) list"

type_synonym js_heap = "js_object list"

fun enumerable :: "js_property \<Rightarrow> bool" where
  "enumerable (DataProperty e v) = e"
| "enumerable (AccessorProperty e) = e"

definition object_keys :: "js_object \<Rightarrow> jstr list" where
  "object_keys ob = map fst (filter (\<lambda>(k, p). enumerable p) (jo_props ob))"

fun scalar_name :: "js_scalar \<Rightarrow> string" where
  "scalar_name SNull = ''null''" | "scalar_name (SBool b) = ''boolean''" | "scalar_name (SNum l) = ''number''" | "scalar_name (SStr s) = ''string''"

definition scalar_type :: "js_value \<Rightarrow> string option" where
  "scalar_type v = (case v of Scalar s \<Rightarrow> Some (scalar_name s) | _ \<Rightarrow> None)"

definition type_of :: "js_value \<Rightarrow> string" where
  "type_of v = (case v of Scalar SNull \<Rightarrow> ''object'' | Scalar s \<Rightarrow> scalar_name s | OtherValue t \<Rightarrow> t | Ref a \<Rightarrow> ''object'')"

definition forbidden :: "jstr list" where
  "forbidden = map jlit [''__proto__'', ''prototype'', ''constructor'']"

subsection \<open>Locations, controllers and the graph\<close>

datatype value_role = OwnerRole | DestinationRole

datatype write_scope = OwnerShared | DestinationLocal

record value_location =
  vl_context :: jstr
  vl_grip :: jstr
  vl_grip_key :: jstr
  vl_path :: "jstr list"
  vl_role :: "value_role option"
  vl_owner :: "jstr option"
  vl_scope :: "write_scope option"

record discovered =
  dv_location :: value_location
  dv_writable :: bool
  dv_type :: string
  dv_ref :: "jstr option"
  dv_value :: "js_scalar option"
  dv_error :: "string option"

text \<open>
  A leaf controller: its identity, and \<open>prepare\<close>, which refuses a value or gives the edit, named
  by a number. \<open>vc_leaf\<close> is absent for a controller without \<open>getLeafController\<close>.
\<close>

record leaf_controller =
  lf_identity :: nat
  lf_prepare :: "js_value \<Rightarrow> nat option"

record value_controller =
  vc_identity :: nat
  vc_value :: js_value
  vc_leaf :: "(jstr list \<Rightarrow> leaf_controller option) option"

record grip_key =
  gk_identity :: nat
  gk_name :: jstr
  gk_key :: jstr

record destination =
  ds_node :: nat
  ds_binding :: nat
  ds_grips :: "nat list"

text \<open>A producer record; \<open>pr_identity\<close> is the record's own identity.\<close>

record producer =
  pr_identity :: nat
  pr_tap :: nat
  pr_controllers :: "(nat \<times> value_controller) list option"
  pr_destination_params :: bool
  pr_destinations :: "destination list"

text \<open>
  A node of the graph: the consumers are those whose reference is alive, with the value they hold;
  the providers are positions in the list of nodes.
\<close>

record grip_node =
  gn_id :: jstr
  gn_context :: "nat option"
  gn_producers :: "(grip_key \<times> producer) list"
  gn_consumers :: "(grip_key \<times> js_value) list"
  gn_providers :: "(nat \<times> nat) list"

record grip_options =
  go_exclude_context :: "jstr \<Rightarrow> bool"
  go_exclude :: "value_location \<Rightarrow> bool"
  go_readonly :: "value_location \<Rightarrow> bool"
  go_controller :: "value_location \<Rightarrow> value_controller \<Rightarrow> value_controller"
  go_id :: "nat \<Rightarrow> jstr"

record value_source =
  vs_context :: nat
  vs_tap :: nat
  vs_grip :: nat
  vs_controller :: "value_controller option"
  vs_binding :: "nat option"
  vs_owner :: "nat option"

record target =
  tg_ref :: jstr
  tg_location :: value_location
  tg_source :: value_source
  tg_controller :: value_controller
  tg_type :: string
  tg_leaf :: "leaf_controller option"

text \<open>The object's state; \<open>ga_ids\<close> counts the calls of \<open>id\<close>.\<close>

record grip_assistance =
  ga_pairing :: "jstr option"
  ga_targets :: "(jstr \<times> target) list"
  ga_ids :: nat

subsection \<open>Discovery\<close>

text \<open>The variables of one call of \<open>read\<close>.\<close>

record scan =
  sc_out :: "discovered list"
  sc_seen :: "jstr list"
  sc_targets :: "(jstr \<times> target) list"
  sc_ids :: nat
  sc_root_start :: nat
  sc_root_truncated :: bool
  sc_total_truncated :: bool

definition begin_root :: "scan \<Rightarrow> scan" where
  "begin_root s = s\<lparr>sc_root_start := length (sc_out s), sc_root_truncated := False\<rparr>"

text \<open>The owner's location of a destination view.\<close>

definition owner_location :: "value_location \<Rightarrow> value_location" where
  "owner_location l = l\<lparr>vl_context := the (vl_owner l), vl_role := Some OwnerRole\<rparr>"

definition for_owner :: "(value_location \<Rightarrow> bool) \<Rightarrow> value_location \<Rightarrow> bool" where
  "for_owner f l \<longleftrightarrow> f l \<or> vl_role l = Some DestinationRole \<and> f (owner_location l)"

definition excluded :: "grip_options \<Rightarrow> value_location \<Rightarrow> bool" where
  "excluded G l \<longleftrightarrow> for_owner (go_exclude G) l"

definition listed :: "value_location \<Rightarrow> bool \<Rightarrow> string \<Rightarrow> string option \<Rightarrow> discovered" where
  "listed l w t e = \<lparr>dv_location = l, dv_writable = w, dv_type = t, dv_ref = None, dv_value = None, dv_error = e\<rparr>"

definition push :: "discovered \<Rightarrow> scan \<Rightarrow> scan" where
  "push d s = s\<lparr>sc_out := sc_out s @ [d]\<rparr>"

definition limited :: "value_location \<Rightarrow> scan \<Rightarrow> scan \<times> bool" where
  "limited l s =
     (if sc_total_truncated s \<or> sc_root_truncated s then (s, True)
      else if length (sc_out s) \<ge> 9999
      then ((push (listed l False ''unsupported'' (Some ''state projection truncated: total discovery limit reached'')) s)\<lparr>sc_total_truncated := True\<rparr>, True)
      else if length (sc_out s) - sc_root_start s \<ge> 512
      then ((push (listed l False ''unsupported'' (Some ''value truncated: per-grip discovery limit reached'')) s)\<lparr>sc_root_truncated := True\<rparr>, True)
      else if length (vl_path l) > 64
      then (push (listed l False ''unsupported'' (Some ''value truncated: discovery depth limit reached'')) s, True)
      else (s, False))"

definition role_json :: "value_role option \<Rightarrow> json" where
  "role_json r = (case r of None \<Rightarrow> JNull | Some OwnerRole \<Rightarrow> JStr (jlit ''owner'') | Some DestinationRole \<Rightarrow> JStr (jlit ''destination''))"

definition target_key :: "value_location \<Rightarrow> jstr" where
  "target_key l = json_stringify (JArr [role_json (vl_role l), JStr (vl_context l), JStr (vl_grip_key l), JArr (map JStr (vl_path l))])"

definition same_target :: "target \<Rightarrow> value_source \<Rightarrow> string \<Rightarrow> leaf_controller option \<Rightarrow> bool" where
  "same_target t src ty leaf \<longleftrightarrow> vs_context (tg_source t) = vs_context src \<and> vs_tap (tg_source t) = vs_tap src \<and> vs_grip (tg_source t) = vs_grip src
     \<and> tg_type t = ty \<and> vs_binding (tg_source t) = vs_binding src \<and> vs_owner (tg_source t) = vs_owner src
     \<and> map_option lf_identity (tg_leaf t) = map_option lf_identity leaf"

text \<open>The reference of a writable leaf: kept while the target is the same, and otherwise a new one.\<close>

definition refer :: "grip_options \<Rightarrow> value_location \<Rightarrow> value_source \<Rightarrow> value_controller \<Rightarrow> string \<Rightarrow> leaf_controller option \<Rightarrow> scan \<Rightarrow> scan \<times> jstr" where
  "refer G l src ctl ty leaf s =
     (let key = target_key l;
          fresh = \<lparr>tg_ref = go_id G (sc_ids s), tg_location = l, tg_source = src, tg_controller = ctl, tg_type = ty, tg_leaf = leaf\<rparr>;
          renewed = s\<lparr>sc_targets := jm_set key fresh (sc_targets s), sc_ids := sc_ids s + 1, sc_seen := js_add key (sc_seen s)\<rparr>
      in case jm_get (sc_targets s) key of
           None \<Rightarrow> (renewed, tg_ref fresh)
         | Some t \<Rightarrow>
             if \<not> same_target t src ty leaf then (renewed, tg_ref fresh)
             else (s\<lparr>sc_targets := jm_set key (t\<lparr>tg_controller := ctl, tg_leaf := leaf\<rparr>) (sc_targets s), sc_seen := js_add key (sc_seen s)\<rparr>, tg_ref t))"

definition leaf_at :: "value_location \<Rightarrow> value_controller option \<Rightarrow> leaf_controller option" where
  "leaf_at l ctl = Option.bind ctl (\<lambda>c. Option.bind (vc_leaf c) (\<lambda>f. f (vl_path l)))"

definition append_scalar :: "grip_options \<Rightarrow> value_location \<Rightarrow> js_scalar \<Rightarrow> value_source \<Rightarrow> scan \<Rightarrow> scan" where
  "append_scalar G l v src s =
     (let ty = scalar_name v; leaf = leaf_at l (vs_controller src); readonly = for_owner (go_readonly G) l in
      case vs_controller src of
        Some c \<Rightarrow>
          if \<not> readonly \<and> (vc_leaf c = None \<or> leaf \<noteq> None)
          then (let (s, ref) = refer G l src c ty leaf s
                in push ((listed l True ty None)\<lparr>dv_ref := Some ref, dv_value := Some v\<rparr>) s)
          else push ((listed l False ty None)\<lparr>dv_value := Some v\<rparr>) s
      | None \<Rightarrow> push ((listed l False ty None)\<lparr>dv_value := Some v\<rparr>) s)"

definition child_location :: "value_location \<Rightarrow> jstr \<Rightarrow> value_location" where
  "child_location l k = l\<lparr>vl_path := vl_path l @ [k]\<rparr>"

lemma limited_depth: "\<not> snd (limited l s) \<Longrightarrow> length (vl_path l) \<le> 64"
  by (auto simp: limited_def split: if_splits)

text \<open>
  \<open>append\<close> and the loop over the keys of an object. An object is supported when it is plain or an array
  and not one of its own ancestors.
\<close>

function append_value :: "grip_options \<Rightarrow> js_heap \<Rightarrow> value_location \<Rightarrow> js_value \<Rightarrow> value_source \<Rightarrow> nat list \<Rightarrow> scan \<Rightarrow> scan"
  and append_keys :: "grip_options \<Rightarrow> js_heap \<Rightarrow> value_location \<Rightarrow> nat \<Rightarrow> jstr list \<Rightarrow> value_source \<Rightarrow> nat list \<Rightarrow> scan \<Rightarrow> scan" where
  "append_value G h l v src ancestors s =
     (if excluded G l then s
      else if snd (limited l s) then fst (limited l s)
      else case v of
        Scalar sv \<Rightarrow> append_scalar G l sv src s
      | OtherValue t \<Rightarrow> push (listed l False t (Some ''unsupported runtime value (or cycle)'')) s
      | Ref a \<Rightarrow>
          if jo_kind (h ! a) = ExoticObject \<or> a \<in> set ancestors
          then push (listed l False ''object'' (Some ''unsupported runtime value (or cycle)'')) s
          else append_keys G h l a (object_keys (h ! a)) src (a # ancestors)
                 (push (listed l False (if jo_kind (h ! a) = ArrayObject then ''array'' else ''object'') None) s))"
| "append_keys G h l a [] src ancestors s = s"
| "append_keys G h l a (k # ks) src ancestors s =
     (if sc_total_truncated s \<or> sc_root_truncated s then s
      else let child = child_location l k in
      if excluded G child then append_keys G h l a ks src ancestors s
      else if snd (limited child s) then append_keys G h l a ks src ancestors (fst (limited child s))
      else case (if k \<in> set forbidden then None else jm_get (jo_props (h ! a)) k) of
        Some (DataProperty e v) \<Rightarrow> append_keys G h l a ks src ancestors (append_value G h child v src ancestors s)
      | _ \<Rightarrow> append_keys G h l a ks src ancestors (push (listed child False ''unsupported'' (Some ''unsupported property or accessor'')) s))"
  by pat_completeness auto

termination
proof (relation "measures [\<lambda>x. case x of Inl (G, h, l, v, src, as, s) \<Rightarrow> 2 * (66 - length (vl_path l)) + 1 | Inr (G, h, l, a, ks, src, as, s) \<Rightarrow> 2 * (66 - length (vl_path l)),
    \<lambda>x. case x of Inl _ \<Rightarrow> 0 | Inr (G, h, l, a, ks, src, as, s) \<Rightarrow> length ks]", goal_cases)
qed (auto simp: child_location_def dest!: limited_depth)

declare append_value.simps [simp del]

subsection \<open>The graph\<close>

definition location_of :: "grip_node \<Rightarrow> grip_key \<Rightarrow> value_location" where
  "location_of node g = \<lparr>vl_context = gn_id node, vl_grip = gk_name g, vl_grip_key = gk_key g, vl_path = [], vl_role = Some OwnerRole,
     vl_owner = Some (gn_id node), vl_scope = Some OwnerShared\<rparr>"

definition consumer_value :: "grip_node \<Rightarrow> grip_key \<Rightarrow> js_value option" where
  "consumer_value node g = map_option snd (find (\<lambda>(k, v). gk_identity k = gk_identity g) (gn_consumers node))"

text \<open>The destinations of a producer; \<open>ni\<close> is the position of the producing node.\<close>

fun scan_destinations :: "grip_options \<Rightarrow> js_heap \<Rightarrow> grip_node list \<Rightarrow> nat \<Rightarrow> nat \<Rightarrow> value_location \<Rightarrow> grip_key \<Rightarrow> producer
    \<Rightarrow> value_controller option \<Rightarrow> destination list \<Rightarrow> scan \<Rightarrow> scan" where
  "scan_destinations G h nodes ni context l g pr ctl [] s = s"
| "scan_destinations G h nodes ni context l g pr ctl (d # ds) s =
     (if sc_total_truncated s then s
      else
        let dest = nodes ! ds_node d; again = scan_destinations G h nodes ni context l g pr ctl ds in
        if go_exclude_context G (gn_id dest) \<or> gk_identity g \<notin> set (ds_grips d) \<or> jm_get (gn_providers dest) (gk_identity g) \<noteq> Some ni
        then again s
        else case gn_context dest of
          None \<Rightarrow> again s
        | Some dc \<Rightarrow>
            let dl = l\<lparr>vl_context := gn_id dest, vl_role := Some DestinationRole,
                  vl_scope := Some (if ds_node d = ni then DestinationLocal else OwnerShared)\<rparr> in
            if excluded G dl then again s
            else case consumer_value dest g of
              None \<Rightarrow> again s
            | Some drip \<Rightarrow>
                let dctl = (if pr_destination_params pr then None else ctl);
                    v = (case dctl of None \<Rightarrow> drip | Some c \<Rightarrow> if vc_leaf c \<noteq> None then vc_value c else drip)
                in again (append_value G h dl v \<lparr>vs_context = dc, vs_tap = pr_tap pr, vs_grip = gk_identity g, vs_controller = dctl,
                     vs_binding = Some (ds_binding d), vs_owner = Some context\<rparr> [] (begin_root s)))"

fun scan_producers :: "grip_options \<Rightarrow> js_heap \<Rightarrow> grip_node list \<Rightarrow> nat \<Rightarrow> nat \<Rightarrow> (grip_key \<times> producer) list \<Rightarrow> scan \<Rightarrow> scan" where
  "scan_producers G h nodes ni context [] s = s"
| "scan_producers G h nodes ni context ((g, pr) # ps) s =
     (if sc_total_truncated s then s
      else
        let node = nodes ! ni; l = location_of node g; again = scan_producers G h nodes ni context ps in
        if excluded G l then again s
        else case limited l (begin_root s) of
          (s1, True) \<Rightarrow> s1
        | (s1, False) \<Rightarrow>
            let original = Option.bind (pr_controllers pr) (\<lambda>m. jm_get m (gk_identity g)) in
            if pr_controllers pr \<noteq> None \<and> original = None then again (push (listed l False ''handle'' None) s1)
            else
              let ctl = map_option (go_controller G l) original;
                  s2 = (case (case ctl of Some c \<Rightarrow> Some (vc_value c) | None \<Rightarrow> consumer_value node g) of
                      None \<Rightarrow> push (listed l False ''unavailable'' (Some ''no published value at this context'')) s1
                    | Some v \<Rightarrow> append_value G h l v \<lparr>vs_context = context, vs_tap = pr_tap pr, vs_grip = gk_identity g, vs_controller = ctl,
                        vs_binding = None, vs_owner = None\<rparr> [] s1)
              in again (scan_destinations G h nodes ni context l g pr ctl (pr_destinations pr) s2))"

definition scan_node :: "grip_options \<Rightarrow> js_heap \<Rightarrow> grip_node list \<Rightarrow> nat \<Rightarrow> scan \<Rightarrow> scan" where
  "scan_node G h nodes ni s =
     (let node = nodes ! ni in
      if go_exclude_context G (gn_id node) then s
      else case gn_context node of None \<Rightarrow> s | Some context \<Rightarrow> scan_producers G h nodes ni context (gn_producers node) s)"

text \<open>\<open>read\<close>: another pairing starts without targets, and a target that was not seen is forgotten.\<close>

definition discover :: "grip_options \<Rightarrow> js_heap \<Rightarrow> grip_node list \<Rightarrow> jstr \<Rightarrow> grip_assistance \<Rightarrow> grip_assistance \<times> discovered list" where
  "discover G h nodes pairing A =
     (let targets = (if ga_pairing A \<noteq> Some pairing then [] else ga_targets A);
          s = fold (scan_node G h nodes) [0..<length nodes]
                \<lparr>sc_out = [], sc_seen = [], sc_targets = targets, sc_ids = ga_ids A, sc_root_start = 0, sc_root_truncated = False, sc_total_truncated = False\<rparr>
      in (\<lparr>ga_pairing = Some pairing, ga_targets = filter (\<lambda>(k, t). k \<in> set (sc_seen s)) (sc_targets s), ga_ids = sc_ids s\<rparr>, sc_out s))"

definition new_grip_assistance :: grip_assistance where
  "new_grip_assistance = \<lparr>ga_pairing = None, ga_targets = [], ga_ids = 0\<rparr>"

subsection \<open>Writing\<close>

text \<open>The own enumerable members of the input of a write, when it is an object with members \<open>ref\<close> and \<open>value\<close>.\<close>

definition write_input :: "(jstr \<times> js_value) list \<Rightarrow> (jstr \<times> js_value) option" where
  "write_input args =
     (case (jm_get args (jlit ''ref''), jm_get args (jlit ''value'')) of
        (Some (Scalar (SStr ref)), Some v) \<Rightarrow> if length args = 2 then Some (ref, v) else None
      | _ \<Rightarrow> None)"

datatype write_error = InvalidInput | StaleReference | TypeMismatch | LeafRefuses

definition resolve_write :: "grip_options \<Rightarrow> js_heap \<Rightarrow> grip_node list \<Rightarrow> jstr \<Rightarrow> jstr \<Rightarrow> js_value \<Rightarrow> grip_assistance \<Rightarrow> grip_assistance \<times> (write_error + target)" where
  "resolve_write G h nodes pairing ref v A =
     (let A1 = fst (discover G h nodes pairing A) in
      (A1, case find (\<lambda>t. tg_ref t = ref) (map snd (ga_targets A1)) of
             None \<Rightarrow> Inl StaleReference
           | Some t \<Rightarrow> if scalar_type v \<noteq> Some (tg_type t) then Inl TypeMismatch else Inr t))"

text \<open>What a commit does: the edit that a leaf prepared, or an update of a controller at a path.\<close>

datatype write_effect = LeafEdit nat | UpdatesPath nat "jstr list" js_value

text \<open>\<open>prepareWrite\<close> gives the reference, the value and the leaf's edit, which the commit runs.\<close>

definition prepare_write :: "grip_options \<Rightarrow> js_heap \<Rightarrow> grip_node list \<Rightarrow> jstr \<Rightarrow> (jstr \<times> js_value) list \<Rightarrow> grip_assistance
    \<Rightarrow> grip_assistance \<times> (write_error + jstr \<times> js_value \<times> nat option)" where
  "prepare_write G h nodes pairing args A =
     (case write_input args of
        None \<Rightarrow> (A, Inl InvalidInput)
      | Some (ref, v) \<Rightarrow>
          (case resolve_write G h nodes pairing ref v A of
             (A1, Inl e) \<Rightarrow> (A1, Inl e)
           | (A1, Inr t) \<Rightarrow>
               (A1, case tg_leaf t of
                  None \<Rightarrow> Inr (ref, v, None)
                | Some leaf \<Rightarrow> (case lf_prepare leaf v of None \<Rightarrow> Inl LeafRefuses | Some e \<Rightarrow> Inr (ref, v, Some e)))))"

definition commit_write :: "grip_options \<Rightarrow> js_heap \<Rightarrow> grip_node list \<Rightarrow> jstr \<Rightarrow> jstr \<times> js_value \<times> nat option \<Rightarrow> grip_assistance
    \<Rightarrow> grip_assistance \<times> (write_error + write_effect)" where
  "commit_write G h nodes pairing prepared A =
     (case prepared of (ref, v, edit) \<Rightarrow>
        (case resolve_write G h nodes pairing ref v A of
           (A1, Inl e) \<Rightarrow> (A1, Inl e)
         | (A1, Inr t) \<Rightarrow>
             (A1, Inr (case edit of Some e \<Rightarrow> LeafEdit e | None \<Rightarrow> UpdatesPath (vc_identity (tg_controller t)) (vl_path (tg_location t)) v))))"

text \<open>
  \<open>replaceLeaf\<close>: a copy of the ancestors of the leaf is allocated; \<open>None\<close> when it throws. The current value is
  taken not to be a primitive string, whose characters are own properties.
\<close>

fun replace_leaf :: "js_heap \<Rightarrow> js_value \<Rightarrow> jstr list \<Rightarrow> js_value \<Rightarrow> (js_heap \<times> js_value) option" where
  "replace_leaf h current [] v = Some (h, v)"
| "replace_leaf h current (k # rest) v =
     (case current of
        Ref a \<Rightarrow>
          (case jm_get (jo_props (h ! a)) k of
             Some (DataProperty e p) \<Rightarrow>
               if k \<in> set forbidden then None
               else (case replace_leaf h p rest v of
                   None \<Rightarrow> None
                 | Some (h', p') \<Rightarrow>
                     Some (h' @ [\<lparr>jo_kind = jo_kind (h ! a), jo_props = jm_set k (DataProperty e p') (jo_props (h ! a))\<rparr>], Ref (length h')))
           | _ \<Rightarrow> None)
      | _ \<Rightarrow> None)"

subsection \<open>JavaScript actions\<close>

datatype script_error = UnknownContext | UnknownGrip | NoProvider | GripExcluded | ContextGone | NoValue | ContextChanged

record script_site =
  ss_node :: jstr
  ss_grip :: nat
  ss_context :: nat
  ss_owner :: jstr
  ss_record :: nat
  ss_value :: js_value

text \<open>\<open>query\<close> is the graph's way to a value that no consumer holds. A node is known by its id.\<close>

definition resolve_script :: "grip_options \<Rightarrow> (nat \<Rightarrow> nat \<Rightarrow> js_value option) \<Rightarrow> grip_node list \<Rightarrow> jstr \<Rightarrow> jstr \<Rightarrow> script_error + script_site" where
  "resolve_script G query nodes context key =
     (case find (\<lambda>n. gn_id n = context) nodes of
        None \<Rightarrow> Inl UnknownContext
      | Some node \<Rightarrow>
          if go_exclude_context G (gn_id node) then Inl UnknownContext
          else case find (\<lambda>g. gk_key g = key) (map fst (gn_producers node) @ map fst (gn_consumers node)) of
            None \<Rightarrow> Inl UnknownGrip
          | Some g \<Rightarrow>
              let produces = (\<lambda>n. find (\<lambda>(k, r). gk_identity k = gk_identity g) (gn_producers n));
                  owner = (if produces node \<noteq> None then Some node else map_option (\<lambda>i. nodes ! i) (jm_get (gn_providers node) (gk_identity g))) in
              case owner of
                None \<Rightarrow> Inl NoProvider
              | Some ow \<Rightarrow>
                  (case produces ow of
                     None \<Rightarrow> Inl NoProvider
                   | Some (k, record) \<Rightarrow>
                       if go_exclude_context G (gn_id ow) then Inl NoProvider
                       else let l = \<lparr>vl_context = gn_id node, vl_grip = gk_name g, vl_grip_key = gk_key g, vl_path = [], vl_role = None, vl_owner = None, vl_scope = None\<rparr>;
                                ol = l\<lparr>vl_context := gn_id ow\<rparr> in
                         if go_exclude G l \<or> go_readonly G l \<or> go_exclude G ol \<or> go_readonly G ol then Inl GripExcluded
                         else case gn_context node of
                           None \<Rightarrow> Inl ContextGone
                         | Some c \<Rightarrow>
                             (case (case consumer_value node g of Some v \<Rightarrow> Some v | None \<Rightarrow> query (gk_identity g) c) of
                                None \<Rightarrow> Inl NoValue
                              | Some v \<Rightarrow> Inr \<lparr>ss_node = gn_id node, ss_grip = gk_identity g, ss_context = c, ss_owner = gn_id ow, ss_record = pr_identity record, ss_value = v\<rparr>)))"

text \<open>The commit of a prepared script: the value that it runs with.\<close>

definition commit_script :: "grip_options \<Rightarrow> (nat \<Rightarrow> nat \<Rightarrow> js_value option) \<Rightarrow> grip_node list \<Rightarrow> jstr \<Rightarrow> jstr \<Rightarrow> script_site \<Rightarrow> script_error + js_value" where
  "commit_script G query nodes context key original =
     (case resolve_script G query nodes context key of
        Inl e \<Rightarrow> Inl e
      | Inr now \<Rightarrow>
          if ss_node now \<noteq> ss_node original \<or> ss_context now \<noteq> ss_context original \<or> ss_grip now \<noteq> ss_grip original
             \<or> ss_owner now \<noteq> ss_owner original \<or> ss_record now \<noteq> ss_record original
          then Inl ContextChanged else Inr (ss_value now))"

subsection \<open>Versioned documents\<close>

record text_document =
  td_identity :: nat
  td_text :: jstr
  td_version :: int
  td_ready :: bool

text \<open>The leaf of a document: its key, and the identity and version that were read.\<close>

definition document_leaf :: "(jstr \<times> text_document) list \<Rightarrow> jstr list \<Rightarrow> (jstr \<times> nat \<times> int) option" where
  "document_leaf docs path =
     (case path of
        [k, field] \<Rightarrow>
          if field \<noteq> jlit ''text'' then None
          else (case jm_get docs k of None \<Rightarrow> None | Some d \<Rightarrow> if td_ready d then Some (k, td_identity d, td_version d) else None)
      | _ \<Rightarrow> None)"

definition document_check :: "(jstr \<times> text_document) list \<Rightarrow> jstr \<times> nat \<times> int \<Rightarrow> bool" where
  "document_check docs leaf = (case leaf of (k, identity, version) \<Rightarrow>
     (case jm_get docs k of None \<Rightarrow> False | Some d \<Rightarrow> td_identity d = identity \<and> td_ready d \<and> td_version d = version))"

text \<open>\<open>prepare\<close>, and the commit it returns: the text and the version that \<open>replace\<close> is called with.\<close>

definition document_prepare :: "(jstr \<times> text_document) list \<Rightarrow> jstr \<times> nat \<times> int \<Rightarrow> js_value \<Rightarrow> jstr option" where
  "document_prepare docs leaf v = (case v of Scalar (SStr s) \<Rightarrow> if document_check docs leaf then Some s else None | _ \<Rightarrow> None)"

definition document_commit :: "(jstr \<times> text_document) list \<Rightarrow> jstr \<times> nat \<times> int \<Rightarrow> jstr \<Rightarrow> (nat \<times> jstr \<times> int) option" where
  "document_commit docs leaf s = (if document_check docs leaf then Some (fst (snd leaf), s, snd (snd leaf)) else None)"

end
