(* ===== verification/Grip_Discovery.thy ===== *)
theory Grip_Discovery
  imports Grip_Assistance
begin

text \<open>
  What discovery shows and what a write reaches: nothing excluded is listed, the listing is bounded,
  a reference names one leaf for as long as it is known, and a write is committed only at a leaf that
  is listed as writable at that moment.
\<close>

subsection \<open>Exclusion and bounds\<close>

definition shown_ok :: "grip_options \<Rightarrow> value_location \<Rightarrow> bool" where
  "shown_ok G l \<longleftrightarrow> \<not> excluded G l \<and> \<not> go_exclude_context G (vl_context l) \<and> length (vl_path l) \<le> 65"

definition entry_ok :: "grip_options \<Rightarrow> discovered \<Rightarrow> bool" where
  "entry_ok G d \<longleftrightarrow> shown_ok G (dv_location d) \<and> (dv_writable d \<longrightarrow> \<not> for_owner (go_readonly G) (dv_location d))"

definition scan_ok :: "grip_options \<Rightarrow> scan \<Rightarrow> bool" where
  "scan_ok G s \<longleftrightarrow> (\<forall>d \<in> set (sc_out s). entry_ok G d) \<and> length (sc_out s) \<le> (if sc_total_truncated s then 10000 else 9999)"

lemma limited_room: "\<not> snd (limited l s) \<Longrightarrow> fst (limited l s) = s \<and> length (sc_out s) < 9999 \<and> \<not> sc_total_truncated s \<and> length (vl_path l) \<le> 64"
  by (auto simp: limited_def split: if_splits)

lemma listed_simps [simp]: "dv_location (listed l w t e) = l" "dv_writable (listed l w t e) = w" "dv_ref (listed l w t e) = None" "dv_type (listed l w t e) = t"
  by (simp_all add: listed_def)

lemma push_simps [simp]: "sc_out (push d s) = sc_out s @ [d]" "sc_total_truncated (push d s) = sc_total_truncated s" "sc_targets (push d s) = sc_targets s"
  "sc_ids (push d s) = sc_ids s" "sc_seen (push d s) = sc_seen s"
  by (simp_all add: push_def)

lemma limited_ok: "scan_ok G s \<Longrightarrow> shown_ok G l \<Longrightarrow> scan_ok G (fst (limited l s))"
  by (auto simp: scan_ok_def limited_def entry_ok_def)

lemma push_ok: "scan_ok G s \<Longrightarrow> \<not> snd (limited l s) \<Longrightarrow> entry_ok G d \<Longrightarrow> scan_ok G (push d s)"
  using limited_room [of l s] by (auto simp: scan_ok_def)

lemma refer_frame: "sc_out (fst (refer G l src c t f s)) = sc_out s" "sc_total_truncated (fst (refer G l src c t f s)) = sc_total_truncated s"
  by (simp_all add: refer_def Let_def split: option.split)

lemma scalar_ok:
  assumes "scan_ok G s" "\<not> snd (limited l s)" "shown_ok G l"
  shows "scan_ok G (append_scalar G l v src s)"
proof -
  have 1: "scan_ok G (push d s)" if "entry_ok G d" for d by (rule push_ok [OF assms(1,2) that])
  have "scan_ok G (push d (fst (refer G l src c t f s)))" if "entry_ok G d" for c t f d
    using 1 [OF that] by (simp add: scan_ok_def refer_frame)
  then have 2: "refer G l src c t f s = (s', r) \<Longrightarrow> entry_ok G d \<Longrightarrow> scan_ok G (push d s')" for c t f s' r d by (metis fst_conv)
  show ?thesis
    using assms(3) by (auto simp: append_scalar_def Let_def entry_ok_def intro!: 1 2 split: option.split prod.split)
qed

lemma begin_root_ok: "scan_ok G s \<Longrightarrow> scan_ok G (begin_root s)"
  by (simp add: scan_ok_def begin_root_def)

lemma append_ok:
  "\<not> go_exclude_context G (vl_context l) \<Longrightarrow> length (vl_path l) \<le> 65 \<Longrightarrow> scan_ok G s \<Longrightarrow> scan_ok G (append_value G h l v src as s)"
  "\<not> go_exclude_context G (vl_context l) \<Longrightarrow> length (vl_path l) \<le> 64 \<Longrightarrow> scan_ok G s \<Longrightarrow> scan_ok G (append_keys G h l a ks src as s)"
proof (induction G h l v src as s and G h l a ks src as s rule: append_value_append_keys.induct)
  case (1 G h l v src as s)
  show ?case
  proof (cases "excluded G l \<or> snd (limited l s)")
    case True
    with 1 show ?thesis by (auto simp: append_value.simps [of G h l] shown_ok_def intro: limited_ok)
  next
    case False
    then have l: "shown_ok G l" using 1 by (simp add: shown_ok_def)
    have pushed: "scan_ok G (push (listed l False t e) s)" for t e
      by (rule push_ok [OF "1.prems"(3), of l]) (use False l in \<open>simp_all add: entry_ok_def\<close>)
    have depth: "length (vl_path l) \<le> 64" using False limited_room by blast
    show ?thesis
    proof (cases v)
      case (Ref a)
      then show ?thesis using False depth 1 by (simp add: append_value.simps [of G h l] pushed)
    next
      case (Scalar sv)
      then show ?thesis using False l 1 by (simp add: append_value.simps [of G h l] scalar_ok)
    next
      case (OtherValue t)
      then show ?thesis using False by (simp add: append_value.simps [of G h l] pushed)
    qed
  qed
next
  case (2 G h l a src as s)
  then show ?case by simp
next
  case (3 G h l a k ks src as s)
  let ?c = "child_location l k"
  have c: "vl_context ?c = vl_context l" "length (vl_path ?c) \<le> 65" using "3.prems"(2) by (simp_all add: child_location_def)
  consider (stop) "sc_total_truncated s \<or> sc_root_truncated s"
    | (ex) "\<not> (sc_total_truncated s \<or> sc_root_truncated s)" "excluded G ?c"
    | (lim) "\<not> (sc_total_truncated s \<or> sc_root_truncated s)" "\<not> excluded G ?c" "snd (limited ?c s)"
    | (room) "\<not> (sc_total_truncated s \<or> sc_root_truncated s)" "\<not> excluded G ?c" "\<not> snd (limited ?c s)" by blast
  then show ?case
  proof cases
    case ex
    with 3 show ?thesis by (simp add: Let_def)
  next
    case lim
    then have "scan_ok G (fst (limited ?c s))" using 3 c by (intro limited_ok) (simp_all add: shown_ok_def)
    with lim 3 show ?thesis by (simp add: Let_def)
  next
    case room
    then have shown: "shown_ok G ?c" using 3 c by (simp add: shown_ok_def)
    show ?thesis
    proof (cases "if k \<in> set forbidden then None else jm_get (jo_props (h ! a)) k")
      case None
      have "scan_ok G (push (listed ?c False ''unsupported'' (Some ''unsupported property or accessor'')) s)"
        by (rule push_ok [OF "3.prems"(3) room(3)]) (simp add: entry_ok_def shown)
      with None room 3 show ?thesis by (simp add: Let_def)
    next
      case (Some q)
      have "scan_ok G (push (listed ?c False ''unsupported'' (Some ''unsupported property or accessor'')) s)"
        by (rule push_ok [OF "3.prems"(3) room(3)]) (simp add: entry_ok_def shown)
      with Some room 3 c show ?thesis by (cases q) (simp_all add: Let_def)
    qed
  qed (use "3.prems"(3) in simp)
qed

lemma destinations_ok: "scan_ok G s \<Longrightarrow> vl_path l = [] \<Longrightarrow> scan_ok G (scan_destinations G h nodes ni context l g pr ctl ds s)"
proof (induction ds arbitrary: s)
  case (Cons d ds)
  have "scan_ok G (append_value G h dl v src [] (begin_root s))" if "\<not> go_exclude_context G (vl_context dl)" "vl_path dl = []" for dl v src
    by (rule append_ok(1)) (use that Cons.prems in \<open>simp_all add: begin_root_ok\<close>)
  with Cons show ?case by (auto simp: Let_def split: option.split)
qed simp

lemma producers_ok: "scan_ok G s \<Longrightarrow> \<not> go_exclude_context G (gn_id (nodes ! ni)) \<Longrightarrow> scan_ok G (scan_producers G h nodes ni context ps s)"
proof (induction ps arbitrary: s)
  case (Cons p ps)
  obtain g pr where p: "p = (g, pr)" by fastforce
  let ?l = "location_of (nodes ! ni) g"
  have l: "vl_path ?l = []" "vl_context ?l = gn_id (nodes ! ni)" by (simp_all add: location_of_def)
  obtain s1 b where lim: "limited ?l (begin_root s) = (s1, b)" by fastforce
  show ?case
  proof (cases "sc_total_truncated s \<or> excluded G ?l")
    case True
    with Cons p show ?thesis by (auto simp: Let_def)
  next
    case False
    then have shown: "shown_ok G ?l" using Cons.prems l by (simp add: shown_ok_def)
    have s1: "scan_ok G s1" using limited_ok [OF begin_root_ok [OF Cons.prems(1)] shown] by (simp add: lim)
    show ?thesis
    proof (cases b)
      case False
      then have room: "\<not> snd (limited ?l s1)" "s1 = begin_root s" using limited_room [of ?l "begin_root s"] lim by auto
      have "scan_ok G (push (listed ?l False t e) s1)" for t e by (rule push_ok [OF s1 room(1)]) (simp add: entry_ok_def shown)
      moreover have "scan_ok G (append_value G h ?l v src [] s1)" for v src
        by (rule append_ok(1)) (use s1 l Cons.prems in simp_all)
      ultimately show ?thesis using \<open>\<not> (sc_total_truncated s \<or> excluded G ?l)\<close> Cons lim False l
        by (auto simp: p Let_def intro!: Cons.IH destinations_ok split: option.split)
    qed (use s1 lim \<open>\<not> (sc_total_truncated s \<or> excluded G ?l)\<close> in \<open>simp add: p Let_def\<close>)
  qed
qed simp

lemma node_ok: "scan_ok G s \<Longrightarrow> scan_ok G (scan_node G h nodes ni s)"
  by (auto simp: scan_node_def Let_def intro: producers_ok split: option.split)

text \<open>C25. Discovery discloses nothing that the application excludes, and ends within its limits: whatever
  the graph holds, cyclic values included, no listed location is excluded, or lies in an excluded
  context, for itself or for the owner it is a view of; a location is listed as writable only where
  neither is read-only; and there are at most 10000 entries, none deeper than 65 keys.\<close>

theorem discovery_discloses:
  "(\<forall>d \<in> set (snd (discover G h nodes pairing A)).
       \<not> go_exclude G (dv_location d) \<and> \<not> go_exclude_context G (vl_context (dv_location d)) \<and> length (vl_path (dv_location d)) \<le> 65
       \<and> \<not> (vl_role (dv_location d) = Some DestinationRole \<and> go_exclude G (owner_location (dv_location d)))
       \<and> \<not> (dv_writable d \<and> go_readonly G (dv_location d))
       \<and> \<not> (dv_writable d \<and> vl_role (dv_location d) = Some DestinationRole \<and> go_readonly G (owner_location (dv_location d))))
    \<and> length (snd (discover G h nodes pairing A)) \<le> 10000"
proof -
  define start where "start = \<lparr>sc_out = [], sc_seen = [], sc_targets = (if ga_pairing A \<noteq> Some pairing then [] else ga_targets A), sc_ids = ga_ids A,
    sc_root_start = 0, sc_root_truncated = False, sc_total_truncated = False\<rparr>"
  define final where "final = fold (scan_node G h nodes) [0..<length nodes] start"
  have "scan_ok G (fold (scan_node G h nodes) ns s)" if "scan_ok G s" for ns s
    using that by (induction ns arbitrary: s) (simp_all add: node_ok)
  moreover have "scan_ok G start" by (simp add: scan_ok_def start_def)
  ultimately have "scan_ok G final" by (simp add: final_def)
  moreover have "snd (discover G h nodes pairing A) = sc_out final" by (simp add: discover_def Let_def start_def final_def)
  ultimately show ?thesis by (auto simp: scan_ok_def entry_ok_def shown_ok_def excluded_def for_owner_def split: if_splits)
qed

subsection \<open>A sample graph\<close>

text \<open>One node publishes, through a controller, an object with one string member.\<close>

definition sample_options :: grip_options where
  "sample_options = \<lparr>go_exclude_context = (\<lambda>_. False), go_exclude = (\<lambda>_. False), go_readonly = (\<lambda>_. False), go_controller = (\<lambda>_ c. c), go_id = (\<lambda>n. replicate n 0)\<rparr>"

definition sample_heap :: js_heap where
  "sample_heap = [\<lparr>jo_kind = PlainObject, jo_props = [([1], DataProperty True (Scalar (SStr [2])))]\<rparr>]"

definition sample_nodes :: "grip_node list" where
  "sample_nodes = [\<lparr>gn_id = [3], gn_context = Some 0,
     gn_producers = [(\<lparr>gk_identity = 0, gk_name = [4], gk_key = [5]\<rparr>,
       \<lparr>pr_identity = 0, pr_tap = 0, pr_controllers = Some [(0, \<lparr>vc_identity = 7, vc_value = Ref 0, vc_leaf = None\<rparr>)], pr_destination_params = False, pr_destinations = []\<rparr>)],
     gn_consumers = [], gn_providers = []\<rparr>]"

lemma discovery_discloses_witness:
  "[[1]] \<notin> (vl_path \<circ> dv_location) ` set (snd (discover (sample_options\<lparr>go_exclude := (\<lambda>l. vl_path l = [[1]])\<rparr>) sample_heap sample_nodes [9] new_grip_assistance))
    \<and> length (snd (discover sample_options sample_heap sample_nodes [9] new_grip_assistance)) \<le> 10000"
proof -
  let ?ds = "snd (discover (sample_options\<lparr>go_exclude := (\<lambda>l. vl_path l = [[1]])\<rparr>) sample_heap sample_nodes [9] new_grip_assistance)"
  have other: "vl_path (dv_location d) \<noteq> [[1]]" if "d \<in> set ?ds" for d
    using discovery_discloses [of "sample_options\<lparr>go_exclude := (\<lambda>l. vl_path l = [[1]])\<rparr>" sample_heap sample_nodes "[9]" new_grip_assistance] that by simp
  have "[[1]] \<notin> (vl_path \<circ> dv_location) ` set ?ds"
  proof
    assume "[[1]] \<in> (vl_path \<circ> dv_location) ` set ?ds"
    then obtain d where d: "[[1]] = (vl_path \<circ> dv_location) d" "d \<in> set ?ds" by (rule imageE)
    from other [OF d(2)] d(1) show False by simp
  qed
  moreover have "length (snd (discover sample_options sample_heap sample_nodes [9] new_grip_assistance)) \<le> 10000"
    using discovery_discloses by blast
  ultimately show ?thesis ..
qed

subsection \<open>The steps of a scan\<close>

text \<open>A scan lists something that cannot be written, or refers to a leaf and lists it.\<close>

inductive scan_step :: "grip_options \<Rightarrow> scan \<Rightarrow> scan \<Rightarrow> bool" for G where
  lists: "sc_out s' = sc_out s @ ds \<Longrightarrow> \<forall>d \<in> set ds. dv_ref d = None \<Longrightarrow> sc_targets s' = sc_targets s \<Longrightarrow> sc_ids s' = sc_ids s
    \<Longrightarrow> sc_seen s' = sc_seen s \<Longrightarrow> scan_step G s s'"
| refers: "refer G l src c ty lf s = (s1, ref) \<Longrightarrow> scan_step G s (push ((listed l True ty None)\<lparr>dv_ref := Some ref, dv_value := v\<rparr>) s1)"

abbreviation scan_steps :: "grip_options \<Rightarrow> scan \<Rightarrow> scan \<Rightarrow> bool" where
  "scan_steps G \<equiv> (scan_step G)\<^sup>*\<^sup>*"

lemma push_step: "scan_steps G s0 s \<Longrightarrow> dv_ref d = None \<Longrightarrow> scan_steps G s0 (push d s)"
  by (erule rtranclp.rtrancl_into_rtrancl) (auto intro!: lists [where ds = "[d]"])

lemma limited_step: "scan_steps G s0 s \<Longrightarrow> scan_steps G s0 (fst (limited l s))"
proof -
  have "\<exists>ds. sc_out (fst (limited l s)) = sc_out s @ ds \<and> (\<forall>d \<in> set ds. dv_ref d = None)" by (auto simp: limited_def intro: exI [of _ "[]"])
  moreover have "sc_targets (fst (limited l s)) = sc_targets s" "sc_ids (fst (limited l s)) = sc_ids s" "sc_seen (fst (limited l s)) = sc_seen s"
    by (simp_all add: limited_def)
  ultimately show "scan_steps G s0 s \<Longrightarrow> scan_steps G s0 (fst (limited l s))" by (meson lists rtranclp.rtrancl_into_rtrancl)
qed

lemma begin_step: "scan_steps G s0 s \<Longrightarrow> scan_steps G s0 (begin_root s)"
  by (erule rtranclp.rtrancl_into_rtrancl) (auto simp: begin_root_def intro!: lists [where ds = "[]"])

lemma scalar_step:
  assumes "scan_steps G s0 s"
  shows "scan_steps G s0 (append_scalar G l v src s)"
proof -
  have pushed: "scan_steps G s0 (push ((listed l False (scalar_name v) None)\<lparr>dv_value := Some v\<rparr>) s)"
    by (rule push_step [OF assms]) (simp add: listed_def)
  have "refer G l src c ty lf s = (s1, ref) \<Longrightarrow> scan_steps G s0 (push ((listed l True ty None)\<lparr>dv_ref := Some ref, dv_value := w\<rparr>) s1)" for c ty lf s1 ref w
    by (rule rtranclp.rtrancl_into_rtrancl [OF assms refers])
  with pushed show ?thesis by (auto simp: append_scalar_def Let_def split: option.split prod.split)
qed

lemma append_steps:
  "scan_steps G s0 s \<Longrightarrow> scan_steps G s0 (append_value G h l v src as s)"
  "scan_steps G s0 s \<Longrightarrow> scan_steps G s0 (append_keys G h l a ks src as s)"
proof (induction G h l v src as s and G h l a ks src as s rule: append_value_append_keys.induct)
  case (1 G h l v src as s)
  show ?case
  proof (cases "excluded G l \<or> snd (limited l s)")
    case True
    with 1 show ?thesis by (auto simp: append_value.simps [of G h l] intro: limited_step)
  next
    case False
    then show ?thesis
    proof (cases v)
      case (Ref a)
      with False 1 show ?thesis by (simp add: append_value.simps [of G h l] push_step)
    qed (use False 1 in \<open>simp_all add: append_value.simps [of G h l] push_step scalar_step\<close>)
  qed
next
  case (3 G h l a k ks src as s)
  show ?case
  proof (cases "sc_total_truncated s \<or> sc_root_truncated s \<or> excluded G (child_location l k) \<or> snd (limited (child_location l k) s)")
    case True
    with 3 show ?thesis by (auto simp: Let_def limited_step)
  next
    case False
    with 3 show ?thesis by (auto simp: Let_def push_step split: option.split js_property.split)
  qed
qed simp

lemma destinations_steps: "scan_steps G s0 s \<Longrightarrow> scan_steps G s0 (scan_destinations G h nodes ni context l g pr ctl ds s)"
  by (induction ds arbitrary: s) (auto simp: Let_def append_steps(1) begin_step split: option.split)

lemma producers_steps: "scan_steps G s0 s \<Longrightarrow> scan_steps G s0 (scan_producers G h nodes ni context ps s)"
proof (induction ps arbitrary: s)
  case (Cons p ps)
  obtain g pr where p: "p = (g, pr)" by fastforce
  obtain s1 b where lim: "limited (location_of (nodes ! ni) g) (begin_root s) = (s1, b)" by fastforce
  have "scan_steps G s0 s1" using limited_step [OF begin_step [OF Cons.prems]] lim by (metis fst_conv)
  with Cons show ?case by (cases b) (auto simp: p lim Let_def push_step append_steps(1) destinations_steps split: option.split)
qed simp

lemma nodes_steps: "scan_steps G s0 s \<Longrightarrow> scan_steps G s0 (fold (scan_node G h nodes) ns s)"
  by (induction ns arbitrary: s) (auto simp: scan_node_def Let_def producers_steps split: option.split)

end
