(* ===== verification/Grip_References.thy ===== *)
theory Grip_References
  imports Grip_Discovery
begin

text \<open>
  The references of discovery: a reference names one target for as long as the graph's state lasts,
  and a write is committed only at a leaf that is listed as writable at that moment.
\<close>

subsection \<open>Names\<close>

lemma target_key_inject:
  assumes "target_key l = target_key l'"
  shows "vl_role l = vl_role l' \<and> vl_context l = vl_context l' \<and> vl_grip_key l = vl_grip_key l' \<and> vl_path l = vl_path l'"
proof -
  have "json_parse (target_key l) = Some (JArr [role_json (vl_role l), JStr (vl_context l), JStr (vl_grip_key l), JArr (map JStr (vl_path l))])" for l
    unfolding target_key_def by (rule json_parse_stringify) (auto simp: role_json_def split: option.split value_role.split)
  from this [of l] this [of l'] assms
  have "role_json (vl_role l) = role_json (vl_role l')" "vl_context l = vl_context l'" "vl_grip_key l = vl_grip_key l'" "map JStr (vl_path l) = map JStr (vl_path l')"
    by simp_all
  moreover have "vl_path l = vl_path l'" using inj_map_eq_map [of JStr] calculation(4) by (simp add: inj_def)
  moreover have "jlit ''owner'' \<noteq> jlit ''destination''" by (simp add: jlit_def)
  ultimately show ?thesis by (auto simp: role_json_def split: option.splits value_role.splits)
qed

text \<open>What a target is: its leaf, its type, and the objects that it was found through.\<close>

record leaf_name =
  ln_key :: jstr
  ln_type :: string
  ln_context :: nat
  ln_tap :: nat
  ln_grip :: nat
  ln_binding :: "nat option"
  ln_owner :: "nat option"
  ln_leaf :: "nat option"

definition target_name :: "target \<Rightarrow> leaf_name" where
  "target_name t = \<lparr>ln_key = target_key (tg_location t), ln_type = tg_type t, ln_context = vs_context (tg_source t), ln_tap = vs_tap (tg_source t),
     ln_grip = vs_grip (tg_source t), ln_binding = vs_binding (tg_source t), ln_owner = vs_owner (tg_source t), ln_leaf = map_option lf_identity (tg_leaf t)\<rparr>"

definition shows_name :: "discovered \<Rightarrow> leaf_name \<Rightarrow> bool" where
  "shows_name d n \<longleftrightarrow> target_key (dv_location d) = ln_key n \<and> dv_type d = ln_type n"

text \<open>The names in the order of their references.\<close>

definition known :: "(nat \<Rightarrow> jstr) \<Rightarrow> leaf_name list \<Rightarrow> jstr \<Rightarrow> leaf_name \<Rightarrow> bool" where
  "known gid hist r n \<longleftrightarrow> (\<exists>i < length hist. r = gid i \<and> hist ! i = n)"

lemma known_append: "known gid hist r n \<Longrightarrow> known gid (hist @ ext) r n"
  by (auto simp: known_def nth_append)

lemma known_new: "known gid (hist @ [n]) (gid (length hist)) n"
  unfolding known_def by (rule exI [of _ "length hist"]) simp

lemma known_unique: "inj gid \<Longrightarrow> known gid hist r n \<Longrightarrow> known gid hist r n' \<Longrightarrow> n = n'"
  by (auto simp: known_def inj_eq)

definition named_targets :: "(nat \<Rightarrow> jstr) \<Rightarrow> leaf_name list \<Rightarrow> (jstr \<times> target) list \<Rightarrow> bool" where
  "named_targets gid hist ts \<longleftrightarrow> distinct (jm_keys ts) \<and>
     (\<forall>k t. jm_get ts k = Some t \<longrightarrow> target_key (tg_location t) = k \<and> known gid hist (tg_ref t) (target_name t))"

definition named_entries :: "(nat \<Rightarrow> jstr) \<Rightarrow> leaf_name list \<Rightarrow> discovered list \<Rightarrow> bool" where
  "named_entries gid hist ds \<longleftrightarrow> (\<forall>d \<in> set ds. \<forall>r. dv_ref d = Some r \<longrightarrow> (\<exists>n. known gid hist r n \<and> shows_name d n))"

text \<open>A target that this scan has seen is listed as writable.\<close>

definition seen_listed :: "scan \<Rightarrow> bool" where
  "seen_listed s \<longleftrightarrow> (\<forall>k t. jm_get (sc_targets s) k = Some t \<longrightarrow> k \<in> set (sc_seen s) \<longrightarrow>
     (\<exists>d \<in> set (sc_out s). dv_writable d \<and> dv_ref d = Some (tg_ref t) \<and> shows_name d (target_name t)))"

definition scan_named :: "(nat \<Rightarrow> jstr) \<Rightarrow> leaf_name list \<Rightarrow> scan \<Rightarrow> bool" where
  "scan_named gid hist s \<longleftrightarrow> length hist = sc_ids s \<and> named_targets gid hist (sc_targets s) \<and> named_entries gid hist (sc_out s) \<and> seen_listed s"

lemma named_targets_append: "named_targets gid hist ts \<Longrightarrow> named_targets gid (hist @ ext) ts"
  by (auto simp: named_targets_def known_append)

lemma named_entries_append: "named_entries gid hist ds \<Longrightarrow> named_entries gid (hist @ ext) ds"
  unfolding named_entries_def by (meson known_append)

lemma named_targets_set: "named_targets gid hist ts \<Longrightarrow> known gid hist (tg_ref t) (target_name t) \<Longrightarrow> target_key (tg_location t) = k
    \<Longrightarrow> named_targets gid hist (jm_set k t ts)"
  by (auto simp: named_targets_def jm_get_set distinct_update)

lemma refer_cases:
  assumes "refer G l src c ty lf s = (s1, ref)"
  shows "s1 = s\<lparr>sc_targets := jm_set (target_key l) \<lparr>tg_ref = go_id G (sc_ids s), tg_location = l, tg_source = src, tg_controller = c, tg_type = ty, tg_leaf = lf\<rparr> (sc_targets s),
        sc_ids := sc_ids s + 1, sc_seen := js_add (target_key l) (sc_seen s)\<rparr> \<and> ref = go_id G (sc_ids s)
    \<or> (\<exists>t. jm_get (sc_targets s) (target_key l) = Some t \<and> same_target t src ty lf \<and> ref = tg_ref t
        \<and> s1 = s\<lparr>sc_targets := jm_set (target_key l) (t\<lparr>tg_controller := c, tg_leaf := lf\<rparr>) (sc_targets s), sc_seen := js_add (target_key l) (sc_seen s)\<rparr>)"
proof (cases "\<exists>t. jm_get (sc_targets s) (target_key l) = Some t \<and> same_target t src ty lf")
  case True
  then show ?thesis using assms unfolding refer_def Let_def by auto
next
  case False
  then show ?thesis using assms unfolding refer_def Let_def by (cases "jm_get (sc_targets s) (target_key l)") auto
qed

lemma step_named:
  assumes "scan_step G s s'" "scan_named (go_id G) hist s"
  shows "\<exists>ext. scan_named (go_id G) (hist @ ext) s'"
  using assms
proof (cases rule: scan_step.cases)
  case (lists ds)
  then have "seen_listed s'" using assms(2) by (simp add: scan_named_def seen_listed_def) blast
  with lists assms(2) have "scan_named (go_id G) (hist @ []) s'" by (auto simp: scan_named_def named_entries_def)
  then show ?thesis ..
next
  case (refers l src c ty lf s1 ref v)
  let ?k = "target_key l" and ?d = "(listed l True ty None)\<lparr>dv_ref := Some ref, dv_value := v\<rparr>"
  have d [simp]: "dv_location ?d = l" "dv_type ?d = ty" "dv_writable ?d" "dv_ref ?d = Some ref" by simp_all
  define fresh where "fresh = \<lparr>tg_ref = go_id G (sc_ids s), tg_location = l, tg_source = src, tg_controller = c, tg_type = ty, tg_leaf = lf\<rparr>"
  note inv = assms(2) [unfolded scan_named_def]
  consider (new) "s1 = s\<lparr>sc_targets := jm_set ?k fresh (sc_targets s), sc_ids := sc_ids s + 1, sc_seen := js_add ?k (sc_seen s)\<rparr>" "ref = tg_ref fresh"
    | (kept) t where "jm_get (sc_targets s) ?k = Some t" "same_target t src ty lf" "ref = tg_ref t"
        "s1 = s\<lparr>sc_targets := jm_set ?k (t\<lparr>tg_controller := c, tg_leaf := lf\<rparr>) (sc_targets s), sc_seen := js_add ?k (sc_seen s)\<rparr>"
    using refer_cases [OF refers(2)] unfolding fresh_def by (metis target.select_convs(1))
  then show ?thesis
  proof cases
    case new
    let ?h = "hist @ [target_name fresh]"
    have k: "known (go_id G) ?h (tg_ref fresh) (target_name fresh)" using known_new [of "go_id G" hist] inv by (simp add: fresh_def)
    have sh: "shows_name ?d (target_name fresh)" by (simp add: shows_name_def target_name_def fresh_def)
    have "named_targets (go_id G) ?h (jm_set ?k fresh (sc_targets s))"
      by (rule named_targets_set [OF named_targets_append k]) (use inv in \<open>simp_all add: fresh_def\<close>)
    moreover have "named_entries (go_id G) ?h (sc_out s @ [?d])"
      using named_entries_append [of "go_id G" hist "sc_out s" "[target_name fresh]"] inv k sh new(2) unfolding named_entries_def by auto
    moreover have "seen_listed s'"
      using inv sh new refers(1) by (auto simp: seen_listed_def jm_get_set)
    ultimately have "scan_named (go_id G) ?h s'" using inv new refers(1) by (simp add: scan_named_def)
    then show ?thesis ..
  next
    case kept
    let ?t = "t\<lparr>tg_controller := c, tg_leaf := lf\<rparr>"
    have t: "target_key (tg_location t) = ?k" "known (go_id G) hist (tg_ref t) (target_name t)" using inv kept(1) by (simp_all add: named_targets_def)
    have same: "target_name ?t = target_name t" "tg_type t = ty" using kept(2) by (simp_all add: target_name_def same_target_def)
    have sh: "shows_name ?d (target_name t)" using t same by (simp add: shows_name_def target_name_def)
    have "named_targets (go_id G) hist (jm_set ?k ?t (sc_targets s))"
      by (rule named_targets_set) (use inv t same in simp_all)
    moreover have "named_entries (go_id G) hist (sc_out s @ [?d])" using inv t(2) sh kept(3) by (auto simp: named_entries_def)
    moreover have "seen_listed s'" using inv sh same kept refers(1) by (auto simp: seen_listed_def jm_get_set)
    ultimately have "scan_named (go_id G) (hist @ []) s'" using inv kept refers(1) by (simp add: scan_named_def)
    then show ?thesis ..
  qed
qed

lemma steps_named:
  assumes "scan_steps G s s'" "scan_named (go_id G) hist s"
  shows "\<exists>ext. scan_named (go_id G) (hist @ ext) s'"
  using assms
proof (induction rule: rtranclp_induct)
  case base
  then have "scan_named (go_id G) (hist @ []) s" by simp
  then show ?case ..
next
  case (step y z)
  then obtain ext where "scan_named (go_id G) (hist @ ext) y" by blast
  from step_named [OF step.hyps(2) this] show ?case by auto
qed

subsection \<open>Reads and writes\<close>

definition state_named :: "(nat \<Rightarrow> jstr) \<Rightarrow> leaf_name list \<Rightarrow> grip_assistance \<Rightarrow> bool" where
  "state_named gid hist A \<longleftrightarrow> length hist = ga_ids A \<and> named_targets gid hist (ga_targets A)"

lemma filter_keys_get: "jm_get (filter (\<lambda>(k, t). P k) m) k = (if P k then jm_get m k else None)"
  by (induction m) auto

lemma filter_keys_distinct: "distinct (jm_keys m) \<Longrightarrow> distinct (jm_keys (filter (\<lambda>(k, t). P k) m))"
  by (induction m) auto

text \<open>After a read every target is listed as writable.\<close>

lemma discover_named:
  assumes "state_named (go_id G) hist A" "discover G h nodes pairing A = (A', ds)"
  shows "\<exists>ext. state_named (go_id G) (hist @ ext) A' \<and> named_entries (go_id G) (hist @ ext) ds
    \<and> (\<forall>t \<in> snd ` set (ga_targets A'). \<exists>d \<in> set ds. dv_writable d \<and> dv_ref d = Some (tg_ref t) \<and> shows_name d (target_name t))"
proof -
  define start where "start = \<lparr>sc_out = [], sc_seen = [], sc_targets = (if ga_pairing A \<noteq> Some pairing then [] else ga_targets A), sc_ids = ga_ids A,
    sc_root_start = 0, sc_root_truncated = False, sc_total_truncated = False\<rparr>"
  define final where "final = fold (scan_node G h nodes) [0..<length nodes] start"
  have A': "ga_targets A' = filter (\<lambda>(k, t). k \<in> set (sc_seen final)) (sc_targets final)" "ga_ids A' = sc_ids final" "ds = sc_out final"
    using assms(2) by (auto simp: discover_def Let_def start_def final_def)
  have "scan_named (go_id G) hist start"
    using assms(1) by (auto simp: scan_named_def start_def state_named_def named_targets_def named_entries_def seen_listed_def)
  moreover have "scan_steps G start final" unfolding final_def by (rule nodes_steps) simp
  ultimately obtain ext where ext: "scan_named (go_id G) (hist @ ext) final" using steps_named by blast
  then have "state_named (go_id G) (hist @ ext) A'"
    by (auto simp: state_named_def scan_named_def A' named_targets_def filter_keys_get filter_keys_distinct split: if_splits)
  moreover have "\<exists>d \<in> set ds. dv_writable d \<and> dv_ref d = Some (tg_ref t) \<and> shows_name d (target_name t)" if "t \<in> snd ` set (ga_targets A')" for t
  proof -
    from that obtain k where k: "(k, t) \<in> set (sc_targets final)" "k \<in> set (sc_seen final)" by (auto simp: A')
    then have "jm_get (sc_targets final) k = Some t" using ext by (simp add: scan_named_def named_targets_def)
    with k ext show ?thesis by (simp add: scan_named_def seen_listed_def A')
  qed
  ultimately show ?thesis using ext by (auto simp: scan_named_def A')
qed

lemma target_known: "state_named gid hist A \<Longrightarrow> t \<in> snd ` set (ga_targets A) \<Longrightarrow> known gid hist (tg_ref t) (target_name t)"
  by (auto simp: state_named_def named_targets_def)

text \<open>A sequence of reads, each with the graph and the options of its moment.\<close>

type_synonym read_call = "grip_options \<times> js_heap \<times> grip_node list \<times> jstr"

definition read_once :: "(nat \<Rightarrow> jstr) \<Rightarrow> read_call \<Rightarrow> grip_assistance \<Rightarrow> grip_assistance" where
  "read_once gid c A = (case c of (G, h, nodes, pairing) \<Rightarrow> fst (discover (G\<lparr>go_id := gid\<rparr>) h nodes pairing A))"

lemma reads_named: "state_named gid hist A \<Longrightarrow> \<exists>ext. state_named gid (hist @ ext) (fold (read_once gid) cs A)"
proof (induction cs arbitrary: hist A)
  case Nil
  then have "state_named gid (hist @ []) A" by simp
  then show ?case by (metis fold_simps(1))
next
  case (Cons c cs)
  obtain G h nodes pairing where c: "c = (G, h, nodes, pairing)" by (cases c)
  have "\<exists>ext. state_named gid (hist @ ext) (read_once gid c A)"
    using discover_named [of "G\<lparr>go_id := gid\<rparr>" hist A h nodes pairing] Cons.prems
    by (auto simp: c read_once_def) (metis prod.collapse)
  then obtain ext where "state_named gid (hist @ ext) (read_once gid c A)" ..
  from Cons.IH [OF this] show ?case by auto
qed

lemma new_named: "state_named gid [] new_grip_assistance"
  by (simp add: state_named_def new_grip_assistance_def named_targets_def)

lemma find_target: "find (\<lambda>t. tg_ref t = r) (map snd m) = Some t \<Longrightarrow> t \<in> snd ` set m \<and> tg_ref t = r"
  by (induction m) (auto split: if_splits)

text \<open>C20. A reference names one leaf. When a read lists an entry with a reference, then whatever reads follow,
  with other graphs, values, options or pairings, a commit of a write to that reference is refused, or is
  made at a moment at which the same context, grip and path are listed as writable, in the same role and
  with the same type, which is the type of the value; and a commit without a specialised edit updates that path. The target is the one the reference was first
  given to: the same context, tap, grip, binding, owner and document.\<close>

theorem write_reaches_listed_leaf:
  assumes "inj gid"
    and "discover (G\<lparr>go_id := gid\<rparr>) h nodes pairing (fold (read_once gid) before new_grip_assistance) = (A, ds)"
    and "d \<in> set ds" "dv_ref d = Some ref"
    and "commit_write (G'\<lparr>go_id := gid\<rparr>) h' nodes' pairing' (ref, v, edit) (fold (read_once gid) between A) = (A', Inr effect)"
  shows "\<exists>e \<in> set (snd (discover (G'\<lparr>go_id := gid\<rparr>) h' nodes' pairing' (fold (read_once gid) between A))).
      dv_writable e \<and> dv_ref e = Some ref \<and> dv_type e = dv_type d \<and> scalar_type v = Some (dv_type d)
      \<and> vl_role (dv_location e) = vl_role (dv_location d) \<and> vl_context (dv_location e) = vl_context (dv_location d)
      \<and> vl_grip_key (dv_location e) = vl_grip_key (dv_location d) \<and> vl_path (dv_location e) = vl_path (dv_location d)
      \<and> (case edit of Some x \<Rightarrow> effect = LeafEdit x | None \<Rightarrow> \<exists>c. effect = UpdatesPath c (vl_path (dv_location d)) v)
      \<and> (\<exists>t. resolve_write (G'\<lparr>go_id := gid\<rparr>) h' nodes' pairing' ref v (fold (read_once gid) between A) = (A', Inr t)
            \<and> (\<forall>t0 \<in> snd ` set (ga_targets A). tg_ref t0 \<noteq> ref \<or> target_name t0 = target_name t))"
proof -
  let ?B = "fold (read_once gid) between A"
  obtain hist0 where "state_named gid hist0 (fold (read_once gid) before new_grip_assistance)" using reads_named [OF new_named] by blast
  then obtain hist where A: "state_named gid hist A" "named_entries gid hist ds"
    using discover_named [of "G\<lparr>go_id := gid\<rparr>", OF _ assms(2), of hist0] by auto
  from A(2) assms(3,4) obtain n where n: "known gid hist ref n" "shows_name d n" unfolding named_entries_def by blast
  obtain ext where B: "state_named gid (hist @ ext) ?B" using reads_named [OF A(1)] by blast
  obtain B' es where read: "discover (G'\<lparr>go_id := gid\<rparr>) h' nodes' pairing' ?B = (B', es)" by fastforce
  then obtain ext' where B': "state_named gid (hist @ ext @ ext') B'"
      "\<forall>t \<in> snd ` set (ga_targets B'). \<exists>d \<in> set es. dv_writable d \<and> dv_ref d = Some (tg_ref t) \<and> shows_name d (target_name t)"
    using discover_named [of "G'\<lparr>go_id := gid\<rparr>", OF _ read, of "hist @ ext"] B by auto
  from assms(5) read obtain t where t: "find (\<lambda>t. tg_ref t = ref) (map snd (ga_targets B')) = Some t" "scalar_type v = Some (tg_type t)"
      "effect = (case edit of Some e \<Rightarrow> LeafEdit e | None \<Rightarrow> UpdatesPath (vc_identity (tg_controller t)) (vl_path (tg_location t)) v)"
    by (auto simp: commit_write_def resolve_write_def split: option.splits if_splits)
  then have t': "t \<in> snd ` set (ga_targets B')" "tg_ref t = ref" using find_target by blast+
  then obtain e where e: "e \<in> set es" "dv_writable e" "dv_ref e = Some ref" "shows_name e (target_name t)" using B'(2) by auto
  have "target_name t = n"
    using known_unique [OF assms(1)] target_known [OF B'(1) t'(1)] known_append [OF n(1)] t'(2) by blast
  moreover have "target_name t0 = n" if "t0 \<in> snd ` set (ga_targets A)" "tg_ref t0 = ref" for t0
    using known_unique [OF assms(1)] target_known [OF A(1) that(1)] n(1) that(2) by blast
  moreover have "resolve_write (G'\<lparr>go_id := gid\<rparr>) h' nodes' pairing' ref v ?B = (A', Inr t)"
    using assms(5) read t(1,2) by (simp add: commit_write_def resolve_write_def)
  ultimately have kept: "\<exists>t. resolve_write (G'\<lparr>go_id := gid\<rparr>) h' nodes' pairing' ref v ?B = (A', Inr t)
      \<and> (\<forall>t0 \<in> snd ` set (ga_targets A). tg_ref t0 \<noteq> ref \<or> target_name t0 = target_name t)" by blast
  from \<open>target_name t = n\<close> n e have same: "target_key (dv_location e) = target_key (dv_location d)" "target_key (tg_location t) = target_key (dv_location d)"
      "dv_type e = dv_type d" "tg_type t = dv_type d" by (auto simp: shows_name_def target_name_def)
  have "case edit of Some x \<Rightarrow> effect = LeafEdit x | None \<Rightarrow> \<exists>c. effect = UpdatesPath c (vl_path (dv_location d)) v"
    using t(3) target_key_inject [OF same(2)] by (simp split: option.split)
  with target_key_inject [OF same(1)] e(1-3) t(2) same(3,4) kept read show ?thesis by (intro bexI [of _ e]) simp_all
qed

subsection \<open>A sample write\<close>

definition sample_location :: "jstr list \<Rightarrow> value_location" where
  "sample_location p = \<lparr>vl_context = [3], vl_grip = [4], vl_grip_key = [5], vl_path = p, vl_role = Some OwnerRole, vl_owner = Some [3], vl_scope = Some OwnerShared\<rparr>"

definition sample_entry :: discovered where
  "sample_entry = \<lparr>dv_location = sample_location [[1]], dv_writable = True, dv_type = ''string'', dv_ref = Some [], dv_value = Some (SStr [2]), dv_error = None\<rparr>"

definition sample_state :: grip_assistance where
  "sample_state = \<lparr>ga_pairing = Some [9], ga_targets = [(target_key (sample_location [[1]]), \<lparr>tg_ref = [], tg_location = sample_location [[1]],
     tg_source = \<lparr>vs_context = 0, vs_tap = 0, vs_grip = 0, vs_controller = Some \<lparr>vc_identity = 7, vc_value = Ref 0, vc_leaf = None\<rparr>, vs_binding = None, vs_owner = None\<rparr>,
     tg_controller = \<lparr>vc_identity = 7, vc_value = Ref 0, vc_leaf = None\<rparr>, tg_type = ''string'', tg_leaf = None\<rparr>)], ga_ids = 1\<rparr>"

lemmas sample_defs = sample_options_def sample_heap_def sample_nodes_def sample_location_def

lemma sample_read:
  assumes "A = new_grip_assistance \<or> A = sample_state"
  shows "discover (sample_options\<lparr>go_id := (\<lambda>n. replicate n 0)\<rparr>) sample_heap sample_nodes [9] A =
    (sample_state, [listed (sample_location []) False ''object'' None, sample_entry])"
  using assms
  by (auto simp: new_grip_assistance_def discover_def sample_defs sample_state_def sample_entry_def scan_node_def location_of_def excluded_def for_owner_def
      limited_def begin_root_def append_value.simps append_scalar_def refer_def same_target_def leaf_at_def child_location_def object_keys_def push_def
      listed_def forbidden_def jlit_def js_add_def Let_def)

lemma write_reaches_listed_leaf_witness:
  "\<exists>e \<in> set (snd (discover (sample_options\<lparr>go_id := (\<lambda>n. replicate n 0)\<rparr>) sample_heap sample_nodes [9] sample_state)).
     dv_writable e \<and> dv_ref e = Some [] \<and> vl_path (dv_location e) = [[1]]"
proof -
  have 1: "inj (\<lambda>n. replicate n (0::16 word))" by (rule injI) (metis length_replicate)
  have 2: "commit_write (sample_options\<lparr>go_id := (\<lambda>n. replicate n 0)\<rparr>) sample_heap sample_nodes [9] ([], Scalar (SStr [8]), None) (fold (read_once (\<lambda>n. replicate n 0)) [] sample_state)
      = (sample_state, Inr (UpdatesPath 7 [[1]] (Scalar (SStr [8]))))"
    by (simp add: commit_write_def resolve_write_def sample_read) (simp add: sample_state_def scalar_type_def sample_location_def)
  have 3: "sample_entry \<in> set [listed (sample_location []) False ''object'' None, sample_entry]" by simp
  show ?thesis
    using write_reaches_listed_leaf [OF 1 _ 3 _ 2, of sample_options sample_heap sample_nodes "[9]" "[]"] sample_read
    by (auto simp: sample_entry_def sample_location_def)
qed

end
