(* ===== verification/Leaf_Replace.thy ===== *)
theory Leaf_Replace
  imports Grip_Assistance "HOL-Library.Sublist"
begin

text \<open>
  \<open>replaceLeaf\<close>: the copy of a value that differs in one leaf. Reading at a path of data properties
  is the abstract view of a value.
\<close>

fun leaf_get :: "js_heap \<Rightarrow> js_value \<Rightarrow> jstr list \<Rightarrow> js_value option" where
  "leaf_get h v [] = Some v"
| "leaf_get h v (k # ks) =
     (case v of Ref a \<Rightarrow> (case jm_get (jo_props (h ! a)) k of Some (DataProperty e p) \<Rightarrow> leaf_get h p ks | _ \<Rightarrow> None) | _ \<Rightarrow> None)"

text \<open>Every object that a value of the heap refers to is in the heap.\<close>

fun in_heap :: "js_heap \<Rightarrow> js_value \<Rightarrow> bool" where
  "in_heap h (Ref a) \<longleftrightarrow> a < length h"
| "in_heap h v \<longleftrightarrow> True"

lemma in_heap_append: "in_heap h v \<Longrightarrow> in_heap (h @ new) v"
  by (cases v) auto

text \<open>The values of an object's data properties are in the heap.\<close>

definition object_in_heap :: "js_heap \<Rightarrow> js_object \<Rightarrow> bool" where
  "object_in_heap h ob \<longleftrightarrow> (\<forall>k e p. (k, DataProperty e p) \<in> set (jo_props ob) \<longrightarrow> in_heap h p)"

definition heap_closed :: "js_heap \<Rightarrow> bool" where
  "heap_closed h \<longleftrightarrow> (\<forall>ob \<in> set h. object_in_heap h ob)"

lemma object_in_heap_append:
  assumes "object_in_heap h ob"
  shows "object_in_heap (h @ new) ob"
  unfolding object_in_heap_def
proof (intro allI impI)
  fix k e p
  assume "(k, DataProperty e p) \<in> set (jo_props ob)"
  then have "in_heap h p" using assms by (simp add: object_in_heap_def)
  then show "in_heap (h @ new) p" by (rule in_heap_append)
qed

lemma closed_snoc:
  assumes "heap_closed h" "object_in_heap h ob" "in_heap h v"
  shows "heap_closed (h @ [\<lparr>jo_kind = kd, jo_props = jm_set k (DataProperty e v) (jo_props ob)\<rparr>])"
proof -
  have "object_in_heap h \<lparr>jo_kind = kd, jo_props = jm_set k (DataProperty e v) (jo_props ob)\<rparr>"
    using assms(2,3) set_jm_set by (fastforce simp: object_in_heap_def)
  with assms(1) show ?thesis by (auto simp: heap_closed_def intro: object_in_heap_append)
qed

lemma closed_property:
  assumes "heap_closed h" "a < length h" "jm_get (jo_props (h ! a)) k = Some (DataProperty e p)"
  shows "in_heap h p"
proof -
  have "object_in_heap h (h ! a)" using assms(1,2) by (simp add: heap_closed_def)
  then show ?thesis using jm_get_in [OF assms(3)] by (simp add: object_in_heap_def)
qed

lemma leaf_get_extends: "heap_closed h \<Longrightarrow> in_heap h v \<Longrightarrow> leaf_get (h @ new) v q = leaf_get h v q"
proof (induction q arbitrary: v)
  case (Cons k q)
  then show ?case by (cases v) (auto simp: nth_append closed_property split: option.split js_property.split)
qed simp

lemma replace_leaf_some:
  "heap_closed h \<Longrightarrow> in_heap h cur \<Longrightarrow> in_heap h v \<Longrightarrow> replace_leaf h cur path v = Some (h', cur') \<Longrightarrow>
     (\<exists>new. h' = h @ new) \<and> heap_closed h' \<and> in_heap h' cur' \<and> leaf_get h' cur' path = Some v
     \<and> (\<forall>q. \<not> prefix q path \<and> \<not> prefix path q \<longrightarrow> leaf_get h' cur' q = leaf_get h cur q)"
proof (induction path arbitrary: cur h' cur')
  case (Cons k rest)
  from Cons.prems(4) obtain a e p h1 p1 where a: "cur = Ref a" "jm_get (jo_props (h ! a)) k = Some (DataProperty e p)"
      "replace_leaf h p rest v = Some (h1, p1)"
      "h' = h1 @ [\<lparr>jo_kind = jo_kind (h ! a), jo_props = jm_set k (DataProperty e p1) (jo_props (h ! a))\<rparr>]" "cur' = Ref (length h1)"
    by (auto split: js_value.splits option.splits js_property.splits if_splits)
  have len: "a < length h" using Cons.prems(2) a(1) by simp
  have "in_heap h p" by (rule closed_property [OF Cons.prems(1) len a(2)])
  with Cons.IH [OF Cons.prems(1) _ Cons.prems(3) a(3)] obtain new where h1: "h1 = h @ new" and IH: "heap_closed h1" "in_heap h1 p1" "leaf_get h1 p1 rest = Some v"
      "\<And>q. \<not> prefix q rest \<Longrightarrow> \<not> prefix rest q \<Longrightarrow> leaf_get h1 p1 q = leaf_get h p q" by auto
  have closed: "heap_closed h'" unfolding a(4)
  proof (rule closed_snoc [OF IH(1) _ IH(2)])
    have "object_in_heap h (h ! a)" using Cons.prems(1) len by (simp add: heap_closed_def)
    then show "object_in_heap h1 (h ! a)" unfolding h1 by (rule object_in_heap_append)
  qed
  have at: "jo_props (h' ! length h1) = jm_set k (DataProperty e p1) (jo_props (h ! a))" by (simp add: a(4))
  have same: "leaf_get h' w q = leaf_get h1 w q" if "in_heap h1 w" for w q unfolding a(4) by (rule leaf_get_extends [OF IH(1) that])
  have old: "leaf_get h' w q = leaf_get h w q" if "in_heap h w" for w q using leaf_get_extends [OF Cons.prems(1) that] a(4) h1 by simp
  have "leaf_get h' cur' q = leaf_get h cur q" if q: "\<not> prefix q (k # rest)" "\<not> prefix (k # rest) q" for q
  proof (cases q)
    case (Cons k' q')
    show ?thesis
    proof (cases "k' = k")
      case True
      then have "leaf_get h1 p1 q' = leaf_get h p q'" using q Cons by (intro IH(4)) simp_all
      then show ?thesis using True Cons a(1,2,5) at same [OF IH(2)] by (simp add: jm_get_set)
    next
      case False
      then show ?thesis using Cons a(1,5) at closed_property [OF Cons.prems(1) len]
        by (auto simp: jm_get_set old split: option.split js_property.split)
    qed
  qed (use q in simp)
  moreover have "leaf_get h' cur' (k # rest) = Some v" using a(5) at same [OF IH(2)] IH(3) by (simp add: jm_get_set)
  moreover have "\<exists>n. h' = h @ n" by (simp add: a(4) h1)
  ultimately show ?case using closed a(4,5) by simp
qed auto

lemma replace_leaf_none:
  "replace_leaf h cur path v = None \<longleftrightarrow> leaf_get h cur path = None \<or> set path \<inter> set forbidden \<noteq> {}"
proof (induction path arbitrary: cur)
  case (Cons k rest)
  have none: "(case x of None \<Rightarrow> None | Some (h', p') \<Rightarrow> Some (f h' p')) = None \<longleftrightarrow> x = None" for x and f :: "js_heap \<Rightarrow> js_value \<Rightarrow> js_heap \<times> js_value"
    by (cases x) auto
  show ?case by (simp add: none Cons split: js_value.split option.split js_property.split)
qed simp

text \<open>\<open>replaceLeaf\<close> gives a copy that differs in one leaf. It throws exactly when the path does not lead
  through data properties or has a forbidden key. Otherwise no existing object is changed, the copy
  has the value at the path, and at every path that neither continues nor leads to it the copy holds
  what the current value holds, the same objects included.\<close>

theorem replace_leaf_changes_one_leaf:
  assumes "heap_closed h" "in_heap h cur" "in_heap h v"
  shows "case replace_leaf h cur path v of
      None \<Rightarrow> leaf_get h cur path = None \<or> set path \<inter> set forbidden \<noteq> {}
    | Some (h', copy) \<Rightarrow> leaf_get h cur path \<noteq> None \<and> set path \<inter> set forbidden = {} \<and> take (length h) h' = h
        \<and> leaf_get h' copy path = Some v \<and> (\<forall>q. prefix q path \<or> prefix path q \<or> leaf_get h' copy q = leaf_get h cur q)"
proof (cases "replace_leaf h cur path v")
  case None
  with replace_leaf_none [of h cur path v] show ?thesis by simp
next
  case (Some r)
  obtain h' copy where r: "r = (h', copy)" by fastforce
  have "leaf_get h cur path \<noteq> None \<and> set path \<inter> set forbidden = {}" using Some replace_leaf_none [of h cur path v] by auto
  moreover have "take (length h) h' = h" using replace_leaf_some [OF assms] Some r by fastforce
  ultimately show ?thesis using replace_leaf_some [OF assms, of path h' copy] Some r by simp blast
qed

definition two_leaves :: js_heap where
  "two_leaves = [\<lparr>jo_kind = PlainObject, jo_props = [([1], DataProperty True (Scalar SNull)), ([2], DataProperty True (Scalar (SBool True)))]\<rparr>]"

lemma replace_leaf_changes_one_leaf_witness:
  "\<exists>h' copy. replace_leaf two_leaves (Ref 0) [[1]] (Scalar (SBool False)) = Some (h', copy) \<and> take 1 h' = two_leaves
     \<and> leaf_get h' copy [[1]] = Some (Scalar (SBool False)) \<and> leaf_get h' copy [[2]] = Some (Scalar (SBool True))"
proof -
  have closed: "heap_closed two_leaves" "in_heap two_leaves (Ref 0)" "in_heap two_leaves (Scalar (SBool False))"
    by (simp_all add: two_leaves_def heap_closed_def object_in_heap_def)
  have "replace_leaf two_leaves (Ref 0) [[1]] (Scalar (SBool False)) \<noteq> None"
    by (simp add: two_leaves_def forbidden_def jlit_def)
  then obtain h' copy where r: "replace_leaf two_leaves (Ref 0) [[1]] (Scalar (SBool False)) = Some (h', copy)" by auto
  have other: "leaf_get two_leaves (Ref 0) [[2]] = Some (Scalar (SBool True))" "length two_leaves = 1" by (simp_all add: two_leaves_def)
  have "take 1 h' = two_leaves \<and> leaf_get h' copy [[1]] = Some (Scalar (SBool False))
      \<and> (\<forall>q. prefix q [[1]] \<or> prefix [[1]] q \<or> leaf_get h' copy q = leaf_get two_leaves (Ref 0) q)"
    using replace_leaf_changes_one_leaf [OF closed, of "[[1]]", unfolded r] other(2) by (simp del: leaf_get.simps)
  moreover have "\<not> prefix [[2]] [[1::16 word]] \<and> \<not> prefix [[1::16 word]] [[2]]" by simp
  ultimately have "leaf_get h' copy [[2]] = Some (Scalar (SBool True))" using other(1) by metis
  with r \<open>take 1 h' = two_leaves \<and> _\<close> show ?thesis by blast
qed

end
