(* ===== verification/Assistance_Mcp.thy ===== *)
theory Assistance_Mcp
  imports Assistance_Consumer
begin

text \<open>
  The MCP facade of assistance, \<open>src/assistance/mcp.ts\<close>: the directory of advertisements, the pairings
  that a user of the tools holds, and the tools, of which every one but the first two goes through a
  pairing's consumer. When a pairing has a grant, a tool first looks for a new generation of the
  supplier and resumes the grant there.

  A tool call is a task that stops at every \<open>await\<close> of a consumer's method and goes on when the
  method has its reply; in between, other calls, the consumers' own resumptions, advertisements,
  time and the loss of the connection take their steps. The routes of the consumers are shares.
\<close>

subsection \<open>State\<close>

record advertisement =
  ad_version :: int
  ad_identity :: assistance_identity
  ad_share :: jstr
  ad_label :: jstr
  ad_capabilities :: bytes
  ad_expires :: int

definition identity_json :: "assistance_identity \<Rightarrow> json" where
  "identity_json i = object [(''application'', JStr (ai_application i)), (''workspace'', JStr (ai_workspace i)),
     (''supplier'', JStr (ai_supplier i)), (''generation'', JStr (ai_generation i))]"

definition ad_key :: "advertisement \<Rightarrow> jstr" where
  "ad_key a = json_stringify (identity_json (ad_identity a))"

text \<open>
  \<open>mc_collate\<close> is \<open>localeCompare\<close>, \<open>mc_uuid\<close> gives the platform's random identifiers in order, and
  \<open>mc_integer\<close> reads a number literal that denotes a safe integer.
\<close>

record mcp_config =
  mc_consumer :: consumer_config
  mc_collate :: "jstr \<Rightarrow> jstr \<Rightarrow> int"
  mc_uuid :: "nat \<Rightarrow> jstr"
  mc_integer :: "jstr \<Rightarrow> int option"

text \<open>What \<open>call\<close> gives. \<open>Served\<close> is a serializable result: the result, and its payload as a value.\<close>

record session_entry =
  se_key :: jstr
  se_identity :: assistance_identity
  se_label :: jstr
  se_capabilities :: json
  se_expires :: int

datatype mcp_answer = Sessions "session_entry list" | Served assistance_result json | ManuallyAbandoned | Throws

text \<open>
  The variables of a call that looks for a new generation. \<open>sx_rest\<close> are the candidates that are
  still to be looked at.
\<close>

record scan_state =
  sx_consumer :: nat
  sx_name :: jstr
  sx_args :: json
  sx_token :: jstr
  sx_candidates :: "advertisement list"
  sx_initial :: jstr
  sx_rest :: "advertisement list"
  sx_signed :: "(advertisement \<times> int) list"
  sx_legacy :: "advertisement list"

text \<open>Where a call waits; the numbers are the consumer and its method calls.\<close>

datatype mcp_task =
  Offering nat nat
| Passing nat nat
| ProbesLegacy nat advertisement scan_state
| ChecksSigned nat advertisement int scan_state
| ProbesSigned "(advertisement \<times> nat) list" scan_state
| ReadsCurrent nat advertisement scan_state
| Resuming nat advertisement scan_state

record mcp =
  mf_ads :: "(jstr \<times> advertisement) list"
  mf_pairings :: "(jstr \<times> nat) list"
  mf_consumers :: "jstr consumer list"
  mf_now :: int
  mf_uuids :: nat
  mf_fresh :: nat
  mf_tasks :: "(nat \<times> mcp_task) list"
  mf_answers :: "(nat \<times> mcp_answer) list"

definition new_mcp :: "int \<Rightarrow> mcp" where
  "new_mcp now = \<lparr>mf_ads = [], mf_pairings = [], mf_consumers = [], mf_now = now, mf_uuids = 0, mf_fresh = 0, mf_tasks = [], mf_answers = []\<rparr>"

subsection \<open>The directory\<close>

definition unexpired :: "mcp \<Rightarrow> advertisement \<Rightarrow> bool" where
  "unexpired s a \<longleftrightarrow> mf_now s < ad_expires a"

definition receive_ad :: "advertisement \<Rightarrow> mcp \<Rightarrow> mcp" where
  "receive_ad a s =
     (if ad_version a \<noteq> 1 \<or> \<not> unexpired s a then s
      else let s = s\<lparr>mf_ads := filter (\<lambda>(k, old). unexpired s old) (mf_ads s)\<rparr> in
        if length (mf_ads s) < 128 \<or> jm_get (mf_ads s) (ad_key a) \<noteq> None then s\<lparr>mf_ads := jm_set (ad_key a) a (mf_ads s)\<rparr> else s)"

definition ad_values :: "mcp \<Rightarrow> advertisement list" where
  "ad_values s = map snd (mf_ads s)"

text \<open>\<open>JSON.parse\<close> of the capabilities; \<open>None\<close> when it throws.\<close>

definition read_capabilities :: "advertisement \<Rightarrow> json option" where
  "read_capabilities a = json_parse (text_decode (ad_capabilities a))"

text \<open>\<open>list\<close>: \<open>None\<close> when it throws.\<close>

definition list_entry :: "advertisement \<Rightarrow> session_entry option" where
  "list_entry a = map_option (\<lambda>c. \<lparr>se_key = ad_key a, se_identity = ad_identity a, se_label = ad_label a, se_capabilities = c, se_expires = ad_expires a\<rparr>)
     (read_capabilities a)"

definition list_sessions :: "mcp \<Rightarrow> session_entry list option" where
  "list_sessions s = those (map list_entry (filter (unexpired s) (ad_values s)))"

subsection \<open>Answers\<close>

text \<open>\<open>serializable\<close>; the encoded payload is replaced by its value.\<close>

definition serializable :: "assistance_result \<Rightarrow> mcp_answer" where
  "serializable r =
     (case result_value r of
        None \<Rightarrow> Throws
      | Some (JObj ms) \<Rightarrow> Served (r\<lparr>ar_payload := []\<rparr>) (JObj (jm_delete (jlit ''proof'') (jm_delete (jlit ''resume'') ms)))
      | Some v \<Rightarrow> Served (r\<lparr>ar_payload := []\<rparr>) v)"

definition answer_call :: "nat \<Rightarrow> mcp_answer \<Rightarrow> mcp \<Rightarrow> mcp" where
  "answer_call i a s = s\<lparr>mf_tasks := jm_delete i (mf_tasks s), mf_answers := mf_answers s @ [(i, a)]\<rparr>"

definition wait_call :: "nat \<Rightarrow> mcp_task \<Rightarrow> mcp \<Rightarrow> mcp" where
  "wait_call i t s = s\<lparr>mf_tasks := jm_set i t (mf_tasks s)\<rparr>"

text \<open>A method call on the consumer \<open>a\<close>, with the number it has there.\<close>

definition ask :: "nat \<Rightarrow> (nat \<Rightarrow> jstr consumer \<Rightarrow> jstr consumer) \<Rightarrow> mcp \<Rightarrow> nat \<times> mcp" where
  "ask a f s =
     (let c = mf_consumers s ! a; n = cs_fresh c
      in (n, s\<lparr>mf_consumers := (mf_consumers s)[a := f n (c\<lparr>cs_fresh := n + 1\<rparr>)]\<rparr>))"

definition next_uuid :: "mcp_config \<Rightarrow> mcp \<Rightarrow> jstr \<times> mcp" where
  "next_uuid M s = (mc_uuid M (mf_uuids s), s\<lparr>mf_uuids := mf_uuids s + 1\<rparr>)"

subsection \<open>The tools of a pairing\<close>

text \<open>The members of a JavaScript object literal that are not undefined, as JSON writes them.\<close>

definition present :: "(string \<times> json option) list \<Rightarrow> json" where
  "present ms = JObj (concat (map (\<lambda>(k, v). case v of None \<Rightarrow> [] | Some x \<Rightarrow> [(jlit k, x)]) ms))"

text \<open>
  \<open>invoke\<close> with the unchecked arguments of a tool: without an \<open>expected\<close> object, reading its members
  throws, after \<open>unresolved\<close> is set.
\<close>

definition invoke_any :: "consumer_config \<Rightarrow> json option \<Rightarrow> json option \<Rightarrow> json option \<Rightarrow> nat \<Rightarrow> 'c consumer \<Rightarrow> 'c consumer" where
  "invoke_any C action args expected i s =
     (if cs_grant s = None then answers i (Gives (assist_result ''ended'' JNull)) s
      else if cs_unresolved s
      then answers i (Gives (assist_reason ''unknown'' (jlit ''previous action unresolved; manually abandon or end pairing''))) s
      else if expected = None \<or> expected = Some JNull then answers i Rejects (s\<lparr>cs_unresolved := True\<rparr>)
      else request C i InvokeRequest ''invoke'' (present [(''action'', action), (''args'', args),
             (''expected'', Some (present [(''sequence'', member ''sequence'' (the expected)), (''revision'', member ''revision'' (the expected))]))])
             (grant_token s) (s\<lparr>cs_unresolved := True\<rparr>))"

definition ask_pass :: "nat \<Rightarrow> nat \<Rightarrow> (nat \<Rightarrow> jstr consumer \<Rightarrow> jstr consumer) \<Rightarrow> mcp \<Rightarrow> mcp" where
  "ask_pass i a f s = (case ask a f s of (n, s) \<Rightarrow> wait_call i (Passing a n) s)"

definition abandon_for :: "nat \<Rightarrow> mcp \<Rightarrow> mcp" where
  "abandon_for a s = s\<lparr>mf_consumers := (mf_consumers s)[a := abandon (mf_consumers s ! a)]\<rparr>"

text \<open>The last lines of \<open>call\<close>; \<open>tok\<close> is \<open>args.token\<close>.\<close>

definition dispatch :: "mcp_config \<Rightarrow> nat \<Rightarrow> nat \<Rightarrow> jstr \<Rightarrow> json \<Rightarrow> jstr \<Rightarrow> mcp \<Rightarrow> mcp" where
  "dispatch M i a name args tok s =
     (let C = mc_consumer M; arg = (\<lambda>k. member k args); c = mf_consumers s ! a in
      if name = jlit ''pairingStatus'' then ask_pass i a (\<lambda>n. consumer_status C n (case grant_token c of Some t \<Rightarrow> t | None \<Rightarrow> tok)) s
      else if name = jlit ''readState'' then ask_pass i a (consumer_read C) s
      else if name = jlit ''invokeAction'' then ask_pass i a (invoke_any C (arg ''action'') (arg ''arguments'') (arg ''expected'')) s
      else if name = jlit ''writeValue''
      then ask_pass i a (invoke_any C (Some (JStr (jlit ''writeValue''))) (Some (present [(''ref'', arg ''ref''), (''value'', arg ''value'')])) (arg ''expected'')) s
      else if name = jlit ''executeJavaScript''
      then ask_pass i a (invoke_any C (Some (JStr (jlit ''executeJavaScript'')))
             (Some (present [(''context'', arg ''context''), (''gripKey'', arg ''gripKey''), (''source'', arg ''source'')])) (arg ''expected'')) s
      else if name = jlit ''abandonUnknown'' then answer_call i ManuallyAbandoned (abandon_for a s)
      else answer_call i Throws s)"

subsection \<open>Looking for a new generation\<close>

definition candidate_for :: "assistance_identity \<Rightarrow> advertisement \<Rightarrow> bool" where
  "candidate_for own a \<longleftrightarrow> ai_application (ad_identity a) = ai_application own \<and> ai_workspace (ad_identity a) = ai_workspace own
     \<and> ai_supplier (ad_identity a) = ai_supplier own \<and> ai_generation (ad_identity a) \<noteq> ai_generation own"

definition candidates_of :: "nat \<Rightarrow> mcp \<Rightarrow> advertisement list" where
  "candidates_of a s = filter (\<lambda>ad. unexpired s ad \<and> candidate_for (cs_identity (mf_consumers s ! a)) ad) (ad_values s)"

definition print_ad :: "advertisement \<Rightarrow> jstr \<times> json" where
  "print_ad a = (ad_key a, JArr [JStr (ad_key a), JStr (ad_share a), JArr (map (\<lambda>b. json_int (uint b)) (ad_capabilities a))])"

definition fingerprint :: "mcp_config \<Rightarrow> advertisement list \<Rightarrow> jstr" where
  "fingerprint M ads = json_stringify (JArr (map snd (js_sort (\<lambda>x y. mc_collate M (fst x) (fst y)) (map print_ad ads))))"

definition claim_of :: "mcp_config \<Rightarrow> json \<Rightarrow> (int \<times> jstr) option" where
  "claim_of M v = (case (member ''sequence'' v, member ''proof'' v) of
      (Some (JNum l), Some (JStr p)) \<Rightarrow> map_option (\<lambda>n. (n, p)) (mc_integer M l)
    | _ \<Rightarrow> None)"

text \<open>An answer that a call gives by itself.\<close>

definition reports :: "nat \<Rightarrow> string \<Rightarrow> string \<Rightarrow> mcp \<Rightarrow> mcp" where
  "reports i status reason s = answer_call i (serializable (assist_reason status (jlit reason))) s"

definition ask_probe :: "mcp_config \<Rightarrow> nat \<Rightarrow> advertisement \<Rightarrow> mcp \<Rightarrow> nat \<times> mcp" where
  "ask_probe M a ad s = (case next_uuid M s of (u, s) \<Rightarrow> ask a (\<lambda>n. probe_resume (mc_consumer M) n (ad_identity ad) (ad_share ad) u) s)"

text \<open>\<open>Promise.all\<close>: every method starts, in order.\<close>

fun ask_probes :: "mcp_config \<Rightarrow> nat \<Rightarrow> advertisement list \<Rightarrow> mcp \<Rightarrow> (advertisement \<times> nat) list \<times> mcp" where
  "ask_probes M a [] s = ([], s)"
| "ask_probes M a (ad # ads) s = (let (n, s) = ask_probe M a ad s; (ns, s) = ask_probes M a ads s in ((ad, n) # ns, s))"

text \<open>The code after the choice of \<open>next\<close>.\<close>

definition chosen :: "mcp_config \<Rightarrow> nat \<Rightarrow> scan_state \<Rightarrow> advertisement option \<Rightarrow> mcp \<Rightarrow> mcp" where
  "chosen M i x next s =
     (case next of
        None \<Rightarrow> dispatch M i (sx_consumer x) (sx_name x) (sx_args x) (sx_token x) s
      | Some ad \<Rightarrow> (case ask (sx_consumer x) (consumer_read (mc_consumer M)) s of (n, s) \<Rightarrow> wait_call i (ReadsCurrent n ad x) s))"

definition highest :: "(advertisement \<times> int) list \<Rightarrow> (advertisement \<times> int) list" where
  "highest found = filter (\<lambda>(ad, q). q = Max (snd ` set found)) found"

definition ads_changed :: "mcp_config \<Rightarrow> scan_state \<Rightarrow> mcp \<Rightarrow> bool" where
  "ads_changed M x s \<longleftrightarrow> sx_initial x \<noteq> fingerprint M (candidates_of (sx_consumer x) s)"

definition scan_done :: "mcp_config \<Rightarrow> nat \<Rightarrow> scan_state \<Rightarrow> mcp \<Rightarrow> mcp" where
  "scan_done M i x s =
     (let proven = highest (sx_signed x); legacy = sx_legacy x in
      if ads_changed M x s then reports i ''conflict'' ''assistance advertisements changed; read again'' s
      else if length proven > 1 \<or> proven = [] \<and> length legacy > 1
      then reports i ''refused'' ''ambiguous reload ownership; explicit pairing required'' s
      else
        let next = (case proven of (ad, q) # _ \<Rightarrow> Some ad | [] \<Rightarrow> (case legacy of [ad] \<Rightarrow> Some ad | _ \<Rightarrow> None)) in
        if length (sx_signed x) > 1 \<and> next \<noteq> None
        then (case ask_probes M (sx_consumer x) (map fst (sx_signed x)) s of (ns, s) \<Rightarrow> wait_call i (ProbesSigned ns x) s)
        else chosen M i x next s)"

fun scan_on :: "mcp_config \<Rightarrow> nat \<Rightarrow> scan_state \<Rightarrow> advertisement list \<Rightarrow> mcp \<Rightarrow> mcp" where
  "scan_on M i x [] s = scan_done M i (x\<lparr>sx_rest := []\<rparr>) s"
| "scan_on M i x (ad # ads) s =
     (case read_capabilities ad of
        None \<Rightarrow> scan_on M i x ads s
      | Some caps \<Rightarrow>
          (case member ''resumeLineage'' caps of
             None \<Rightarrow> (case ask_probe M (sx_consumer x) ad s of (n, s) \<Rightarrow> wait_call i (ProbesLegacy n ad (x\<lparr>sx_rest := ads\<rparr>)) s)
           | Some v \<Rightarrow>
               (case ask (sx_consumer x) (\<lambda>n. verifies_lineage (mc_consumer M) n (ad_identity ad) (claim_of M v)) s of
                  (n, s) \<Rightarrow> wait_call i (ChecksSigned n ad (case claim_of M v of Some (q, p) \<Rightarrow> q | None \<Rightarrow> 0) (x\<lparr>sx_rest := ads\<rparr>)) s)))"

subsection \<open>Calls\<close>

definition begin_scan :: "mcp_config \<Rightarrow> nat \<Rightarrow> nat \<Rightarrow> jstr \<Rightarrow> json \<Rightarrow> jstr \<Rightarrow> mcp \<Rightarrow> mcp" where
  "begin_scan M i a name args tok s =
     (let candidates = candidates_of a s in
      scan_on M i \<lparr>sx_consumer = a, sx_name = name, sx_args = args, sx_token = tok, sx_candidates = candidates,
        sx_initial = fingerprint M candidates, sx_rest = [], sx_signed = [], sx_legacy = []\<rparr> candidates s)"

definition request_pairing :: "mcp_config \<Rightarrow> nat \<Rightarrow> json \<Rightarrow> mcp \<Rightarrow> mcp" where
  "request_pairing M i args s =
     (let unavailable = answer_call i (serializable (assist_result ''unavailable'' JNull)) s in
      case Option.bind (as_string (member ''sessionKey'' args)) (jm_get (mf_ads s)) of
        None \<Rightarrow> unavailable
      | Some ad \<Rightarrow>
          if \<not> unexpired s ad \<or> length (mf_pairings s) \<ge> 128 then unavailable
          else
            let a = length (mf_consumers s);
                s = s\<lparr>mf_consumers := mf_consumers s @ [new_consumer (ad_identity ad) (ad_share ad) (mf_now s)]\<rparr>
            in (case ask a (consumer_offer (mc_consumer M)) s of (n, s) \<Rightarrow> wait_call i (Offering a n) s))"

text \<open>\<open>call\<close>, up to its first \<open>await\<close>.\<close>

definition call_tool :: "mcp_config \<Rightarrow> nat \<Rightarrow> jstr \<Rightarrow> json \<Rightarrow> mcp \<Rightarrow> mcp" where
  "call_tool M i name args s =
     (if name = jlit ''listSessions'' then answer_call i (case list_sessions s of None \<Rightarrow> Throws | Some l \<Rightarrow> Sessions l) s
      else if name = jlit ''requestPairing'' then request_pairing M i args s
      else case as_string (member ''token'' args) of
        None \<Rightarrow> answer_call i (serializable (assist_result ''refused'' JNull)) s
      | Some tok \<Rightarrow>
          (case jm_get (mf_pairings s) tok of
             None \<Rightarrow> answer_call i (serializable (assist_result ''refused'' JNull)) s
           | Some a \<Rightarrow>
               let c = mf_consumers s ! a in
               if name = jlit ''endPairing''
               then ask_pass i a (\<lambda>n. consumer_end (mc_consumer M) n (case grant_token c of Some t \<Rightarrow> t | None \<Rightarrow> tok)) s
               else if cs_grant c \<noteq> None \<and> name \<noteq> jlit ''abandonUnknown'' then begin_scan M i a name args tok s
               else dispatch M i a name args tok s))"

subsection \<open>Going on after an await\<close>

definition offered :: "nat \<Rightarrow> nat \<Rightarrow> assistance_result \<Rightarrow> mcp \<Rightarrow> mcp" where
  "offered i a r s =
     answer_call i (serializable r)
       (case ar_token r of Some t \<Rightarrow> if t \<noteq> [] then s\<lparr>mf_pairings := jm_set t a (mf_pairings s)\<rparr> else s | None \<Rightarrow> s)"

definition legacy_probed :: "mcp_config \<Rightarrow> nat \<Rightarrow> advertisement \<Rightarrow> scan_state \<Rightarrow> assistance_result \<Rightarrow> mcp \<Rightarrow> mcp" where
  "legacy_probed M i ad x r s =
     (if ar_status r = jlit ''unknown'' then answer_call i (serializable r) s
      else scan_on M i (if ar_status r \<noteq> jlit ''unavailable'' then x\<lparr>sx_legacy := sx_legacy x @ [ad]\<rparr> else x) (sx_rest x) s)"

definition lineage_verified :: "mcp_config \<Rightarrow> nat \<Rightarrow> advertisement \<Rightarrow> int \<Rightarrow> scan_state \<Rightarrow> bool \<Rightarrow> mcp \<Rightarrow> mcp" where
  "lineage_verified M i ad q x ok s = scan_on M i (if ok then x\<lparr>sx_signed := sx_signed x @ [(ad, q)]\<rparr> else x) (sx_rest x) s"

definition signed_probed :: "mcp_config \<Rightarrow> nat \<Rightarrow> scan_state \<Rightarrow> (advertisement \<times> assistance_result) list \<Rightarrow> mcp \<Rightarrow> mcp" where
  "signed_probed M i x probes s =
     (let available = filter (\<lambda>(ad, r). ar_status r = jlit ''available'') probes in
      if \<exists>(ad, r) \<in> set probes. ar_status r = jlit ''unknown'' then reports i ''unknown'' ''resume candidate liveness is uncertain'' s
      else case available of
        [] \<Rightarrow> reports i ''refused'' ''no authenticated replacement available'' s
      | [(ad, r)] \<Rightarrow> chosen M i x (Some ad) s
      | _ \<Rightarrow> reports i ''refused'' ''ambiguous reload ownership; explicit pairing required'' s)"

definition current_read :: "mcp_config \<Rightarrow> nat \<Rightarrow> advertisement \<Rightarrow> scan_state \<Rightarrow> assistance_result \<Rightarrow> mcp \<Rightarrow> mcp" where
  "current_read M i ad x r s =
     (if ar_status r = jlit ''observed'' then reports i ''refused'' ''competing live supplier; explicit pairing required'' s
      else if ar_status r = jlit ''unknown'' \<and> \<not> no_provider (ar_reason r) then answer_call i (serializable r) s
      else if ads_changed M x s then reports i ''conflict'' ''assistance advertisements changed; read again'' s
      else if \<not> unexpired s ad then reports i ''expired'' ''replacement advertisement expired'' s
      else (case next_uuid M s of (u, s) \<Rightarrow>
              (case ask (sx_consumer x) (\<lambda>n. consumer_resume (mc_consumer M) n (ad_identity ad) (ad_share ad) u) s of
                 (n, s) \<Rightarrow> wait_call i (Resuming n ad x) s)))"

definition superseded :: "advertisement \<Rightarrow> jstr \<Rightarrow> advertisement \<Rightarrow> bool" where
  "superseded ad k old \<longleftrightarrow> ai_supplier (ad_identity old) = ai_supplier (ad_identity ad) \<and> ai_workspace (ad_identity old) = ai_workspace (ad_identity ad)
     \<and> ai_application (ad_identity old) = ai_application (ad_identity ad) \<and> k \<noteq> ad_key ad"

definition resumed :: "mcp_config \<Rightarrow> nat \<Rightarrow> advertisement \<Rightarrow> scan_state \<Rightarrow> assistance_result \<Rightarrow> mcp \<Rightarrow> mcp" where
  "resumed M i ad x r s =
     (if ar_status r \<noteq> jlit ''accepted'' then answer_call i (serializable r) s
      else
        let s = (case ar_token r of Some t \<Rightarrow> if t \<noteq> [] then s\<lparr>mf_pairings := jm_set t (sx_consumer x) (mf_pairings s)\<rparr> else s | None \<Rightarrow> s);
            s = s\<lparr>mf_ads := filter (\<lambda>(k, old). \<not> superseded ad k old) (mf_ads s)\<rparr>
        in dispatch M i (sx_consumer x) (sx_name x) (sx_args x) (sx_token x) s)"

text \<open>A method that rejects makes the call throw.\<close>

definition with_result :: "nat \<Rightarrow> consumer_reply \<Rightarrow> (assistance_result \<Rightarrow> mcp \<Rightarrow> mcp) \<Rightarrow> mcp \<Rightarrow> mcp" where
  "with_result i reply f s = (case reply of Gives r \<Rightarrow> f r s | _ \<Rightarrow> answer_call i Throws s)"

definition go_on :: "mcp_config \<Rightarrow> nat \<Rightarrow> mcp_task \<Rightarrow> consumer_reply \<Rightarrow> mcp \<Rightarrow> mcp" where
  "go_on M i task reply s =
     (case task of
        Offering a n \<Rightarrow> with_result i reply (offered i a) s
      | Passing a n \<Rightarrow> with_result i reply (\<lambda>r. answer_call i (serializable r)) s
      | ProbesLegacy n ad x \<Rightarrow> with_result i reply (legacy_probed M i ad x) s
      | ChecksSigned n ad q x \<Rightarrow> (case reply of Verified ok \<Rightarrow> lineage_verified M i ad q x ok s | _ \<Rightarrow> answer_call i Throws s)
      | ReadsCurrent n ad x \<Rightarrow> with_result i reply (current_read M i ad x) s
      | Resuming n ad x \<Rightarrow> with_result i reply (resumed M i ad x) s
      | ProbesSigned ns x \<Rightarrow> s)"

text \<open>The method that a task waits for.\<close>

fun awaited :: "mcp_task \<Rightarrow> (nat \<times> nat) option" where
  "awaited (Offering a n) = Some (a, n)"
| "awaited (Passing a n) = Some (a, n)"
| "awaited (ProbesLegacy n ad x) = Some (sx_consumer x, n)"
| "awaited (ChecksSigned n ad q x) = Some (sx_consumer x, n)"
| "awaited (ReadsCurrent n ad x) = Some (sx_consumer x, n)"
| "awaited (Resuming n ad x) = Some (sx_consumer x, n)"
| "awaited (ProbesSigned ns x) = None"

definition method_reply :: "nat \<Rightarrow> nat \<Rightarrow> mcp \<Rightarrow> consumer_reply option" where
  "method_reply a n s = jm_get (cs_replies (mf_consumers s ! a)) n"

text \<open>\<open>Promise.all\<close> settles when every method has a result, or when one rejects.\<close>

definition probes_settled :: "mcp_config \<Rightarrow> nat \<Rightarrow> (advertisement \<times> nat) list \<Rightarrow> scan_state \<Rightarrow> mcp \<Rightarrow> mcp option" where
  "probes_settled M i ns x s =
     (let replies = map (\<lambda>(ad, n). (ad, method_reply (sx_consumer x) n s)) ns in
      if \<exists>(ad, r) \<in> set replies. \<exists>b. r = Some Rejects \<or> r = Some (Verified b) then Some (answer_call i Throws s)
      else map_option (\<lambda>probes. signed_probed M i x probes s)
             (those (map (\<lambda>(ad, r). case r of Some (Gives g) \<Rightarrow> Some (ad, g) | _ \<Rightarrow> None) replies)))"

subsection \<open>Steps\<close>

definition disconnect_paired :: "mcp \<Rightarrow> mcp" where
  "disconnect_paired s =
     s\<lparr>mf_consumers := fold (\<lambda>a cs. cs[a := disconnect (cs ! a)]) (map snd (mf_pairings s)) (mf_consumers s), mf_ads := []\<rparr>"

text \<open>
  The consumers' own resumptions are theirs; a lost connection and \<open>close\<close> do the same. A call of
  a tool has the number \<open>mf_fresh\<close>.
\<close>

datatype mcp_label =
  ToolCalled jstr json | AdArrives advertisement | ClockMoves int | ConnectionDrops
| ConsumerSettles nat nat bool | ConsumerAnswered nat nat "assistance_result option" | CallGoesOn nat

inductive mcp_step :: "mcp_config \<Rightarrow> mcp \<Rightarrow> mcp_label \<Rightarrow> mcp \<Rightarrow> bool" for M where
  mcp_call: "mcp_step M s (ToolCalled name args) (call_tool M (mf_fresh s) name args (s\<lparr>mf_fresh := mf_fresh s + 1\<rparr>))"
| mcp_ad: "mcp_step M s (AdArrives a) (receive_ad a s)"
| mcp_clock: "mcp_step M s (ClockMoves n) (s\<lparr>mf_now := n, mf_consumers := map (\<lambda>c. c\<lparr>cs_now := n\<rparr>) (mf_consumers s)\<rparr>)"
| mcp_drop: "mcp_step M s ConnectionDrops (disconnect_paired s)"
| mcp_proof: "a < length (mf_consumers s) \<Longrightarrow> consumer_step (mc_consumer M) (mf_consumers s ! a) (ProofSettles n ok) c
    \<Longrightarrow> mcp_step M s (ConsumerSettles a n ok) (s\<lparr>mf_consumers := (mf_consumers s)[a := c]\<rparr>)"
| mcp_reply: "a < length (mf_consumers s) \<Longrightarrow> consumer_step (mc_consumer M) (mf_consumers s ! a) (ReplyArrives n r) c
    \<Longrightarrow> mcp_step M s (ConsumerAnswered a n r) (s\<lparr>mf_consumers := (mf_consumers s)[a := c]\<rparr>)"
| mcp_on: "jm_get (mf_tasks s) i = Some task \<Longrightarrow> awaited task = Some (a, n) \<Longrightarrow> method_reply a n s = Some reply
    \<Longrightarrow> mcp_step M s (CallGoesOn i) (go_on M i task reply s)"
| mcp_all: "jm_get (mf_tasks s) i = Some (ProbesSigned ns x) \<Longrightarrow> probes_settled M i ns x s = Some s'
    \<Longrightarrow> mcp_step M s (CallGoesOn i) s'"

subsection \<open>Messages\<close>

definition schema_object :: "(string \<times> json) list \<Rightarrow> json" where
  "schema_object props = object [(''type'', JStr (jlit ''object'')), (''properties'', object props),
     (''required'', JArr (map (\<lambda>(k, v). JStr (jlit k)) props)), (''additionalProperties'', JBool False)]"

definition schema_type :: "string \<Rightarrow> json" where
  "schema_type t = object [(''type'', JStr (jlit t))]"

definition schema_expected :: json where
  "schema_expected = schema_object [(''sequence'', schema_type ''integer''), (''revision'', schema_type ''string'')]"

definition tool :: "string \<Rightarrow> string \<Rightarrow> (string \<times> json) list \<Rightarrow> json" where
  "tool name description props = object [(''name'', JStr (jlit name)), (''description'', JStr (jlit description)), (''inputSchema'', schema_object props)]"

definition tools :: "json list" where
  "tools = (let str = schema_type ''string'' in
    [tool ''listSessions'' ''List unexpired exact supplier routes; labels are descriptive only.'' [],
     tool ''requestPairing'' ''Request inline consent in one exact supplier.'' [(''sessionKey'', str)],
     tool ''pairingStatus'' ''Read pairing status; accepted only after browser consent.'' [(''token'', str)],
     tool ''readState'' ''Fresh granted state projection; not presentation evidence.'' [(''token'', str)],
     tool ''invokeAction'' ''Invoke a granted action once. Unknown requires manual handling.''
       [(''token'', str), (''action'', str), (''arguments'', schema_type ''object''), (''expected'', schema_expected)],
     tool ''writeValue'' ''Write one discovered writable scalar reference using its normal controller. Read fresh state first. Unknown requires manual handling.''
       [(''token'', str), (''ref'', str), (''value'', object [(''type'', JArr (map (\<lambda>t. JStr (jlit t)) [''string'', ''number'', ''boolean'', ''null'']))]), (''expected'', schema_expected)],
     tool ''executeJavaScript'' ''Run synchronous JavaScript in the paired browser with the selected live GRIP value as grip. This has page privileges. Read fresh state first.''
       [(''token'', str), (''context'', str), (''gripKey'', str), (''source'', str), (''expected'', schema_expected)],
     tool ''endPairing'' ''End locally immediately; report remote confirmation separately.'' [(''token'', str)],
     tool ''abandonUnknown'' ''Manual continuation; does not establish cancellation or rollback.'' [(''token'', str)]])"

text \<open>
  \<open>receive\<close>: what a message starts. The error texts of the engine are left out. A tool name that is
  not a string is none of the tools, like the empty name. \<open>Breaks\<close> is an exception outside the \<open>try\<close>.
\<close>

datatype rpc_reply = RpcResult "json option" json | RpcError "json option" int

datatype rpc_start = Silent | Immediate rpc_reply | StartsTool "json option" jstr json | Breaks

definition initialize_result :: json where
  "initialize_result = object [(''protocolVersion'', JStr (jlit ''2025-11-25'')), (''capabilities'', object [(''tools'', object [])]),
     (''serverInfo'', object [(''name'', JStr (jlit ''glial-assistance-slice'')), (''version'', JStr (jlit ''0.1.0''))])]"

definition starts_with :: "string \<Rightarrow> jstr \<Rightarrow> bool" where
  "starts_with p t \<longleftrightarrow> take (length p) t = jlit p"

definition rpc_start_tool :: "json option \<Rightarrow> json option \<Rightarrow> rpc_start" where
  "rpc_start_tool reply_id params =
     (if params = None \<or> params = Some JNull then Immediate (RpcError reply_id (-32602))
      else StartsTool reply_id (case as_string (member ''name'' (the params)) of Some n \<Rightarrow> n | None \<Rightarrow> [])
             (case member ''arguments'' (the params) of None \<Rightarrow> JObj [] | Some JNull \<Rightarrow> JObj [] | Some v \<Rightarrow> v))"

definition rpc_receive :: "json \<Rightarrow> rpc_start" where
  "rpc_receive msg =
     (let reply_id = member ''id'' msg; unsupported = Immediate (RpcError reply_id (-32601)) in
      if msg = JNull then Breaks
      else case member ''method'' msg of
        None \<Rightarrow> unsupported
      | Some JNull \<Rightarrow> unsupported
      | Some (JStr m) \<Rightarrow>
          if starts_with ''notifications/'' m then Silent
          else if m = jlit ''initialize'' then Immediate (RpcResult reply_id initialize_result)
          else if m = jlit ''tools/list'' then Immediate (RpcResult reply_id (object [(''tools'', JArr tools)]))
          else if m = jlit ''tools/call'' then rpc_start_tool reply_id (member ''params'' msg)
          else unsupported
      | Some _ \<Rightarrow> Breaks)"

definition optional :: "('a \<Rightarrow> json) \<Rightarrow> 'a option \<Rightarrow> json" where
  "optional f v = (case v of None \<Rightarrow> JNull | Some x \<Rightarrow> f x)"

definition answer_json :: "mcp_answer \<Rightarrow> json option" where
  "answer_json a =
     (case a of
        Sessions l \<Rightarrow> Some (object [(''sessions'', JArr (map (\<lambda>e. object [(''sessionKey'', JStr (se_key e)), (''identity'', identity_json (se_identity e)),
          (''label'', JStr (se_label e)), (''capabilities'', se_capabilities e), (''expires'', json_int (se_expires e))]) l))])
      | Served r v \<Rightarrow> Some (object [(''status'', JStr (ar_status r)), (''token'', optional JStr (ar_token r)), (''epoch'', optional json_int (ar_epoch r)),
          (''expires'', optional json_int (ar_expires r)), (''reason'', optional JStr (ar_reason r)), (''payload'', v)])
      | ManuallyAbandoned \<Rightarrow> Some (object [(''status'', JStr (jlit ''manually-abandoned'')), (''cancelled'', JBool False)])
      | Throws \<Rightarrow> None)"

definition is_error :: "json \<Rightarrow> bool" where
  "is_error out \<longleftrightarrow> (case member ''status'' out of
     Some (JStr t) \<Rightarrow> t \<in> set (map jlit [''refused'', ''invalid'', ''unsupported'', ''conflict'', ''unknown'', ''unavailable'', ''busy'', ''expired'']) | _ \<Rightarrow> False)"

definition rpc_finish :: "json option \<Rightarrow> mcp_answer \<Rightarrow> rpc_reply" where
  "rpc_finish reply_id a =
     (case answer_json a of
        None \<Rightarrow> RpcError reply_id (-32602)
      | Some out \<Rightarrow> RpcResult reply_id (object [(''content'', JArr [object [(''type'', JStr (jlit ''text'')), (''text'', JStr (json_stringify out))]]),
          (''structuredContent'', out), (''isError'', JBool (is_error out))]))"

end
