(* ===== verification/Mcp_Methods.thy ===== *)
theory Mcp_Methods
  imports Assistance_Mcp Consumer_Safety
begin

text \<open>
  The methods of a consumer as the MCP facade uses them: a method that was started stays started
  until it has its reply, one settlement can always give it, and nothing revoked comes back.
\<close>

subsection \<open>Started methods\<close>

definition held_call :: "nat \<Rightarrow> 'c consumer \<Rightarrow> bool" where
  "held_call n s \<longleftrightarrow> jm_get (cs_tasks s) n \<noteq> None \<or> jm_get (cs_replies s) n \<noteq> None"

lemma held_answers [simp]: "held_call n (answers i r s) \<longleftrightarrow> n = i \<or> held_call n s"
  by (auto simp: held_call_def answers_def jm_get_delete map_add_def split: option.split)

lemma held_waits [simp]: "held_call n (waits i t s) \<longleftrightarrow> n = i \<or> held_call n s"
  by (auto simp: held_call_def waits_def jm_get_set)

lemma held_updates [simp]:
  "held_call n (send i route q s) = held_call n s" "held_call n (adopt g s) = held_call n s"
  "held_call n (s\<lparr>cs_unresolved := b\<rparr>) = held_call n s" "held_call n (s\<lparr>cs_grant := gr\<rparr>) = held_call n s"
  "held_call n (s\<lparr>cs_resume_unresolved := b\<rparr>) = held_call n s" "held_call n (s\<lparr>cs_resuming := b\<rparr>) = held_call n s"
  "held_call n (s\<lparr>cs_attempted := m\<rparr>) = held_call n s" "held_call n (s\<lparr>cs_identity := j\<rparr>) = held_call n s"
  "held_call n (s\<lparr>cs_route := rt\<rparr>) = held_call n s" "held_call n (s\<lparr>cs_now := k\<rparr>) = held_call n s"
  "held_call n (s\<lparr>cs_disconnected := b\<rparr>) = held_call n s" "held_call n (s\<lparr>cs_ended := e\<rparr>) = held_call n s"
  "held_call n (s\<lparr>cs_fresh := fr\<rparr>) = held_call n s"
  by (simp_all add: held_call_def send_def adopt_def split: option.split)

lemma held_conclude [simp]: "held_call n (conclude i kind out s) \<longleftrightarrow> n = i \<or> held_call n s"
  by (simp add: conclude_def split: request_kind.split)

lemma held_request [simp]: "held_call n (request C i kind operation payload tok s) \<longleftrightarrow> n = i \<or> held_call n s"
  by (simp add: request_def split: option.split)

lemma held_disconnect [simp]: "held_call n (disconnect s) = held_call n s"
  by (simp add: disconnect_def Let_def split: option.split)

lemma held_proofs: "proof_settles C i ok task = Some f \<Longrightarrow> held_call n (f s) \<longleftrightarrow> n = i \<or> held_call n s"
  by (cases task; clarsimp simp: consumer_handlers split: option.split if_split)

lemma held_replies: "reply_settles i result task = Some f \<Longrightarrow> held_call n (f s) \<longleftrightarrow> n = i \<or> held_call n s"
  by (cases task; clarsimp simp: consumer_handlers request_settles_def Let_def split: option.split json.split if_split)

text \<open>A method: it is answered or waits, and uses nothing that is revoked.\<close>

definition consumer_method :: "(nat \<Rightarrow> 'c consumer \<Rightarrow> 'c consumer) \<Rightarrow> bool" where
  "consumer_method f \<longleftrightarrow> (\<forall>i s. grows s (f i s) \<and> (\<forall>n. held_call n (f i s) \<longleftrightarrow> n = i \<or> held_call n s) \<and> cs_now (f i s) = cs_now s
     \<and> cs_identity (f i s) = cs_identity s)"

lemma held_calls: "calls C i l = Some f \<Longrightarrow> held_call n (f s) \<longleftrightarrow> n = i \<or> held_call n s"
  by (cases l; clarsimp simp: consumer_handlers consumer_invoke_def Let_def split: option.split sum.split if_split)

lemma frame_simps [simp]:
  "cs_now (answers i r s) = cs_now s" "cs_now (waits i t s) = cs_now s" "cs_now (send i route q s) = cs_now s" "cs_now (adopt g s) = cs_now s"
  "cs_identity (answers i r s) = cs_identity s" "cs_identity (waits i t s) = cs_identity s" "cs_identity (send i route q s) = cs_identity s"
  "cs_identity (adopt g s) = cs_identity s"
  by (simp_all add: answers_def waits_def send_def adopt_def split: option.split)

lemma frame_request [simp]:
  "cs_now (request C i kind operation payload tok s) = cs_now s" "cs_identity (request C i kind operation payload tok s) = cs_identity s"
  by (simp_all add: request_def conclude_def split: option.split request_kind.split)

lemma frame_calls: "calls C i l = Some f \<Longrightarrow> cs_now (f s) = cs_now s \<and> cs_identity (f s) = cs_identity s"
  by (cases l; clarsimp simp: consumer_handlers consumer_invoke_def Let_def split: option.split sum.split if_split)

lemma method_calls: "(\<And>i. calls C i l = Some (f i)) \<Longrightarrow> consumer_method f"
  unfolding consumer_method_def using grows_calls held_calls frame_calls by metis

lemma methods [simp]:
  "consumer_method (consumer_offer C)" "consumer_method (\<lambda>n. consumer_status C n tok)" "consumer_method (consumer_read C)" "consumer_method (\<lambda>n. consumer_end C n tok)"
  "consumer_method (\<lambda>n. verifies_lineage C n ident claim)" "consumer_method (\<lambda>n. probe_resume C n ident route nonce)" "consumer_method (\<lambda>n. consumer_resume C n ident route nonce)"
proof -
  show "consumer_method (consumer_offer C)" by (rule method_calls [of C Offers]) simp
  show "consumer_method (\<lambda>n. consumer_status C n tok)" by (rule method_calls [of C "AsksStatus tok"]) simp
  show "consumer_method (consumer_read C)" by (rule method_calls [of C Reads]) simp
  show "consumer_method (\<lambda>n. consumer_end C n tok)" by (rule method_calls [of C "EndsPairing tok"]) simp
  show "consumer_method (\<lambda>n. verifies_lineage C n ident claim)" by (rule method_calls [of C "ChecksLineage ident claim"]) simp
  show "consumer_method (\<lambda>n. probe_resume C n ident route nonce)" by (rule method_calls [of C "Probes ident route nonce"]) simp
  show "consumer_method (\<lambda>n. consumer_resume C n ident route nonce)" by (rule method_calls [of C "Resumes ident route nonce"]) simp
qed

lemma method_invoke_any [simp]: "consumer_method (invoke_any C action args expected)"
proof -
  have "grows s (invoke_any C action args expected i s)" for i s
    unfolding invoke_any_def by (auto intro: grows_answers grows_refl grows_request grows_updates)
  moreover have "held_call n (invoke_any C action args expected i s) \<longleftrightarrow> n = i \<or> held_call n s" for n i s
    by (simp add: invoke_any_def)
  moreover have "cs_now (invoke_any C action args expected i s) = cs_now s \<and> cs_identity (invoke_any C action args expected i s) = cs_identity s" for i s
    by (simp add: invoke_any_def)
  ultimately show ?thesis unfolding consumer_method_def by blast
qed

text \<open>The typed invocation is the case in which every member is there.\<close>

lemma invoke_any_typed:
  "invoke_any C (Some (JStr action)) (Some args) (Some (JObj [(jlit ''sequence'', sequence), (jlit ''revision'', JStr revision)])) i s
     = consumer_invoke C i action args sequence revision s"
  by (simp add: invoke_any_def consumer_invoke_def present_def)

text \<open>Without the \<open>expected\<close> object an invocation throws and blocks the next ones.\<close>

lemma answers_fields: "cs_grant (answers i r s) = cs_grant s" "cs_unresolved (answers i r s) = cs_unresolved s"
  by (simp_all add: answers_def)

lemma invoke_without_expected_blocks:
  assumes "cs_grant s \<noteq> None" "\<not> cs_unresolved s"
  shows "invoke_any C action args None i s = answers i Rejects (s\<lparr>cs_unresolved := True\<rparr>)"
    and "\<exists>r. invoke_any C action args expected j (answers i Rejects (s\<lparr>cs_unresolved := True\<rparr>))
           = answers j (Gives r) (answers i Rejects (s\<lparr>cs_unresolved := True\<rparr>)) \<and> ar_status r = jlit ''unknown''"
proof -
  show "invoke_any C action args None i s = answers i Rejects (s\<lparr>cs_unresolved := True\<rparr>)" using assms unfolding invoke_any_def by auto
  have "cs_grant (answers i Rejects (s\<lparr>cs_unresolved := True\<rparr>)) \<noteq> None" "cs_unresolved (answers i Rejects (s\<lparr>cs_unresolved := True\<rparr>))"
    using assms(1) by (simp_all add: answers_fields)
  then show "\<exists>r. invoke_any C action args expected j (answers i Rejects (s\<lparr>cs_unresolved := True\<rparr>))
      = answers j (Gives r) (answers i Rejects (s\<lparr>cs_unresolved := True\<rparr>)) \<and> ar_status r = jlit ''unknown''"
    unfolding invoke_any_def by auto
qed

subsection \<open>Settlements\<close>

text \<open>Whatever a method waits for, a failure of that settles it.\<close>

definition replied :: "nat \<Rightarrow> 'c consumer \<Rightarrow> bool" where
  "replied n s \<longleftrightarrow> jm_get (cs_replies s) n \<noteq> None"

lemma replied_answers [simp]: "replied m (answers i r s) \<longleftrightarrow> m = i \<or> replied m s"
  by (auto simp: replied_def answers_def map_add_def split: option.split)

lemma replied_updates [simp]:
  "replied m (s\<lparr>cs_unresolved := b\<rparr>) = replied m s" "replied m (s\<lparr>cs_resume_unresolved := b\<rparr>) = replied m s" "replied m (s\<lparr>cs_resuming := b\<rparr>) = replied m s"
  "replied m (s\<lparr>cs_ended := e\<rparr>) = replied m s" "replied m (s\<lparr>cs_grant := g\<rparr>) = replied m s" "replied m (adopt out s) = replied m s"
  by (simp_all add: replied_def adopt_def split: option.split)

lemma replied_conclude [simp]: "replied m (conclude i kind out s) \<longleftrightarrow> m = i \<or> replied m s"
  by (simp add: conclude_def split: request_kind.split)

lemma failure_settles:
  assumes "jm_get (cs_tasks s) n = Some task"
  shows "\<exists>t. (consumer_step C s (ProofSettles n False) t \<or> consumer_step C s (ReplyArrives n None) t) \<and> (\<forall>m. replied m t \<longleftrightarrow> m = n \<or> replied m s)"
proof -
  have "(\<exists>f. proof_settles C n False task = Some f \<and> (\<forall>m. replied m (f s) \<longleftrightarrow> m = n \<or> replied m s))
      \<or> (\<exists>f. reply_settles n None task = Some f \<and> (\<forall>m. replied m (f s) \<longleftrightarrow> m = n \<or> replied m s))"
    by (cases task)
      (simp_all add: consumer_handlers request_settles_def Let_def split: option.split)
  then show ?thesis using step_proof [OF assms] step_reply [OF assms] by blast
qed

end
