(* ===== verification/Mcp_Turns.thy ===== *)
theory Mcp_Turns
  imports Mcp_Methods
begin

text \<open>
  The turns of a tool call: from one \<open>await\<close> to the next, a call is answered without secrets or waits for
  a method that was started, with fewer turns left, and asks for a resume only when it is allowed.
\<close>

subsection \<open>Answers without secrets\<close>

definition withheld :: "mcp_answer \<Rightarrow> bool" where
  "withheld a \<longleftrightarrow> (case a of Served r v \<Rightarrow> member ''resume'' v = None \<and> member ''proof'' v = None | _ \<Rightarrow> True)"

lemma withheld_simps [simp]: "withheld (Sessions l)" "withheld ManuallyAbandoned" "withheld Throws"
  by (simp_all add: withheld_def)

lemma serializable_withheld [simp]: "withheld (serializable r)"
  by (auto simp: serializable_def withheld_def jm_get_delete split: option.split json.split)

subsection \<open>What a call does to the state\<close>

text \<open>The consumers keep what they hold and what they have revoked; none is removed.\<close>

definition keeps_consumer :: "'c consumer \<Rightarrow> 'c consumer \<Rightarrow> bool" where
  "keeps_consumer c d \<longleftrightarrow> grows c d \<and> (\<forall>n. held_call n c \<longrightarrow> held_call n d)"

definition keeps_all :: "mcp \<Rightarrow> mcp \<Rightarrow> bool" where
  "keeps_all s t \<longleftrightarrow> length (mf_consumers s) \<le> length (mf_consumers t)
     \<and> (\<forall>a < length (mf_consumers s). keeps_consumer (mf_consumers s ! a) (mf_consumers t ! a))"

lemma keeps_consumer_refl [simp]: "keeps_consumer c c"
  by (simp add: keeps_consumer_def grows_refl)

lemma keeps_consumer_trans: "keeps_consumer c d \<Longrightarrow> keeps_consumer d e \<Longrightarrow> keeps_consumer c e"
  using grows_trans unfolding keeps_consumer_def by blast

lemma keeps_all_trans: "keeps_all s t \<Longrightarrow> keeps_all t u \<Longrightarrow> keeps_all s u"
  unfolding keeps_all_def by (meson keeps_consumer_trans le_trans less_le_trans)

lemma keeps_all_frame: "mf_consumers t = mf_consumers s \<Longrightarrow> keeps_all s t"
  by (simp add: keeps_all_def)

text \<open>A method is started on \<open>a\<close>, or has its reply.\<close>

definition started :: "nat \<Rightarrow> nat \<Rightarrow> mcp \<Rightarrow> bool" where
  "started a n s \<longleftrightarrow> a < length (mf_consumers s) \<and> held_call n (mf_consumers s ! a)"

lemma started_keeps: "started a n s \<Longrightarrow> keeps_all s t \<Longrightarrow> started a n t"
  unfolding started_def keeps_all_def keeps_consumer_def by (meson less_le_trans)

lemma ask_effect:
  assumes "ask a f s = (n, t)" "consumer_method f" "a < length (mf_consumers s)"
  shows "keeps_all s t" "started a n t"
    "mf_tasks t = mf_tasks s" "mf_answers t = mf_answers s" "mf_fresh t = mf_fresh s" "mf_pairings t = mf_pairings s" "mf_ads t = mf_ads s" "mf_now t = mf_now s"
    "length (mf_consumers t) = length (mf_consumers s)" "map cs_identity (mf_consumers t) = map cs_identity (mf_consumers s)"
proof -
  let ?c = "mf_consumers s ! a"
  have t: "t = s\<lparr>mf_consumers := (mf_consumers s)[a := f n (?c\<lparr>cs_fresh := n + 1\<rparr>)]\<rparr>" using assms(1) by (auto simp: ask_def Let_def)
  have "grows (?c\<lparr>cs_fresh := n + 1\<rparr>) (f n (?c\<lparr>cs_fresh := n + 1\<rparr>))" using assms(2) unfolding consumer_method_def by blast
  then have "grows ?c (f n (?c\<lparr>cs_fresh := n + 1\<rparr>))" by (simp add: grows_fresh)
  moreover have held: "held_call m (f n (?c\<lparr>cs_fresh := n + 1\<rparr>)) \<longleftrightarrow> m = n \<or> held_call m ?c" for m using assms(2) unfolding consumer_method_def by simp
  ultimately show "keeps_all s t" using assms(3) by (simp add: t keeps_all_def nth_list_update keeps_consumer_def grows_refl)
  show "started a n t" using assms(3) held [of n] by (simp add: started_def t)
  show "map cs_identity (mf_consumers t) = map cs_identity (mf_consumers s)"
    using assms(2,3) unfolding consumer_method_def by (simp add: t map_update list_update_same_conv)
qed (use assms(1) in \<open>auto simp: ask_def Let_def\<close>)

text \<open>The scan of a call: its candidates are the ones that were there when it began.\<close>

definition scan_good :: "mcp_config \<Rightarrow> mcp \<Rightarrow> scan_state \<Rightarrow> bool" where
  "scan_good M s x \<longleftrightarrow> sx_consumer x < length (mf_consumers s) \<and> sx_initial x = fingerprint M (sx_candidates x) \<and> set (sx_rest x) \<subseteq> set (sx_candidates x)
     \<and> fst ` set (sx_signed x) \<subseteq> set (sx_candidates x) \<and> set (sx_legacy x) \<subseteq> set (sx_candidates x)"

text \<open>A choice: the only unsigned candidate that may be alive, or one of those with a proven lineage.\<close>

definition choice :: "scan_state \<Rightarrow> advertisement \<Rightarrow> bool" where
  "choice x ad \<longleftrightarrow> sx_signed x = [] \<and> sx_legacy x = [ad] \<or> ad \<in> fst ` set (sx_signed x)"

fun task_good :: "mcp_config \<Rightarrow> mcp \<Rightarrow> mcp_task \<Rightarrow> bool" where
  "task_good M s (Offering a n) \<longleftrightarrow> started a n s"
| "task_good M s (Passing a n) \<longleftrightarrow> started a n s"
| "task_good M s (ProbesLegacy n ad x) \<longleftrightarrow> started (sx_consumer x) n s \<and> scan_good M s x \<and> ad \<in> set (sx_candidates x)"
| "task_good M s (ChecksSigned n ad q x) \<longleftrightarrow> started (sx_consumer x) n s \<and> scan_good M s x \<and> ad \<in> set (sx_candidates x)"
| "task_good M s (ProbesSigned ns x) \<longleftrightarrow> (\<forall>(ad, n) \<in> set ns. started (sx_consumer x) n s) \<and> scan_good M s x \<and> map fst ns = map fst (sx_signed x)"
| "task_good M s (ReadsCurrent n ad x) \<longleftrightarrow> started (sx_consumer x) n s \<and> scan_good M s x \<and> choice x ad"
| "task_good M s (Resuming n ad x) \<longleftrightarrow> started (sx_consumer x) n s \<and> scan_good M s x \<and> choice x ad"

lemma scan_good_keeps: "scan_good M s x \<Longrightarrow> keeps_all s t \<Longrightarrow> scan_good M t x"
  by (auto simp: scan_good_def keeps_all_def)

lemma task_good_keeps: "task_good M s task \<Longrightarrow> keeps_all s t \<Longrightarrow> task_good M t task"
  by (cases task) (auto intro: started_keeps scan_good_keeps)

text \<open>How often a call can still go on.\<close>

fun rank :: "mcp_task \<Rightarrow> nat" where
  "rank (Offering a n) = 1"
| "rank (Passing a n) = 1"
| "rank (Resuming n ad x) = 2"
| "rank (ReadsCurrent n ad x) = 3"
| "rank (ProbesSigned ns x) = 4"
| "rank (ProbesLegacy n ad x) = 5 + length (sx_rest x)"
| "rank (ChecksSigned n ad q x) = 5 + length (sx_rest x)"

text \<open>The pairings lead to consumers that exist, and advertisements only go.\<close>

definition quiet :: "mcp \<Rightarrow> mcp \<Rightarrow> bool" where
  "quiet s t \<longleftrightarrow> mf_fresh t = mf_fresh s \<and> keeps_all s t \<and> snd ` set (mf_pairings t) \<subseteq> snd ` set (mf_pairings s) \<union> {..<length (mf_consumers t)}
     \<and> (\<exists>f. mf_ads t = filter f (mf_ads s))"

text \<open>From \<open>s\<close> to \<open>t\<close> call \<open>i\<close> is answered, or waits with fewer than \<open>r\<close> turns left.\<close>

definition takes_turn :: "mcp_config \<Rightarrow> (mcp_task \<Rightarrow> bool) \<Rightarrow> nat \<Rightarrow> nat \<Rightarrow> mcp \<Rightarrow> mcp \<Rightarrow> bool" where
  "takes_turn M P i r s t \<longleftrightarrow> quiet s t \<and>
     ((\<exists>a. withheld a \<and> mf_tasks t = jm_delete i (mf_tasks s) \<and> mf_answers t = mf_answers s @ [(i, a)])
      \<or> (\<exists>task. mf_tasks t = jm_set i task (mf_tasks s) \<and> mf_answers t = mf_answers s \<and> task_good M t task \<and> rank task < r \<and> P task))"

lemma quiet_refl [simp]: "quiet s s"
  by (auto simp: quiet_def keeps_all_def intro: exI [of _ "\<lambda>_. True"])

lemma quiet_trans:
  assumes "quiet s t" "quiet t u"
  shows "quiet s u"
proof -
  have len: "length (mf_consumers t) \<le> length (mf_consumers u)" using assms(2) by (simp add: quiet_def keeps_all_def)
  have "snd ` set (mf_pairings t) \<subseteq> snd ` set (mf_pairings s) \<union> {..<length (mf_consumers t)}"
    "snd ` set (mf_pairings u) \<subseteq> snd ` set (mf_pairings t) \<union> {..<length (mf_consumers u)}"
    using assms by (simp_all add: quiet_def)
  moreover have "{..<length (mf_consumers t)} \<subseteq> {..<length (mf_consumers u)}" using len by simp
  moreover have "A \<subseteq> B \<union> T \<Longrightarrow> D \<subseteq> A \<union> U \<Longrightarrow> T \<subseteq> U \<Longrightarrow> D \<subseteq> B \<union> U" for A B D T U :: "nat set" by blast
  ultimately have "snd ` set (mf_pairings u) \<subseteq> snd ` set (mf_pairings s) \<union> {..<length (mf_consumers u)}" by simp
  moreover have "\<exists>f. mf_ads t = filter f (mf_ads s)" "\<exists>g. mf_ads u = filter g (mf_ads t)" using assms by (simp_all only: quiet_def)
  then obtain f g where "mf_ads t = filter f (mf_ads s)" "mf_ads u = filter g (mf_ads t)" by (elim exE)
  then have "mf_ads u = filter (\<lambda>x. f x \<and> g x) (mf_ads s)" by (simp add: filter_filter conj_commute)
  then have "\<exists>h. mf_ads u = filter h (mf_ads s)" by (rule exI [of _ "\<lambda>x. f x \<and> g x"])
  ultimately show ?thesis using assms keeps_all_trans [of s t u] unfolding quiet_def by simp
qed

lemma quiet_frame:
  "mf_fresh t = mf_fresh s \<Longrightarrow> mf_consumers t = mf_consumers s \<Longrightarrow> snd ` set (mf_pairings t) \<subseteq> snd ` set (mf_pairings s) \<union> {..<length (mf_consumers t)}
    \<Longrightarrow> mf_ads t = filter f (mf_ads s) \<Longrightarrow> quiet s t"
  by (auto simp: quiet_def keeps_all_frame)

lemma ask_quiet: "ask a f s = (n, t) \<Longrightarrow> consumer_method f \<Longrightarrow> a < length (mf_consumers s) \<Longrightarrow> quiet s t"
  using ask_effect [of a f s n t] by (auto simp: quiet_def intro: exI [of _ "\<lambda>_. True"])

text \<open>A change of the state before the turn.\<close>

lemma turn_after:
  "takes_turn M P i r s t \<Longrightarrow> quiet s0 s \<Longrightarrow> mf_tasks s = mf_tasks s0 \<Longrightarrow> mf_answers s = mf_answers s0 \<Longrightarrow> takes_turn M P i r s0 t"
  unfolding takes_turn_def using quiet_trans [of s0 s t] by auto

lemma turn_more: "takes_turn M P i r s t \<Longrightarrow> r \<le> r' \<Longrightarrow> (\<And>task. P task \<Longrightarrow> P' task) \<Longrightarrow> takes_turn M P' i r' s t"
  unfolding takes_turn_def by fastforce

lemma turn_answer: "withheld a \<Longrightarrow> takes_turn M P i r s (answer_call i a s)"
  unfolding takes_turn_def answer_call_def
  by (rule conjI, rule quiet_frame [of _ _ "\<lambda>_. True"]) auto

lemma turn_reports: "takes_turn M P i r s (reports i status reason s)"
  by (simp add: reports_def turn_answer)

lemma turn_wait:
  assumes "quiet s t" "mf_tasks t = mf_tasks s" "mf_answers t = mf_answers s" "task_good M t task" "rank task < r" "P task"
  shows "takes_turn M P i r s (wait_call i task t)"
proof -
  have same: "quiet t (wait_call i task t)" "keeps_all t (wait_call i task t)"
    by (rule quiet_frame [of _ _ "\<lambda>_. True"]) (auto simp: wait_call_def intro: keeps_all_frame)
  then have "task_good M (wait_call i task t) task" using assms(4) by (blast intro: task_good_keeps)
  with assms same show ?thesis using quiet_trans [OF assms(1) same(1)] by (auto simp: takes_turn_def wait_call_def)
qed

lemma turn_ask:
  assumes "consumer_method f" "a < length (mf_consumers s)" "\<And>n t. ask a f s = (n, t) \<Longrightarrow> started a n t \<Longrightarrow> keeps_all s t \<Longrightarrow> task_good M t (task n)"
    "\<And>n. rank (task n) < r" "\<And>n. P (task n)"
  shows "takes_turn M P i r s (case ask a f s of (n, t) \<Rightarrow> wait_call i (task n) t)"
proof -
  obtain n t where ask: "ask a f s = (n, t)" by fastforce
  note e = ask_effect [OF ask assms(1,2)]
  show ?thesis unfolding ask prod.case
    by (rule turn_wait) (use e ask assms ask_quiet [OF ask assms(1,2)] in auto)
qed

subsection \<open>The turns of a call\<close>

lemma turn_pass: "consumer_method f \<Longrightarrow> a < length (mf_consumers s) \<Longrightarrow> 1 < r \<Longrightarrow> (\<And>n. P (Passing a n)) \<Longrightarrow> takes_turn M P i r s (ask_pass i a f s)"
  unfolding ask_pass_def by (rule turn_ask) auto

lemma abandon_keeps: "keeps_consumer c (abandon c)"
  by (auto simp: keeps_consumer_def abandon_def intro: grows_intros)

lemma turn_dispatch:
  assumes "a < length (mf_consumers s)" "1 < r" "\<And>n. P (Passing a n)"
  shows "takes_turn M P i r s (dispatch M i a name args tok s)"
proof -
  have "keeps_all s (abandon_for a s)" using assms(1) by (auto simp: keeps_all_def abandon_for_def nth_list_update abandon_keeps)
  then have "quiet s (abandon_for a s)" by (auto simp: quiet_def abandon_for_def intro: exI [of _ "\<lambda>_. True"])
  then have "takes_turn M P i r s (answer_call i ManuallyAbandoned (abandon_for a s))"
    by (intro turn_after [OF turn_answer]) (simp_all add: abandon_for_def)
  then show ?thesis using assms unfolding dispatch_def Let_def by (auto intro: turn_pass turn_answer)
qed

lemma turn_chosen:
  assumes "scan_good M s x" "3 < r" "\<And>ad. next = Some ad \<Longrightarrow> choice x ad" "\<And>a n. P (Passing a n)" "\<And>n ad. P (ReadsCurrent n ad x)"
  shows "takes_turn M P i r s (chosen M i x next s)"
proof (cases "next")
  case None
  then show ?thesis using assms unfolding chosen_def by (auto simp: scan_good_def intro: turn_dispatch)
next
  case (Some ad)
  have "takes_turn M P i r s (case ask (sx_consumer x) (consumer_read (mc_consumer M)) s of (n, t) \<Rightarrow> wait_call i (ReadsCurrent n ad x) t)"
    by (rule turn_ask) (use assms Some in \<open>auto simp: scan_good_def keeps_all_def\<close>)
  then show ?thesis by (simp add: chosen_def Some)
qed

lemma ask_probe_effect:
  assumes "ask_probe M a ad s = (n, t)" "a < length (mf_consumers s)"
  shows "quiet s t" "started a n t" "mf_tasks t = mf_tasks s" "mf_answers t = mf_answers s"
proof -
  let ?s = "s\<lparr>mf_uuids := mf_uuids s + 1\<rparr>"
  have ask: "ask a (\<lambda>n. probe_resume (mc_consumer M) n (ad_identity ad) (ad_share ad) (mc_uuid M (mf_uuids s))) ?s = (n, t)"
    using assms(1) by (simp add: ask_probe_def next_uuid_def)
  have "quiet s ?s" by (rule quiet_frame [of _ _ "\<lambda>_. True"]) auto
  then show "quiet s t" using quiet_trans [OF _ ask_quiet [OF ask]] assms(2) by simp
  show "started a n t" "mf_tasks t = mf_tasks s" "mf_answers t = mf_answers s"
    using ask_effect(2,3,4) [OF ask] assms(2) by simp_all
qed

lemma ask_probes_effect:
  "ask_probes M a ads s = (ns, t) \<Longrightarrow> a < length (mf_consumers s) \<Longrightarrow>
     quiet s t \<and> (\<forall>(ad, n) \<in> set ns. started a n t) \<and> map fst ns = ads \<and> mf_tasks t = mf_tasks s \<and> mf_answers t = mf_answers s"
proof (induction ads arbitrary: ns s)
  case (Cons ad ads)
  obtain n s1 where 1: "ask_probe M a ad s = (n, s1)" by fastforce
  obtain ns' where 2: "ask_probes M a ads s1 = (ns', t)" "ns = (ad, n) # ns'" using Cons.prems(1) 1 by (auto split: prod.splits)
  note e = ask_probe_effect [OF 1 Cons.prems(2)]
  have IH: "quiet s1 t \<and> (\<forall>(ad, n) \<in> set ns'. started a n t) \<and> map fst ns' = ads \<and> mf_tasks t = mf_tasks s1 \<and> mf_answers t = mf_answers s1"
    by (rule Cons.IH [OF 2(1)]) (use e(2) in \<open>simp add: started_def\<close>)
  moreover have "started a n t" using started_keeps [OF e(2)] IH by (simp add: quiet_def)
  moreover have "quiet s t" using quiet_trans [OF e(1)] IH by blast
  ultimately show ?case using 2(2) e(3,4) by simp
qed simp

lemma highest_subset: "set (highest found) \<subseteq> set found"
  by (auto simp: highest_def)

lemma turn_scan_done:
  assumes "scan_good M s x" "4 < r" "\<And>a n. P (Passing a n)" "\<And>n ad. P (ReadsCurrent n ad x)" "\<And>ns. P (ProbesSigned ns x)"
  shows "takes_turn M P i r s (scan_done M i x s)"
proof -
  define pick where "pick = (case highest (sx_signed x) of (ad, q) # _ \<Rightarrow> Some ad | [] \<Rightarrow> (case sx_legacy x of [ad] \<Rightarrow> Some ad | _ \<Rightarrow> None))"
  have choice: "choice x ad" if "pick = Some ad" for ad
  proof (cases "highest (sx_signed x)")
    case Nil
    have "sx_signed x = []"
    proof (rule ccontr)
      assume "sx_signed x \<noteq> []"
      then have "Max (snd ` set (sx_signed x)) \<in> snd ` set (sx_signed x)" by (intro Max_in) auto
      then have "highest (sx_signed x) \<noteq> []" by (auto simp: highest_def filter_empty_conv)
      with Nil show False by simp
    qed
    then show ?thesis using that Nil by (auto simp: pick_def choice_def split: list.splits)
  next
    case (Cons p ps)
    then have "p \<in> set (sx_signed x)" using highest_subset [of "sx_signed x"] by auto
    moreover have "fst p = ad" using that Cons by (cases p) (simp add: pick_def)
    ultimately show ?thesis unfolding choice_def by blast
  qed
  have probes: "takes_turn M P i r s (case ask_probes M (sx_consumer x) (map fst (sx_signed x)) s of (ns, t) \<Rightarrow> wait_call i (ProbesSigned ns x) t)"
  proof -
    obtain ns t where a: "ask_probes M (sx_consumer x) (map fst (sx_signed x)) s = (ns, t)" by fastforce
    have e: "quiet s t \<and> (\<forall>(ad, n) \<in> set ns. started (sx_consumer x) n t) \<and> map fst ns = map fst (sx_signed x) \<and> mf_tasks t = mf_tasks s \<and> mf_answers t = mf_answers s"
      by (rule ask_probes_effect [OF a]) (use assms(1) in \<open>simp add: scan_good_def\<close>)
    moreover from e have "scan_good M t x" using assms(1) scan_good_keeps unfolding quiet_def by blast
    ultimately show ?thesis unfolding a prod.case using assms by (intro turn_wait) auto
  qed
  have "takes_turn M P i r s (chosen M i x pick s)" using assms choice by (intro turn_chosen) auto
  with probes show ?thesis unfolding scan_done_def Let_def pick_def [symmetric] by (simp add: turn_reports)
qed

lemma turn_scan_on:
  assumes "scan_good M s x" "set ads \<subseteq> set (sx_candidates x)" "5 + length ads \<le> r"
    "\<And>a n. P (Passing a n)" "\<And>n ad y. P (ReadsCurrent n ad y)" "\<And>ns y. P (ProbesSigned ns y)" "\<And>n ad y. P (ProbesLegacy n ad y)" "\<And>n ad q y. P (ChecksSigned n ad q y)"
  shows "takes_turn M P i r s (scan_on M i x ads s)"
  using assms(2,3)
proof (induction ads)
  case Nil
  have "scan_good M s (x\<lparr>sx_rest := []\<rparr>)" using assms(1) by (simp add: scan_good_def)
  then show ?case using Nil assms by (auto intro: turn_scan_done)
next
  case (Cons ad ads)
  let ?x = "x\<lparr>sx_rest := ads\<rparr>"
  have good: "scan_good M s ?x" "ad \<in> set (sx_candidates x)" "sx_consumer x < length (mf_consumers s)" using assms(1) Cons.prems by (auto simp: scan_good_def)
  show ?case
  proof (cases "read_capabilities ad")
    case None
    then show ?thesis using Cons by simp
  next
    case (Some caps)
    show ?thesis
    proof (cases "member ''resumeLineage'' caps")
      case None
      obtain n t where a: "ask_probe M (sx_consumer x) ad s = (n, t)" by fastforce
      note e = ask_probe_effect [OF a good(3)]
      have "scan_good M t ?x" using scan_good_keeps [OF good(1)] e(1) by (simp add: quiet_def)
      then have "takes_turn M P i r s (wait_call i (ProbesLegacy n ad ?x) t)"
        using e good(2) Cons.prems assms by (intro turn_wait) auto
      then show ?thesis by (simp add: Some None a)
    next
      case lineage: (Some v)
      have "takes_turn M P i r s (case ask (sx_consumer x) (\<lambda>n. verifies_lineage (mc_consumer M) n (ad_identity ad) (claim_of M v)) s of
          (n, t) \<Rightarrow> wait_call i (ChecksSigned n ad (case claim_of M v of Some (q, p) \<Rightarrow> q | None \<Rightarrow> 0) ?x) t)"
        by (rule turn_ask) (use good Cons.prems assms in \<open>auto intro: scan_good_keeps\<close>)
      then show ?thesis by (simp add: Some lineage)
    qed
  qed
qed

abbreviation no_resume :: "mcp_task \<Rightarrow> bool" where
  "no_resume task \<equiv> (\<forall>n ad x. task \<noteq> Resuming n ad x)"

lemma turn_begin:
  assumes "a < length (mf_consumers s)" "5 + length (mf_ads s) \<le> r"
  shows "takes_turn M no_resume i r s (begin_scan M i a name args tok s)"
proof -
  have "length (candidates_of a s) \<le> length (mf_ads s)" by (simp add: candidates_of_def ad_values_def le_trans [OF length_filter_le])
  then show ?thesis using assms unfolding begin_scan_def Let_def by (intro turn_scan_on) (auto simp: scan_good_def)
qed

lemma turn_request_pairing: "takes_turn M no_resume i 2 s (request_pairing M i args s)"
proof -
  have "takes_turn M no_resume i 2 s (case ask (length (mf_consumers s)) (consumer_offer (mc_consumer M)) (s\<lparr>mf_consumers := mf_consumers s @ [c]\<rparr>) of
      (n, t) \<Rightarrow> wait_call i (Offering (length (mf_consumers s)) n) t)" for c
  proof (rule turn_after [OF turn_ask])
    have "keeps_all s (s\<lparr>mf_consumers := mf_consumers s @ [c]\<rparr>)" by (simp add: keeps_all_def nth_append)
    then show "quiet s (s\<lparr>mf_consumers := mf_consumers s @ [c]\<rparr>)" by (auto simp: quiet_def intro: exI [of _ "\<lambda>_. True"])
  qed auto
  then show ?thesis unfolding request_pairing_def Let_def by (auto intro: turn_answer split: option.split)
qed

definition pairs_valid :: "mcp \<Rightarrow> bool" where
  "pairs_valid s \<longleftrightarrow> snd ` set (mf_pairings s) \<subseteq> {..<length (mf_consumers s)}"

lemma turn_call:
  assumes "pairs_valid s" "5 + length (mf_ads s) \<le> r"
  shows "takes_turn M no_resume i r s (call_tool M i name args s)"
proof -
  have pair: "a < length (mf_consumers s)" if "jm_get (mf_pairings s) tok = Some a" for tok a
    using assms(1) jm_get_in [OF that] by (force simp: pairs_valid_def)
  have "takes_turn M no_resume i r s (request_pairing M i args s)" using assms(2) by (auto intro: turn_more [OF turn_request_pairing])
  then show ?thesis using assms(2) unfolding call_tool_def Let_def
    by (auto intro!: turn_answer turn_pass turn_begin turn_dispatch dest: pair split: option.split)
qed

subsection \<open>The turns after an await\<close>

lemma turn_with_result:
  "(\<And>g. takes_turn M P i r s (f g s)) \<Longrightarrow> takes_turn M P i r s (with_result i reply f s)"
  by (simp add: with_result_def turn_answer split: consumer_reply.split)

lemma pair_quiet: "a < length (mf_consumers s) \<Longrightarrow> quiet s (s\<lparr>mf_pairings := jm_set t a (mf_pairings s)\<rparr>)"
  by (rule quiet_frame [of _ _ "\<lambda>_. True"]) (auto dest!: set_jm_set)

lemma turn_offered: "a < length (mf_consumers s) \<Longrightarrow> takes_turn M P i r s (offered i a g s)"
  unfolding offered_def by (auto intro: turn_answer turn_after [OF turn_answer] pair_quiet split: option.split)

lemma turn_legacy_probed:
  assumes "scan_good M s x" "ad \<in> set (sx_candidates x)"
  shows "takes_turn M no_resume i (5 + length (sx_rest x)) s (legacy_probed M i ad x g s)"
proof -
  have "takes_turn M no_resume i (5 + length (sx_rest x)) s (scan_on M i y (sx_rest x) s)" if "y = x \<or> y = x\<lparr>sx_legacy := sx_legacy x @ [ad]\<rparr>" for y
  proof -
    have "scan_good M s y" using that assms by (elim disjE) (simp_all add: scan_good_def)
    then show ?thesis by (rule turn_scan_on) (use assms(1) that in \<open>auto simp: scan_good_def\<close>)
  qed
  then show ?thesis unfolding legacy_probed_def by (simp add: turn_answer)
qed

lemma turn_lineage_verified:
  assumes "scan_good M s x" "ad \<in> set (sx_candidates x)"
  shows "takes_turn M no_resume i (5 + length (sx_rest x)) s (lineage_verified M i ad q x ok s)"
proof -
  have "scan_good M s (if ok then x\<lparr>sx_signed := sx_signed x @ [(ad, q)]\<rparr> else x)" using assms by (auto simp: scan_good_def)
  then show ?thesis unfolding lineage_verified_def by (rule turn_scan_on) (use assms(1) in \<open>auto simp: scan_good_def\<close>)
qed

lemma turn_signed_probed:
  assumes "scan_good M s x" "map fst probes = map fst (sx_signed x)"
  shows "takes_turn M no_resume i 4 s (signed_probed M i x probes s)"
proof -
  have "takes_turn M no_resume i 4 s (chosen M i x (Some ad) s)" if "(ad, g) \<in> set probes" for ad g
  proof (rule turn_chosen)
    have "ad \<in> set (map fst probes)" using that by force
    then show "choice x ad'" if "Some ad = Some ad'" for ad' using that assms(2) by (simp add: choice_def)
  qed (use assms(1) in auto)
  moreover have "(ad, g) \<in> set probes" if "filter (\<lambda>(ad, g). ar_status g = jlit ''available'') probes = (ad, g) # ps" for ad g ps
    using arg_cong [OF that, of set] by auto
  ultimately show ?thesis unfolding signed_probed_def Let_def by (auto simp: turn_reports split: list.split)
qed

text \<open>What holds when a resume is asked for.\<close>

definition resume_allowed :: "mcp_config \<Rightarrow> mcp \<Rightarrow> nat \<Rightarrow> advertisement \<Rightarrow> scan_state \<Rightarrow> bool" where
  "resume_allowed M s i ad x \<longleftrightarrow> unexpired s ad \<and> \<not> ads_changed M x s \<and> choice x ad \<and> scan_good M s x
     \<and> (\<exists>n g. jm_get (mf_tasks s) i = Some (ReadsCurrent n ad x) \<and> method_reply (sx_consumer x) n s = Some (Gives g)
            \<and> ar_status g \<noteq> jlit ''observed'' \<and> (ar_status g = jlit ''unknown'' \<longrightarrow> no_provider (ar_reason g)))"

definition allowed_task :: "mcp_config \<Rightarrow> mcp \<Rightarrow> nat \<Rightarrow> mcp_task \<Rightarrow> bool" where
  "allowed_task M s i task \<longleftrightarrow> (\<forall>n ad x. task = Resuming n ad x \<longrightarrow> resume_allowed M s i ad x)"

lemma no_resume_allowed: "no_resume task \<Longrightarrow> allowed_task M s i task"
  by (simp add: allowed_task_def)

lemma turn_current_read:
  assumes "scan_good M s x" "choice x ad" "jm_get (mf_tasks s) i = Some (ReadsCurrent n ad x)" "method_reply (sx_consumer x) n s = Some (Gives g)"
  shows "takes_turn M (allowed_task M s i) i 3 s (current_read M i ad x g s)"
proof (cases "ar_status g = jlit ''observed'' \<or> ar_status g = jlit ''unknown'' \<and> \<not> no_provider (ar_reason g) \<or> ads_changed M x s \<or> \<not> unexpired s ad")
  case True
  then show ?thesis unfolding current_read_def by (auto simp: turn_answer turn_reports)
next
  case False
  let ?s = "s\<lparr>mf_uuids := mf_uuids s + 1\<rparr>"
  have ok: "allowed_task M s i (Resuming m ad x)" for m using False assms by (auto simp: allowed_task_def resume_allowed_def)
  have quiet: "quiet s ?s" by (rule quiet_frame [of _ _ "\<lambda>_. True"]) auto
  then have good: "scan_good M ?s x" using scan_good_keeps [OF assms(1)] by (simp add: quiet_def)
  have "takes_turn M (allowed_task M s i) i 3 ?s (case ask (sx_consumer x) (\<lambda>n. consumer_resume (mc_consumer M) n (ad_identity ad) (ad_share ad) (mc_uuid M (mf_uuids s))) ?s of
      (m, t) \<Rightarrow> wait_call i (Resuming m ad x) t)"
    by (rule turn_ask) (use good assms(2) ok in \<open>auto simp: scan_good_def keeps_all_def\<close>)
  then have "takes_turn M (allowed_task M s i) i 3 s (case ask (sx_consumer x) (\<lambda>n. consumer_resume (mc_consumer M) n (ad_identity ad) (ad_share ad) (mc_uuid M (mf_uuids s))) ?s of
      (m, t) \<Rightarrow> wait_call i (Resuming m ad x) t)"
    by (rule turn_after [OF _ quiet]) simp_all
  then show ?thesis using False unfolding current_read_def next_uuid_def by auto
qed

lemma turn_resumed:
  assumes "sx_consumer x < length (mf_consumers s)"
  shows "takes_turn M no_resume i 2 s (resumed M i ad x g s)"
proof -
  define s1 where "s1 = (case ar_token g of Some t \<Rightarrow> if t \<noteq> [] then s\<lparr>mf_pairings := jm_set t (sx_consumer x) (mf_pairings s)\<rparr> else s | None \<Rightarrow> s)"
  define s2 where "s2 = s1\<lparr>mf_ads := filter (\<lambda>(k, old). \<not> superseded ad k old) (mf_ads s1)\<rparr>"
  have 1: "quiet s s1" "mf_tasks s1 = mf_tasks s" "mf_answers s1 = mf_answers s" "mf_consumers s1 = mf_consumers s"
    using pair_quiet [OF assms] by (simp_all add: s1_def split: option.split)
  have "quiet s1 s2" unfolding s2_def by (rule quiet_frame) auto
  then have "quiet s s2" by (rule quiet_trans [OF 1(1)])
  moreover have "takes_turn M no_resume i 2 s2 (dispatch M i (sx_consumer x) (sx_name x) (sx_args x) (sx_token x) s2)"
    using assms 1(4) by (intro turn_dispatch) (simp_all add: s2_def)
  moreover have "mf_tasks s2 = mf_tasks s" "mf_answers s2 = mf_answers s" using 1(2,3) by (simp_all add: s2_def)
  ultimately have "takes_turn M no_resume i 2 s (dispatch M i (sx_consumer x) (sx_name x) (sx_args x) (sx_token x) s2)"
    using turn_after by blast
  then show ?thesis unfolding resumed_def Let_def s2_def [symmetric] s1_def [symmetric] by (simp add: turn_answer)
qed

lemma turn_go_on:
  assumes "task_good M s task" "jm_get (mf_tasks s) i = Some task" "awaited task = Some (a, n)" "method_reply a n s = Some reply"
  shows "takes_turn M (allowed_task M s i) i (rank task) s (go_on M i task reply s)"
proof (cases task)
  case (ReadsCurrent m ad x)
  have "takes_turn M (allowed_task M s i) i 3 s (with_result i reply (current_read M i ad x) s)"
  proof (cases reply)
    case (Gives g)
    then show ?thesis using assms ReadsCurrent by (simp add: with_result_def turn_current_read)
  qed (simp_all add: with_result_def turn_answer)
  then show ?thesis using ReadsCurrent by (simp add: go_on_def)
next
  case (ProbesSigned ns x)
  then show ?thesis using assms by simp
next
  case (Offering b m)
  then have "takes_turn M (allowed_task M s i) i 1 s (with_result i reply (offered i b) s)"
    using assms(1) by (intro turn_with_result turn_offered) (simp add: started_def)
  then show ?thesis using Offering by (simp add: go_on_def)
next
  case (Passing b m)
  have "takes_turn M (allowed_task M s i) i 1 s (with_result i reply (\<lambda>g. answer_call i (serializable g)) s)"
    by (intro turn_with_result turn_answer) simp
  then show ?thesis using Passing by (simp add: go_on_def)
next
  case (ProbesLegacy m ad x)
  have "takes_turn M no_resume i (5 + length (sx_rest x)) s (with_result i reply (legacy_probed M i ad x) s)"
    using assms(1) ProbesLegacy by (intro turn_with_result turn_legacy_probed) simp_all
  then show ?thesis using ProbesLegacy by (simp add: go_on_def turn_more no_resume_allowed)
next
  case (ChecksSigned m ad q x)
  have "takes_turn M no_resume i (5 + length (sx_rest x)) s (lineage_verified M i ad q x ok s)" for ok
    using assms(1) ChecksSigned by (intro turn_lineage_verified) simp_all
  then have "takes_turn M (allowed_task M s i) i (5 + length (sx_rest x)) s (lineage_verified M i ad q x ok s)" for ok
    by (rule turn_more) (auto intro: no_resume_allowed)
  then show ?thesis using ChecksSigned by (auto simp: go_on_def turn_answer split: consumer_reply.split)
next
  case (Resuming m ad x)
  have "takes_turn M no_resume i 2 s (with_result i reply (resumed M i ad x) s)"
    using assms(1) Resuming by (intro turn_with_result turn_resumed) (simp add: scan_good_def)
  then show ?thesis using Resuming by (simp add: go_on_def turn_more no_resume_allowed)
qed

end
