(* ===== verification/Mcp_Safety.thy ===== *)
theory Mcp_Safety
  imports Mcp_Turns
begin

text \<open>
  The invariant of the MCP facade: the calls are counted, their answers withhold the secrets, the
  pairings and the tasks refer to consumers and methods that exist, and the directory is bounded.
\<close>

subsection \<open>The invariant\<close>

definition calls_counted :: "mcp \<Rightarrow> bool" where
  "calls_counted s \<longleftrightarrow> distinct (map fst (mf_answers s)) \<and> distinct (jm_keys (mf_tasks s))
     \<and> fst ` set (mf_answers s) \<inter> fst ` set (mf_tasks s) = {} \<and> fst ` set (mf_answers s) \<union> fst ` set (mf_tasks s) = {..<mf_fresh s}"

definition tasks_good :: "mcp_config \<Rightarrow> mcp \<Rightarrow> bool" where
  "tasks_good M s \<longleftrightarrow> (\<forall>i task. jm_get (mf_tasks s) i = Some task \<longrightarrow> task_good M s task \<and> rank task < 133)"

definition directory_ok :: "mcp \<Rightarrow> bool" where
  "directory_ok s \<longleftrightarrow> distinct (jm_keys (mf_ads s)) \<and> length (mf_ads s) \<le> 128 \<and> (\<forall>(k, a) \<in> set (mf_ads s). k = ad_key a \<and> ad_version a = 1)"

definition mcp_ok :: "mcp_config \<Rightarrow> mcp \<Rightarrow> bool" where
  "mcp_ok M s \<longleftrightarrow> calls_counted s \<and> (\<forall>a \<in> snd ` set (mf_answers s). withheld a) \<and> pairs_valid s \<and> tasks_good M s \<and> directory_ok s"

lemma directory_filter: "directory_ok s \<Longrightarrow> mf_ads t = filter f (mf_ads s) \<Longrightarrow> directory_ok t"
  unfolding directory_ok_def by (auto simp: distinct_map_filter intro: le_trans [OF length_filter_le])

lemma tasks_keep: "tasks_good M s \<Longrightarrow> keeps_all s t \<Longrightarrow> mf_tasks t = mf_tasks s \<Longrightarrow> tasks_good M t"
  unfolding tasks_good_def by (metis task_good_keeps)

text \<open>A step that changes no call.\<close>

lemma directory_same: "directory_ok s \<Longrightarrow> mf_ads t = mf_ads s \<Longrightarrow> directory_ok t"
  by (simp add: directory_ok_def)

lemma ok_frame:
  assumes "mcp_ok M s" "keeps_all s t" "mf_tasks t = mf_tasks s" "mf_answers t = mf_answers s" "mf_fresh t = mf_fresh s" "mf_pairings t = mf_pairings s" "directory_ok t"
  shows "mcp_ok M t"
proof -
  have "length (mf_consumers s) \<le> length (mf_consumers t)" using assms(2) by (simp add: keeps_all_def)
  then have "pairs_valid t" using assms(1,6) unfolding mcp_ok_def pairs_valid_def by (auto dest: subsetD)
  then show ?thesis using assms tasks_keep [of M s t] by (simp add: mcp_ok_def calls_counted_def)
qed

lemma keys_jm_set: "fst ` set (jm_set k v m) = insert k (fst ` set m)"
  by (metis dom_map_of_conv_image_fst dom_fun_upd jm_get_set option.distinct(1) Un_insert_right)

lemma keys_jm_delete: "fst ` set (jm_delete k m) = fst ` set m - {k}"
  by (auto simp: set_jm_delete)

lemma ok_turn:
  assumes "takes_turn M P i r s t" "r \<le> 133"
    and "distinct (map fst (mf_answers s))" "distinct (jm_keys (mf_tasks s))" "fst ` set (mf_answers s) \<inter> fst ` set (mf_tasks s) = {}"
      "insert i (fst ` set (mf_answers s) \<union> fst ` set (mf_tasks s)) = {..<mf_fresh s}" "i \<notin> fst ` set (mf_answers s)"
    and "\<forall>a \<in> snd ` set (mf_answers s). withheld a" "pairs_valid s" "tasks_good M s" "directory_ok s"
  shows "mcp_ok M t"
proof -
  have q: "quiet s t" using assms(1) by (simp add: takes_turn_def)
  have "directory_ok t" using directory_filter [OF assms(11)] q unfolding quiet_def by blast
  moreover have "pairs_valid t"
  proof -
    have "snd ` set (mf_pairings t) \<subseteq> snd ` set (mf_pairings s) \<union> {..<length (mf_consumers t)}" "length (mf_consumers s) \<le> length (mf_consumers t)"
      using q by (simp_all add: quiet_def keeps_all_def)
    then show ?thesis using assms(9) unfolding pairs_valid_def by fastforce
  qed
  moreover have "keeps_all s t" "mf_fresh t = mf_fresh s" using q by (simp_all add: quiet_def)
  ultimately show ?thesis
    using assms(1) unfolding takes_turn_def
  proof (elim conjE disjE exE)
    fix a
    assume a: "withheld a" "mf_tasks t = jm_delete i (mf_tasks s)" "mf_answers t = mf_answers s @ [(i, a)]"
    have "calls_counted t" using assms(3-7) \<open>mf_fresh t = mf_fresh s\<close> by (auto simp: calls_counted_def a keys_jm_delete distinct_delete)
    moreover have "tasks_good M t"
      using assms(10) task_good_keeps [OF _ \<open>keeps_all s t\<close>] by (auto simp: tasks_good_def a jm_get_delete split: if_splits)
    ultimately show "mcp_ok M t" using \<open>directory_ok t\<close> \<open>pairs_valid t\<close> a(1) assms(8) by (auto simp: mcp_ok_def a(3))
  next
    fix task
    assume task: "mf_tasks t = jm_set i task (mf_tasks s)" "mf_answers t = mf_answers s" "task_good M t task" "rank task < r"
    have "calls_counted t" using assms(3-7) \<open>mf_fresh t = mf_fresh s\<close> by (auto simp: calls_counted_def task(1,2) keys_jm_set distinct_update)
    moreover have "tasks_good M t"
      using assms(2,10) task(3,4) task_good_keeps [OF _ \<open>keeps_all s t\<close>] by (auto simp: tasks_good_def task(1) jm_get_set)
    ultimately show "mcp_ok M t" using \<open>directory_ok t\<close> \<open>pairs_valid t\<close> assms(8) by (auto simp: mcp_ok_def task(2))
  qed
qed

lemma ok_open_turn:
  assumes "mcp_ok M s" "jm_get (mf_tasks s) i = Some task" "takes_turn M P i r s t" "r \<le> 133"
  shows "mcp_ok M t"
proof -
  have i: "i \<in> fst ` set (mf_tasks s)" using jm_get_in [OF assms(2)] by (metis fst_conv image_eqI)
  have c: "distinct (map fst (mf_answers s))" "distinct (jm_keys (mf_tasks s))" "fst ` set (mf_answers s) \<inter> fst ` set (mf_tasks s) = {}"
      "fst ` set (mf_answers s) \<union> fst ` set (mf_tasks s) = {..<mf_fresh s}" using assms(1) by (simp_all add: mcp_ok_def calls_counted_def)
  have "insert i (fst ` set (mf_answers s) \<union> fst ` set (mf_tasks s)) = {..<mf_fresh s}" "i \<notin> fst ` set (mf_answers s)" using i c(3,4) by blast+
  then show ?thesis using assms(1) by (intro ok_turn [OF assms(3,4) c(1-3)]) (simp_all add: mcp_ok_def)
qed

subsection \<open>Steps\<close>

lemma keeps_clock: "keeps_all s (s\<lparr>mf_now := n, mf_consumers := map (\<lambda>c. c\<lparr>cs_now := n\<rparr>) (mf_consumers s)\<rparr>)"
proof -
  have "grows c (c\<lparr>cs_now := n\<rparr>)" for c :: "jstr consumer" by (rule grows_updates(8)) (rule grows_refl)
  then have "keeps_consumer c (c\<lparr>cs_now := n\<rparr>)" for c :: "jstr consumer" unfolding keeps_consumer_def by (simp only: held_updates) simp
  then show ?thesis by (simp add: keeps_all_def)
qed

lemma receive_fields:
  "mf_consumers (receive_ad a s) = mf_consumers s" "mf_tasks (receive_ad a s) = mf_tasks s" "mf_answers (receive_ad a s) = mf_answers s"
  "mf_fresh (receive_ad a s) = mf_fresh s" "mf_pairings (receive_ad a s) = mf_pairings s"
  by (simp_all add: receive_ad_def Let_def)

lemma directory_receive:
  assumes "directory_ok s"
  shows "directory_ok (receive_ad a s)"
proof -
  let ?s = "s\<lparr>mf_ads := filter (\<lambda>(k, old). unexpired s old) (mf_ads s)\<rparr>"
  have "directory_ok ?s" by (rule directory_filter [OF assms]) simp
  then have d: "distinct (jm_keys (mf_ads ?s))" "length (mf_ads ?s) \<le> 128" "\<forall>(k, b) \<in> set (mf_ads ?s). k = ad_key b \<and> ad_version b = 1"
    unfolding directory_ok_def by blast+
  have "directory_ok (?s\<lparr>mf_ads := jm_set (ad_key a) a (mf_ads ?s)\<rparr>)" if "length (mf_ads ?s) < 128 \<or> jm_get (mf_ads ?s) (ad_key a) \<noteq> None" "ad_version a = 1"
  proof -
    have "length (jm_set (ad_key a) a (mf_ads ?s)) \<le> 128"
    proof (cases "jm_get (mf_ads ?s) (ad_key a) = None")
      case True
      then show ?thesis using that by (simp add: jm_set_fresh)
    next
      case False
      then have "jm_keys (jm_set (ad_key a) a (mf_ads ?s)) = jm_keys (mf_ads ?s)" by (rule jm_set_present)
      then show ?thesis using d(2) by (metis length_map)
    qed
    then show ?thesis using d(1,3) that(2) by (auto simp: directory_ok_def distinct_update dest!: set_jm_set)
  qed
  then show ?thesis using assms \<open>directory_ok ?s\<close> by (auto simp: receive_ad_def Let_def)
qed

lemma keeps_settled:
  assumes "consumer_step C c l d" "l = ProofSettles n ok \<or> l = ReplyArrives n r"
  shows "keeps_consumer c d"
proof -
  have "held_call m c \<longrightarrow> held_call m d" for m
    using assms by (cases rule: consumer_step.cases) (auto simp: held_proofs held_replies)
  then show ?thesis using grows_step [OF assms(1)] by (simp add: keeps_consumer_def)
qed

lemma keeps_update: "keeps_consumer (mf_consumers s ! a) c \<Longrightarrow> a < length (mf_consumers s) \<Longrightarrow> keeps_all s (s\<lparr>mf_consumers := (mf_consumers s)[a := c]\<rparr>)"
  by (auto simp: keeps_all_def nth_list_update)

lemma keeps_disconnect: "keeps_consumer c (disconnect c)"
  using grows_step [OF step_disconnect] by (simp add: keeps_consumer_def)

lemma disconnect_fields: "cs_sent (disconnect c) = cs_sent c" "cs_disconnected (disconnect c)"
  by (simp_all add: disconnect_def Let_def split: option.split)

lemma fold_disconnect:
  "length (fold (\<lambda>a cs. cs[a := disconnect (cs ! a)]) as cs) = length cs
    \<and> (\<forall>b < length cs. keeps_consumer (cs ! b) (fold (\<lambda>a cs. cs[a := disconnect (cs ! a)]) as cs ! b)
         \<and> cs_sent (fold (\<lambda>a cs. cs[a := disconnect (cs ! a)]) as cs ! b) = cs_sent (cs ! b)
         \<and> (b \<in> set as \<longrightarrow> cs_disconnected (fold (\<lambda>a cs. cs[a := disconnect (cs ! a)]) as cs ! b)))"
proof (induction as arbitrary: cs)
  case (Cons a as)
  let ?cs = "cs[a := disconnect (cs ! a)]"
  have one: "keeps_consumer (cs ! b) (?cs ! b) \<and> cs_sent (?cs ! b) = cs_sent (cs ! b) \<and> (b = a \<longrightarrow> cs_disconnected (?cs ! b))" if "b < length cs" for b
    using that by (cases "a < length cs") (auto simp: nth_list_update keeps_disconnect disconnect_fields)
  have "cs_disconnected (fold (\<lambda>a cs. cs[a := disconnect (cs ! a)]) as ?cs ! b)" if "b < length cs" "cs_disconnected (?cs ! b)" for b
    using Cons.IH [of ?cs] that by (auto simp: keeps_consumer_def grows_def)
  with one Cons.IH [of ?cs] show ?case by (auto intro: keeps_consumer_trans)
qed simp

lemma ok_disconnect: "mcp_ok M s \<Longrightarrow> mcp_ok M (disconnect_paired s)"
proof (rule ok_frame [of M s])
  show "keeps_all s (disconnect_paired s)" using fold_disconnect [of "map snd (mf_pairings s)" "mf_consumers s"] by (simp add: keeps_all_def disconnect_paired_def)
qed (simp_all add: disconnect_paired_def directory_ok_def)

lemma turn_signed_settled:
  assumes "jm_get (mf_tasks s) i = Some (ProbesSigned ns x)" "task_good M s (ProbesSigned ns x)" "probes_settled M i ns x s = Some t"
  shows "takes_turn M no_resume i 4 s t"
proof -
  define rs where "rs = map (\<lambda>(ad, n). (ad, method_reply (sx_consumer x) n s)) ns"
  have those: "those (map (\<lambda>(ad, r). case r of Some (Gives g) \<Rightarrow> Some (ad, g) | _ \<Rightarrow> None) rs) = Some probes \<Longrightarrow> map fst probes = map fst rs" for probes rs
    by (induction rs arbitrary: probes) (auto split: option.splits consumer_reply.splits)
  have "map fst rs = map fst (sx_signed x)" using assms(2) by (simp add: rs_def comp_def case_prod_unfold)
  then have "takes_turn M no_resume i 4 s (signed_probed M i x probes s)"
    if "those (map (\<lambda>(ad, r). case r of Some (Gives g) \<Rightarrow> Some (ad, g) | _ \<Rightarrow> None) rs) = Some probes" for probes
    using those [OF that] assms(2) by (intro turn_signed_probed) simp_all
  then show ?thesis using assms(3) unfolding probes_settled_def Let_def rs_def [symmetric] by (auto simp: turn_answer split: if_splits)
qed

lemma ok_step:
  assumes "mcp_step M s l t" "mcp_ok M s"
  shows "mcp_ok M t"
  using assms
proof (cases rule: mcp_step.cases)
  case (mcp_call name args)
  let ?s = "s\<lparr>mf_fresh := mf_fresh s + 1\<rparr>"
  have ok: "calls_counted s" "\<forall>a \<in> snd ` set (mf_answers s). withheld a" "pairs_valid s" "tasks_good M s" "directory_ok s" using assms(2) by (simp_all add: mcp_ok_def)
  have "keeps_all s ?s" by (rule keeps_all_frame) simp
  then have "tasks_good M ?s" using tasks_keep [OF ok(4)] by simp
  moreover have "takes_turn M no_resume (mf_fresh s) 133 ?s t" unfolding mcp_call
    by (rule turn_call) (use ok in \<open>simp_all add: pairs_valid_def directory_ok_def\<close>)
  moreover have "insert (mf_fresh s) {..<mf_fresh s} = {..<mf_fresh s + 1}" by auto
  moreover have "mf_fresh s \<notin> fst ` set (mf_answers s)" using ok(1) unfolding calls_counted_def by blast
  ultimately show ?thesis using ok by (intro ok_turn [of M no_resume "mf_fresh s" 133 ?s t]) (simp_all add: calls_counted_def pairs_valid_def directory_ok_def)
next
  case (mcp_ad a)
  have "directory_ok (receive_ad a s)" using assms(2) by (simp add: mcp_ok_def directory_receive)
  then show ?thesis unfolding mcp_ad by (rule ok_frame [OF assms(2) keeps_all_frame, rotated -1]) (simp_all add: receive_fields)
next
  case (mcp_clock n)
  then have "keeps_all s t" using keeps_clock by simp
  moreover have "directory_ok t" by (rule directory_same [of s]) (use assms(2) in \<open>simp_all add: mcp_ok_def mcp_clock\<close>)
  ultimately show ?thesis by (intro ok_frame [OF assms(2)]) (simp_all add: mcp_clock)
next
  case mcp_drop
  then show ?thesis using ok_disconnect assms(2) by simp
next
  case (mcp_proof a n ok c)
  have "keeps_all s t" using mcp_proof keeps_update keeps_settled by blast
  moreover have "directory_ok t" by (rule directory_same [of s]) (use assms(2) in \<open>simp_all add: mcp_ok_def mcp_proof\<close>)
  ultimately show ?thesis by (intro ok_frame [OF assms(2)]) (simp_all add: mcp_proof)
next
  case (mcp_reply a n r c)
  have "keeps_all s t" using mcp_reply keeps_update keeps_settled by blast
  moreover have "directory_ok t" by (rule directory_same [of s]) (use assms(2) in \<open>simp_all add: mcp_ok_def mcp_reply\<close>)
  ultimately show ?thesis by (intro ok_frame [OF assms(2)]) (simp_all add: mcp_reply)
next
  case (mcp_on i task a n reply)
  then have task: "task_good M s task" "rank task < 133" using assms(2) by (auto simp: mcp_ok_def tasks_good_def)
  have "takes_turn M (allowed_task M s i) i (rank task) s t" unfolding mcp_on by (rule turn_go_on [OF task(1) mcp_on(3-5)])
  then show ?thesis by (rule ok_open_turn [OF assms(2) mcp_on(3) _ less_imp_le [OF task(2)]])
next
  case (mcp_all i ns x)
  then have task: "task_good M s (ProbesSigned ns x)" using assms(2) unfolding mcp_ok_def tasks_good_def by blast
  have "takes_turn M no_resume i 4 s t" by (rule turn_signed_settled [OF mcp_all(2) task mcp_all(3)])
  then show ?thesis by (rule ok_open_turn [OF assms(2) mcp_all(2)]) simp
qed

lemma keeps_step:
  assumes "mcp_step M s l t" "mcp_ok M s"
  shows "keeps_all s t"
  using assms
proof (cases rule: mcp_step.cases)
  case (mcp_call name args)
  let ?s = "s\<lparr>mf_fresh := mf_fresh s + 1\<rparr>"
  have "takes_turn M no_resume (mf_fresh s) 133 ?s t" unfolding mcp_call
    by (rule turn_call) (use assms(2) in \<open>simp_all add: mcp_ok_def pairs_valid_def directory_ok_def\<close>)
  then have "keeps_all ?s t" by (simp add: takes_turn_def quiet_def)
  then show ?thesis by (simp add: keeps_all_def)
next
  case (mcp_ad a)
  then show ?thesis by (simp add: keeps_all_frame receive_fields)
next
  case (mcp_clock n)
  then show ?thesis using keeps_clock by simp
next
  case mcp_drop
  then show ?thesis using fold_disconnect [of "map snd (mf_pairings s)" "mf_consumers s"] by (simp add: keeps_all_def disconnect_paired_def)
next
  case (mcp_proof a n ok c)
  then show ?thesis using keeps_update keeps_settled by blast
next
  case (mcp_reply a n r c)
  then show ?thesis using keeps_update keeps_settled by blast
next
  case (mcp_on i task a n reply)
  then have "task_good M s task" using assms(2) by (simp add: mcp_ok_def tasks_good_def)
  from turn_go_on [OF this mcp_on(3-5)] show ?thesis unfolding mcp_on by (simp add: takes_turn_def quiet_def)
next
  case (mcp_all i ns x)
  then have "task_good M s (ProbesSigned ns x)" using assms(2) unfolding mcp_ok_def tasks_good_def by blast
  from turn_signed_settled [OF mcp_all(2) this mcp_all(3)] show ?thesis by (simp add: takes_turn_def quiet_def)
qed

lemma run_keeps: "steps (mcp_step M) s ls t \<Longrightarrow> mcp_ok M s \<Longrightarrow> keeps_all s t \<and> mcp_ok M t"
proof (induction rule: steps.induct)
  case (steps_trans s l t ls u)
  have "mcp_ok M t" "keeps_all s t" using ok_step [OF steps_trans(1)] keeps_step [OF steps_trans(1)] steps_trans(4) by blast+
  then show ?case using steps_trans(3) keeps_all_trans by blast
qed (simp add: keeps_all_frame)

lemma new_ok: "mcp_ok M (new_mcp now)"
  by (simp add: new_mcp_def mcp_ok_def calls_counted_def pairs_valid_def tasks_good_def directory_ok_def)

lemma run_ok: "steps (mcp_step M) (new_mcp now) ls s \<Longrightarrow> mcp_ok M s"
  using steps_invariant [of "mcp_step M" "new_mcp now" ls s "mcp_ok M"] new_ok ok_step by blast

subsection \<open>Fingerprints\<close>

lemma plain_print: "json_plain (snd (print_ad a))"
  by (auto simp: print_ad_def)

lemma fingerprint_same:
  assumes "fingerprint M xs = fingerprint M ys"
  shows "snd ` print_ad ` set xs = snd ` print_ad ` set ys"
proof -
  let ?sorted = "\<lambda>ads. js_sort (\<lambda>x y. mc_collate M (fst x) (fst y)) (map print_ad ads)"
  have "json_plain (JArr (map snd (?sorted ads)))" for ads using plain_print by auto
  then have "json_parse (fingerprint M ads) = Some (JArr (map snd (?sorted ads)))" for ads unfolding fingerprint_def by (rule json_parse_stringify)
  from this [of xs] this [of ys] assms have "map snd (?sorted xs) = map snd (?sorted ys)" by simp
  from arg_cong [OF this, of set] show ?thesis by simp
qed

lemma ad_key_inject:
  assumes "ad_key a = ad_key b"
  shows "ad_identity a = ad_identity b"
proof -
  have "json_plain (identity_json i)" for i by (auto simp: identity_json_def jlit_eq_iff)
  then have "json_parse (ad_key c) = Some (identity_json (ad_identity c))" for c unfolding ad_key_def by (rule json_parse_stringify)
  from this [of a] this [of b] assms show ?thesis by (cases "ad_identity a"; cases "ad_identity b") (simp add: identity_json_def)
qed

lemma print_inject:
  assumes "snd (print_ad a) = snd (print_ad b)"
  shows "ad_identity a = ad_identity b \<and> ad_share a = ad_share b \<and> ad_capabilities a = ad_capabilities b"
proof -
  have "map (\<lambda>b. json_int (uint b)) xs = map (\<lambda>b. json_int (uint b)) ys \<Longrightarrow> xs = ys" for xs ys :: bytes
    by (erule map_injective) (auto intro!: injI simp: word_uint_eq_iff)
  moreover have "ad_key a = ad_key b" "ad_share a = ad_share b" "map (\<lambda>b. json_int (uint b)) (ad_capabilities a) = map (\<lambda>b. json_int (uint b)) (ad_capabilities b)"
    using assms by (simp_all add: print_ad_def)
  ultimately show ?thesis using ad_key_inject by blast
qed

text \<open>One advertisement with malformed capabilities makes the listing of all sessions throw.\<close>

lemma malformed_ad_breaks_listing:
  assumes "a \<in> set (ad_values s)" "unexpired s a" "read_capabilities a = None"
  shows "list_sessions s = None"
proof -
  have "those xs = None" if "None \<in> set xs" for xs :: "session_entry option list"
    using that by (induction xs) (auto split: option.split)
  moreover have "None \<in> set (map list_entry (filter (unexpired s) (ad_values s)))" using assms by (force simp: list_entry_def)
  ultimately show ?thesis by (simp add: list_sessions_def)
qed

end
