(* ===== verification/Mcp_Guarantees.thy ===== *)
theory Mcp_Guarantees
  imports Mcp_Safety
begin

text \<open>
  What the MCP facade guarantees in every state it reaches: every call is answered once and none is
  stuck, no answer discloses a resume secret, a grant moves to a new generation only while the
  directory is as it was examined, and what a lost connection revoked stays revoked.
\<close>

subsection \<open>A sample run\<close>

text \<open>
  A user pairs with generation \<open>g1\<close>, is granted, and reads the state after \<open>g2\<close> was advertised. The
  grant has no resume authority, so the consumer refuses to probe and the resume, without sending.
\<close>

definition sample_mcp :: mcp_config where
  "sample_mcp = \<lparr>mc_consumer = \<lparr>cc_consumer = jlit ''C'', cc_hmac = (\<lambda>k m. m), cc_number = (\<lambda>l. 0)\<rparr>, mc_collate = (\<lambda>x y. 0),
     mc_uuid = (\<lambda>n. replicate n 0), mc_integer = (\<lambda>l. None)\<rparr>"

abbreviation "SC \<equiv> mc_consumer sample_mcp"

definition sample_ad :: "string \<Rightarrow> advertisement" where
  "sample_ad g = \<lparr>ad_version = 1, ad_identity = \<lparr>ai_application = jlit ''app'', ai_workspace = jlit ''w'', ai_supplier = jlit ''A'', ai_generation = jlit g\<rparr>,
     ad_share = jlit g, ad_label = [], ad_capabilities = json_bytes (JObj []), ad_expires = 9\<rparr>"

definition sample_reply :: "string \<Rightarrow> assistance_result" where
  "sample_reply st = (assist_result st (JObj []))\<lparr>ar_token := Some (jlit ''t'')\<rparr>"

definition cons1 :: "jstr consumer" where
  "cons1 = consumer_offer SC 0 ((new_consumer (ad_identity (sample_ad ''g1'')) (jlit ''g1'') 0)\<lparr>cs_fresh := 1\<rparr>)"

definition cons2 :: "jstr consumer" where
  "cons2 = request_settles 0 PlainRequest None (Some (sample_reply ''pending'')) cons1"

definition cons3 :: "jstr consumer" where
  "cons3 = consumer_status SC 1 (jlit ''t'') (cons2\<lparr>cs_fresh := 2\<rparr>)"

definition cons4 :: "jstr consumer" where
  "cons4 = request_settles 1 StatusRequest (Some (jlit ''t'')) (Some (sample_reply ''accepted'')) cons3"

definition cons5 :: "jstr consumer" where
  "cons5 = probe_resume SC 3 (ad_identity (sample_ad ''g2'')) (jlit ''g2'') [] (cons4\<lparr>cs_fresh := 4\<rparr>)"

definition cons6 :: "jstr consumer" where
  "cons6 = consumer_read SC 4 (cons5\<lparr>cs_fresh := 5\<rparr>)"

definition cons7 :: "jstr consumer" where
  "cons7 = request_settles 4 PlainRequest (Some (jlit ''t'')) (Some (sample_reply ''unavailable'')) cons6"

definition cons8 :: "jstr consumer" where
  "cons8 = consumer_resume SC 5 (ad_identity (sample_ad ''g2'')) (jlit ''g2'') [0] (cons7\<lparr>cs_fresh := 6\<rparr>)"

lemmas cons_eval = request_def request_settles_def ended_at_def grant_token_def waits_def send_def conclude_def answers_def adopt_def

lemma cons1: "cs_tasks cons1 = [(0, Requesting PlainRequest None)]" "cs_fresh cons1 = 1" "cs_grant cons1 = None" "cs_ended cons1 = []" "\<not> cs_disconnected cons1"
    "cs_replies cons1 = []" "cs_now cons1 = 0" "cs_identity cons1 = ad_identity (sample_ad ''g1'')"
  by (simp_all add: cons1_def consumer_offer_def cons_eval new_consumer_def)

lemma sample_reply: "ar_status (sample_reply st) = jlit st" "ar_token (sample_reply st) = Some (jlit ''t'')" "result_value (sample_reply st) = Some (JObj [])"
  using json_bytes_back [of "JObj []"] by (simp_all add: sample_reply_def assist_result_def result_value_def)

lemma cons2: "cs_tasks cons2 = []" "cs_fresh cons2 = 1" "cs_grant cons2 = None" "cs_ended cons2 = []" "\<not> cs_disconnected cons2"
    "cs_replies cons2 = [(0, Gives (sample_reply ''pending''))]" "cs_now cons2 = 0" "cs_identity cons2 = ad_identity (sample_ad ''g1'')"
  using cons1 by (simp_all add: cons2_def cons_eval)

lemma cons3: "cs_tasks cons3 = [(1, Requesting StatusRequest (Some (jlit ''t'')))]" "cs_fresh cons3 = 2" "cs_grant cons3 = None" "cs_ended cons3 = []"
    "\<not> cs_disconnected cons3" "cs_replies cons3 = cs_replies cons2" "cs_now cons3 = 0" "cs_identity cons3 = ad_identity (sample_ad ''g1'')"
  using cons2 by (simp_all add: cons3_def consumer_status_def cons_eval)

lemma cons4: "cs_tasks cons4 = []" "cs_fresh cons4 = 3" "cs_grant cons4 = Some (2, sample_reply ''accepted'')" "cs_ended cons4 = []"
    "\<not> cs_disconnected cons4" "cs_now cons4 = 0" "cs_identity cons4 = ad_identity (sample_ad ''g1'')"
    "cs_replies cons4 = cs_replies cons2 @ [(1, Gives (sample_reply ''accepted''))]"
  using cons3 by (simp_all add: cons4_def cons_eval sample_reply)

lemma cons5: "cs_tasks cons5 = []" "cs_fresh cons5 = 4" "cs_grant cons5 = Some (2, sample_reply ''accepted'')" "cs_ended cons5 = []"
    "\<not> cs_disconnected cons5" "cs_now cons5 = 0" "cs_identity cons5 = ad_identity (sample_ad ''g1'')"
    "cs_replies cons5 = cs_replies cons4 @ [(3, Gives (assist_result ''refused'' JNull))]"
  using cons4 by (simp_all add: cons5_def probe_resume_def grant_authority_def refuses_def answers_def sample_reply)

lemma cons6: "cs_tasks cons6 = [(4, Requesting PlainRequest (Some (jlit ''t'')))]" "cs_fresh cons6 = 5" "cs_ended cons6 = []"
    "\<not> cs_disconnected cons6" "cs_now cons6 = 0" "cs_identity cons6 = ad_identity (sample_ad ''g1'')" "cs_replies cons6 = cs_replies cons5"
  using cons5 by (simp_all add: cons6_def consumer_read_def cons_eval sample_reply)

lemma cons7: "cs_fresh cons7 = 5" "cs_now cons7 = 0" "cs_identity cons7 = ad_identity (sample_ad ''g1'')"
    "cs_replies cons7 = cs_replies cons5 @ [(4, Gives (sample_reply ''unavailable''))]"
  using cons6 by (simp_all add: cons7_def cons_eval sample_reply)

text \<open>The states of the facade: the pairing, its grant, the new advertisement, and the call that reads.\<close>

definition facade1 :: mcp where
  "facade1 = (new_mcp 0)\<lparr>mf_ads := [(ad_key (sample_ad ''g1''), sample_ad ''g1'')]\<rparr>"

definition facade2 :: mcp where
  "facade2 = facade1\<lparr>mf_consumers := [cons1], mf_tasks := [(0, Offering 0 0)], mf_fresh := 1\<rparr>"

definition facade3 :: mcp where
  "facade3 = facade2\<lparr>mf_consumers := [cons2]\<rparr>"

definition facade4 :: mcp where
  "facade4 = facade3\<lparr>mf_pairings := [(jlit ''t'', 0)], mf_tasks := [], mf_answers := [(0, serializable (sample_reply ''pending''))]\<rparr>"

definition facade5 :: mcp where
  "facade5 = facade4\<lparr>mf_consumers := [cons3], mf_tasks := [(1, Passing 0 1)], mf_fresh := 2\<rparr>"

definition facade6 :: mcp where
  "facade6 = facade5\<lparr>mf_consumers := [cons4]\<rparr>"

definition facade7 :: mcp where
  "facade7 = facade6\<lparr>mf_ads := [(ad_key (sample_ad ''g1''), sample_ad ''g1''), (ad_key (sample_ad ''g2''), sample_ad ''g2'')]\<rparr>"

definition token_args :: json where
  "token_args = object [(''token'', JStr (jlit ''t''))]"

definition sample_scan :: "advertisement list \<Rightarrow> scan_state" where
  "sample_scan legacy = \<lparr>sx_consumer = 0, sx_name = jlit ''readState'', sx_args = token_args, sx_token = jlit ''t'', sx_candidates = [sample_ad ''g2''],
     sx_initial = fingerprint sample_mcp [sample_ad ''g2''], sx_rest = [], sx_signed = [], sx_legacy = legacy\<rparr>"

definition facade8 :: mcp where
  "facade8 = facade7\<lparr>mf_consumers := [cons5], mf_tasks := [(1, Passing 0 1), (2, ProbesLegacy 3 (sample_ad ''g2'') (sample_scan []))], mf_fresh := 3, mf_uuids := 1\<rparr>"

definition facade9 :: mcp where
  "facade9 = facade8\<lparr>mf_consumers := [cons6], mf_tasks := [(1, Passing 0 1), (2, ReadsCurrent 4 (sample_ad ''g2'') (sample_scan [sample_ad ''g2'']))]\<rparr>"

definition facade10 :: mcp where
  "facade10 = facade9\<lparr>mf_consumers := [cons7]\<rparr>"

definition facade11 :: mcp where
  "facade11 = facade10\<lparr>mf_consumers := [cons8], mf_tasks := [(1, Passing 0 1), (2, Resuming 5 (sample_ad ''g2'') (sample_scan [sample_ad ''g2'']))], mf_uuids := 2\<rparr>"

lemma sample_ad: "ad_version (sample_ad g) = 1" "ad_expires (sample_ad g) = 9" "ad_share (sample_ad g) = jlit g"
    "read_capabilities (sample_ad g) = Some (JObj [])" "ad_identity (sample_ad ''g1'') \<noteq> ad_identity (sample_ad ''g2'')"
  using json_bytes_back [of "JObj []"] by (simp_all add: sample_ad_def read_capabilities_def from_utf8_def)

lemma sample_keys: "ad_key (sample_ad ''g1'') \<noteq> ad_key (sample_ad ''g2'')"
  using ad_key_inject sample_ad(5) by blast

lemma tool_step: "mf_fresh s = n \<Longrightarrow> call_tool M n name args (s\<lparr>mf_fresh := n + 1\<rparr>) = t \<Longrightarrow> mcp_step M s (ToolCalled name args) t"
  using mcp_call [of M s name args] by simp

lemma facade_steps1:
  "mcp_step sample_mcp (new_mcp 0) (AdArrives (sample_ad ''g1'')) facade1"
  "mcp_step sample_mcp facade1 (ToolCalled (jlit ''requestPairing'') (object [(''sessionKey'', JStr (ad_key (sample_ad ''g1'')))])) facade2"
  "mcp_step sample_mcp facade2 (ConsumerAnswered 0 0 (Some (sample_reply ''pending''))) facade3"
  "mcp_step sample_mcp facade3 (CallGoesOn 0) facade4"
proof -
  show "mcp_step sample_mcp (new_mcp 0) (AdArrives (sample_ad ''g1'')) facade1"
    using mcp_ad [of sample_mcp "new_mcp 0" "sample_ad ''g1''"] by (simp add: facade1_def receive_ad_def new_mcp_def unexpired_def sample_ad)
  have "call_tool sample_mcp 0 (jlit ''requestPairing'') (object [(''sessionKey'', JStr (ad_key (sample_ad ''g1'')))]) (facade1\<lparr>mf_fresh := 1\<rparr>) = facade2"
    by (simp add: call_tool_def request_pairing_def facade2_def facade1_def new_mcp_def unexpired_def sample_ad ask_def wait_call_def cons1_def
        new_consumer_def Let_def)
  then show "mcp_step sample_mcp facade1 (ToolCalled (jlit ''requestPairing'') (object [(''sessionKey'', JStr (ad_key (sample_ad ''g1'')))])) facade2"
    by (intro tool_step [of _ 0]) (simp_all add: facade1_def new_mcp_def)
  have "consumer_step SC cons1 (ReplyArrives 0 (Some (sample_reply ''pending''))) cons2"
    using step_reply [of cons1 0 "Requesting PlainRequest None"] by (simp add: cons1 cons2_def)
  then show "mcp_step sample_mcp facade2 (ConsumerAnswered 0 0 (Some (sample_reply ''pending''))) facade3"
    using mcp_reply [of 0 facade2 sample_mcp] by (simp add: facade2_def facade3_def)
  show "mcp_step sample_mcp facade3 (CallGoesOn 0) facade4"
    using mcp_on [of facade3 0 "Offering 0 0" 0 0 "Gives (sample_reply ''pending'')" sample_mcp]
    by (simp add: facade3_def facade2_def method_reply_def cons2 go_on_def with_result_def offered_def sample_reply answer_call_def facade4_def facade1_def new_mcp_def)
qed

lemma facade_steps2:
  "mcp_step sample_mcp facade4 (ToolCalled (jlit ''pairingStatus'') token_args) facade5"
  "mcp_step sample_mcp facade5 (ConsumerAnswered 0 1 (Some (sample_reply ''accepted''))) facade6"
  "mcp_step sample_mcp facade6 (AdArrives (sample_ad ''g2'')) facade7"
proof -
  have f4: "mf_fresh facade4 = 1" "mf_consumers facade4 = [cons2]" "mf_pairings facade4 = [(jlit ''t'', 0)]" "mf_tasks facade4 = []"
    by (simp_all add: facade4_def facade3_def facade2_def)
  have "call_tool sample_mcp 1 (jlit ''pairingStatus'') token_args (facade4\<lparr>mf_fresh := 2\<rparr>) = facade5"
    using f4 by (simp add: call_tool_def token_args_def dispatch_def ask_pass_def ask_def wait_call_def Let_def grant_token_def cons2 facade5_def cons3_def numeral_2_eq_2)
  then show "mcp_step sample_mcp facade4 (ToolCalled (jlit ''pairingStatus'') token_args) facade5"
    by (intro tool_step [of _ 1]) (simp_all add: f4 numeral_2_eq_2)
  have "consumer_step SC cons3 (ReplyArrives 1 (Some (sample_reply ''accepted''))) cons4"
    using step_reply [of cons3 1 "Requesting StatusRequest (Some (jlit ''t''))"] by (simp add: cons3 cons4_def)
  then show "mcp_step sample_mcp facade5 (ConsumerAnswered 0 1 (Some (sample_reply ''accepted''))) facade6"
    using mcp_reply [of 0 facade5 sample_mcp] by (simp add: facade5_def facade6_def)
  have "mf_ads facade6 = [(ad_key (sample_ad ''g1''), sample_ad ''g1'')]" "mf_now facade6 = 0"
    by (simp_all add: facade6_def facade5_def facade4_def facade3_def facade2_def facade1_def new_mcp_def)
  then have "receive_ad (sample_ad ''g2'') facade6 = facade7" using sample_keys by (simp add: receive_ad_def unexpired_def sample_ad facade7_def)
  then show "mcp_step sample_mcp facade6 (AdArrives (sample_ad ''g2'')) facade7" using mcp_ad [of sample_mcp facade6 "sample_ad ''g2''"] by simp
qed

lemma facade7: "mf_fresh facade7 = 2" "mf_consumers facade7 = [cons4]" "mf_pairings facade7 = [(jlit ''t'', 0)]" "mf_tasks facade7 = [(1, Passing 0 1)]"
    "mf_ads facade7 = [(ad_key (sample_ad ''g1''), sample_ad ''g1''), (ad_key (sample_ad ''g2''), sample_ad ''g2'')]" "mf_now facade7 = 0" "mf_uuids facade7 = 0"
  by (simp_all add: facade7_def facade6_def facade5_def facade4_def facade3_def facade2_def facade1_def new_mcp_def)

text \<open>The candidates are the same whenever the directory and the consumer's identity are.\<close>

lemma sample_candidates:
  assumes "mf_ads s = mf_ads facade7" "mf_now s = 0" "cs_identity (mf_consumers s ! 0) = ad_identity (sample_ad ''g1'')"
  shows "candidates_of 0 s = [sample_ad ''g2'']"
  using assms by (simp add: candidates_of_def ad_values_def facade7 unexpired_def sample_ad candidate_for_def) (simp add: sample_ad_def)

lemma facade_steps3:
  "mcp_step sample_mcp facade7 (ToolCalled (jlit ''readState'') token_args) facade8"
  "mcp_step sample_mcp facade8 (CallGoesOn 2) facade9"
  "mcp_step sample_mcp facade9 (ConsumerAnswered 0 4 (Some (sample_reply ''unavailable''))) facade10"
  "mcp_step sample_mcp facade10 (CallGoesOn 2) facade11"
proof -
  have "candidates_of 0 (facade7\<lparr>mf_fresh := 3\<rparr>) = [sample_ad ''g2'']" by (rule sample_candidates) (simp_all add: facade7 cons4)
  then have "call_tool sample_mcp 2 (jlit ''readState'') token_args (facade7\<lparr>mf_fresh := 3\<rparr>) = facade8"
    by (simp add: call_tool_def token_args_def begin_scan_def Let_def facade7 cons4 sample_ad ask_probe_def next_uuid_def ask_def wait_call_def
        facade8_def sample_scan_def cons5_def sample_mcp_def)
  then show "mcp_step sample_mcp facade7 (ToolCalled (jlit ''readState'') token_args) facade8" by (intro tool_step [of _ 2]) (simp_all add: facade7)
  have f8: "mf_consumers facade8 = [cons5]" "mf_tasks facade8 = [(1, Passing 0 1), (2, ProbesLegacy 3 (sample_ad ''g2'') (sample_scan []))]"
      "mf_ads facade8 = mf_ads facade7" "mf_now facade8 = 0"
    by (simp_all add: facade8_def facade7)
  have "candidates_of 0 facade8 = [sample_ad ''g2'']" by (rule sample_candidates) (simp_all add: f8 cons5)
  then have "legacy_probed sample_mcp 2 (sample_ad ''g2'') (sample_scan []) (assist_result ''refused'' JNull) facade8 = facade9"
    by (simp add: legacy_probed_def sample_scan_def scan_done_def ads_changed_def highest_def chosen_def ask_def f8 wait_call_def facade9_def cons5 cons6_def Let_def)
  moreover have "method_reply 0 3 facade8 = Some (Gives (assist_result ''refused'' JNull))" by (simp add: method_reply_def f8 cons5 cons4 cons2)
  ultimately show "mcp_step sample_mcp facade8 (CallGoesOn 2) facade9"
    using mcp_on [of facade8 2 "ProbesLegacy 3 (sample_ad ''g2'') (sample_scan [])" 0 3 _ sample_mcp] f8(2)
    by (force simp: go_on_def with_result_def sample_scan_def)
  have f9: "mf_consumers facade9 = [cons6]" by (simp add: facade9_def)
  have "consumer_step SC cons6 (ReplyArrives 4 (Some (sample_reply ''unavailable''))) cons7"
    using step_reply [of cons6 4 "Requesting PlainRequest (Some (jlit ''t''))"] by (simp add: cons6 cons7_def)
  then show "mcp_step sample_mcp facade9 (ConsumerAnswered 0 4 (Some (sample_reply ''unavailable''))) facade10"
    using mcp_reply [of 0 facade9 sample_mcp] f9 by (simp add: facade10_def)
  have f10: "mf_consumers facade10 = [cons7]" "mf_tasks facade10 = [(1, Passing 0 1), (2, ReadsCurrent 4 (sample_ad ''g2'') (sample_scan [sample_ad ''g2'']))]"
      "mf_ads facade10 = mf_ads facade7" "mf_now facade10 = 0" "mf_uuids facade10 = 1"
    by (simp_all add: facade10_def facade9_def facade8_def facade7)
  have "candidates_of 0 facade10 = [sample_ad ''g2'']" by (rule sample_candidates) (simp_all add: f10 cons7)
  then have "current_read sample_mcp 2 (sample_ad ''g2'') (sample_scan [sample_ad ''g2'']) (sample_reply ''unavailable'') facade10 = facade11"
    by (simp add: current_read_def sample_reply sample_scan_def ads_changed_def unexpired_def f10 sample_ad next_uuid_def ask_def wait_call_def facade11_def cons7 cons8_def
        sample_mcp_def)
  moreover have "method_reply 0 4 facade10 = Some (Gives (sample_reply ''unavailable''))" by (simp add: method_reply_def f10 cons7 cons5 cons4 cons2)
  ultimately show "mcp_step sample_mcp facade10 (CallGoesOn 2) facade11"
    using mcp_on [of facade10 2 "ReadsCurrent 4 (sample_ad ''g2'') (sample_scan [sample_ad ''g2''])" 0 4 _ sample_mcp] f10(2)
    by (force simp: go_on_def with_result_def sample_scan_def)
qed

definition sample_labels :: "mcp_label list" where
  "sample_labels = [AdArrives (sample_ad ''g1''), ToolCalled (jlit ''requestPairing'') (object [(''sessionKey'', JStr (ad_key (sample_ad ''g1'')))]),
     ConsumerAnswered 0 0 (Some (sample_reply ''pending'')), CallGoesOn 0, ToolCalled (jlit ''pairingStatus'') token_args,
     ConsumerAnswered 0 1 (Some (sample_reply ''accepted'')), AdArrives (sample_ad ''g2''), ToolCalled (jlit ''readState'') token_args, CallGoesOn 2,
     ConsumerAnswered 0 4 (Some (sample_reply ''unavailable''))]"

lemma facade_sample_run: "steps (mcp_step sample_mcp) (new_mcp 0) sample_labels facade10"
  unfolding sample_labels_def by (rule steps_trans facade_steps1 facade_steps2 facade_steps3 steps_refl)+

subsection \<open>Answers\<close>

text \<open>C23. Every tool call is answered exactly once or still waits, whatever the directory, the clock, the
  connection and the consumers do: the calls are numbered from 0, and each number has one answer or
  one task. No answer's payload has the members \<open>resume\<close> and \<open>proof\<close>, which hold the secret that
  a resume is authenticated with. The directory never holds more than 128 advertisements.\<close>

theorem mcp_answers_once:
  assumes "steps (mcp_step M) (new_mcp now) ls s"
  shows "distinct (map fst (mf_answers s) @ jm_keys (mf_tasks s)) \<and> set (map fst (mf_answers s) @ jm_keys (mf_tasks s)) = {..<mf_fresh s}
    \<and> (\<forall>(i, a) \<in> set (mf_answers s). case answer_json a of None \<Rightarrow> True
         | Some out \<Rightarrow> (case member ''payload'' out of None \<Rightarrow> True | Some p \<Rightarrow> member ''resume'' p = None \<and> member ''proof'' p = None))
    \<and> length (mf_ads s) \<le> 128"
proof -
  note ok = run_ok [OF assms]
  have "withheld a \<Longrightarrow> case answer_json a of None \<Rightarrow> True
      | Some out \<Rightarrow> (case member ''payload'' out of None \<Rightarrow> True | Some p \<Rightarrow> member ''resume'' p = None \<and> member ''proof'' p = None)" for a
    by (cases a) (auto simp: answer_json_def withheld_def jlit_eq_iff)
  then show ?thesis using ok by (force simp: mcp_ok_def calls_counted_def directory_ok_def)
qed

lemma mcp_answers_once_witness:
  "distinct (map fst (mf_answers facade10) @ jm_keys (mf_tasks facade10)) \<and> length (mf_ads facade10) \<le> 128"
  using mcp_answers_once [OF facade_sample_run] by blast

subsection \<open>Resumes\<close>

text \<open>The resumes start in no other way than after the checks.\<close>

lemma resume_starts:
  assumes "mcp_ok M s" "mcp_step M s l t" "jm_get (mf_tasks t) i = Some (Resuming n ad x)" "jm_get (mf_tasks s) i \<noteq> Some (Resuming n ad x)"
  shows "resume_allowed M s i ad x"
proof -
  have turn: "resume_allowed M s i ad x" if "takes_turn M (allowed_task M s j) j r s' t" "mf_tasks s' = mf_tasks s" for j r s'
    using that assms(3,4) unfolding takes_turn_def allowed_task_def by (auto simp: jm_get_set jm_get_delete split: if_splits)
  have ok: "pairs_valid s" "tasks_good M s" "directory_ok s" using assms(1) by (simp_all add: mcp_ok_def)
  from assms(2) show ?thesis
  proof (cases rule: mcp_step.cases)
    case (mcp_call name args)
    let ?s = "s\<lparr>mf_fresh := mf_fresh s + 1\<rparr>"
    have "takes_turn M no_resume (mf_fresh s) 133 ?s t" unfolding mcp_call
      by (rule turn_call) (use ok in \<open>simp_all add: pairs_valid_def directory_ok_def\<close>)
    then have "takes_turn M (allowed_task M s (mf_fresh s)) (mf_fresh s) 133 ?s t" by (rule turn_more) (auto intro: no_resume_allowed)
    then show ?thesis by (rule turn) simp
  next
    case (mcp_on j task a m reply)
    then have "task_good M s task" using ok(2) by (simp add: tasks_good_def)
    then have "takes_turn M (allowed_task M s j) j (rank task) s t" unfolding mcp_on by (rule turn_go_on [OF _ mcp_on(3-5)])
    then show ?thesis by (rule turn) simp
  next
    case (mcp_all j ns y)
    then have "task_good M s (ProbesSigned ns y)" using ok(2) unfolding tasks_good_def by blast
    then have "takes_turn M no_resume j 4 s t" by (rule turn_signed_settled [OF mcp_all(2) _ mcp_all(3)])
    then have "takes_turn M (allowed_task M s j) j 4 s t" by (rule turn_more) (auto intro: no_resume_allowed)
    then show ?thesis by (rule turn) simp
  qed (use assms(3,4) in \<open>simp_all add: receive_fields disconnect_paired_def\<close>)
qed

text \<open>C17. A pairing moves to a new generation only on what was examined. Whenever a tool call asks a
  consumer to resume at an advertisement, the advertisement is unexpired, belongs to another
  generation of the consumer's own supplier, and was among the candidates that the call examined;
  the current candidates have the same identities, shares and capabilities as the examined ones, in
  spite of everything that happened while the call waited; the choice was the only unsigned
  candidate that answered, with no signed one, or one whose lineage was verified; and the call has
  just read the current supplier, which did not answer with an observation, nor with an unknown
  outcome other than the absence of a provider.\<close>

theorem mcp_resume_examined:
  assumes "steps (mcp_step M) (new_mcp now) ls s" "mcp_step M s l t"
    and "jm_get (mf_tasks t) i = Some (Resuming n ad x)" "jm_get (mf_tasks s) i \<noteq> Some (Resuming n ad x)"
  shows "mf_now s < ad_expires ad \<and> candidate_for (cs_identity (mf_consumers s ! sx_consumer x)) ad \<and> ad \<in> set (sx_candidates x)
    \<and> (\<lambda>a. (ad_identity a, ad_share a, ad_capabilities a)) ` set (candidates_of (sx_consumer x) s)
        = (\<lambda>a. (ad_identity a, ad_share a, ad_capabilities a)) ` set (sx_candidates x)
    \<and> (sx_signed x = [] \<and> sx_legacy x = [ad] \<or> ad \<in> fst ` set (sx_signed x))
    \<and> (\<exists>m g. jm_get (mf_tasks s) i = Some (ReadsCurrent m ad x) \<and> method_reply (sx_consumer x) m s = Some (Gives g)
          \<and> ar_status g \<noteq> jlit ''observed'' \<and> (ar_status g = jlit ''unknown'' \<longrightarrow> no_provider (ar_reason g)))"
proof -
  let ?own = "cs_identity (mf_consumers s ! sx_consumer x)" and ?pub = "\<lambda>a. (ad_identity a, ad_share a, ad_capabilities a)"
  have allowed: "resume_allowed M s i ad x" by (rule resume_starts [OF run_ok [OF assms(1)] assms(2-4)])
  then have good: "scan_good M s x" "choice x ad" "\<not> ads_changed M x s" "unexpired s ad" by (simp_all add: resume_allowed_def)
  then have "fingerprint M (sx_candidates x) = fingerprint M (candidates_of (sx_consumer x) s)" by (simp add: scan_good_def ads_changed_def)
  from fingerprint_same [OF this] have prints: "snd ` print_ad ` set (sx_candidates x) = snd ` print_ad ` set (candidates_of (sx_consumer x) s)" .
  have sub: "?pub ` A \<subseteq> ?pub ` B" if eq: "snd ` print_ad ` A = snd ` print_ad ` B" for A B
  proof
    fix p
    assume "p \<in> ?pub ` A"
    then obtain a where a: "a \<in> A" "p = ?pub a" by blast
    then have "snd (print_ad a) \<in> snd ` print_ad ` B" using eq by blast
    then obtain b where "b \<in> B" "snd (print_ad a) = snd (print_ad b)" by auto
    then show "p \<in> ?pub ` B" using print_inject [of a b] a(2) by (intro image_eqI [of _ _ b]) simp_all
  qed
  have same: "?pub ` set (candidates_of (sx_consumer x) s) = ?pub ` set (sx_candidates x)" by (intro subset_antisym sub) (simp_all only: prints)
  have mem: "ad \<in> set (sx_candidates x)" using good(1,2) by (auto simp: scan_good_def choice_def)
  then have "?pub ad \<in> ?pub ` set (candidates_of (sx_consumer x) s)" unfolding same by (rule imageI)
  then obtain b where "b \<in> set (candidates_of (sx_consumer x) s)" "ad_identity b = ad_identity ad" by auto
  then have "candidate_for ?own ad" by (simp add: candidates_of_def candidate_for_def)
  with same mem allowed good show ?thesis by (auto simp: resume_allowed_def unexpired_def choice_def)
qed

lemma mcp_resume_examined_witness:
  "candidate_for (cs_identity (mf_consumers facade10 ! 0)) (sample_ad ''g2'') \<and> sample_ad ''g2'' \<in> set (sx_candidates (sample_scan [sample_ad ''g2'']))"
proof -
  have 1: "jm_get (mf_tasks facade11) 2 = Some (Resuming 5 (sample_ad ''g2'') (sample_scan [sample_ad ''g2'']))" by (simp add: facade11_def)
  have 2: "jm_get (mf_tasks facade10) 2 \<noteq> Some (Resuming 5 (sample_ad ''g2'') (sample_scan [sample_ad ''g2'']))" by (simp add: facade10_def facade9_def)
  have 3: "sx_consumer (sample_scan [sample_ad ''g2'']) = 0" by (simp add: sample_scan_def)
  show ?thesis using mcp_resume_examined [OF facade_sample_run facade_steps3(4) 1 2, unfolded 3] by blast
qed

subsection \<open>A lost connection\<close>

text \<open>C24. What a lost connection revokes stays revoked: once the connection has dropped, or the facade
  was closed, no consumer of a pairing that existed then sends an offer, a status request, a read
  or an invocation again, whichever tools are called and whatever was in flight.\<close>

theorem mcp_drop_final:
  assumes "steps (mcp_step M) (new_mcp now) ls s" "steps (mcp_step M) (disconnect_paired s) ms t" "a \<in> snd ` set (mf_pairings s)"
  shows "\<exists>new. cs_sent (mf_consumers t ! a) = cs_sent (mf_consumers s ! a) @ new \<and> (\<forall>(i, route, q) \<in> set new. \<not> uses_pairing q)"
proof -
  have ok: "mcp_ok M s" by (rule run_ok [OF assms(1)])
  then have a: "a < length (mf_consumers s)" using assms(3) by (auto simp: mcp_ok_def pairs_valid_def)
  let ?d = "disconnect_paired s"
  have d: "length (mf_consumers ?d) = length (mf_consumers s)" "cs_sent (mf_consumers ?d ! a) = cs_sent (mf_consumers s ! a)" "cs_disconnected (mf_consumers ?d ! a)"
    using fold_disconnect [of "map snd (mf_pairings s)" "mf_consumers s"] a assms(3) by (simp_all add: disconnect_paired_def)
  have "keeps_all ?d t \<and> mcp_ok M t" using assms(2) ok_disconnect [OF ok] run_keeps by blast
  then have "grows (mf_consumers ?d ! a) (mf_consumers t ! a)" using a d(1) by (simp add: keeps_all_def keeps_consumer_def)
  then obtain new where "cs_sent (mf_consumers t ! a) = cs_sent (mf_consumers ?d ! a) @ new" "\<forall>(i, route, q) \<in> set new. polite (mf_consumers ?d ! a) q"
    unfolding grows_def by blast
  with d(2,3) show ?thesis by (auto simp: polite_def)
qed

lemma mcp_drop_final_witness:
  "\<exists>t. steps (mcp_step sample_mcp) (disconnect_paired facade10) [ToolCalled (jlit ''readState'') token_args] t
     \<and> (\<exists>new. cs_sent (mf_consumers t ! 0) = cs_sent (mf_consumers facade10 ! 0) @ new \<and> \<not> (\<exists>(i, route, q) \<in> set new. uses_pairing q))"
proof -
  let ?d = "disconnect_paired facade10"
  have "mcp_step sample_mcp ?d (ToolCalled (jlit ''readState'') token_args)
      (call_tool sample_mcp (mf_fresh ?d) (jlit ''readState'') token_args (?d\<lparr>mf_fresh := mf_fresh ?d + 1\<rparr>))" by (rule mcp_call)
  then obtain t where t: "steps (mcp_step sample_mcp) ?d [ToolCalled (jlit ''readState'') token_args] t" by (simp only: steps_Cons_iff steps_Nil_iff) blast
  have "mf_pairings facade10 = [(jlit ''t'', 0)]" by (simp add: facade10_def facade9_def facade8_def facade7)
  then have "0 \<in> snd ` set (mf_pairings facade10)" by simp
  from mcp_drop_final [OF facade_sample_run t this] t show ?thesis by blast
qed

end
