(* ===== verification/Mcp_Progress.thy ===== *)
theory Mcp_Progress
  imports Mcp_Guarantees
begin

text \<open>
  No tool call of the MCP facade is stuck, and none goes on for ever: what a call waits for can always
  be settled, and every turn of it leaves fewer turns.
\<close>

subsection \<open>Settling what a call waits for\<close>

fun settlement :: "nat \<Rightarrow> mcp_label \<Rightarrow> bool" where
  "settlement i (ConsumerSettles a n ok) \<longleftrightarrow> True"
| "settlement i (ConsumerAnswered a n r) \<longleftrightarrow> True"
| "settlement i (CallGoesOn j) \<longleftrightarrow> j = i"
| "settlement i _ \<longleftrightarrow> False"

lemma settle_one:
  assumes "started a n s"
  shows "\<exists>ls t. steps (mcp_step M) s ls t \<and> (\<forall>l \<in> set ls. settlement i l) \<and> mf_tasks t = mf_tasks s \<and> method_reply a n t \<noteq> None
    \<and> (\<forall>b m. method_reply b m s \<noteq> None \<longrightarrow> method_reply b m t \<noteq> None)"
proof (cases "method_reply a n s")
  case None
  then obtain task where "jm_get (cs_tasks (mf_consumers s ! a)) n = Some task" using assms by (auto simp: started_def held_call_def method_reply_def)
  then obtain c where c: "consumer_step (mc_consumer M) (mf_consumers s ! a) (ProofSettles n False) c \<or> consumer_step (mc_consumer M) (mf_consumers s ! a) (ReplyArrives n None) c"
      "\<And>m. replied m c \<longleftrightarrow> m = n \<or> replied m (mf_consumers s ! a)" using failure_settles by blast
  have a: "a < length (mf_consumers s)" using assms by (simp add: started_def)
  let ?t = "s\<lparr>mf_consumers := (mf_consumers s)[a := c]\<rparr>"
  obtain l where l: "mcp_step M s l ?t" "settlement i l" using c(1) mcp_proof [OF a] mcp_reply [OF a] by (metis settlement.simps(1,2))
  have "method_reply b m ?t \<noteq> None \<longleftrightarrow> b = a \<and> m = n \<or> method_reply b m s \<noteq> None" for b m
    using a c(2) [of m] by (cases "b = a") (auto simp: method_reply_def replied_def)
  moreover have "steps (mcp_step M) s [l] ?t" using l(1) by simp
  ultimately show ?thesis using l(2) by (intro exI [of _ "[l]"] exI [of _ ?t]) auto
next
  case (Some r)
  then show ?thesis by (intro exI [of _ "[]"] exI [of _ s]) auto
qed

lemma settle_all:
  assumes "mcp_ok M s" "\<forall>(a, n) \<in> set ns. started a n s"
  shows "\<exists>ls t. steps (mcp_step M) s ls t \<and> (\<forall>l \<in> set ls. settlement i l) \<and> mf_tasks t = mf_tasks s \<and> (\<forall>(a, n) \<in> set ns. method_reply a n t \<noteq> None)
    \<and> (\<forall>b m. method_reply b m s \<noteq> None \<longrightarrow> method_reply b m t \<noteq> None)"
  using assms
proof (induction ns arbitrary: s)
  case Nil
  show ?case by (intro exI [of _ "[]"] exI [of _ s]) simp
next
  case (Cons p ns)
  obtain a n where p: "p = (a, n)" by fastforce
  then have "started a n s" using Cons.prems(2) by simp
  from settle_one [OF this, of M i] obtain ls t where t: "steps (mcp_step M) s ls t" "\<forall>l \<in> set ls. settlement i l" "mf_tasks t = mf_tasks s" "method_reply a n t \<noteq> None"
      "\<forall>b m. method_reply b m s \<noteq> None \<longrightarrow> method_reply b m t \<noteq> None" by blast
  have k: "keeps_all s t" "mcp_ok M t" using run_keeps [OF t(1) Cons.prems(1)] by blast+
  have "\<forall>(a, n) \<in> set ns. started a n t" using Cons.prems(2) started_keeps [OF _ k(1)] by auto
  from Cons.IH [OF k(2) this] obtain ms u where u: "steps (mcp_step M) t ms u" "\<forall>l \<in> set ms. settlement i l" "mf_tasks u = mf_tasks t"
      "\<forall>(a, n) \<in> set ns. method_reply a n u \<noteq> None" "\<forall>b m. method_reply b m t \<noteq> None \<longrightarrow> method_reply b m u \<noteq> None" by blast
  have "steps (mcp_step M) s (ls @ ms) u" using t(1) u(1) by (auto simp: steps_append_iff)
  then show ?case using t(2-5) u(2-5) p by (intro exI [of _ "ls @ ms"] exI [of _ u]) auto
qed

text \<open>The methods that a task waits for.\<close>

fun waits_for :: "mcp_task \<Rightarrow> (nat \<times> nat) list" where
  "waits_for (ProbesSigned ns x) = map (\<lambda>(ad, n). (sx_consumer x, n)) ns"
| "waits_for task = (case awaited task of Some p \<Rightarrow> [p] | None \<Rightarrow> [])"

lemma waits_started: "task_good M s task \<Longrightarrow> \<forall>(a, n) \<in> set (waits_for task). started a n s"
  by (cases task) auto

lemma those_some: "\<forall>x \<in> set xs. x \<noteq> None \<Longrightarrow> \<exists>ys. those xs = Some ys"
  by (induction xs) (auto split: option.split)

lemma probes_settle:
  assumes "\<forall>(ad, n) \<in> set ns. method_reply (sx_consumer x) n s \<noteq> None"
  shows "\<exists>t. probes_settled M i ns x s = Some t"
proof (cases "\<exists>(ad, r) \<in> set (map (\<lambda>(ad, n). (ad, method_reply (sx_consumer x) n s)) ns). \<exists>b. r = Some Rejects \<or> r = Some (Verified b)")
  case True
  then show ?thesis by (simp add: probes_settled_def Let_def)
next
  case False
  define rs where "rs = map (\<lambda>(ad, n). (ad, method_reply (sx_consumer x) n s)) ns"
  have "(case p of (ad, r) \<Rightarrow> case r of Some (Gives g) \<Rightarrow> Some (ad, g) | _ \<Rightarrow> None) \<noteq> None" if p: "p \<in> set rs" for p
  proof -
    obtain ad r where r: "p = (ad, r)" by fastforce
    then have "r \<noteq> None" "r \<noteq> Some Rejects" "\<And>b. r \<noteq> Some (Verified b)" using p assms False unfolding rs_def [symmetric] by (auto simp: rs_def)
    then show ?thesis using r by (auto split: option.split consumer_reply.split)
  qed
  then have "\<exists>probes. those (map (\<lambda>(ad, r). case r of Some (Gives g) \<Rightarrow> Some (ad, g) | _ \<Rightarrow> None) rs) = Some probes" by (intro those_some) auto
  then show ?thesis using False unfolding probes_settled_def Let_def rs_def [symmetric] by auto
qed

lemma next_turn:
  assumes "mcp_ok M s" "jm_get (mf_tasks s) i = Some task" "\<forall>(a, n) \<in> set (waits_for task). method_reply a n s \<noteq> None"
  shows "\<exists>t. mcp_step M s (CallGoesOn i) t"
proof (cases "\<exists>ns x. task = ProbesSigned ns x")
  case True
  then obtain ns x where task: "task = ProbesSigned ns x" by blast
  then have "\<forall>(ad, n) \<in> set ns. method_reply (sx_consumer x) n s \<noteq> None" using assms(3) by auto
  from probes_settle [OF this, of M i] show ?thesis using mcp_all assms(2) task by blast
next
  case False
  then obtain a n where a: "awaited task = Some (a, n)" "waits_for task = [(a, n)]" by (cases task) auto
  then obtain r where "method_reply a n s = Some r" using assms(3) by auto
  then show ?thesis using mcp_on [OF assms(2) a(1)] by blast
qed

subsection \<open>Turns\<close>

text \<open>The turns that call \<open>i\<close> has left; a call that did not begin has as many as any.\<close>

definition turns_left :: "nat \<Rightarrow> mcp \<Rightarrow> nat" where
  "turns_left i s = (if i < mf_fresh s then (case jm_get (mf_tasks s) i of None \<Rightarrow> 0 | Some task \<Rightarrow> rank task) else 132)"

lemma turns_other:
  assumes "takes_turn M P j r s t" "i \<noteq> j"
  shows "turns_left i t = turns_left i s"
proof -
  have "jm_get (mf_tasks t) i = jm_get (mf_tasks s) i" "mf_fresh t = mf_fresh s"
    using assms unfolding takes_turn_def quiet_def by (auto simp: jm_get_set jm_get_delete)
  then show ?thesis by (simp add: turns_left_def)
qed

lemma turns_strict:
  assumes "takes_turn M P j r s t" "j < mf_fresh s" "1 \<le> r"
  shows "turns_left j t < r"
  using assms unfolding takes_turn_def quiet_def by (auto simp: turns_left_def jm_get_set jm_get_delete)

lemma fresh_step:
  assumes "mcp_step M s l t" "mcp_ok M s"
  shows "mf_fresh s \<le> mf_fresh t"
  using assms
proof (cases rule: mcp_step.cases)
  case (mcp_call name args)
  have "takes_turn M no_resume (mf_fresh s) 133 (s\<lparr>mf_fresh := mf_fresh s + 1\<rparr>) t" unfolding mcp_call
    by (rule turn_call) (use assms(2) in \<open>simp_all add: mcp_ok_def pairs_valid_def directory_ok_def\<close>)
  then show ?thesis by (simp add: takes_turn_def quiet_def)
next
  case (mcp_on i task a n reply)
  then have "task_good M s task" using assms(2) by (simp add: mcp_ok_def tasks_good_def)
  from turn_go_on [OF this mcp_on(3-5)] show ?thesis unfolding mcp_on by (simp add: takes_turn_def quiet_def)
next
  case (mcp_all i ns x)
  then have "task_good M s (ProbesSigned ns x)" using assms(2) unfolding mcp_ok_def tasks_good_def by blast
  from turn_signed_settled [OF mcp_all(2) this mcp_all(3)] show ?thesis by (simp add: takes_turn_def quiet_def)
qed (simp_all add: receive_fields disconnect_paired_def)

lemma fresh_run: "steps (mcp_step M) s ls t \<Longrightarrow> mcp_ok M s \<Longrightarrow> mf_fresh s \<le> mf_fresh t"
proof (induction rule: steps.induct)
  case (steps_trans s l t ls u)
  then show ?case using fresh_step [OF steps_trans(1,4)] ok_step [OF steps_trans(1,4)] by simp
qed simp

lemma turns_step:
  assumes "mcp_step M s l t" "mcp_ok M s"
  shows "turns_left i t + (if l = CallGoesOn i then 1 else 0) \<le> turns_left i s"
proof -
  have open_call: "i < mf_fresh s" if "jm_get (mf_tasks s) i = Some task" for task i
  proof -
    have "i \<in> fst ` set (mf_tasks s)" using jm_get_in [OF that] by (metis fst_conv image_eqI)
    then show ?thesis using assms(2) by (auto simp: mcp_ok_def calls_counted_def)
  qed
  have pos: "1 \<le> rank task" for task by (cases task) simp_all
  have ok: "pairs_valid s" "tasks_good M s" "directory_ok s" using assms(2) by (simp_all add: mcp_ok_def)
  from assms(1) show ?thesis
  proof (cases rule: mcp_step.cases)
    case (mcp_call name args)
    let ?s = "s\<lparr>mf_fresh := mf_fresh s + 1\<rparr>"
    have "takes_turn M no_resume (mf_fresh s) 133 ?s t" unfolding mcp_call by (rule turn_call) (use ok in \<open>simp_all add: pairs_valid_def directory_ok_def\<close>)
    note turn = this
    consider (old) "i < mf_fresh s" | (this) "i = mf_fresh s" | (later) "mf_fresh s < i" by linarith
    then show ?thesis
    proof cases
      case this
      then show ?thesis using turns_strict [OF turn] mcp_call(1) by (simp add: turns_left_def)
    qed (use turns_other [OF turn, of i] mcp_call(1) in \<open>simp_all add: turns_left_def\<close>)
  next
    case (mcp_on j task a n reply)
    then have good: "task_good M s task" using ok(2) by (simp add: tasks_good_def)
    have "takes_turn M (allowed_task M s j) j (rank task) s t" unfolding mcp_on by (rule turn_go_on [OF good mcp_on(3-5)])
    note turn = this
    show ?thesis
    proof (cases "i = j")
      case True
      then show ?thesis using turns_strict [OF turn open_call [OF mcp_on(3)] pos] open_call [OF mcp_on(3)] mcp_on(1,3) by (simp add: turns_left_def)
    qed (use turns_other [OF turn, of i] mcp_on(1) in simp)
  next
    case (mcp_all j ns x)
    then have good: "task_good M s (ProbesSigned ns x)" using ok(2) unfolding tasks_good_def by blast
    have "takes_turn M no_resume j 4 s t" by (rule turn_signed_settled [OF mcp_all(2) good mcp_all(3)])
    note turn = this
    show ?thesis
    proof (cases "i = j")
      case True
      then show ?thesis using turns_strict [OF turn open_call [OF mcp_all(2)]] open_call [OF mcp_all(2)] mcp_all(1,2) by (simp add: turns_left_def)
    qed (use turns_other [OF turn, of i] mcp_all(1) in simp)
  qed (simp_all add: turns_left_def receive_fields disconnect_paired_def)
qed

lemma turns_run: "steps (mcp_step M) s ls t \<Longrightarrow> mcp_ok M s \<Longrightarrow> turns_left i t + count_list ls (CallGoesOn i) \<le> turns_left i s"
proof (induction rule: steps.induct)
  case (steps_trans s l t ls u)
  have "mcp_ok M t" by (rule ok_step [OF steps_trans(1,4)])
  with steps_trans show ?case using turns_step [OF steps_trans(1,4), of i] by (auto split: if_splits)
qed simp

lemma call_ends: "mcp_ok M s \<Longrightarrow> i < mf_fresh s \<Longrightarrow>
    \<exists>ls t. steps (mcp_step M) s ls t \<and> (\<forall>l \<in> set ls. settlement i l) \<and> i \<in> fst ` set (mf_answers t)"
proof (induction "turns_left i s" arbitrary: s rule: less_induct)
  case less
  show ?case
  proof (cases "jm_get (mf_tasks s) i")
    case None
    then have "i \<notin> fst ` set (mf_tasks s)" by (simp add: map_of_eq_None_iff)
    then have "i \<in> fst ` set (mf_answers s)" using less.prems by (auto simp: mcp_ok_def calls_counted_def)
    then show ?thesis by (intro exI [of _ "[]"] exI [of _ s]) simp
  next
    case (Some task)
    have "task_good M s task" using Some less.prems(1) by (simp add: mcp_ok_def tasks_good_def)
    from settle_all [OF less.prems(1) waits_started [OF this], of i] obtain ls t where t: "steps (mcp_step M) s ls t" "\<forall>l \<in> set ls. settlement i l"
        "mf_tasks t = mf_tasks s" "\<forall>(a, n) \<in> set (waits_for task). method_reply a n t \<noteq> None" by blast
    have ok: "mcp_ok M t" using run_keeps [OF t(1) less.prems(1)] by blast
    obtain u where u: "mcp_step M t (CallGoesOn i) u" using next_turn [OF ok _ t(4), of i] Some t(3) by auto
    have run: "steps (mcp_step M) s (ls @ [CallGoesOn i]) u" using t(1) u by (auto simp: steps_append_iff)
    have "turns_left i u < turns_left i s" using turns_run [OF run less.prems(1), of i] by (simp add: count_list_append)
    moreover have "mcp_ok M u" using run_keeps [OF run less.prems(1)] by blast
    moreover have "i < mf_fresh u" using less.prems(2) fresh_run [OF run less.prems(1)] by simp
    ultimately obtain ms v where "steps (mcp_step M) u ms v" "\<forall>l \<in> set ms. settlement i l" "i \<in> fst ` set (mf_answers v)" using less.hyps by blast
    with run t(2) show ?thesis by (intro exI [of _ "(ls @ [CallGoesOn i]) @ ms"] exI [of _ v]) (auto simp: steps_append_iff)
  qed
qed

text \<open>C18. Every tool call ends. In every run a call goes on at most 132 times, however the awaited
  answers and the other steps interleave; and in every state that is reached, each call that has begun
  can be brought to its answer by settling what it waits for alone, without another call, an
  advertisement, the clock or a lost connection.\<close>

theorem mcp_calls_end:
  assumes "steps (mcp_step M) (new_mcp now) ls s"
  shows "count_list ls (CallGoesOn i) \<le> 132
    \<and> (mf_fresh s \<le> i \<or> (\<exists>ms t. steps (mcp_step M) s ms t \<and> list_all (settlement i) ms \<and> i \<in> fst ` set (mf_answers t)))"
proof -
  have "turns_left i (new_mcp now) = 132" by (simp add: turns_left_def new_mcp_def)
  then have "count_list ls (CallGoesOn i) \<le> 132" using turns_run [OF assms new_ok, of i] by simp
  moreover have "\<exists>ms t. steps (mcp_step M) s ms t \<and> list_all (settlement i) ms \<and> i \<in> fst ` set (mf_answers t)" if "i < mf_fresh s"
    using call_ends [OF run_ok [OF assms] that] by (simp add: list_all_iff)
  ultimately show ?thesis by (meson not_less)
qed

lemma mcp_calls_end_witness:
  "\<exists>ms t. steps (mcp_step sample_mcp) facade10 ms t \<and> list_all (settlement 2) ms \<and> 2 \<in> fst ` set (mf_answers t)"
proof -
  have "\<not> mf_fresh facade10 \<le> 2" by (simp add: facade10_def facade9_def facade8_def)
  then show ?thesis using mcp_calls_end [OF facade_sample_run, of 2] by blast
qed

end
