(* ===== verification/Assistance_Transport.thy ===== *)
theory Assistance_Transport
  imports Assistance Supplier
begin

text \<open>
  The transport of assistance, \<open>src/assistance/glade.ts\<close>: \<open>bindAssistance\<close> serves an assistance host
  through a supplier over a dedicated connection, \<open>callAssistance\<close> sends a request and waits a
  bounded time, \<open>advertise\<close> and \<open>watchDirectory\<close> write and read the directory of advertisements.

  A binding is composed of the supplier of the kit with its one exchange serving, and of the
  assistance host, whose definitions it calls. A request that arrives is handled by an asynchronous
  function that stops before the handler runs, while the host has the request, and before the answer
  is sent; subscriptions, requests, operators, clocks, dropped links and \<open>close\<close> are steps that act in
  between. The readiness of the host is set by its binding only. The schema of the declaration package
  (\<open>encode\<close>, \<open>decode\<close>) is a parameter, and so is what the client does.
\<close>

subsection \<open>Names and messages\<close>

definition service_id :: jstr where
  "service_id = jlit ''assistance.session.v1''"

definition directory_id :: jstr where
  "directory_id = jlit ''assistance.directory.v1''"

text \<open>
  The host, and the schema: decoding may throw (\<open>None\<close>), and so may encoding, with the string that
  is made of its error.
\<close>

record 'p transport_config =
  tc_host :: "'p assist_config"
  tc_decode_request :: "bytes \<Rightarrow> assistance_request option"
  tc_encode_request :: "assistance_request \<Rightarrow> jstr + bytes"
  tc_decode_result :: "bytes \<Rightarrow> assistance_result option"
  tc_encode_result :: "assistance_result \<Rightarrow> jstr + bytes"

subsection \<open>The state of a binding\<close>

text \<open>The promise \<open>ready\<close>, which settles once.\<close>

datatype readiness = Opening | Resolved | Rejected jstr

definition settle_ready :: "readiness \<Rightarrow> readiness \<Rightarrow> readiness" where
  "settle_ready outcome r = (if r = Opening then outcome else r)"

text \<open>
  The function that handles a request: before the handler runs, while the host has the request as its
  call of that number, and when the answer or the error of the handler is about to be sent.
\<close>

datatype handling = Arrived | AskedHost nat | HasAnswer "jstr + exchange_answer"

text \<open>
  \<open>tb_settled\<close> holds how the client settled the subscriptions of the serving's generations.
  \<open>tb_requests\<close> are the requests that the serving took, and their position numbers the functions that
  handle them; \<open>tb_asked\<close> remembers which call of the host each became. \<open>tb_sent\<close> are the replies
  that the client was given.
\<close>

record 'p transport =
  tb_host :: "'p assist_supplier"
  tb_supplier :: supplier
  tb_closed :: bool
  tb_ready :: readiness
  tb_drop_on :: bool
  tb_client_open :: bool
  tb_settled :: "((nat \<times> nat) \<times> bool) list"
  tb_requests :: "exchange_request list"
  tb_handling :: "(nat \<times> handling) list"
  tb_asked :: "(nat \<times> nat) list"
  tb_sent :: "(nat \<times> exchange_reply) list"

text \<open>The supplier has no configuration: it says no hello, and the port signals no dropped link.\<close>

definition transport_supplier :: supplier_config where
  "transport_supplier = \<lparr>cf_says_hello = False, cf_backoff = None\<rparr>"

definition service_surface :: "jstr \<Rightarrow> supplier_surface" where
  "service_surface share = \<lparr>sf_glade_id = service_id, sf_shape = jlit ''exchange'', sf_share = share, sf_key = None\<rparr>"

definition bind_assistance :: "jstr \<Rightarrow> 'p assist_supplier \<Rightarrow> 'p transport" where
  "bind_assistance share host =
     \<lparr>tb_host = host, tb_supplier = fst (serve_exchange transport_supplier (service_surface share) (attach_supplier False)),
      tb_closed = False, tb_ready = Opening, tb_drop_on = True, tb_client_open = True, tb_settled = [], tb_requests = [],
      tb_handling = [], tb_asked = [], tb_sent = []\<rparr>"

subsection \<open>Opening and closing\<close>

definition closed_error :: jstr where
  "closed_error = jlit ''assistance binding closed''"

definition close_binding :: "'p transport_config \<Rightarrow> 'p transport \<Rightarrow> 'p transport" where
  "close_binding T s =
     (if tb_closed s then s
      else s\<lparr>tb_closed := True, tb_host := set_ready (tc_host T) False (tb_host s), tb_supplier := detach_all (tb_supplier s),
             tb_drop_on := False, tb_client_open := False, tb_ready := settle_ready (Rejected closed_error) (tb_ready s)\<rparr>)"

text \<open>
  The port's \<open>subscribe\<close> after the client's promise: \<open>error\<close> is \<open>None\<close> when the outcome is ok, else the
  message with which the code rejects \<open>ready\<close>.
\<close>

definition port_subscribed :: "'p transport_config \<Rightarrow> nat \<times> nat \<Rightarrow> jstr option \<Rightarrow> 'p transport \<Rightarrow> 'p transport" where
  "port_subscribed T ag error s =
     (let s = s\<lparr>tb_settled := tb_settled s @ [(ag, error = None)]\<rparr> in
      case error of
        None \<Rightarrow> s
      | Some e \<Rightarrow> (let s = close_binding T s in s\<lparr>tb_ready := settle_ready (Rejected e) (tb_ready s)\<rparr>))"

text \<open>The port's \<open>onExchangeReq\<close>; \<open>throws\<close> says whether the client's registration throws.\<close>

definition port_on_exchange_req :: "'p transport_config \<Rightarrow> bool \<Rightarrow> 'p transport \<Rightarrow> 'p transport \<times> attach_outcome" where
  "port_on_exchange_req T throws s =
     (if tb_closed s then (s, Subscribed)
      else if throws then (s, HookThrows)
      else (s\<lparr>tb_host := set_ready (tc_host T) True (tb_host s), tb_ready := settle_ready Resolved (tb_ready s)\<rparr>, Subscribed))"

text \<open>
  A suspended function of the supplier goes on. Behind a subscription that was granted and is not
  stale, the serving registers its handler with the port.
\<close>

definition serving_stale :: "nat \<Rightarrow> nat \<Rightarrow> supplier \<Rightarrow> bool" where
  "serving_stale a g s \<longleftrightarrow> sv_detached (su_heap s ! a) \<or> g \<noteq> sv_generation (su_heap s ! a)"

fun task_subscription :: "task \<Rightarrow> (nat \<times> nat) option" where
  "task_subscription (AttachOne b (AwaitSubscribe a g)) = Some (a, g)"
| "task_subscription (ReattachAll reached (AwaitSubscribe a g)) = Some (a, g)"
| "task_subscription t = None"

definition supplier_goes_on :: "'p transport_config \<Rightarrow> nat \<Rightarrow> bool \<Rightarrow> 'p transport \<Rightarrow> 'p transport" where
  "supplier_goes_on T i throws s =
     (let (s, out) = (case task_subscription (su_tasks (tb_supplier s) ! i) of
            None \<Rightarrow> (s, Subscribed)
          | Some (a, g) \<Rightarrow>
              if map_of (tb_settled s) (a, g) \<noteq> Some True then (s, SubscribeFailed)
              else if serving_stale a g (tb_supplier s) then (s, Subscribed)
              else port_on_exchange_req T throws s)
      in s\<lparr>tb_supplier := resume transport_supplier i out (tb_supplier s)\<rparr>)"

subsection \<open>Requests\<close>

definition malformed :: assistance_result where
  "malformed = assist_reason ''invalid'' (jlit ''malformed request'')"

definition closed_answer :: exchange_answer where
  "closed_answer = \<lparr>xa_ok = Some False, xa_payload = None, xa_error = Some (jlit ''closed'')\<rparr>"

text \<open>The request in a payload; \<open>None\<close> when it is too large or cannot be decoded.\<close>

definition admitted :: "'p transport_config \<Rightarrow> exchange_request \<Rightarrow> assistance_request option" where
  "admitted T rq = (if length (xq_payload rq) > 65536 then None else tc_decode_request T (xq_payload rq))"

definition encoded_answer :: "'p transport_config \<Rightarrow> assistance_result \<Rightarrow> jstr + exchange_answer" where
  "encoded_answer T answer =
     (case tc_encode_result T answer of
        Inl e \<Rightarrow> Inl e
      | Inr b \<Rightarrow> Inr \<lparr>xa_ok = None, xa_payload = Some b, xa_error = None\<rparr>)"

definition replied_result :: "assist_reply \<Rightarrow> assistance_result" where
  "replied_result reply = (case reply of Answers r \<Rightarrow> r | Throws \<Rightarrow> malformed)"

definition host_answer :: "'p transport_config \<Rightarrow> assist_reply \<Rightarrow> jstr + exchange_answer" where
  "host_answer T reply = encoded_answer T (replied_result reply)"

text \<open>A request arrives at the handlers registered with the client; the serving starts a function for it.\<close>

definition request_arrives :: "exchange_request \<Rightarrow> 'p transport \<Rightarrow> 'p transport" where
  "request_arrives rq s =
     fold (\<lambda>_ s. s\<lparr>tb_requests := tb_requests s @ [rq], tb_handling := jm_set (length (tb_requests s)) Arrived (tb_handling s)\<rparr>)
       (deliver_request rq (tb_supplier s)) s"

text \<open>The handler runs; \<open>fresh\<close> is the token that the host would give.\<close>

definition handler_runs :: "'p transport_config \<Rightarrow> nat \<Rightarrow> jstr \<Rightarrow> 'p transport \<Rightarrow> 'p transport" where
  "handler_runs T h fresh s =
     (if tb_closed s then s\<lparr>tb_handling := jm_set h (HasAnswer (Inr closed_answer)) (tb_handling s)\<rparr>
      else case admitted T (tb_requests s ! h) of
        None \<Rightarrow> s\<lparr>tb_handling := jm_set h (HasAnswer (encoded_answer T malformed)) (tb_handling s)\<rparr>
      | Some q \<Rightarrow> s\<lparr>tb_handling := jm_set h (AskedHost (ap_fresh (tb_host s))) (tb_handling s),
                    tb_asked := tb_asked s @ [(h, ap_fresh (tb_host s))], tb_host := receive_call (tc_host T) fresh q (tb_host s)\<rparr>)"

definition host_answers :: "'p transport_config \<Rightarrow> nat \<Rightarrow> assist_reply \<Rightarrow> 'p transport \<Rightarrow> 'p transport" where
  "host_answers T h reply s = s\<lparr>tb_handling := jm_set h (HasAnswer (host_answer T reply)) (tb_handling s)\<rparr>"

text \<open>
  The answer goes to the port's \<open>respondExchange\<close>, which does nothing once the binding is closed; what
  the client's function throws is answered by the serving's \<open>catch\<close>, but only once.
\<close>

definition responds :: "nat \<Rightarrow> jstr + exchange_answer \<Rightarrow> jstr option \<Rightarrow> 'p transport \<Rightarrow> 'p transport" where
  "responds h outcome throws s =
     (let done_with = s\<lparr>tb_handling := jm_delete h (tb_handling s)\<rparr> in
      if tb_closed s then done_with
      else case throws of
        None \<Rightarrow> done_with\<lparr>tb_sent := tb_sent s @ [(h, hd (answer_request (tb_requests s ! h) outcome None))]\<rparr>
      | Some e \<Rightarrow> if isl outcome then done_with else s\<lparr>tb_handling := jm_set h (HasAnswer (Inl e)) (tb_handling s)\<rparr>)"

subsection \<open>Steps\<close>

datatype 'p transport_label =
  HostMoves "'p assist_label"
| SubscriptionSettles nat nat "jstr option"
| SupplierGoesOn nat bool
| RetryFires nat
| RequestArrives exchange_request
| HandlerRuns nat jstr
| HostAnswers nat
| Responds nat "jstr option"
| ClientDrops
| ClosesBinding

fun own_label :: "'p assist_label \<Rightarrow> bool" where
  "own_label (SetsReady b) \<longleftrightarrow> False"
| "own_label (Receives q fresh) \<longleftrightarrow> False"
| "own_label l \<longleftrightarrow> True"

inductive transport_step :: "'p transport_config \<Rightarrow> 'p transport \<Rightarrow> 'p transport_label \<Rightarrow> 'p transport \<Rightarrow> bool" for T where
  step_host: "assist_step (tc_host T) (tb_host s) l host \<Longrightarrow> own_label l \<Longrightarrow> transport_step T s (HostMoves l) (s\<lparr>tb_host := host\<rparr>)"
| step_subscribed: "t \<in> set (su_tasks (tb_supplier s)) \<Longrightarrow> task_subscription t = Some (a, g) \<Longrightarrow> map_of (tb_settled s) (a, g) = None
    \<Longrightarrow> transport_step T s (SubscriptionSettles a g error) (port_subscribed T (a, g) error s)"
| step_supplier: "i < length (su_tasks (tb_supplier s))
    \<Longrightarrow> (\<And>a g. task_subscription (su_tasks (tb_supplier s) ! i) = Some (a, g) \<Longrightarrow> map_of (tb_settled s) (a, g) \<noteq> None)
    \<Longrightarrow> transport_step T s (SupplierGoesOn i throws) (supplier_goes_on T i throws s)"
| step_retry: "(t, ms) \<in> set (su_timers (tb_supplier s))
    \<Longrightarrow> transport_step T s (RetryFires t) (s\<lparr>tb_supplier := fire transport_supplier t (tb_supplier s)\<rparr>)"
| step_request: "transport_step T s (RequestArrives rq) (request_arrives rq s)"
| step_handler: "jm_get (tb_handling s) h = Some Arrived \<Longrightarrow> jm_get (ap_offers (tb_host s)) fresh = None
    \<Longrightarrow> transport_step T s (HandlerRuns h fresh) (handler_runs T h fresh s)"
| step_answered: "jm_get (tb_handling s) h = Some (AskedHost i) \<Longrightarrow> (i, reply) \<in> set (ap_replies (tb_host s))
    \<Longrightarrow> transport_step T s (HostAnswers h) (host_answers T h reply s)"
| step_respond: "jm_get (tb_handling s) h = Some (HasAnswer outcome)
    \<Longrightarrow> transport_step T s (Responds h throws) (responds h outcome throws s)"
| step_drop: "tb_drop_on s \<Longrightarrow> transport_step T s ClientDrops (close_binding T s)"
| step_close: "transport_step T s ClosesBinding (close_binding T s)"

inductive_cases transport_stepE: "transport_step T s l t"

end
