(* ===== verification/Transport_Lifecycle.thy ===== *)
theory Transport_Lifecycle
  imports Assistance_Transport Assistance_Safety
begin

text \<open>
  The life of a binding: it attaches, serves, and is shut for good. The supplier of the kit is used with
  one serving, so its tasks and timers take turns.
\<close>

subsection \<open>A supplier with one serving\<close>

text \<open>The task that will attach the serving, and the one that has just attached it.\<close>

fun attaching :: "nat \<Rightarrow> task \<Rightarrow> bool" where
  "attaching g (AttachOne a ph) \<longleftrightarrow> a = 0 \<and> (case ph of AwaitHello \<Rightarrow> True
     | AwaitSubscribe b h \<Rightarrow> b = 0 \<and> h = g | AwaitAttach b ok \<Rightarrow> b = 0 \<and> \<not> ok)"
| "attaching g (ReattachAll reached ph) \<longleftrightarrow> (case ph of AwaitHello \<Rightarrow> reached = []
     | AwaitSubscribe b h \<Rightarrow> reached = [0] \<and> b = 0 \<and> h = g | AwaitAttach b ok \<Rightarrow> reached = [0] \<and> b = 0 \<and> \<not> ok)"

definition attached_task :: "task \<Rightarrow> bool" where
  "attached_task t \<longleftrightarrow> t = AttachOne 0 (AwaitAttach 0 True) \<or> t = ReattachAll [0] (AwaitAttach 0 True)"

definition serving_phase :: "supplier \<Rightarrow> bool" where
  "serving_phase s \<longleftrightarrow> (if off_of s 0 = None
     then (\<exists>t. su_tasks s = [t] \<and> su_timers s = [] \<and> attaching (generation_of s 0) t) \<or> su_tasks s = [] \<and> (\<exists>x. su_timers s = [x])
     else su_timers s = [] \<and> (su_tasks s = [] \<or> (\<exists>t. su_tasks s = [t] \<and> attached_task t)))"

definition one_serving :: "supplier_surface \<Rightarrow> supplier \<Rightarrow> bool" where
  "one_serving sf s \<longleftrightarrow> supplier_ok s \<and> faces s = [(ExchangeServing, sf)]
     \<and> (if su_detached s then su_servings s = [] else su_servings s = [0] \<and> \<not> detached_of s 0 \<and> serving_phase s)"

lemma one_serving_heap: "one_serving sf s \<Longrightarrow> \<exists>sv. su_heap s = [sv] \<and> sv_kind sv = ExchangeServing \<and> sv_surface sv = sf"
  by (auto simp: one_serving_def faces_def map_eq_Cons_conv)

lemma one_serving_requests:
  assumes one: "one_serving sf s"
  shows "deliver_request rq s = (if \<not> su_detached s \<and> off_of s 0 \<noteq> None \<and> exchange_accepts sf rq then [0] else [])"
proof -
  have ok: "supplier_ok s" using one by (simp add: one_serving_def)
  obtain sv where sv: "su_heap s = [sv]" "sv_kind sv = ExchangeServing" "sv_surface sv = sf" using one_serving_heap [OF one] by blast
  have member: "a = 0 \<and> \<not> su_detached s \<and> off_of s 0 \<noteq> None \<and> exchange_accepts sf rq" if a: "a \<in> set (deliver_request rq s)" for a
  proof -
    obtain k where k: "k \<in> set (su_hooks s)" "hook_live s k" "a = hk_serving k" "exchange_accepts (sv_surface (su_heap s ! a)) rq"
      using a by (auto simp: deliver_request_def)
    from live_registered [OF ok k(1,2)] have r: "a \<in> set (su_servings s)" "off_of s a \<noteq> None" by (auto simp: k(3))
    with one have "a = 0" "\<not> su_detached s" by (auto simp: one_serving_def split: if_splits)
    with r k(4) sv show ?thesis by simp
  qed
  show ?thesis
  proof (cases "\<not> su_detached s \<and> off_of s 0 \<noteq> None \<and> exchange_accepts sf rq")
    case True
    then have "0 \<in> set (su_servings s)" using one by (simp add: one_serving_def)
    with attached_live [OF ok] True obtain k where "k \<in> set (su_hooks s)" "hk_serving k = 0" "hook_live s k" by blast
    with True sv have "0 \<in> set (deliver_request rq s)" by (force simp: deliver_request_def)
    moreover have "distinct (deliver_request rq s)"
      using live_distinct [OF ok, of "\<lambda>k. sv_kind (su_heap s ! hk_serving k) = ExchangeServing \<and> exchange_accepts (sv_surface (su_heap s ! hk_serving k)) rq"]
      by (simp add: deliver_request_def conj_ac)
    moreover have "set (deliver_request rq s) \<subseteq> {0}" using member by blast
    ultimately show ?thesis using True
      by (cases "deliver_request rq s"; cases "tl (deliver_request rq s)") auto
  next
    case False
    have "deliver_request rq s = []"
    proof (rule ccontr)
      assume "deliver_request rq s \<noteq> []"
      then have "hd (deliver_request rq s) \<in> set (deliver_request rq s)" by simp
      with member False show False by blast
    qed
    with False show ?thesis by auto
  qed
qed

text \<open>The supplier as \<open>bindAssistance\<close> leaves it, and what its own steps do.\<close>

lemma one_serving_bound: "one_serving (service_surface share) (tb_supplier (bind_assistance share host))"
proof -
  have "require_exchange_shape (jlit ''exchange'') op = Inr ()" for op by (simp add: require_exchange_shape_def)
  then have "supplier_ok (tb_supplier (bind_assistance share host))"
    using serve_ok(1) [OF attach_supplier_ok] by (simp add: bind_assistance_def)
  then show ?thesis
    by (simp add: one_serving_def bind_assistance_def serve_exchange_def require_exchange_shape_def service_surface_def register_def Let_def
        start_task_def ensure_hello_def transport_supplier_def attach_supplier_def faces_def new_serving_def serving_phase_def js_add_def)
qed

lemma resume_service:
  assumes "i < length (su_tasks s)"
  shows "same_service s (resume C i out s)"
proof -
  let ?s0 = "s\<lparr>su_tasks := take i (su_tasks s) @ drop (Suc i) (su_tasks s)\<rparr>"
  obtain s' t' where res: "task_result C (su_tasks s ! i) out ?s0 = (s', t')" by fastforce
  have frame: "same_frame ?s0 s'"
    using res attach_one_frame [of ?s0 C] reattach_all_frame [of ?s0 C] by (simp add: task_result_def split: task.splits) (metis fst_conv)+
  have "resume C i out s = (case t' of None \<Rightarrow> s' | Some u \<Rightarrow> start_task u s')"
    using res by (simp add: resume_def task_result_def Let_def)
  with frame show ?thesis by (cases t') (simp_all add: start_task_def same_service_def same_frame_def faces_def)
qed

lemma detached_stays:
  assumes "one_serving sf s" "su_detached s" "supplier_ok t" "same_service s t"
  shows "one_serving sf t \<and> su_detached t"
  using assms by (simp add: one_serving_def same_service_def)

lemma fire_one_serving:
  assumes one: "one_serving sf s" and t: "(t, ms) \<in> set (su_timers s)"
  shows "one_serving sf (fire C t s) \<and> su_detached (fire C t s) = su_detached s \<and> off_of (fire C t s) 0 = off_of s 0"
proof (cases "su_detached s")
  case True
  have "supplier_ok (fire C t s)" using one by (simp add: one_serving_def fire_ok)
  moreover have "same_service s (fire C t s)" using True by (simp add: fire_def same_service_def faces_def)
  moreover have "off_of (fire C t s) 0 = off_of s 0" using True by (simp add: fire_def)
  ultimately show ?thesis using detached_stays [OF one True] True by blast
next
  case False
  have ok: "supplier_ok (fire C t s)" using one by (simp add: one_serving_def fire_ok)
  have off: "off_of s 0 = None" "su_tasks s = []" "su_timers s = [(t, ms)]"
    using one False t by (auto simp: one_serving_def serving_phase_def split: if_splits)
  then show ?thesis using one ok False
    by (simp add: one_serving_def fire_def start_task_def ensure_hello_def serving_phase_def faces_def Let_def)
qed

lemma detach_all_one_serving:
  assumes one: "one_serving sf s"
  shows "one_serving sf (detach_all s) \<and> su_detached (detach_all s)"
proof -
  have "supplier_ok (detach_all s) \<and> su_detached (detach_all s)" using one detach_all_ok by (simp add: one_serving_def)
  moreover have "faces (detach_all s) = faces s"
  proof -
    have f: "faces (x\<lparr>su_servings := []\<rparr>) = faces x" for x :: supplier by (simp add: faces_def)
    show ?thesis unfolding detach_all_def Let_def f
      by (simp add: fold_faces [of serving_detach, OF detach_faces(1)]) (simp add: faces_def split: option.split)
  qed
  moreover have "su_servings (detach_all s) = []" by (simp add: detach_all_def Let_def)
  ultimately show ?thesis using one by (simp add: one_serving_def)
qed

text \<open>A task goes on: it attaches, when its subscription was granted and the port registered the handler.\<close>

definition attaches :: "supplier \<Rightarrow> nat \<Rightarrow> attach_outcome \<Rightarrow> bool" where
  "attaches s i out \<longleftrightarrow> task_subscription (su_tasks s ! i) = Some (0, generation_of s 0) \<and> out \<in> {Subscribed, ServeThrows}"

lemma exchange_attach_first:
  assumes "su_heap s = [sv]" "sv_kind sv = ExchangeServing" "\<not> sv_detached sv"
  shows "call_attach 0 s = (next_generation 0 False (\<lambda>k. sv_off sv \<noteq> Some (hk_id k)) s, AwaitSubscribe 0 (Suc (sv_generation sv)))"
  using assms attach_next_generation [of s 0] by (simp add: call_attach_def serving_calls)

lemma resume_one_serving:
  assumes one: "one_serving sf s" and i: "i < length (su_tasks s)" and open_service: "\<not> su_detached s"
  shows "one_serving sf (resume C i out s) \<and> \<not> su_detached (resume C i out s)
    \<and> (off_of (resume C i out s) 0 \<noteq> None \<longleftrightarrow> off_of s 0 \<noteq> None \<or> attaches s i out)"
proof -
  obtain sv where sv: "su_heap s = [sv]" "sv_kind sv = ExchangeServing" "sv_surface sv = sf" using one_serving_heap [OF one] by blast
  have keep: "same_service s (resume C i out s)" by (rule resume_service [OF i])
  have ok: "supplier_ok (resume C i out s)" using one i by (simp add: one_serving_def resume_ok)
  have s: "su_servings s = [0]" "\<not> sv_detached sv" "serving_phase s" using one open_service sv by (simp_all add: one_serving_def)
  obtain t where t: "su_tasks s = [t]" and i0: "i = 0" using s(3) i by (auto simp: serving_phase_def split: if_splits)
  have "serving_phase (resume C i out s) \<and> \<not> detached_of (resume C i out s) 0
      \<and> (off_of (resume C i out s) 0 \<noteq> None \<longleftrightarrow> sv_off sv \<noteq> None \<or> attaches s i out)"
  proof (cases "sv_off sv")
    case None
    then have tm: "su_timers s = []" and a: "attaching (sv_generation sv) t" using s(3) t by (simp_all add: serving_phase_def sv)
    show ?thesis
    proof (cases t)
      case (AttachOne b ph)
      show ?thesis
      proof (cases ph)
        case AwaitHello
        then show ?thesis using a AttachOne
          by (simp add: resume_def t i0 attach_one_def exchange_attach_first [of _ sv] sv s tm start_task_def next_generation_def
              serving_phase_def attaches_def None)
      next
        case (AwaitSubscribe c g)
        then show ?thesis using a AttachOne
          by (cases out) (simp_all add: resume_def t i0 attach_one_def serving_attached_def exchange_attached_def sv s tm start_task_def
              serving_phase_def attaches_def None set_serving_def attached_task_def)
      next
        case (AwaitAttach c b)
        then show ?thesis using a AttachOne
          by (simp add: resume_def t i0 attach_one_def schedule_reattach_def open_service sv s tm serving_phase_def attaches_def None)
      qed
    next
      case (ReattachAll reached ph)
      show ?thesis
      proof (cases ph)
        case AwaitHello
        then show ?thesis using a ReattachAll
          by (simp add: resume_def t i0 reattach_all_def reattach_next_def exchange_attach_first [of _ sv] sv s tm start_task_def next_generation_def
              serving_phase_def attaches_def None)
      next
        case (AwaitSubscribe c g)
        then show ?thesis using a ReattachAll
          by (cases out) (simp_all add: resume_def t i0 reattach_all_def serving_attached_def exchange_attached_def sv s tm start_task_def
              serving_phase_def attaches_def None set_serving_def attached_task_def)
      next
        case (AwaitAttach c b)
        then show ?thesis using a ReattachAll
          by (simp add: resume_def t i0 reattach_all_def schedule_reattach_def open_service sv s tm serving_phase_def attaches_def None)
      qed
    qed
  next
    case (Some h)
    then have tm: "su_timers s = []" and a: "attached_task t" using s(3) t by (simp_all add: serving_phase_def sv)
    then show ?thesis using Some s
      by (auto simp: attached_task_def resume_def t i0 attach_one_def reattach_all_def reattach_next_def sv serving_phase_def attaches_def)
  qed
  then show ?thesis using one ok keep open_service by (simp add: one_serving_def same_service_def sv)
qed

subsection \<open>The readiness of the host\<close>

lemma core_ready: "core t = core s \<Longrightarrow> ap_ready t = ap_ready s"
  by (simp add: core_def)

lemma winds_ready: "winds s t \<Longrightarrow> ap_ready t = ap_ready s"
  using winds_keptD by (fastforce simp: kept_def)

lemma end_all_ready [simp]: "ap_ready (end_all C reason s) = ap_ready s"
  using winds_ready [OF finish_all_winds, of C reason "jm_keys (ap_offers s)" s] by (simp add: end_all_def save_resume_def)

lemma set_ready_ready [simp]: "ap_ready (set_ready C b s) = b"
  by (simp add: set_ready_def changed_def Let_def)

lemma receive_call_ready [simp]: "ap_ready (receive_call C fresh q s) = ap_ready s"
proof -
  let ?s = "s\<lparr>ap_fresh := ap_fresh s + 1\<rparr>"
  have "ap_ready (fst (receive C fresh q ?s)) = ap_ready ?s"
  proof (cases rule: receive_core [of ?s C fresh q])
    case (winds u)
    show ?thesis using winds_ready [OF winds(1)] core_ready [OF winds(2)] by simp
  next
    case (offers ofr)
    show ?thesis using core_ready [OF offers(1)] by simp
  qed
  then show ?thesis unfolding receive_call_def Let_def by (subst core_ready [OF proceed_core]) simp
qed

lemma crypto_ready [simp]: "ap_ready (fst (crypto_settles C b fresh secret q point s)) = ap_ready s"
  by (auto simp: crypto_settles_def grant_resumed_def changed_def Let_def split: await_point.split)

lemma proceed_ready [simp]: "ap_ready (proceed i q p) = ap_ready (fst p)"
  using proceed_core core_ready by blast

lemma prepare_ready [simp]: "ap_ready (fst (prepare_settles C outcome q tok s)) = ap_ready s"
proof -
  have "core (fst (prepare_settles C outcome q tok s)) = core s \<or> core (fst (prepare_settles C outcome q tok s)) = core (expire C s)"
    using prepare_core by blast
  then show ?thesis using core_ready expire_kept(2) by metis
qed

lemma accept_ready [simp]: "ap_ready (accept_offer C secret tok s) = ap_ready s"
proof (cases rule: accept_offerE [of C secret tok s])
  case (grants ofr v)
  from grants(7) have "ap_ready v = ap_ready (granted_state C secret tok ofr s)" by (rule winds_ready)
  with grants show ?thesis by (simp add: changed_def granted_state_def Let_def)
qed simp

lemma own_step_ready: "assist_step C s l t \<Longrightarrow> own_label l \<Longrightarrow> ap_ready t = ap_ready s"
proof (induction rule: assist_step.induct)
  case (step_prepare s i q tok outcome)
  obtain u reply where u: "prepare_settles C outcome q tok s = (u, reply)" by fastforce
  then have "ap_ready u = ap_ready s" using prepare_ready by (metis fst_conv)
  then show ?case by (simp add: u)
qed (simp_all add: enable_def changed_def Let_def decline_def pending_def)

subsection \<open>The stages of a binding\<close>

text \<open>The abstract binding: it attaches, serves, and is shut.\<close>

datatype stage = Attaching | Serving | Shut

fun stage_step :: "stage \<Rightarrow> stage \<Rightarrow> bool" where
  "stage_step Attaching st \<longleftrightarrow> True"
| "stage_step Serving st \<longleftrightarrow> st \<noteq> Attaching"
| "stage_step Shut st \<longleftrightarrow> st = Shut"

definition stage :: "'p transport \<Rightarrow> stage" where
  "stage s = (if tb_closed s then Shut else if tb_ready s = Resolved then Serving else Attaching)"

definition transport_ok :: "jstr \<Rightarrow> 'p transport \<Rightarrow> bool" where
  "transport_ok share s \<longleftrightarrow> one_serving (service_surface share) (tb_supplier s) \<and> tb_closed s = su_detached (tb_supplier s)
     \<and> ap_ready (tb_host s) = (stage s = Serving)
     \<and> (if tb_closed s then tb_ready s \<in> {Resolved, Rejected closed_error} \<and> \<not> tb_drop_on s \<and> \<not> tb_client_open s
        else tb_drop_on s \<and> tb_client_open s \<and> tb_ready s \<in> {Opening, Resolved}
          \<and> (off_of (tb_supplier s) 0 \<noteq> None \<longleftrightarrow> tb_ready s = Resolved) \<and> (\<forall>ag. (ag, False) \<notin> set (tb_settled s)))"

lemma transport_ok_bound: "\<not> ap_ready host \<Longrightarrow> transport_ok share (bind_assistance share host)"
  using one_serving_bound [of share host]
  by (simp add: transport_ok_def stage_def)
    (simp add: bind_assistance_def serve_exchange_def require_exchange_shape_def service_surface_def register_def Let_def
        start_task_def ensure_hello_def attach_supplier_def new_serving_def)

lemma close_ok:
  assumes ok: "transport_ok share s"
  shows "transport_ok share (close_binding T s) \<and> tb_closed (close_binding T s)"
proof (cases "tb_closed s")
  case True
  with ok show ?thesis by (simp add: close_binding_def)
next
  case False
  have "one_serving (service_surface share) (tb_supplier s)" using ok by (simp add: transport_ok_def)
  then have "one_serving (service_surface share) (detach_all (tb_supplier s)) \<and> su_detached (detach_all (tb_supplier s))"
    by (rule detach_all_one_serving)
  with False ok show ?thesis by (auto simp: close_binding_def transport_ok_def stage_def settle_ready_def)
qed

lemma subscribed_ok:
  assumes ok: "transport_ok share s"
  shows "transport_ok share (port_subscribed T ag error s)"
proof (cases error)
  case None
  with ok show ?thesis by (auto simp: port_subscribed_def transport_ok_def stage_def)
next
  case (Some e)
  let ?c = "close_binding T s"
  have c: "transport_ok share ?c" "tb_closed ?c" using close_ok [OF ok] by blast+
  have "close_binding T (s\<lparr>tb_settled := x\<rparr>) = ?c\<lparr>tb_settled := x\<rparr>" for x by (simp add: close_binding_def)
  then have "port_subscribed T ag error s = ?c\<lparr>tb_settled := tb_settled s @ [(ag, False)], tb_ready := settle_ready (Rejected e) (tb_ready ?c)\<rparr>"
    by (simp add: port_subscribed_def Some Let_def)
  moreover have "settle_ready (Rejected e) (tb_ready ?c) = tb_ready ?c"
    using c by (auto simp: transport_ok_def settle_ready_def)
  ultimately show ?thesis using c by (simp add: transport_ok_def stage_def)
qed

text \<open>An open supplier waits for the subscription of its serving's current generation, or for none.\<close>

lemma open_subscription:
  assumes one: "one_serving sf s" and live: "\<not> su_detached s" and i: "i < length (su_tasks s)"
    and sub: "task_subscription (su_tasks s ! i) = Some (a, g)"
  shows "a = 0 \<and> g = generation_of s 0 \<and> \<not> serving_stale a g s"
proof -
  have "serving_phase s" "\<not> detached_of s 0" using one live by (simp_all add: one_serving_def)
  then obtain t where t: "su_tasks s ! i = t" "attaching (generation_of s 0) t \<or> attached_task t"
    using i by (auto simp: serving_phase_def split: if_splits)
  with sub \<open>\<not> detached_of s 0\<close> show ?thesis
    by (cases t) (auto simp: attached_task_def serving_stale_def split: attach_phase.splits)
qed

lemma goes_on_closed:
  assumes "transport_ok share s" "tb_closed s" "i < length (su_tasks (tb_supplier s))"
  shows "\<exists>out. supplier_goes_on T i throws s = s\<lparr>tb_supplier := resume transport_supplier i out (tb_supplier s)\<rparr>"
  using assms by (auto simp: supplier_goes_on_def port_on_exchange_req_def split: option.split)

lemma goes_on_ok:
  assumes ok: "transport_ok share s" and i: "i < length (su_tasks (tb_supplier s))"
  shows "transport_ok share (supplier_goes_on T i throws s)"
proof (cases "tb_closed s")
  case True
  let ?su = "tb_supplier s"
  obtain out where out: "supplier_goes_on T i throws s = s\<lparr>tb_supplier := resume transport_supplier i out ?su\<rparr>"
    using goes_on_closed [OF ok True i] by blast
  have one: "one_serving (service_surface share) ?su" using ok by (simp add: transport_ok_def)
  then have "supplier_ok (resume transport_supplier i out ?su)" using i by (simp add: one_serving_def resume_ok)
  then have "one_serving (service_surface share) (resume transport_supplier i out ?su) \<and> su_detached (resume transport_supplier i out ?su)"
    using detached_stays [OF one] resume_service [OF i] ok True by (simp add: transport_ok_def)
  with True ok show ?thesis by (simp add: out transport_ok_def stage_def)
next
  case False
  let ?su = "tb_supplier s"
  have one: "one_serving (service_surface share) ?su" and live: "\<not> su_detached ?su" using ok False by (simp_all add: transport_ok_def)
  note R = resume_one_serving [OF one i live, of transport_supplier]
  have quiet: "transport_ok share (s\<lparr>tb_supplier := resume transport_supplier i out ?su\<rparr>)" if "\<not> attaches ?su i out" for out
    using R [of out] that ok False by (simp add: transport_ok_def stage_def)
  show ?thesis
  proof (cases "task_subscription (su_tasks ?su ! i)")
    case None
    then show ?thesis using quiet [of Subscribed] by (simp add: supplier_goes_on_def attaches_def)
  next
    case (Some ag)
    obtain a g where ag: "ag = (a, g)" by fastforce
    have sub: "a = 0" "g = generation_of ?su 0" "\<not> serving_stale a g ?su"
      using open_subscription [OF one live i] Some ag by blast+
    show ?thesis
    proof (cases "map_of (tb_settled s) (a, g) = Some True \<and> \<not> throws")
      case True
      have "attaches ?su i Subscribed" using Some sub by (simp add: attaches_def ag)
      then have "transport_ok share (s\<lparr>tb_host := set_ready (tc_host T) True (tb_host s), tb_ready := Resolved,
          tb_supplier := resume transport_supplier i Subscribed ?su\<rparr>)"
        using R [of Subscribed] ok False by (simp add: transport_ok_def stage_def)
      moreover have "settle_ready Resolved (tb_ready s) = Resolved" using ok False by (auto simp: transport_ok_def settle_ready_def)
      ultimately show ?thesis using True False Some sub by (simp add: supplier_goes_on_def port_on_exchange_req_def ag)
    next
      case off: False
      then show ?thesis using quiet [of SubscribeFailed] quiet [of HookThrows] False Some sub
        by (auto simp: supplier_goes_on_def port_on_exchange_req_def ag attaches_def)
    qed
  qed
qed

text \<open>Requests leave the stage alone.\<close>

definition same_stage :: "'p transport \<Rightarrow> 'p transport \<Rightarrow> bool" where
  "same_stage s t \<longleftrightarrow> tb_supplier t = tb_supplier s \<and> tb_closed t = tb_closed s \<and> tb_ready t = tb_ready s \<and> tb_drop_on t = tb_drop_on s
     \<and> tb_client_open t = tb_client_open s \<and> tb_settled t = tb_settled s \<and> ap_ready (tb_host t) = ap_ready (tb_host s)"

lemma same_stage_ok: "same_stage s t \<Longrightarrow> transport_ok share s \<Longrightarrow> transport_ok share t"
  unfolding same_stage_def transport_ok_def stage_def by (cases "tb_closed s") auto

lemma request_arrives_fields:
  obtains rs hs where "request_arrives rq s = s\<lparr>tb_requests := rs, tb_handling := hs\<rparr>"
proof -
  let ?f = "\<lambda>_ s. s\<lparr>tb_requests := tb_requests s @ [rq], tb_handling := jm_set (length (tb_requests s)) Arrived (tb_handling s)\<rparr>"
  have "\<exists>rs hs. fold ?f as s = s\<lparr>tb_requests := rs, tb_handling := hs\<rparr>" for as :: "nat list"
  proof (induction as arbitrary: s)
    case Nil
    have "fold ?f [] s = s\<lparr>tb_requests := tb_requests s, tb_handling := tb_handling s\<rparr>" by simp
    then show ?case by blast
  next
    case (Cons a as)
    obtain rs hs where "fold ?f as (?f a s) = (?f a s)\<lparr>tb_requests := rs, tb_handling := hs\<rparr>" using Cons.IH by blast
    then have "fold ?f (a # as) s = s\<lparr>tb_requests := rs, tb_handling := hs\<rparr>" by simp
    then show ?case by blast
  qed
  then show ?thesis using that unfolding request_arrives_def by blast
qed

lemma same_stage_requests [simp]:
  "same_stage s (request_arrives rq s)" "same_stage s (handler_runs T h fresh s)" "same_stage s (host_answers T h reply s)"
  "same_stage s (responds h outcome thr s)"
proof -
  show "same_stage s (request_arrives rq s)" by (rule request_arrives_fields [of rq s]) (simp add: same_stage_def)
qed (simp_all add: same_stage_def handler_runs_def host_answers_def responds_def Let_def split: option.split)

lemma transport_step_ok: "transport_step T s l t \<Longrightarrow> transport_ok share s \<Longrightarrow> transport_ok share t"
proof (induction rule: transport_step.induct)
  case (step_host s l host)
  have "same_stage s (s\<lparr>tb_host := host\<rparr>)" using own_step_ready [OF step_host(1,2)] by (simp add: same_stage_def)
  then show ?case using step_host(3) by (rule same_stage_ok)
next
  case (step_retry t ms s)
  have "one_serving (service_surface share) (tb_supplier s)" using step_retry by (simp add: transport_ok_def)
  from fire_one_serving [OF this step_retry(1), of transport_supplier] step_retry(2) show ?case
    unfolding transport_ok_def stage_def by (cases "tb_closed s") auto
next
  case (step_request s rq)
  show ?case by (rule same_stage_ok [OF same_stage_requests(1) step_request])
next
  case (step_handler s h fresh)
  show ?case by (rule same_stage_ok [OF same_stage_requests(2) step_handler(3)])
next
  case (step_answered s h i reply)
  show ?case by (rule same_stage_ok [OF same_stage_requests(3) step_answered(3)])
next
  case (step_respond s h outcome throws)
  show ?case by (rule same_stage_ok [OF same_stage_requests(4) step_respond(2)])
qed (simp_all add: close_ok subscribed_ok goes_on_ok)

lemma transport_run_ok:
  assumes "steps (transport_step T) (bind_assistance share host) ls s" "\<not> ap_ready host"
  shows "transport_ok share s"
proof (rule steps_invariant [OF assms(1)])
  show "transport_ok share (bind_assistance share host)" by (rule transport_ok_bound [OF assms(2)])
qed (rule transport_step_ok)

text \<open>How the stages follow each other, and what is final.\<close>

lemma settled_stays: "r \<noteq> Opening \<Longrightarrow> settle_ready out r = r"
  by (simp add: settle_ready_def)

lemma close_final:
  "tb_closed (close_binding T s)" "tb_ready s \<noteq> Opening \<Longrightarrow> tb_ready (close_binding T s) = tb_ready s"
  "tb_sent (close_binding T s) = tb_sent s"
  by (simp_all add: close_binding_def settled_stays)

lemma transport_step_final:
  "transport_step T s l t \<Longrightarrow> (tb_closed s \<longrightarrow> tb_closed t) \<and> (tb_ready s \<noteq> Opening \<longrightarrow> tb_ready t = tb_ready s)
     \<and> (tb_closed s \<longrightarrow> tb_sent t = tb_sent s)"
proof (induction rule: transport_step.induct)
  case (step_subscribed t s a g error)
  show ?case
    by (cases error) (simp_all add: port_subscribed_def Let_def close_final settled_stays)
next
  case (step_supplier i s throws)
  show ?case
    by (auto simp: supplier_goes_on_def port_on_exchange_req_def settled_stays split: option.split prod.split if_splits)
next
  case (step_request s rq)
  show ?case by (rule request_arrives_fields [of rq s]) simp
qed (simp_all add: close_final, simp_all add: handler_runs_def host_answers_def responds_def Let_def split: option.split)

lemma transport_step_stage: "transport_step T s l t \<Longrightarrow> stage_step (stage s) (stage t)"
  using transport_step_final [of T s l t] by (auto simp: stage_def)

subsection \<open>A binding can always open\<close>

text \<open>What is left until the serving is attached, when nothing fails.\<close>

definition opening_rank :: "supplier \<Rightarrow> nat" where
  "opening_rank s = (case su_tasks s of
       [] \<Rightarrow> 3
     | AttachOne a ph # _ \<Rightarrow> (case ph of AwaitHello \<Rightarrow> 2 | AwaitSubscribe b g \<Rightarrow> 1 | AwaitAttach b ok \<Rightarrow> 4)
     | ReattachAll r ph # _ \<Rightarrow> (case ph of AwaitHello \<Rightarrow> 2 | AwaitSubscribe b g \<Rightarrow> 1 | AwaitAttach b ok \<Rightarrow> 4))"

lemma opening_rank_le: "opening_rank s \<le> 4"
  by (simp add: opening_rank_def split: list.split task.split attach_phase.split)

lemma resume_rank:
  assumes one: "one_serving sf s" and live: "\<not> su_detached s" and off: "off_of s 0 = None" and t: "su_tasks s = [t]"
    and sub: "task_subscription t = None"
  shows "opening_rank (resume C 0 out s) < opening_rank s"
proof -
  obtain sv where sv: "su_heap s = [sv]" "sv_kind sv = ExchangeServing" "sv_surface sv = sf" using one_serving_heap [OF one] by blast
  have s: "su_servings s = [0]" "\<not> sv_detached sv" "attaching (sv_generation sv) t"
    using one live sv off t by (auto simp: one_serving_def serving_phase_def)
  show ?thesis
  proof (cases t)
    case (AttachOne b ph)
    with s sub show ?thesis
      by (cases ph) (simp_all add: resume_def t attach_one_def exchange_attach_first [of _ sv] sv start_task_def next_generation_def
          schedule_reattach_def live opening_rank_def)
  next
    case (ReattachAll reached ph)
    with s sub show ?thesis
      by (cases ph) (simp_all add: resume_def t reattach_all_def reattach_next_def exchange_attach_first [of _ sv] sv start_task_def next_generation_def
          schedule_reattach_def live opening_rank_def)
  qed
qed

definition opens_by :: "'p transport_label \<Rightarrow> bool" where
  "opens_by l \<longleftrightarrow> (case l of SubscriptionSettles a g error \<Rightarrow> error = None | SupplierGoesOn i throws \<Rightarrow> \<not> throws | RetryFires t \<Rightarrow> True | _ \<Rightarrow> False)"

definition opening_work :: "'p transport \<Rightarrow> nat" where
  "opening_work s = 2 * opening_rank (tb_supplier s) + (if map_of (tb_settled s) (0, generation_of (tb_supplier s) 0) = None then 1 else 0)"

lemma opens_next:
  assumes ok: "transport_ok share s" and st: "stage s = Attaching"
  shows "\<exists>l t. transport_step T s l t \<and> opens_by l \<and> (stage t = Serving \<or> stage t = Attaching \<and> opening_work t < opening_work s)"
proof -
  let ?su = "tb_supplier s"
  have one: "one_serving (service_surface share) ?su" and open_now: "\<not> tb_closed s" "tb_ready s = Opening" and live: "\<not> su_detached ?su"
    and off: "off_of ?su 0 = None" and kept: "\<forall>ag. (ag, False) \<notin> set (tb_settled s)"
    using ok st by (auto simp: transport_ok_def stage_def split: if_splits)
  have phase: "serving_phase ?su" using one live by (simp add: one_serving_def)
  show ?thesis
  proof (cases "su_tasks ?su")
    case Nil
    with phase off obtain t ms where t: "su_timers ?su = [(t, ms)]" by (auto simp: serving_phase_def)
    let ?t = "s\<lparr>tb_supplier := fire transport_supplier t ?su\<rparr>"
    have "transport_step T s (RetryFires t) ?t" by (rule step_retry [of t ms]) (simp add: t)
    moreover have "stage ?t = Attaching" using open_now by (simp add: stage_def)
    moreover have "opening_work ?t < opening_work s"
      using live Nil by (simp add: opening_work_def fire_def start_task_def ensure_hello_def Let_def opening_rank_def)
    moreover have "opens_by (RetryFires t)" by (simp add: opens_by_def)
    ultimately show ?thesis by blast
  next
    case (Cons t ts)
    with phase off have t: "su_tasks ?su = [t]" by (auto simp: serving_phase_def)
    show ?thesis
    proof (cases "task_subscription t")
      case None
      let ?t = "supplier_goes_on T 0 False s"
      have eq: "?t = s\<lparr>tb_supplier := resume transport_supplier 0 Subscribed ?su\<rparr>" by (simp add: supplier_goes_on_def t None)
      have "transport_step T s (SupplierGoesOn 0 False) ?t" by (rule step_supplier) (simp_all add: t None)
      moreover have "stage ?t = Attaching" using open_now by (simp add: eq stage_def)
      moreover have "opening_work ?t < opening_work s"
        using resume_rank [OF one live off t None, of transport_supplier Subscribed] by (simp add: opening_work_def eq)
      moreover have "opens_by (SupplierGoesOn 0 False)" by (simp add: opens_by_def)
      ultimately show ?thesis by blast
    next
      case (Some ag)
      then have ag: "ag = (0, generation_of ?su 0)" and fresh: "\<not> serving_stale 0 (generation_of ?su 0) ?su"
        using open_subscription [OF one live, of 0] t by (cases ag; fastforce)+
      show ?thesis
      proof (cases "map_of (tb_settled s) ag")
        case None
        let ?t = "port_subscribed T ag None s"
        have eq: "?t = s\<lparr>tb_settled := tb_settled s @ [(ag, True)]\<rparr>" by (simp add: port_subscribed_def)
        have "transport_step T s (SubscriptionSettles 0 (generation_of ?su 0) None) ?t"
          unfolding ag by (rule step_subscribed [of t]) (use t Some None in \<open>simp_all add: ag\<close>)
        moreover have "stage ?t = Attaching" using open_now by (simp add: eq stage_def)
        moreover have "opening_work ?t < opening_work s" using None unfolding opening_work_def eq by (simp add: ag)
        moreover have "opens_by (SubscriptionSettles 0 (generation_of ?su 0) None)" by (simp add: opens_by_def)
        ultimately show ?thesis by blast
      next
        case (Some b)
        have "b = True"
        proof (rule ccontr)
          assume "b \<noteq> True"
          with jm_get_in [OF Some] have "(ag, False) \<in> set (tb_settled s)" by simp
          with kept show False by blast
        qed
        with Some have granted: "map_of (tb_settled s) ag = Some True" by simp
        let ?t = "supplier_goes_on T 0 False s"
        have "transport_step T s (SupplierGoesOn 0 False) ?t"
          by (rule step_supplier) (use t granted \<open>task_subscription t = Some ag\<close> in auto)
        moreover have "stage ?t = Serving"
          using open_now granted fresh \<open>task_subscription t = Some ag\<close>
          by (simp add: supplier_goes_on_def t ag port_on_exchange_req_def stage_def settle_ready_def)
        moreover have "opens_by (SupplierGoesOn 0 False)" by (simp add: opens_by_def)
        ultimately show ?thesis by blast
      qed
    qed
  qed
qed

lemma transport_opens_run:
  "transport_ok share s \<Longrightarrow> stage s = Attaching \<Longrightarrow>
    \<exists>ms t. steps (transport_step T) s ms t \<and> list_all opens_by ms \<and> length ms \<le> opening_work s + 1 \<and> stage t = Serving"
proof (induction "opening_work s" arbitrary: s rule: less_induct)
  case less
  obtain l t where l: "transport_step T s l t" "opens_by l" "stage t = Serving \<or> stage t = Attaching \<and> opening_work t < opening_work s"
    using opens_next [OF less.prems] by blast
  show ?case
  proof (cases "stage t = Serving")
    case True
    then have "steps (transport_step T) s [l] t" using l by simp
    with True l show ?thesis by (intro exI [of _ "[l]"] exI [of _ t]) simp
  next
    case False
    then have t: "stage t = Attaching" "opening_work t < opening_work s" using l by auto
    obtain ms u where ms: "steps (transport_step T) t ms u" "list_all opens_by ms" "length ms \<le> opening_work t + 1" "stage u = Serving"
      using less.hyps [OF t(2) transport_step_ok [OF l(1) less.prems(1)] t(1)] by blast
    have "steps (transport_step T) s (l # ms) u" using l(1) ms(1) by (rule steps_trans)
    with ms l t show ?thesis by (intro exI [of _ "l # ms"] exI [of _ u]) simp
  qed
qed

subsection \<open>A sample binding\<close>

text \<open>A host is bound, its subscription granted, and its serving attached; then a request arrives.\<close>

definition sample_host :: "int assist_supplier" where
  "sample_host = new_supplier host_config 7 0"

definition refused_reply :: assistance_result where
  "refused_reply = assist_reason ''refused'' (jlit ''identity or version mismatch'')"

definition sample_question :: assistance_request where
  "sample_question = (host_request ''read'' None None JNull)\<lparr>aq_version := 2\<rparr>"

definition sample_transport :: "int transport_config" where
  "sample_transport = \<lparr>tc_host = host_config, tc_decode_request = (\<lambda>b. if b = [1] then Some sample_question else None),
     tc_encode_request = (\<lambda>q. if q = sample_question then Inr [1] else Inl (jlit ''x'')),
     tc_decode_result = (\<lambda>b. if b = [2] then Some refused_reply else None),
     tc_encode_result = (\<lambda>r. if r = refused_reply then Inr [2] else Inl (jlit ''x''))\<rparr>"

definition bound :: "int transport" where
  "bound = bind_assistance (jlit ''S'') sample_host"

definition bound_serving :: "int transport" where
  "bound_serving = supplier_goes_on sample_transport 0 False (port_subscribed sample_transport (0, 1) None (supplier_goes_on sample_transport 0 False bound))"

definition serving_labels :: "int transport_label list" where
  "serving_labels = [SupplierGoesOn 0 False, SubscriptionSettles 0 1 None, SupplierGoesOn 0 False]"

lemma sample_host_idle: "\<not> ap_ready sample_host"
  by (simp add: sample_host_def new_supplier_def)

lemmas bound_eval = bound_def bind_assistance_def serve_exchange_def require_exchange_shape_def service_surface_def register_def Let_def
  start_task_def ensure_hello_def transport_supplier_def attach_supplier_def new_serving_def js_add_def

lemma bound_supplier: "tb_supplier bound = \<lparr>su_heap = [\<lparr>sv_kind = ExchangeServing, sv_surface = service_surface (jlit ''S''), sv_off = None,
      sv_detached = False, sv_generation = 0\<rparr>], su_servings = [0], su_drop_on = False, su_cancel = None, su_attempt = 0, su_helloed = True,
      su_detached = False, su_hellos = 0, su_fresh = 0, su_hooks = [], su_timers = [], su_tasks = [AttachOne 0 AwaitHello]\<rparr>"
  by (simp add: bound_eval)

lemma bound_subscribing: "supplier_goes_on sample_transport 0 False bound = bound\<lparr>tb_supplier := (tb_supplier bound)\<lparr>su_heap := [\<lparr>sv_kind = ExchangeServing,
      sv_surface = service_surface (jlit ''S''), sv_off = None, sv_detached = False, sv_generation = 1\<rparr>], su_tasks := [AttachOne 0 (AwaitSubscribe 0 1)]\<rparr>\<rparr>"
  by (simp add: supplier_goes_on_def resume_def attach_one_def call_attach_def serving_attach_def exchange_attach_def set_serving_def call_off_def
      start_task_def bound_supplier)

lemma bound_serving_eq: "bound_serving = bound\<lparr>tb_settled := [((0, 1), True)], tb_host := set_ready host_config True sample_host, tb_ready := Resolved,
    tb_supplier := (tb_supplier bound)\<lparr>su_heap := [\<lparr>sv_kind = ExchangeServing, sv_surface = service_surface (jlit ''S''), sv_off = Some 0,
      sv_detached = False, sv_generation = 1\<rparr>], su_hooks := [\<lparr>hk_id = 0, hk_serving = 0, hk_generation = 1\<rparr>], su_fresh := 1,
      su_tasks := [AttachOne 0 (AwaitAttach 0 True)]\<rparr>\<rparr>"
proof -
  have b: "tb_settled bound = []" "tb_closed bound = False" "tb_host bound = sample_host" "tb_ready bound = Opening" "tc_host sample_transport = host_config"
    by (simp_all add: bound_def bind_assistance_def sample_transport_def)
  show ?thesis unfolding bound_serving_def bound_subscribing
    by (simp add: port_subscribed_def supplier_goes_on_def b serving_stale_def port_on_exchange_req_def settle_ready_def
        resume_def attach_one_def serving_attached_def exchange_attached_def set_serving_def start_task_def) (simp add: bound_supplier)
qed

lemma bound_run: "steps (transport_step sample_transport) bound serving_labels bound_serving"
proof -
  let ?u = "supplier_goes_on sample_transport 0 False bound"
  let ?v = "port_subscribed sample_transport (0, 1) None ?u"
  have "transport_step sample_transport bound (SupplierGoesOn 0 False) ?u" by (rule step_supplier) (simp_all add: bound_supplier)
  moreover have "transport_step sample_transport ?u (SubscriptionSettles 0 1 None) ?v"
    by (rule step_subscribed [of "AttachOne 0 (AwaitSubscribe 0 1)"]) (simp_all add: bound_subscribing, simp add: bound_def bind_assistance_def)
  moreover have "transport_step sample_transport ?v (SupplierGoesOn 0 False) bound_serving"
    unfolding bound_serving_def by (rule step_supplier) (simp_all add: bound_subscribing port_subscribed_def)
  ultimately show ?thesis by (simp add: serving_labels_def) blast
qed

lemma bound_serving_stage: "stage bound_serving = Serving"
  by (simp add: bound_serving_eq stage_def bound_def bind_assistance_def)

subsection \<open>Properties\<close>

text \<open>C16. A binding goes through the stages attaching, serving and shut, and never back: while it attaches it takes no
  request and the host is not ready; once its promise is resolved the host is ready and takes every
  request for the service exactly once; when it is shut, whoever closed it, the host is not ready, no request
  is taken, no reply is sent any more, the promise has settled and the client is closed.\<close>

theorem transport_lifecycle:
  assumes run: "steps (transport_step T) (bind_assistance share host) ls s" and host: "\<not> ap_ready host" and step: "transport_step T s l t"
  shows "stage_step (stage s) (stage t) \<and> (tb_ready s = Opening \<longleftrightarrow> stage s = Attaching)
    \<and> (ap_ready (tb_host s) \<longleftrightarrow> stage s = Serving)
    \<and> deliver_request rq (tb_supplier s) = (if stage s = Serving \<and> exchange_accepts (service_surface share) rq then [0] else [])
    \<and> (stage s = Shut \<longrightarrow> tb_sent t = tb_sent s \<and> tb_ready t = tb_ready s \<and> \<not> tb_client_open s \<and> \<not> tb_drop_on s)
    \<and> (\<forall>e. tb_ready s = Rejected e \<longrightarrow> stage s = Shut \<and> e = closed_error)"
proof -
  have ok: "transport_ok share s" by (rule transport_run_ok [OF run host])
  then have one: "one_serving (service_surface share) (tb_supplier s)" by (simp add: transport_ok_def)
  have "tb_ready s = Opening \<longleftrightarrow> stage s = Attaching" "ap_ready (tb_host s) \<longleftrightarrow> stage s = Serving"
    "\<forall>e. tb_ready s = Rejected e \<longrightarrow> stage s = Shut \<and> e = closed_error"
    "(\<not> su_detached (tb_supplier s) \<and> off_of (tb_supplier s) 0 \<noteq> None) \<longleftrightarrow> stage s = Serving"
    using ok by (auto simp: transport_ok_def stage_def split: if_splits)
  moreover have "stage s = Shut \<longrightarrow> tb_sent t = tb_sent s \<and> tb_ready t = tb_ready s \<and> \<not> tb_client_open s \<and> \<not> tb_drop_on s"
    using ok transport_step_final [OF step] by (auto simp: transport_ok_def stage_def split: if_splits)
  moreover have "deliver_request rq (tb_supplier s) = (if stage s = Serving \<and> exchange_accepts (service_surface share) rq then [0] else [])"
    using one_serving_requests [OF one, of rq] calculation(4) by (simp only: conj_assoc [symmetric])
  ultimately show ?thesis using transport_step_stage [OF step] by simp
qed

theorem transport_lifecycle_witness:
  "stage bound_serving = Serving \<and> stage (close_binding sample_transport bound_serving) = Shut
    \<and> deliver_request \<lparr>xq_share = jlit ''S'', xq_glade_id = service_id, xq_corr = jlit ''c'', xq_payload = [1]\<rparr> (tb_supplier bound_serving) = [0]"
proof -
  have "exchange_accepts (service_surface (jlit ''S'')) \<lparr>xq_share = jlit ''S'', xq_glade_id = service_id, xq_corr = jlit ''c'', xq_payload = [1]\<rparr>"
    by (simp add: exchange_accepts_def service_surface_def)
  moreover have "stage (close_binding sample_transport bound_serving) = Shut" by (simp add: close_binding_def stage_def)
  ultimately show ?thesis
    using transport_lifecycle [OF bound_run [unfolded bound_def] sample_host_idle step_close,
        of "\<lparr>xq_share = jlit ''S'', xq_glade_id = service_id, xq_corr = jlit ''c'', xq_payload = [1]\<rparr>"] bound_serving_stage
    by simp
qed

text \<open>C27. A binding that is not shut opens whenever nothing fails: at most ten grants of the subscription,
  retries and continuations of the supplier lead from every reachable state in which it attaches to one in which
  it serves, also after registrations that threw.\<close>

theorem transport_opens:
  assumes run: "steps (transport_step T) (bind_assistance share host) ls s" and host: "\<not> ap_ready host" and st: "stage s = Attaching"
  shows "\<exists>ms t. steps (transport_step T) s ms t \<and> list_all opens_by ms \<and> length ms \<le> 10 \<and> stage t = Serving"
proof -
  have "opening_work s + 1 \<le> 10" using opening_rank_le [of "tb_supplier s"] by (simp add: opening_work_def)
  with transport_opens_run [OF transport_run_ok [OF run host] st] show ?thesis by (metis le_trans)
qed

theorem transport_opens_witness:
  "\<exists>ms t. steps (transport_step sample_transport) bound ms t \<and> list_all opens_by ms \<and> length ms \<le> 10 \<and> stage t = Serving"
proof -
  have "stage bound = Attaching" by (simp add: stage_def bound_def bind_assistance_def)
  then show ?thesis using transport_opens [OF steps_refl sample_host_idle] unfolding bound_def by blast
qed

end
