(* ===== verification/Assistance_Wire_Calls.thy ===== *)
theory Assistance_Wire_Calls
  imports Assistance_Transport Assistance_Mcp
begin

text \<open>
  The client's side of \<open>src/assistance/glade.ts\<close>: \<open>callAssistance\<close>, \<open>advertise\<close> and \<open>watchDirectory\<close>.
\<close>

subsection \<open>A bounded call\<close>

text \<open>How \<open>client.exchange\<close> settles: it rejects with an error's string or gives a reply.\<close>

record client_reply =
  cl_ok :: bool
  cl_payload :: "bytes option"
  cl_error :: "jstr option"

definition reply_result :: "'p transport_config \<Rightarrow> client_reply \<Rightarrow> unit + assistance_result" where
  "reply_result T r =
     (case cl_payload r of
        Some b \<Rightarrow>
          if cl_ok r then (case tc_decode_result T b of None \<Rightarrow> Inl () | Some a \<Rightarrow> Inr a)
          else Inr (assist_reason ''unknown'' (default_to (jlit ''no application response'') (cl_error r)))
      | None \<Rightarrow> Inr (assist_reason ''unknown'' (default_to (jlit ''no application response'') (cl_error r))))"

definition wait_expired :: assistance_result where
  "wait_expired = assist_reason ''unknown'' (jlit ''transport wait expired; manual handling required'')"

text \<open>
  The race: what settled, in order, of the exchange and the timer of ten seconds. \<open>None\<close> is a promise
  that has not settled, \<open>Some (Inl ())\<close> one that rejects.
\<close>

datatype call_event = ExchangeRejects | ExchangeGives client_reply | TenSecondsPass

definition settles_with :: "'p transport_config \<Rightarrow> call_event \<Rightarrow> unit + assistance_result" where
  "settles_with T e =
     (case e of ExchangeRejects \<Rightarrow> Inl () | ExchangeGives r \<Rightarrow> reply_result T r | TenSecondsPass \<Rightarrow> Inr wait_expired)"

definition call_assistance :: "'p transport_config \<Rightarrow> assistance_request \<Rightarrow> call_event list \<Rightarrow> (unit + assistance_result) option" where
  "call_assistance T q events =
     (case tc_encode_request T q of
        Inl e \<Rightarrow> Some (Inl ())
      | Inr b \<Rightarrow> (case events of [] \<Rightarrow> None | e # rest \<Rightarrow> Some (settles_with T e)))"

text \<open>The request that the call sends, when it can be encoded.\<close>

definition call_request :: "'p transport_config \<Rightarrow> jstr \<Rightarrow> jstr \<Rightarrow> assistance_request \<Rightarrow> exchange_request option" where
  "call_request T share corr q =
     (case tc_encode_request T q of
        Inl e \<Rightarrow> None
      | Inr b \<Rightarrow> Some \<lparr>xq_share = share, xq_glade_id = service_id, xq_corr = corr, xq_payload = b\<rparr>)"

subsection \<open>The directory\<close>

text \<open>
  The schema of the advertisements. \<open>advertise\<close> appends a log entry; it throws when encoding throws, when
  the client's promise rejects and when the append is refused.
\<close>

record ad_schema =
  as_decode :: "bytes \<Rightarrow> advertisement option"
  as_encode :: "advertisement \<Rightarrow> bytes option"

definition advertise :: "ad_schema \<Rightarrow> jstr \<Rightarrow> advertisement \<Rightarrow> session_append option" where
  "advertise S share ad =
     (case as_encode S ad of
        None \<Rightarrow> None
      | Some b \<Rightarrow> Some \<lparr>sa_share = share, sa_glade_id = directory_id, sa_shape = jlit ''log'', sa_payload = b, sa_key = None\<rparr>)"

definition advertised :: "bool option \<Rightarrow> unit + unit" where
  "advertised outcome = (if outcome = Some True then Inr () else Inl ())"

text \<open>The advertisement in an operation that the listener hands on.\<close>

definition listed_ad :: "ad_schema \<Rightarrow> jstr \<Rightarrow> supplier_op \<Rightarrow> advertisement option" where
  "listed_ad S share op =
     (if so_share op \<noteq> share \<or> so_glade_id op \<noteq> directory_id \<or> length (so_payload op) > 65536 then None
      else case as_decode S (so_payload op) of
        None \<Rightarrow> None
      | Some a \<Rightarrow> if ad_version a = 1 then Some a else None)"

text \<open>
  A watch: whether it is active and registered with the client, what its promise gave, and the state that
  \<open>receive\<close> changes. An error that \<open>receive\<close> throws is dropped like a record that cannot be decoded.
\<close>

datatype watch_promise = WatchOpening | Watching | WatchFails

record 'm watch =
  wd_active :: bool
  wd_registered :: bool
  wd_promise :: watch_promise
  wd_receiver :: 'm

definition watch_directory :: "'m \<Rightarrow> 'm watch" where
  "watch_directory m = \<lparr>wd_active = True, wd_registered = True, wd_promise = WatchOpening, wd_receiver = m\<rparr>"

definition watch_ops :: "ad_schema \<Rightarrow> jstr \<Rightarrow> (advertisement \<Rightarrow> 'm \<Rightarrow> 'm) \<Rightarrow> supplier_op list \<Rightarrow> 'm watch \<Rightarrow> 'm watch" where
  "watch_ops S share f ops w =
     (if \<not> wd_active w then w
      else w\<lparr>wd_receiver := fold (\<lambda>op m. case listed_ad S share op of None \<Rightarrow> m | Some a \<Rightarrow> f a m) ops (wd_receiver w)\<rparr>)"

definition stop_watch :: "'m watch \<Rightarrow> 'm watch" where
  "stop_watch w = w\<lparr>wd_active := False, wd_registered := False\<rparr>"

text \<open>The subscription settles; \<open>None\<close> is a promise that rejects.\<close>

definition watch_settles :: "bool option \<Rightarrow> 'm watch \<Rightarrow> 'm watch" where
  "watch_settles outcome w =
     (if outcome = Some True then w\<lparr>wd_promise := Watching\<rparr> else (stop_watch w)\<lparr>wd_promise := WatchFails\<rparr>)"

text \<open>The events of a watch: operations arrive, the subscription settles, the caller stops.\<close>

datatype watch_event = OpsArrive "supplier_op list" | WatchSettles "bool option" | StopsWatch

fun watch_moves :: "ad_schema \<Rightarrow> jstr \<Rightarrow> (advertisement \<Rightarrow> 'm \<Rightarrow> 'm) \<Rightarrow> watch_event \<Rightarrow> 'm watch \<Rightarrow> 'm watch" where
  "watch_moves S share f (OpsArrive ops) w = (if wd_registered w then watch_ops S share f ops w else w)"
| "watch_moves S share f (WatchSettles outcome) w = (if wd_promise w = WatchOpening then watch_settles outcome w else w)"
| "watch_moves S share f StopsWatch w = (if wd_promise w = Watching then stop_watch w else w)"

definition watch_run :: "ad_schema \<Rightarrow> jstr \<Rightarrow> (advertisement \<Rightarrow> 'm \<Rightarrow> 'm) \<Rightarrow> watch_event list \<Rightarrow> 'm watch \<Rightarrow> 'm watch" where
  "watch_run S share f es w = fold (watch_moves S share f) es w"

end
