(* ===== verification/Transport_Replies.thy ===== *)
theory Transport_Replies
  imports Transport_Lifecycle Assistance_Wire_Calls
begin

text \<open>
  The replies of a binding are the host's: each request that the service takes reaches the host at most
  once, as a call of its own, and is answered at most once, with what the host answered.
\<close>

subsection \<open>The host's run\<close>

lemma proceed_replies: "set (ap_replies (fst p)) \<subseteq> set (ap_replies (proceed i q p))"
  by (cases p) (auto simp: proceed_def split: sum.split)

lemma assist_step_replies: "assist_step C s l t \<Longrightarrow> set (ap_replies s) \<subseteq> set (ap_replies t)"
proof (induction rule: assist_step.induct)
  case (step_receive s fresh q)
  let ?s = "s\<lparr>ap_fresh := Suc (ap_fresh s)\<rparr>"
  have "ap_replies (fst (receive C fresh q ?s)) = ap_replies s" using receive_suspends [of C q ?s fresh] by (simp add: suspends_def)
  then show ?case using proceed_replies [of "receive C fresh q ?s"] by (simp add: receive_call_def Let_def)
next
  case (step_crypto s i q point fresh b secret)
  have "ap_replies (fst (crypto_settles C b fresh secret q point s)) = ap_replies s"
    by (auto simp: crypto_settles_def grant_resumed_def changed_def Let_def split: await_point.split)
  then show ?case using proceed_replies by metis
next
  case (step_prepare s i q tok outcome)
  obtain u reply where u: "prepare_settles C outcome q tok s = (u, reply)" by fastforce
  have "ap_replies u = ap_replies s" using prepare_settles_kept(2) [of C outcome q tok s] by (simp add: u)
  then show ?case using proceed_replies [of "(u, Inl reply)"] by (simp add: u)
qed (simp_all add: enable_def set_ready_def changed_def Let_def decline_def pending_def end_all_kept_more accept_kept_more)

lemma assist_run_replies: "steps (assist_step C) s ls t \<Longrightarrow> set (ap_replies s) \<subseteq> set (ap_replies t)"
  by (induction rule: steps.induct) (use assist_step_replies in blast)+

text \<open>The host took the request as its call \<open>i\<close>, in a run that led to the state \<open>s\<close>.\<close>

definition took :: "'p assist_config \<Rightarrow> 'p assist_supplier \<Rightarrow> nat \<Rightarrow> assistance_request \<Rightarrow> 'p assist_supplier \<Rightarrow> bool" where
  "took C host i q s \<longleftrightarrow> (\<exists>before u fresh v after. steps (assist_step C) host before u \<and> ap_fresh u = i
     \<and> assist_step C u (Receives q fresh) v \<and> steps (assist_step C) v after s)"

lemma took_later: "took C host i q s \<Longrightarrow> steps (assist_step C) s ls t \<Longrightarrow> took C host i q t"
  unfolding took_def by (metis steps_append_iff)

subsection \<open>What the steps of a binding do with the host and its requests\<close>

definition host_run :: "'p transport_config \<Rightarrow> 'p transport \<Rightarrow> 'p transport \<Rightarrow> bool" where
  "host_run T s t \<longleftrightarrow> (\<exists>ls. steps (assist_step (tc_host T)) (tb_host s) ls (tb_host t))"

lemma host_run_same: "tb_host t = tb_host s \<Longrightarrow> host_run T s t"
  unfolding host_run_def by (metis steps_refl)

lemma host_run_step: "assist_step (tc_host T) (tb_host s) l (tb_host t) \<Longrightarrow> host_run T s t"
  unfolding host_run_def by (metis steps_refl steps_trans)

lemma close_host_run: "host_run T s (close_binding T s)"
proof (cases "tb_closed s")
  case False
  have "assist_step (tc_host T) (tb_host s) (SetsReady False) (set_ready (tc_host T) False (tb_host s))" by (rule step_ready)
  with False show ?thesis by (intro host_run_step) (simp add: close_binding_def)
qed (simp add: host_run_same close_binding_def)

lemma transport_step_host: "transport_step T s l t \<Longrightarrow> host_run T s t"
proof (induction rule: transport_step.induct)
  case (step_subscribed t s a g error)
  have "tb_host (port_subscribed T (a, g) error s) = (case error of None \<Rightarrow> tb_host s | Some e \<Rightarrow> tb_host (close_binding T s))"
    by (simp add: port_subscribed_def close_binding_def Let_def split: option.split)
  then show ?case using close_host_run [of T s] by (cases error) (simp_all add: host_run_def, metis steps_refl)
next
  case (step_supplier i s throws)
  have "tb_host (supplier_goes_on T i throws s) \<in> {tb_host s, set_ready (tc_host T) True (tb_host s)}"
    by (auto simp: supplier_goes_on_def port_on_exchange_req_def split: option.split)
  then show ?case using step_ready [of "tc_host T" "tb_host s" True] host_run_same host_run_step by (metis empty_iff insert_iff)
next
  case (step_request s rq)
  show ?case by (rule request_arrives_fields [of rq s]) (simp add: host_run_same)
next
  case (step_handler s h fresh)
  have "tb_host (handler_runs T h fresh s) = tb_host s
      \<or> (\<exists>q. tb_host (handler_runs T h fresh s) = receive_call (tc_host T) fresh q (tb_host s))"
    by (auto simp: handler_runs_def split: option.split)
  then show ?case using step_receive [OF step_handler(2), of "tc_host T"] host_run_same host_run_step by metis
qed (simp_all add: host_run_same host_run_step close_host_run host_answers_def responds_def Let_def split: option.split)

subsection \<open>What a reply answers\<close>

text \<open>
  The outcome of the function that handles the request \<open>h\<close>: a request that is too large or cannot be
  decoded is malformed, any other has the host's answer to the call it became; an error that the client threw
  when it was given the first reply takes the place of that.
\<close>

definition answered_by_host :: "'p transport_config \<Rightarrow> 'p assist_supplier \<Rightarrow> nat \<Rightarrow> jstr + exchange_answer \<Rightarrow> 'p transport \<Rightarrow> bool" where
  "answered_by_host T host h out s \<longleftrightarrow>
     (case admitted T (tb_requests s ! h) of
        None \<Rightarrow> out = encoded_answer T malformed
      | Some q \<Rightarrow> (\<exists>i reply. (h, i) \<in> set (tb_asked s) \<and> took (tc_host T) host i q (tb_host s)
          \<and> (i, reply) \<in> set (ap_replies (tb_host s)) \<and> out = host_answer T reply))"

definition justified :: "'p transport_config \<Rightarrow> 'p assist_supplier \<Rightarrow> 'p transport_label set \<Rightarrow> nat \<Rightarrow> jstr + exchange_answer \<Rightarrow> 'p transport \<Rightarrow> bool" where
  "justified T host L h out s \<longleftrightarrow> answered_by_host T host h out s \<or> (\<exists>e. out = Inl e \<and> Responds h (Some e) \<in> L)"

definition reply_for :: "exchange_request \<Rightarrow> jstr + exchange_answer \<Rightarrow> exchange_reply" where
  "reply_for rq out = hd (answer_request rq out None)"

definition phase_ok :: "'p transport_config \<Rightarrow> 'p assist_supplier \<Rightarrow> 'p transport_label set \<Rightarrow> nat \<Rightarrow> handling \<Rightarrow> 'p transport \<Rightarrow> bool" where
  "phase_ok T host L h ph s \<longleftrightarrow> h < length (tb_requests s) \<and> h \<notin> fst ` set (tb_sent s)
     \<and> (case ph of
          Arrived \<Rightarrow> h \<notin> fst ` set (tb_asked s)
        | AskedHost i \<Rightarrow> (h, i) \<in> set (tb_asked s)
        | HasAnswer out \<Rightarrow> justified T host L h out s \<or> tb_closed s \<and> out = Inr closed_answer)"

definition sent_ok :: "'p transport_config \<Rightarrow> 'p assist_supplier \<Rightarrow> 'p transport_label set \<Rightarrow> nat \<Rightarrow> exchange_reply \<Rightarrow> 'p transport \<Rightarrow> bool" where
  "sent_ok T host L h r s \<longleftrightarrow> h < length (tb_requests s) \<and> (\<exists>out. justified T host L h out s \<and> r = reply_for (tb_requests s ! h) out)"

definition asked_ok :: "'p transport_config \<Rightarrow> 'p assist_supplier \<Rightarrow> nat \<Rightarrow> nat \<Rightarrow> 'p transport \<Rightarrow> bool" where
  "asked_ok T host h i s \<longleftrightarrow> h < length (tb_requests s)
     \<and> (\<exists>q. admitted T (tb_requests s ! h) = Some q \<and> took (tc_host T) host i q (tb_host s))"

definition replies_ok :: "'p transport_config \<Rightarrow> jstr \<Rightarrow> 'p assist_supplier \<Rightarrow> 'p transport_label set \<Rightarrow> 'p transport \<Rightarrow> bool" where
  "replies_ok T share host L s \<longleftrightarrow>
     (\<forall>h ph. jm_get (tb_handling s) h = Some ph \<longrightarrow> phase_ok T host L h ph s)
     \<and> distinct (map fst (tb_sent s)) \<and> (\<forall>h r. (h, r) \<in> set (tb_sent s) \<longrightarrow> sent_ok T host L h r s)
     \<and> distinct (map fst (tb_asked s)) \<and> (\<forall>h i. (h, i) \<in> set (tb_asked s) \<longrightarrow> asked_ok T host h i s)
     \<and> (\<forall>rq \<in> set (tb_requests s). exchange_accepts (service_surface share) rq \<and> RequestArrives rq \<in> L)"

text \<open>What is justified stays justified.\<close>

definition goes_further :: "'p transport_config \<Rightarrow> 'p transport \<Rightarrow> 'p transport \<Rightarrow> bool" where
  "goes_further T s t \<longleftrightarrow> (\<exists>more. tb_requests t = tb_requests s @ more) \<and> set (tb_asked s) \<subseteq> set (tb_asked t) \<and> host_run T s t"

lemma justified_later:
  assumes "justified T host L h out s" "goes_further T s t" "h < length (tb_requests s)"
  shows "justified T host L h out t"
proof -
  obtain more ls where t: "tb_requests t = tb_requests s @ more" "set (tb_asked s) \<subseteq> set (tb_asked t)"
      "steps (assist_step (tc_host T)) (tb_host s) ls (tb_host t)"
    using assms(2) by (auto simp: goes_further_def host_run_def)
  have rq: "tb_requests t ! h = tb_requests s ! h" using assms(3) by (simp add: t(1) nth_append)
  have "answered_by_host T host h out t" if "answered_by_host T host h out s"
    using that took_later [OF _ t(3)] assist_run_replies [OF t(3)] t(2) by (fastforce simp: answered_by_host_def rq split: option.splits)
  then show ?thesis using assms(1) by (auto simp: justified_def)
qed

lemma sent_ok_later: "sent_ok T host L h r s \<Longrightarrow> goes_further T s t \<Longrightarrow> sent_ok T host L h r t"
  using justified_later [of T host L h _ s t] by (auto simp: sent_ok_def goes_further_def nth_append intro!: exI)

lemma asked_ok_later: "asked_ok T host h i s \<Longrightarrow> goes_further T s t \<Longrightarrow> asked_ok T host h i t"
  using took_later [of "tc_host T" host i _ "tb_host s" _ "tb_host t"] by (auto simp: asked_ok_def goes_further_def host_run_def nth_append)

lemma phase_ok_later:
  assumes "phase_ok T host L h ph s" "goes_further T s t" "h \<notin> fst ` set (tb_sent t)" "tb_closed s \<Longrightarrow> tb_closed t"
    "ph = Arrived \<Longrightarrow> h \<notin> fst ` set (tb_asked t)"
  shows "phase_ok T host L h ph t"
proof -
  have "h < length (tb_requests t)" "set (tb_asked s) \<subseteq> set (tb_asked t)" using assms(1,2) by (auto simp: phase_ok_def goes_further_def)
  moreover have "justified T host L h out t" if "justified T host L h out s" for out
    using justified_later [OF that assms(2)] assms(1) by (simp add: phase_ok_def)
  ultimately show ?thesis using assms by (auto simp: phase_ok_def split: handling.splits)
qed

text \<open>Steps that leave the requests alone, and steps of one request.\<close>

lemma replies_ok_frame:
  assumes ok: "replies_ok T share host L s" and further: "goes_further T s t" and closed: "tb_closed s \<Longrightarrow> tb_closed t"
    and same: "tb_requests t = tb_requests s" "tb_handling t = tb_handling s" "tb_asked t = tb_asked s" "tb_sent t = tb_sent s"
  shows "replies_ok T share host L t"
proof -
  have "phase_ok T host L h ph t" if "jm_get (tb_handling t) h = Some ph" for h ph
  proof -
    have p: "phase_ok T host L h ph s" using ok that by (simp add: replies_ok_def same)
    then show ?thesis using closed further by (rule_tac phase_ok_later [OF p]) (simp_all add: phase_ok_def same)
  qed
  then show ?thesis using ok sent_ok_later [OF _ further] asked_ok_later [OF _ further] by (simp add: replies_ok_def same)
qed

lemma replies_ok_one:
  assumes ok: "replies_ok T share host L s" and further: "goes_further T s t" and same: "tb_requests t = tb_requests s" "tb_closed t = tb_closed s"
    and others: "\<And>h'. h' \<noteq> h \<Longrightarrow> jm_get (tb_handling t) h' = jm_get (tb_handling s) h'"
    and asked: "tb_asked t = tb_asked s \<or> (\<exists>i. tb_asked t = tb_asked s @ [(h, i)] \<and> h \<notin> fst ` set (tb_asked s) \<and> asked_ok T host h i t)"
    and sent: "tb_sent t = tb_sent s \<or> (\<exists>r. tb_sent t = tb_sent s @ [(h, r)] \<and> h \<notin> fst ` set (tb_sent s) \<and> sent_ok T host L h r t)"
    and own: "\<And>ph. jm_get (tb_handling t) h = Some ph \<Longrightarrow> phase_ok T host L h ph t"
  shows "replies_ok T share host L t"
proof -
  have "phase_ok T host L h' ph t" if "jm_get (tb_handling t) h' = Some ph" for h' ph
  proof (cases "h' = h")
    case False
    then have p: "phase_ok T host L h' ph s" using ok that others by (simp add: replies_ok_def)
    then have "h' \<notin> fst ` set (tb_sent t)" "ph = Arrived \<Longrightarrow> h' \<notin> fst ` set (tb_asked t)"
      using sent asked False by (auto simp: phase_ok_def)
    then show ?thesis using same by (intro phase_ok_later [OF p further]) simp_all
  qed (use own that in simp)
  moreover have "sent_ok T host L h' r t" if "(h', r) \<in> set (tb_sent t)" for h' r
    using that sent ok sent_ok_later [OF _ further] by (auto simp: replies_ok_def)
  moreover have "asked_ok T host h' i t" if "(h', i) \<in> set (tb_asked t)" for h' i
    using that asked ok asked_ok_later [OF _ further] by (auto simp: replies_ok_def)
  moreover have "distinct (map fst (tb_sent t))" "distinct (map fst (tb_asked t))" using sent asked ok by (auto simp: replies_ok_def)
  ultimately show ?thesis using ok by (simp add: replies_ok_def same)
qed

subsection \<open>Every step\<close>

lemma further_same: "host_run T s t \<Longrightarrow> tb_requests t = tb_requests s \<Longrightarrow> set (tb_asked s) \<subseteq> set (tb_asked t) \<Longrightarrow> goes_further T s t"
  by (simp add: goes_further_def)

lemma close_same_requests [simp]:
  "tb_requests (close_binding T s) = tb_requests s" "tb_handling (close_binding T s) = tb_handling s"
  "tb_asked (close_binding T s) = tb_asked s" "tb_sent (close_binding T s) = tb_sent s"
  by (simp_all add: close_binding_def)

lemma subscribed_same_requests [simp]:
  "tb_requests (port_subscribed T ag error s) = tb_requests s" "tb_handling (port_subscribed T ag error s) = tb_handling s"
  "tb_asked (port_subscribed T ag error s) = tb_asked s" "tb_sent (port_subscribed T ag error s) = tb_sent s"
  by (simp_all add: port_subscribed_def Let_def split: option.split)

lemma goes_on_same_requests [simp]:
  "tb_requests (supplier_goes_on T i throws s) = tb_requests s" "tb_handling (supplier_goes_on T i throws s) = tb_handling s"
  "tb_asked (supplier_goes_on T i throws s) = tb_asked s" "tb_sent (supplier_goes_on T i throws s) = tb_sent s"
  by (auto simp: supplier_goes_on_def port_on_exchange_req_def split: option.split)

lemma frame_step_ok:
  assumes "transport_step T s l t" "replies_ok T share host L s"
    and same: "tb_requests t = tb_requests s" "tb_handling t = tb_handling s" "tb_asked t = tb_asked s" "tb_sent t = tb_sent s"
  shows "replies_ok T share host L t"
  using transport_step_final [OF assms(1)] further_same [OF transport_step_host [OF assms(1)]]
  by (intro replies_ok_frame [OF assms(2)]) (simp_all add: same)

lemma replies_okD:
  assumes "replies_ok T share host L s"
  shows "jm_get (tb_handling s) h = Some ph \<Longrightarrow> phase_ok T host L h ph s" "(h, r) \<in> set (tb_sent s) \<Longrightarrow> sent_ok T host L h r s"
    "(h, i) \<in> set (tb_asked s) \<Longrightarrow> asked_ok T host h i s"
  using assms by (simp_all add: replies_ok_def)

lemma request_arrives_open:
  assumes ok: "transport_ok share s"
  shows "request_arrives rq s = s \<or> exchange_accepts (service_surface share) rq
    \<and> request_arrives rq s = s\<lparr>tb_requests := tb_requests s @ [rq], tb_handling := jm_set (length (tb_requests s)) Arrived (tb_handling s)\<rparr>"
  using one_serving_requests [of "service_surface share" "tb_supplier s" rq] ok by (auto simp: request_arrives_def transport_ok_def)

lemma request_replies_ok:
  assumes ok: "replies_ok T share host L s" "transport_ok share s" and l: "RequestArrives rq \<in> L"
  shows "replies_ok T share host L (request_arrives rq s)"
proof (cases "request_arrives rq s = s")
  case False
  let ?n = "length (tb_requests s)"
  let ?t = "s\<lparr>tb_requests := tb_requests s @ [rq], tb_handling := jm_set ?n Arrived (tb_handling s)\<rparr>"
  have t: "request_arrives rq s = ?t" and accepts: "exchange_accepts (service_surface share) rq"
    using request_arrives_open [OF ok(2)] False by blast+
  have further: "goes_further T s ?t" by (simp add: goes_further_def host_run_same)
  have unused: "?n \<notin> fst ` set (tb_sent s)" "?n \<notin> fst ` set (tb_asked s)"
    using replies_okD(2,3) [OF ok(1), of ?n] by (auto simp: sent_ok_def asked_ok_def)
  have "phase_ok T host L h ph ?t" if "jm_get (tb_handling ?t) h = Some ph" for h ph
  proof (cases "h = ?n")
    case True
    with that unused show ?thesis by (auto simp: jm_get_set phase_ok_def)
  next
    case False
    then have p: "phase_ok T host L h ph s" using that ok(1) by (simp add: jm_get_set replies_ok_def)
    then show ?thesis by (intro phase_ok_later [OF p further]) (simp_all add: phase_ok_def)
  qed
  then show ?thesis unfolding t using ok(1) sent_ok_later [OF _ further] asked_ok_later [OF _ further] accepts l
    by (simp add: replies_ok_def)
qed (use ok in simp)

lemma handler_replies_ok:
  assumes ok: "replies_ok T share host L s" and h: "jm_get (tb_handling s) h = Some Arrived"
    and fresh: "jm_get (ap_offers (tb_host s)) fresh = None" and before: "steps (assist_step (tc_host T)) host hs (tb_host s)"
  shows "replies_ok T share host L (handler_runs T h fresh s)"
proof -
  let ?t = "handler_runs T h fresh s"
  have p: "h < length (tb_requests s)" "h \<notin> fst ` set (tb_sent s)" "h \<notin> fst ` set (tb_asked s)"
    using replies_okD(1) [OF ok h] by (auto simp: phase_ok_def)
  have run: "host_run T s ?t" by (rule transport_step_host [OF step_handler [OF h fresh]])
  have same: "tb_requests ?t = tb_requests s" "tb_closed ?t = tb_closed s" "tb_sent ?t = tb_sent s" "set (tb_asked s) \<subseteq> set (tb_asked ?t)"
      "h' \<noteq> h \<Longrightarrow> jm_get (tb_handling ?t) h' = jm_get (tb_handling s) h'" for h'
    by (auto simp: handler_runs_def jm_get_set split: option.split)
  note further = further_same [OF run same(1,4)]
  show ?thesis
  proof (cases "tb_closed s \<or> admitted T (tb_requests s ! h) = None")
    case True
    then show ?thesis using p
      by (intro replies_ok_one [where h = h, OF ok further]) (auto simp: same, auto simp: handler_runs_def jm_get_set phase_ok_def justified_def answered_by_host_def)
  next
    case False
    then obtain q where q: "\<not> tb_closed s" "admitted T (tb_requests s ! h) = Some q" by auto
    let ?i = "ap_fresh (tb_host s)"
    have t: "tb_handling ?t = jm_set h (AskedHost ?i) (tb_handling s)" "tb_asked ?t = tb_asked s @ [(h, ?i)]"
        "tb_host ?t = receive_call (tc_host T) fresh q (tb_host s)"
      using q by (simp_all add: handler_runs_def)
    have "took (tc_host T) host ?i q (tb_host ?t)"
      unfolding took_def t using before step_receive [OF fresh] by (blast intro: steps_refl)
    then have "asked_ok T host h ?i ?t" using p q by (auto simp: asked_ok_def same)
    then show ?thesis using p
      by (intro replies_ok_one [where h = h, OF ok further]) (auto simp: same, auto simp: t jm_get_set phase_ok_def same)
  qed
qed

lemma host_answers_ok:
  assumes ok: "replies_ok T share host L s" and h: "jm_get (tb_handling s) h = Some (AskedHost i)" and r: "(i, reply) \<in> set (ap_replies (tb_host s))"
  shows "replies_ok T share host L (host_answers T h reply s)"
proof -
  let ?t = "host_answers T h reply s"
  have p: "h < length (tb_requests s)" "h \<notin> fst ` set (tb_sent s)" "(h, i) \<in> set (tb_asked s)"
    using replies_okD(1) [OF ok h] by (auto simp: phase_ok_def)
  then have "asked_ok T host h i s" using ok by (simp add: replies_ok_def)
  then have "answered_by_host T host h (host_answer T reply) ?t"
    using p(3) r by (simp add: asked_ok_def answered_by_host_def host_answers_def) fastforce
  then have "justified T host L h (host_answer T reply) ?t" by (simp add: justified_def)
  moreover have "goes_further T s ?t" by (rule further_same) (simp_all add: host_run_same host_answers_def)
  ultimately show ?thesis using p
    by (intro replies_ok_one [where h = h, OF ok]) (auto simp: host_answers_def jm_get_set phase_ok_def)
qed

lemma responds_ok:
  assumes ok: "replies_ok T share host L s" and h: "jm_get (tb_handling s) h = Some (HasAnswer out)" and l: "Responds h thr \<in> L"
  shows "replies_ok T share host L (responds h out thr s)"
proof -
  let ?t = "responds h out thr s"
  have p: "h < length (tb_requests s)" "h \<notin> fst ` set (tb_sent s)" "\<not> tb_closed s \<Longrightarrow> justified T host L h out s"
    using replies_okD(1) [OF ok h] by (auto simp: phase_ok_def)
  have further: "goes_further T s ?t"
    by (rule further_same) (simp_all add: host_run_same responds_def Let_def split: option.split)
  have j: "\<not> tb_closed s \<Longrightarrow> justified T host L h out ?t" using justified_later [OF p(3) further p(1)] .
  have thrown: "justified T host L h (Inl e) ?t" if "thr = Some e" for e using l that by (auto simp: justified_def)
  show ?thesis using p(1,2) j thrown
    by (intro replies_ok_one [where h = h, OF ok further])
      (auto simp: responds_def Let_def jm_get_set jm_get_delete phase_ok_def sent_ok_def reply_for_def split: option.splits if_splits)
qed

lemma transport_step_replies:
  assumes step: "transport_step T s l t" and l: "l \<in> L"
    and ok: "transport_ok share s" "replies_ok T share host L s" "steps (assist_step (tc_host T)) host hs (tb_host s)"
  shows "replies_ok T share host L t"
  using step
proof cases
  case (step_request rq)
  then show ?thesis using request_replies_ok [OF ok(2,1)] l by simp
next
  case (step_handler h fresh)
  then show ?thesis using handler_replies_ok [OF ok(2) _ _ ok(3)] by simp
next
  case (step_answered h i reply)
  then show ?thesis using host_answers_ok [OF ok(2)] by simp
next
  case (step_respond h outcome throws)
  then show ?thesis using responds_ok [OF ok(2)] l by simp
qed (rule frame_step_ok [OF step ok(2)]; simp)+

lemma transport_run_replies:
  assumes run: "steps (transport_step T) (bind_assistance share host) ls s" and host: "\<not> ap_ready host"
  shows "replies_ok T share host (set ls) s \<and> (\<exists>hs. steps (assist_step (tc_host T)) host hs (tb_host s))"
proof -
  define I where "I s \<longleftrightarrow> transport_ok share s \<and> replies_ok T share host (set ls) s \<and> (\<exists>hs. steps (assist_step (tc_host T)) host hs (tb_host s))" for s
  have "I s"
  proof (rule steps_invariant_if [OF run, where P = "\<lambda>l. l \<in> set ls"])
    show "I (bind_assistance share host)"
      using transport_ok_bound [OF host] by (auto simp: I_def) (auto simp: bind_assistance_def replies_ok_def intro: steps_refl)
    show "I t" if step: "transport_step T s l t" and l: "l \<in> set ls" and s: "I s" for s l t
    proof -
      obtain hs where hs: "steps (assist_step (tc_host T)) host hs (tb_host s)" using s by (auto simp: I_def)
      obtain hs' where "steps (assist_step (tc_host T)) (tb_host s) hs' (tb_host t)"
        using transport_step_host [OF step] by (auto simp: host_run_def)
      with hs have "steps (assist_step (tc_host T)) host (hs @ hs') (tb_host t)" by (auto simp: steps_append_iff)
      then show ?thesis using transport_step_replies [OF step l _ _ hs] transport_step_ok [OF step] s by (auto simp: I_def)
    qed
  qed simp
  then show ?thesis by (simp add: I_def)
qed

subsection \<open>The sample binding answers\<close>

definition sample_exchange :: exchange_request where
  "sample_exchange = \<lparr>xq_share = jlit ''S'', xq_glade_id = service_id, xq_corr = jlit ''c'', xq_payload = [1]\<rparr>"

definition refused_exchange :: exchange_reply where
  "refused_exchange = \<lparr>xr_corr = jlit ''c'', xr_ok = True, xr_payload = Some [2], xr_error = None\<rparr>"

definition answering_labels :: "int transport_label list" where
  "answering_labels = serving_labels @ [RequestArrives sample_exchange, HandlerRuns 0 (jlit ''u''), HostAnswers 0, Responds 0 None]"

definition host_refusing :: "int assist_supplier" where
  "host_refusing = receive_call host_config (jlit ''u'') sample_question (set_ready host_config True sample_host)"

definition bound_answered :: "int transport" where
  "bound_answered = bound_serving\<lparr>tb_requests := [sample_exchange], tb_asked := [(0, 1)], tb_host := host_refusing, tb_sent := [(0, refused_exchange)]\<rparr>"

lemma host_refusing_replies: "ap_replies host_refusing = [(1, Answers refused_reply)]"
  by (simp add: host_refusing_def receive_call_def receive_def expire_def set_ready_def changed_def sample_host_def new_supplier_def proceed_def
      sample_question_def host_request_def refused_reply_def)

lemma bound_answered_run: "steps (transport_step sample_transport) (bind_assistance (jlit ''S'') sample_host) answering_labels bound_answered"
proof -
  let ?s1 = "bound_serving\<lparr>tb_requests := [sample_exchange], tb_handling := [(0, Arrived)]\<rparr>"
  let ?s2 = "?s1\<lparr>tb_handling := [(0, AskedHost 1)], tb_asked := [(0, 1)], tb_host := host_refusing\<rparr>"
  let ?s3 = "?s2\<lparr>tb_handling := [(0, HasAnswer (host_answer sample_transport (Answers refused_reply)))]\<rparr>"
  have b: "tb_requests bound_serving = []" "tb_handling bound_serving = []" "tb_asked bound_serving = []" "tb_sent bound_serving = []"
      "tb_closed bound_serving = False" "tb_host bound_serving = set_ready host_config True sample_host"
    by (simp_all add: bound_serving_eq bound_def bind_assistance_def)
  have fresh: "ap_fresh (set_ready host_config True sample_host) = 1" "ap_offers (set_ready host_config True sample_host) = []"
    by (simp_all add: set_ready_def changed_def sample_host_def new_supplier_def)
  have sample: "admitted sample_transport sample_exchange = Some sample_question" "tc_host sample_transport = host_config"
    by (simp_all add: admitted_def sample_transport_def sample_exchange_def)
  have "deliver_request sample_exchange (tb_supplier bound_serving) = [0]"
    using transport_lifecycle_witness by (simp add: sample_exchange_def)
  then have "request_arrives sample_exchange bound_serving = ?s1" by (simp add: request_arrives_def b)
  then have 1: "transport_step sample_transport bound_serving (RequestArrives sample_exchange) ?s1" by (metis step_request)
  have "handler_runs sample_transport 0 (jlit ''u'') ?s1 = ?s2" by (simp add: handler_runs_def b sample fresh host_refusing_def)
  then have 2: "transport_step sample_transport ?s1 (HandlerRuns 0 (jlit ''u'')) ?s2"
    using step_handler [of ?s1 0 "jlit ''u''" sample_transport] by (simp add: b fresh)
  have "host_answers sample_transport 0 (Answers refused_reply) ?s2 = ?s3" by (simp add: host_answers_def)
  then have 3: "transport_step sample_transport ?s2 (HostAnswers 0) ?s3"
    using step_answered [of ?s2 0 1 "Answers refused_reply" sample_transport] by (simp add: host_refusing_replies)
  have "reply_for sample_exchange (host_answer sample_transport (Answers refused_reply)) = refused_exchange"
    by (simp add: reply_for_def answer_request_def host_answer_def encoded_answer_def sample_transport_def sample_exchange_def refused_exchange_def replied_result_def default_to_def)
  then have "responds 0 (host_answer sample_transport (Answers refused_reply)) None ?s3 = bound_answered"
    by (simp add: responds_def b bound_answered_def reply_for_def)
  then have 4: "transport_step sample_transport ?s3 (Responds 0 None) bound_answered"
    using step_respond [of ?s3 0 _ sample_transport None] by simp
  from bound_run 1 2 3 4 show ?thesis unfolding answering_labels_def bound_def steps_append_iff by (meson steps_refl steps_trans)
qed

subsection \<open>Properties\<close>

text \<open>C19. The binding refines the host: its host makes a run of the assistance supplier, in which every request
  that the service took reaches it at most once, decoded and of at most 65,536 bytes. No
  request is answered twice, and every reply that the client was given answers a request that arrived for the service,
  with its correlation and with what the host answered to the call that the request became, or as malformed when it
  was too large or could not be decoded; only an error thrown by the client itself is answered as that error.\<close>

theorem transport_replies_of_host:
  assumes run: "steps (transport_step T) (bind_assistance share host) ls s" and host: "\<not> ap_ready host"
  shows "(\<exists>hs. steps (assist_step (tc_host T)) host hs (tb_host s))
    \<and> distinct (map fst (tb_asked s)) \<and> distinct (map fst (tb_sent s))
    \<and> (\<forall>h r. (h, r) \<in> set (tb_sent s) \<longrightarrow>
         h < length (tb_requests s) \<and> RequestArrives (tb_requests s ! h) \<in> set ls
         \<and> exchange_accepts (service_surface share) (tb_requests s ! h) \<and> xr_corr r = xq_corr (tb_requests s ! h)
         \<and> (\<exists>out. r = reply_for (tb_requests s ! h) out
              \<and> (answered_by_host T host h out s \<or> (\<exists>e. out = Inl e \<and> Responds h (Some e) \<in> set ls))))"
proof -
  have ok: "replies_ok T share host (set ls) s" and hs: "\<exists>hs. steps (assist_step (tc_host T)) host hs (tb_host s)"
    using transport_run_replies [OF run host] by blast+
  have "h < length (tb_requests s) \<and> RequestArrives (tb_requests s ! h) \<in> set ls
      \<and> exchange_accepts (service_surface share) (tb_requests s ! h) \<and> xr_corr r = xq_corr (tb_requests s ! h)
      \<and> (\<exists>out. r = reply_for (tb_requests s ! h) out
           \<and> (answered_by_host T host h out s \<or> (\<exists>e. out = Inl e \<and> Responds h (Some e) \<in> set ls)))"
    if sent: "(h, r) \<in> set (tb_sent s)" for h r
  proof -
    obtain out where out: "h < length (tb_requests s)" "justified T host (set ls) h out s" "r = reply_for (tb_requests s ! h) out"
      using replies_okD(2) [OF ok sent] by (auto simp: sent_ok_def)
    moreover have "xr_corr r = xq_corr (tb_requests s ! h)"
      using answer_request_corr [of "tb_requests s ! h" out None] by (simp add: out(3) reply_for_def)
    moreover have "tb_requests s ! h \<in> set (tb_requests s)" using out(1) by simp
    ultimately show ?thesis using ok by (auto simp: replies_ok_def justified_def)
  qed
  then show ?thesis using hs ok by (simp add: replies_ok_def)
qed

theorem transport_replies_of_host_witness:
  "distinct (map fst (tb_sent bound_answered)) \<and> exchange_accepts (service_surface (jlit ''S'')) sample_exchange \<and> xr_corr refused_exchange = jlit ''c''"
  using transport_replies_of_host [OF bound_answered_run sample_host_idle]
  by (simp add: bound_answered_def refused_exchange_def)

text \<open>C15. Consumer and supplier over the wire: when the request of a call reached a binding and the client takes what
  the binding sends, the call gives exactly what the assistance supplier answered to that
  request, as one of its calls, when the schema decodes what it encoded; a reply that the schema cannot encode is given
  as an unknown outcome.\<close>

theorem assistance_over_wire:
  assumes run: "steps (transport_step T) (bind_assistance share host) ls s" and host: "\<not> ap_ready host"
    and requests: "\<And>q b. tc_encode_request T q = Inr b \<Longrightarrow> tc_decode_request T b = Some q"
    and results: "\<And>a b. tc_encode_result T a = Inr b \<Longrightarrow> tc_decode_result T b = Some a"
    and call: "call_request T share corr q = Some (tb_requests s ! h)" "length (xq_payload (tb_requests s ! h)) \<le> 65536"
    and sent: "(h, r) \<in> set (tb_sent s)" and client: "\<And>e. Responds h (Some e) \<notin> set ls"
  shows "\<exists>i reply. took (tc_host T) host i q (tb_host s) \<and> (i, reply) \<in> set (ap_replies (tb_host s))
    \<and> call_assistance T q (ExchangeGives \<lparr>cl_ok = xr_ok r, cl_payload = xr_payload r, cl_error = xr_error r\<rparr> # later)
      = Some (Inr (case tc_encode_result T (replied_result reply) of Inl e \<Rightarrow> assist_reason ''unknown'' e | Inr b \<Rightarrow> replied_result reply))"
proof -
  obtain b where b: "tc_encode_request T q = Inr b" "xq_payload (tb_requests s ! h) = b"
    using call(1) by (auto simp: call_request_def split: sum.splits) (metis exchange_request.select_convs(4))
  with call(2) requests have adm: "admitted T (tb_requests s ! h) = Some q" by (simp add: admitted_def)
  obtain out where out: "r = reply_for (tb_requests s ! h) out" "answered_by_host T host h out s"
    using transport_replies_of_host [OF run host] sent client by blast
  then obtain i reply where i: "took (tc_host T) host i q (tb_host s)" "(i, reply) \<in> set (ap_replies (tb_host s))" "out = host_answer T reply"
    by (auto simp: answered_by_host_def adm)
  let ?a = "replied_result reply"
  have "reply_result T \<lparr>cl_ok = xr_ok r, cl_payload = xr_payload r, cl_error = xr_error r\<rparr>
      = Inr (case tc_encode_result T ?a of Inl e \<Rightarrow> assist_reason ''unknown'' e | Inr b \<Rightarrow> ?a)"
    using results [of ?a]
    by (cases "tc_encode_result T ?a") (simp_all add: reply_result_def out(1) reply_for_def i(3) host_answer_def encoded_answer_def
        answer_request_def default_to_def)
  then show ?thesis using i(1,2) b(1) by (auto simp: call_assistance_def settles_with_def Let_def)
qed

theorem assistance_over_wire_witness:
  "call_assistance sample_transport sample_question [ExchangeGives \<lparr>cl_ok = True, cl_payload = Some [2], cl_error = None\<rparr>, TenSecondsPass] = Some (Inr refused_reply)"
proof -
  have q: "call_request sample_transport (jlit ''S'') (jlit ''c'') sample_question = Some (tb_requests bound_answered ! 0)"
    by (simp add: call_request_def sample_transport_def bound_answered_def sample_exchange_def)
  have "\<exists>i reply. took (tc_host sample_transport) sample_host i sample_question (tb_host bound_answered) \<and> (i, reply) \<in> set (ap_replies (tb_host bound_answered))
    \<and> call_assistance sample_transport sample_question [ExchangeGives \<lparr>cl_ok = xr_ok refused_exchange, cl_payload = xr_payload refused_exchange,
        cl_error = xr_error refused_exchange\<rparr>, TenSecondsPass]
      = Some (Inr (case tc_encode_result sample_transport (replied_result reply) of Inl e \<Rightarrow> assist_reason ''unknown'' e | Inr b \<Rightarrow> replied_result reply))"
    by (rule assistance_over_wire [OF bound_answered_run sample_host_idle _ _ q])
      (simp_all add: sample_transport_def bound_answered_def sample_exchange_def answering_labels_def serving_labels_def split: if_splits)
  then show ?thesis
    by (auto simp: bound_answered_def host_refusing_replies replied_result_def sample_transport_def refused_exchange_def)
qed

end
