(* ===== verification/Directory_Watch.thy ===== *)
theory Directory_Watch
  imports Assistance_Wire_Calls
begin

text \<open>
  The directory that a consumer watches: which operations reach its receiver.
\<close>

subsection \<open>What a watch hands on\<close>

definition listed_ads :: "ad_schema \<Rightarrow> jstr \<Rightarrow> supplier_op list \<Rightarrow> advertisement list" where
  "listed_ads S share ops = List.map_filter (listed_ad S share) ops"

lemma watch_fold: "fold (\<lambda>op m. case listed_ad S share op of None \<Rightarrow> m | Some a \<Rightarrow> f a m) ops m = fold f (listed_ads S share ops) m"
  by (induction ops arbitrary: m) (auto simp: listed_ads_def map_filter_simps split: option.split)

lemma listed_ads_append: "listed_ads S share (xs @ ys) = listed_ads S share xs @ listed_ads S share ys"
  by (induction xs) (auto simp: listed_ads_def map_filter_simps split: option.split)

lemma listed_ads_Nil [simp]: "listed_ads S share [] = []"
  by (simp add: listed_ads_def map_filter_simps)

lemma watch_active_ops: "wd_active w \<Longrightarrow> wd_registered w \<Longrightarrow>
    watch_run S share f (map OpsArrive b) w = w\<lparr>wd_receiver := fold f (listed_ads S share (concat b)) (wd_receiver w)\<rparr>"
proof (induction b arbitrary: w)
  case (Cons ops b)
  have "watch_moves S share f (OpsArrive ops) w = w\<lparr>wd_receiver := fold f (listed_ads S share ops) (wd_receiver w)\<rparr>"
    using Cons.prems by (simp add: watch_ops_def watch_fold)
  with Cons.IH [of "w\<lparr>wd_receiver := fold f (listed_ads S share ops) (wd_receiver w)\<rparr>"] Cons.prems show ?case
    by (simp add: watch_run_def listed_ads_append)
qed (simp add: watch_run_def)

lemma watch_ended_ops: "\<not> wd_registered w \<Longrightarrow> watch_run S share f (map OpsArrive b) w = w"
  by (induction b) (simp_all add: watch_run_def)

lemma watch_run_append: "watch_run S share f (xs @ ys) w = watch_run S share f ys (watch_run S share f xs w)"
  by (simp add: watch_run_def)

definition whole_watch :: "supplier_op list list \<Rightarrow> bool option \<Rightarrow> supplier_op list list \<Rightarrow> supplier_op list list \<Rightarrow> watch_event list" where
  "whole_watch before outcome during after =
     map OpsArrive before @ [WatchSettles outcome] @ map OpsArrive during @ [StopsWatch] @ map OpsArrive after"

lemma whole_watch_receives:
  "watch_run S share f (whole_watch before outcome during after) (watch_directory m) =
     \<lparr>wd_active = False, wd_registered = False, wd_promise = (if outcome = Some True then Watching else WatchFails),
      wd_receiver = fold f (listed_ads S share (concat before @ (if outcome = Some True then concat during else []))) m\<rparr>"
proof -
  have single: "watch_run S share f [e] w = watch_moves S share f e w" for e w by (simp add: watch_run_def)
  show ?thesis
    by (simp add: whole_watch_def watch_run_append watch_active_ops watch_ended_ops single watch_directory_def watch_settles_def stop_watch_def listed_ads_append
        del: append_Cons append_Nil)
qed

subsection \<open>Against the raw operations\<close>

text \<open>The conditions of the listener, written on an operation.\<close>

definition announces :: "ad_schema \<Rightarrow> supplier_op \<Rightarrow> bool" where
  "announces S op \<longleftrightarrow> (case as_decode S (so_payload op) of None \<Rightarrow> False | Some a \<Rightarrow> ad_version a = 1)"

lemma listed_ads_filter:
  "listed_ads S share ops = map (\<lambda>op. the (as_decode S (so_payload op)))
     (filter (\<lambda>op. so_share op = share \<and> so_glade_id op = jlit ''assistance.directory.v1'' \<and> length (so_payload op) \<le> 65536 \<and> announces S op) ops)"
  by (induction ops)
    (auto simp: listed_ads_def listed_ad_def map_filter_simps directory_id_def announces_def split: option.splits)

text \<open>C26. A consumer that watches a directory receives the decoded advertisements of exactly those operations that
  arrive between the start of the watch and its end, in their order and with repetitions, whose share is the
  watched one, whose glade id is the directory's, whose payload has at most 65536 bytes and decodes, with version
  1. A subscription that is refused or fails ends the watch like a stop, and then nothing
  that arrives later is received; at the end the listener is off.\<close>

theorem directory_watch_exact:
  "let w = watch_run S share f (whole_watch before outcome during after) (watch_directory m);
       arrived = concat before @ (if outcome = Some True then concat during else []);
       valid = filter (\<lambda>op. so_share op = share \<and> so_glade_id op = jlit ''assistance.directory.v1'' \<and> length (so_payload op) \<le> 65536
         \<and> (case as_decode S (so_payload op) of None \<Rightarrow> False | Some a \<Rightarrow> ad_version a = 1)) arrived
   in wd_receiver w = fold f (map (\<lambda>op. the (as_decode S (so_payload op))) valid) m
     \<and> \<not> wd_registered w \<and> \<not> wd_active w \<and> wd_promise w = (if outcome = Some True then Watching else WatchFails)"
  by (simp add: whole_watch_receives listed_ads_filter announces_def Let_def)

text \<open>Four operations before the subscription succeeds, of which one counts, one until the stop and one after it.\<close>

definition sample_notice :: "int \<Rightarrow> advertisement" where
  "sample_notice v = \<lparr>ad_version = v, ad_identity = \<lparr>ai_application = [], ai_workspace = [], ai_supplier = [], ai_generation = []\<rparr>, ad_share = [], ad_label = [],
     ad_capabilities = [], ad_expires = 0\<rparr>"

definition sample_notices :: ad_schema where
  "sample_notices = \<lparr>as_decode = (\<lambda>b. case b of [v] \<Rightarrow> Some (sample_notice (uint v)) | _ \<Rightarrow> None), as_encode = (\<lambda>_. None)\<rparr>"

definition sample_notice_op :: "string \<Rightarrow> string \<Rightarrow> bytes \<Rightarrow> supplier_op" where
  "sample_notice_op share gid payload =
     \<lparr>so_share = jlit share, so_glade_id = jlit gid, so_key = None, so_origin = [], so_seq = 0, so_payload = payload\<rparr>"

theorem directory_watch_exact_witness:
  "let good = sample_notice_op ''s'' ''assistance.directory.v1'' [1];
       w = watch_run sample_notices (jlit ''s'') (#)
         (whole_watch [[sample_notice_op ''t'' ''assistance.directory.v1'' [1], good],
                       [sample_notice_op ''s'' ''other'' [1], sample_notice_op ''s'' ''assistance.directory.v1'' [2]]]
            (Some True) [[good]] [[good]])
         (watch_directory [])
   in wd_receiver w = [sample_notice 1, sample_notice 1] \<and> \<not> wd_registered w"
  using directory_watch_exact [of sample_notices "jlit ''s''" "(#)"
      "[[sample_notice_op ''t'' ''assistance.directory.v1'' [1], sample_notice_op ''s'' ''assistance.directory.v1'' [1]],
        [sample_notice_op ''s'' ''other'' [1], sample_notice_op ''s'' ''assistance.directory.v1'' [2]]]"
      "Some True" "[[sample_notice_op ''s'' ''assistance.directory.v1'' [1]]]" "[[sample_notice_op ''s'' ''assistance.directory.v1'' [1]]]" "[]"]
  by (simp add: Let_def sample_notice_op_def sample_notices_def sample_notice_def jlit_eq_iff)

end
