(* ===== verification/Collaborative_Text.thy ===== *)
theory Collaborative_Text
  imports Text_Project
begin

text \<open>
  The collaborative document of \<open>src/collaborative_text.ts\<close>: local edits and the exchange with a peer
  both go through the node of \<open>@owebeeone/taut-shape\<close>, of which the code uses three messages (apply, read and
  install a bootstrap), the retained operations, the clock and the text projection. They are the record
  \<open>collab_if\<close>, a parameter. A document reconnects to another one, not to itself; the iteration over the
  operations of one node goes over what it retains when it starts.
\<close>

text \<open>
  The first output of a read, when there is one: the response, with its bootstrap if any, or another output.
  The encoders of edits may throw (\<open>None\<close>).
\<close>

datatype 'b read_output = ReadResponse "'b option" "crdt_op list" | OtherOutput

record ('n, 'k, 't, 'b) collab_if =
  cl_crdt :: "('n, 'k, 't) crdt_if"
  cl_new :: 'n
  cl_read :: "jstr \<Rightarrow> jstr \<Rightarrow> (jstr \<times> int) list \<Rightarrow> 'n \<Rightarrow> 'n \<times> 'b read_output option"
  cl_install :: "'b \<Rightarrow> 'n \<Rightarrow> 'n \<times> crdt_output list"
  cl_encode_insert :: "jstr \<Rightarrow> jstr option \<Rightarrow> jstr \<Rightarrow> bytes option"
  cl_encode_delete :: "jstr \<Rightarrow> bytes option"

record 'n collaborative_text =
  gc_origin :: jstr
  gc_node :: 'n
  gc_diagnostics :: "jstr list"

definition new_collaborative :: "('n, 'k, 't, 'b) collab_if \<Rightarrow> jstr \<Rightarrow> 'n collaborative_text option" where
  "new_collaborative C origin =
     (if length origin = 0 then None else Some \<lparr>gc_origin = origin, gc_node = cl_new C, gc_diagnostics = []\<rparr>)"

definition collect :: "crdt_output list \<Rightarrow> 'n collaborative_text \<Rightarrow> 'n collaborative_text" where
  "collect outputs d = d\<lparr>gc_diagnostics := add_diagnostics (gc_diagnostics d) outputs\<rparr>"

text \<open>\<open>collect(node.handle(apply op))\<close>\<close>

definition take_op :: "('n, 'k, 't, 'b) collab_if \<Rightarrow> crdt_op \<Rightarrow> 'n collaborative_text \<Rightarrow> 'n collaborative_text" where
  "take_op C op d = (let (n, outs) = cn_apply (cl_crdt C) op (gc_node d) in collect outs (d\<lparr>gc_node := n\<rparr>))"

definition collab_operations :: "('n, 'k, 't, 'b) collab_if \<Rightarrow> 'n collaborative_text \<Rightarrow> crdt_op list" where
  "collab_operations C d = cn_operations (cl_crdt C) (gc_node d)"

definition collab_clock :: "('n, 'k, 't, 'b) collab_if \<Rightarrow> 'n collaborative_text \<Rightarrow> (jstr \<times> int) list" where
  "collab_clock C d = cn_clock (cl_crdt C) (gc_node d)"

subsection \<open>Local edits\<close>

definition apply_local :: "('n, 'k, 't, 'b) collab_if \<Rightarrow> bytes \<Rightarrow> 'n collaborative_text \<Rightarrow> 'n collaborative_text \<times> crdt_op" where
  "apply_local C payload d =
     (let own = (case find (\<lambda>(o', s). o' = gc_origin d) (collab_clock C d) of None \<Rightarrow> 0 | Some (o', s) \<Rightarrow> s);
          op = \<lparr>co_origin = gc_origin d, co_seq = own + 1, co_deps = collab_clock C d, co_payload = payload\<rparr>
      in (take_op C op d, op))"

definition collab_insert :: "('n, 'k, 't, 'b) collab_if \<Rightarrow> jstr \<Rightarrow> jstr option \<Rightarrow> jstr \<Rightarrow> 'n collaborative_text \<Rightarrow> 'n collaborative_text \<times> crdt_op option" where
  "collab_insert C atom after txt d =
     (case cl_encode_insert C atom after txt of
        None \<Rightarrow> (d, None)
      | Some payload \<Rightarrow> (let (d', op) = apply_local C payload d in (d', Some op)))"

definition collab_delete :: "('n, 'k, 't, 'b) collab_if \<Rightarrow> jstr \<Rightarrow> 'n collaborative_text \<Rightarrow> 'n collaborative_text \<times> crdt_op option" where
  "collab_delete C atom d =
     (case cl_encode_delete C atom of
        None \<Rightarrow> (d, None)
      | Some payload \<Rightarrow> (let (d', op) = apply_local C payload d in (d', Some op)))"

subsection \<open>The exchange with a peer\<close>

text \<open>
  \<open>syncOneWay\<close> gives the source and the target, and whether it returns; it throws when the first output is
  not a read response.
\<close>

definition sync_one_way :: "('n, 'k, 't, 'b) collab_if \<Rightarrow> 'n collaborative_text \<Rightarrow> 'n collaborative_text \<Rightarrow> ('n collaborative_text \<times> 'n collaborative_text) \<times> bool" where
  "sync_one_way C source target =
     (let (n, out) = cl_read C (jlit ''glial.document'') (gc_origin target) (collab_clock C target) (gc_node source);
          source = source\<lparr>gc_node := n\<rparr>
      in case out of
           Some (ReadResponse bootstrap ops) \<Rightarrow>
             (let target = (case bootstrap of
                    None \<Rightarrow> target
                  | Some b \<Rightarrow> (let (m, outs) = cl_install C b (gc_node target) in collect outs (target\<lparr>gc_node := m\<rparr>)))
              in ((source, fold (take_op C) ops target), True))
         | _ \<Rightarrow> ((source, target), False))"

text \<open>\<open>reconnect\<close> gives both documents, and whether it returns.\<close>

definition reconnect :: "('n, 'k, 't, 'b) collab_if \<Rightarrow> 'n collaborative_text \<Rightarrow> 'n collaborative_text \<Rightarrow> ('n collaborative_text \<times> 'n collaborative_text) \<times> bool" where
  "reconnect C this peer =
     (let peer = fold (take_op C) (collab_operations C this) peer;
          this = fold (take_op C) (collab_operations C peer) this
      in case sync_one_way C this peer of
           ((this, peer), False) \<Rightarrow> ((this, peer), False)
         | ((this, peer), True) \<Rightarrow> (case sync_one_way C peer this of ((peer, this), ok) \<Rightarrow> ((this, peer), ok)))"

subsection \<open>The state that is shown\<close>

record collab_state =
  gs_text :: jstr
  gs_clock :: "(jstr \<times> int) list"
  gs_diagnostics :: "jstr list"

definition collab_state :: "('n, 'k, 't, 'b) collab_if \<Rightarrow> 'n collaborative_text \<Rightarrow> collab_state" where
  "collab_state C d =
     (let projection = cn_project_text (cl_crdt C) (gc_node d) in
      \<lparr>gs_text = ct_text projection, gs_clock = fold (\<lambda>(o', s). jm_set o' s) (collab_clock C d) [],
       gs_diagnostics = sort (gc_diagnostics d @ ct_diagnostics projection)\<rparr>)"

subsection \<open>What reconnecting exchanges\<close>

text \<open>
  What the code relies on in the node. A node retains the operations that it has delivered and may hold others back:
  those whose causal predecessors it does not have yet are buffered, and a predecessor that arrives releases
  them, while a full buffer may drop them (\<open>held\<close> is the buffer). The laws are for the \<open>valid\<close> nodes,
  which have operations of a set \<open>U\<close> without equivocation only. Applying an operation loses no retained
  operation and brings in nothing but that operation and what was held back; an operation whose
  predecessors are retained (\<open>ready\<close>) is retained at once; the retained operations are listed in causal order; a read
  answers with retained operations and changes none; a bootstrap brings in the operations of its source and
  what was held back; the text is determined by the retained operations.
\<close>

definition retained :: "('n, 'k, 't, 'b) collab_if \<Rightarrow> 'n \<Rightarrow> crdt_op set" where
  "retained C n = set (cn_operations (cl_crdt C) n)"

definition node_laws :: "('n, 'k, 't, 'b) collab_if \<Rightarrow> (crdt_op \<Rightarrow> crdt_op set \<Rightarrow> bool) \<Rightarrow> ('n \<Rightarrow> crdt_op set) \<Rightarrow> ('n \<Rightarrow> bool) \<Rightarrow> crdt_op set \<Rightarrow> bool" where
  "node_laws C ready held valid U \<longleftrightarrow>
     (\<forall>op S S'. ready op S \<longrightarrow> S \<subseteq> S' \<longrightarrow> ready op S')
     \<and> (\<forall>n. valid n \<longrightarrow> retained C n \<union> held n \<subseteq> U)
     \<and> (\<forall>n op. valid n \<longrightarrow> op \<in> U \<longrightarrow> (let n' = fst (cn_apply (cl_crdt C) op n) in
          valid n' \<and> retained C n \<subseteq> retained C n' \<and> retained C n' \<union> held n' \<subseteq> insert op (retained C n \<union> held n)
          \<and> (ready op (retained C n) \<longrightarrow> op \<in> retained C n')))
     \<and> (\<forall>n i. valid n \<longrightarrow> i < length (cn_operations (cl_crdt C) n) \<longrightarrow>
          ready (cn_operations (cl_crdt C) n ! i) (set (take i (cn_operations (cl_crdt C) n))))
     \<and> (\<forall>n doc stream cursor. valid n \<longrightarrow> (let n' = fst (cl_read C doc stream cursor n) in
          valid n' \<and> retained C n' = retained C n \<and> held n' = held n))
     \<and> (\<forall>n doc stream cursor bootstrap ops. valid n \<longrightarrow> snd (cl_read C doc stream cursor n) = Some (ReadResponse bootstrap ops) \<longrightarrow>
          set ops \<subseteq> retained C n
          \<and> (\<forall>b m. bootstrap = Some b \<longrightarrow> valid m \<longrightarrow> (let m' = fst (cl_install C b m) in
                valid m' \<and> retained C m \<subseteq> retained C m' \<and> retained C m' \<union> held m' \<subseteq> retained C m \<union> held m \<union> retained C n)))
     \<and> (\<forall>n m. valid n \<longrightarrow> valid m \<longrightarrow> retained C n = retained C m \<longrightarrow> ct_text (cn_project_text (cl_crdt C) n) = ct_text (cn_project_text (cl_crdt C) m))"

lemma node_lawsD:
  assumes "node_laws C ready held valid U"
  shows "ready op S \<Longrightarrow> S \<subseteq> S' \<Longrightarrow> ready op S'"
    "valid n \<Longrightarrow> retained C n \<union> held n \<subseteq> U"
    "valid n \<Longrightarrow> op \<in> U \<Longrightarrow> n' = fst (cn_apply (cl_crdt C) op n) \<Longrightarrow>
       valid n' \<and> retained C n \<subseteq> retained C n' \<and> retained C n' \<union> held n' \<subseteq> insert op (retained C n \<union> held n)
       \<and> (ready op (retained C n) \<longrightarrow> op \<in> retained C n')"
    "valid n \<Longrightarrow> i < length (cn_operations (cl_crdt C) n) \<Longrightarrow> ready (cn_operations (cl_crdt C) n ! i) (set (take i (cn_operations (cl_crdt C) n)))"
    "valid n \<Longrightarrow> n' = fst (cl_read C doc stream cursor n) \<Longrightarrow> valid n' \<and> retained C n' = retained C n \<and> held n' = held n"
    "valid n \<Longrightarrow> snd (cl_read C doc stream cursor n) = Some (ReadResponse bootstrap ops) \<Longrightarrow> set ops \<subseteq> retained C n"
    "valid n \<Longrightarrow> snd (cl_read C doc stream cursor n) = Some (ReadResponse (Some b) ops) \<Longrightarrow> valid m \<Longrightarrow> m' = fst (cl_install C b m) \<Longrightarrow>
       valid m' \<and> retained C m \<subseteq> retained C m' \<and> retained C m' \<union> held m' \<subseteq> retained C m \<union> held m \<union> retained C n"
    "valid n \<Longrightarrow> valid m \<Longrightarrow> retained C n = retained C m \<Longrightarrow> ct_text (cn_project_text (cl_crdt C) n) = ct_text (cn_project_text (cl_crdt C) m)"
proof -
  note L = assms [unfolded node_laws_def Let_def]
  show "ready op S \<Longrightarrow> S \<subseteq> S' \<Longrightarrow> ready op S'" using conjunct1 [OF L] by blast
  note L2 = conjunct2 [OF L]
  show "valid n \<Longrightarrow> retained C n \<union> held n \<subseteq> U" using conjunct1 [OF L2] by blast
  note L3 = conjunct2 [OF L2]
  show "valid n \<Longrightarrow> op \<in> U \<Longrightarrow> n' = fst (cn_apply (cl_crdt C) op n) \<Longrightarrow>
       valid n' \<and> retained C n \<subseteq> retained C n' \<and> retained C n' \<union> held n' \<subseteq> insert op (retained C n \<union> held n)
       \<and> (ready op (retained C n) \<longrightarrow> op \<in> retained C n')" using conjunct1 [OF L3] by simp
  note L4 = conjunct2 [OF L3]
  show "valid n \<Longrightarrow> i < length (cn_operations (cl_crdt C) n) \<Longrightarrow> ready (cn_operations (cl_crdt C) n ! i) (set (take i (cn_operations (cl_crdt C) n)))"
    using conjunct1 [OF L4] by blast
  note L5 = conjunct2 [OF L4]
  show "valid n \<Longrightarrow> n' = fst (cl_read C doc stream cursor n) \<Longrightarrow> valid n' \<and> retained C n' = retained C n \<and> held n' = held n"
    using conjunct1 [OF L5] by blast
  note L6 = conjunct2 [OF L5]
  show "valid n \<Longrightarrow> snd (cl_read C doc stream cursor n) = Some (ReadResponse bootstrap ops) \<Longrightarrow> set ops \<subseteq> retained C n"
    using conjunct1 [OF L6] by blast
  show "valid n \<Longrightarrow> snd (cl_read C doc stream cursor n) = Some (ReadResponse (Some b) ops) \<Longrightarrow> valid m \<Longrightarrow> m' = fst (cl_install C b m) \<Longrightarrow>
       valid m' \<and> retained C m \<subseteq> retained C m' \<and> retained C m' \<union> held m' \<subseteq> retained C m \<union> held m \<union> retained C n"
    using conjunct1 [OF L6] by blast
  show "valid n \<Longrightarrow> valid m \<Longrightarrow> retained C n = retained C m \<Longrightarrow> ct_text (cn_project_text (cl_crdt C) n) = ct_text (cn_project_text (cl_crdt C) m)"
    using conjunct2 [OF L6] by blast
qed

lemma collect_node [simp]: "gc_node (collect outs d) = gc_node d" "gc_origin (collect outs d) = gc_origin d"
  by (simp_all add: collect_def)

lemma take_op_node: "gc_node (take_op C op d) = fst (cn_apply (cl_crdt C) op (gc_node d))"
  by (simp add: take_op_def split_beta)

text \<open>
  \<open>within lo hi d\<close>: the document has all of \<open>lo\<close> and, its buffer included, nothing outside \<open>hi\<close>. Taking operations of
  \<open>hi\<close> keeps it, and taking operations in causal order has them all retained.
\<close>

definition within :: "('n, 'k, 't, 'b) collab_if \<Rightarrow> ('n \<Rightarrow> crdt_op set) \<Rightarrow> ('n \<Rightarrow> bool) \<Rightarrow> crdt_op set \<Rightarrow> crdt_op set \<Rightarrow> 'n \<Rightarrow> bool" where
  "within C held valid lo hi n \<longleftrightarrow> valid n \<and> lo \<subseteq> retained C n \<and> retained C n \<union> held n \<subseteq> hi"

lemma withinD: "within C held valid lo hi n \<Longrightarrow> valid n" "within C held valid lo hi n \<Longrightarrow> lo \<subseteq> retained C n"
    "within C held valid lo hi n \<Longrightarrow> retained C n \<union> held n \<subseteq> hi"
  by (simp_all add: within_def)

lemma take_within:
  assumes laws: "node_laws C ready held valid U" and d: "within C held valid lo hi (gc_node d)" and op: "op \<in> hi" "hi \<subseteq> U"
  shows "within C held valid lo hi (gc_node (take_op C op d))"
    "ready op (retained C (gc_node d)) \<Longrightarrow> within C held valid (insert op lo) hi (gc_node (take_op C op d))"
proof -
  have "op \<in> U" using op by blast
  note N = node_lawsD(3) [OF laws withinD(1) [OF d] this take_op_node]
  show "within C held valid lo hi (gc_node (take_op C op d))"
    using N withinD(2,3) [OF d] op(1) unfolding within_def by blast
  show "within C held valid (insert op lo) hi (gc_node (take_op C op d))" if "ready op (retained C (gc_node d))"
    using that N withinD(2,3) [OF d] op(1) unfolding within_def by blast
qed

lemma take_all_within:
  assumes "node_laws C ready held valid U" "within C held valid lo hi (gc_node d)" "set ops \<subseteq> hi" "hi \<subseteq> U"
  shows "within C held valid lo hi (gc_node (fold (take_op C) ops d))"
  using assms(2,3)
proof (induction ops arbitrary: d)
  case (Cons op ops)
  then show ?case using take_within(1) [OF assms(1) _ _ assms(4)] by simp
qed simp

lemma take_causal:
  assumes laws: "node_laws C ready held valid U" and hi: "hi \<subseteq> U"
    and "\<And>i. i < length ops \<Longrightarrow> ready (ops ! i) (lo \<union> set (take i ops))" "within C held valid lo hi (gc_node d)" "set ops \<subseteq> hi"
  shows "within C held valid (lo \<union> set ops) hi (gc_node (fold (take_op C) ops d))"
  using assms(3-)
proof (induction ops arbitrary: lo d)
  case (Cons op ops)
  have "ready op lo" using Cons.prems(1) [of 0] by simp
  then have "ready op (retained C (gc_node d))" using withinD(2) [OF Cons.prems(2)] by (rule node_lawsD(1) [OF laws])
  then have one: "within C held valid (insert op lo) hi (gc_node (take_op C op d))"
    using take_within(2) [OF laws Cons.prems(2) _ hi] Cons.prems(3) by simp
  have "ready (ops ! i) (insert op lo \<union> set (take i ops))" if "i < length ops" for i
    using Cons.prems(1) [of "Suc i"] that by simp
  from Cons.IH [OF this one] Cons.prems(3) show ?case by simp
qed simp

lemma sync_within:
  assumes laws: "node_laws C ready held valid U" and hi: "hi \<subseteq> U"
    and s: "within C held valid lo hi (gc_node source)" and t: "within C held valid lo' hi (gc_node target)"
    and sync: "sync_one_way C source target = ((source', target'), ok)"
  shows "within C held valid lo hi (gc_node source') \<and> within C held valid lo' hi (gc_node target')"
proof -
  define n out where "n = fst (cl_read C (jlit ''glial.document'') (gc_origin target) (collab_clock C target) (gc_node source))"
    and "out = snd (cl_read C (jlit ''glial.document'') (gc_origin target) (collab_clock C target) (gc_node source))"
  have n: "within C held valid lo hi n"
    using node_lawsD(5) [OF laws withinD(1) [OF s] n_def] s by (simp add: within_def)
  show ?thesis
  proof (cases "\<exists>bootstrap ops. out = Some (ReadResponse bootstrap ops)")
    case True
    then obtain bootstrap ops where out: "out = Some (ReadResponse bootstrap ops)" by blast
    define d where "d = (case bootstrap of None \<Rightarrow> target
      | Some b \<Rightarrow> (let (m, outs) = cl_install C b (gc_node target) in collect outs (target\<lparr>gc_node := m\<rparr>)))"
    have ops: "set ops \<subseteq> hi"
      using node_lawsD(6) [OF laws withinD(1) [OF s]] out withinD(3) [OF s] unfolding out_def by blast
    have d: "within C held valid lo' hi (gc_node d)"
    proof (cases bootstrap)
      case (Some b)
      then have g: "gc_node d = fst (cl_install C b (gc_node target))" by (simp add: d_def split_beta)
      show ?thesis
        using node_lawsD(7) [OF laws withinD(1) [OF s] out [unfolded out_def Some] withinD(1) [OF t] g] withinD(2,3) [OF t] withinD(3) [OF s]
        unfolding within_def by blast
    qed (use t in \<open>simp add: d_def\<close>)
    have "source' = source\<lparr>gc_node := n\<rparr>" "target' = fold (take_op C) ops d"
      using sync out by (simp_all add: sync_one_way_def split_beta n_def out_def d_def Let_def)
    then show ?thesis using n take_all_within [OF laws d ops hi] by simp
  next
    case False
    then have "source' = source\<lparr>gc_node := n\<rparr>" "target' = target"
      using sync by (auto simp: sync_one_way_def split_beta n_def out_def Let_def split: option.splits read_output.splits)
    with n t show ?thesis by simp
  qed
qed

lemma reconnect_within:
  assumes laws: "node_laws C ready held valid U" and v: "valid (gc_node this)" "valid (gc_node peer)"
    and r: "reconnect C this peer = ((this', peer'), ok)"
  defines "lo \<equiv> retained C (gc_node this) \<union> retained C (gc_node peer)"
  defines "hi \<equiv> lo \<union> held (gc_node this) \<union> held (gc_node peer)"
  shows "within C held valid lo hi (gc_node this') \<and> within C held valid lo hi (gc_node peer')"
proof -
  have hi: "hi \<subseteq> U" using node_lawsD(2) [OF laws v(1)] node_lawsD(2) [OF laws v(2)] unfolding hi_def lo_def by blast
  have causal: "ready (collab_operations C d ! i) (S \<union> set (take i (collab_operations C d)))"
    if "valid (gc_node d)" "i < length (collab_operations C d)" for d S i
    using node_lawsD(4) [OF laws that(1)] that(2) node_lawsD(1) [OF laws] by (metis collab_operations_def sup_ge2)
  have ops: "set (collab_operations C d) = retained C (gc_node d)" for d by (simp add: collab_operations_def retained_def)
  define p where "p = fold (take_op C) (collab_operations C this) peer"
  define t where "t = fold (take_op C) (collab_operations C p) this"
  have start: "within C held valid (retained C (gc_node peer)) hi (gc_node peer)" "within C held valid (retained C (gc_node this)) hi (gc_node this)"
    using v by (auto simp: within_def hi_def lo_def)
  have "within C held valid (retained C (gc_node peer) \<union> set (collab_operations C this)) hi (gc_node p)"
    unfolding p_def using causal [OF v(1)] by (intro take_causal [OF laws hi _ start(1)]) (auto simp: ops hi_def lo_def)
  then have p: "within C held valid lo hi (gc_node p)" by (simp add: ops lo_def Un_commute)
  have "within C held valid (retained C (gc_node this) \<union> set (collab_operations C p)) hi (gc_node t)"
    unfolding t_def using causal [OF withinD(1) [OF p]] withinD(3) [OF p] by (intro take_causal [OF laws hi _ start(2)]) (auto simp: ops)
  then have t: "within C held valid lo hi (gc_node t)" using withinD(2) [OF p] by (auto simp: within_def ops lo_def)
  obtain t1 p1 ok1 where s1: "sync_one_way C t p = ((t1, p1), ok1)" by (metis surj_pair)
  note k1 = sync_within [OF laws hi t p s1]
  obtain p2 t2 ok2 where s2: "sync_one_way C p1 t1 = ((p2, t2), ok2)" by (metis surj_pair)
  note k2 = sync_within [OF laws hi conjunct2 [OF k1] conjunct1 [OF k1] s2]
  have "(this', peer') = (if ok1 then (t2, p2) else (t1, p1))"
    using r s2 by (auto simp: reconnect_def Let_def p_def [symmetric] t_def [symmetric] s1 split: bool.splits)
  then show ?thesis using k1 k2 by (auto split: if_splits)
qed

text \<open>
  A local edit keeps a document whose buffer holds nothing but delivered operations, as an empty buffer does; so does a
  reconnection, by the property below.
\<close>

lemma apply_local_retained:
  assumes laws: "node_laws C ready held valid U" and d: "valid (gc_node d)" "held (gc_node d) \<subseteq> retained C (gc_node d)"
    and op: "apply_local C payload d = (d', op)" "op \<in> U" "ready op (retained C (gc_node d))"
  shows "valid (gc_node d') \<and> retained C (gc_node d') = insert op (retained C (gc_node d)) \<and> held (gc_node d') \<subseteq> retained C (gc_node d')
    \<and> co_origin op = gc_origin d \<and> co_deps op = collab_clock C d"
proof -
  have local_op: "co_origin (snd (apply_local C payload d)) = gc_origin d" "co_deps (snd (apply_local C payload d)) = collab_clock C d"
      "fst (apply_local C payload d) = take_op C (snd (apply_local C payload d)) d"
    by (simp_all add: apply_local_def Let_def)
  have "gc_node d' = fst (cn_apply (cl_crdt C) op (gc_node d))" using local_op(3) by (simp add: op(1) take_op_node)
  from node_lawsD(3) [OF laws d(1) op(2) this] op(3) d(2)
  have "valid (gc_node d')" "retained C (gc_node d') = insert op (retained C (gc_node d))" "held (gc_node d') \<subseteq> retained C (gc_node d')"
    by blast+
  then show ?thesis using local_op by (simp add: op(1))
qed

subsection \<open>A node that buffers\<close>

text \<open>
  A node of delivered and buffered operations: an operation waits for the operations that it depends on, and a
  delivery releases what waited for it.
\<close>

definition deps_met :: "crdt_op \<Rightarrow> crdt_op set \<Rightarrow> bool" where
  "deps_met op S \<longleftrightarrow> (\<forall>(o', s) \<in> set (co_deps op). \<exists>p \<in> S. co_origin p = o' \<and> co_seq p = s)"

fun release :: "nat \<Rightarrow> crdt_op list \<Rightarrow> crdt_op list \<Rightarrow> crdt_op list \<times> crdt_op list" where
  "release 0 ops waiting = (ops, waiting)"
| "release (Suc n) ops waiting =
     (case find (\<lambda>op. deps_met op (set ops)) waiting of
        None \<Rightarrow> (ops, waiting)
      | Some op \<Rightarrow> release n (ops @ [op]) (removeAll op waiting))"

definition buffer_apply :: "crdt_op \<Rightarrow> crdt_op list \<times> crdt_op list \<Rightarrow> crdt_op list \<times> crdt_op list" where
  "buffer_apply op n = (if op \<in> set (fst n) then n else release (Suc (length (snd n))) (fst n) (op # snd n))"

definition causal_node :: "crdt_op list \<times> crdt_op list \<Rightarrow> bool" where
  "causal_node n \<longleftrightarrow> (\<forall>i < length (fst n). deps_met (fst n ! i) (set (take i (fst n))))"

definition sample_collab :: "(crdt_op list \<times> crdt_op list, unit, unit, unit) collab_if" where
  "sample_collab = \<lparr>cl_crdt = \<lparr>cn_new = (\<lambda>_. ([], [])), cn_apply = (\<lambda>op n. (buffer_apply op n, [])), cn_operations = fst,
       cn_clock = (\<lambda>_. []), cn_revision = (\<lambda>n. int (length (fst n))), cn_changes_since = (\<lambda>r n. (r < 0, drop (nat r) (fst n))),
       cn_checkpoint = (\<lambda>_. ()), cn_restore = (\<lambda>_. Inr ([], [])),
       cn_project_text = (\<lambda>n. \<lparr>ct_text = replicate (card (set (fst n))) 97, ct_diagnostics = []\<rparr>),
       cn_checkpoint_text = (\<lambda>_. ()), cn_restore_text = (\<lambda>_ n. Inr n)\<rparr>,
     cl_new = ([], []), cl_read = (\<lambda>_ _ _ n. (n, Some (ReadResponse None (fst n)))), cl_install = (\<lambda>_ n. (n, [])),
     cl_encode_insert = (\<lambda>_ _ _. Some []), cl_encode_delete = (\<lambda>_. Some [])\<rparr>"

lemma sample_collab_simps [simp]:
  "cn_apply (cl_crdt sample_collab) op n = (buffer_apply op n, [])" "cn_operations (cl_crdt sample_collab) n = fst n"
  "cl_read sample_collab doc stream cursor n = (n, Some (ReadResponse None (fst n)))"
  "ct_text (cn_project_text (cl_crdt sample_collab) n) = replicate (card (set (fst n))) 97"
  "retained sample_collab n = set (fst n)"
  by (simp_all add: sample_collab_def retained_def)

lemma deps_met_mono: "deps_met op S \<Longrightarrow> S \<subseteq> S' \<Longrightarrow> deps_met op S'"
  by (fastforce simp: deps_met_def)

lemma causal_snoc: "causal_node (ops, w) \<Longrightarrow> deps_met op (set ops) \<Longrightarrow> causal_node (ops @ [op], w')"
  by (auto simp: causal_node_def nth_append less_Suc_eq)

lemma release_keeps:
  "causal_node (ops, waiting) \<Longrightarrow> release n ops waiting = (ops', waiting') \<Longrightarrow>
   causal_node (ops', waiting') \<and> set ops \<subseteq> set ops' \<and> set ops' \<union> set waiting' \<subseteq> set ops \<union> set waiting"
proof (induction n ops waiting rule: release.induct)
  case (2 n ops waiting)
  show ?case
  proof (cases "find (\<lambda>op. deps_met op (set ops)) waiting")
    case (Some op)
    then have op: "op \<in> set waiting" "deps_met op (set ops)" by (auto simp: find_Some_iff)
    from 2(1) [OF Some causal_snoc [OF 2(2) op(2)]] 2(3) Some op(1) show ?thesis by auto
  qed (use 2 in simp)
qed simp

lemma buffer_apply_keeps:
  assumes "causal_node n"
  shows "causal_node (buffer_apply op n) \<and> set (fst n) \<subseteq> set (fst (buffer_apply op n))
    \<and> set (fst (buffer_apply op n)) \<union> set (snd (buffer_apply op n)) \<subseteq> insert op (set (fst n) \<union> set (snd n))
    \<and> (deps_met op (set (fst n)) \<longrightarrow> op \<in> set (fst (buffer_apply op n)))"
proof (cases "op \<in> set (fst n)")
  case False
  have c: "causal_node (fst n, op # snd n)" using assms by (simp add: causal_node_def)
  have r: "release (Suc (length (snd n))) (fst n) (op # snd n) = (fst (buffer_apply op n), snd (buffer_apply op n))"
    using False by (simp add: buffer_apply_def)
  have "op \<in> set (fst (buffer_apply op n))" if met: "deps_met op (set (fst n))"
  proof -
    have "release (length (snd n)) (fst n @ [op]) (removeAll op (snd n)) = (fst (buffer_apply op n), snd (buffer_apply op n))"
      using r met by simp
    from release_keeps [OF causal_snoc [OF c met] this] show ?thesis by auto
  qed
  with release_keeps [OF c r] show ?thesis by auto
qed (use assms in \<open>auto simp: buffer_apply_def\<close>)

lemma sample_node_laws: "node_laws sample_collab deps_met (\<lambda>n. set (snd n)) causal_node UNIV"
proof -
  have "deps_met op S \<longrightarrow> S \<subseteq> S' \<longrightarrow> deps_met op S'" for op S S' by (blast intro: deps_met_mono)
  moreover have "causal_node n \<longrightarrow> op \<in> UNIV \<longrightarrow> causal_node (buffer_apply op n) \<and> set (fst n) \<subseteq> set (fst (buffer_apply op n))
    \<and> set (fst (buffer_apply op n)) \<union> set (snd (buffer_apply op n)) \<subseteq> insert op (set (fst n) \<union> set (snd n))
    \<and> (deps_met op (set (fst n)) \<longrightarrow> op \<in> set (fst (buffer_apply op n)))" for n op
    using buffer_apply_keeps by blast
  moreover have "causal_node n \<longrightarrow> i < length (fst n) \<longrightarrow> deps_met (fst n ! i) (set (take i (fst n)))" for n i
    by (simp add: causal_node_def)
  ultimately show ?thesis unfolding node_laws_def Let_def by simp
qed

text \<open>Two documents: \<open>a\<close> has two operations, and \<open>b\<close> has one and buffers the later operation of \<open>a\<close>.\<close>

definition sample_edit :: "string \<Rightarrow> int \<Rightarrow> crdt_op" where
  "sample_edit origin seq = \<lparr>co_origin = jlit origin, co_seq = seq, co_deps = (if seq = 1 then [] else [(jlit origin, seq - 1)]), co_payload = []\<rparr>"

definition sample_doc :: "string \<Rightarrow> crdt_op list \<Rightarrow> crdt_op list \<Rightarrow> (crdt_op list \<times> crdt_op list) collaborative_text" where
  "sample_doc origin ops waiting = \<lparr>gc_origin = jlit origin, gc_node = (ops, waiting), gc_diagnostics = []\<rparr>"

lemma sample_doc_node [simp]: "gc_node (sample_doc origin ops waiting) = (ops, waiting)"
  by (simp add: sample_doc_def)

subsection \<open>Properties\<close>

text \<open>C29. Two collaborative documents that reconnect both end with every operation that either had delivered, and
  with no others than these and what either had buffered, also when a read fails afterwards. When the buffers hold nothing
  that neither had delivered (so when they are empty), both end with exactly the same operations, with buffers that hold nothing else, and
  show the same text. The hypotheses on the node are the laws above: causal buffering, no equivocation, and a
  projection that depends on the delivered operations only.\<close>

theorem reconnect_converges:
  assumes "node_laws C ready held valid U" "valid (gc_node this)" "valid (gc_node peer)" "reconnect C this peer = ((this', peer'), ok)"
  shows "let either = retained C (gc_node this) \<union> retained C (gc_node peer);
      buffered = held (gc_node this) \<union> held (gc_node peer)
    in either \<subseteq> retained C (gc_node this') \<and> either \<subseteq> retained C (gc_node peer')
      \<and> retained C (gc_node this') \<union> held (gc_node this') \<subseteq> either \<union> buffered
      \<and> retained C (gc_node peer') \<union> held (gc_node peer') \<subseteq> either \<union> buffered
      \<and> (buffered \<subseteq> either \<longrightarrow> retained C (gc_node this') = either \<and> retained C (gc_node peer') = either
           \<and> gs_text (collab_state C this') = gs_text (collab_state C peer'))"
proof -
  note R = reconnect_within [OF assms]
  have same: "gs_text (collab_state C this') = gs_text (collab_state C peer')"
    if "retained C (gc_node this') = retained C (gc_node peer')"
    using node_lawsD(8) [OF assms(1) withinD(1) [OF conjunct1 [OF R]] withinD(1) [OF conjunct2 [OF R]] that] by (simp add: collab_state_def Let_def)
  note B = withinD(2,3) [OF conjunct1 [OF R]] withinD(2,3) [OF conjunct2 [OF R]]
  show ?thesis unfolding Let_def
  proof (intro conjI impI)
    assume buf: "held (gc_node this) \<union> held (gc_node peer) \<subseteq> retained C (gc_node this) \<union> retained C (gc_node peer)"
    show "retained C (gc_node this') = retained C (gc_node this) \<union> retained C (gc_node peer)"
      "retained C (gc_node peer') = retained C (gc_node this) \<union> retained C (gc_node peer)"
      using B buf by blast+
    then show "gs_text (collab_state C this') = gs_text (collab_state C peer')" by (intro same) simp
  qed (use B in blast)+
qed

theorem reconnect_converges_witness:
  "let this = sample_doc ''a'' [sample_edit ''a'' 1, sample_edit ''a'' 2] []; peer = sample_doc ''b'' [sample_edit ''b'' 1] [sample_edit ''a'' 2];
      after = fst (reconnect sample_collab this peer)
   in gs_text (collab_state sample_collab (fst after)) = gs_text (collab_state sample_collab (snd after))
     \<and> retained sample_collab (gc_node (snd after)) = {sample_edit ''b'' 1, sample_edit ''a'' 1, sample_edit ''a'' 2}"
proof -
  let ?mine = "sample_doc ''a'' [sample_edit ''a'' 1, sample_edit ''a'' 2] []" and ?peer = "sample_doc ''b'' [sample_edit ''b'' 1] [sample_edit ''a'' 2]"
  obtain t p ok where r: "reconnect sample_collab ?mine ?peer = ((t, p), ok)" by (metis surj_pair)
  have valid: "causal_node (gc_node ?mine)" "causal_node (gc_node ?peer)"
    by (auto simp: causal_node_def deps_met_def sample_edit_def less_Suc_eq)
  from reconnect_converges [OF sample_node_laws valid r]
  show ?thesis by (simp add: r Let_def insert_commute)
qed

end
