(* ===== verification/App_Manifest.thy ===== *)
theory App_Manifest
  imports Prelude
begin

text \<open>
  The application manifest of \<open>src/manifest.ts\<close>: declarations with defaults filled in, keyed by name. Its
  surfaces are frozen, so a value is enough. The declared anchors are strings of the declaration package.
\<close>

record retention =
  rt_policy :: jstr
  rt_ttl_ms :: "int option"

record manifest_surface =
  ms_glade_id :: jstr
  ms_shape :: jstr
  ms_authority :: jstr
  ms_source :: "jstr option"
  ms_domain :: jstr
  ms_zone :: jstr
  ms_retention :: retention
  ms_share :: jstr
  ms_key :: "byte list option"

record surface_spec =
  sp_id :: jstr
  sp_shape :: jstr
  sp_share :: jstr
  sp_domain :: "jstr option"
  sp_zone :: "jstr option"
  sp_authority :: "jstr option"
  sp_source :: "jstr option"
  sp_retention :: "retention option"
  sp_key :: "byte list option"

definition default_retention :: retention where
  "default_retention = \<lparr>rt_policy = jlit ''latest'', rt_ttl_ms = None\<rparr>"

definition spec_or :: "string \<Rightarrow> jstr option \<Rightarrow> jstr" where
  "spec_or d v = (case v of None \<Rightarrow> jlit d | Some x \<Rightarrow> x)"

definition to_surface :: "surface_spec \<Rightarrow> manifest_surface" where
  "to_surface spec =
     \<lparr>ms_glade_id = sp_id spec, ms_shape = sp_shape spec, ms_authority = spec_or ''share'' (sp_authority spec), ms_source = sp_source spec,
      ms_domain = spec_or ''document'' (sp_domain spec), ms_zone = spec_or ''commons'' (sp_zone spec),
      ms_retention = (case sp_retention spec of None \<Rightarrow> default_retention | Some r \<Rightarrow> r), ms_share = sp_share spec, ms_key = sp_key spec\<rparr>"

text \<open>
  The object that \<open>defineManifest\<close> builds from the own enumerable names of the declarations, in their order. An
  assignment to \<open>__proto__\<close> sets the prototype of the object and makes no property.
\<close>

record app_manifest =
  mn_surfaces :: "(jstr \<times> manifest_surface) list"
  mn_prototype :: "manifest_surface option"

definition declare_surface :: "jstr \<times> surface_spec \<Rightarrow> app_manifest \<Rightarrow> app_manifest" where
  "declare_surface d m =
     (case d of (name, spec) \<Rightarrow>
        if name = jlit ''__proto__'' then m\<lparr>mn_prototype := Some (to_surface spec)\<rparr>
        else m\<lparr>mn_surfaces := jm_set name (to_surface spec) (mn_surfaces m)\<rparr>)"

definition define_manifest :: "(jstr \<times> surface_spec) list \<Rightarrow> app_manifest" where
  "define_manifest specs = fold declare_surface specs \<lparr>mn_surfaces = [], mn_prototype = None\<rparr>"

subsection \<open>What a manifest holds\<close>

lemma declare_surfaces:
  "distinct (jm_keys specs) \<Longrightarrow> jm_get (mn_surfaces (fold declare_surface specs m)) name =
     (if name \<noteq> jlit ''__proto__'' \<and> jm_get specs name \<noteq> None then map_option to_surface (jm_get specs name) else jm_get (mn_surfaces m) name)"
proof (induction specs arbitrary: m)
  case (Cons d specs)
  obtain n spec where d: "d = (n, spec)" by fastforce
  have "jm_get specs n = None" using Cons.prems by (auto simp: d map_of_eq_None_iff)
  with Cons.IH [of "declare_surface d m"] Cons.prems show ?case by (auto simp: d declare_surface_def jm_get_set)
qed simp

text \<open>Every declared name gives its surface, with the defaults for what its declaration leaves out, and no other name gives one.\<close>

lemma manifest_exact:
  assumes "distinct (jm_keys specs)" "name \<noteq> jlit ''__proto__''"
  shows "jm_get (mn_surfaces (define_manifest specs)) name = map_option to_surface (jm_get specs name)"
  using declare_surfaces [OF assms(1)] assms(2) by (cases "jm_get specs name") (simp_all add: define_manifest_def)

end
