(* ===== verification/Spec2Isabelle.thy ===== *)
theory Spec2Isabelle
  imports Store Bytes Value_Fold Log_Fold Shapes Text_Assembler Swmr Events Instance_Swmr Session Binder Single_Writer Store_Idb Supplier Assistance_Resume Resume_Handshake Tap_Mounts Grip_References Leaf_Replace Mcp_Progress Transport_Replies Directory_Watch Collaborative_Text App_Manifest
begin

text \<open>
  Verification of the Glial runtime (\<open>src/src\<close>, TypeScript): the kernel that mounts replicated
  bindings, folds their operations and fans change events out to listeners, its stores, its
  text profile, its single-writer surfaces and its supplier kit.

  \<^bold>\<open>The program.\<close> An application mounts a declaration through \<open>GlialBinder\<close> (\<open>binder.ts\<close>), which keeps one
  \<open>BindingInstance\<close> (\<open>instance.ts\<close>) per key and counts its mounts. An instance stores operations through
  the store seam (\<open>store.ts\<close>, \<open>store_idb.ts\<close>), folds them according to its shape (\<open>folds/value.ts\<close>,
  \<open>folds/log.ts\<close>, \<open>swmr.ts\<close>, \<open>text_crdt.ts\<close>), and broadcasts events (\<open>events.ts\<close>). Attached to glade it sends and
  receives through a destination (\<open>session.ts\<close>). The other side of the wire, an authority that serves
  surfaces, is the supplier (\<open>supplier/index.ts\<close>). \<open>provider_status_atom.ts\<close> and \<open>live_metrics_stream.ts\<close>
  are surfaces with one declared writer. A tap of the grip engine mounts an instance while it is attached and
  shows its events (\<open>grip/index.ts\<close>). Assistance (\<open>assistance/index.ts\<close>) lets a remote consumer read and
  change an application under a grant of its operator: the host discloses the taps of a grip registry
  (\<open>assistance/grip.ts\<close>), a supplier of the kit carries its requests (\<open>assistance/glade.ts\<close>), and the consumers are used
  through the tools of a facade (\<open>assistance/mcp.ts\<close>).

  \<^bold>\<open>The theories.\<close>
  \<^item> \<open>Prelude\<close>: strings as UTF-16 code units, \<open>Map\<close> and \<open>Set\<close> in insertion order, the stable sort with
    its \<open>comparator\<close> locale. \<open>Steps\<close>: runs of labelled step relations and their invariants.
  \<^item> \<open>Bytes\<close> (\<open>bytes.ts\<close>): byte equality, base64 and UTF-8 with their round trips.
  \<^item> \<open>Store\<close> (\<open>store.ts\<close>): operations, the locales \<open>instance_store\<close>, \<open>store_engine\<close> and
    \<open>convergent_assembly\<close>, the memory engine. \<open>Store_Idb\<close> (\<open>store_idb.ts\<close>): the persistent engine over a
    transactional database; both engines interpret the same contracts. What \<open>flushChecked\<close> confirms survives
    a reload, nothing else comes back unless a purge failed (\<open>behind\<close>), and a failing database never changes what the engine answers.
  \<^item> \<open>Value_Fold\<close>, \<open>Log_Fold\<close> (\<open>folds/*.ts\<close>): the last-write register and the log buffer; the winner is the maximum of
    the total order on operations, replicas agree, reads resume without loss or repetition.
  \<^item> \<open>Shapes\<close> (\<open>shapes.ts\<close>): the adapter table and the exact gates.
  \<^item> \<open>Js_Text\<close>, \<open>Js_Json\<close>, \<open>Js_Stringify\<close>, \<open>Js_Uri\<close>, \<open>Js_Write\<close>: what the code uses of code points, \<open>JSON.parse\<close>,
    \<open>JSON.stringify\<close> and \<open>encodeURIComponent\<close>; a written value with plain numbers is parsed back. The JSON parser is a function with fuel; \<open>json_fuel\<close>, twice
    the length of the input plus one, is enough, since every parser consumes input (\<open>json_value_fuel\<close>).
  \<^item> \<open>Text_Edit\<close>, \<open>Text_Ids\<close>, \<open>Text_Plan\<close>, \<open>Text_Project\<close>, \<open>Text_Assembler\<close> (\<open>text_crdt.ts\<close>): the edit payloads,
    the atom identifiers, the plan of a text replacement (its result is exactly the requested text),
    the identity projection, and the incremental assembler, which equals a replay of its whole history.
  \<^item> \<open>Collaborative_Text\<close> (\<open>collaborative_text.ts\<close>): documents that exchange their operations with a peer and converge,
    over a node that buffers operations until their predecessors arrive.
    \<open>App_Manifest\<close> (\<open>manifest.ts\<close>): declarations with their defaults, keyed by name.
  \<^item> \<open>Swmr\<close> (\<open>swmr.ts\<close>): the single-writer action envelope, the canonical assembly and file windows.
  \<^item> \<open>Events\<close> (\<open>events.ts\<close>): the event constructors and their payloads.
  \<^item> \<open>Instance\<close> (\<open>instance.ts\<close>): one definition per method, over a context of instance, engine,
    destination and the trace of listener calls; exceptions keep the state reached. \<open>Instance_Fold\<close>,
    \<open>Instance_Swmr\<close>: every landed record is fanned exactly once, the last event is what a new subscriber is handed,
    an echo does not fold twice, equal deliveries without forked slots converge, single-writer deliveries are all or nothing.
  \<^item> \<open>Session\<close> (\<open>session.ts\<close>): the destination over a session and a bus; a late mount catches up.
  \<^item> \<open>Binder\<close> (\<open>binder.ts\<close>): mounts over a heap of instances; the registry is the multiset of live mounts.
  \<^item> \<open>Single_Writer\<close> (\<open>provider_status_atom.ts\<close>, \<open>live_metrics_stream.ts\<close>): both registries interpret the locale
    \<open>writer_registry\<close>, from which the single-writer discipline follows.
  \<^item> \<open>Supplier\<close> (\<open>supplier/index.ts\<close>): the asynchronous servings as a step relation over suspended functions,
    timers and handlers; deliveries are fenced by generations, no registered serving is stranded, and
    a healthy link always leads to a state where all are attached.

  \<^item> \<open>Grip_Tap\<close>, \<open>Tap_Mounts\<close> (\<open>grip/index.ts\<close>): the taps of one registry: fills from parameters, mounting, projection
    and writes. Each tap holds exactly the mount that its parameters ask for.
  \<^item> \<open>Assistance_Wire\<close> (\<open>assistance/index.ts\<close>, 1-38): requests, results, retained authorities and their proofs.
    \<open>Assistance\<close> (40-155): the supplier of a grant as a step relation over suspended calls, with clocks, operators
    and requests between the parts of a call. \<open>Assistance_Grants\<close> and \<open>Assistance_Calls\<close> hold its invariants;
    \<open>Assistance_Safety\<close> shows that the application changes only under the active grant, on the state that
    the consumer saw, that there is one grant, that an ended one is final and that each call is answered
    once; \<open>Assistance_Resume\<close> shows that a grant has the operator's consent or a proof of its secret.
    \<open>Assistance_Consumer\<close> (157-244): the other side of a pairing; \<open>Consumer_Safety\<close> shows that what it ended stays
    ended and that an invocation is never repeated nor overtaken while its outcome is open.
    \<open>Resume_Handshake\<close>: the two sides together; a resume between ready sides succeeds.
  \<^item> \<open>Grip_Assistance\<close> (\<open>assistance/grip.ts\<close>): what the operator's grip registry discloses and how a write of a
    listed value is carried out. \<open>Grip_Discovery\<close> bounds what is disclosed and shows that nothing hidden is;
    \<open>Grip_References\<close> follows a reference from the listing that gave it to the one leaf that a write changes, and
    \<open>Leaf_Replace\<close> shows that the copy with the new value differs there only.
  \<^item> \<open>Assistance_Mcp\<close> (\<open>assistance/mcp.ts\<close>): the directory, the pairings, the tools and the search for a new generation
    of a supplier, as tasks that stop at every \<open>await\<close>. \<open>Mcp_Methods\<close> and \<open>Mcp_Turns\<close> treat one method of a consumer and
    one turn of a call, \<open>Mcp_Safety\<close> the invariant; \<open>Mcp_Guarantees\<close> and \<open>Mcp_Progress\<close> show that each call is answered
    once, without secrets, after at most 132 turns, that a grant is resumed only at a candidate that was examined, and that a
    lost connection ends every pairing.
  \<^item> \<open>Assistance_Transport\<close>, \<open>Assistance_Wire_Calls\<close> (\<open>assistance/glade.ts\<close>): the binding of a host, over the model of the
    supplier kit, and the client's side: calls, advertisements and the watch of a directory. \<open>Transport_Lifecycle\<close> shows that
    a binding refines a machine of three stages and can always open, \<open>Transport_Replies\<close> that its replies are the host's,
    so that a call over the wire gives what the assistance supplier answered, and \<open>Directory_Watch\<close> what a watch receives.

  \<^bold>\<open>What is a parameter.\<close> The nodes of \<open>@owebeeone/taut-shape\<close> (\<open>crdt_if\<close>, \<open>collab_if\<close>, \<open>swmr_if\<close>, \<open>atom_if\<close>, \<open>stream_if\<close>),
  sessions, buses and clients of glade, the schema of the declaration package, the \<open>localeCompare\<close> and the HMAC of the platform, the errors of IndexedDB, the
  provider of an assistance host and the parameters of a tap are arguments of the definitions that use them; what
  a property relies on is a named hypothesis of it. Callbacks (listeners, handlers, sources, codecs) are taken to
  return and not to call back into the component that calls them. A step of the assistance supplier reads
  the clock once, and the identifiers and secrets that \<open>crypto.randomUUID\<close> gives are labels of the steps.
  Numbers are exact integers; \<open>is_safe_integer\<close> marks the guards of the code.

  \<^bold>\<open>Not modelled.\<close> \<open>index.ts\<close> only re-exports. That an undefined name of a manifest does not compile is
  a matter of TypeScript types. The factories of the grip adapter build taps and grips for the engine, and the platform creates the schema
  of the IndexedDB database, so neither has behaviour of its own to show. The default \<open>setTimeout\<close> scheduler, the handle grip of
  the grip adapter and tests are left out.
\<close>

end
